(* ===== verification/Rendezvos_Prelude.thy ===== *)
theory Rendezvos_Prelude
  imports Main "HOL-Library.Word"
begin

text \<open>
  The vocabulary shared by the component theories: the integer types of
  \<^verbatim>\<open>include/common/types.h\<close>, the error codes of \<^verbatim>\<open>include/rendezvos/error.h\<close>, the
  alignment and paging macros of \<^verbatim>\<open>include/common/align.h\<close> and
  \<^verbatim>\<open>include/common/mm.h\<close>, and generic lemmas on words, lists and options.

  Conventions. An unsigned C integer whose wrap-around matters is a \<open>word\<close> of its width;
  a signed value that never leaves its range is an \<open>int\<close>; an error code is a
  value of \<open>error_t\<close>; a pointer that may be \<open>NULL\<close> is an \<open>option\<close>.
\<close>

unbundle bit_operations_syntax

named_theorems macro_defs \<open>definitions of the C macros\<close>
named_theorems word_nat \<open>reading word operations as arithmetic on natural numbers\<close>

type_synonym u8 = "8 word"
type_synonym u16 = "16 word"
type_synonym u32 = "32 word"
type_synonym u64 = "64 word"

section \<open>Error codes\<close>

datatype error_t =
    REND_SUCCESS | E_RENDEZVOS | E_IN_PARAM | E_REND_TEST | E_REND_IPC | E_REND_AGAIN
  | E_REND_ABANDON | E_REND_NO_MSG | E_REND_RC_UNEQUAL | E_REND_NOFOUND
  | E_REND_OVERFLOW | E_REND_NO_MEM | E_REND_PORT_CLOSED

text \<open>The integer a function returns for an error: \<open>0\<close> or the negated enumeration value.\<close>

fun error_code :: "error_t \<Rightarrow> int" where
  "error_code REND_SUCCESS = 0"
| "error_code E_RENDEZVOS = -1024"
| "error_code E_IN_PARAM = -1025"
| "error_code E_REND_TEST = -1026"
| "error_code E_REND_IPC = -1027"
| "error_code E_REND_AGAIN = -1028"
| "error_code E_REND_ABANDON = -1029"
| "error_code E_REND_NO_MSG = -1030"
| "error_code E_REND_RC_UNEQUAL = -1031"
| "error_code E_REND_NOFOUND = -1032"
| "error_code E_REND_OVERFLOW = -1033"
| "error_code E_REND_NO_MEM = -1034"
| "error_code E_REND_PORT_CLOSED = -1035"

lemma error_code_neg: "e \<noteq> REND_SUCCESS \<Longrightarrow> error_code e < 0"
  by (cases e) simp_all

section \<open>Outcomes and byte strings\<close>

text \<open>
  The outcome of a C function that returns an \<open>error_t\<close> and may be called outside its
  contract: \<open>Undef\<close> stands for undefined behaviour (an access outside a buffer, a \<open>va_arg\<close>
  of the wrong type), \<open>Err\<close> for a returned error, \<open>Ok\<close> for success with its results.
\<close>

datatype 'a res = Undef | Err error_t | Ok 'a

fun res_bind :: "'a res \<Rightarrow> ('a \<Rightarrow> 'b res) \<Rightarrow> 'b res" where
  "res_bind Undef f = Undef"
| "res_bind (Err e) f = Err e"
| "res_bind (Ok x) f = f x"

fun defined :: "'a option \<Rightarrow> 'a res" where
  "defined None = Undef"
| "defined (Some x) = Ok x"

lemma res_bind_Ok_iff: "res_bind m f = Ok y \<longleftrightarrow> (\<exists>x. m = Ok x \<and> f x = Ok y)"
  by (cases m) simp_all

lemma res_bind_Undef_iff: "res_bind m f = Undef \<longleftrightarrow> m = Undef \<or> (\<exists>x. m = Ok x \<and> f x = Undef)"
  by (cases m) simp_all

lemma defined_Ok_iff [simp]: "defined x = Ok y \<longleftrightarrow> x = Some y"
  by (cases x) simp_all

lemma defined_Undef_iff [simp]: "defined x = Undef \<longleftrightarrow> x = None"
  by (cases x) simp_all

lemma defined_not_Err [simp]: "defined x \<noteq> Err e"
  by (cases x) simp_all

text \<open>Little-endian bytes of a machine word, as \<^verbatim>\<open>memcpy\<close> lays them out on both targets.\<close>

definition le_bytes :: "nat \<Rightarrow> 'a::len word \<Rightarrow> u8 list" where
  "le_bytes n w = map (\<lambda>i. ucast (drop_bit (8 * i) w)) [0..<n]"

fun le_value :: "u8 list \<Rightarrow> 'a::len word" where
  "le_value [] = 0"
| "le_value (b # bs) = ucast b OR push_bit 8 (le_value bs)"

definition buf_write :: "u8 list \<Rightarrow> nat \<Rightarrow> u8 list \<Rightarrow> u8 list option" where
  "buf_write base off bs =
     (if off + length bs \<le> length base
      then Some (take off base @ bs @ drop (off + length bs) base) else None)"

definition buf_read :: "u8 list \<Rightarrow> nat \<Rightarrow> nat \<Rightarrow> u8 list option" where
  "buf_read base off n = (if off + n \<le> length base then Some (take n (drop off base)) else None)"

text \<open>
  A C string argument is the list of bytes from its address; its text ends before the first
  zero byte, and a terminating zero byte is in memory after it.
\<close>

definition c_text :: "u8 list \<Rightarrow> u8 list" where
  "c_text s = takeWhile (\<lambda>b. b \<noteq> 0) s"

lemma length_le_bytes [simp]: "length (le_bytes n w) = n"
  by (simp add: le_bytes_def)

lemma bit_le_value: "bit (le_value bs :: 'a::len word) i \<longleftrightarrow>
   i < LENGTH('a) \<and> i div 8 < length bs \<and> bit (bs ! (i div 8)) (i mod 8)"
proof (induction bs arbitrary: i)
  case Nil
  then show ?case by simp
next
  case (Cons b bs)
  show ?case
  proof (cases "i < 8")
    case True
    then show ?thesis by (auto simp: bit_simps)
  next
    case False
    then have "\<not> bit b i" by (auto dest: bit_imp_le_length)
    moreover have "i div 8 = Suc ((i - 8) div 8)" "(i - 8) mod 8 = i mod 8"
      using False by (simp_all add: le_div_geq le_mod_geq)
    ultimately show ?thesis using False Cons.IH [of "i - 8"] by (auto simp: bit_simps)
  qed
qed

lemma le_value_bytes:
  fixes w :: "'a::len word"
  assumes "LENGTH('a) \<le> 8 * n"
  shows "le_value (le_bytes n w) = w"
proof (rule bit_word_eqI)
  fix i assume i: "i < LENGTH('a)"
  have "i div 8 < n" using i assms by linarith
  moreover have "8 * (i div 8) + i mod 8 = i" by simp
  ultimately show "bit (le_value (le_bytes n w) :: 'a word) i = bit w i"
    using i by (simp add: bit_le_value) (simp add: le_bytes_def bit_simps)
qed

lemma buf_read_append [simp]:
  "length as = off \<Longrightarrow> length bs = n \<Longrightarrow> buf_read (as @ bs @ cs) off n = Some bs"
  by (simp add: buf_read_def)

section \<open>Alignment and paging macros\<close>

definition ROUND_UP :: "u64 \<Rightarrow> u64 \<Rightarrow> u64" where
  [macro_defs]: "ROUND_UP x align = (x + (align - 1)) AND NOT (align - 1)"

definition ROUND_DOWN :: "u64 \<Rightarrow> u64 \<Rightarrow> u64" where
  [macro_defs]: "ROUND_DOWN x align = x AND NOT (align - 1)"

definition ALIGNED :: "u64 \<Rightarrow> u64 \<Rightarrow> bool" where
  [macro_defs]: "ALIGNED x align \<longleftrightarrow> x AND (align - 1) = 0"

definition PAGE_SIZE :: u64 where
  [macro_defs]: "PAGE_SIZE = 0x1000"

definition MIDDLE_PAGE_SIZE :: u64 where
  [macro_defs]: "MIDDLE_PAGE_SIZE = 0x200000"

definition PPN :: "u64 \<Rightarrow> u64" where
  [macro_defs]: "PPN p_addr = drop_bit 12 p_addr"

definition PADDR :: "u64 \<Rightarrow> u64" where
  [macro_defs]: "PADDR ppn = push_bit 12 ppn"

definition PAGE_ENTRY_HUGE :: u64 where
  [macro_defs]: "PAGE_ENTRY_HUGE = push_bit 9 1"

definition is_final_level_pt :: "int \<Rightarrow> u64 \<Rightarrow> bool" where
  "is_final_level_pt entry_level flags \<longleftrightarrow>
     (flags AND PAGE_ENTRY_HUGE \<noteq> 0 \<and> (entry_level = 1 \<or> entry_level = 2)) \<or> entry_level = 3"

text \<open>One halving step of \<^verbatim>\<open>log2_of_next_power_of_two\<close>: \<open>if (n >> k) { e += k; n >>= k; }\<close>.\<close>

definition log2_step :: "nat \<Rightarrow> u32 \<times> u32 \<Rightarrow> u32 \<times> u32" where
  "log2_step k = (\<lambda>(e, n). if drop_bit k n \<noteq> 0 then (e + of_nat k, drop_bit k n) else (e, n))"

definition log2_of_next_power_of_two :: "u32 \<Rightarrow> u32" where
  "log2_of_next_power_of_two n =
     (if n = 0 then 0
      else let (e, m) = log2_step 1 (log2_step 2 (log2_step 4 (log2_step 8 (log2_step 16 (0, n - 1)))))
           in e + m)"

section \<open>Words as numbers\<close>

lemma and_not_mask_split: "(x :: 'a::len word) AND NOT (mask n) = push_bit n (drop_bit n x)"
  by (rule bit_word_eqI) (auto simp: bit_simps)

lemma take_bit_plus_high: "(x :: 'a::len word) = (x AND NOT (mask n)) + take_bit n x"
  by (simp add: and_not_mask_split bits_ident)

lemma and_exp_eq_0: "(w :: 'a::len word) AND 2 ^ n = 0 \<longleftrightarrow> \<not> bit w n"
  using bit_iff_and_push_bit_not_eq_0 [of w n] by simp

lemma unat_take_bit [word_nat]: "unat (take_bit n (x :: 'a::len word)) = unat x mod 2 ^ n"
  by (metis take_bit_eq_mod unsigned_take_bit_eq)

lemma unat_drop_bit [word_nat]: "unat (drop_bit n (x :: 'a::len word)) = unat x div 2 ^ n"
  by (metis unat_drop_bit_eq drop_bit_eq_div)

lemma unat_and_not_mask [word_nat]:
  "unat ((x :: 'a::len word) AND NOT (mask n)) = unat x div 2 ^ n * 2 ^ n"
proof -
  have eq: "x AND NOT (mask n) = x - take_bit n x"
    using take_bit_plus_high [of x n] by (metis add_diff_cancel_right')
  have le: "take_bit n x \<le> x"
    by (simp add: word_le_nat_alt unat_take_bit)
  have "unat (x AND NOT (mask n)) = unat x - unat x mod 2 ^ n"
    unfolding eq by (simp add: unat_sub [OF le] unat_take_bit)
  then show ?thesis by (simp add: minus_mod_eq_div_mult)
qed

lemma unat_mask [word_nat]: "n \<le> LENGTH('a) \<Longrightarrow> unat (mask n :: 'a::len word) = 2 ^ n - 1"
  by transfer (simp, metis Suc_mask_eq_exp diff_Suc_1' nat_mask_eq)

lemma unat_of_nat_small: "n < 2 ^ LENGTH('a) \<Longrightarrow> unat (of_nat n :: 'a::len word) = n"
  by (simp add: unat_of_nat)

lemma unat_bound: "unat (w :: 'a::len word) < 2 ^ LENGTH('a)"
  by (rule unsigned_less)

lemma of_nat_unat [simp]: "of_nat (unat (w :: 'a::len word)) = w"
  by simp

lemma unat_ucast_mod [word_nat]:
  "unat (ucast (w :: 'a::len word) :: 'b::len word) = unat w mod 2 ^ LENGTH('b)"
  by (simp add: unsigned_ucast_eq take_bit_eq_mod)

lemma exp_minus_one_mask: "(2 :: 'a::len word) ^ n - 1 = mask n"
  by (simp add: mask_eq_exp_minus_1)

lemma ROUND_DOWN_unat: "unat (ROUND_DOWN x (2 ^ n)) = unat x div 2 ^ n * 2 ^ n"
  by (simp add: ROUND_DOWN_def exp_minus_one_mask unat_and_not_mask)

lemma ALIGNED_unat: "ALIGNED x (2 ^ n) \<longleftrightarrow> 2 ^ n dvd unat x"
proof -
  have "x AND mask n = take_bit n x" by (simp add: take_bit_eq_mask)
  then have "ALIGNED x (2 ^ n) \<longleftrightarrow> unat (take_bit n x) = 0"
    by (simp add: ALIGNED_def exp_minus_one_mask unat_eq_zero)
  then show ?thesis by (simp add: unat_take_bit dvd_eq_mod_eq_0)
qed

lemma ROUND_UP_unat:
  assumes "unat x + 2 ^ n - 1 < 2 ^ 64" and "n < 64"
  shows "unat (ROUND_UP x (2 ^ n)) = (unat x + 2 ^ n - 1) div 2 ^ n * 2 ^ n"
proof -
  have "unat (mask n :: u64) = 2 ^ n - 1"
    using assms(2) by (simp add: unat_mask)
  then have "unat (x + mask n) = unat x + 2 ^ n - 1"
    using assms(1) by (simp add: unat_word_ariths)
  then show ?thesis by (simp add: ROUND_UP_def exp_minus_one_mask unat_and_not_mask)
qed

section \<open>The order of an allocation request\<close>

text \<open>
  \<open>log2_inv m b e n\<close>: after some halving steps from \<open>m\<close>, the remaining value \<open>n\<close> is
  \<open>m\<close> shifted by the exponent \<open>e\<close> collected so far, fits \<open>b\<close> bits, and is zero only if \<open>m\<close> is.
\<close>

definition log2_inv :: "nat \<Rightarrow> nat \<Rightarrow> nat \<Rightarrow> nat \<Rightarrow> bool" where
  "log2_inv m b e n \<longleftrightarrow>
     2 ^ e * n \<le> m \<and> m < 2 ^ e * Suc n \<and> n < 2 ^ b \<and> e + b \<le> 32 \<and> (n = 0 \<longrightarrow> e = 0)"

lemma log2_inv_keep:
  assumes "log2_inv m (2 * k) e n" and "n div 2 ^ k = 0"
  shows "log2_inv m k e n"
proof -
  have "n < 2 ^ k" using assms(2) by (simp add: div_eq_0_iff)
  with assms(1) show ?thesis unfolding log2_inv_def by linarith
qed

lemma log2_inv_halve:
  assumes inv: "log2_inv m (2 * k) e n" and nz: "n div 2 ^ k \<noteq> 0"
  shows "log2_inv m k (e + k) (n div 2 ^ k)"
proof -
  let ?q = "n div 2 ^ k"
  have "2 ^ k * ?q \<le> n" by simp
  then have "2 ^ e * (2 ^ k * ?q) \<le> 2 ^ e * n" by (rule mult_le_mono2)
  moreover have "Suc n \<le> 2 ^ k * Suc ?q"
    by (metis Suc_leI dividend_less_times_div mult.commute mult_Suc_right add.commute
        mult_Suc zero_less_numeral zero_less_power)
  then have "2 ^ e * Suc n \<le> 2 ^ e * (2 ^ k * Suc ?q)" by (rule mult_le_mono2)
  moreover have "?q < 2 ^ k"
    using inv by (intro less_mult_imp_div_less) (simp add: log2_inv_def mult_2 power_add)
  ultimately show ?thesis using inv nz unfolding log2_inv_def power_add mult.assoc
    by linarith
qed

lemma log2_inv_step:
  assumes inv: "log2_inv m (2 * k) (unat e) (unat n)" and step: "log2_step k (e, n) = (e', n')"
  shows "log2_inv m k (unat e') (unat n')"
proof (cases "drop_bit k n = 0")
  case True
  then have "unat n div 2 ^ k = 0" by (metis unat_0 unat_drop_bit)
  with True step log2_inv_keep [OF inv] show ?thesis by (simp add: log2_step_def)
next
  case False
  then have nz: "unat n div 2 ^ k \<noteq> 0" by (metis unat_drop_bit unat_eq_0)
  have "unat e + 2 * k \<le> 32" using inv by (simp add: log2_inv_def)
  then have ek: "unat (e + of_nat k) = unat e + k"
    by (simp add: unat_word_ariths unat_of_nat)
  have "e' = e + of_nat k" "n' = drop_bit k n" using False step by (simp_all add: log2_step_def)
  with log2_inv_halve [OF inv nz] ek show ?thesis by (simp only: unat_drop_bit)
qed

text \<open>The bounds the final pair \<open>e\<close>, \<open>n \<le> 1\<close> gives for \<open>e + n\<close>.\<close>

lemma log2_inv_result:
  assumes "log2_inv m 1 e n"
  shows "m < 2 ^ (e + n)" and "m < 2 ^ k \<Longrightarrow> e + n \<le> k"
proof -
  have h: "2 ^ e * n \<le> m" "m < 2 ^ e * Suc n" "n < 2" "n = 0 \<longrightarrow> e = 0"
    using assms unfolding log2_inv_def by simp_all
  consider "n = 0" | "n = 1" using h(3) by linarith
  then have "m < 2 ^ (e + n) \<and> (m < 2 ^ k \<longrightarrow> e + n \<le> k)"
  proof cases
    case 1
    with h show ?thesis by simp
  next
    case 2
    have "m < 2 ^ k \<Longrightarrow> e < k"
      using h(1) 2 by (metis le_less_trans mult.right_neutral nat_power_less_imp_less zero_less_numeral)
    with 2 h(2) show ?thesis by (simp add: Suc_le_eq)
  qed
  then show "m < 2 ^ (e + n)" and "m < 2 ^ k \<Longrightarrow> e + n \<le> k" by blast+
qed

text \<open>The buddy allocator's rounding: the least \<open>r\<close> with \<open>n \<le> 2 ^ r\<close>.\<close>

lemma log2_of_next_power_of_two_least:
  assumes "n \<noteq> 0"
  shows "unat n \<le> 2 ^ unat (log2_of_next_power_of_two n)"
    and "unat n \<le> 2 ^ k \<Longrightarrow> unat (log2_of_next_power_of_two n) \<le> k"
proof -
  obtain e1 m1 e2 m2 e3 m3 e4 m4 e5 m5 where s:
    "log2_step 16 (0, n - 1) = (e1, m1)" "log2_step 8 (e1, m1) = (e2, m2)"
    "log2_step 4 (e2, m2) = (e3, m3)" "log2_step 2 (e3, m3) = (e4, m4)"
    "log2_step 1 (e4, m4) = (e5, m5)"
    by (metis surj_pair)
  have "log2_inv (unat (n - 1)) (2 * 16) (unat (0 :: u32)) (unat (n - 1))"
    using unsigned_less [of "n - 1"] by (simp add: log2_inv_def)
  then have inv: "log2_inv (unat (n - 1)) 1 (unat e5) (unat m5)"
    using s by (metis (no_types) log2_inv_step mult_2 numeral_Bit0 one_add_one)
  have un: "unat (n - 1) = unat n - 1" "0 < unat n"
    using assms by (simp_all add: unat_minus_one unat_gt_0)
  have res: "log2_of_next_power_of_two n = e5 + m5"
    unfolding log2_of_next_power_of_two_def s Let_def prod.case using assms by simp
  have r: "unat (e5 + m5) = unat e5 + unat m5"
    using inv by (simp add: log2_inv_def unat_word_ariths)
  note b = log2_inv_result [OF inv, folded r res, unfolded un(1)]
  show "unat n \<le> 2 ^ unat (log2_of_next_power_of_two n)" using b(1) un(2) by linarith
  show "unat n \<le> 2 ^ k \<Longrightarrow> unat (log2_of_next_power_of_two n) \<le> k"
    using b(2) [of k] un(2) by linarith
qed

end
