(* ===== verification/Tagged_Ptr.thy ===== *)
theory Tagged_Ptr
  imports Rendezvos_Prelude
begin

text \<open>
  Tagged pointers of \<^verbatim>\<open>include/common/taggedptr.h\<close>: a 48-bit address and a 16-bit tag in
  one 64-bit word, and the fixed-cell bitmap of \<^verbatim>\<open>include/common/dsa/bitmap.h\<close>.
  The radix entries of page slices pack their height and live count into the tag.
\<close>

section \<open>Packing and unpacking\<close>

type_synonym tagged_ptr_t = u64

definition TAG_SHIFT :: nat where
  "TAG_SHIFT = 48"

definition TAG_MASK :: u64 where
  "TAG_MASK = push_bit 16 1 - 1"

definition ADDR_MASK :: u64 where
  "ADDR_MASK = push_bit 48 1 - 1"

definition ADDR_SIGN_MASK :: u64 where
  "ADDR_SIGN_MASK = push_bit 47 1"

definition tp_new_none :: tagged_ptr_t where
  "tp_new_none = 0"

definition tp_is_none :: "tagged_ptr_t \<Rightarrow> bool" where
  "tp_is_none tp \<longleftrightarrow> tp = 0"

definition tp_new :: "u64 \<Rightarrow> u16 \<Rightarrow> tagged_ptr_t" where
  "tp_new ptr tag = (0 OR (ptr AND ADDR_MASK)) OR push_bit TAG_SHIFT (ucast tag)"

definition tp_get_ptr :: "tagged_ptr_t \<Rightarrow> u64" where
  "tp_get_ptr tp =
     (let raw_address = tp AND ADDR_MASK
      in if raw_address AND ADDR_SIGN_MASK \<noteq> 0 then raw_address OR NOT ADDR_MASK else raw_address)"

definition tp_get_tag :: "tagged_ptr_t \<Rightarrow> u16" where
  "tp_get_tag tp = ucast (drop_bit TAG_SHIFT tp)"

definition tp_set_ptr :: "tagged_ptr_t \<Rightarrow> u64 \<Rightarrow> tagged_ptr_t" where
  "tp_set_ptr tp new_ptr = (tp AND NOT ADDR_MASK) OR (new_ptr AND ADDR_MASK)"

definition tp_set_tag :: "tagged_ptr_t \<Rightarrow> u16 \<Rightarrow> tagged_ptr_t" where
  "tp_set_tag tp tag =
     (tp AND NOT (push_bit TAG_SHIFT TAG_MASK)) OR push_bit TAG_SHIFT (ucast tag)"

text \<open>An address is canonical when its bits 48 to 63 repeat bit 47.\<close>

definition canonical :: "u64 \<Rightarrow> bool" where
  "canonical p \<longleftrightarrow> (\<forall>i \<in> {48..<64}. bit p i = bit p 47)"

lemma canonicalD: "canonical p \<Longrightarrow> \<not> i < 48 \<Longrightarrow> i < 64 \<Longrightarrow> bit p i = bit p 47"
  unfolding canonical_def by (metis atLeastLessThan_iff not_less)

lemma ADDR_MASK_mask: "ADDR_MASK = mask 48"
  by (simp add: ADDR_MASK_def mask_eq_exp_minus_1)

lemma TAG_MASK_mask: "TAG_MASK = mask 16"
  by (simp add: TAG_MASK_def mask_eq_exp_minus_1)

lemma sign_bit_test: "(x AND ADDR_SIGN_MASK \<noteq> 0) \<longleftrightarrow> bit x 47"
  unfolding ADDR_SIGN_MASK_def by (rule bit_iff_and_push_bit_not_eq_0 [symmetric])

lemmas tp_defs = tp_new_def tp_get_ptr_def tp_get_tag_def tp_set_ptr_def tp_set_tag_def
  TAG_SHIFT_def ADDR_MASK_mask TAG_MASK_mask

lemma bit_tp_get_ptr: "bit (tp_get_ptr tp) i \<longleftrightarrow> i < 64 \<and> bit tp (if i < 48 then i else 47)"
  by (auto simp: tp_get_ptr_def sign_bit_test ADDR_MASK_mask Let_def bit_simps)

lemma bit_tp_new:
  "bit (tp_new ptr tag) i \<longleftrightarrow> i < 64 \<and> (if i < 48 then bit ptr i else bit tag (i - 48))"
  by (auto simp: tp_new_def TAG_SHIFT_def ADDR_MASK_mask bit_simps dest: bit_imp_le_length)

lemma bit_tp_get_tag: "bit (tp_get_tag tp) i \<longleftrightarrow> i < 16 \<and> bit tp (i + 48)"
  by (auto simp: tp_get_tag_def TAG_SHIFT_def bit_simps add.commute)

lemma tp_get_tag_new [simp]: "tp_get_tag (tp_new ptr tag) = tag"
  by (rule bit_word_eqI) (simp add: bit_tp_get_tag bit_tp_new)

lemma tp_get_ptr_new:
  assumes "canonical ptr"
  shows "tp_get_ptr (tp_new ptr tag) = ptr"
proof (rule bit_word_eqI)
  fix i assume "i < LENGTH(64)"
  then show "bit (tp_get_ptr (tp_new ptr tag)) i = bit ptr i"
    using canonicalD [OF assms, of i] by (cases "i < 48") (simp_all add: bit_tp_get_ptr bit_tp_new)
qed

lemma tp_new_get [simp]: "tp_new (tp_get_ptr tp) (tp_get_tag tp) = tp"
  by (rule bit_word_eqI) (auto simp: bit_tp_get_ptr bit_tp_new bit_tp_get_tag)

lemma canonical_get_ptr [simp]: "canonical (tp_get_ptr tp)"
  unfolding canonical_def bit_tp_get_ptr by simp

lemma tp_set_ptr_new: "tp_set_ptr tp p = tp_new p (tp_get_tag tp)"
  by (rule bit_word_eqI)
    (auto simp: bit_tp_new bit_tp_get_tag tp_set_ptr_def ADDR_MASK_mask bit_simps)

lemma tp_set_tag_new: "tp_set_tag tp tag = tp_new (tp_get_ptr tp) tag"
  by (rule bit_word_eqI)
    (auto simp: bit_tp_new bit_tp_get_ptr tp_set_tag_def TAG_SHIFT_def TAG_MASK_mask bit_simps
      dest: bit_imp_le_length)

section \<open>Fixed-cell bitmaps\<close>

text \<open>
  \<^verbatim>\<open>BITMAP_DEFINE_TYPE(Name, nb_bits)\<close>: the cells are a list of \<open>ROUND_UP(nb_bits, 64) / 64\<close>
  words. An access outside the array is undefined in C; the model returns \<open>None\<close> there.
\<close>

type_synonym bitmap_t = "u64 list"

definition BITMAP_NUM_CELLS :: "nat \<Rightarrow> nat" where
  "BITMAP_NUM_CELLS nb_bits = unat (ROUND_UP (of_nat nb_bits) 64) div 64"

definition bitmap_zero :: "nat \<Rightarrow> bitmap_t" where
  "bitmap_zero nb_bits = replicate (BITMAP_NUM_CELLS nb_bits) 0"

definition bitmap_is_zero :: "bitmap_t \<Rightarrow> bool" where
  "bitmap_is_zero b \<longleftrightarrow> list_all (\<lambda>c. c = 0) b"

definition bitmap_test :: "bitmap_t \<Rightarrow> nat \<Rightarrow> bool option" where
  "bitmap_test b bit_no =
     (if bit_no div 64 < length b
      then Some (b ! (bit_no div 64) AND push_bit (bit_no mod 64) 1 \<noteq> 0) else None)"

definition bitmap_set :: "bitmap_t \<Rightarrow> nat \<Rightarrow> bitmap_t option" where
  "bitmap_set b bit_no =
     (if bit_no div 64 < length b
      then Some (b[bit_no div 64 := b ! (bit_no div 64) OR push_bit (bit_no mod 64) 1]) else None)"

definition bitmap_clear :: "bitmap_t \<Rightarrow> nat \<Rightarrow> bitmap_t option" where
  "bitmap_clear b bit_no =
     (if bit_no div 64 < length b
      then Some (b[bit_no div 64 := b ! (bit_no div 64) AND NOT (push_bit (bit_no mod 64) 1)])
      else None)"

lemma bitmap_test_Some:
  "bit_no div 64 < length b \<Longrightarrow> bitmap_test b bit_no = Some (bit (b ! (bit_no div 64)) (bit_no mod 64))"
  by (simp add: bitmap_test_def and_exp_eq_0)

lemma cell_pos_eq: "(m :: nat) div 64 = n div 64 \<Longrightarrow> m mod 64 = n mod 64 \<Longrightarrow> m = n"
  by (metis div_mult_mod_eq)

lemma bitmap_test_set:
  "bitmap_set b i = Some b' \<Longrightarrow> bitmap_test b' j = (if j = i then Some True else bitmap_test b j)"
  using cell_pos_eq [of i j]
  by (auto simp: bitmap_set_def bitmap_test_def and_exp_eq_0 nth_list_update bit_simps
      split: if_splits)

lemma bitmap_test_clear:
  "bitmap_clear b i = Some b' \<Longrightarrow> bitmap_test b' j = (if j = i then Some False else bitmap_test b j)"
  using cell_pos_eq [of i j]
  by (auto simp: bitmap_clear_def bitmap_test_def and_exp_eq_0 nth_list_update bit_simps
      split: if_splits)

lemma bitmap_is_zero_test:
  "bitmap_is_zero b \<longleftrightarrow> (\<forall>i < 64 * length b. bitmap_test b i = Some False)"
proof -
  have "bitmap_test b (64 * k + r) = Some False \<longleftrightarrow> \<not> bit (b ! k) r" if "k < length b" "r < 64" for k r
    using that by (simp add: bitmap_test_def and_exp_eq_0)
  moreover have "b ! k = 0 \<longleftrightarrow> (\<forall>r < 64. \<not> bit (b ! k) r)" for k
    by (auto simp: bit_eq_iff dest: bit_imp_le_length)
  moreover have "i div 64 < length b \<and> i = 64 * (i div 64) + i mod 64" if "i < 64 * length b" for i :: nat
    using that by (simp add: less_mult_imp_div_less mult.commute)
  moreover have "64 * k + r < 64 * length b" if "k < length b" "r < 64" for k r :: nat
    using that by linarith
  ultimately show ?thesis unfolding bitmap_is_zero_def list_all_length
    by (metis mod_less_divisor zero_less_numeral)
qed

end
