(* ===== verification/Link_List.thy ===== *)
theory Link_List
  imports Main "HOL-Library.Monad_Syntax"
begin

text \<open>
  The intrusive doubly linked list of \<^verbatim>\<open>include/common/dsa/list.h\<close>, on an explicit heap.
  A heap maps a node's address to its \<open>prev\<close> and \<open>next\<close> pointers (\<open>None\<close> is \<open>NULL\<close>, as
  in zeroed memory); an operation that would write through a \<open>NULL\<close> pointer returns
  \<open>None\<close>. The address type is a parameter: the buddy allocator uses bucket heads and page
  descriptors as addresses.

  \<open>ring h head xs\<close> says that the circular list at \<open>head\<close> links exactly the nodes \<open>xs\<close>, in
  order. The locale \<open>list_heads\<close> states what the operations promise their clients, and is
  interpreted on the pointer operations.
\<close>

section \<open>The heap and its operations\<close>

record 'a list_heap =
  l_prev :: "'a \<Rightarrow> 'a option"
  l_next :: "'a \<Rightarrow> 'a option"

definition set_prev :: "'a \<Rightarrow> 'a \<Rightarrow> 'a list_heap \<Rightarrow> 'a list_heap" where
  "set_prev n p h = h\<lparr>l_prev := (l_prev h)(n := Some p)\<rparr>"

definition set_next :: "'a \<Rightarrow> 'a \<Rightarrow> 'a list_heap \<Rightarrow> 'a list_heap" where
  "set_next n q h = h\<lparr>l_next := (l_next h)(n := Some q)\<rparr>"

definition INIT_LIST_HEAD :: "'a \<Rightarrow> 'a list_heap \<Rightarrow> 'a list_heap" where
  "INIT_LIST_HEAD n h = set_next n n (set_prev n n h)"

definition list_add_between :: "'a \<Rightarrow> 'a \<Rightarrow> 'a \<Rightarrow> 'a list_heap \<Rightarrow> 'a list_heap" where
  "list_add_between new p q h =
     set_next p new (set_prev new p (set_next new q (set_prev q new h)))"

definition list_add_head :: "'a \<Rightarrow> 'a \<Rightarrow> 'a list_heap \<Rightarrow> 'a list_heap option" where
  "list_add_head new head h =
     (case l_next h head of None \<Rightarrow> None | Some q \<Rightarrow> Some (list_add_between new head q h))"

definition list_add_tail :: "'a \<Rightarrow> 'a \<Rightarrow> 'a list_heap \<Rightarrow> 'a list_heap option" where
  "list_add_tail new head h =
     (case l_prev h head of None \<Rightarrow> None | Some p \<Rightarrow> Some (list_add_between new p head h))"

definition list_del_between :: "'a \<Rightarrow> 'a \<Rightarrow> 'a list_heap \<Rightarrow> 'a list_heap" where
  "list_del_between p q h = set_prev q p (set_next p q h)"

definition list_del_init :: "'a \<Rightarrow> 'a list_heap \<Rightarrow> 'a list_heap option" where
  "list_del_init node h =
     (case (l_prev h node, l_next h node) of
        (Some p, Some q) \<Rightarrow> Some (INIT_LIST_HEAD node (list_del_between p q h))
      | _ \<Rightarrow> None)"

definition list_del :: "'a \<Rightarrow> 'a list_heap \<Rightarrow> 'a list_heap option" where
  "list_del node h = list_del_init node h"

definition list_replace :: "'a \<Rightarrow> 'a \<Rightarrow> 'a list_heap \<Rightarrow> 'a list_heap option" where
  "list_replace old new h = do {
     q \<leftarrow> l_next h old;
     let h = set_prev q new (set_next new q h);
     p \<leftarrow> l_prev h old;
     Some (set_next p new (set_prev new p h))
   }"

definition list_replace_init :: "'a \<Rightarrow> 'a \<Rightarrow> 'a list_heap \<Rightarrow> 'a list_heap option" where
  "list_replace_init old new h = do {
     h \<leftarrow> list_replace old new h;
     Some (INIT_LIST_HEAD old h)
   }"

definition list_empty :: "'a \<Rightarrow> 'a list_heap \<Rightarrow> bool" where
  "list_empty head h \<longleftrightarrow> l_next h head = Some head"

definition list_only_one_entry :: "'a \<Rightarrow> 'a list_heap \<Rightarrow> bool" where
  "list_only_one_entry head h \<longleftrightarrow> \<not> list_empty head h \<and> l_next h head = l_prev h head"

definition list_node_is_detached :: "'a option \<Rightarrow> 'a list_heap \<Rightarrow> bool" where
  "list_node_is_detached n h =
     (case n of None \<Rightarrow> False | Some m \<Rightarrow> l_next h m = Some m \<and> l_prev h m = Some m)"

definition list_node_is_valid :: "'a option \<Rightarrow> 'a list_heap \<Rightarrow> bool" where
  "list_node_is_valid n h =
     (case n of None \<Rightarrow> False | Some m \<Rightarrow> l_next h m \<noteq> None \<and> l_prev h m \<noteq> None)"

text \<open>
  \<^verbatim>\<open>list_for_each\<close>: follow \<open>next\<close> from \<open>pos\<close> until the head comes round. The fuel bounds
  the number of nodes visited; a list that does not come back to its head, or a \<open>NULL\<close>
  link, gives \<open>None\<close>.
\<close>

fun list_for_each :: "nat \<Rightarrow> 'a list_heap \<Rightarrow> 'a \<Rightarrow> 'a option \<Rightarrow> 'a list option" where
  "list_for_each fuel h head None = None"
| "list_for_each 0 h head (Some pos) = (if pos = head then Some [] else None)"
| "list_for_each (Suc fuel) h head (Some pos) =
     (if pos = head then Some []
      else map_option (Cons pos) (list_for_each fuel h head (l_next h pos)))"

lemmas list_write_defs = set_prev_def set_next_def INIT_LIST_HEAD_def list_add_between_def
  list_del_between_def

section \<open>Chains and rings\<close>

fun chain :: "'a list_heap \<Rightarrow> 'a list \<Rightarrow> bool" where
  "chain h (x # y # zs) \<longleftrightarrow> l_next h x = Some y \<and> l_prev h y = Some x \<and> chain h (y # zs)"
| "chain h _ \<longleftrightarrow> True"

definition ring :: "'a list_heap \<Rightarrow> 'a \<Rightarrow> 'a list \<Rightarrow> bool" where
  "ring h head xs \<longleftrightarrow> distinct (head # xs) \<and> chain h (head # xs @ [head])"

lemma chain_append: "chain h (xs @ y # zs) \<longleftrightarrow> chain h (xs @ [y]) \<and> chain h (y # zs)"
proof (induction xs)
  case (Cons x xs)
  then show ?case by (cases xs) auto
qed (cases zs; simp)

lemma chain_split2:
  "chain h (xs @ p # q # zs) \<longleftrightarrow>
     chain h (xs @ [p]) \<and> l_next h p = Some q \<and> l_prev h q = Some p \<and> chain h (q # zs)"
  using chain_append [of h xs p "q # zs"] by auto

lemma chain_cong:
  assumes "\<And>x. x \<in> set (butlast xs) \<Longrightarrow> l_next h' x = l_next h x"
    and "\<And>x. x \<in> set (tl xs) \<Longrightarrow> l_prev h' x = l_prev h x"
  shows "chain h' xs \<longleftrightarrow> chain h xs"
  using assms by (induction h xs rule: chain.induct) auto

lemma ring_frame:
  assumes "ring h head xs"
    and "\<And>x. x \<in> set (head # xs) \<Longrightarrow> l_next h' x = l_next h x \<and> l_prev h' x = l_prev h x"
  shows "ring h' head xs"
proof -
  have "chain h' (head # xs @ [head]) \<longleftrightarrow> chain h (head # xs @ [head])"
    using assms(2) by (intro chain_cong) (auto simp: butlast_append)
  with assms(1) show ?thesis by (simp add: ring_def)
qed

lemma ring_init: "ring (INIT_LIST_HEAD head h) head []"
  by (simp add: ring_def list_write_defs)

text \<open>
  Inserting between, and deleting between, two neighbours of a chain whose links are all
  different (the two end points may be the same node, the list head).
\<close>

lemma chain_insert:
  assumes "chain h (as @ p # q # bs)"
    and "distinct (butlast (as @ p # q # bs))" and "distinct (tl (as @ p # q # bs))"
    and "new \<notin> set (as @ p # q # bs)"
  shows "chain (list_add_between new p q h) (as @ p # new # q # bs)"
proof -
  have p: "p \<notin> set as" "p \<notin> set (butlast (q # bs))"
    using assms(2) by (auto simp: butlast_append split: if_splits)
  have q: "q \<notin> set (tl (as @ [p]))" "q \<notin> set bs"
    using assms(3) by (cases as; auto)+
  have "chain (list_add_between new p q h) (as @ [p]) \<longleftrightarrow> chain h (as @ [p])"
    using p(1) q(1) assms(4)
    by (intro chain_cong) (cases as; auto simp: list_write_defs)+
  moreover have "chain (list_add_between new p q h) (q # bs) \<longleftrightarrow> chain h (q # bs)"
    using p(2) q(2) assms(4)
    by (intro chain_cong) (auto simp: list_write_defs simp del: butlast.simps dest: in_set_butlastD)
  ultimately show ?thesis using assms(1,4)
    by (auto simp: chain_split2 list_write_defs)
qed

lemma chain_delete:
  assumes "chain h (as @ p # m # q # bs)"
    and "distinct (butlast (as @ p # m # q # bs))" and "distinct (tl (as @ p # m # q # bs))"
    and "m \<noteq> p" "m \<noteq> q" "m \<notin> set as" "m \<notin> set bs"
  shows "chain (INIT_LIST_HEAD m (list_del_between p q h)) (as @ p # q # bs)"
proof -
  let ?h = "INIT_LIST_HEAD m (list_del_between p q h)"
  have p: "p \<notin> set as" "p \<notin> set (butlast (q # bs))"
    using assms(2) by (auto simp: butlast_append split: if_splits)
  have q: "q \<notin> set (tl (as @ [p]))" "q \<notin> set bs"
    using assms(3) by (cases as; auto)+
  have "chain ?h (as @ [p]) \<longleftrightarrow> chain h (as @ [p])"
    using p(1) q(1) assms(4-7)
    by (intro chain_cong) (cases as; auto simp: list_write_defs)+
  moreover have "chain ?h (q # bs) \<longleftrightarrow> chain h (q # bs)"
    using p(2) q(2) assms(4-7)
    by (intro chain_cong) (auto simp: list_write_defs simp del: butlast.simps dest: in_set_butlastD)
  moreover have "chain h (q # bs)" "chain h (as @ [p])"
    using assms(1) by (auto simp: chain_split2)
  ultimately show ?thesis using assms(4,5) unfolding chain_split2
    by (auto simp: list_write_defs)
qed

section \<open>What each operation does to a ring\<close>

lemma ring_next: "ring h head xs \<Longrightarrow> l_next h head = Some (hd (xs @ [head]))"
  by (cases xs) (auto simp: ring_def)

lemma ring_prev:
  assumes "ring h head xs"
  shows "l_prev h head = Some (last (head # xs))"
proof (cases xs rule: rev_cases)
  case Nil
  with assms show ?thesis by (simp add: ring_def)
next
  case (snoc ys y)
  then have "chain h ((head # ys) @ y # head # [])" using assms by (simp add: ring_def)
  then show ?thesis unfolding chain_split2 using snoc by simp
qed

lemma ring_add_head:
  assumes "ring h head xs" and "new \<notin> set (head # xs)"
  shows "\<exists>h'. list_add_head new head h = Some h' \<and> ring h' head (new # xs)"
proof -
  obtain q bs where q: "xs @ [head] = q # bs" by (cases xs) auto
  have "chain (list_add_between new head q h) ([] @ head # new # q # bs)"
    using assms q [symmetric] by (intro chain_insert) (auto simp: ring_def butlast_append)
  moreover have "l_next h head = Some q" using ring_next [OF assms(1)] q by simp
  ultimately show ?thesis using assms q by (auto simp: list_add_head_def ring_def)
qed

lemma ring_add_tail:
  assumes "ring h head xs" and "new \<notin> set (head # xs)"
  shows "\<exists>h'. list_add_tail new head h = Some h' \<and> ring h' head (xs @ [new])"
proof -
  obtain as p where p: "head # xs = as @ [p]" by (metis append_butlast_last_id list.distinct(1))
  then have path: "head # xs @ [head] = as @ p # head # []" by simp
  have "chain h (as @ p # head # [])" using assms(1) path by (simp add: ring_def)
  then have "chain (list_add_between new p head h) (as @ p # new # head # [])"
  proof (rule chain_insert)
    show "distinct (butlast (as @ [p, head]))"
      using assms(1) p by (simp add: ring_def butlast_append)
    have "distinct (xs @ [head])" using assms(1) by (auto simp: ring_def)
    then show "distinct (tl (as @ [p, head]))" using path by (metis list.sel(3))
    have "new \<notin> set (head # xs @ [head])" using assms(2) by simp
    then show "new \<notin> set (as @ [p, head])" unfolding path .
  qed
  moreover have "l_prev h head = Some p" using ring_prev [OF assms(1)] p by simp
  moreover have "(as @ [p]) @ [new, head] = head # (xs @ [new]) @ [head]"
    unfolding p [symmetric] by simp
  then have "as @ [p, new, head] = head # (xs @ [new]) @ [head]" by simp
  ultimately show ?thesis using assms by (auto simp: list_add_tail_def ring_def)
qed

lemma split_path:
  assumes "head # ys = as @ [p]" and "zs @ [head] = q # bs"
  shows "head # (ys @ n # zs) @ [head] = as @ p # n # q # bs"
proof -
  have "head # (ys @ n # zs) @ [head] = (head # ys) @ n # zs @ [head]" by simp
  also have "\<dots> = as @ p # n # q # bs" unfolding assms by simp
  finally show ?thesis .
qed

lemma ring_del:
  assumes "ring h head xs" and "n \<in> set xs"
  shows "\<exists>h'. list_del n h = Some h' \<and> ring h' head (remove1 n xs) \<and>
           list_node_is_detached (Some n) h'"
proof -
  obtain ys zs where xs: "xs = ys @ n # zs" "n \<notin> set ys" using assms(2) by (meson split_list_first)
  obtain as p where p: "head # ys = as @ [p]" by (metis append_butlast_last_id list.distinct(1))
  obtain q bs where q: "zs @ [head] = q # bs" by (cases zs) auto
  have path: "head # xs @ [head] = as @ p # n # q # bs"
    using split_path [OF p q, of n] xs by simp
  have d: "distinct (head # xs)" and c: "chain h (as @ p # n # q # bs)"
    using assms(1) path by (auto simp: ring_def)
  have sets: "set (as @ [p]) = set (head # ys)" "set (q # bs) = set (zs @ [head])"
    by (simp_all only: p q)
  have notin: "n \<notin> set (as @ [p])" "n \<notin> set (q # bs)"
    unfolding sets using d xs by auto
  have "butlast (as @ p # n # q # bs) = head # xs" "tl (as @ p # n # q # bs) = xs @ [head]"
    unfolding path [symmetric] by (simp_all add: butlast_append)
  then have del: "chain (INIT_LIST_HEAD n (list_del_between p q h)) (as @ p # q # bs)"
    using c d notin by (intro chain_delete) auto
  have nb: "l_prev h n = Some p" "l_next h n = Some q"
    using c [THEN chain_append [THEN iffD1]] by auto
  have r: "remove1 n xs = ys @ zs" using xs by (simp add: remove1_append)
  have "(as @ [p]) @ (q # bs) = head # (ys @ zs) @ [head]" by (simp add: p [symmetric] q [symmetric])
  then have "as @ p # q # bs = head # (ys @ zs) @ [head]" by simp
  with del d xs have "ring (INIT_LIST_HEAD n (list_del_between p q h)) head (ys @ zs)"
    by (auto simp: ring_def)
  then have "ring (INIT_LIST_HEAD n (list_del_between p q h)) head (remove1 n xs)" by (simp only: r)
  moreover have "list_node_is_detached (Some n) (INIT_LIST_HEAD n (list_del_between p q h))"
    by (simp add: list_node_is_detached_def list_write_defs)
  ultimately show ?thesis using nb by (simp add: list_del_def list_del_init_def)
qed

text \<open>A node that is on no list is a ring of its own: deleting it changes nothing.\<close>

lemma list_del_detached:
  assumes "list_node_is_detached (Some n) h"
  shows "list_del n h = Some h"
proof -
  have "(l_next h)(n \<mapsto> n) = l_next h" "(l_prev h)(n \<mapsto> n) = l_prev h"
    using assms by (auto simp: list_node_is_detached_def)
  with assms show ?thesis
    by (simp add: list_node_is_detached_def list_del_def list_del_init_def list_write_defs)
qed

lemma list_add_head_frame:
  assumes "ring h head xs" and "list_add_head new head h = Some h'" and "x \<notin> set (new # head # xs)"
  shows "l_next h' x = l_next h x \<and> l_prev h' x = l_prev h x"
  using assms ring_next [OF assms(1)]
  by (cases xs) (auto simp: list_add_head_def list_write_defs split: option.splits)

lemma list_add_tail_frame:
  assumes "ring h head xs" and "list_add_tail new head h = Some h'" and "x \<notin> set (new # head # xs)"
  shows "l_next h' x = l_next h x \<and> l_prev h' x = l_prev h x"
  using assms ring_prev [OF assms(1)] last_in_set [of "head # xs"]
  by (auto simp: list_add_tail_def list_write_defs split: option.splits if_splits)

lemma ring_neighbours:
  assumes "ring h head xs" and "n \<in> set xs"
  shows "\<exists>p q. l_prev h n = Some p \<and> l_next h n = Some q \<and> p \<in> set (head # xs) \<and> q \<in> set (head # xs)"
proof -
  obtain ys zs where xs: "xs = ys @ n # zs" using assms(2) by (meson split_list)
  obtain as p where p: "head # ys = as @ [p]" by (metis append_butlast_last_id list.distinct(1))
  obtain q bs where q: "zs @ [head] = q # bs" by (cases zs) auto
  have "chain h (as @ p # n # q # bs)"
    using assms(1) split_path [OF p q, of n] xs by (simp add: ring_def)
  then have "chain h (p # n # q # bs)" by (rule chain_append [THEN iffD1, THEN conjunct2])
  then have "l_prev h n = Some p" "l_next h n = Some q" by auto
  moreover have "p \<in> set (head # ys)" unfolding p by simp
  moreover have "q \<in> set (zs @ [head])" unfolding q by simp
  ultimately show ?thesis using xs by auto
qed

lemma list_del_frame:
  assumes "ring h head xs" and "n \<in> set xs" and "list_del n h = Some h'" and "x \<notin> set (head # xs)"
  shows "l_next h' x = l_next h x \<and> l_prev h' x = l_prev h x"
  using ring_neighbours [OF assms(1,2)] assms
  by (auto simp: list_del_def list_del_init_def list_write_defs)

lemma ring_empty: "ring h head xs \<Longrightarrow> list_empty head h \<longleftrightarrow> xs = []"
  using ring_next [of h head xs] by (cases xs) (auto simp: list_empty_def ring_def)

lemma ring_only_one: "ring h head xs \<Longrightarrow> list_only_one_entry head h \<longleftrightarrow> length xs = 1"
proof -
  assume r: "ring h head xs"
  show ?thesis
  proof (cases xs)
    case Nil
    with ring_empty [OF r] show ?thesis by (simp add: list_only_one_entry_def)
  next
    case (Cons y ys)
    have "y = last (y # ys) \<longleftrightarrow> ys = []" using r Cons last_in_set [of ys] by (auto simp: ring_def)
    with ring_empty [OF r] ring_next [OF r] ring_prev [OF r] Cons show ?thesis
      by (auto simp: list_only_one_entry_def)
  qed
qed

text \<open>
  The traversal visits exactly the nodes of the ring, in order: fuel for the list's length
  is enough.
\<close>

lemma list_for_each_chain:
  assumes "chain h (x # xs @ [head])" and "head \<notin> set xs" and "length xs \<le> fuel"
  shows "list_for_each fuel h head (l_next h x) = Some xs"
  using assms
proof (induction xs arbitrary: x fuel)
  case Nil
  then show ?case by (cases fuel) auto
next
  case (Cons y ys)
  then obtain f where f: "fuel = Suc f" by (cases fuel) auto
  with Cons show ?case by auto
qed

lemma ring_for_each:
  assumes "ring h head xs" and "length xs \<le> fuel"
  shows "list_for_each fuel h head (l_next h head) = Some xs"
  using assms by (intro list_for_each_chain) (auto simp: ring_def)

section \<open>The interface: lists by their heads\<close>

text \<open>
  What a client that keeps several lists over one heap relies on. \<open>lst h head xs\<close>: the list
  at \<open>head\<close> holds \<open>xs\<close>; \<open>same h h' x\<close>: the links of \<open>x\<close> have not changed.
\<close>

locale list_heads =
  fixes lst :: "'h \<Rightarrow> 'a \<Rightarrow> 'a list \<Rightarrow> bool"
    and same :: "'h \<Rightarrow> 'h \<Rightarrow> 'a \<Rightarrow> bool"
    and detached :: "'h \<Rightarrow> 'a \<Rightarrow> bool"
    and add_head :: "'a \<Rightarrow> 'a \<Rightarrow> 'h \<Rightarrow> 'h option"
    and add_tail :: "'a \<Rightarrow> 'a \<Rightarrow> 'h \<Rightarrow> 'h option"
    and del :: "'a \<Rightarrow> 'h \<Rightarrow> 'h option"
  assumes lst_frame: "lst h a xs \<Longrightarrow> (\<And>x. x \<in> set (a # xs) \<Longrightarrow> same h h' x) \<Longrightarrow> lst h' a xs"
    and detached_same: "detached h x \<Longrightarrow> same h h' x \<Longrightarrow> detached h' x"
    and add_head_ok: "lst h a xs \<Longrightarrow> n \<notin> set (a # xs) \<Longrightarrow>
      \<exists>h'. add_head n a h = Some h' \<and> lst h' a (n # xs) \<and>
        (\<forall>x. x \<notin> set (n # a # xs) \<longrightarrow> same h h' x)"
    and add_tail_ok: "lst h a xs \<Longrightarrow> n \<notin> set (a # xs) \<Longrightarrow>
      \<exists>h'. add_tail n a h = Some h' \<and> lst h' a (xs @ [n]) \<and>
        (\<forall>x. x \<notin> set (n # a # xs) \<longrightarrow> same h h' x)"
    and del_ok: "lst h a xs \<Longrightarrow> n \<in> set xs \<Longrightarrow>
      \<exists>h'. del n h = Some h' \<and> lst h' a (remove1 n xs) \<and> detached h' n \<and>
        (\<forall>x. x \<notin> set (a # xs) \<longrightarrow> same h h' x)"
    and del_detached: "detached h n \<Longrightarrow> del n h = Some h"
begin

text \<open>
  A family of lists \<open>c\<close>, one for each head: the heads and all members are different nodes.
\<close>

definition family :: "'h \<Rightarrow> 'a set \<Rightarrow> ('a \<Rightarrow> 'a list) \<Rightarrow> bool" where
  "family h A c \<longleftrightarrow> (\<forall>a \<in> A. lst h a (c a)) \<and>
     (\<forall>a \<in> A. \<forall>x \<in> set (c a). x \<notin> A \<and> (\<forall>b \<in> A. x \<in> set (c b) \<longrightarrow> b = a))"

lemma familyD:
  assumes "family h A c" and "a \<in> A"
  shows "lst h a (c a)" and "x \<in> set (c a) \<Longrightarrow> x \<notin> A"
    and "x \<in> set (c a) \<Longrightarrow> b \<in> A \<Longrightarrow> x \<in> set (c b) \<Longrightarrow> b = a"
  using assms unfolding family_def by blast+

lemma family_change:
  assumes fam: "family h A c" and a: "a \<in> A" and new: "lst h' a xs"
    and same: "\<And>x. x \<notin> set (a # xs) \<union> set (c a) \<Longrightarrow> same h h' x"
    and fresh: "\<And>x b. x \<in> set xs \<Longrightarrow> x \<notin> A \<and> (b \<in> A \<longrightarrow> b \<noteq> a \<longrightarrow> x \<notin> set (c b))"
  shows "family h' A (c(a := xs))"
proof -
  have other: "lst h' b (c b)" if b: "b \<in> A" "b \<noteq> a" for b
  proof (rule lst_frame [OF familyD(1) [OF fam b(1)]])
    fix x assume x: "x \<in> set (b # c b)"
    have "x \<noteq> a" using x b familyD(2) [OF fam b(1)] a by auto
    moreover have "x \<notin> set xs" using x fresh [of x b] b by auto
    moreover have "x \<notin> set (c a)"
      using x b a familyD(2) [OF fam a] familyD(3) [OF fam a, of x b] by auto
    ultimately show "same h h' x" by (intro same) simp
  qed
  show ?thesis unfolding family_def
  proof (intro conjI ballI impI)
    fix d assume "d \<in> A"
    then show "lst h' d ((c(a := xs)) d)" using new other by (cases "d = a") auto
    fix x assume x: "x \<in> set ((c(a := xs)) d)"
    show "x \<notin> A" using x fresh familyD(2) [OF fam \<open>d \<in> A\<close>] by (cases "d = a") auto
    fix b assume "b \<in> A" "x \<in> set ((c(a := xs)) b)"
    then show "b = d"
      using x fresh [of x b] fresh [of x d] familyD(3) [OF fam \<open>d \<in> A\<close>] \<open>d \<in> A\<close>
      by (cases "d = a"; cases "b = a") auto
  qed
qed

lemma family_add_head:
  assumes fam: "family h A c" and a: "a \<in> A" and n: "n \<notin> A" "\<And>b. b \<in> A \<Longrightarrow> n \<notin> set (c b)"
  shows "\<exists>h'. add_head n a h = Some h' \<and> family h' A (c(a := n # c a)) \<and>
           (\<forall>x. x \<notin> set (n # a # c a) \<longrightarrow> same h h' x)"
proof -
  have "n \<notin> set (a # c a)" using a n by auto
  from add_head_ok [OF familyD(1) [OF fam a] this] obtain h' where
    h': "add_head n a h = Some h'" "lst h' a (n # c a)"
      "\<forall>x. x \<notin> set (n # a # c a) \<longrightarrow> same h h' x" by blast
  have "family h' A (c(a := n # c a))"
    using n h'(3) familyD(2,3) [OF fam a]
    by (intro family_change [OF fam a h'(2)]) auto
  with h' show ?thesis by blast
qed

lemma family_add_tail:
  assumes fam: "family h A c" and a: "a \<in> A" and n: "n \<notin> A" "\<And>b. b \<in> A \<Longrightarrow> n \<notin> set (c b)"
  shows "\<exists>h'. add_tail n a h = Some h' \<and> family h' A (c(a := c a @ [n])) \<and>
           (\<forall>x. x \<notin> set (n # a # c a) \<longrightarrow> same h h' x)"
proof -
  have "n \<notin> set (a # c a)" using a n by auto
  from add_tail_ok [OF familyD(1) [OF fam a] this] obtain h' where
    h': "add_tail n a h = Some h'" "lst h' a (c a @ [n])"
      "\<forall>x. x \<notin> set (n # a # c a) \<longrightarrow> same h h' x" by blast
  have "family h' A (c(a := c a @ [n]))"
    using n h'(3) familyD(2,3) [OF fam a]
    by (intro family_change [OF fam a h'(2)]) auto
  with h' show ?thesis by blast
qed

lemma family_del:
  assumes fam: "family h A c" and a: "a \<in> A" and n: "n \<in> set (c a)"
  shows "\<exists>h'. del n h = Some h' \<and> family h' A (c(a := remove1 n (c a))) \<and> detached h' n \<and>
           (\<forall>x. x \<notin> set (a # c a) \<longrightarrow> same h h' x)"
proof -
  from del_ok [OF familyD(1) [OF fam a] n] obtain h' where
    h': "del n h = Some h'" "lst h' a (remove1 n (c a))" "detached h' n"
      "\<forall>x. x \<notin> set (a # c a) \<longrightarrow> same h h' x" by blast
  have sub: "x \<in> set (remove1 n (c a)) \<Longrightarrow> x \<in> set (c a)" for x
    using set_remove1_subset by fastforce
  have "family h' A (c(a := remove1 n (c a)))"
    using h'(4) sub familyD(2) [OF fam a] familyD(3) [OF fam a]
    by (intro family_change [OF fam a h'(2)]) (auto, blast)
  with h' show ?thesis by blast
qed

text \<open>Moving a node from one list to the head of another.\<close>

lemma family_move:
  assumes "family h A c" and "a \<in> A" and "b \<in> A" and "a \<noteq> b" and "n \<in> set (c a)" and "n \<notin> set (remove1 n (c a))"
  shows "\<exists>h1 h2. del n h = Some h1 \<and> add_head n b h1 = Some h2 \<and>
           family h2 A (c(a := remove1 n (c a), b := n # c b))"
proof -
  from family_del [OF assms(1,2,5)] obtain h1 where
    h1: "del n h = Some h1" "family h1 A (c(a := remove1 n (c a)))" by blast
  have nA: "n \<notin> A" and nb: "\<And>d. d \<in> A \<Longrightarrow> n \<notin> set ((c(a := remove1 n (c a))) d)"
    using assms(6) familyD(2,3) [OF assms(1,2)] assms(5) by (auto split: if_splits)
  from family_add_head [OF h1(2) assms(3) nA nb] obtain h2 where
    "add_head n b h1 = Some h2"
      "family h2 A ((c(a := remove1 n (c a)))(b := n # (c(a := remove1 n (c a))) b))" by blast
  then have "add_head n b h1 = Some h2" "family h2 A ((c(a := remove1 n (c a)))(b := n # c b))"
    using assms(4) by simp_all
  with h1 show ?thesis by blast
qed

end

interpretation dl: list_heads ring
  "\<lambda>h h' x. l_next h' x = l_next h x \<and> l_prev h' x = l_prev h x"
  "\<lambda>h x. list_node_is_detached (Some x) h" list_add_head list_add_tail list_del
proof (unfold_locales, goal_cases)
  case (1 h a xs h')
  then show ?case by (rule ring_frame)
next
  case (2 h x h')
  then show ?case by (auto simp: list_node_is_detached_def)
next
  case (3 h a xs n)
  then show ?case using ring_add_head [of h a xs n] list_add_head_frame [of h a xs n] by blast
next
  case (4 h a xs n)
  then show ?case using ring_add_tail [of h a xs n] list_add_tail_frame [of h a xs n] by blast
next
  case (5 h a xs n)
  then show ?case using ring_del [of h a xs n] list_del_frame [of h a xs n] by blast
next
  case (6 h n)
  then show ?case by (rule list_del_detached)
qed

end
