(* ===== verification/Ipc_Serial.thy ===== *)
theory Ipc_Serial
  imports Rendezvos_Prelude
begin

text \<open>
  The typed payload format of inter-process messages, \<^verbatim>\<open>kernel/ipc/ipc_serial.c\<close>.

  A variadic argument list is a list of \<open>va_val\<close>, consumed from the front; taking an argument of
  another type, or from an empty list, is \<open>Undef\<close>, as in C. A format is the text before its
  terminating zero. Buffer offsets are \<open>u32\<close> and wrap as in the code; an access outside the
  buffer is \<open>Undef\<close>. The operations come in the order of the C file; the reference encoding
  \<open>wire\<close> follows, then the lemmas that relate the two.
\<close>

section \<open>Arguments and formats\<close>

datatype va_val =
    VPtr u64            \<comment> \<open>\<open>void *\<close>\<close>
  | VI64 u64            \<comment> \<open>\<open>i64\<close>, two's complement\<close>
  | VInt u32            \<comment> \<open>\<open>int\<close>\<close>
  | VU32 u32            \<comment> \<open>\<open>u32\<close>\<close>
  | VStr "u8 list option"  \<comment> \<open>\<open>char *\<close>: \<open>NULL\<close> or the bytes at the address\<close>

definition is_fmt_space :: "char \<Rightarrow> bool" where
  "is_fmt_space c \<longleftrightarrow> c = CHR '' '' \<or> c = CHR 0x09 \<or> c = CHR 0x0A \<or> c = CHR 0x0D"

fun fmt_param_count :: "string \<Rightarrow> nat" where
  "fmt_param_count [] = 0"
| "fmt_param_count (c # fmt) = (if is_fmt_space c then 0 else 1) + fmt_param_count fmt"

definition strlen32 :: "u8 list \<Rightarrow> u32" where
  "strlen32 s = of_nat (length (c_text s))"

fun va_str :: "va_val list \<Rightarrow> (u8 list option \<times> va_val list) res" where
  "va_str (VStr s # ap) = Ok (s, ap)"
| "va_str _ = Undef"

fun va_ptr :: "va_val list \<Rightarrow> (u64 \<times> va_val list) res" where
  "va_ptr (VPtr v # ap) = Ok (v, ap)"
| "va_ptr _ = Undef"

fun va_i64 :: "va_val list \<Rightarrow> (u64 \<times> va_val list) res" where
  "va_i64 (VI64 v # ap) = Ok (v, ap)"
| "va_i64 _ = Undef"

fun va_int :: "va_val list \<Rightarrow> (u32 \<times> va_val list) res" where
  "va_int (VInt v # ap) = Ok (v, ap)"
| "va_int _ = Undef"

fun va_u32 :: "va_val list \<Rightarrow> (u32 \<times> va_val list) res" where
  "va_u32 (VU32 v # ap) = Ok (v, ap)"
| "va_u32 _ = Undef"

fun str_len :: "u8 list option \<Rightarrow> u32" where
  "str_len None = 0"
| "str_len (Some s) = strlen32 s + 1"

section \<open>Measuring and encoding\<close>

definition one_measure :: "char \<Rightarrow> va_val list \<Rightarrow> (u32 \<times> va_val list) res" where
  "one_measure fc ap =
     (if fc = CHR ''p'' then res_bind (va_ptr ap) (\<lambda>(_, ap). Ok (8, ap))
      else if fc = CHR ''q'' then res_bind (va_i64 ap) (\<lambda>(_, ap). Ok (8, ap))
      else if fc = CHR ''i'' then res_bind (va_int ap) (\<lambda>(_, ap). Ok (4, ap))
      else if fc = CHR ''u'' then res_bind (va_u32 ap) (\<lambda>(_, ap). Ok (4, ap))
      else if fc = CHR ''s'' \<or> fc = CHR ''t'' then
        res_bind (va_str ap) (\<lambda>(s, ap). Ok (str_len s, ap))
      else Err E_IN_PARAM)"

text \<open>
  The first switch of \<^verbatim>\<open>one_write\<close>: the length, and the string argument, which is fetched before
  the capacity check; then the second switch: the payload bytes, every other argument being
  fetched there.
\<close>

definition write_len :: "char \<Rightarrow> va_val list \<Rightarrow> (u32 \<times> u8 list option \<times> va_val list) res" where
  "write_len fc ap =
     (if fc = CHR ''p'' \<or> fc = CHR ''q'' then Ok (8, None, ap)
      else if fc = CHR ''i'' \<or> fc = CHR ''u'' then Ok (4, None, ap)
      else if fc = CHR ''s'' \<or> fc = CHR ''t'' then
        res_bind (va_str ap) (\<lambda>(s, ap). Ok (str_len s, s, ap))
      else Err E_IN_PARAM)"

definition write_payload :: "char \<Rightarrow> u32 \<Rightarrow> u8 list option \<Rightarrow> va_val list \<Rightarrow> (u8 list \<times> va_val list) res" where
  "write_payload fc len str_s ap =
     (if fc = CHR ''p'' then res_bind (va_ptr ap) (\<lambda>(v, ap). Ok (le_bytes 8 v, ap))
      else if fc = CHR ''q'' then res_bind (va_i64 ap) (\<lambda>(v, ap). Ok (le_bytes 8 v, ap))
      else if fc = CHR ''i'' then res_bind (va_int ap) (\<lambda>(v, ap). Ok (le_bytes 4 v, ap))
      else if fc = CHR ''u'' then res_bind (va_u32 ap) (\<lambda>(v, ap). Ok (le_bytes 4 v, ap))
      else if fc = CHR ''s'' \<or> fc = CHR ''t'' then
        (case str_s of
           None \<Rightarrow> Ok ([], ap)
         | Some s \<Rightarrow> Ok (take (unat len) (c_text s @ [0]), ap))
      else Err E_IN_PARAM)"

definition one_write ::
    "u8 list \<Rightarrow> u32 \<Rightarrow> u32 \<Rightarrow> char \<Rightarrow> va_val list \<Rightarrow> (u8 list \<times> u32 \<times> va_val list) res" where
  "one_write base cap off fc ap =
     res_bind (write_len fc ap) (\<lambda>(len, str_s, ap).
       if off + 1 + 4 + len > cap then Err E_IN_PARAM
       else
         res_bind (defined (buf_write base (unat off) [of_char fc])) (\<lambda>base.
         res_bind (defined (buf_write base (unat (off + 1)) (le_bytes 4 len))) (\<lambda>base.
         res_bind (write_payload fc len str_s ap) (\<lambda>(bs, ap).
         res_bind (defined (buf_write base (unat (off + 1 + 4)) bs)) (\<lambda>base.
           Ok (base, off + 1 + 4 + len, ap))))))"

fun measure_loop :: "string \<Rightarrow> va_val list \<Rightarrow> u32 \<Rightarrow> u32 res" where
  "measure_loop [] ap tot = Ok tot"
| "measure_loop (c # f) ap tot =
     (if is_fmt_space c then measure_loop f ap tot
      else case one_measure c ap of
          Undef \<Rightarrow> Undef
        | Err _ \<Rightarrow> Err E_IN_PARAM
        | Ok (l, ap) \<Rightarrow> measure_loop f ap (tot + (1 + 4 + l)))"

definition ipc_serial_measure_va :: "string option \<Rightarrow> va_val list \<Rightarrow> u32 res" where
  "ipc_serial_measure_va fmt ap =
     (case fmt of None \<Rightarrow> Err E_IN_PARAM | Some fmt \<Rightarrow> measure_loop fmt ap 4)"

fun encode_loop ::
    "string \<Rightarrow> u32 \<Rightarrow> u8 list \<Rightarrow> u32 \<Rightarrow> va_val list \<Rightarrow> (u8 list \<times> u32) res" where
  "encode_loop [] tot base off ap = Ok (base, off)"
| "encode_loop (c # f) tot base off ap =
     (if is_fmt_space c then encode_loop f tot base off ap
      else case one_write base tot off c ap of
          Undef \<Rightarrow> Undef
        | Err _ \<Rightarrow> Err E_IN_PARAM
        | Ok (base, off, ap) \<Rightarrow> encode_loop f tot base off ap)"

definition ipc_serial_encode_into_va ::
    "u8 list option \<Rightarrow> u32 \<Rightarrow> string option \<Rightarrow> va_val list \<Rightarrow> u8 list res" where
  "ipc_serial_encode_into_va buf tot fmt ap =
     (case (buf, fmt) of
        (Some buf, Some fmt) \<Rightarrow>
          if tot < 4 then Err E_IN_PARAM
          else
            res_bind (defined (buf_write buf 0 (le_bytes 4 (of_nat (fmt_param_count fmt) :: u32)))) (\<lambda>buf.
            res_bind (encode_loop fmt tot buf 4 ap) (\<lambda>(buf, off).
            if off \<noteq> tot then Err E_IN_PARAM else Ok buf))
      | _ \<Rightarrow> Err E_IN_PARAM)"

text \<open>
  \<^verbatim>\<open>ipc_serial_encode_va\<close> and \<^verbatim>\<open>ipc_serial_encode_alloc\<close>: the allocator is a parameter that
  returns the fresh block's bytes or \<open>NULL\<close>; \<open>None\<close> in the result is the \<open>NULL\<close> return.
\<close>

definition ipc_serial_encode_va ::
    "(u32 \<Rightarrow> u8 list option) \<Rightarrow> string option \<Rightarrow> bool \<Rightarrow> va_val list \<Rightarrow> (u8 list \<times> u32) option res" where
  "ipc_serial_encode_va m_alloc fmt has_out_len ap =
     (if \<not> has_out_len then Ok None
      else case ipc_serial_measure_va fmt ap of
          Undef \<Rightarrow> Undef
        | Err _ \<Rightarrow> Ok None
        | Ok tot \<Rightarrow>
            (case m_alloc tot of
               None \<Rightarrow> Ok None
             | Some buf \<Rightarrow>
                 (case ipc_serial_encode_into_va (Some buf) tot fmt ap of
                    Undef \<Rightarrow> Undef
                  | Err _ \<Rightarrow> Ok None
                  | Ok buf \<Rightarrow> Ok (Some (buf, tot)))))"

section \<open>Decoding\<close>

text \<open>
  What decoding stores through an out pointer; a string result points into the buffer, and is
  the offset it points at. \<open>outs\<close> says for each out-pointer argument whether it is non-\<open>NULL\<close>.
\<close>

datatype dec_val = DPtr u64 | DI64 u64 | DInt u32 | DU32 u32 | DStr "nat option"

fun va_out :: "bool list \<Rightarrow> bool list res" where
  "va_out [] = Undef"
| "va_out (ok # outs) = (if ok then Ok outs else Err E_IN_PARAM)"

definition read_fixed ::
    "u8 list \<Rightarrow> u32 \<Rightarrow> u32 \<Rightarrow> u32 \<Rightarrow> (u8 list \<Rightarrow> dec_val) \<Rightarrow> bool list \<Rightarrow> (dec_val \<times> u32 \<times> bool list) res" where
  "read_fixed base off len sz mk outs =
     (if len \<noteq> sz then Err E_IN_PARAM
      else res_bind (va_out outs) (\<lambda>outs.
           res_bind (defined (buf_read base (unat off) (unat len))) (\<lambda>bs.
             Ok (mk bs, off + len, outs))))"

definition read_str ::
    "u8 list \<Rightarrow> u32 \<Rightarrow> u32 \<Rightarrow> bool list \<Rightarrow> (dec_val \<times> u32 \<times> bool list) res" where
  "read_str base off len outs =
     res_bind (va_out outs) (\<lambda>outs.
       if len = 0 then Ok (DStr None, off + len, outs)
       else res_bind (defined (buf_read base (unat (off + len - 1)) 1)) (\<lambda>last.
         if hd last \<noteq> 0 then Err E_IN_PARAM
         else Ok (DStr (Some (unat off)), off + len, outs)))"

definition one_read ::
    "u8 list \<Rightarrow> u32 \<Rightarrow> u32 \<Rightarrow> char \<Rightarrow> bool list \<Rightarrow> (dec_val \<times> u32 \<times> bool list) res" where
  "one_read base buf_len off expect outs =
     (if off + 1 + 4 > buf_len then Err E_IN_PARAM
      else
        res_bind (defined (buf_read base (unat off) 1)) (\<lambda>tag.
        res_bind (defined (buf_read base (unat (off + 1)) 4)) (\<lambda>lenb.
        let len = le_value lenb; off = off + 1 + 4 in
        if off + len > buf_len then Err E_IN_PARAM
        else if hd tag \<noteq> of_char expect then Err E_IN_PARAM
        else if expect = CHR ''p'' then read_fixed base off len 8 (\<lambda>bs. DPtr (le_value bs)) outs
        else if expect = CHR ''q'' then read_fixed base off len 8 (\<lambda>bs. DI64 (le_value bs)) outs
        else if expect = CHR ''i'' then read_fixed base off len 4 (\<lambda>bs. DInt (le_value bs)) outs
        else if expect = CHR ''u'' then read_fixed base off len 4 (\<lambda>bs. DU32 (le_value bs)) outs
        else if expect = CHR ''s'' \<or> expect = CHR ''t'' then read_str base off len outs
        else Err E_IN_PARAM)))"

fun decode_loop :: "string \<Rightarrow> u8 list \<Rightarrow> u32 \<Rightarrow> u32 \<Rightarrow> bool list \<Rightarrow> (dec_val list \<times> u32) res" where
  "decode_loop [] base buf_len off outs = Ok ([], off)"
| "decode_loop (c # f) base buf_len off outs =
     (if is_fmt_space c then decode_loop f base buf_len off outs
      else case one_read base buf_len off c outs of
          Undef \<Rightarrow> Undef
        | Err _ \<Rightarrow> Err E_IN_PARAM
        | Ok (d, off, outs) \<Rightarrow>
            res_bind (decode_loop f base buf_len off outs) (\<lambda>(ds, off). Ok (d # ds, off)))"

definition ipc_serial_decode ::
    "u8 list option \<Rightarrow> u32 \<Rightarrow> string option \<Rightarrow> bool list \<Rightarrow> dec_val list res" where
  "ipc_serial_decode buf buf_len fmt outs =
     (case (buf, fmt) of
        (Some buf, Some fmt) \<Rightarrow>
          if buf_len < 4 then Err E_IN_PARAM
          else res_bind (defined (buf_read buf 0 4)) (\<lambda>n.
            if le_value n \<noteq> (of_nat (fmt_param_count fmt) :: u32) then Err E_IN_PARAM
            else res_bind (decode_loop fmt buf buf_len 4 outs) (\<lambda>(ds, off).
              if off \<noteq> buf_len then Err E_IN_PARAM else Ok ds))
      | _ \<Rightarrow> Err E_IN_PARAM)"

section \<open>The reference encoding\<close>

definition val_wire :: "char \<Rightarrow> va_val \<Rightarrow> u8 list option" where
  "val_wire c v =
     (case v of
        VPtr w \<Rightarrow> if c = CHR ''p'' then Some (le_bytes 8 w) else None
      | VI64 w \<Rightarrow> if c = CHR ''q'' then Some (le_bytes 8 w) else None
      | VInt w \<Rightarrow> if c = CHR ''i'' then Some (le_bytes 4 w) else None
      | VU32 w \<Rightarrow> if c = CHR ''u'' then Some (le_bytes 4 w) else None
      | VStr s \<Rightarrow> if c = CHR ''s'' \<or> c = CHR ''t''
                 then Some (case s of None \<Rightarrow> [] | Some s \<Rightarrow> c_text s @ [0]) else None)"

definition record_wire :: "char \<Rightarrow> u8 list \<Rightarrow> u8 list" where
  "record_wire c bs = of_char c # le_bytes 4 (of_nat (length bs) :: u32) @ bs"

text \<open>The records of a format and a matching argument list; \<open>None\<close> when they do not match.\<close>

fun body_wire :: "string \<Rightarrow> va_val list \<Rightarrow> u8 list option" where
  "body_wire [] vs = (if vs = [] then Some [] else None)"
| "body_wire (c # f) vs =
     (if is_fmt_space c then body_wire f vs
      else case vs of
          [] \<Rightarrow> None
        | v # vs \<Rightarrow>
           (case (val_wire c v, body_wire f vs) of
              (Some bs, Some rest) \<Rightarrow> Some (record_wire c bs @ rest)
            | _ \<Rightarrow> None))"

definition wire :: "string \<Rightarrow> va_val list \<Rightarrow> u8 list option" where
  "wire fmt vs =
     map_option (\<lambda>b. le_bytes 4 (of_nat (fmt_param_count fmt) :: u32) @ b) (body_wire fmt vs)"

text \<open>What the receiver sees: a decoded string is the text at its offset of the buffer.\<close>

fun received :: "u8 list \<Rightarrow> dec_val \<Rightarrow> va_val" where
  "received buf (DPtr w) = VPtr w"
| "received buf (DI64 w) = VI64 w"
| "received buf (DInt w) = VInt w"
| "received buf (DU32 w) = VU32 w"
| "received buf (DStr None) = VStr None"
| "received buf (DStr (Some off)) = VStr (Some (c_text (drop off buf)))"

fun sent :: "va_val \<Rightarrow> va_val" where
  "sent (VStr (Some s)) = VStr (Some (c_text s))"
| "sent v = v"


section \<open>Encoding\<close>

lemma val_wire_cases:
  assumes "val_wire c v = Some bs"
  obtains (ptr) w where "v = VPtr w" "c = CHR ''p''" "bs = le_bytes 8 w"
  | (i64) w where "v = VI64 w" "c = CHR ''q''" "bs = le_bytes 8 w"
  | (int) w where "v = VInt w" "c = CHR ''i''" "bs = le_bytes 4 w"
  | (u32) w where "v = VU32 w" "c = CHR ''u''" "bs = le_bytes 4 w"
  | (null) "v = VStr None" "c = CHR ''s'' \<or> c = CHR ''t''" "bs = []"
  | (str) s where "v = VStr (Some s)" "c = CHR ''s'' \<or> c = CHR ''t''" "bs = c_text s @ [0]"
  using assms unfolding val_wire_def
  by (cases v) (auto split: if_splits option.splits)

lemma one_measure_wire:
  assumes "val_wire c v = Some bs"
  shows "one_measure c (v # ap) = Ok (of_nat (length bs), ap)"
  using assms by (cases rule: val_wire_cases) (auto simp: one_measure_def strlen32_def)

lemma length_record_wire [simp]: "length (record_wire c bs) = 5 + length bs"
  by (simp add: record_wire_def)

lemma measure_loop_wire:
  "body_wire f vs = Some b \<Longrightarrow> measure_loop f vs t = Ok (t + of_nat (length b))"
proof (induction f arbitrary: vs t b)
  case (Cons c f)
  show ?case
  proof (cases "is_fmt_space c")
    case False
    with Cons.prems obtain v vs' bs rest where
      v: "vs = v # vs'" "val_wire c v = Some bs" "body_wire f vs' = Some rest"
         "b = record_wire c bs @ rest"
      by (auto split: list.splits option.splits)
    with Cons.IH [OF v(3)] False one_measure_wire [OF v(2)] show ?thesis
      by (simp add: algebra_simps)
  qed (use Cons in simp)
qed (auto split: if_splits)

text \<open>What a record write leaves behind: the buffer with the record's bytes at the offset.\<close>

lemma buf_write_next:
  "length a = n \<Longrightarrow> length bs = length c \<Longrightarrow> buf_write (a @ c @ r) n bs = Some (a @ bs @ r)"
  by (simp add: buf_write_def)

lemma write_steps:
  assumes "val_wire c v = Some bs" and "length bs < 2 ^ 32"
  obtains str_s ap1 where "write_len c (v # ap) = Ok (of_nat (length bs), str_s, ap1)"
    and "write_payload c (of_nat (length bs)) str_s ap1 = Ok (bs, ap)"
  using assms(1)
proof (cases rule: val_wire_cases)
  case (str s)
  then have "unat (of_nat (length bs) :: u32) = length bs"
    using assms(2) by (intro unat_of_nat_small) simp
  then show ?thesis using str that [of "Some s" ap]
    by (auto simp: write_len_def write_payload_def strlen32_def)
qed (use that in \<open>auto simp: write_len_def write_payload_def\<close>)

lemma one_write_wire:
  assumes v: "val_wire c v = Some bs"
    and fits: "length pre + 5 + length bs \<le> unat cap" "length old = 5 + length bs"
  shows "one_write (pre @ old @ rest) cap (of_nat (length pre)) c (v # ap)
       = Ok (pre @ record_wire c bs @ rest, of_nat (length pre + 5 + length bs), ap)"
proof -
  let ?n = "length pre" and ?m = "length bs"
  have cap: "unat cap < 2 ^ 32" using unsigned_less [of cap] by simp
  have u: "unat (of_nat k :: u32) = k" if "k \<le> ?n + 5 + ?m" for k
    using that fits cap by (intro unat_of_nat_small) simp
  have m: "?m < 2 ^ 32" using fits cap by linarith
  obtain str_s ap1 where w: "write_len c (v # ap) = Ok (of_nat ?m, str_s, ap1)"
      "write_payload c (of_nat ?m) str_s ap1 = Ok (bs, ap)"
    using write_steps [OF v] m by metis
  obtain o1 o2 o3 where old: "old = o1 @ o2 @ o3" "length o1 = 1" "length o2 = 4" "length o3 = ?m"
  proof
    have "drop 5 old = drop 4 (drop 1 old)" by simp
    then show "old = take 1 old @ take 4 (drop 1 old) @ drop 5 old"
      by (simp only: append_take_drop_id)
  qed (use fits in auto)
  have off: "of_nat ?n + 1 = (of_nat (?n + 1) :: u32)"
    "of_nat (?n + 1) + 4 = (of_nat (?n + 5) :: u32)"
    "of_nat (?n + 5) + of_nat ?m = (of_nat (?n + 5 + ?m) :: u32)"
    by simp_all
  have le: "\<not> cap < of_nat (?n + 5 + ?m)"
    using fits by (simp only: word_less_nat_alt u order.refl)
  let ?l = "le_bytes 4 (of_nat ?m :: u32)"
  have b1: "buf_write (pre @ old @ rest) ?n [of_char c] = Some (pre @ [of_char c] @ o2 @ o3 @ rest)"
    unfolding old(1) append_assoc by (rule buf_write_next) (simp_all add: old(2))
  have "buf_write ((pre @ [of_char c]) @ o2 @ o3 @ rest) (?n + 1) ?l
      = Some ((pre @ [of_char c]) @ ?l @ o3 @ rest)"
    by (rule buf_write_next) (simp_all add: old(3))
  then have b2: "buf_write (pre @ [of_char c] @ o2 @ o3 @ rest) (?n + 1) ?l
      = Some (pre @ [of_char c] @ ?l @ o3 @ rest)" by simp
  have "buf_write ((pre @ [of_char c] @ ?l) @ o3 @ rest) (?n + 5) bs
      = Some ((pre @ [of_char c] @ ?l) @ bs @ rest)"
    by (rule buf_write_next) (simp_all add: old(4))
  then have b3: "buf_write (pre @ [of_char c] @ ?l @ o3 @ rest) (?n + 5) bs
      = Some (pre @ record_wire c bs @ rest)" by (simp add: record_wire_def)
  have un: "unat (of_nat ?n :: u32) = ?n" "unat (of_nat (?n + 1) :: u32) = ?n + 1"
    "unat (of_nat (?n + 5) :: u32) = ?n + 5" by (rule u, simp)+
  show ?thesis
    unfolding one_write_def w(1) res_bind.simps prod.case off un b1 defined.simps b2 w(2) b3
    by (simp only: le if_False)
qed

lemma encode_loop_wire:
  assumes "body_wire f vs = Some b" and "length old = length b"
    and "length pre + length b \<le> unat cap"
  shows "encode_loop f cap (pre @ old @ rest) (of_nat (length pre)) vs
       = Ok (pre @ b @ rest, of_nat (length pre + length b))"
  using assms
proof (induction f arbitrary: vs b old pre)
  case Nil
  then show ?case by (auto split: if_splits)
next
  case (Cons c f)
  show ?case
  proof (cases "is_fmt_space c")
    case False
    with Cons.prems obtain v vs' bs b' where
      v: "vs = v # vs'" "val_wire c v = Some bs" "body_wire f vs' = Some b'"
         "b = record_wire c bs @ b'"
      by (auto split: list.splits option.splits)
    define o1 o2 where "o1 = take (5 + length bs) old" and "o2 = drop (5 + length bs) old"
    have old: "old = o1 @ o2" "length o1 = 5 + length bs" "length o2 = length b'"
      using Cons.prems v(4) by (simp_all add: o1_def o2_def)
    have "one_write (pre @ o1 @ o2 @ rest) cap (of_nat (length pre)) c (v # vs')
       = Ok (pre @ record_wire c bs @ o2 @ rest, of_nat (length pre + 5 + length bs), vs')"
      using Cons.prems v(4) old by (intro one_write_wire [OF v(2)]) simp_all
    moreover have "encode_loop f cap ((pre @ record_wire c bs) @ o2 @ rest)
        (of_nat (length (pre @ record_wire c bs))) vs'
       = Ok ((pre @ record_wire c bs) @ b' @ rest, of_nat (length (pre @ record_wire c bs) + length b'))"
      using Cons.prems v(4) old by (intro Cons.IH v(3)) simp_all
    ultimately show ?thesis using False v(1,4) old(1)
      by (simp add: algebra_simps)
  qed (use Cons in simp)
qed

section \<open>Decoding what was encoded\<close>

lemma c_text_append_zero: "c_text (c_text s @ 0 # r) = c_text s"
  by (induction s) (simp_all add: c_text_def)

lemma le_value_len:
  "n < 2 ^ 32 \<Longrightarrow> (le_value (le_bytes 4 (of_nat n :: u32)) :: u32) = of_nat n"
  by (rule le_value_bytes) simp

lemma one_read_wire:
  assumes v: "val_wire c v = Some bs"
    and buf: "buf = pre @ record_wire c bs @ rest" and len: "unat buf_len = length buf"
  shows "\<exists>d. one_read buf buf_len (of_nat (length pre)) c (True # outs)
            = Ok (d, of_nat (length pre + 5 + length bs), outs) \<and> received buf d = sent v"
proof -
  let ?n = "length pre" and ?m = "length bs"
  have cap: "length buf < 2 ^ 32" using unat_bound [of buf_len] len by simp
  have lb: "length buf = ?n + 5 + ?m + length rest" using buf by simp
  have u: "unat (of_nat k :: u32) = k" if "k \<le> ?n + 5 + ?m" for k
    using that cap lb by (intro unat_of_nat_small) simp
  define o0 o1 o5 oe l :: u32 where w: "o0 = of_nat ?n" "o1 = of_nat (?n + 1)"
    "o5 = of_nat (?n + 5)" "oe = of_nat (?n + 5 + ?m)" "l = of_nat ?m"
  have off: "o0 + 1 = o1" "o1 + 4 = o5" "o5 + l = oe" by (simp_all add: w)
  have un: "unat o0 = ?n" "unat o1 = ?n + 1" "unat o5 = ?n + 5" "unat oe = ?n + 5 + ?m" "unat l = ?m"
    unfolding w by (rule u, simp)+
  have le: "\<not> buf_len < oe" "\<not> buf_len < o5"
    using lb len un by (simp_all add: word_less_nat_alt)
  have r: "buf_read buf ?n 1 = Some [of_char c]" "buf_read buf (?n + 1) 4 = Some (le_bytes 4 l)"
    "buf_read buf (?n + 5) ?m = Some bs"
    using buf by (simp_all add: buf_read_def record_wire_def w)
  have lv: "(le_value (le_bytes 4 l) :: u32) = l"
    by (rule le_value_bytes) simp
  have tail: "drop (?n + 5) buf = bs @ rest"
    using buf by (simp add: record_wire_def)
  note step = one_read_def [of buf buf_len o0 c "True # outs",
      unfolded off un r defined.simps res_bind.simps lv Let_def]
  have small: "?m = k \<Longrightarrow> l = of_nat k" for k by (simp add: w)
  have "\<exists>d. one_read buf buf_len o0 c (True # outs) = Ok (d, oe, outs) \<and> received buf d = sent v"
    using v
  proof (cases rule: val_wire_cases)
    case (str s)
    have "unat (oe - 1) = ?n + 5 + length (c_text s)"
      using un(4) str(3) unat_minus_one [of oe] by (cases "oe = 0") simp_all
    moreover have "drop (?n + 5 + length (c_text s)) buf = 0 # rest"
      using arg_cong [OF tail, of "drop (length (c_text s))"] str(3) by (simp add: add.commute)
    moreover have "?n + 5 + length (c_text s) + 1 \<le> length buf" using lb str(3) by simp
    ultimately have "buf_read buf (unat (oe - 1)) 1 = Some [0]" by (simp add: buf_read_def)
    moreover have "received buf (DStr (Some (?n + 5))) = sent v"
      using str(1,3) tail by (simp add: c_text_append_zero)
    moreover have "l \<noteq> 0" using un(5) str(3) by auto
    ultimately have "one_read buf buf_len o0 c (True # outs) = Ok (DStr (Some (?n + 5)), oe, outs)"
      unfolding step using str(2) le by (auto simp: read_str_def off un)
    with \<open>received buf (DStr (Some (?n + 5))) = sent v\<close> show ?thesis by blast
  next
    case null
    then have "l = 0" using small by simp
    then show ?thesis unfolding step using null le off by (auto simp: read_str_def)
  next
    case (ptr x)
    then have "l = 8" using small by simp
    then show ?thesis unfolding step using ptr le off un r by (simp add: read_fixed_def le_value_bytes)
  next
    case (i64 x)
    then have "l = 8" using small by simp
    then show ?thesis unfolding step using i64 le off un r by (simp add: read_fixed_def le_value_bytes)
  next
    case (int x)
    then have "l = 4" using small by simp
    then show ?thesis unfolding step using int le off un r by (simp add: read_fixed_def le_value_bytes)
  next
    case (u32 x)
    then have "l = 4" using small by simp
    then show ?thesis unfolding step using u32 le off un r by (simp add: read_fixed_def le_value_bytes)
  qed
  then show ?thesis by (simp add: w)
qed

lemma decode_loop_wire:
  assumes "body_wire f vs = Some b" and "buf = pre @ b" and "unat buf_len = length buf"
  shows "\<exists>ds. decode_loop f buf buf_len (of_nat (length pre)) (replicate (length vs) True)
             = Ok (ds, buf_len) \<and> map (received buf) ds = map sent vs"
  using assms
proof (induction f arbitrary: vs b pre)
  case Nil
  then have "of_nat (length buf) = buf_len"
    by (metis of_nat_unat)
  with Nil show ?case by (auto split: if_splits)
next
  case (Cons c f)
  show ?case
  proof (cases "is_fmt_space c")
    case False
    with Cons.prems obtain v vs' bs b' where
      v: "vs = v # vs'" "val_wire c v = Some bs" "body_wire f vs' = Some b'"
         "b = record_wire c bs @ b'"
      by (auto split: list.splits option.splits)
    from Cons.prems v have buf: "buf = pre @ record_wire c bs @ b'" by simp
    obtain d where d: "one_read buf buf_len (of_nat (length pre)) c (True # replicate (length vs') True)
            = Ok (d, of_nat (length pre + 5 + length bs), replicate (length vs') True)"
          "received buf d = sent v"
      using one_read_wire [OF v(2) buf Cons.prems(3)] by blast
    obtain ds where ds: "decode_loop f buf buf_len (of_nat (length (pre @ record_wire c bs)))
              (replicate (length vs') True) = Ok (ds, buf_len)" "map (received buf) ds = map sent vs'"
      using Cons.IH [OF v(3), of "pre @ record_wire c bs"] buf Cons.prems(3) by auto
    have "of_nat (length (pre @ record_wire c bs)) = (of_nat (length pre + 5 + length bs) :: u32)"
      by simp
    with False v(1) d ds show ?thesis by (intro exI [of _ "d # ds"]) (simp del: of_nat_add length_append)
  qed (use Cons in simp)
qed

lemma body_wire_count: "body_wire f vs = Some b \<Longrightarrow> length vs = fmt_param_count f"
  by (induction f arbitrary: vs b) (auto split: if_splits list.splits option.splits)

text \<open>Measure, encode and decode of matching arguments agree with the reference encoding.\<close>

lemma serial_codec:
  assumes b: "body_wire fmt vs = Some b" and fits: "4 + length b < 2 ^ 32"
    and buf: "length buf = 4 + length b"
  defines "tot \<equiv> of_nat (4 + length b) :: u32"
  shows "\<exists>w ds. ipc_serial_measure_va (Some fmt) vs = Ok tot \<and> unat tot = length buf \<and>
           ipc_serial_encode_into_va (Some buf) tot (Some fmt) vs = Ok w \<and> wire fmt vs = Some w \<and>
           ipc_serial_decode (Some w) tot (Some fmt) (replicate (length vs) True) = Ok ds \<and>
           map (received w) ds = map sent vs"
proof -
  define hdr where "hdr = le_bytes 4 (of_nat (fmt_param_count fmt) :: u32)"
  have hdr: "length hdr = 4" by (simp add: hdr_def)
  have tot: "unat tot = 4 + length b" using fits unfolding tot_def by (intro unat_of_nat_small) simp
  then have "\<not> tot < 4" by (simp add: word_less_nat_alt)
  have "ipc_serial_measure_va (Some fmt) vs = Ok tot"
    using measure_loop_wire [OF b, of 4] by (simp add: ipc_serial_measure_va_def tot_def)
  moreover
  have "buf_write buf 0 hdr = Some (hdr @ drop 4 buf @ [])" using buf hdr by (simp add: buf_write_def)
  moreover have "encode_loop fmt tot (hdr @ drop 4 buf @ []) (of_nat (length hdr)) vs
       = Ok (hdr @ b @ [], of_nat (length hdr + length b))"
    using buf hdr tot by (intro encode_loop_wire [OF b]) simp_all
  ultimately have enc: "ipc_serial_encode_into_va (Some buf) tot (Some fmt) vs = Ok (hdr @ b)"
    using \<open>\<not> tot < 4\<close> by (simp add: ipc_serial_encode_into_va_def hdr_def [symmetric] hdr tot_def)
  obtain ds where "decode_loop fmt (hdr @ b) tot (of_nat (length hdr)) (replicate (length vs) True)
      = Ok (ds, tot)" and recv: "map (received (hdr @ b)) ds = map sent vs"
    using decode_loop_wire [OF b refl, of tot hdr] hdr tot by auto
  moreover have "buf_read (hdr @ b) 0 4 = Some hdr" using hdr by (simp add: buf_read_def)
  ultimately have "ipc_serial_decode (Some (hdr @ b)) tot (Some fmt) (replicate (length vs) True) = Ok ds"
    using \<open>\<not> tot < 4\<close> hdr by (simp add: ipc_serial_decode_def hdr_def le_value_bytes)
  with enc recv tot buf \<open>ipc_serial_measure_va (Some fmt) vs = Ok tot\<close> b show ?thesis
    by (intro exI [of _ "hdr @ b"] exI [of _ ds]) (simp add: wire_def hdr_def)
qed

section \<open>Properties\<close>

text \<open>C22. Encoding and decoding a message payload is a round trip. When the arguments match the
  format and the payload fits 32-bit lengths, the measured size, the encoder into a buffer of that
  size, and the decoder agree: the encoder fills the buffer with the reference wire format, and
  decoding that buffer with the same format succeeds and gives back every argument sent, a string
  as the text in the buffer.\<close>

theorem ipc_serial_roundtrip:
  assumes "body_wire fmt vs = Some b" and "4 + length b < 2 ^ 32"
    and "length buf = 4 + length b"
  shows "\<exists>w tot ds. ipc_serial_measure_va (Some fmt) vs = Ok tot \<and> unat tot = length buf \<and>
           ipc_serial_encode_into_va (Some buf) tot (Some fmt) vs = Ok w \<and> wire fmt vs = Some w \<and>
           ipc_serial_decode (Some w) tot (Some fmt) (replicate (length vs) True) = Ok ds \<and>
           map (received w) ds = map sent vs"
  using serial_codec [OF assms] by blast

theorem ipc_serial_roundtrip_witness:
  "\<exists>w tot ds. ipc_serial_measure_va (Some ''i s'') [VInt 7, VStr (Some [104, 105, 0])] = Ok tot \<and>
     unat tot = length (replicate 21 (0 :: u8)) \<and>
     ipc_serial_encode_into_va (Some (replicate 21 0)) tot (Some ''i s'') [VInt 7, VStr (Some [104, 105, 0])] = Ok w \<and>
     wire ''i s'' [VInt 7, VStr (Some [104, 105, 0])] = Some w \<and>
     ipc_serial_decode (Some w) tot (Some ''i s'') (replicate (length [VInt 7, VStr (Some [104, 105, 0])]) True) = Ok ds \<and>
     map (received w) ds = map sent [VInt 7, VStr (Some [104, 105, 0])]"
  by (rule ipc_serial_roundtrip [where b = "[105, 4, 0, 0, 0, 7, 0, 0, 0, 115, 3, 0, 0, 0, 104, 105, 0]"])
     (simp_all add: is_fmt_space_def val_wire_def record_wire_def le_bytes_def c_text_def upt_rec)

text \<open>
  Decoding bytes of any origin. \<open>off_ok\<close> is the cursor invariant of the decoder loop; every fixed-size
  field keeps it, because the length field is compared with the field's size before it is used.
\<close>

definition fixed_fmt :: "string \<Rightarrow> bool" where
  "fixed_fmt fmt \<longleftrightarrow> CHR ''s'' \<notin> set fmt \<and> CHR ''t'' \<notin> set fmt"

lemma read_fixed_safe:
  assumes "outs \<noteq> []" and "unat o5 + unat len < 2 ^ 32" and "\<not> buf_len < o5 + len"
    and "unat buf_len = length buf"
  shows "read_fixed buf o5 len sz mk outs \<noteq> Undef \<and>
    (read_fixed buf o5 len sz mk outs = Ok (d, off', outs') \<longrightarrow>
       unat off' \<le> length buf \<and> length outs = Suc (length outs'))"
proof -
  have "unat (o5 + len) = unat o5 + unat len" using assms(2) by (simp add: unat_word_ariths)
  with assms show ?thesis
    by (cases outs) (auto simp: read_fixed_def buf_read_def word_less_nat_alt not_less split: if_splits)
qed

lemma one_read_fixed_safe:
  assumes "c \<noteq> CHR ''s''" "c \<noteq> CHR ''t''" "outs \<noteq> []"
    and off: "unat off \<le> length buf" and len: "unat buf_len = length buf" "length buf + 13 < 2 ^ 32"
  shows "one_read buf buf_len off c outs \<noteq> Undef \<and>
    (one_read buf buf_len off c outs = Ok (d, off', outs') \<longrightarrow>
       unat off' \<le> length buf \<and> length outs = Suc (length outs'))"
proof (cases "off + 1 + 4 > buf_len")
  case True
  then show ?thesis by (simp add: one_read_def)
next
  case False
  have u: "unat (off + 1) = unat off + 1" "unat (off + 1 + 4) = unat off + 5"
    using off len by (simp_all add: unat_word_ariths)
  have r: "unat off + 5 \<le> length buf" using False u(2) len(1) by (simp add: word_less_nat_alt)
  then obtain tag lenb where rd: "buf_read buf (unat off) 1 = Some tag"
      "buf_read buf (unat off + 1) 4 = Some lenb"
    by (simp add: buf_read_def)
  define l :: u32 where "l = le_value lenb"
  define o5 where "o5 = off + 1 + 4"
  have safe: "read_fixed buf o5 l sz mk outs \<noteq> Undef \<and>
      (read_fixed buf o5 l sz mk outs = Ok (d, off', outs') \<longrightarrow>
         unat off' \<le> length buf \<and> length outs = Suc (length outs'))"
    if "\<not> buf_len < o5 + l" "unat sz \<le> 8" for sz mk
  proof (cases "l = sz")
    case True
    have "unat o5 + unat l < 2 ^ 32" using that(2) u(2) [folded o5_def] off len(2) unfolding True by linarith
    then show ?thesis by (rule read_fixed_safe [OF assms(3) _ that(1) len(1)])
  qed (simp add: read_fixed_def)
  note safe8 = safe [of 8, simplified] and safe4 = safe [of 4, simplified]
  show ?thesis using False assms(1,2)
    unfolding one_read_def u(1) rd Let_def defined.simps res_bind.simps l_def [symmetric] o5_def [symmetric]
    by (cases "buf_len < o5 + l"; cases "hd tag = of_char c") (simp_all add: safe8 safe4)
qed

lemma decode_loop_fixed_safe:
  assumes "fixed_fmt f" and "fmt_param_count f \<le> length outs"
    and "unat off \<le> length buf" and "unat buf_len = length buf" "length buf + 13 < 2 ^ 32"
  shows "decode_loop f buf buf_len off outs \<noteq> Undef"
  using assms(1-3)
proof (induction f arbitrary: off outs)
  case (Cons c f)
  have c: "fixed_fmt f" "c \<noteq> CHR ''s''" "c \<noteq> CHR ''t''" using Cons.prems by (auto simp: fixed_fmt_def)
  show ?case
  proof (cases "is_fmt_space c")
    case False
    then have "outs \<noteq> []" using Cons.prems(2) by auto
    note one = one_read_fixed_safe [OF c(2,3) this Cons.prems(3) assms(4,5)]
    show ?thesis
    proof (cases "one_read buf buf_len off c outs")
      case (Ok r)
      obtain d off' outs' where r: "r = (d, off', outs')" by (metis prod_cases3)
      from one [of d off' outs'] Ok r
      have "unat off' \<le> length buf" "length outs = Suc (length outs')" by auto
      with Cons.IH [of outs' off'] c(1) Cons.prems(2) False Ok r show ?thesis
        by (auto simp: res_bind_Undef_iff)
    qed (use one False in auto)
  qed (use Cons c in simp)
qed simp

text \<open>C30. Decoding a payload of fixed-size fields is memory-safe for every byte string: whatever the
  sender wrote, the decoder returns an error or succeeds, and never reads outside the buffer, for
  buffers below the 32-bit limit and an out pointer for each field.\<close>

theorem ipc_serial_decode_fixed_safe:
  assumes "fixed_fmt fmt" and "fmt_param_count fmt \<le> length outs"
    and "unat buf_len = length buf" and "length buf + 13 < 2 ^ 32"
  shows "ipc_serial_decode (Some buf) buf_len (Some fmt) outs \<noteq> Undef"
proof (cases "buf_len < 4")
  case False
  then have "4 \<le> length buf" using assms(3) by (simp add: word_less_nat_alt)
  moreover from this have "decode_loop fmt buf buf_len 4 outs \<noteq> Undef"
    using assms by (intro decode_loop_fixed_safe) simp_all
  ultimately show ?thesis using False
    by (auto simp: ipc_serial_decode_def buf_read_def res_bind_Undef_iff)
qed (simp add: ipc_serial_decode_def)

theorem ipc_serial_decode_fixed_safe_witness:
  "ipc_serial_decode (Some [1, 0, 0, 0, 105, 255, 255, 255, 255]) 9 (Some ''i'') [True] \<noteq> Undef"
  by (rule ipc_serial_decode_fixed_safe) (simp_all add: fixed_fmt_def is_fmt_space_def)


end
