(* ===== verification/Message.thy ===== *)
theory Message
  imports Rendezvos_Prelude "HOL-Library.Monad_Syntax"
begin

text \<open>
  Messages and their payloads, \<^verbatim>\<open>kernel/ipc/message.c\<close>, with the reference counts of
  \<^verbatim>\<open>include/common/refcount.h\<close> they live by.

  Objects live in a heap of three maps, from addresses to payload buffers, to \<^verbatim>\<open>Msg_Data_t\<close> and to
  \<^verbatim>\<open>Message_t\<close> structures. The address \<^verbatim>\<open>m_alloc\<close> returns is an argument of the operations that
  allocate (\<open>None\<close> for \<open>NULL\<close>). The value \<open>None\<close> of an operation is undefined behaviour: a use of
  a freed object or a second free. An atomic operation on a counter is one step.
\<close>

section \<open>Reference counts\<close>

definition ref_init :: int where "ref_init = 1"

definition ref_init_zero :: int where "ref_init_zero = 0"

text \<open>The new count, or \<open>None\<close> when the function returns \<open>false\<close>.\<close>

definition ref_get_not_zero :: "int \<Rightarrow> int option" where
  "ref_get_not_zero old = (if old \<le> 0 then None else Some (old + 1))"

definition ref_get_claim :: "int \<Rightarrow> int option" where
  "ref_get_claim old = (if old = 0 then Some 1 else None)"

text \<open>The new count, and whether this put calls the destructor it was given.\<close>

definition ref_put :: "int \<Rightarrow> bool \<Rightarrow> int \<times> bool" where
  "ref_put prev has_free = (prev - 1, prev = 1 \<and> has_free)"

section \<open>Objects\<close>

datatype free_fn = FREE_NULL | FREE_DEFAULT  \<comment> \<open>\<open>NULL\<close> or \<open>free_msgdata_ref_default\<close>\<close>

record msg_data =
  md_ref :: int
  msg_type :: int
  data_len :: u64
  data :: "nat option"
  free_data :: free_fn

record message =
  ms_ref :: int
  m_data :: "nat option"
  receiver :: "nat option"

record msg_heap =
  payloads :: "nat \<rightharpoonup> u8 list"
  datas :: "nat \<rightharpoonup> msg_data"
  messages :: "nat \<rightharpoonup> message"
  retired :: "nat list"

definition m_free_payload :: "nat option \<Rightarrow> msg_heap \<Rightarrow> msg_heap option" where
  "m_free_payload p h =
     (case p of
        None \<Rightarrow> Some h
      | Some a \<Rightarrow> if a \<in> dom (payloads h) then Some (h\<lparr>payloads := (payloads h)(a := None)\<rparr>) else None)"

definition delete_msgdata_structure :: "msg_heap \<Rightarrow> nat option \<Rightarrow> msg_heap option" where
  "delete_msgdata_structure h p =
     (case p of
        None \<Rightarrow> Some h
      | Some d \<Rightarrow> if d \<in> dom (datas h) then Some (h\<lparr>datas := (datas h)(d := None)\<rparr>) else None)"

definition free_msgdata_ref_default :: "msg_heap \<Rightarrow> nat \<Rightarrow> msg_heap option" where
  "free_msgdata_ref_default h d = do {
     md \<leftarrow> datas h d;
     h \<leftarrow> m_free_payload (data md) h;
     delete_msgdata_structure h (Some d)
   }"

definition put_msgdata :: "msg_heap \<Rightarrow> nat \<Rightarrow> free_fn \<Rightarrow> msg_heap option" where
  "put_msgdata h d fn = do {
     md \<leftarrow> datas h d;
     let (r, free) = ref_put (md_ref md) (fn \<noteq> FREE_NULL);
         h = h\<lparr>datas := (datas h)(d \<mapsto> md\<lparr>md_ref := r\<rparr>)\<rparr>
     in if free then free_msgdata_ref_default h d else Some h
   }"

text \<open>\<open>data_ptr\<close> is the value of \<open>*data_ptr\<close>; the result is the heap, the returned pointer and the
  new value of \<open>*data_ptr\<close>.\<close>

definition create_message_data ::
    "nat option \<Rightarrow> msg_heap \<Rightarrow> int \<Rightarrow> u64 \<Rightarrow> nat option \<Rightarrow> free_fn \<Rightarrow> (msg_heap \<times> nat option \<times> nat option) option" where
  "create_message_data m_alloc h mtype len data_ptr fn =
     (case m_alloc of
        None \<Rightarrow> Some (h, None, data_ptr)
      | Some a \<Rightarrow>
          if len > 0 \<and> data_ptr \<noteq> None then
            Some (h\<lparr>datas := (datas h)(a \<mapsto> \<lparr>md_ref = ref_init, msg_type = mtype, data_len = len,
                                             data = data_ptr, free_data = fn\<rparr>)\<rparr>, Some a, None)
          else do {
            h \<leftarrow> put_msgdata (h\<lparr>datas := (datas h)(a \<mapsto> \<lparr>md_ref = ref_init, msg_type = 0, data_len = 0,
                                             data = None, free_data = FREE_NULL\<rparr>)\<rparr>) a fn;
            Some (h, None, data_ptr)
          })"

definition create_message_structure :: "nat option \<Rightarrow> msg_heap \<Rightarrow> msg_heap \<times> nat option" where
  "create_message_structure m_alloc h =
     (case m_alloc of
        None \<Rightarrow> (h, None)
      | Some a \<Rightarrow> (h\<lparr>messages := (messages h)(a \<mapsto> \<lparr>ms_ref = ref_init, m_data = None, receiver = None\<rparr>)\<rparr>, Some a))"

definition create_message_with_msg ::
    "nat option \<Rightarrow> msg_heap \<Rightarrow> nat option \<Rightarrow> (msg_heap \<times> nat option) option" where
  "create_message_with_msg m_alloc h msgdata =
     (case msgdata of
        None \<Rightarrow> Some (h, None)
      | Some d \<Rightarrow> do {
          md \<leftarrow> datas h d;
          (case ref_get_not_zero (md_ref md) of
             None \<Rightarrow> Some (h, None)
           | Some r \<Rightarrow>
               let h = h\<lparr>datas := (datas h)(d \<mapsto> md\<lparr>md_ref := r\<rparr>)\<rparr> in
               (case m_alloc of
                  None \<Rightarrow> Some (h, None)
                | Some a \<Rightarrow>
                    Some (h\<lparr>messages := (messages h)(a \<mapsto> \<lparr>ms_ref = ref_init, m_data = Some d, receiver = None\<rparr>)\<rparr>, Some a)))
        })"

definition fill_message_data ::
    "msg_heap \<Rightarrow> nat option \<Rightarrow> nat option \<Rightarrow> (msg_heap \<times> error_t) option" where
  "fill_message_data h msg msgdata =
     (case (msg, msgdata) of
        (Some m, Some d) \<Rightarrow> do {
          md \<leftarrow> datas h d;
          (case ref_get_not_zero (md_ref md) of
             None \<Rightarrow> Some (h, E_IN_PARAM)
           | Some r \<Rightarrow> do {
               ms \<leftarrow> messages h m;
               Some (h\<lparr>datas := (datas h)(d \<mapsto> md\<lparr>md_ref := r\<rparr>),
                       messages := (messages h)(m \<mapsto> ms\<lparr>m_data := Some d\<rparr>)\<rparr>, REND_SUCCESS)
             })
        }
      | _ \<Rightarrow> Some (h, E_IN_PARAM))"

definition delete_message_structure :: "msg_heap \<Rightarrow> nat option \<Rightarrow> msg_heap option" where
  "delete_message_structure h msg =
     (case msg of
        None \<Rightarrow> Some h
      | Some m \<Rightarrow> if m \<in> dom (messages h) then Some (h\<lparr>messages := (messages h)(m := None)\<rparr>) else None)"

definition free_message_ref_real :: "msg_heap \<Rightarrow> nat \<Rightarrow> msg_heap option" where
  "free_message_ref_real h m = do {
     ms \<leftarrow> messages h m;
     h \<leftarrow> (case m_data ms of
             None \<Rightarrow> Some h
           | Some d \<Rightarrow> do { md \<leftarrow> datas h d; put_msgdata h d (free_data md) });
     delete_message_structure h (Some m)
   }"

text \<open>
  \<^verbatim>\<open>free_message_ref\<close> hands the message to the epoch-based reclamation, which calls
  \<^verbatim>\<open>free_message_ref_real\<close> later: \<open>retired\<close> holds the messages handed over, and
  \<open>reclaim_message\<close> is the later call.
\<close>

definition free_message_ref :: "msg_heap \<Rightarrow> nat \<Rightarrow> msg_heap option" where
  "free_message_ref h m =
     (if m \<in> dom (messages h) then Some (h\<lparr>retired := retired h @ [m]\<rparr>) else None)"

definition put_message :: "msg_heap \<Rightarrow> nat \<Rightarrow> msg_heap option" where
  "put_message h m = do {
     ms \<leftarrow> messages h m;
     let (r, free) = ref_put (ms_ref ms) True;
         h = h\<lparr>messages := (messages h)(m \<mapsto> ms\<lparr>ms_ref := r\<rparr>)\<rparr>
     in if free then free_message_ref h m else Some h
   }"

definition reclaim_message :: "msg_heap \<Rightarrow> (nat \<times> msg_heap) option" where
  "reclaim_message h =
     (case retired h of
        [] \<Rightarrow> None
      | m # ms \<Rightarrow> do { h' \<leftarrow> free_message_ref_real (h\<lparr>retired := ms\<rparr>) m; Some (m, h') })"

section \<open>The reference-count invariant\<close>

text \<open>
  \<open>ext d\<close> and \<open>mext m\<close> are the references held outside the heap, by the threads that created or
  took the payload \<open>d\<close> and the message \<open>m\<close>.
\<close>

definition holders :: "msg_heap \<Rightarrow> nat \<Rightarrow> nat" where
  "holders h d = card {m. \<exists>ms. messages h m = Some ms \<and> m_data ms = Some d}"

definition data_ok :: "(nat \<Rightarrow> nat) \<Rightarrow> msg_heap \<Rightarrow> nat \<Rightarrow> bool" where
  "data_ok ext h d \<longleftrightarrow>
     (case datas h d of
        None \<Rightarrow> ext d = 0 \<and> holders h d = 0
      | Some md \<Rightarrow> md_ref md = int (ext d + holders h d) \<and> 0 < md_ref md \<and> free_data md = FREE_DEFAULT \<and>
                   (\<exists>a. data md = Some a \<and> a \<in> dom (payloads h)))"

definition message_ok :: "(nat \<Rightarrow> nat) \<Rightarrow> msg_heap \<Rightarrow> nat \<Rightarrow> bool" where
  "message_ok mext h m \<longleftrightarrow>
     (case messages h m of
        None \<Rightarrow> mext m = 0 \<and> m \<notin> set (retired h)
      | Some ms \<Rightarrow> ms_ref ms = int (mext m) \<and> (m \<in> set (retired h) \<longleftrightarrow> mext m = 0))"

definition owners_distinct :: "msg_heap \<Rightarrow> bool" where
  "owners_distinct h \<longleftrightarrow>
     (\<forall>d d' md md'. datas h d = Some md \<longrightarrow> datas h d' = Some md' \<longrightarrow> data md = data md' \<longrightarrow> d = d')"

definition msg_inv :: "(nat \<Rightarrow> nat) \<Rightarrow> (nat \<Rightarrow> nat) \<Rightarrow> msg_heap \<Rightarrow> bool" where
  "msg_inv ext mext h \<longleftrightarrow>
     (\<forall>d. data_ok ext h d) \<and> (\<forall>m. message_ok mext h m) \<and> owners_distinct h \<and>
     distinct (retired h) \<and> finite (dom (messages h))"

section \<open>Counting holders\<close>

definition points :: "message option \<Rightarrow> nat \<Rightarrow> nat" where
  "points mo d = (case mo of None \<Rightarrow> 0 | Some ms \<Rightarrow> if m_data ms = Some d then 1 else 0)"

lemma holders_frame [simp]:
  "holders (h\<lparr>datas := x\<rparr>) d = holders h d" "holders (h\<lparr>payloads := y\<rparr>) d = holders h d"
  "holders (h\<lparr>retired := z\<rparr>) d = holders h d"
  by (simp_all add: holders_def)

lemma holders_upd:
  assumes "finite (dom (messages h))"
  shows "holders (h\<lparr>messages := (messages h)(m := mo)\<rparr>) d + points (messages h m) d
       = holders h d + points mo d"
proof -
  let ?S = "{m'. m' \<noteq> m \<and> (\<exists>ms. messages h m' = Some ms \<and> m_data ms = Some d)}"
  have "?S \<subseteq> dom (messages h)" by auto
  then have fin: "finite ?S" using assms finite_subset by blast
  have "{m'. \<exists>ms. ((messages h)(m := mo')) m' = Some ms \<and> m_data ms = Some d}
       = (if points mo' d = 1 then insert m ?S else ?S)" for mo'
    by (auto simp: points_def split: option.splits if_splits)
  moreover have "points mo' d = 0 \<or> points mo' d = 1" for mo' by (simp add: points_def split: option.splits)
  ultimately have card: "card {m'. \<exists>ms. ((messages h)(m := mo')) m' = Some ms \<and> m_data ms = Some d}
       = card ?S + points mo' d" for mo'
    using fin by (auto simp: card_insert_if)
  show ?thesis using card [of mo] card [of "messages h m"] by (simp add: holders_def)
qed

lemma holders_pos: "finite (dom (messages h)) \<Longrightarrow> messages h m = Some ms \<Longrightarrow> m_data ms = Some d \<Longrightarrow> 0 < holders h d"
proof -
  assume "finite (dom (messages h))" and m: "messages h m = Some ms" "m_data ms = Some d"
  moreover have "{m. \<exists>ms. messages h m = Some ms \<and> m_data ms = Some d} \<subseteq> dom (messages h)" by auto
  ultimately have "finite {m. \<exists>ms. messages h m = Some ms \<and> m_data ms = Some d}"
    using finite_subset by blast
  with m show "0 < holders h d" unfolding holders_def by (subst card_gt_0_iff) blast
qed

section \<open>Every operation keeps the invariant\<close>

lemma message_ok_frame [simp]:
  "message_ok mext (h\<lparr>datas := x\<rparr>) m = message_ok mext h m"
  "message_ok mext (h\<lparr>payloads := y\<rparr>) m = message_ok mext h m"
  "message_ok mext (h\<lparr>datas := x, messages := w\<rparr>) m = message_ok mext (h\<lparr>messages := w\<rparr>) m"
  by (simp_all add: message_ok_def split: option.split)

lemma message_ok_cong:
  "messages h' = messages h \<Longrightarrow> retired h' = retired h \<Longrightarrow> message_ok mext h' m = message_ok mext h m"
  by (simp add: message_ok_def split: option.split)

lemma msg_invI:
  "(\<And>d. data_ok ext h d) \<Longrightarrow> (\<And>m. message_ok mext h m) \<Longrightarrow> owners_distinct h \<Longrightarrow>
   distinct (retired h) \<Longrightarrow> finite (dom (messages h)) \<Longrightarrow> msg_inv ext mext h"
  by (simp add: msg_inv_def)

lemma msg_invD:
  assumes "msg_inv ext mext h"
  shows "data_ok ext h d" "message_ok mext h m" "owners_distinct h" "distinct (retired h)"
    "finite (dom (messages h))"
  using assms by (simp_all add: msg_inv_def)

lemma data_ok_SomeD:
  "data_ok ext h d \<Longrightarrow> datas h d = Some md \<Longrightarrow>
     md_ref md = int (ext d + holders h d) \<and> 0 < md_ref md \<and> free_data md = FREE_DEFAULT \<and>
     (\<exists>a. data md = Some a \<and> a \<in> dom (payloads h))"
  by (simp add: data_ok_def)

lemma live_data: "msg_inv ext mext h \<Longrightarrow> 0 < ext d + holders h d \<Longrightarrow> \<exists>md. datas h d = Some md"
  using msg_invD(1) [of ext mext h d] by (auto simp: data_ok_def split: option.splits)

lemma live_message: "msg_inv ext mext h \<Longrightarrow> 0 < mext m \<Longrightarrow> \<exists>ms. messages h m = Some ms"
  using msg_invD(2) [of ext mext h m] by (auto simp: message_ok_def split: option.splits)

lemma create_message_data_inv:
  assumes inv: "msg_inv ext mext h" and a: "datas h a = None" and p: "p \<in> dom (payloads h)"
    and own: "\<forall>d md. datas h d = Some md \<longrightarrow> data md \<noteq> Some p" and len: "0 < len"
  shows "\<exists>h'. create_message_data (Some a) h t len (Some p) FREE_DEFAULT = Some (h', Some a, None) \<and>
              msg_inv (ext(a := 1)) mext h'"
proof -
  let ?h = "h\<lparr>datas := (datas h)(a \<mapsto> \<lparr>md_ref = ref_init, msg_type = t, data_len = len,
                                        data = Some p, free_data = FREE_DEFAULT\<rparr>)\<rparr>"
  note d = msg_invD [OF inv]
  have "data_ok (ext(a := 1)) ?h d" for d
    using d(1) [of d] d(1) [of a] a p by (auto simp: data_ok_def ref_init_def split: option.splits)
  moreover have "message_ok mext ?h m" for m using d(2) [of m] by simp
  moreover have "owners_distinct ?h" using d(3) own by (force simp: owners_distinct_def)
  ultimately have "msg_inv (ext(a := 1)) mext ?h" using d by (intro msg_invI) simp_all
  then show ?thesis using len by (simp add: create_message_data_def)
qed

text \<open>A payload's count goes up by one and one more message points at it, or is about to.\<close>

lemma data_ok_ref:
  assumes "msg_inv ext mext h" and "datas h d = Some md" and "finite (dom (messages h))"
    and m: "points (messages h m) = (\<lambda>_. 0)"
    and ms: "m_data ms = Some d"
  shows "data_ok ext (h\<lparr>datas := (datas h)(d \<mapsto> md\<lparr>md_ref := md_ref md + 1\<rparr>),
                        messages := (messages h)(m \<mapsto> ms)\<rparr>) d'"
proof -
  have "holders (h\<lparr>messages := (messages h)(m := Some ms)\<rparr>) d' = holders h d' + (if d' = d then 1 else 0)"
    using holders_upd [OF assms(3), of m "Some ms" d'] m ms by (auto simp: points_def)
  then have "holders (h\<lparr>datas := x, messages := (messages h)(m := Some ms)\<rparr>) d'
       = holders h d' + (if d' = d then 1 else 0)" for x
    by (simp add: holders_def)
  then show ?thesis using msg_invD(1) [OF assms(1), of d'] assms(2)
    by (auto simp: data_ok_def split: option.splits)
qed

lemma points_none [simp]: "points None = (\<lambda>_. 0)"
  "m_data ms = None \<Longrightarrow> points (Some ms) = (\<lambda>_. 0)"
  by (auto simp: points_def)

lemma msg_inv_ref:
  assumes inv: "msg_inv ext mext h" and md: "datas h d = Some md"
    and m: "points (messages h m) = (\<lambda>_. 0)" and ms: "m_data ms = Some d"
    and ok: "\<And>m'. message_ok mext' (h\<lparr>messages := (messages h)(m \<mapsto> ms)\<rparr>) m'"
  shows "msg_inv ext mext' (h\<lparr>datas := (datas h)(d \<mapsto> md\<lparr>md_ref := md_ref md + 1\<rparr>),
                              messages := (messages h)(m \<mapsto> ms)\<rparr>)"
    (is "msg_inv ext mext' ?h")
proof (rule msg_invI)
  note i = msg_invD [OF inv]
  show "data_ok ext ?h d'" for d' by (rule data_ok_ref [OF inv md i(5) m ms])
  show "message_ok mext' ?h m'" for m' using ok [of m'] by simp
  show "owners_distinct ?h" using i(3) md by (auto simp: owners_distinct_def split: if_splits)
qed (use msg_invD [OF inv] in simp_all)

lemma create_message_with_msg_inv:
  assumes inv: "msg_inv ext mext h" and a: "messages h a = None" and d: "0 < ext d + holders h d"
  shows "\<exists>h'. create_message_with_msg (Some a) h (Some d) = Some (h', Some a) \<and>
              msg_inv ext (mext(a := 1)) h'"
proof -
  obtain md where md: "datas h d = Some md" using live_data [OF inv d] by blast
  let ?ms = "\<lparr>ms_ref = 1, m_data = Some d, receiver = None\<rparr>"
  have "message_ok (mext(a := 1)) (h\<lparr>messages := (messages h)(a \<mapsto> ?ms)\<rparr>) m" for m
    using msg_invD(2) [OF inv, of m] msg_invD(2) [OF inv, of a] a
    by (auto simp: message_ok_def split: option.splits)
  then have "msg_inv ext (mext(a := 1)) (h\<lparr>datas := (datas h)(d \<mapsto> md\<lparr>md_ref := md_ref md + 1\<rparr>),
      messages := (messages h)(a \<mapsto> ?ms)\<rparr>)"
    by (intro msg_inv_ref [OF inv md]) (simp_all add: a)
  moreover have "0 < md_ref md" using data_ok_SomeD [OF msg_invD(1) [OF inv] md] by simp
  ultimately show ?thesis
    by (simp add: create_message_with_msg_def md ref_get_not_zero_def ref_init_def)
qed

lemma fill_message_data_inv:
  assumes inv: "msg_inv ext mext h" and m: "messages h m = Some ms" "m_data ms = None"
    and d: "0 < ext d + holders h d"
  shows "\<exists>h'. fill_message_data h (Some m) (Some d) = Some (h', REND_SUCCESS) \<and> msg_inv ext mext h'"
proof -
  obtain md where md: "datas h d = Some md" using live_data [OF inv d] by blast
  have "message_ok mext (h\<lparr>messages := (messages h)(m \<mapsto> ms\<lparr>m_data := Some d\<rparr>)\<rparr>) m'" for m'
    using msg_invD(2) [OF inv, of m'] m(1) by (auto simp: message_ok_def split: option.splits)
  then have "msg_inv ext mext (h\<lparr>datas := (datas h)(d \<mapsto> md\<lparr>md_ref := md_ref md + 1\<rparr>),
      messages := (messages h)(m \<mapsto> ms\<lparr>m_data := Some d\<rparr>)\<rparr>)"
    by (intro msg_inv_ref [OF inv md]) (simp_all add: m)
  moreover have "0 < md_ref md" using data_ok_SomeD [OF msg_invD(1) [OF inv] md] by simp
  ultimately show ?thesis by (simp add: fill_message_data_def md m ref_get_not_zero_def)
qed

text \<open>
  Dropping a reference: \<open>ext\<close> or the holder count falls by one before the put. When it was the last
  one the payload buffer and the structure are freed, and nothing points at them any more.
\<close>

lemma put_msgdata_ok:
  assumes inv: "\<And>d'. d' \<noteq> d \<Longrightarrow> data_ok ext h d'" and md: "datas h d = Some md"
    and ref: "md_ref md = int (ext d + holders h d) + 1"
    and p: "data md = Some p" "p \<in> dom (payloads h)" "free_data md = FREE_DEFAULT"
    and own: "owners_distinct h"
  shows "\<exists>h'. put_msgdata h d FREE_DEFAULT = Some h' \<and> (\<forall>d'. data_ok ext h' d') \<and> owners_distinct h' \<and>
              messages h' = messages h \<and> retired h' = retired h \<and>
              (datas h' d = None \<longleftrightarrow> ext d + holders h d = 0) \<and>
              (datas h' d = None \<longleftrightarrow> p \<notin> dom (payloads h'))"
proof (cases "ext d + holders h d = 0")
  case True
  let ?h = "h\<lparr>datas := (datas h)(d := None), payloads := (payloads h)(p := None)\<rparr>"
  have "put_msgdata h d FREE_DEFAULT = Some ?h"
    using True md ref p by (simp add: put_msgdata_def ref_put_def free_msgdata_ref_default_def
        m_free_payload_def delete_msgdata_structure_def)
  moreover have "data_ok ext ?h d'" for d'
  proof (cases "d' = d")
    case False
    then have "\<And>md'. datas h d' = Some md' \<Longrightarrow> data md' \<noteq> Some p"
      using own md p(1) by (auto simp: owners_distinct_def)
    with inv [OF False] False show ?thesis by (auto simp: data_ok_def split: option.splits)
  qed (use True in \<open>simp add: data_ok_def\<close>)
  moreover have "owners_distinct ?h" using own by (auto simp: owners_distinct_def split: if_splits)
  ultimately show ?thesis using True by (intro exI [of _ ?h]) auto
next
  case False
  let ?h = "h\<lparr>datas := (datas h)(d \<mapsto> md\<lparr>md_ref := md_ref md - 1\<rparr>)\<rparr>"
  have "put_msgdata h d FREE_DEFAULT = Some ?h"
    using False md ref by (auto simp: put_msgdata_def ref_put_def Let_def)
  moreover have "data_ok ext ?h d'" for d'
    using inv [of d'] False ref p by (cases "d' = d") (auto simp: data_ok_def split: option.splits)
  moreover have "owners_distinct ?h" using own md by (auto simp: owners_distinct_def split: if_splits)
  ultimately show ?thesis using False p(2) by (intro exI [of _ ?h]) auto
qed

lemma put_msgdata_inv:
  assumes inv: "msg_inv ext mext h" and d: "0 < ext d"
  shows "\<exists>h'. put_msgdata h d FREE_DEFAULT = Some h' \<and> msg_inv (ext(d := ext d - 1)) mext h' \<and>
              (datas h' d = None \<longleftrightarrow> ext d + holders h d = 1)"
proof -
  note i = msg_invD [OF inv]
  obtain md where md: "datas h d = Some md" using live_data [OF inv, of d] d by auto
  then obtain p where p: "data md = Some p" "p \<in> dom (payloads h)" "free_data md = FREE_DEFAULT"
      "md_ref md = int (ext d + holders h d)"
    using data_ok_SomeD [OF i(1) md] by blast
  have "data_ok (ext(d := ext d - 1)) h d'" if "d' \<noteq> d" for d'
    using i(1) [of d'] that by (simp add: data_ok_def split: option.splits)
  moreover have "md_ref md = int ((ext(d := ext d - 1)) d + holders h d) + 1" using p(4) d by simp
  ultimately obtain h' where h': "put_msgdata h d FREE_DEFAULT = Some h'"
      "\<forall>d'. data_ok (ext(d := ext d - 1)) h' d'" "owners_distinct h'" "messages h' = messages h"
      "retired h' = retired h" "datas h' d = None \<longleftrightarrow> (ext(d := ext d - 1)) d + holders h d = 0"
    using put_msgdata_ok [OF _ md _ p(1,2,3) i(3)] by metis
  have "message_ok mext h' m" for m using i(2) [of m] message_ok_cong [OF h'(4,5)] by simp
  then have "msg_inv (ext(d := ext d - 1)) mext h'" using h' i by (simp add: msg_inv_def)
  with h'(1,6) d show ?thesis by auto
qed

lemma put_message_inv:
  assumes inv: "msg_inv ext mext h" and m: "0 < mext m"
  shows "\<exists>h'. put_message h m = Some h' \<and> msg_inv ext (mext(m := mext m - 1)) h'"
proof -
  note i = msg_invD [OF inv]
  obtain ms where ms: "messages h m = Some ms" using live_message [OF inv m] by blast
  have r: "ms_ref ms = int (mext m)" "m \<notin> set (retired h)"
    using i(2) [of m] ms m by (simp_all add: message_ok_def)
  let ?h = "h\<lparr>messages := (messages h)(m \<mapsto> ms\<lparr>ms_ref := ms_ref ms - 1\<rparr>)\<rparr>"
  let ?h' = "if mext m = 1 then ?h\<lparr>retired := retired h @ [m]\<rparr> else ?h"
  have "holders ?h d = holders h d" for d
    using holders_upd [OF i(5), of m "Some (ms\<lparr>ms_ref := ms_ref ms - 1\<rparr>)" d] ms
    by (simp add: points_def split: if_splits)
  then have "data_ok ext ?h' d" for d
    using i(1) [of d] by (simp add: data_ok_def split: option.splits)
  moreover have "message_ok (mext(m := mext m - 1)) ?h' m'" for m'
    using i(2) [of m'] r m by (auto simp: message_ok_def split: option.splits)
  moreover have "owners_distinct ?h'" using i(3) by (simp add: owners_distinct_def)
  ultimately have "msg_inv ext (mext(m := mext m - 1)) ?h'"
    using i(4,5) r by (intro msg_invI) (simp_all split: if_splits)
  moreover have "put_message h m = Some ?h'"
    using ms r m by (simp add: put_message_def ref_put_def free_message_ref_def)
  ultimately show ?thesis by blast
qed

text \<open>Reclaiming the oldest retired message: its reference on the payload is dropped with it.\<close>

lemma reclaim_message_inv:
  assumes inv: "msg_inv ext mext h" and ne: "retired h = m # rs"
  shows "\<exists>h'. reclaim_message h = Some (m, h') \<and> msg_inv ext mext h' \<and> messages h' m = None \<and>
              retired h' = rs"
proof -
  note i = msg_invD [OF inv]
  obtain ms where ms: "messages h m = Some ms" "mext m = 0"
    using i(2) [of m] ne by (auto simp: message_ok_def split: option.splits)
  define g where "g = h\<lparr>retired := rs\<rparr>"
  define g' where "g' = g\<lparr>messages := (messages g)(m := None)\<rparr>"
  have g: "messages g m = Some ms" "datas g = datas h" "messages g = messages h" "retired g = rs"
      "payloads g = payloads h" "holders g = holders h"
    using ms by (auto simp: g_def)
  have hold: "holders g' d + points (Some ms) d = holders h d" for d
    using holders_upd [of g m None d] i(5) ms(1) g by (simp add: g'_def)
  have mok: "message_ok mext g' m'" for m'
    using i(2) [of m'] i(4) ms(2) ne g by (auto simp: message_ok_def g'_def split: option.splits)
  have own: "owners_distinct g'" using i(3) g by (simp add: owners_distinct_def g'_def)
  show ?thesis
  proof (cases "m_data ms")
    case None
    then have "holders g' d = holders h d" for d using hold [of d] by (simp add: points_def)
    then have "data_ok ext g' d" for d using i(1) [of d] g by (simp add: data_ok_def g'_def split: option.splits)
    then have "msg_inv ext mext g'" using mok own i(4,5) ne g
      by (intro msg_invI) (simp_all add: g'_def)
    moreover have "reclaim_message h = Some (m, g')"
      using None ne g by (auto simp: reclaim_message_def free_message_ref_real_def
          delete_message_structure_def g'_def g_def)
    ultimately show ?thesis using g by (intro exI [of _ g']) (simp add: g'_def)
  next
    case (Some d)
    have "0 < holders h d" by (rule holders_pos [OF i(5) ms(1) Some])
    then obtain md where md: "datas h d = Some md" using live_data [OF inv, of d] by auto
    then obtain p where p: "data md = Some p" "p \<in> dom (payloads h)" "free_data md = FREE_DEFAULT"
        "md_ref md = int (ext d + holders h d)"
      using data_ok_SomeD [OF i(1) md] by blast
    have "holders g' d' = holders h d'" if "d' \<noteq> d" for d'
      using hold [of d'] that Some by (simp add: points_def)
    then have "data_ok ext g' d'" if "d' \<noteq> d" for d'
      using i(1) [of d'] that g by (simp add: data_ok_def g'_def split: option.splits)
    moreover have "md_ref md = int (ext d + holders g' d) + 1"
      using p(4) hold [of d] Some by (simp add: points_def)
    moreover have "datas g' d = Some md" "p \<in> dom (payloads g')" using md p g by (simp_all add: g'_def)
    ultimately obtain h' where h': "put_msgdata g' d FREE_DEFAULT = Some h'" "\<forall>d'. data_ok ext h' d'"
        "owners_distinct h'" "messages h' = messages g'" "retired h' = retired g'"
      using put_msgdata_ok [of d ext g' md p] p own by metis
    have "message_ok mext h' m'" for m' using mok [of m'] message_ok_cong [OF h'(4,5)] by simp
    then have "msg_inv ext mext h'" using h' i(4,5) ne g by (intro msg_invI) (simp_all add: g'_def)
    moreover
    have "put_msgdata g d FREE_DEFAULT = Some (h'\<lparr>messages := messages g\<rparr>)"
      using h'(1) md g by (auto simp: put_msgdata_def g'_def Let_def free_msgdata_ref_default_def ref_put_def
          m_free_payload_def delete_msgdata_structure_def split: if_splits option.splits)
    then have "reclaim_message h = Some (m, h')"
      using Some ne g md p(3) h'(4) by (auto simp: reclaim_message_def free_message_ref_real_def
          delete_message_structure_def g'_def simp flip: g_def)
    ultimately show ?thesis using h'(4,5) g by (intro exI [of _ h']) (simp add: g'_def)
  qed
qed

section \<open>Clients\<close>

text \<open>
  What the kernel does with messages, as a step relation on the references held outside the heap
  and the heap. A client drops only references it has, fills only an empty message it has, and
  attaches only a payload it reaches through a reference; \<open>reclaim\<close> is the deferred free.
\<close>

type_synonym client_state = "(nat \<Rightarrow> nat) \<times> (nat \<Rightarrow> nat) \<times> msg_heap"

inductive client_step :: "client_state \<Rightarrow> client_state \<Rightarrow> bool" where
  new_payload: "payloads h p = None \<Longrightarrow>
     client_step (ext, mext, h) (ext, mext, h\<lparr>payloads := (payloads h)(p \<mapsto> bs)\<rparr>)"
| create_data: "\<lbrakk>datas h a = None; p \<in> dom (payloads h);
     \<forall>d md. datas h d = Some md \<longrightarrow> data md \<noteq> Some p; 0 < len;
     create_message_data (Some a) h t len (Some p) FREE_DEFAULT = Some (h', Some a, None)\<rbrakk> \<Longrightarrow>
     client_step (ext, mext, h) (ext(a := 1), mext, h')"
| create_msg: "\<lbrakk>messages h a = None; 0 < ext d + holders h d;
     create_message_with_msg (Some a) h (Some d) = Some (h', Some a)\<rbrakk> \<Longrightarrow>
     client_step (ext, mext, h) (ext, mext(a := 1), h')"
| create_empty: "\<lbrakk>messages h a = None; create_message_structure (Some a) h = (h', Some a)\<rbrakk> \<Longrightarrow>
     client_step (ext, mext, h) (ext, mext(a := 1), h')"
| fill: "\<lbrakk>messages h m = Some ms; m_data ms = None; 0 < mext m; 0 < ext d + holders h d;
     fill_message_data h (Some m) (Some d) = Some (h', REND_SUCCESS)\<rbrakk> \<Longrightarrow>
     client_step (ext, mext, h) (ext, mext, h')"
| put_data: "\<lbrakk>0 < ext d; put_msgdata h d FREE_DEFAULT = Some h'\<rbrakk> \<Longrightarrow>
     client_step (ext, mext, h) (ext(d := ext d - 1), mext, h')"
| put_msg: "\<lbrakk>0 < mext m; put_message h m = Some h'\<rbrakk> \<Longrightarrow>
     client_step (ext, mext, h) (ext, mext(m := mext m - 1), h')"
| reclaim: "reclaim_message h = Some (m, h') \<Longrightarrow>
     client_step (ext, mext, h) (ext, mext, h')"

definition empty_heap :: msg_heap where
  "empty_heap = \<lparr>payloads = Map.empty, datas = Map.empty, messages = Map.empty, retired = []\<rparr>"

definition msg_init :: client_state where
  "msg_init = (\<lambda>_. 0, \<lambda>_. 0, empty_heap)"

definition state_inv :: "client_state \<Rightarrow> bool" where
  "state_inv s \<longleftrightarrow> (case s of (ext, mext, h) \<Rightarrow> msg_inv ext mext h)"

lemma state_inv_init: "state_inv msg_init"
  by (simp add: state_inv_def msg_init_def msg_inv_def empty_heap_def data_ok_def message_ok_def
      owners_distinct_def holders_def)

lemma create_message_structure_inv:
  assumes inv: "msg_inv ext mext h" and a: "messages h a = None"
    and h': "create_message_structure (Some a) h = (h', Some a)"
  shows "msg_inv ext (mext(a := 1)) h'"
proof -
  note i = msg_invD [OF inv]
  have eq: "h' = h\<lparr>messages := (messages h)(a := Some \<lparr>ms_ref = 1, m_data = None, receiver = None\<rparr>)\<rparr>"
    using h' by (simp add: create_message_structure_def ref_init_def)
  have "holders h' d = holders h d" for d
    using holders_upd [OF i(5), of a "Some \<lparr>ms_ref = 1, m_data = None, receiver = None\<rparr>" d] a eq
    by (simp add: points_def)
  then have "data_ok ext h' d" for d using i(1) [of d] eq by (simp add: data_ok_def split: option.splits)
  moreover have "message_ok (mext(a := 1)) h' m" for m
    using i(2) [of m] i(2) [of a] a eq by (auto simp: message_ok_def split: option.splits)
  ultimately show ?thesis using i eq by (intro msg_invI) (simp_all add: owners_distinct_def)
qed

lemma new_payload_inv:
  assumes "msg_inv ext mext h" shows "msg_inv ext mext (h\<lparr>payloads := (payloads h)(p \<mapsto> bs)\<rparr>)"
proof -
  note i = msg_invD [OF assms]
  have "data_ok ext (h\<lparr>payloads := (payloads h)(p \<mapsto> bs)\<rparr>) d" for d
    using i(1) [of d] by (auto simp: data_ok_def split: option.splits)
  then show ?thesis using i by (intro msg_invI) (simp_all add: owners_distinct_def)
qed

lemma client_step_inv: "client_step s s' \<Longrightarrow> state_inv s \<Longrightarrow> state_inv s'"
proof (induction rule: client_step.induct)
  case (new_payload h p ext mext bs)
  then show ?case by (simp add: state_inv_def new_payload_inv)
next
  case (create_data h a p len t h' ext mext)
  then show ?case using create_message_data_inv [of ext mext h a p len t] by (auto simp: state_inv_def)
next
  case (create_msg h a ext d h' mext)
  then show ?case using create_message_with_msg_inv [of ext mext h a d] by (auto simp: state_inv_def)
next
  case (create_empty h a h' ext mext)
  then show ?case using create_message_structure_inv [of ext mext h a h'] by (simp add: state_inv_def)
next
  case (fill h m ms mext ext d h')
  then show ?case using fill_message_data_inv [of ext mext h m ms d] by (auto simp: state_inv_def)
next
  case (put_data ext d h h' mext)
  then show ?case using put_msgdata_inv [of ext mext h d] by (auto simp: state_inv_def)
next
  case (put_msg mext m h h' ext)
  then show ?case using put_message_inv [of ext mext h m] by (auto simp: state_inv_def)
next
  case (reclaim h m h' ext mext)
  then obtain rs where "retired h = m # rs"
    by (auto simp: reclaim_message_def split: list.splits bind_splits)
  with reclaim reclaim_message_inv [of ext mext h m rs] show ?case by (auto simp: state_inv_def)
qed

lemma client_steps_inv: "client_step\<^sup>*\<^sup>* s s' \<Longrightarrow> state_inv s \<Longrightarrow> state_inv s'"
  by (induction rule: rtranclp_induct) (auto intro: client_step_inv)

section \<open>Properties\<close>


text \<open>A run that creates a payload, a message on it, and drops the creator's reference.\<close>

lemma message_run:
  "\<exists>h. client_step\<^sup>*\<^sup>* msg_init (\<lambda>_. 0, (\<lambda>_. 0)(9 := 1), h) \<and> holders h 5 = 1 \<and> datas h 5 \<noteq> None"
proof -
  let ?h1 = "empty_heap\<lparr>payloads := [1 \<mapsto> [7]]\<rparr>"
  let ?md = "\<lambda>r. \<lparr>md_ref = r, msg_type = 1, data_len = 1, data = Some 1, free_data = FREE_DEFAULT\<rparr>"
  let ?h2 = "?h1\<lparr>datas := [5 \<mapsto> ?md 1]\<rparr>"
  let ?h3 = "?h1\<lparr>datas := [5 \<mapsto> ?md 2], messages := [9 \<mapsto> \<lparr>ms_ref = 1, m_data = Some 5, receiver = None\<rparr>]\<rparr>"
  let ?h4 = "?h3\<lparr>datas := [5 \<mapsto> ?md 1]\<rparr>"
  let ?e = "(\<lambda>_ :: nat. 0 :: nat)(5 := 1)" and ?m = "(\<lambda>_ :: nat. 0 :: nat)(9 := 1)"
  have "client_step msg_init (\<lambda>_. 0, \<lambda>_. 0, ?h1)"
    using new_payload [of empty_heap 1 "\<lambda>_. 0" "\<lambda>_. 0" "[7]"] by (simp add: msg_init_def empty_heap_def)
  moreover have "client_step (\<lambda>_. 0, \<lambda>_. 0, ?h1) (?e, \<lambda>_. 0, ?h2)"
    by (rule create_data [where p = 1 and len = 1 and t = 1])
       (simp_all add: empty_heap_def create_message_data_def ref_init_def)
  moreover have "client_step (?e, \<lambda>_. 0, ?h2) (?e, ?m, ?h3)"
    by (rule create_msg [where d = 5])
       (simp_all add: empty_heap_def create_message_with_msg_def ref_get_not_zero_def ref_init_def)
  moreover have "client_step (?e, ?m, ?h3) (?e(5 := ?e 5 - 1), ?m, ?h4)"
    by (rule put_data) (simp_all add: empty_heap_def put_msgdata_def ref_put_def)
  moreover have "?e(5 := ?e 5 - 1) = (\<lambda>_. 0)" by (rule HOL.ext) simp
  ultimately have "client_step\<^sup>*\<^sup>* msg_init (\<lambda>_. 0, ?m, ?h4)"
    by (metis (no_types, lifting) converse_rtranclp_into_rtranclp r_into_rtranclp)
  moreover have "holders ?h4 5 = 1"
  proof -
    have "{m. \<exists>ms. messages ?h4 m = Some ms \<and> m_data ms = Some 5} = {9}" by auto
    then show ?thesis by (simp add: holders_def)
  qed
  ultimately show ?thesis by (intro exI [of _ ?h4]) simp
qed


text \<open>When \<^verbatim>\<open>m_alloc\<close> fails in \<^verbatim>\<open>create_message_with_msg\<close>, the reference just taken on the payload
  is not given back: \<open>NULL\<close> is returned with the count one higher, so no later put of the references
  that are held can free the payload.\<close>

theorem create_message_with_msg_leak:
  assumes "datas h d = Some md" and "0 < md_ref md"
  shows "\<exists>h'. create_message_with_msg None h (Some d) = Some (h', None) \<and>
              messages h' = messages h \<and> datas h' d = Some (md\<lparr>md_ref := md_ref md + 1\<rparr>)"
  using assms by (simp add: create_message_with_msg_def ref_get_not_zero_def)

theorem create_message_with_msg_leak_witness:
  "\<exists>h'. create_message_with_msg None
          (empty_heap\<lparr>datas := [5 \<mapsto> \<lparr>md_ref = 1, msg_type = 1, data_len = 1, data = Some 1, free_data = FREE_DEFAULT\<rparr>]\<rparr>)
          (Some 5) = Some (h', None) \<and>
        messages h' = Map.empty \<and>
        datas h' 5 = Some \<lparr>md_ref = 2, msg_type = 1, data_len = 1, data = Some 1, free_data = FREE_DEFAULT\<rparr>"
  using create_message_with_msg_leak
    [of "empty_heap\<lparr>datas := [5 \<mapsto> \<lparr>md_ref = 1, msg_type = 1, data_len = 1, data = Some 1, free_data = FREE_DEFAULT\<rparr>]\<rparr>"
        5 "\<lparr>md_ref = 1, msg_type = 1, data_len = 1, data = Some 1, free_data = FREE_DEFAULT\<rparr>"]
  by (simp add: empty_heap_def)

end
