(* ===== verification/Kmsg.thy ===== *)
theory Kmsg
  imports Message Ipc_Serial
begin

text \<open>
  Kernel messages, \<^verbatim>\<open>kernel/ipc/kmsg.c\<close> and \<^verbatim>\<open>include/rendezvos/ipc/kmsg.h\<close>: a fixed header and a
  serialized payload in one buffer, carried by a \<^verbatim>\<open>Msg_Data_t\<close>. The locale \<open>payload_codec\<close> states
  what a kernel message relies on of its payload format; \<^verbatim>\<open>Ipc_Serial\<close> provides it.
\<close>

section \<open>Operations\<close>

definition MSG_DATA_TAG_KMSG :: int where "MSG_DATA_TAG_KMSG = 1"

definition KMSG_MAGIC :: u32 where "KMSG_MAGIC = 0x47534d4c"

definition KMSG_MAX_PAYLOAD :: u32 where "KMSG_MAX_PAYLOAD = ucast PAGE_SIZE"

text \<open>\<open>offsetof(kmsg_t, payload)\<close>: the header is two \<open>u32\<close> around two \<open>u16\<close>, without padding.\<close>

definition km_hdr_sz :: nat where "km_hdr_sz = 12"

definition kmsg_hdr_bytes :: "u16 \<Rightarrow> u16 \<Rightarrow> u32 \<Rightarrow> u8 list" where
  "kmsg_hdr_bytes module opcode payload_len =
     le_bytes 4 KMSG_MAGIC @ le_bytes 2 module @ le_bytes 2 opcode @ le_bytes 4 payload_len"

record kmsg_hdr =
  magic :: u32
  module :: u16
  opcode :: u16
  payload_len :: u32

definition kmsg_hdr_of :: "u8 list \<Rightarrow> kmsg_hdr" where
  "kmsg_hdr_of b = \<lparr>magic = le_value (take 4 b), module = le_value (take 2 (drop 4 b)),
     opcode = le_value (take 2 (drop 6 b)), payload_len = le_value (take 4 (drop 8 b))\<rparr>"

text \<open>
  The body of \<^verbatim>\<open>kmsg_create\<close>, over the two payload functions it calls. \<open>km\<close> and \<open>md\<close> are what the two
  calls of \<^verbatim>\<open>m_alloc\<close> return (a missing allocator gives \<open>NULL\<close> too); \<open>Ok\<close> holds the heap and the
  returned pointer. The buffer is filled with zeros before it is encoded into, and freed again when
  encoding fails.
\<close>

definition kmsg_build ::
    "('v \<Rightarrow> u32 res) \<Rightarrow> (u8 list option \<Rightarrow> u32 \<Rightarrow> 'v \<Rightarrow> u8 list res) \<Rightarrow>
     nat option \<Rightarrow> nat option \<Rightarrow> msg_heap \<Rightarrow> u16 \<Rightarrow> u16 \<Rightarrow> 'v \<Rightarrow> (msg_heap \<times> nat option) res" where
  "kmsg_build measure_fn encode km md h modid opc args =
     (case measure_fn args of
        Undef \<Rightarrow> Undef
      | Err _ \<Rightarrow> Ok (h, None)
      | Ok len \<Rightarrow>
          if len > KMSG_MAX_PAYLOAD then Ok (h, None)
          else if len > ucast (- 1 - of_nat km_hdr_sz :: u64) then Ok (h, None)
          else (case km of
              None \<Rightarrow> Ok (h, None)
            | Some k \<Rightarrow>
                (case encode (Some (replicate (unat len) 0)) len args of
                   Undef \<Rightarrow> Undef
                 | Err _ \<Rightarrow> Ok (h, None)
                 | Ok pl \<Rightarrow>
                     let h = h\<lparr>payloads := (payloads h)(k \<mapsto> kmsg_hdr_bytes modid opc len @ pl)\<rparr> in
                     res_bind (defined (create_message_data md h MSG_DATA_TAG_KMSG
                         (of_nat km_hdr_sz + ucast len) (Some k) FREE_DEFAULT))
                       (\<lambda>(h, p, _). Ok (h, p)))))"

definition kmsg_create ::
    "nat option \<Rightarrow> nat option \<Rightarrow> msg_heap \<Rightarrow> u16 \<Rightarrow> u16 \<Rightarrow> string option \<times> va_val list \<Rightarrow> (msg_heap \<times> nat option) res" where
  "kmsg_create = kmsg_build (\<lambda>(fmt, ap). ipc_serial_measure_va fmt ap)
                   (\<lambda>buf len (fmt, ap). ipc_serial_encode_into_va buf len fmt ap)"

text \<open>\<^verbatim>\<open>kmsg_from_msg\<close>: the header and the payload of the buffer, \<open>Some None\<close> for the \<open>NULL\<close> return,
  \<open>None\<close> when a pointer dangles.\<close>

definition kmsg_from_msg :: "msg_heap \<Rightarrow> nat option \<Rightarrow> (kmsg_hdr \<times> u8 list) option option" where
  "kmsg_from_msg h msg =
     (case msg of None \<Rightarrow> Some None | Some m \<Rightarrow> do {
        ms \<leftarrow> messages h m;
        (case m_data ms of None \<Rightarrow> Some None | Some d \<Rightarrow> do {
           md \<leftarrow> datas h d;
           (if msg_type md \<noteq> MSG_DATA_TAG_KMSG then Some None
            else case data md of None \<Rightarrow> Some None | Some a \<Rightarrow>
              if data_len md < of_nat km_hdr_sz then Some None
              else do {
                b \<leftarrow> payloads h a;
                let hdr = kmsg_hdr_of b in
                if magic hdr \<noteq> KMSG_MAGIC then Some None
                else if payload_len hdr \<noteq> ucast (data_len md - of_nat km_hdr_sz) then Some None
                else Some (Some (hdr, drop km_hdr_sz b))
              })
        })
      })"

definition sample_heap :: msg_heap where
  "sample_heap = empty_heap\<lparr>payloads := [1 \<mapsto> kmsg_hdr_bytes 3 4 2 @ [0, 0]],
     datas := [2 \<mapsto> \<lparr>md_ref = 1, msg_type = 1, data_len = 14, data = Some 1, free_data = FREE_DEFAULT\<rparr>],
     messages := [9 \<mapsto> \<lparr>ms_ref = 1, m_data = Some 2, receiver = None\<rparr>]\<rparr>"

section \<open>The header\<close>

lemma length_kmsg_hdr [simp]: "length (kmsg_hdr_bytes m op l) = km_hdr_sz"
  by (simp add: kmsg_hdr_bytes_def km_hdr_sz_def)

lemma kmsg_hdr_of_bytes:
  "kmsg_hdr_of (kmsg_hdr_bytes m op l @ pl) = \<lparr>magic = KMSG_MAGIC, module = m, opcode = op, payload_len = l\<rparr>"
  by (simp add: kmsg_hdr_of_def kmsg_hdr_bytes_def le_value_bytes)

section \<open>Payload codecs\<close>

locale payload_codec =
  fixes measure_fn :: "'v \<Rightarrow> u32 res"
    and encode :: "u8 list option \<Rightarrow> u32 \<Rightarrow> 'v \<Rightarrow> u8 list res"
    and decode :: "u8 list \<Rightarrow> u32 \<Rightarrow> 'v \<Rightarrow> 'r res"
    and fits :: "'v \<Rightarrow> nat \<Rightarrow> bool" and agrees :: "'v \<Rightarrow> u8 list \<Rightarrow> 'r \<Rightarrow> bool"
  assumes measured: "fits v n \<Longrightarrow> measure_fn v = Ok (of_nat n)"
    and encoded: "fits v n \<Longrightarrow> length buf = n \<Longrightarrow>
        \<exists>w. encode (Some buf) (of_nat n) v = Ok w \<and> length w = n \<and>
            (\<exists>r. decode w (of_nat n) v = Ok r \<and> agrees v w r)"
begin

text \<open>A message built from fitting arguments is received with its header, and decodes to them.\<close>

lemma built_received:
  assumes fit: "fits v n" and n: "0 < n" "n \<le> 0x1000" and k: "payloads h k = None"
  shows "\<exists>h' pl r. kmsg_build measure_fn encode (Some k) (Some d) h modid opc v = Ok (h', Some d) \<and>
           (\<forall>m ms. messages h' m = Some ms \<longrightarrow> m_data ms = Some d \<longrightarrow>
              kmsg_from_msg h' (Some m) = Some (Some
                 (\<lparr>magic = KMSG_MAGIC, module = modid, opcode = opc, payload_len = of_nat n\<rparr>, pl))) \<and>
           decode pl (of_nat n) v = Ok r \<and> agrees v pl r \<and> messages h' = messages h"
proof -
  have u: "unat (of_nat n :: u32) = n" using n by (intro unat_of_nat_small) simp
  obtain pl r where pl: "encode (Some (replicate n 0)) (of_nat n) v = Ok pl" "length pl = n"
      "decode pl (of_nat n) v = Ok r" "agrees v pl r"
    using encoded [OF fit, of "replicate n 0"] by auto
  have le: "\<not> KMSG_MAX_PAYLOAD < of_nat n" "\<not> ucast (- 1 - of_nat km_hdr_sz :: u64) < (of_nat n :: u32)"
    using n u by (simp_all add: word_less_nat_alt KMSG_MAX_PAYLOAD_def PAGE_SIZE_def km_hdr_sz_def)
  have uc: "ucast (of_nat n :: u32) = (of_nat n :: u64)"
    using n u unat_of_nat_small [of n, where 'a = 64]
    by (simp add: word_unat_eq_iff unat_ucast_mod)
  have len: "unat (of_nat km_hdr_sz + of_nat n :: u64) = km_hdr_sz + n"
    using n unat_of_nat_small [of "km_hdr_sz + n", where 'a = 64] by (simp add: km_hdr_sz_def)
  then have pos: "0 < (of_nat km_hdr_sz + of_nat n :: u64)"
      "\<not> (of_nat km_hdr_sz + of_nat n :: u64) < of_nat km_hdr_sz"
    using n by (simp_all add: word_less_nat_alt km_hdr_sz_def)
  let ?h = "h\<lparr>payloads := (payloads h)(k \<mapsto> kmsg_hdr_bytes modid opc (of_nat n) @ pl),
      datas := (datas h)(d \<mapsto> \<lparr>md_ref = ref_init, msg_type = MSG_DATA_TAG_KMSG,
        data_len = of_nat km_hdr_sz + of_nat n, data = Some k, free_data = FREE_DEFAULT\<rparr>)\<rparr>"
  have "kmsg_build measure_fn encode (Some k) (Some d) h modid opc v = Ok (?h, Some d)"
    using measured [OF fit] le pl(1) u uc pos by (simp add: kmsg_build_def create_message_data_def)
  moreover have "kmsg_from_msg ?h (Some m) = Some (Some
      (\<lparr>magic = KMSG_MAGIC, module = modid, opcode = opc, payload_len = of_nat n\<rparr>, pl))"
    if "messages ?h m = Some ms" "m_data ms = Some d" for m ms
  proof -
    have "ucast (of_nat n :: u64) = (of_nat n :: u32)" 
      using n u unat_of_nat_small [of n, where 'a = 64] by (simp add: word_unat_eq_iff unat_ucast_mod)
    with that pos show ?thesis by (simp add: kmsg_from_msg_def kmsg_hdr_of_bytes Let_def)
  qed
  ultimately show ?thesis using pl by (intro exI [of _ ?h] exI [of _ pl] exI [of _ r]) simp
qed

end

section \<open>The serializer is a payload codec\<close>

definition serial_fits :: "string option \<times> va_val list \<Rightarrow> nat \<Rightarrow> bool" where
  "serial_fits v n \<longleftrightarrow> (case v of (Some fmt, vs) \<Rightarrow> (\<exists>b. body_wire fmt vs = Some b \<and> n = 4 + length b \<and> n < 2 ^ 32)
                      | _ \<Rightarrow> False)"

definition serial_decode :: "u8 list \<Rightarrow> u32 \<Rightarrow> string option \<times> va_val list \<Rightarrow> dec_val list res" where
  "serial_decode w len v = ipc_serial_decode (Some w) len (fst v) (replicate (length (snd v)) True)"

definition serial_agrees :: "string option \<times> va_val list \<Rightarrow> u8 list \<Rightarrow> dec_val list \<Rightarrow> bool" where
  "serial_agrees v w ds \<longleftrightarrow> map (received w) ds = map sent (snd v)"

interpretation serial: payload_codec
  "\<lambda>(fmt, ap). ipc_serial_measure_va fmt ap" "\<lambda>buf len (fmt, ap). ipc_serial_encode_into_va buf len fmt ap"
  serial_decode serial_fits serial_agrees
proof (unfold_locales, goal_cases)
  case (1 v n)
  then obtain fmt vs b where v: "v = (Some fmt, vs)" "body_wire fmt vs = Some b" "n = 4 + length b"
    by (auto simp: serial_fits_def split: prod.splits option.splits)
  then show ?case using measure_loop_wire [OF v(2), of 4] by (simp add: ipc_serial_measure_va_def)
next
  case (2 v n buf)
  then obtain fmt vs b where v: "v = (Some fmt, vs)" "body_wire fmt vs = Some b" "n = 4 + length b"
      "4 + length b < 2 ^ 32"
    by (auto simp: serial_fits_def split: prod.splits option.splits)
  with 2(2) serial_codec [OF v(2,4), of buf] show ?case
    by (auto simp: serial_decode_def serial_agrees_def wire_def simp del: of_nat_add)
qed

section \<open>Properties\<close>



text \<open>A kernel message that a receiver accepts has an honest header: the carrier is tagged as a kernel
  message, the magic number is right, and the payload length in the header is the carrier's data
  length less the header, so a payload view of that length stays inside the buffer.\<close>

theorem kmsg_from_msg_sound:
  assumes "kmsg_from_msg h (Some m) = Some (Some (hdr, pl))"
    and "\<forall>d md a b. datas h d = Some md \<longrightarrow> data md = Some a \<longrightarrow> payloads h a = Some b \<longrightarrow>
           unat (data_len md) = length b"
    and "\<forall>a b. payloads h a = Some b \<longrightarrow> length b < 2 ^ 32"
  shows "magic hdr = KMSG_MAGIC \<and> unat (payload_len hdr) = length pl \<and>
         (\<exists>ms d md. messages h m = Some ms \<and> m_data ms = Some d \<and> datas h d = Some md \<and>
                    msg_type md = MSG_DATA_TAG_KMSG)"
proof -
  from assms(1) obtain ms d md a b where r: "messages h m = Some ms" "m_data ms = Some d"
      "datas h d = Some md" "msg_type md = MSG_DATA_TAG_KMSG" "data md = Some a" "payloads h a = Some b"
      "\<not> data_len md < of_nat km_hdr_sz" "hdr = kmsg_hdr_of b" "magic hdr = KMSG_MAGIC"
      "payload_len hdr = ucast (data_len md - of_nat km_hdr_sz)" "pl = drop km_hdr_sz b"
    by (auto simp: kmsg_from_msg_def Let_def split: option.splits if_splits bind_splits)
  have len: "unat (data_len md) = length b" "length b < 2 ^ 32" using assms(2,3) r by blast+
  have "unat (of_nat km_hdr_sz :: u64) = km_hdr_sz" by (simp add: km_hdr_sz_def)
  then have "unat (data_len md - of_nat km_hdr_sz) = length b - km_hdr_sz"
    using r(7) len by (simp add: unat_sub not_less)
  then have "unat (payload_len hdr) = length b - km_hdr_sz"
    using len r(10) by (simp add: unat_ucast_mod)
  with r show ?thesis by auto
qed

theorem kmsg_from_msg_sound_witness:
  "magic (kmsg_hdr_of (kmsg_hdr_bytes 3 4 2 @ [0, 0])) = KMSG_MAGIC \<and>
   unat (payload_len (kmsg_hdr_of (kmsg_hdr_bytes 3 4 2 @ [0, 0]))) = length [0, 0 :: u8]"
proof -
  have "kmsg_from_msg sample_heap (Some 9)
      = Some (Some (kmsg_hdr_of (kmsg_hdr_bytes 3 4 2 @ [0, 0]), [0, 0]))"
    by (simp add: kmsg_from_msg_def sample_heap_def empty_heap_def MSG_DATA_TAG_KMSG_def
        kmsg_hdr_of_bytes Let_def km_hdr_sz_def kmsg_hdr_bytes_def word_less_nat_alt)
       (simp add: kmsg_hdr_of_def le_value_bytes)
  then show ?thesis
    using kmsg_from_msg_sound [of sample_heap 9] by (simp add: sample_heap_def empty_heap_def km_hdr_sz_def)
qed

text \<open>When the second allocation of \<^verbatim>\<open>kmsg_create\<close> fails, \<open>NULL\<close> is returned while the encoded buffer
  stays allocated, with no \<^verbatim>\<open>Msg_Data_t\<close> that owns it: the buffer leaks.\<close>

theorem kmsg_create_leak:
  assumes "body_wire fmt vs = Some b" and "4 + length b \<le> 0x1000"
  shows "\<exists>h' w. kmsg_create (Some k) None h modid opc (Some fmt, vs) = Ok (h', None) \<and>
           datas h' = datas h \<and> payloads h' k = Some w"
proof -
  have fit: "serial_fits (Some fmt, vs) (4 + length b)" using assms by (simp add: serial_fits_def)
  define n where "n = 4 + length b"
  have u: "unat (of_nat n :: u32) = n" using assms(2) unfolding n_def by (intro unat_of_nat_small) simp
  obtain pl where "ipc_serial_encode_into_va (Some (replicate n 0)) (of_nat n) (Some fmt) vs = Ok pl"
    using serial.encoded [OF fit [folded n_def], of "replicate n 0"] by auto
  moreover have "\<not> KMSG_MAX_PAYLOAD < of_nat n" "\<not> ucast (- 1 - of_nat km_hdr_sz :: u64) < (of_nat n :: u32)"
    using assms(2) u by (simp_all add: word_less_nat_alt KMSG_MAX_PAYLOAD_def PAGE_SIZE_def km_hdr_sz_def n_def)
  ultimately show ?thesis using serial.measured [OF fit [folded n_def]] u
    by (simp add: kmsg_create_def kmsg_build_def create_message_data_def Let_def)
qed

theorem kmsg_create_leak_witness:
  "\<exists>h' w. kmsg_create (Some 1) None empty_heap 3 4 (Some ''u'', [VU32 9]) = Ok (h', None) \<and>
     datas h' = datas empty_heap \<and> payloads h' 1 = Some w"
  by (rule kmsg_create_leak [where b = "[117, 4, 0, 0, 0, 9, 0, 0, 0]"])
     (simp_all add: is_fmt_space_def val_wire_def record_wire_def le_bytes_def upt_rec)

end
