(* ===== verification/Name_Index.thy ===== *)
theory Name_Index
  imports Rendezvos_Prelude
begin

text \<open>
  The name registry, \<^verbatim>\<open>kernel/registry/name_index.c\<close>: an array of rows with generations and a free
  list threaded through it, and an open-addressing hash table of row numbers.

  Pointers to registered values are nonzero naturals; the callback \<^verbatim>\<open>get_name\<close> is a parameter
  (\<open>None\<close> where the code has no name), as is \<^verbatim>\<open>hold\<close>. The \<open>i\<close>-th call of \<^verbatim>\<open>m_alloc\<close> succeeds iff
  \<open>mem i\<close>. The other callbacks are recorded in the order they are called. Sizes and counters are
  natural numbers, with the 64-bit wrap-around written out. The lock around \<^verbatim>\<open>lookup\<close>, \<^verbatim>\<open>resolve\<close> and
  \<^verbatim>\<open>fini\<close>, and around the other operations in their callers, makes each operation one step.
\<close>

section \<open>State\<close>

datatype slot = HT_EMPTY | HT_TOMB | HT_ROW nat

datatype callback = OnRegister nat | OnUnregister nat | Drop nat

record name_index_row =
  gen :: nat
  used :: bool
  storage :: nat   \<comment> \<open>the union of \<open>value\<close> and \<open>next_free\<close>\<close>

record name_index =
  rows :: "name_index_row list"
  free_head :: nat
  live :: nat
  ht :: "slot list"
  ht_mask :: nat
  ht_tombs :: nat
  name_len_max :: nat
  has_drop :: bool
  has_on_register :: bool
  has_on_unregister :: bool
  allocs :: nat
  calls :: "callback list"

type_synonym namef = "nat \<Rightarrow> u8 list option"

definition U64 :: nat where "U64 = 2 ^ 64"

definition FREE_HEAD_INVALID :: nat where "FREE_HEAD_INVALID = U64 - 1"

definition ROWS_INITIAL_CAP :: nat where "ROWS_INITIAL_CAP = 32"

definition HT_INITIAL_CAP :: nat where "HT_INITIAL_CAP = 64"

section \<open>Names\<close>

text \<open>\<^verbatim>\<open>strcmp_s\<close> on texts, each followed by a zero byte; only whether the difference is zero is used.\<close>

definition first_byte :: "u8 list \<Rightarrow> int" where
  "first_byte s = (case s of [] \<Rightarrow> 0 | b # _ \<Rightarrow> uint b)"

fun strcmp_s :: "u8 list \<Rightarrow> u8 list \<Rightarrow> nat \<Rightarrow> int" where
  "strcmp_s (x # xs) (y # ys) (Suc n) = (if x \<noteq> 0 \<and> x = y then strcmp_s xs ys n else uint x - uint y)"
| "strcmp_s xs ys n = first_byte xs - first_byte ys"

definition name_index_hash_name :: "nat \<Rightarrow> u8 list option \<Rightarrow> nat" where
  "name_index_hash_name len_max name =
     (case name of
        None \<Rightarrow> 0
      | Some s \<Rightarrow>
          if len_max = 0 then 0
          else unat (foldl (\<lambda>hash b. (hash XOR ucast b) * 16777619) (2166136261 :: u32)
                      (take len_max (c_text s))))"

section \<open>The hash table\<close>

definition bucket :: "nat \<Rightarrow> nat \<Rightarrow> nat \<Rightarrow> nat" where
  "bucket msk h probe = (h + probe) AND msk"

definition free_slot :: "slot \<Rightarrow> bool" where
  "free_slot s \<longleftrightarrow> s = HT_EMPTY \<or> s = HT_TOMB"

text \<open>The probe loop that looks for a bucket to fill.\<close>

definition probe_free :: "slot list \<Rightarrow> nat \<Rightarrow> nat \<Rightarrow> nat option" where
  "probe_free tab msk h =
     map_option (bucket msk h) (find (\<lambda>probe. free_slot (tab ! bucket msk h probe)) [0..<length tab])"

definition row_live :: "name_index_row \<Rightarrow> bool" where
  "row_live r \<longleftrightarrow> used r \<and> storage r \<noteq> 0"

fun rehash_rows :: "namef \<Rightarrow> name_index \<Rightarrow> nat list \<Rightarrow> slot list \<Rightarrow> nat \<Rightarrow> slot list option" where
  "rehash_rows gn idx [] new_ht msk = Some new_ht"
| "rehash_rows gn idx (i # is) new_ht msk =
     (if \<not> row_live (rows idx ! i) then rehash_rows gn idx is new_ht msk
      else case probe_free new_ht msk (name_index_hash_name (name_len_max idx) (gn (storage (rows idx ! i)))) of
          None \<Rightarrow> None
        | Some b \<Rightarrow> rehash_rows gn idx is (new_ht[b := HT_ROW i]) msk)"

definition name_index_ht_rehash :: "namef \<Rightarrow> (nat \<Rightarrow> bool) \<Rightarrow> name_index \<Rightarrow> nat \<Rightarrow> name_index \<times> error_t" where
  "name_index_ht_rehash gn mem idx new_ht_cap =
     (if new_ht_cap > (U64 - 1) div 8 then (idx, E_RENDEZVOS)
      else
        let ok = mem (allocs idx); idx = idx\<lparr>allocs := Suc (allocs idx)\<rparr>; msk = new_ht_cap - 1 in
        if \<not> ok then (idx, E_RENDEZVOS)
        else case rehash_rows gn idx [0..<length (rows idx)] (replicate new_ht_cap HT_EMPTY) msk of
            None \<Rightarrow> (idx, E_RENDEZVOS)
          | Some new_ht \<Rightarrow> (idx\<lparr>ht := new_ht, ht_mask := msk, ht_tombs := 0\<rparr>, REND_SUCCESS))"

definition free_row :: "nat \<Rightarrow> name_index_row" where
  "free_row next_free = \<lparr>gen = 0, used = False, storage = next_free\<rparr>"

definition new_rows :: "nat \<Rightarrow> nat \<Rightarrow> nat \<Rightarrow> name_index_row list" where
  "new_rows oc nc tail = map (\<lambda>i. free_row (if i + 1 < nc then i + 1 else tail)) [oc..<nc]"

definition name_index_grow_row_array :: "(nat \<Rightarrow> bool) \<Rightarrow> name_index \<Rightarrow> name_index \<times> error_t" where
  "name_index_grow_row_array mem idx =
     (let old_cap = length (rows idx);
          new_cap = (if old_cap \<noteq> 0 then (old_cap * 2) mod U64 else ROWS_INITIAL_CAP) in
      if old_cap \<noteq> 0 \<and> new_cap < old_cap then (idx, E_RENDEZVOS)
      else if new_cap > (U64 - 1) div 24 then (idx, E_RENDEZVOS)
      else
        let ok = mem (allocs idx); idx = idx\<lparr>allocs := Suc (allocs idx)\<rparr> in
        if \<not> ok then (idx, E_RENDEZVOS)
        else
          let tail = (if old_cap = 0 then FREE_HEAD_INVALID else free_head idx) in
          (idx\<lparr>rows := rows idx @ new_rows old_cap new_cap tail, free_head := old_cap\<rparr>, REND_SUCCESS))"

definition name_index_bootstrap :: "namef \<Rightarrow> (nat \<Rightarrow> bool) \<Rightarrow> name_index \<Rightarrow> name_index \<times> error_t" where
  "name_index_bootstrap gn mem idx =
     (if rows idx \<noteq> [] then (idx, REND_SUCCESS)
      else let (idx, e) = name_index_grow_row_array mem idx in
           if e \<noteq> REND_SUCCESS then (idx, e) else name_index_ht_rehash gn mem idx HT_INITIAL_CAP)"

definition name_index_maybe_grow_ht :: "namef \<Rightarrow> (nat \<Rightarrow> bool) \<Rightarrow> name_index \<Rightarrow> name_index \<times> error_t" where
  "name_index_maybe_grow_ht gn mem idx =
     (let cap = length (ht idx) in
      if cap = 0 then name_index_ht_rehash gn mem idx HT_INITIAL_CAP
      else if live idx = 0 then (idx, REND_SUCCESS)
      else if (live idx * 100) mod U64 \<le> (cap * 70) mod U64 then (idx, REND_SUCCESS)
      else let nc = (cap * 2) mod U64 in
           if nc < cap then (idx, E_RENDEZVOS) else name_index_ht_rehash gn mem idx nc)"

definition name_index_maybe_shrink_ht :: "namef \<Rightarrow> (nat \<Rightarrow> bool) \<Rightarrow> name_index \<Rightarrow> name_index" where
  "name_index_maybe_shrink_ht gn mem idx =
     (let cap = length (ht idx) in
      if cap \<le> HT_INITIAL_CAP then idx
      else if ht_tombs idx = 0 then idx
      else if live idx \<noteq> 0 \<and> (live idx * 100) mod U64 > (cap * 25) mod U64 then idx
      else
        let target_cap = (if live idx = 0 then HT_INITIAL_CAP else max (cap div 2) HT_INITIAL_CAP) in
        if (ht_tombs idx * 100) mod U64 < (cap * 10) mod U64 then idx
        else if target_cap = cap then idx
        else fst (name_index_ht_rehash gn mem idx target_cap))"

lemma rehash_rows_length: "rehash_rows gn idx is tab msk = Some tab' \<Longrightarrow> length tab' = length tab"
  by (induction "is" arbitrary: tab) (auto split: if_splits option.splits)

lemma rehash_cap:
  "name_index_ht_rehash gn mem idx cap = (idx', REND_SUCCESS) \<Longrightarrow> length (ht idx') = cap \<and> cap \<le> (U64 - 1) div 8"
  by (auto simp: name_index_ht_rehash_def Let_def dest: rehash_rows_length split: if_splits option.splits)

lemma maybe_grow_cap:
  assumes "name_index_maybe_grow_ht gn mem idx = (idx', REND_SUCCESS)"
  shows "length (ht idx) \<le> length (ht idx')" "0 < length (ht idx')"
  using assms by (auto simp: name_index_maybe_grow_ht_def Let_def HT_INITIAL_CAP_def dest: rehash_cap split: if_splits)

text \<open>
  The insertion restarts on a doubled table when it finds no free bucket; it ends because a table
  of more than \<open>SIZE_MAX / 8\<close> buckets is refused.
\<close>

function (sequential) name_index_ht_insert ::
    "namef \<Rightarrow> (nat \<Rightarrow> bool) \<Rightarrow> name_index \<Rightarrow> nat \<Rightarrow> u8 list option \<Rightarrow> name_index \<times> error_t" where
  "name_index_ht_insert gn mem idx row_idx name =
     (let (idx1, e) = name_index_maybe_grow_ht gn mem idx in
      if e \<noteq> REND_SUCCESS then (idx1, e)
      else
        case probe_free (ht idx1) (ht_mask idx1) (name_index_hash_name (name_len_max idx1) name) of
          Some b \<Rightarrow>
            (idx1\<lparr>ht_tombs := (if ht idx1 ! b = HT_TOMB \<and> ht_tombs idx1 > 0 then ht_tombs idx1 - 1 else ht_tombs idx1),
                  ht := (ht idx1)[b := HT_ROW row_idx]\<rparr>, REND_SUCCESS)
        | None \<Rightarrow>
            let (idx2, e) = name_index_ht_rehash gn mem idx1 ((length (ht idx1) * 2) mod U64) in
            if e \<noteq> REND_SUCCESS then (idx2, e)
            else name_index_ht_insert gn mem idx2 row_idx name)"
  by pat_completeness auto

definition insert_measure :: "name_index \<Rightarrow> nat" where
  "insert_measure idx =
     (let lim = (U64 - 1) div 8 in if length (ht idx) \<le> lim then lim - length (ht idx) else lim + 1)"

lemma insert_measure_decreases:
  assumes g: "name_index_maybe_grow_ht gn mem idx = (idx1, REND_SUCCESS)"
    and r: "name_index_ht_rehash gn mem idx1 ((length (ht idx1) * 2) mod U64) = (idx2, REND_SUCCESS)"
  shows "insert_measure idx2 < insert_measure idx"
proof -
  define lim where "lim = (U64 - 1) div 8"
  let ?c = "length (ht idx)" and ?c1 = "length (ht idx1)" and ?c2 = "length (ht idx2)"
  have c1: "?c \<le> ?c1" "0 < ?c1" using maybe_grow_cap [OF g] by auto
  have c2: "?c2 = (?c1 * 2) mod U64" "?c2 \<le> lim" using rehash_cap [OF r] by (auto simp: lim_def)
  have m: "insert_measure i = (if length (ht i) \<le> lim then lim - length (ht i) else lim + 1)" for i
    by (simp add: insert_measure_def lim_def Let_def)
  show ?thesis
  proof (cases "?c1 \<le> lim")
    case True
    then have "?c1 * 2 < U64" by (simp add: lim_def U64_def)
    then have "?c2 = ?c1 * 2" using c2 by simp
    moreover have "0 < ?c1" "?c1 * 2 \<le> lim" using c1 c2 \<open>?c2 = ?c1 * 2\<close> by simp_all
    ultimately have "?c2 \<le> lim" "?c \<le> lim" "lim - ?c2 < lim - ?c" using c1 by linarith+
    then show ?thesis by (simp add: m)
  next
    case False
    then have "?c1 = ?c" using g
      by (auto simp: name_index_maybe_grow_ht_def Let_def lim_def dest: rehash_cap split: if_splits)
    with False c2 show ?thesis by (simp add: m)
  qed
qed

termination name_index_ht_insert
  by (relation "measure (\<lambda>(gn, mem, idx, row_idx, name). insert_measure idx)")
     (auto intro: insert_measure_decreases [OF sym sym])

declare name_index_ht_insert.simps [simp del]

text \<open>The probe loop of \<^verbatim>\<open>name_index_ht_remove\<close>, over the probes that are left.\<close>

fun remove_loop :: "slot list \<Rightarrow> nat \<Rightarrow> nat \<Rightarrow> nat \<Rightarrow> nat list \<Rightarrow> nat option" where
  "remove_loop tab msk h row_idx [] = None"
| "remove_loop tab msk h row_idx (probe # ps) =
     (case tab ! bucket msk h probe of
        HT_EMPTY \<Rightarrow> None
      | HT_TOMB \<Rightarrow> remove_loop tab msk h row_idx ps
      | HT_ROW r \<Rightarrow> if r \<noteq> row_idx then remove_loop tab msk h row_idx ps else Some (bucket msk h probe))"

definition name_index_ht_remove :: "name_index \<Rightarrow> nat \<Rightarrow> u8 list option \<Rightarrow> name_index" where
  "name_index_ht_remove idx row_idx name =
     (case remove_loop (ht idx) (ht_mask idx) (name_index_hash_name (name_len_max idx) name) row_idx [0..<length (ht idx)] of
        None \<Rightarrow> idx
      | Some b \<Rightarrow> idx\<lparr>ht := (ht idx)[b := HT_TOMB], ht_tombs := (ht_tombs idx + 1) mod U64\<rparr>)"

fun find_loop :: "namef \<Rightarrow> name_index \<Rightarrow> u8 list \<Rightarrow> nat \<Rightarrow> nat list \<Rightarrow> (nat \<times> nat) option" where
  "find_loop gn idx name h [] = None"
| "find_loop gn idx name h (probe # ps) =
     (let b = bucket (ht_mask idx) h probe in
      case ht idx ! b of
        HT_EMPTY \<Rightarrow> None
      | HT_TOMB \<Rightarrow> find_loop gn idx name h ps
      | HT_ROW r \<Rightarrow>
          if r \<ge> length (rows idx) then find_loop gn idx name h ps
          else if \<not> row_live (rows idx ! r) then find_loop gn idx name h ps
          else case gn (storage (rows idx ! r)) of
              None \<Rightarrow> find_loop gn idx name h ps
            | Some row_name \<Rightarrow>
                if strcmp_s row_name name (name_len_max idx) = 0 then Some (b, r)
                else find_loop gn idx name h ps)"

text \<open>The bucket and the row, \<open>None\<close> for the result \<open>-1\<close>.\<close>

definition name_index_ht_find_bucket :: "namef \<Rightarrow> name_index \<Rightarrow> u8 list option \<Rightarrow> (nat \<times> nat) option" where
  "name_index_ht_find_bucket gn idx name =
     (case name of
        None \<Rightarrow> None
      | Some n \<Rightarrow>
          if ht idx = [] then None
          else find_loop gn idx n (name_index_hash_name (name_len_max idx) name) [0..<length (ht idx)])"

section \<open>The registry\<close>

definition name_index_init ::
    "namef \<Rightarrow> (nat \<Rightarrow> bool) \<Rightarrow> nat \<Rightarrow> bool \<Rightarrow> bool \<Rightarrow> bool \<Rightarrow> name_index" where
  "name_index_init gn mem len_max dropf on_reg on_unreg =
     fst (name_index_bootstrap gn mem
       \<lparr>rows = [], free_head = FREE_HEAD_INVALID, live = 0, ht = [], ht_mask = 0, ht_tombs = 0,
        name_len_max = len_max, has_drop = dropf, has_on_register = on_reg, has_on_unregister = on_unreg,
        allocs = 0, calls = []\<rparr>)"

definition name_index_search :: "namef \<Rightarrow> name_index \<Rightarrow> u8 list option \<Rightarrow> (nat \<times> nat) option" where
  "name_index_search gn idx name =
     (case name_index_ht_find_bucket gn idx name of
        None \<Rightarrow> None
      | Some (b, row_idx) \<Rightarrow> Some (storage (rows idx ! row_idx), row_idx))"

definition call :: "bool \<Rightarrow> callback \<Rightarrow> name_index \<Rightarrow> name_index" where
  "call present c idx = (if present then idx\<lparr>calls := calls idx @ [c]\<rparr> else idx)"

text \<open>The part of \<^verbatim>\<open>name_index_register\<close> that runs once there is a free row.\<close>

definition register_row :: "namef \<Rightarrow> (nat \<Rightarrow> bool) \<Rightarrow> name_index \<Rightarrow> nat \<Rightarrow> name_index \<times> error_t \<times> nat option" where
  "register_row gn mem idx v =
     (let r = free_head idx in
      if r \<ge> length (rows idx) then (idx, E_RENDEZVOS, None)
      else if used (rows idx ! r) then (idx, E_RENDEZVOS, None)
      else
        let nxt = storage (rows idx ! r);
            idx = idx\<lparr>free_head := nxt,
                      rows := (rows idx)[r := (rows idx ! r)\<lparr>storage := v, used := True\<rparr>],
                      live := (live idx + 1) mod U64\<rparr>;
            (idx, e) = name_index_ht_insert gn mem idx r (gn v) in
        if e \<noteq> REND_SUCCESS then
          (idx\<lparr>rows := (rows idx)[r := (rows idx ! r)\<lparr>used := False, storage := free_head idx\<rparr>],
               free_head := r,
               live := (if live idx \<noteq> 0 then live idx - 1 else 0)\<rparr>, e, None)
        else (call (has_on_register idx) (OnRegister v) idx, REND_SUCCESS, Some r))"

definition name_index_register ::
    "namef \<Rightarrow> (nat \<Rightarrow> bool) \<Rightarrow> name_index \<Rightarrow> nat \<Rightarrow> name_index \<times> error_t \<times> nat option" where
  "name_index_register gn mem idx v =
     (if v = 0 \<or> (case gn v of None \<Rightarrow> True | Some n \<Rightarrow> c_text n = []) then (idx, E_IN_PARAM, None)
      else let (idx, e) = name_index_bootstrap gn mem idx in
        if e \<noteq> REND_SUCCESS then (idx, e, None)
        else let (idx, e) = (if free_head idx = FREE_HEAD_INVALID then name_index_grow_row_array mem idx
                             else (idx, REND_SUCCESS)) in
          if e \<noteq> REND_SUCCESS then (idx, e, None) else register_row gn mem idx v)"

text \<open>The common tail of \<^verbatim>\<open>name_index_register_abort\<close> and \<^verbatim>\<open>name_index_unregister\<close>.\<close>

definition release_row :: "namef \<Rightarrow> (nat \<Rightarrow> bool) \<Rightarrow> name_index \<Rightarrow> nat \<Rightarrow> nat \<Rightarrow> name_index" where
  "release_row gn mem idx r v =
     (let idx = call (has_on_unregister idx) (OnUnregister v) idx;
          idx = idx\<lparr>rows := (rows idx)[r := (rows idx ! r)\<lparr>used := False, gen := (gen (rows idx ! r) + 1) mod U64,
                                           storage := free_head idx\<rparr>],
                    free_head := r,
                    live := (if live idx \<noteq> 0 then live idx - 1 else 0)\<rparr> in
      name_index_maybe_shrink_ht gn mem idx)"

definition name_index_unregister ::
    "namef \<Rightarrow> (nat \<Rightarrow> bool) \<Rightarrow> name_index \<Rightarrow> nat \<Rightarrow> nat \<Rightarrow> u8 list option \<Rightarrow> name_index" where
  "name_index_unregister gn mem idx v r name =
     (if r \<ge> length (rows idx) then idx
      else if \<not> used (rows idx ! r) \<or> storage (rows idx ! r) \<noteq> v then idx
      else
        let idx = (if name \<noteq> None then name_index_ht_remove idx r name else idx) in
        release_row gn mem idx r v)"

definition name_index_register_abort :: "namef \<Rightarrow> (nat \<Rightarrow> bool) \<Rightarrow> name_index \<Rightarrow> nat \<Rightarrow> nat \<Rightarrow> name_index" where
  "name_index_register_abort gn mem idx r v =
     (if r \<ge> length (rows idx) then idx
      else if \<not> used (rows idx ! r) \<or> storage (rows idx ! r) \<noteq> v then idx
      else
        let idx = (case gn v of None \<Rightarrow> idx | Some n \<Rightarrow> name_index_ht_remove idx r (Some n)) in
        release_row gn mem idx r v)"

record name_index_token =
  row_index :: nat
  row_gen :: nat

definition name_index_lookup ::
    "namef \<Rightarrow> (nat \<Rightarrow> bool) \<Rightarrow> name_index \<Rightarrow> u8 list option \<Rightarrow> nat option \<times> name_index_token option" where
  "name_index_lookup gn hold idx name =
     (case name_index_search gn idx name of
        None \<Rightarrow> (None, None)
      | Some (v, r) \<Rightarrow>
          if v = 0 \<or> \<not> used (rows idx ! r) then (None, None)
          else
            let tok = \<lparr>row_index = r mod 2 ^ 32, row_gen = gen (rows idx ! r) mod 2 ^ 16\<rparr> in
            (if hold v then Some v else None, Some tok))"

definition name_index_resolve ::
    "namef \<Rightarrow> (nat \<Rightarrow> bool) \<Rightarrow> name_index \<Rightarrow> name_index_token option \<Rightarrow> u8 list option \<Rightarrow> nat option" where
  "name_index_resolve gn hold idx tok name =
     (case (tok, name) of
        (Some tok, Some name) \<Rightarrow>
          if row_index tok = 2 ^ 32 - 1 then None
          else if row_index tok \<ge> length (rows idx) then None
          else
            let r = rows idx ! row_index tok in
            if \<not> row_live r then None
            else if gen r mod 2 ^ 16 \<noteq> row_gen tok then None
            else (case gn (storage r) of
                None \<Rightarrow> None
              | Some row_name \<Rightarrow>
                  if strcmp_s row_name name (name_len_max idx) \<noteq> 0 then None
                  else if hold (storage r) then Some (storage r) else None)
      | _ \<Rightarrow> None)"

text \<open>\<^verbatim>\<open>name_index_fini\<close> and \<^verbatim>\<open>name_index_free_arrays\<close>.\<close>

definition fini_row :: "name_index \<Rightarrow> nat \<Rightarrow> name_index" where
  "fini_row idx i =
     (let r = rows idx ! i in
      if \<not> row_live r then idx
      else
        let v = storage r;
            idx = call (has_on_unregister idx) (OnUnregister v) idx;
            idx = idx\<lparr>rows := (rows idx)[i := r\<lparr>used := False, gen := (gen r + 1) mod U64, storage := free_head idx\<rparr>],
                      free_head := i,
                      live := (if live idx \<noteq> 0 then live idx - 1 else 0)\<rparr> in
        call True (Drop v) idx)"

definition name_index_free_arrays :: "name_index \<Rightarrow> name_index" where
  "name_index_free_arrays idx =
     idx\<lparr>rows := [], ht := [], ht_mask := 0, ht_tombs := 0, free_head := FREE_HEAD_INVALID, live := 0\<rparr>"

definition name_index_fini :: "name_index \<Rightarrow> name_index" where
  "name_index_fini idx =
     name_index_free_arrays (if has_drop idx then foldl fini_row idx [0..<length (rows idx)] else idx)"

section \<open>Names and buckets\<close>

lemma strcmp_s_eq:
  assumes "0 \<notin> set xs" "0 \<notin> set ys" "length xs \<le> n"
  shows "strcmp_s xs ys n = 0 \<longleftrightarrow> xs = ys"
  using assms
proof (induction xs ys n rule: strcmp_s.induct)
  case (1 x xs y ys n)
  then show ?case using word_uint_eq_iff [of x y] by auto
qed (auto simp: first_byte_def uint_0_iff split: list.splits)

lemma bucket_mod: "bucket (2 ^ k - 1) h p = (h + p) mod 2 ^ k"
  unfolding bucket_def mask_eq_exp_minus_1 [symmetric] take_bit_eq_mask [symmetric] take_bit_eq_mod ..

definition reach :: "slot list \<Rightarrow> nat \<Rightarrow> nat \<Rightarrow> nat \<Rightarrow> bool" where
  "reach tab msk h r \<longleftrightarrow>
     (\<exists>p<length tab. tab ! bucket msk h p = HT_ROW r \<and> (\<forall>q<p. tab ! bucket msk h q \<noteq> HT_EMPTY))"

definition in_range :: "slot list \<Rightarrow> nat \<Rightarrow> bool" where
  "in_range tab msk \<longleftrightarrow> (\<forall>h p. bucket msk h p < length tab)"

lemma in_range_pow2: "length tab = 2 ^ k \<Longrightarrow> in_range tab (2 ^ k - 1)"
  by (simp add: in_range_def bucket_mod del: One_nat_def)

lemma in_range_update [simp]: "in_range (tab[b := s]) msk = in_range tab msk"
  by (simp add: in_range_def)

lemma reach_update:
  assumes "reach tab msk h r" and "tab ! b \<noteq> HT_ROW r" and "s \<noteq> HT_EMPTY"
  shows "reach (tab[b := s]) msk h r"
proof -
  have nth: "(tab[b := s]) ! i = (if i = b \<and> b < length tab then s else tab ! i)" for i
    by (cases "b < length tab") (auto simp: nth_list_update list_update_beyond)
  show ?thesis using assms unfolding reach_def nth length_list_update by metis
qed

lemma probe_free_SomeD:
  assumes "probe_free tab msk h = Some b"
  shows "\<exists>p<length tab. b = bucket msk h p \<and> free_slot (tab ! b) \<and> (\<forall>q<p. \<not> free_slot (tab ! bucket msk h q))"
proof -
  obtain p where p: "b = bucket msk h p" "find (\<lambda>p. free_slot (tab ! bucket msk h p)) [0..<length tab] = Some p"
    using assms by (auto simp: probe_free_def)
  then obtain i where i: "i < length [0..<length tab]" "free_slot (tab ! bucket msk h ([0..<length tab] ! i))"
      "p = [0..<length tab] ! i" "\<forall>j<i. \<not> free_slot (tab ! bucket msk h ([0..<length tab] ! j))"
    unfolding find_Some_iff by blast
  then have "i < length tab" "p = i" by simp_all
  moreover from i(4) have "\<forall>q<i. \<not> free_slot (tab ! bucket msk h q)" using \<open>i < length tab\<close> by auto
  ultimately show ?thesis using p(1) i(2,3) by auto
qed

lemma reach_insert:
  assumes "probe_free tab msk h = Some b" and "in_range tab msk"
  shows "reach (tab[b := HT_ROW r]) msk h r"
proof -
  obtain p where p: "p < length tab" "b = bucket msk h p" "\<forall>q<p. \<not> free_slot (tab ! bucket msk h q)"
    using probe_free_SomeD [OF assms(1)] by blast
  have "b < length tab" using assms(2) p(2) by (simp add: in_range_def)
  with p show ?thesis
    by (auto simp: reach_def free_slot_def nth_list_update intro!: exI [of _ p])
qed

lemma reach_keep:
  assumes "probe_free tab msk h = Some b" and "reach tab msk h' r"
  shows "reach (tab[b := HT_ROW i]) msk h' r"
proof -
  have "free_slot (tab ! b)" using probe_free_SomeD [OF assms(1)] by blast
  then show ?thesis using assms(2) by (intro reach_update) (auto simp: free_slot_def)
qed

section \<open>Rehashing\<close>

definition row_hash :: "namef \<Rightarrow> name_index \<Rightarrow> nat \<Rightarrow> nat" where
  "row_hash gn idx i = name_index_hash_name (name_len_max idx) (gn (storage (rows idx ! i)))"

lemma rehash_rows_reach:
  assumes "rehash_rows gn idx is tab msk = Some tab'" and "in_range tab msk"
  shows "(reach tab msk h r \<longrightarrow> reach tab' msk h r) \<and>
         (\<forall>i\<in>set is. row_live (rows idx ! i) \<longrightarrow> reach tab' msk (row_hash gn idx i) i)"
  using assms
proof (induction "is" arbitrary: tab h r)
  case (Cons i "is")
  show ?case
  proof (cases "row_live (rows idx ! i)")
    case False
    with Cons show ?thesis by simp
  next
    case True
    with Cons.prems obtain b where b: "probe_free tab msk (row_hash gn idx i) = Some b"
        "rehash_rows gn idx is (tab[b := HT_ROW i]) msk = Some tab'"
      by (auto simp: row_hash_def split: option.splits)
    have ih: "(reach (tab[b := HT_ROW i]) msk h r \<longrightarrow> reach tab' msk h r) \<and>
         (\<forall>i\<in>set is. row_live (rows idx ! i) \<longrightarrow> reach tab' msk (row_hash gn idx i) i)" for h r
      using Cons.IH [OF b(2)] Cons.prems(2) by simp
    show ?thesis using ih reach_keep [OF b(1)] reach_insert [OF b(1) Cons.prems(2)] by simp
  qed
qed simp

text \<open>The table leads to every live row outside \<open>X\<close>.\<close>

definition table_ok :: "namef \<Rightarrow> nat set \<Rightarrow> name_index \<Rightarrow> bool" where
  "table_ok gn X idx \<longleftrightarrow>
     length (ht idx) \<le> (U64 - 1) div 8 \<and> (ht idx = [] \<or> (\<exists>k. length (ht idx) = 2 ^ k \<and> ht_mask idx = 2 ^ k - 1)) \<and>
     (\<forall>i<length (rows idx). i \<notin> X \<longrightarrow> row_live (rows idx ! i) \<longrightarrow>
        reach (ht idx) (ht_mask idx) (row_hash gn idx i) i)"

text \<open>What every operation on the table leaves alone.\<close>

definition same_rows :: "name_index \<Rightarrow> name_index \<Rightarrow> bool" where
  "same_rows idx idx' \<longleftrightarrow> rows idx' = rows idx \<and> free_head idx' = free_head idx \<and> live idx' = live idx \<and>
     name_len_max idx' = name_len_max idx \<and> calls idx' = calls idx \<and> has_drop idx' = has_drop idx \<and>
     has_on_register idx' = has_on_register idx \<and> has_on_unregister idx' = has_on_unregister idx"

lemma same_rows_refl [simp]: "same_rows idx idx"
  by (simp add: same_rows_def)

lemma same_rows_trans [trans]: "same_rows a b \<Longrightarrow> same_rows b c \<Longrightarrow> same_rows a c"
  by (simp add: same_rows_def)

lemma same_rows_hash: "same_rows idx idx' \<Longrightarrow> row_hash gn idx' i = row_hash gn idx i"
  by (simp add: same_rows_def row_hash_def)

lemma rehash_spec:
  assumes "name_index_ht_rehash gn mem idx (2 ^ k) = (idx', e)"
  shows "same_rows idx idx'" and "e = REND_SUCCESS \<Longrightarrow> table_ok gn {} idx'"
    and "e \<noteq> REND_SUCCESS \<Longrightarrow> ht idx' = ht idx \<and> ht_mask idx' = ht_mask idx"
proof -
  show "same_rows idx idx'" and "e \<noteq> REND_SUCCESS \<Longrightarrow> ht idx' = ht idx \<and> ht_mask idx' = ht_mask idx"
    using assms by (auto simp: name_index_ht_rehash_def Let_def same_rows_def split: if_splits option.splits)
  assume e: "e = REND_SUCCESS"
  define idx0 where "idx0 = idx\<lparr>allocs := Suc (allocs idx)\<rparr>"
  obtain tab where tab: "rehash_rows gn idx0 [0..<length (rows idx0)] (replicate (2 ^ k) HT_EMPTY) (2 ^ k - 1) = Some tab"
      "idx' = idx0\<lparr>ht := tab, ht_mask := 2 ^ k - 1, ht_tombs := 0\<rparr>"
    using assms e by (auto simp: name_index_ht_rehash_def Let_def idx0_def split: if_splits option.splits)
  have "length tab = 2 ^ k" using rehash_rows_length [OF tab(1)] by simp
  moreover have "in_range (replicate (2 ^ k) HT_EMPTY) (2 ^ k - 1)" by (rule in_range_pow2) simp
  note rehash_rows_reach [OF tab(1) this]
  moreover have "2 ^ k \<le> (U64 - 1) div 8" using assms e by (metis rehash_cap)
  ultimately show "table_ok gn {} idx'"
    using tab(2) by (auto simp: table_ok_def row_hash_def simp del: One_nat_def)
qed

lemma table_ok_mono: "table_ok gn X idx \<Longrightarrow> X \<subseteq> Y \<Longrightarrow> table_ok gn Y idx"
  by (auto simp: table_ok_def)

lemma table_ok_same:
  "table_ok gn X idx \<Longrightarrow> same_rows idx idx' \<Longrightarrow> ht idx' = ht idx \<Longrightarrow> ht_mask idx' = ht_mask idx \<Longrightarrow> table_ok gn X idx'"
  by (simp add: table_ok_def same_rows_def row_hash_def)

lemma rehash_table_ok:
  assumes "name_index_ht_rehash gn mem idx (2 ^ k) = (idx', e)" and "table_ok gn X idx"
  shows "table_ok gn X idx'" and "e = REND_SUCCESS \<Longrightarrow> table_ok gn {} idx'" and "same_rows idx idx'"
  using rehash_spec [OF assms(1)] assms(2) by (cases "e = REND_SUCCESS"; blast intro: table_ok_mono table_ok_same)+

lemma table_cases:
  assumes "table_ok gn X idx"
  obtains "ht idx = []" | k where "length (ht idx) = 2 ^ k" "ht_mask idx = 2 ^ k - 1" "in_range (ht idx) (ht_mask idx)"
  using assms in_range_pow2 unfolding table_ok_def by metis

lemma double_cap:
  "table_ok gn X idx \<Longrightarrow> length (ht idx) = 2 ^ k \<Longrightarrow> (length (ht idx) * 2) mod U64 = 2 ^ Suc k"
  by (simp add: table_ok_def U64_def)

lemma maybe_grow_spec:
  assumes "name_index_maybe_grow_ht gn mem idx = (idx', e)" and ok: "table_ok gn X idx"
  shows "table_ok gn X idx'" and "same_rows idx idx'" and "e = REND_SUCCESS \<Longrightarrow> ht idx' \<noteq> []"
proof -
  have "table_ok gn X idx' \<and> same_rows idx idx' \<and> (e = REND_SUCCESS \<longrightarrow> ht idx' \<noteq> [])"
  proof (cases "ht idx = []")
    case True
    then have r: "name_index_ht_rehash gn mem idx (2 ^ 6) = (idx', e)"
      using assms(1) by (simp add: name_index_maybe_grow_ht_def HT_INITIAL_CAP_def)
    have "e = REND_SUCCESS \<Longrightarrow> length (ht idx') = 2 ^ 6" using rehash_cap [of gn mem idx "2 ^ 6" idx'] r by simp
    with rehash_table_ok [OF r ok] show ?thesis by auto
  next
    case False
    then obtain k where k: "length (ht idx) = 2 ^ k" using ok by (auto simp: table_ok_def)
    show ?thesis
    proof (cases "name_index_ht_rehash gn mem idx (2 ^ Suc k) = (idx', e)")
      case True
      then have r: "name_index_ht_rehash gn mem idx (2 ^ Suc k) = (idx', e)" by simp
      have "e = REND_SUCCESS \<Longrightarrow> length (ht idx') = 2 ^ Suc k" using rehash_cap [of gn mem idx "2 ^ Suc k" idx'] r by simp
      with rehash_table_ok [OF r ok] show ?thesis by auto
    next
      case f: False
      with assms(1) double_cap [OF ok k] k False have "idx' = idx \<and> e = REND_SUCCESS"
        by (auto simp: name_index_maybe_grow_ht_def Let_def split: if_splits)
      with ok False show ?thesis by simp
    qed
  qed
  then show "table_ok gn X idx'" and "same_rows idx idx'" and "e = REND_SUCCESS \<Longrightarrow> ht idx' \<noteq> []" by blast+
qed

lemma table_ok_insert:
  assumes ok: "table_ok gn {r} idx" and b: "probe_free (ht idx) (ht_mask idx) (row_hash gn idx r) = Some b"
    and ne: "ht idx \<noteq> []"
  shows "table_ok gn {} (idx\<lparr>ht_tombs := t, ht := (ht idx)[b := HT_ROW r]\<rparr>)"
proof -
  from ok ne obtain k where k: "length (ht idx) = 2 ^ k" "ht_mask idx = 2 ^ k - 1" "in_range (ht idx) (ht_mask idx)"
    by (metis table_cases)
  show ?thesis
    using ok k reach_keep [OF b] reach_insert [OF b k(3), of r]
    unfolding table_ok_def row_hash_def by auto
qed

lemma ht_insert_spec:
  assumes "name_index_ht_insert gn mem idx r name = (idx', e)"
    and "table_ok gn {r} idx" and "name = gn (storage (rows idx ! r))"
  shows "same_rows idx idx' \<and> table_ok gn {r} idx' \<and> (e = REND_SUCCESS \<longrightarrow> table_ok gn {} idx')"
  using assms
proof (induction gn mem idx r name arbitrary: idx' e rule: name_index_ht_insert.induct)
  case (1 gn mem idx r name)
  obtain idx1 e1 where g: "name_index_maybe_grow_ht gn mem idx = (idx1, e1)" by fastforce
  note g1 = maybe_grow_spec [OF g 1(3)]
  show ?case
  proof (cases "e1 = REND_SUCCESS")
    case False
    with 1(2) g g1 show ?thesis by (simp add: name_index_ht_insert.simps [of gn mem idx])
  next
    case e1: True
    have h: "name_index_hash_name (name_len_max idx1) name = row_hash gn idx1 r"
      using g1(2) 1(4) by (simp add: row_hash_def same_rows_def)
    show ?thesis
    proof (cases "probe_free (ht idx1) (ht_mask idx1) (row_hash gn idx1 r)")
      case (Some b)
      have eq: "idx' = idx1\<lparr>ht_tombs := (if ht idx1 ! b = HT_TOMB \<and> ht_tombs idx1 > 0 then ht_tombs idx1 - 1 else ht_tombs idx1),
            ht := (ht idx1)[b := HT_ROW r]\<rparr>" "e = REND_SUCCESS"
        using 1(2) g e1 Some h by (simp_all add: name_index_ht_insert.simps [of gn mem idx])
      have "table_ok gn {} idx'" unfolding eq(1) by (rule table_ok_insert [OF g1(1) Some g1(3) [OF e1]])
      moreover have "same_rows idx1 idx'" unfolding eq(1) by (simp add: same_rows_def)
      ultimately show ?thesis using g1(2) by (meson empty_subsetI same_rows_trans table_ok_mono)
    next
      case None
      obtain idx2 e2 where r: "name_index_ht_rehash gn mem idx1 ((length (ht idx1) * 2) mod U64) = (idx2, e2)" by fastforce
      obtain k where k: "length (ht idx1) = 2 ^ k" using g1(1,3) e1 by (auto simp: table_ok_def)
      with r double_cap [OF g1(1) k] have "name_index_ht_rehash gn mem idx1 (2 ^ Suc k) = (idx2, e2)" by simp
      note r2 = rehash_table_ok [OF this g1(1)]
      have step: "name_index_ht_insert gn mem idx r name =
          (if e2 \<noteq> REND_SUCCESS then (idx2, e2) else name_index_ht_insert gn mem idx2 r name)"
        using g e1 None h r by (simp add: name_index_ht_insert.simps [of gn mem idx])
      have name: "name = gn (storage (rows idx2 ! r))" using 1(4) g1(2) r2(3) by (simp add: same_rows_def)
      have same: "same_rows idx idx2" using g1(2) r2(3) by (rule same_rows_trans)
      show ?thesis
      proof (cases "e2 = REND_SUCCESS")
        case True
        with step 1(2) have "name_index_ht_insert gn mem idx2 r name = (idx', e)" by simp
        from 1(1) [OF g [symmetric] refl _ _ r [symmetric] refl _ this r2(1) name] e1 True None h same
        show ?thesis by (auto intro: same_rows_trans)
      next
        case False
        with step 1(2) same r2(1) show ?thesis by simp
      qed
    qed
  qed
qed

section \<open>Rows and the free list\<close>

fun flist :: "name_index_row list \<Rightarrow> nat \<Rightarrow> nat list \<Rightarrow> bool" where
  "flist rs h [] \<longleftrightarrow> h = FREE_HEAD_INVALID"
| "flist rs h (x # xs) \<longleftrightarrow> h = x \<and> x < length rs \<and> \<not> used (rs ! x) \<and> flist rs (storage (rs ! x)) xs"

lemma flist_update: "x \<notin> set xs \<Longrightarrow> flist (rs[x := r]) h xs = flist rs h xs"
  by (induction xs arbitrary: h) auto

lemma flist_append_rows: "flist rs h xs \<Longrightarrow> flist (rs @ rs') h xs"
  by (induction xs arbitrary: h) (auto simp: nth_append)

lemma flist_bound: "flist rs h xs \<Longrightarrow> set xs \<subseteq> {..<length rs}"
  by (induction xs arbitrary: h) auto

lemma flist_new_rows:
  assumes "flist (rs @ new_rows (length rs) nc tail) tail fl" and "length rs \<le> k" "k \<le> nc"
  shows "flist (rs @ new_rows (length rs) nc tail) (if k < nc then k else tail) ([k..<nc] @ fl)"
  using assms(2,3)
proof (induction "nc - k" arbitrary: k)
  case 0
  with assms(1) show ?case by simp
next
  case (Suc d)
  let ?rs = "rs @ new_rows (length rs) nc tail"
  have k: "k < nc" using Suc.hyps(2) by simp
  have nth: "?rs ! k = free_row (if k + 1 < nc then k + 1 else tail)"
    using k Suc.prems(1) by (simp add: new_rows_def nth_append)
  have "flist ?rs (if Suc k < nc then Suc k else tail) ([Suc k..<nc] @ fl)"
    using Suc k by (intro Suc.hyps(1)) simp_all
  moreover have "[k..<nc] = k # [Suc k..<nc]" using k by (simp add: upt_conv_Cons)
  moreover have "k < length ?rs" using k Suc.prems(1) by (simp add: new_rows_def)
  ultimately show ?case using k nth by (cases "Suc k < nc") (simp_all add: free_row_def)
qed

definition used_rows :: "name_index_row list \<Rightarrow> nat set" where
  "used_rows rs = {i. i < length rs \<and> used (rs ! i)}"

lemma finite_used_rows [simp]: "finite (used_rows rs)"
  by (simp add: used_rows_def)

lemma card_used_rows: "card (used_rows rs) \<le> length rs"
proof -
  have "used_rows rs \<subseteq> {..<length rs}" by (auto simp: used_rows_def)
  then show ?thesis using card_mono [of "{..<length rs}"] by fastforce
qed

lemma used_rows_update:
  "i < length rs \<Longrightarrow> used_rows (rs[i := r]) = (if used r then insert i (used_rows rs) else used_rows rs - {i})"
  by (auto simp: used_rows_def nth_list_update split: if_splits)

definition rows_ok :: "name_index \<Rightarrow> nat list \<Rightarrow> bool" where
  "rows_ok idx fl \<longleftrightarrow>
     flist (rows idx) (free_head idx) fl \<and> distinct fl \<and>
     (\<forall>i<length (rows idx). i \<in> set fl \<longleftrightarrow> \<not> used (rows idx ! i)) \<and>
     length (rows idx) \<le> (U64 - 1) div 24 \<and> live idx = card (used_rows (rows idx))"

definition name_ok :: "nat \<Rightarrow> u8 list \<Rightarrow> bool" where
  "name_ok len_max n \<longleftrightarrow> n \<noteq> [] \<and> 0 \<notin> set n \<and> length n \<le> len_max"

definition names_ok :: "namef \<Rightarrow> name_index \<Rightarrow> bool" where
  "names_ok gn idx \<longleftrightarrow>
     (\<forall>i<length (rows idx). used (rows idx ! i) \<longrightarrow>
        storage (rows idx ! i) \<noteq> 0 \<and> (\<exists>n. gn (storage (rows idx ! i)) = Some n \<and> name_ok (name_len_max idx) n))"

definition ni_inv :: "namef \<Rightarrow> name_index \<Rightarrow> bool" where
  "ni_inv gn idx \<longleftrightarrow> (\<exists>fl. rows_ok idx fl) \<and> names_ok gn idx \<and> table_ok gn {} idx"

text \<open>The abstract state: the value each row number stands for.\<close>

definition entries :: "name_index \<Rightarrow> nat \<rightharpoonup> nat" where
  "entries idx r = (if r < length (rows idx) \<and> used (rows idx ! r) then Some (storage (rows idx ! r)) else None)"

lemma rows_ok_same: "rows_ok idx fl \<Longrightarrow> same_rows idx idx' \<Longrightarrow> rows_ok idx' fl"
  and names_ok_same: "names_ok gn idx \<Longrightarrow> same_rows idx idx' \<Longrightarrow> names_ok gn idx'"
  and entries_same: "same_rows idx idx' \<Longrightarrow> entries idx' = entries idx"
  by (auto simp: rows_ok_def names_ok_def same_rows_def entries_def fun_eq_iff)

lemma not_used_not_live: "\<not> used r \<Longrightarrow> \<not> row_live r"
  by (simp add: row_live_def)

lemma grow_row_array_cases:
  assumes "name_index_grow_row_array mem idx = (idx', e)" and "rows_ok idx fl"
  obtains (fail) a where "idx' = idx\<lparr>allocs := a\<rparr>" "e \<noteq> REND_SUCCESS"
  | (grown) a nc tail where "e = REND_SUCCESS" "length (rows idx) < nc" "nc \<le> (U64 - 1) div 24"
      "tail = (if rows idx = [] then FREE_HEAD_INVALID else free_head idx)"
      "idx' = idx\<lparr>allocs := a, rows := rows idx @ new_rows (length (rows idx)) nc tail, free_head := length (rows idx)\<rparr>"
proof -
  define nc where "nc = (if rows idx \<noteq> [] then length (rows idx) * 2 else ROWS_INITIAL_CAP)"
  define tail where "tail = (if rows idx = [] then FREE_HEAD_INVALID else free_head idx)"
  have nc: "length (rows idx) < nc" by (simp add: nc_def ROWS_INITIAL_CAP_def)
  have "(length (rows idx) * 2) mod U64 = length (rows idx) * 2" using assms(2) by (simp add: rows_ok_def U64_def)
  then have "name_index_grow_row_array mem idx =
      (if nc > (U64 - 1) div 24 then (idx, E_RENDEZVOS)
       else if \<not> mem (allocs idx) then (idx\<lparr>allocs := Suc (allocs idx)\<rparr>, E_RENDEZVOS)
       else (idx\<lparr>allocs := Suc (allocs idx), rows := rows idx @ new_rows (length (rows idx)) nc tail,
                 free_head := length (rows idx)\<rparr>, REND_SUCCESS))"
    by (simp add: name_index_grow_row_array_def Let_def nc_def tail_def)
  note eq = this [unfolded assms(1)]
  consider "(U64 - 1) div 24 < nc" | "\<not> (U64 - 1) div 24 < nc" "\<not> mem (allocs idx)"
    | "\<not> (U64 - 1) div 24 < nc" "mem (allocs idx)" by blast
  then show ?thesis
  proof cases
    case 1
    then show ?thesis using eq by (intro fail [of "allocs idx"]) simp_all
  next
    case 2
    then show ?thesis using eq by (intro fail [of "Suc (allocs idx)"]) simp_all
  next
    case 3
    then show ?thesis using eq nc by (intro grown [of nc tail "Suc (allocs idx)"]) (simp_all add: tail_def)
  qed
qed

lemma grow_row_array_inv:
  assumes g: "name_index_grow_row_array mem idx = (idx', e)" and inv: "ni_inv gn idx"
  shows "ni_inv gn idx'" and "entries idx' = entries idx"
    and "e = REND_SUCCESS \<Longrightarrow> rows idx' \<noteq> [] \<and> free_head idx' \<noteq> FREE_HEAD_INVALID"
    and "name_len_max idx' = name_len_max idx"
proof -
  obtain fl where fl: "rows_ok idx fl" using inv by (auto simp: ni_inv_def)
  have "ni_inv gn idx' \<and> entries idx' = entries idx \<and>
    (e = REND_SUCCESS \<longrightarrow> rows idx' \<noteq> [] \<and> free_head idx' \<noteq> FREE_HEAD_INVALID) \<and> name_len_max idx' = name_len_max idx"
    using g fl
  proof (cases rule: grow_row_array_cases)
    case (fail a)
    then have same: "same_rows idx idx'" "ht idx' = ht idx" "ht_mask idx' = ht_mask idx"
      by (simp_all add: same_rows_def)
    have "ni_inv gn idx'" using inv rows_ok_same [OF _ same(1)] names_ok_same [OF _ same(1)] table_ok_same [OF _ same]
      unfolding ni_inv_def by blast
    then show ?thesis using fail(2) entries_same [OF same(1)] same(1) by (simp add: same_rows_def)
  next
    case (grown a nc tail)
    let ?n = "length (rows idx)" and ?new = "new_rows (length (rows idx)) nc tail"
    have rows': "rows idx' = rows idx @ ?new" "free_head idx' = ?n" "live idx' = live idx" "ht idx' = ht idx"
        "ht_mask idx' = ht_mask idx" "name_len_max idx' = name_len_max idx"
      by (subst grown(5), simp)+
    have len: "length ?new = nc - ?n" by (simp add: new_rows_def)
    have unused: "\<not> used (?new ! i)" if "i < nc - ?n" for i
      using that by (simp add: new_rows_def free_row_def)
    have "flist (rows idx @ ?new) tail (if rows idx = [] then [] else fl)"
      using fl grown(4) by (auto simp: rows_ok_def intro: flist_append_rows)
    from flist_new_rows [OF this order.refl] grown(2)
    have fl': "flist (rows idx') (free_head idx') ([?n..<nc] @ (if rows idx = [] then [] else fl))"
      by (simp add: rows')
    have sub: "set fl \<subseteq> {..<?n}" using fl flist_bound by (auto simp: rows_ok_def)
    have used': "used (rows idx' ! i) \<longleftrightarrow> i < ?n \<and> used (rows idx ! i)" if "i < length (rows idx')" for i
      using that unused [of "i - ?n"] by (auto simp: rows' len nth_append)
    then have ur: "used_rows (rows idx') = used_rows (rows idx)"
      by (auto simp: used_rows_def rows')
    have "rows_ok idx' ([?n..<nc] @ (if rows idx = [] then [] else fl))"
      unfolding rows_ok_def ur
      using fl fl' grown(2,3) sub used' by (auto simp: rows_ok_def rows' len) (metis not_le)
    moreover have same_i: "rows idx' ! i = rows idx ! i" "i < ?n" if "i < length (rows idx')" "used (rows idx' ! i)" for i
      using used' [OF that(1)] that(2) by (auto simp: rows' nth_append)
    then have "names_ok gn idx'" using inv unfolding ni_inv_def names_ok_def rows'(6) by metis
    moreover have "table_ok gn {} idx'" using inv same_i
      unfolding ni_inv_def table_ok_def rows'(4-6) row_hash_def row_live_def by metis
    moreover have "entries idx' x = entries idx x" for x
    proof (cases "x < length (rows idx')")
      case True
      with used' [OF True] same_i [OF True] show ?thesis by (auto simp: entries_def)
    qed (simp add: entries_def rows')
    then have "entries idx' = entries idx" by blast
    moreover have "?n \<noteq> FREE_HEAD_INVALID" "rows idx' \<noteq> []"
      using grown(2,3) len by (auto simp: FREE_HEAD_INVALID_def U64_def rows')
    ultimately show ?thesis by (auto simp: ni_inv_def rows')
  qed
  then show "ni_inv gn idx'" and "entries idx' = entries idx"
    and "e = REND_SUCCESS \<Longrightarrow> rows idx' \<noteq> [] \<and> free_head idx' \<noteq> FREE_HEAD_INVALID"
    and "name_len_max idx' = name_len_max idx" by blast+
qed

section \<open>Registering and unregistering\<close>

lemma ni_inv_same:
  assumes "ni_inv gn idx" "same_rows idx idx'" "table_ok gn {} idx'"
  shows "ni_inv gn idx'"
  using assms rows_ok_same names_ok_same unfolding ni_inv_def by blast

lemma bootstrap_inv:
  assumes b: "name_index_bootstrap gn mem idx = (idx', e)" and inv: "ni_inv gn idx"
  shows "ni_inv gn idx' \<and> entries idx' = entries idx \<and> name_len_max idx' = name_len_max idx"
proof (cases "rows idx = []")
  case False
  with b inv show ?thesis by (simp add: name_index_bootstrap_def)
next
  case True
  obtain idx1 e1 where g: "name_index_grow_row_array mem idx = (idx1, e1)" by fastforce
  note g1 = grow_row_array_inv [OF g inv]
  show ?thesis
  proof (cases "e1 = REND_SUCCESS")
    case e1: True
    with b g True have r: "name_index_ht_rehash gn mem idx1 (2 ^ 6) = (idx', e)"
      by (simp add: name_index_bootstrap_def HT_INITIAL_CAP_def)
    have "table_ok gn {} idx1" using g1(1) by (simp add: ni_inv_def)
    note r1 = rehash_table_ok [OF r this]
    show ?thesis using ni_inv_same [OF g1(1) r1(3) r1(1)] entries_same [OF r1(3)] g1 r1(3)
      by (simp add: same_rows_def)
  next
    case False
    with b g True g1 show ?thesis by (simp add: name_index_bootstrap_def)
  qed
qed

text \<open>Taking row \<open>r\<close> off the free list, and putting it back.\<close>

lemma take_row:
  assumes "rows_ok idx (r # fl)" and "table_ok gn {} idx" and "names_ok gn idx"
    and v: "v \<noteq> 0" "gn v = Some n" "name_ok (name_len_max idx) n"
  defines "idx' \<equiv> idx\<lparr>free_head := storage (rows idx ! r),
                      rows := (rows idx)[r := (rows idx ! r)\<lparr>storage := v, used := True\<rparr>],
                      live := (live idx + 1) mod U64\<rparr>"
  shows "rows_ok idx' fl" and "names_ok gn idx'" and "table_ok gn {r} idx'"
    and "entries idx r = None" and "entries idx' = (entries idx)(r \<mapsto> v)"
proof -
  let ?row = "(rows idx ! r)\<lparr>storage := v, used := True\<rparr>"
  have r: "r < length (rows idx)" "\<not> used (rows idx ! r)" "free_head idx = r"
    using assms(1) by (auto simp: rows_ok_def)
  have "r \<notin> used_rows (rows idx)" using r by (simp add: used_rows_def)
  then have "card (used_rows ((rows idx)[r := ?row])) = live idx + 1"
    using r assms(1) by (simp add: used_rows_update rows_ok_def)
  moreover have "live idx + 1 < U64" using assms(1) card_used_rows [of "rows idx"]
    by (simp add: rows_ok_def U64_def)
  ultimately show "rows_ok idx' fl" using assms(1)
    by (auto simp: rows_ok_def idx'_def flist_update nth_list_update)
  show "names_ok gn idx'" using assms(3) v r(1) by (auto simp: names_ok_def idx'_def nth_list_update)
  show "table_ok gn {r} idx'" using assms(2) by (auto simp: table_ok_def idx'_def row_hash_def nth_list_update)
  show "entries idx r = None" "entries idx' = (entries idx)(r \<mapsto> v)"
    using r by (auto simp: entries_def idx'_def fun_eq_iff nth_list_update)
qed

lemma put_row:
  assumes "rows_ok idx fl" and "table_ok gn {r} idx" and "names_ok gn idx"
    and r: "r < length (rows idx)" "used (rows idx ! r)"
    and row: "\<not> used row" "storage row = free_head idx"
    and idx': "rows idx' = (rows idx)[r := row]" "free_head idx' = r"
      "live idx' = (if live idx \<noteq> 0 then live idx - 1 else 0)" "ht idx' = ht idx" "ht_mask idx' = ht_mask idx"
      "name_len_max idx' = name_len_max idx"
  shows "ni_inv gn idx'" and "entries idx' = (entries idx)(r := None)"
proof -
  have nr: "r \<notin> set fl" "r \<in> used_rows (rows idx)" using assms(1) r by (auto simp: rows_ok_def used_rows_def)
  have "card (used_rows ((rows idx)[r := row])) = live idx - 1"
    using assms(1) r row nr(2) by (simp add: used_rows_update rows_ok_def)
  then have "rows_ok idx' (r # fl)"
    using assms(1) r row nr(1) by (auto simp: rows_ok_def idx' flist_update nth_list_update)
  moreover have "names_ok gn idx'" using assms(3) row r(1) by (auto simp: names_ok_def idx' nth_list_update)
  moreover have "table_ok gn {} idx'"
    using assms(2) row r(1) by (auto simp: table_ok_def idx' row_hash_def nth_list_update row_live_def)
  ultimately show "ni_inv gn idx'" by (auto simp: ni_inv_def)
  show "entries idx' = (entries idx)(r := None)"
    using row r by (auto simp: entries_def idx' fun_eq_iff nth_list_update)
qed

lemma ni_inv_frame [simp]:
  "ni_inv gn (idx\<lparr>calls := c\<rparr>) = ni_inv gn idx" "entries (idx\<lparr>calls := c\<rparr>) = entries idx"
  by (auto simp: ni_inv_def rows_ok_def names_ok_def table_ok_def entries_def row_hash_def fun_eq_iff)

lemma call_frame [simp]:
  "ni_inv gn (call p c idx) = ni_inv gn idx" "entries (call p c idx) = entries idx"
  "rows (call p c idx) = rows idx" "free_head (call p c idx) = free_head idx" "live (call p c idx) = live idx"
  "ht (call p c idx) = ht idx" "ht_mask (call p c idx) = ht_mask idx"
  "name_len_max (call p c idx) = name_len_max idx"
  by (simp_all add: call_def)

definition register_result :: "namef \<Rightarrow> name_index \<Rightarrow> nat \<Rightarrow> name_index \<times> error_t \<times> nat option \<Rightarrow> bool" where
  "register_result gn idx v res \<longleftrightarrow> (case res of (idx', e, out) \<Rightarrow>
     ni_inv gn idx' \<and> name_len_max idx' = name_len_max idx \<and>
     (case out of
        Some r \<Rightarrow> e = REND_SUCCESS \<and> entries idx r = None \<and> entries idx' = (entries idx)(r \<mapsto> v)
      | None \<Rightarrow> e \<noteq> REND_SUCCESS \<and> entries idx' = entries idx))"

lemma register_row_inv:
  assumes inv: "ni_inv gn idx" and v: "v \<noteq> 0" "gn v = Some n" "name_ok (name_len_max idx) n"
  shows "register_result gn idx v (register_row gn mem idx v)"
proof (cases "free_head idx < length (rows idx) \<and> \<not> used (rows idx ! free_head idx)")
  case False
  with inv show ?thesis by (auto simp: register_row_def register_result_def Let_def)
next
  case True
  define r where "r = free_head idx"
  obtain fl0 where "rows_ok idx fl0" using inv by (auto simp: ni_inv_def)
  moreover from this True have "fl0 \<noteq> []" by (auto simp: rows_ok_def)
  ultimately obtain fl where fl: "rows_ok idx (r # fl)" by (cases fl0) (auto simp: rows_ok_def r_def)
  define idx1 where "idx1 = idx\<lparr>free_head := storage (rows idx ! r),
      rows := (rows idx)[r := (rows idx ! r)\<lparr>storage := v, used := True\<rparr>], live := (live idx + 1) mod U64\<rparr>"
  have t: "rows_ok idx1 fl" "names_ok gn idx1" "table_ok gn {r} idx1" "entries idx r = None"
      "entries idx1 = (entries idx)(r \<mapsto> v)"
    unfolding idx1_def
    using inv take_row [of idx r fl gn v n, OF fl _ _ v] by (simp_all add: ni_inv_def)
  have nm: "gn v = gn (storage (rows idx1 ! r))" "r < length (rows idx1)" "used (rows idx1 ! r)"
      "name_len_max idx1 = name_len_max idx"
    using True by (simp_all add: idx1_def r_def)
  obtain idx2 e where ins: "name_index_ht_insert gn mem idx1 r (gn v) = (idx2, e)" by fastforce
  note i2 = ht_insert_spec [OF ins t(3) nm(1)]
  then have same: "same_rows idx1 idx2" by simp
  note t2 = rows_ok_same [OF t(1) same] names_ok_same [OF t(2) same] entries_same [OF same]
  have eq: "register_row gn mem idx v =
      (if e \<noteq> REND_SUCCESS then
          (idx2\<lparr>rows := (rows idx2)[r := (rows idx2 ! r)\<lparr>used := False, storage := free_head idx2\<rparr>],
               free_head := r, live := (if live idx2 \<noteq> 0 then live idx2 - 1 else 0)\<rparr>, e, None)
        else (call (has_on_register idx2) (OnRegister v) idx2, REND_SUCCESS, Some r))"
    using True ins by (simp add: register_row_def Let_def idx1_def r_def)
  show ?thesis
  proof (cases "e = REND_SUCCESS")
    case e: True
    then have "ni_inv gn idx2" using i2 t2 by (auto simp: ni_inv_def)
    then show ?thesis using e t(4,5) t2(3) same nm(4) by (simp add: eq register_result_def same_rows_def)
  next
    case False
    let ?idx3 = "idx2\<lparr>rows := (rows idx2)[r := (rows idx2 ! r)\<lparr>used := False, storage := free_head idx2\<rparr>],
               free_head := r, live := (if live idx2 \<noteq> 0 then live idx2 - 1 else 0)\<rparr>"
    have "r < length (rows idx2)" "used (rows idx2 ! r)" using nm same by (simp_all add: same_rows_def)
    from put_row [OF t2(1) _ t2(2) this, of "(rows idx2 ! r)\<lparr>used := False, storage := free_head idx2\<rparr>" ?idx3] i2
    have "ni_inv gn ?idx3" "entries ?idx3 = (entries idx2)(r := None)" by simp_all
    moreover have "(entries idx2)(r := None) = entries idx" using t(4,5) t2(3) by (auto simp: fun_eq_iff)
    ultimately show ?thesis using False same nm(4) by (simp add: eq register_result_def same_rows_def)
  qed
qed

lemma c_text_name: "0 \<notin> set n \<Longrightarrow> c_text n = n"
  by (simp add: c_text_def takeWhile_eq_all_conv) (metis)

lemma register_inv:
  assumes inv: "ni_inv gn idx" and v: "v \<noteq> 0" "gn v = Some n" "name_ok (name_len_max idx) n"
  shows "register_result gn idx v (name_index_register gn mem idx v)"
proof -
  obtain idx1 e1 where b: "name_index_bootstrap gn mem idx = (idx1, e1)" by fastforce
  note b1 = bootstrap_inv [OF b inv]
  obtain idx2 e2 where g: "(if free_head idx1 = FREE_HEAD_INVALID then name_index_grow_row_array mem idx1
      else (idx1, REND_SUCCESS)) = (idx2, e2)" by fastforce
  have g2: "ni_inv gn idx2 \<and> entries idx2 = entries idx1 \<and> name_len_max idx2 = name_len_max idx1"
    using g b1 grow_row_array_inv [of mem idx1 idx2 e2 gn] by (auto split: if_splits)
  have eq: "name_index_register gn mem idx v =
     (if e1 \<noteq> REND_SUCCESS then (idx1, e1, None) else if e2 \<noteq> REND_SUCCESS then (idx2, e2, None)
      else register_row gn mem idx2 v)"
    using b g v by (simp add: name_index_register_def name_ok_def c_text_name)
  have "register_result gn idx2 v (register_row gn mem idx2 v)"
    using g2 b1 v by (intro register_row_inv) auto
  with b1 g2 show ?thesis by (auto simp: eq register_result_def)
qed

lemma remove_loop_SomeD: "remove_loop tab msk h r ps = Some b \<Longrightarrow> tab ! b = HT_ROW r"
  by (induction ps) (auto split: slot.splits if_splits)

lemma ht_remove_spec:
  assumes "table_ok gn {} idx"
  shows "table_ok gn {r} (name_index_ht_remove idx r name)" and "same_rows idx (name_index_ht_remove idx r name)"
proof -
  show "same_rows idx (name_index_ht_remove idx r name)"
    by (simp add: name_index_ht_remove_def same_rows_def split: option.splits)
  show "table_ok gn {r} (name_index_ht_remove idx r name)"
  proof (cases "remove_loop (ht idx) (ht_mask idx) (name_index_hash_name (name_len_max idx) name) r [0..<length (ht idx)]")
    case None
    with assms table_ok_mono [OF assms, of "{r}"] show ?thesis by (simp add: name_index_ht_remove_def)
  next
    case (Some b)
    have "reach ((ht idx)[b := HT_TOMB]) (ht_mask idx) h i" if "i \<noteq> r" "reach (ht idx) (ht_mask idx) h i" for h i
      using that remove_loop_SomeD [OF Some] by (intro reach_update) auto
    with assms Some show ?thesis
      by (auto simp: name_index_ht_remove_def table_ok_def row_hash_def)
  qed
qed

lemma maybe_shrink_inv:
  assumes inv: "ni_inv gn idx"
  shows "ni_inv gn (name_index_maybe_shrink_ht gn mem idx)" and "entries (name_index_maybe_shrink_ht gn mem idx) = entries idx"
    and "same_rows idx (name_index_maybe_shrink_ht gn mem idx)"
proof -
  let ?idx' = "name_index_maybe_shrink_ht gn mem idx"
  define target where "target = (if live idx = 0 then HT_INITIAL_CAP else max (length (ht idx) div 2) HT_INITIAL_CAP)"
  have ok: "table_ok gn {} idx" using inv by (simp add: ni_inv_def)
  have cases: "?idx' = idx \<or> (length (ht idx) > 64 \<and> ?idx' = fst (name_index_ht_rehash gn mem idx target))"
    by (auto simp: name_index_maybe_shrink_ht_def Let_def target_def HT_INITIAL_CAP_def)
  have "same_rows idx ?idx' \<and> table_ok gn {} ?idx'"
  proof (cases "?idx' = idx")
    case True
    with ok show ?thesis by simp
  next
    case False
    with cases have c: "length (ht idx) > 64" "?idx' = fst (name_index_ht_rehash gn mem idx target)" by auto
    then obtain k where k: "length (ht idx) = 2 ^ k" using ok by (auto simp: table_ok_def)
    have "(2 :: nat) ^ 6 < 2 ^ k" using c(1) k by simp
    then have "6 < k" by (simp only: power_strict_increasing_iff)
    then obtain j where j: "k = Suc j" "6 \<le> j" by (cases k) auto
    have "(2 :: nat) ^ 6 \<le> 2 ^ j" using j(2) by (intro power_increasing) simp_all
    then have "target = 2 ^ j \<or> target = 2 ^ 6"
      using k j by (auto simp: target_def HT_INITIAL_CAP_def)
    then obtain m where "target = 2 ^ m" by blast
    then obtain e where "name_index_ht_rehash gn mem idx (2 ^ m) = (?idx', e)"
      using c(2) by (metis prod.collapse)
    from rehash_table_ok [OF this ok] show ?thesis by blast
  qed
  then show "ni_inv gn ?idx'" "entries ?idx' = entries idx" "same_rows idx ?idx'"
    using ni_inv_same [OF inv] entries_same by blast+
qed

lemma release_row_inv:
  assumes "rows_ok idx fl" and "table_ok gn {r} idx" and "names_ok gn idx"
    and r: "r < length (rows idx)" "used (rows idx ! r)"
  shows "ni_inv gn (release_row gn mem idx r v)" and "entries (release_row gn mem idx r v) = (entries idx)(r := None)"
    and "rows (release_row gn mem idx r v)
         = (rows idx)[r := (rows idx ! r)\<lparr>used := False, gen := (gen (rows idx ! r) + 1) mod U64, storage := free_head idx\<rparr>]"
proof -
  define row where "row = (rows idx ! r)\<lparr>used := False, gen := (gen (rows idx ! r) + 1) mod U64, storage := free_head idx\<rparr>"
  define idx1 where "idx1 = (call (has_on_unregister idx) (OnUnregister v) idx)
      \<lparr>rows := (rows idx)[r := row], free_head := r, live := (if live idx \<noteq> 0 then live idx - 1 else 0)\<rparr>"
  have eq: "release_row gn mem idx r v = name_index_maybe_shrink_ht gn mem idx1"
    by (simp add: release_row_def idx1_def row_def Let_def)
  have "ni_inv gn idx1" "entries idx1 = (entries idx)(r := None)"
    using put_row [OF assms(1,2,3) r, of row idx1] by (simp_all add: idx1_def row_def)
  with maybe_shrink_inv [of gn idx1 mem] show "ni_inv gn (release_row gn mem idx r v)"
    and "entries (release_row gn mem idx r v) = (entries idx)(r := None)"
    and "rows (release_row gn mem idx r v)
         = (rows idx)[r := (rows idx ! r)\<lparr>used := False, gen := (gen (rows idx ! r) + 1) mod U64, storage := free_head idx\<rparr>]"
    by (simp_all add: eq same_rows_def idx1_def row_def)
qed

lemma unregister_inv:
  assumes inv: "ni_inv gn idx"
  shows "ni_inv gn (name_index_unregister gn mem idx v r name)"
    and "entries (name_index_unregister gn mem idx v r name)
         = (if entries idx r = Some v then (entries idx)(r := None) else entries idx)"
    and "entries idx r = Some v \<Longrightarrow>
         gen (rows (name_index_unregister gn mem idx v r name) ! r) = (gen (rows idx ! r) + 1) mod U64"
proof -
  obtain fl where fl: "rows_ok idx fl" "names_ok gn idx" "table_ok gn {} idx" using inv by (auto simp: ni_inv_def)
  define idx1 where "idx1 = (if name \<noteq> None then name_index_ht_remove idx r name else idx)"
  have same: "same_rows idx idx1" and ok: "table_ok gn {r} idx1"
    using ht_remove_spec [OF fl(3)] table_ok_mono [OF fl(3), of "{r}"] by (auto simp: idx1_def)
  have eq: "name_index_unregister gn mem idx v r name = (if entries idx r = Some v then release_row gn mem idx1 r v else idx)"
    by (auto simp: name_index_unregister_def idx1_def entries_def Let_def)
  have "ni_inv gn (release_row gn mem idx1 r v) \<and>
        entries (release_row gn mem idx1 r v) = (entries idx)(r := None) \<and>
        gen (rows (release_row gn mem idx1 r v) ! r) = (gen (rows idx ! r) + 1) mod U64"
    if "entries idx r = Some v"
  proof -
    have "r < length (rows idx1)" "used (rows idx1 ! r)"
      using that same by (auto simp: entries_def same_rows_def split: if_splits)
    note rel = release_row_inv [OF rows_ok_same [OF fl(1) same] ok names_ok_same [OF fl(2) same] this, of mem v]
    show ?thesis using rel \<open>r < length (rows idx1)\<close> same by (simp add: entries_same [OF same]) (simp add: same_rows_def)
  qed
  with eq inv show "ni_inv gn (name_index_unregister gn mem idx v r name)"
    and "entries (name_index_unregister gn mem idx v r name)
         = (if entries idx r = Some v then (entries idx)(r := None) else entries idx)"
    and "entries idx r = Some v \<Longrightarrow>
         gen (rows (name_index_unregister gn mem idx v r name) ! r) = (gen (rows idx ! r) + 1) mod U64"
    by auto
qed

section \<open>Searching\<close>

text \<open>A row answers to a name.\<close>

definition answers :: "namef \<Rightarrow> name_index \<Rightarrow> u8 list \<Rightarrow> nat \<Rightarrow> bool" where
  "answers gn idx n r \<longleftrightarrow> (\<exists>v. entries idx r = Some v \<and> gn v = Some n)"

lemma find_loop_SomeD:
  assumes "find_loop gn idx n h ps = Some (b, r)" and "names_ok gn idx" and "0 \<notin> set n"
  shows "answers gn idx n r"
  using assms(1)
proof (induction ps)
  case (Cons p ps)
  show ?case
  proof (cases "find_loop gn idx n h ps = Some (b, r)")
    case False
    with Cons.prems obtain rn where r: "r < length (rows idx)" "row_live (rows idx ! r)"
        "gn (storage (rows idx ! r)) = Some rn" "strcmp_s rn n (name_len_max idx) = 0"
      by (auto simp: Let_def split: slot.splits if_splits option.splits)
    moreover from r assms(2) have "name_ok (name_len_max idx) rn" by (auto simp: names_ok_def row_live_def)
    ultimately have "rn = n" using assms(3) strcmp_s_eq by (auto simp: name_ok_def)
    with r show ?thesis by (auto simp: answers_def entries_def row_live_def)
  qed (use Cons in simp)
qed simp

lemma find_loop_NoneD:
  assumes "find_loop gn idx n h ps = None" and "sorted_wrt (<) ps"
    and "\<forall>q\<in>set ps. q \<le> p \<longrightarrow> ht idx ! bucket (ht_mask idx) h q \<noteq> HT_EMPTY"
    and "p \<in> set ps" "ht idx ! bucket (ht_mask idx) h p = HT_ROW r"
    and "r < length (rows idx)" "row_live (rows idx ! r)" "gn (storage (rows idx ! r)) = Some n"
    and "strcmp_s n n (name_len_max idx) = 0"
  shows False
  using assms
proof (induction ps)
  case (Cons q ps)
  have "q \<le> p" using Cons.prems(2,4) by auto
  then have ne: "ht idx ! bucket (ht_mask idx) h q \<noteq> HT_EMPTY" using Cons.prems(3) by simp
  have "p \<noteq> q" using Cons.prems ne by (auto simp: Let_def)
  moreover have "find_loop gn idx n h ps = None"
    using Cons.prems(1) ne by (auto simp: Let_def split: slot.splits if_splits option.splits)
  ultimately show ?case using Cons by auto
qed simp

lemma find_bucket_iff:
  assumes inv: "ni_inv gn idx" and n: "0 \<notin> set n"
  shows "(\<forall>b r. name_index_ht_find_bucket gn idx (Some n) = Some (b, r) \<longrightarrow> answers gn idx n r) \<and>
         (name_index_ht_find_bucket gn idx (Some n) = None \<longrightarrow> (\<forall>r. \<not> answers gn idx n r))"
proof (intro conjI allI impI)
  have names: "names_ok gn idx" and ok: "table_ok gn {} idx" using inv by (auto simp: ni_inv_def)
  fix b r
  assume "name_index_ht_find_bucket gn idx (Some n) = Some (b, r)"
  then show "answers gn idx n r"
    using find_loop_SomeD [OF _ names n] by (auto simp: name_index_ht_find_bucket_def split: if_splits)
next
  have names: "names_ok gn idx" and ok: "table_ok gn {} idx" using inv by (auto simp: ni_inv_def)
  fix r
  assume none: "name_index_ht_find_bucket gn idx (Some n) = None"
  show "\<not> answers gn idx n r"
  proof
    assume "answers gn idx n r"
    then have r: "r < length (rows idx)" "used (rows idx ! r)" "gn (storage (rows idx ! r)) = Some n"
      by (auto simp: answers_def entries_def split: if_splits)
    then have "name_ok (name_len_max idx) n" "row_live (rows idx ! r)" using names by (auto simp: names_ok_def row_live_def)
    then have cmp: "strcmp_s n n (name_len_max idx) = 0" by (simp add: strcmp_s_eq name_ok_def)
    have "reach (ht idx) (ht_mask idx) (row_hash gn idx r) r"
      using ok r \<open>row_live (rows idx ! r)\<close> by (simp add: table_ok_def)
    then obtain p where p: "p < length (ht idx)" "ht idx ! bucket (ht_mask idx) (row_hash gn idx r) p = HT_ROW r"
        "\<forall>q<p. ht idx ! bucket (ht_mask idx) (row_hash gn idx r) q \<noteq> HT_EMPTY"
      by (auto simp: reach_def)
    have "find_loop gn idx n (row_hash gn idx r) [0..<length (ht idx)] = None"
      using none p(1) r(3) by (auto simp: name_index_ht_find_bucket_def row_hash_def split: if_splits)
    then show False
    proof (rule find_loop_NoneD [of _ _ _ _ _ p r])
      show "\<forall>q\<in>set [0..<length (ht idx)]. q \<le> p \<longrightarrow> ht idx ! bucket (ht_mask idx) (row_hash gn idx r) q \<noteq> HT_EMPTY"
        using p(2,3) by (metis le_eq_less_or_eq slot.distinct(3))
    qed (use p r cmp \<open>row_live (rows idx ! r)\<close> in auto)
  qed
qed

lemma search_exact:
  assumes inv: "ni_inv gn idx" and n: "0 \<notin> set n"
  shows "case name_index_search gn idx (Some n) of
           Some (v, r) \<Rightarrow> entries idx r = Some v \<and> gn v = Some n
         | None \<Rightarrow> (\<forall>r v. entries idx r = Some v \<longrightarrow> gn v \<noteq> Some n)"
proof (cases "name_index_ht_find_bucket gn idx (Some n)")
  case None
  with find_bucket_iff [OF inv n] show ?thesis by (auto simp: name_index_search_def answers_def)
next
  case (Some p)
  obtain b r where p: "p = (b, r)" by fastforce
  with Some find_bucket_iff [OF inv n] have "answers gn idx n r" by simp
  then show ?thesis using Some p
    by (auto simp: name_index_search_def answers_def entries_def split: if_splits)
qed

section \<open>Generations\<close>

lemma gen_next_differs: "(g + 1) mod U64 mod 2 ^ 16 \<noteq> g mod 2 ^ 16"
proof -
  have "(g + 1) mod U64 mod 2 ^ 16 = (g + 1) mod 2 ^ 16"
    by (simp add: U64_def mod_mod_cancel)
  then show ?thesis using mod_Suc [of g "2 ^ 16"] by simp
qed

lemma grow_keeps_row:
  assumes "name_index_grow_row_array mem idx = (idx', e)" and "r < length (rows idx)"
  shows "r < length (rows idx')" "rows idx' ! r = rows idx ! r"
  using assms by (auto simp: name_index_grow_row_array_def Let_def nth_append split: if_splits)

lemma register_row_keeps_gen:
  assumes inv: "ni_inv gn idx" and "register_row gn mem idx w = (idx', e, out)" and r: "r < length (rows idx)"
  shows "gen (rows idx' ! r) = gen (rows idx ! r)"
proof (cases "free_head idx < length (rows idx) \<and> \<not> used (rows idx ! free_head idx)")
  case False
  then have "register_row gn mem idx w = (idx, E_RENDEZVOS, None)" by (auto simp: register_row_def Let_def)
  with assms(2) show ?thesis by simp
next
  case True
  define f where "f = free_head idx"
  define idx1 where "idx1 = idx\<lparr>free_head := storage (rows idx ! f),
      rows := (rows idx)[f := (rows idx ! f)\<lparr>storage := w, used := True\<rparr>], live := (live idx + 1) mod U64\<rparr>"
  obtain idx2 e2 where ins: "name_index_ht_insert gn mem idx1 f (gn w) = (idx2, e2)" by fastforce
  have "table_ok gn {f} idx1"
    using inv True by (auto simp: ni_inv_def table_ok_def idx1_def row_hash_def nth_list_update f_def)
  with ht_insert_spec [OF ins] True have "rows idx2 = rows idx1" by (simp add: same_rows_def idx1_def f_def)
  moreover have "gen (rows idx1 ! r) = gen (rows idx ! r)"
    using r True by (simp add: idx1_def nth_list_update f_def)
  moreover have "rows idx' = (if e2 \<noteq> REND_SUCCESS
      then (rows idx2)[f := (rows idx2 ! f)\<lparr>used := False, storage := free_head idx2\<rparr>] else rows idx2)"
    using assms(2) True ins by (auto simp: register_row_def Let_def idx1_def f_def split: if_splits)
  ultimately show ?thesis using r True by (auto simp: nth_list_update idx1_def f_def)
qed

lemma register_keeps_gen:
  assumes "name_index_register gn mem idx w = (idx', e, out)" and inv: "ni_inv gn idx" and r: "r < length (rows idx)"
  shows "gen (rows idx' ! r) = gen (rows idx ! r)"
proof -
  have b: "name_index_bootstrap gn mem idx = (idx, REND_SUCCESS)" using r by (auto simp: name_index_bootstrap_def)
  obtain idx2 e2 where g: "(if free_head idx = FREE_HEAD_INVALID then name_index_grow_row_array mem idx
      else (idx, REND_SUCCESS)) = (idx2, e2)" by fastforce
  then have g2: "ni_inv gn idx2" "r < length (rows idx2)" "rows idx2 ! r = rows idx ! r"
    using inv r grow_row_array_inv [of mem idx idx2 e2 gn] grow_keeps_row [of mem idx idx2 e2 r]
    by (auto split: if_splits)
  show ?thesis using assms(1) b g g2 register_row_keeps_gen [OF g2(1) _ g2(2)]
    by (auto simp: name_index_register_def split: if_splits)
qed

lemma unregister_rows:
  assumes "ni_inv gn idx" and "entries idx r = Some v"
  shows "length (rows (name_index_unregister gn mem idx v r name)) = length (rows idx)"
proof -
  obtain fl where fl: "rows_ok idx fl" "names_ok gn idx" "table_ok gn {} idx" using assms(1) by (auto simp: ni_inv_def)
  define idx1 where "idx1 = (if name \<noteq> None then name_index_ht_remove idx r name else idx)"
  have same: "same_rows idx idx1" and ok: "table_ok gn {r} idx1"
    using ht_remove_spec [OF fl(3)] table_ok_mono [OF fl(3), of "{r}"] by (auto simp: idx1_def)
  have "r < length (rows idx1)" "used (rows idx1 ! r)"
    using assms(2) same by (auto simp: entries_def same_rows_def split: if_splits)
  note rel = release_row_inv(3) [OF rows_ok_same [OF fl(1) same] ok names_ok_same [OF fl(2) same] this, of mem v]
  have "name_index_unregister gn mem idx v r name = release_row gn mem idx1 r v"
    using assms(2) by (auto simp: name_index_unregister_def idx1_def entries_def Let_def split: if_splits)
  with rel same show ?thesis by (simp add: same_rows_def)
qed

section \<open>Runs\<close>

text \<open>
  The operations on one index, as its clients run them under the lock: values are registered with
  well-formed names (\<open>PORT_NAME_LEN_MAX\<close> bytes at most, for ports).
\<close>

inductive ni_step :: "namef \<Rightarrow> (nat \<Rightarrow> bool) \<Rightarrow> name_index \<Rightarrow> name_index \<Rightarrow> bool" for gn mem where
  step_register: "\<lbrakk>gn v = Some n; name_ok (name_len_max idx) n; name_index_register gn mem idx v = (idx', e, out)\<rbrakk>
     \<Longrightarrow> ni_step gn mem idx idx'"
| step_unregister: "ni_step gn mem idx (name_index_unregister gn mem idx v r name)"
| step_abort: "ni_step gn mem idx (name_index_register_abort gn mem idx r v)"
| step_fini: "ni_step gn mem idx (name_index_fini idx)"

lemma abort_is_unregister:
  "name_index_register_abort gn mem idx r v = name_index_unregister gn mem idx v r (gn v)"
  by (simp add: name_index_register_abort_def name_index_unregister_def Let_def split: option.splits)

lemma empty_inv:
  assumes "rows idx = []" "ht idx = []" "free_head idx = FREE_HEAD_INVALID" "live idx = 0"
  shows "ni_inv gn idx" and "entries idx = Map.empty"
proof -
  have "rows_ok idx []" using assms by (simp add: rows_ok_def used_rows_def)
  then show "ni_inv gn idx" using assms by (auto simp: ni_inv_def names_ok_def table_ok_def)
  show "entries idx = Map.empty" using assms by (simp add: entries_def fun_eq_iff)
qed

lemma fini_inv: "ni_inv gn (name_index_fini idx)" "entries (name_index_fini idx) = Map.empty"
  by (rule empty_inv; simp add: name_index_fini_def name_index_free_arrays_def)+

lemma init_inv:
  "ni_inv gn (name_index_init gn mem len_max d r u)" "entries (name_index_init gn mem len_max d r u) = Map.empty"
  "name_len_max (name_index_init gn mem len_max d r u) = len_max"
proof -
  let ?i = "\<lparr>rows = [], free_head = FREE_HEAD_INVALID, live = 0, ht = [], ht_mask = 0, ht_tombs = 0,
        name_len_max = len_max, has_drop = d, has_on_register = r, has_on_unregister = u, allocs = 0, calls = []\<rparr>"
  have "ni_inv gn ?i" "entries ?i = Map.empty" by (rule empty_inv; simp)+
  with bootstrap_inv [of gn mem ?i "fst (name_index_bootstrap gn mem ?i)" "snd (name_index_bootstrap gn mem ?i)"]
  show "ni_inv gn (name_index_init gn mem len_max d r u)" "entries (name_index_init gn mem len_max d r u) = Map.empty"
    "name_len_max (name_index_init gn mem len_max d r u) = len_max"
    by (simp_all add: name_index_init_def)
qed

lemma ni_step_inv: "ni_step gn mem idx idx' \<Longrightarrow> ni_inv gn idx \<Longrightarrow> ni_inv gn idx'"
proof (induction rule: ni_step.induct)
  case (step_register v n idx idx' e out)
  show ?case
  proof (cases "v = 0")
    case True
    with step_register show ?thesis by (auto simp: name_index_register_def)
  next
    case False
    with step_register register_inv [of gn idx v n mem] show ?thesis by (simp add: register_result_def)
  qed
qed (simp_all add: unregister_inv abort_is_unregister fini_inv)

lemma ni_steps_inv: "(ni_step gn mem)\<^sup>*\<^sup>* idx idx' \<Longrightarrow> ni_inv gn idx \<Longrightarrow> ni_inv gn idx'"
  by (induction rule: rtranclp_induct) (auto intro: ni_step_inv)

section \<open>Properties\<close>

text \<open>C1. The registry answers exactly. After any sequence of registrations, unregistrations, aborted
  registrations and resets, with allocations failing at any point and the table growing and
  shrinking on the way, a search for a name finds a registered value of that name, and reports
  absence only when no registered value has it.\<close>

theorem name_index_search_exact:
  assumes "(ni_step gn mem)\<^sup>*\<^sup>* (name_index_init gn mem len_max d r u) idx" and "0 \<notin> set n"
  shows "case name_index_search gn idx (Some n) of
           Some (v, row) \<Rightarrow> entries idx row = Some v \<and> gn v = Some n
         | None \<Rightarrow> (\<forall>row v. entries idx row = Some v \<longrightarrow> gn v \<noteq> Some n)"
  using search_exact [OF ni_steps_inv [OF assms(1) init_inv(1)] assms(2)] .

theorem name_index_search_exact_witness:
  "case name_index_search (\<lambda>v. Some [65]) (name_index_init (\<lambda>v. Some [65]) (\<lambda>_. True) 64 True True True) (Some [66]) of
     Some (v, row) \<Rightarrow> entries (name_index_init (\<lambda>v. Some [65]) (\<lambda>_. True) 64 True True True) row = Some v \<and> Some [65] = Some [66 :: u8]
   | None \<Rightarrow> (\<forall>row v. entries (name_index_init (\<lambda>v. Some [65]) (\<lambda>_. True) 64 True True True) row = Some v \<longrightarrow> Some [65] \<noteq> Some [66 :: u8])"
  by (rule name_index_search_exact [OF rtranclp.rtrancl_refl]) simp

text \<open>C24. Registration is all or nothing. On success one row that stood for nothing now stands for the value
  and every other row is as before; on any error (no memory for rows or for a larger table) the
  registered values are unchanged. The index stays well formed either way.\<close>

theorem name_index_register_atomic:
  assumes "ni_inv gn idx" and "v \<noteq> 0" "gn v = Some n" "name_ok (name_len_max idx) n"
    and "name_index_register gn mem idx v = (idx', e, out)"
  shows "ni_inv gn idx' \<and>
         (case out of
            Some r \<Rightarrow> e = REND_SUCCESS \<and> entries idx r = None \<and> entries idx' = (entries idx)(r \<mapsto> v)
          | None \<Rightarrow> e \<noteq> REND_SUCCESS \<and> entries idx' = entries idx)"
  using register_inv [OF assms(1-4), of mem] assms(5) by (auto simp: register_result_def)

text \<open>A one-row, one-bucket index on which the properties are evaluated.\<close>

definition tiny_index :: name_index where
  "tiny_index = \<lparr>rows = [\<lparr>gen = 0, used = True, storage = 7\<rparr>], free_head = FREE_HEAD_INVALID, live = 1,
     ht = [HT_ROW 0], ht_mask = 0, ht_tombs = 0, name_len_max = 64, has_drop = True, has_on_register = True,
     has_on_unregister = True, allocs = 0, calls = []\<rparr>"

definition tiny_name :: namef where
  "tiny_name v = Some (if v = 7 then [65] else [66])"

lemma tiny_inv: "ni_inv tiny_name tiny_index"
proof -
  have "used_rows (rows tiny_index) = {0}" by (auto simp: used_rows_def tiny_index_def)
  then have "rows_ok tiny_index []" by (simp add: rows_ok_def tiny_index_def U64_def FREE_HEAD_INVALID_def)
  moreover have "table_ok tiny_name {} tiny_index"
    unfolding table_ok_def by (auto simp: tiny_index_def U64_def reach_def bucket_def intro!: exI [of _ 0])
  moreover have "names_ok tiny_name tiny_index"
    by (auto simp: names_ok_def tiny_index_def tiny_name_def name_ok_def)
  ultimately show ?thesis by (auto simp: ni_inv_def)
qed

lemma tiny_cmp: "strcmp_s [65] [65] 64 = 0"
  by (subst strcmp_s_eq) simp_all

lemma tiny_name_ok: "name_ok (name_len_max tiny_index) [65]" "name_ok (name_len_max tiny_index) [66]"
  by (simp_all add: name_ok_def tiny_index_def)

theorem name_index_register_atomic_witness:
  "case name_index_register tiny_name (\<lambda>_. True) tiny_index 8 of (idx', e, out) \<Rightarrow>
     ni_inv tiny_name idx' \<and>
     (case out of
        Some r \<Rightarrow> e = REND_SUCCESS \<and> entries tiny_index r = None \<and> entries idx' = (entries tiny_index)(r \<mapsto> 8)
      | None \<Rightarrow> e \<noteq> REND_SUCCESS \<and> entries idx' = entries tiny_index)"
proof -
  obtain idx' e out where r: "name_index_register tiny_name (\<lambda>_. True) tiny_index 8 = (idx', e, out)"
    by (metis prod_cases3)
  have "tiny_name 8 = Some [66]" by (simp add: tiny_name_def)
  from name_index_register_atomic [OF tiny_inv _ this tiny_name_ok(2) r] r show ?thesis by simp
qed

text \<open>Unregistering a value at its row removes exactly that entry, and does nothing when the row stands
  for something else; the index stays well formed.\<close>

theorem name_index_unregister_exact:
  assumes "ni_inv gn idx"
  shows "ni_inv gn (name_index_unregister gn mem idx v r name) \<and>
         entries (name_index_unregister gn mem idx v r name)
         = (if entries idx r = Some v then (entries idx)(r := None) else entries idx)"
  using unregister_inv [OF assms] by blast

theorem name_index_unregister_exact_witness:
  "ni_inv tiny_name (name_index_unregister tiny_name (\<lambda>_. True) tiny_index 7 0 (Some [65])) \<and>
   entries (name_index_unregister tiny_name (\<lambda>_. True) tiny_index 7 0 (Some [65])) = Map.empty"
proof -
  have "entries tiny_index = [0 \<mapsto> 7]" by (auto simp: entries_def tiny_index_def fun_eq_iff)
  then show ?thesis
    using name_index_unregister_exact [OF tiny_inv, of "\<lambda>_. True" 7 0 "Some [65]"] by simp
qed

text \<open>A lookup token stays good while the index is untouched, and goes stale when its row is
  unregistered: even after the row is given to another value, resolving the old token gives nothing,
  although the generation is compared in 16 bits only.\<close>

theorem name_index_token:
  assumes inv: "ni_inv gn idx" and n: "0 \<notin> set n"
    and look: "name_index_lookup gn hold idx (Some n) = (Some v, Some tok)"
    and small: "length (rows idx) < 2 ^ 32 - 1"
    and w: "name_index_register gn mem (name_index_unregister gn mem idx v (row_index tok) name) w = (idx', e, out)"
  shows "name_index_resolve gn hold idx (Some tok) (Some n) = Some v \<and>
         name_index_resolve gn hold idx' (Some tok) (Some n') = None"
proof -
  obtain r where r: "entries idx r = Some v" "gn v = Some n" "hold v"
      "tok = \<lparr>row_index = r mod 2 ^ 32, row_gen = gen (rows idx ! r) mod 2 ^ 16\<rparr>"
    using look search_exact [OF inv n]
    by (auto simp: name_index_lookup_def Let_def split: option.splits if_splits)
  then have row: "r < length (rows idx)" "used (rows idx ! r)" "storage (rows idx ! r) = v"
    by (auto simp: entries_def split: if_splits)
  have ok: "v \<noteq> 0" "name_ok (name_len_max idx) n" using inv row r(2) by (auto simp: ni_inv_def names_ok_def)
  have tok: "row_index tok = r" "row_index tok \<noteq> 2 ^ 32 - 1" using row(1) small r(4) by simp_all
  have "name_index_resolve gn hold idx (Some tok) (Some n) = Some v"
    using row ok r tok by (simp add: name_index_resolve_def row_live_def strcmp_s_eq name_ok_def Let_def)
  moreover
  let ?u = "name_index_unregister gn mem idx v r name"
  have g: "gen (rows ?u ! r) = (gen (rows idx ! r) + 1) mod U64" by (rule unregister_inv(3) [OF inv r(1)])
  have "r < length (rows ?u)" using unregister_rows [OF inv r(1)] row(1) by simp
  with g register_keeps_gen [OF w [unfolded tok(1)] unregister_inv(1) [OF inv]]
  have "gen (rows idx' ! r) mod 2 ^ 16 \<noteq> gen (rows idx ! r) mod 2 ^ 16" using gen_next_differs by metis
  then have "name_index_resolve gn hold idx' (Some tok) (Some n') = None"
    using r(4) tok by (simp add: name_index_resolve_def Let_def)
  ultimately show ?thesis by simp
qed

theorem name_index_token_witness:
  "name_index_resolve tiny_name (\<lambda>_. True) tiny_index (Some \<lparr>row_index = 0, row_gen = 0\<rparr>) (Some [65]) = Some 7 \<and>
   name_index_resolve tiny_name (\<lambda>_. True)
     (fst (name_index_register tiny_name (\<lambda>_. True)
        (name_index_unregister tiny_name (\<lambda>_. True) tiny_index 7 0 (Some [65])) 7))
     (Some \<lparr>row_index = 0, row_gen = 0\<rparr>) (Some [65]) = None"
proof -
  let ?tok = "\<lparr>row_index = 0, row_gen = 0\<rparr>"
  have look: "name_index_lookup tiny_name (\<lambda>_. True) tiny_index (Some [65]) = (Some 7, Some ?tok)"
    by (simp add: name_index_lookup_def name_index_search_def name_index_ht_find_bucket_def tiny_index_def
        bucket_def row_live_def tiny_name_def Let_def upt_rec tiny_cmp)
  obtain idx' e out where "name_index_register tiny_name (\<lambda>_. True)
      (name_index_unregister tiny_name (\<lambda>_. True) tiny_index 7 (row_index ?tok) (Some [65])) 7 = (idx', e, out)"
    by (metis prod_cases3)
  from name_index_token [OF tiny_inv _ look _ this, of "[65]"] this show ?thesis
    by (simp add: tiny_index_def)
qed

text \<open>Resolving is sound for any token, however old or forged: a value it gives is registered, at the
  token's row, under the name asked for.\<close>

theorem name_index_resolve_sound:
  assumes "ni_inv gn idx" and "0 \<notin> set n"
    and "name_index_resolve gn hold idx (Some tok) (Some n) = Some v"
  shows "entries idx (row_index tok) = Some v \<and> gn v = Some n \<and> hold v"
proof -
  from assms(3) obtain rn where r: "row_index tok < length (rows idx)" "row_live (rows idx ! row_index tok)"
      "gn (storage (rows idx ! row_index tok)) = Some rn" "strcmp_s rn n (name_len_max idx) = 0"
      "v = storage (rows idx ! row_index tok)" "hold v"
    by (auto simp: name_index_resolve_def Let_def split: if_splits option.splits)
  moreover from r assms(1) have "name_ok (name_len_max idx) rn"
    by (auto simp: ni_inv_def names_ok_def row_live_def)
  ultimately have "rn = n" using assms(2) strcmp_s_eq by (auto simp: name_ok_def)
  with r show ?thesis by (auto simp: entries_def row_live_def)
qed

theorem name_index_resolve_sound_witness:
  "entries tiny_index (row_index \<lparr>row_index = 0, row_gen = 0\<rparr>) = Some 7 \<and> tiny_name 7 = Some [65] \<and> True"
  by (rule name_index_resolve_sound [where hold = "\<lambda>_. True", OF tiny_inv])
     (simp_all add: name_index_resolve_def tiny_index_def tiny_name_def row_live_def Let_def tiny_cmp)

section \<open>Growth places a new row twice\<close>

text \<open>
  \<^verbatim>\<open>name_index_register\<close> marks the new row as used before it inserts it into the table. When the
  insertion grows the table, rehashing has already placed the row, and it is placed again.
\<close>

definition twice :: "name_index \<Rightarrow> nat \<Rightarrow> bool" where
  "twice idx r \<longleftrightarrow> (\<exists>b1 b2. b1 < length (ht idx) \<and> b2 < length (ht idx) \<and> b1 \<noteq> b2 \<and>
     ht idx ! b1 = HT_ROW r \<and> ht idx ! b2 = HT_ROW r)"

lemma twice_insert:
  assumes ok: "table_ok gn {} idx" and r: "r < length (rows idx)" "row_live (rows idx ! r)"
    and b: "probe_free (ht idx) (ht_mask idx) h = Some b"
  shows "twice (idx\<lparr>ht_tombs := t, ht := (ht idx)[b := HT_ROW r]\<rparr>) r"
proof -
  have reach: "reach (ht idx) (ht_mask idx) (row_hash gn idx r) r" using ok r by (simp add: table_ok_def)
  then have "ht idx \<noteq> []" by (auto simp: reach_def)
  with ok have rng: "in_range (ht idx) (ht_mask idx)" by (metis table_cases)
  from reach obtain b1 where "ht idx ! b1 = HT_ROW r" "b1 < length (ht idx)"
    using rng by (auto simp: reach_def in_range_def)
  moreover have "free_slot (ht idx ! b)" "b < length (ht idx)"
    using probe_free_SomeD [OF b] rng by (auto simp: in_range_def)
  moreover from calculation have "b1 \<noteq> b" by (auto simp: free_slot_def)
  ultimately show ?thesis unfolding twice_def by (intro exI [of _ b1] exI [of _ b]) simp
qed

lemma ht_insert_twice:
  assumes "name_index_ht_insert gn mem idx r name = (idx', REND_SUCCESS)" and "table_ok gn {} idx"
    and "r < length (rows idx)" "row_live (rows idx ! r)"
  shows "twice idx' r"
  using assms
proof (induction gn mem idx r name arbitrary: idx' rule: name_index_ht_insert.induct)
  case (1 gn mem idx r name)
  obtain idx1 e1 where g: "name_index_maybe_grow_ht gn mem idx = (idx1, e1)" by fastforce
  have e1: "e1 = REND_SUCCESS" using 1(2) g by (auto simp: name_index_ht_insert.simps [of gn mem idx] split: if_splits)
  note g1 = maybe_grow_spec [OF g 1(3)]
  have r1: "r < length (rows idx1)" "row_live (rows idx1 ! r)" using g1(2) 1(4,5) by (simp_all add: same_rows_def)
  let ?h = "name_index_hash_name (name_len_max idx1) name"
  show ?case
  proof (cases "probe_free (ht idx1) (ht_mask idx1) ?h")
    case (Some b)
    with 1(2) g e1 show ?thesis
      using twice_insert [OF g1(1) r1 Some] by (auto simp: name_index_ht_insert.simps [of gn mem idx])
  next
    case None
    obtain idx2 e2 where r: "name_index_ht_rehash gn mem idx1 ((length (ht idx1) * 2) mod U64) = (idx2, e2)" by fastforce
    have e2: "e2 = REND_SUCCESS" and nx: "name_index_ht_insert gn mem idx2 r name = (idx', REND_SUCCESS)"
      using 1(2) g e1 None r by (auto simp: name_index_ht_insert.simps [of gn mem idx] split: if_splits)
    obtain k where k: "length (ht idx1) = 2 ^ k" using g1(1,3) e1 by (auto simp: table_ok_def)
    with r double_cap [OF g1(1) k] have "name_index_ht_rehash gn mem idx1 (2 ^ Suc k) = (idx2, e2)" by simp
    note r2 = rehash_table_ok [OF this g1(1)]
    have "r < length (rows idx2)" "row_live (rows idx2 ! r)" using r1 r2(3) by (simp_all add: same_rows_def)
    with 1(1) [OF g [symmetric] refl _ None r [symmetric] refl _ nx r2(1)] e1 e2 show ?thesis by simp
  qed
qed

text \<open>When a registration makes the hash table grow, the new row ends up in two buckets: the rehash
  finds the row already marked as used and places it, and the insertion places it again. Unregistering
  removes one of the two only, so the other stays as a stale bucket until the next rehash.\<close>

theorem name_index_grow_places_twice:
  assumes inv: "ni_inv gn idx" and rows: "free_head idx < length (rows idx)" and v: "v \<noteq> 0" "gn v = Some n"
    and n: "name_ok (name_len_max idx) n" and cap: "ht idx \<noteq> []"
    and grow: "(live idx + 1) * 100 mod U64 > length (ht idx) * 70 mod U64"
    and reg: "name_index_register gn mem idx v = (idx', REND_SUCCESS, out)"
  shows "twice idx' (free_head idx)"
proof -
  define r where "r = free_head idx"
  obtain fl0 where "rows_ok idx fl0" using inv by (auto simp: ni_inv_def)
  moreover from this rows have "fl0 \<noteq> []" by (auto simp: rows_ok_def FREE_HEAD_INVALID_def U64_def)
  ultimately obtain fl where fl: "rows_ok idx (r # fl)" by (cases fl0) (auto simp: rows_ok_def r_def)
  have inval: "r \<noteq> FREE_HEAD_INVALID" "\<not> used (rows idx ! r)" using fl by (auto simp: rows_ok_def FREE_HEAD_INVALID_def U64_def)
  define idx1 where "idx1 = idx\<lparr>free_head := storage (rows idx ! r),
      rows := (rows idx)[r := (rows idx ! r)\<lparr>storage := v, used := True\<rparr>], live := (live idx + 1) mod U64\<rparr>"
  have t: "table_ok gn {r} idx1" unfolding idx1_def
    using inv take_row(3) [of idx r fl gn v n, OF fl _ _ v n] by (simp add: ni_inv_def)
  have live: "r < length (rows idx1)" "row_live (rows idx1 ! r)" using rows v by (simp_all add: idx1_def r_def row_live_def)
  have reg': "register_row gn mem idx v = (idx', REND_SUCCESS, out)"
    using reg v n rows inval cap by (auto simp: name_index_register_def name_index_bootstrap_def name_ok_def c_text_name r_def split: if_splits)
  then obtain idx2 where ins: "name_index_ht_insert gn mem idx1 r (gn v) = (idx2, REND_SUCCESS)"
      "idx' = call (has_on_register idx2) (OnRegister v) idx2"
    using rows inval by (auto simp: register_row_def Let_def idx1_def r_def split: if_splits prod.splits)
  obtain idx3 e3 where g: "name_index_maybe_grow_ht gn mem idx1 = (idx3, e3)" by fastforce
  have e3: "e3 = REND_SUCCESS" using ins(1) g by (auto simp: name_index_ht_insert.simps [of gn mem idx1] split: if_splits)
  obtain k where k: "length (ht idx1) = 2 ^ k" using t cap by (auto simp: table_ok_def idx1_def)
  have "(live idx + 1) mod U64 = live idx + 1"
    using fl card_used_rows [of "rows idx"] by (simp add: rows_ok_def U64_def)
  with grow g cap double_cap [OF t k] k have "name_index_ht_rehash gn mem idx1 (2 ^ Suc k) = (idx3, e3)"
    by (simp add: name_index_maybe_grow_ht_def Let_def idx1_def split: if_splits)
  note r3 = rehash_table_ok [OF this t]
  note g1 = maybe_grow_spec [OF g t]
  have live3: "r < length (rows idx3)" "row_live (rows idx3 ! r)" using live r3(3) by (simp_all add: same_rows_def)
  have "twice idx2 r"
  proof (cases "probe_free (ht idx3) (ht_mask idx3) (name_index_hash_name (name_len_max idx3) (gn v))")
    case (Some b)
    with ins(1) g e3 show ?thesis
      using twice_insert [OF r3(2) live3 Some] by (auto simp: name_index_ht_insert.simps [of gn mem idx1])
  next
    case None
    obtain idx4 e4 where r: "name_index_ht_rehash gn mem idx3 ((length (ht idx3) * 2) mod U64) = (idx4, e4)" by fastforce
    have e4: "e4 = REND_SUCCESS" and nx: "name_index_ht_insert gn mem idx4 r (gn v) = (idx2, REND_SUCCESS)"
      using ins(1) g e3 None r by (auto simp: name_index_ht_insert.simps [of gn mem idx1] split: if_splits)
    obtain j where j: "length (ht idx3) = 2 ^ j" using g1(1,3) e3 by (auto simp: table_ok_def)
    with r double_cap [OF g1(1) j] have "name_index_ht_rehash gn mem idx3 (2 ^ Suc j) = (idx4, e4)" by simp
    note r4 = rehash_table_ok [OF this g1(1)]
    show ?thesis using live3 r4(3) e4
      by (intro ht_insert_twice [OF nx r4(2)]) (simp_all add: same_rows_def)
  qed
  then show ?thesis using ins(2) by (simp add: twice_def r_def)
qed

text \<open>The one-bucket index with a second, free row.\<close>

definition tiny_index2 :: name_index where
  "tiny_index2 = tiny_index\<lparr>rows := [\<lparr>gen = 0, used = True, storage = 7\<rparr>,
     \<lparr>gen = 0, used = False, storage = FREE_HEAD_INVALID\<rparr>], free_head := 1\<rparr>"

lemma tiny2_inv: "ni_inv tiny_name tiny_index2"
proof -
  have "used_rows (rows tiny_index2) = {0}"
    by (auto simp: used_rows_def tiny_index2_def tiny_index_def less_Suc_eq)
  then have "rows_ok tiny_index2 [1]"
    by (auto simp: rows_ok_def tiny_index2_def tiny_index_def U64_def less_Suc_eq)
  moreover have "table_ok tiny_name {} tiny_index2"
    unfolding table_ok_def
    by (auto simp: tiny_index2_def tiny_index_def U64_def reach_def bucket_def row_live_def less_Suc_eq
        intro!: exI [of _ 0])
  moreover have "names_ok tiny_name tiny_index2"
    by (auto simp: names_ok_def tiny_index2_def tiny_index_def tiny_name_def name_ok_def less_Suc_eq)
  ultimately show ?thesis by (auto simp: ni_inv_def)
qed

lemma tiny_hashes:
  "name_index_hash_name 64 (Some [65]) = 3289118412" "name_index_hash_name 64 (Some [66]) = 3339451269"
  by (simp_all add: name_index_hash_name_def c_text_def)

lemmas table_eval = name_index_maybe_grow_ht_def name_index_ht_rehash_def U64_def Let_def row_live_def
  tiny_name_def tiny_hashes probe_free_def bucket_def free_slot_def upt_rec

lemma tiny2_register:
  "\<exists>idx'. name_index_register tiny_name (\<lambda>_. True) tiny_index2 8 = (idx', REND_SUCCESS, Some 1)"
  apply (simp add: name_index_register_def tiny_index2_def tiny_index_def tiny_name_def c_text_def
      name_index_bootstrap_def FREE_HEAD_INVALID_def U64_def register_row_def Let_def)
  apply (subst name_index_ht_insert.simps)
  apply (simp add: table_eval)
  apply (subst name_index_ht_insert.simps)
  apply (simp add: table_eval)
  done

theorem name_index_grow_places_twice_witness:
  "twice (fst (name_index_register tiny_name (\<lambda>_. True) tiny_index2 8)) 1"
proof -
  obtain idx' where reg: "name_index_register tiny_name (\<lambda>_. True) tiny_index2 8 = (idx', REND_SUCCESS, Some 1)"
    using tiny2_register by blast
  have "twice idx' (free_head tiny_index2)"
    by (rule name_index_grow_places_twice [where n = "[66]", OF tiny2_inv _ _ _ _ _ _ reg])
       (simp_all add: tiny_index2_def tiny_index_def tiny_name_def name_ok_def U64_def)
  with reg show ?thesis by (simp add: tiny_index2_def)
qed

end
