(* ===== verification/Port.thy ===== *)
theory Port
  imports Name_Index Message
begin

text \<open>
  Message ports and the port table, \<^verbatim>\<open>kernel/ipc/port.c\<close> and \<^verbatim>\<open>include/rendezvos/ipc/port.h\<close>.

  The first part states what a client relies on of a name table (locale \<open>name_table\<close>), with the
  name registry as its provider. The second models the port table: ports in a map from addresses,
  the registry's callbacks applied to them, registration, unregistration, lookup and tokens. The
  third models \<^verbatim>\<open>port_ops_begin\<close>, \<^verbatim>\<open>port_ops_end\<close> and the draining wait of \<^verbatim>\<open>unregister_port\<close> one
  atomic access at a time, for any number of threads.

  The admission hook \<^verbatim>\<open>ops_allow\<close> is a parameter. Waking the threads that are queued on a closing
  port (\<^verbatim>\<open>port_clean_thread_queue\<close>) belongs to the thread component and is not part of this model.
\<close>

section \<open>Name tables\<close>

locale name_table =
  fixes inv :: "'s \<Rightarrow> bool" and ents :: "'s \<Rightarrow> nat \<rightharpoonup> nat" and name :: "nat \<Rightarrow> 'n option" and good :: "'s \<Rightarrow> 'n \<Rightarrow> bool"
    and search :: "'s \<Rightarrow> 'n \<Rightarrow> (nat \<times> nat) option"
    and insert :: "'s \<Rightarrow> nat \<Rightarrow> 's \<times> nat option" and remove :: "'s \<Rightarrow> nat \<Rightarrow> nat \<Rightarrow> 's"
  assumes search_law: "inv s \<Longrightarrow> good s n \<Longrightarrow>
      (case search s n of Some (v, r) \<Rightarrow> ents s r = Some v \<and> name v = Some n
                        | None \<Rightarrow> (\<forall>r v. ents s r = Some v \<longrightarrow> name v \<noteq> Some n))"
    and insert_law: "inv s \<Longrightarrow> name v = Some n \<Longrightarrow> good s n \<Longrightarrow> v \<noteq> 0 \<Longrightarrow> insert s v = (s', out) \<Longrightarrow>
      inv s' \<and> (case out of Some r \<Rightarrow> ents s r = None \<and> ents s' = (ents s)(r \<mapsto> v) | None \<Rightarrow> ents s' = ents s)"
    and remove_law: "inv s \<Longrightarrow> inv (remove s v r) \<and>
      ents (remove s v r) = (if ents s r = Some v then (ents s)(r := None) else ents s)"
begin

definition unique_names :: "'s \<Rightarrow> bool" where
  "unique_names s \<longleftrightarrow>
     (\<forall>r r' v v'. ents s r = Some v \<longrightarrow> ents s r' = Some v' \<longrightarrow> name v = name v' \<longrightarrow> r = r')"

lemma insert_if_absent:
  assumes "inv s" "unique_names s" "name v = Some n" "good s n" "v \<noteq> 0" "search s n = None" "insert s v = (s', out)"
  shows "inv s'" "unique_names s'"
    "case out of Some r \<Rightarrow> ents s r = None \<and> ents s' = (ents s)(r \<mapsto> v) | None \<Rightarrow> ents s' = ents s"
proof -
  have absent: "\<forall>r v'. ents s r = Some v' \<longrightarrow> name v' \<noteq> Some n" using search_law [OF assms(1,4)] assms(6) by simp
  have i: "inv s'" "case out of Some r \<Rightarrow> ents s r = None \<and> ents s' = (ents s)(r \<mapsto> v) | None \<Rightarrow> ents s' = ents s"
    using insert_law [OF assms(1,3,4,5,7)] by blast+
  then show "inv s'" "case out of Some r \<Rightarrow> ents s r = None \<and> ents s' = (ents s)(r \<mapsto> v) | None \<Rightarrow> ents s' = ents s"
    by blast+
  show "unique_names s'"
    using i(2) assms(2,3) absent unfolding unique_names_def by (auto split: option.splits if_splits) metis+
qed

lemma remove_absent:
  assumes "inv s" "unique_names s" "good s n" "search s n = Some (v, r)"
  shows "inv (remove s v r)" "unique_names (remove s v r)" "ents (remove s v r) = (ents s)(r := None)"
    "\<forall>r' v'. ents (remove s v r) r' = Some v' \<longrightarrow> name v' \<noteq> Some n"
proof -
  have hit: "ents s r = Some v" "name v = Some n" using search_law [OF assms(1,3)] assms(4) by auto
  with remove_law [OF assms(1), of v r]
  have i: "inv (remove s v r)" "ents (remove s v r) = (ents s)(r := None)" by auto
  then show "inv (remove s v r)" "ents (remove s v r) = (ents s)(r := None)" by blast+
  show "unique_names (remove s v r)" using i(2) assms(2) by (auto simp: unique_names_def split: if_splits)
  show "\<forall>r' v'. ents (remove s v r) r' = Some v' \<longrightarrow> name v' \<noteq> Some n"
    using i(2) assms(2) hit by (auto simp: unique_names_def split: if_splits)
qed

end

text \<open>The registry with a fixed naming is a name table.\<close>

definition good_name :: "name_index \<Rightarrow> u8 list \<Rightarrow> bool" where
  "good_name idx n \<longleftrightarrow> name_ok (name_len_max idx) n"

definition register_out :: "namef \<Rightarrow> (nat \<Rightarrow> bool) \<Rightarrow> name_index \<Rightarrow> nat \<Rightarrow> name_index \<times> nat option" where
  "register_out gn mem idx v = (case name_index_register gn mem idx v of (idx', e, out) \<Rightarrow> (idx', out))"

interpretation registry: name_table "ni_inv gn" entries gn good_name "\<lambda>idx n. name_index_search gn idx (Some n)"
    "register_out gn mem" "\<lambda>idx v r. name_index_unregister gn mem idx v r (gn v)" for gn mem
proof (unfold_locales, goal_cases)
  case (1 s n)
  then show ?case using search_exact [of gn s n] by (auto simp: good_name_def name_ok_def split: option.splits)
next
  case (2 s v n s' out)
  then show ?case using register_inv [of gn s v n mem]
    by (auto simp: register_out_def register_result_def good_name_def split: prod.splits option.splits)
next
  case (3 s v r)
  then show ?case using unregister_inv(1,2) [of gn s mem v r "gn v"] by auto
qed

section \<open>Ports\<close>

datatype port_life = LIFE_ACTIVE | LIFE_REGISTERED | LIFE_CLOSING | LIFE_CLOSED

datatype port_ops_type = PORT_OPS_SEND | PORT_OPS_RECV | PORT_OPS_LOOKUP | PORT_OPS_REGISTER

record port =
  p_name :: "u8 list"
  p_ref :: int
  p_table :: bool       \<comment> \<open>whether the pointer to the owning table is set\<close>
  service_id :: u16
  ops_life :: port_life
  ops_count :: int

record port_table =
  ports :: "nat \<rightharpoonup> port"
  by_name :: name_index

definition PORT_NAME_LEN_MAX :: nat where "PORT_NAME_LEN_MAX = 64"

definition port_get_name :: "(nat \<rightharpoonup> port) \<Rightarrow> namef" where
  "port_get_name ps v = (if v = 0 then None else map_option p_name (ps v))"

definition port_hold :: "(nat \<rightharpoonup> port) \<Rightarrow> nat \<Rightarrow> bool" where
  "port_hold ps v = (v \<noteq> 0 \<and> (case ps v of None \<Rightarrow> False | Some p \<Rightarrow> ref_get_not_zero (p_ref p) \<noteq> None))"

definition port_ops_set_life_with_expect :: "port \<Rightarrow> port_life \<Rightarrow> port_life \<Rightarrow> port" where
  "port_ops_set_life_with_expect p expect target = (if ops_life p = expect then p\<lparr>ops_life := target\<rparr> else p)"

definition port_is_registered :: "port \<Rightarrow> bool" where
  "port_is_registered p \<longleftrightarrow> ops_life p = LIFE_REGISTERED"

definition service_id_from_name :: "u8 list \<Rightarrow> u16" where
  "service_id_from_name name =
     (if c_text name = [] then 0
      else
        let h = foldl (\<lambda>h b. (h XOR ucast b) * 16777619) (2166136261 :: u32) (take PORT_NAME_LEN_MAX (c_text name));
            i = ucast (h XOR drop_bit 16 h) :: u16
        in if i = 0 then 1 else i)"

text \<open>\<^verbatim>\<open>create_message_port\<close>; the arguments are what the two allocations and the hook \<open>init\<close> return.\<close>

definition create_message_port ::
    "nat option \<Rightarrow> bool \<Rightarrow> error_t \<Rightarrow> port_table \<Rightarrow> u8 list option \<Rightarrow> port_table \<times> nat option" where
  "create_message_port m_alloc dummy_ok init_e s name =
     (case name of
        None \<Rightarrow> (s, None)
      | Some n \<Rightarrow>
          if length (c_text n) = 0 \<or> length (c_text n) \<ge> PORT_NAME_LEN_MAX then (s, None)
          else (case m_alloc of
              None \<Rightarrow> (s, None)
            | Some a \<Rightarrow>
                if \<not> dummy_ok then (s, None)
                else if init_e \<noteq> REND_SUCCESS then (s, None)
                else (s\<lparr>ports := (ports s)(a \<mapsto> \<lparr>p_name = c_text n, p_ref = ref_init, p_table = False,
                         service_id = service_id_from_name n, ops_life = LIFE_ACTIVE, ops_count = 0\<rparr>)\<rparr>, Some a)))"

text \<open>\<^verbatim>\<open>ref_put(&port->refcount, free_message_port_ref)\<close>; \<open>None\<close> when the port is gone.\<close>

definition put_port :: "(nat \<rightharpoonup> port) \<Rightarrow> nat \<Rightarrow> (nat \<rightharpoonup> port) option" where
  "put_port ps v =
     (case ps v of
        None \<Rightarrow> None
      | Some p \<Rightarrow>
          let (r, free) = ref_put (p_ref p) True in
          Some (if free then ps(v := None) else ps(v \<mapsto> p\<lparr>p_ref := r\<rparr>)))"

fun port_callback :: "(nat \<rightharpoonup> port) \<Rightarrow> callback \<Rightarrow> nat \<rightharpoonup> port" where
  "port_callback ps (OnRegister v) =
     (case ps v of
        None \<Rightarrow> ps
      | Some p \<Rightarrow> ps(v \<mapsto> (port_ops_set_life_with_expect p LIFE_ACTIVE LIFE_REGISTERED)\<lparr>p_table := True\<rparr>))"
| "port_callback ps (OnUnregister v) =
     (case ps v of
        None \<Rightarrow> ps
      | Some p \<Rightarrow> ps(v \<mapsto> port_ops_set_life_with_expect (p\<lparr>p_table := False\<rparr>) LIFE_REGISTERED LIFE_CLOSING))"
| "port_callback ps (Drop v) = (case put_port ps v of None \<Rightarrow> ps | Some ps' \<Rightarrow> ps')"

text \<open>Apply the callbacks an index operation has made to the ports.\<close>

definition flush :: "(nat \<rightharpoonup> port) \<Rightarrow> name_index \<Rightarrow> port_table" where
  "flush ps idx = \<lparr>ports = foldl port_callback ps (calls idx), by_name = idx\<lparr>calls := []\<rparr>\<rparr>"

definition port_table_init :: "(nat \<Rightarrow> bool) \<Rightarrow> (nat \<rightharpoonup> port) \<Rightarrow> port_table" where
  "port_table_init mem ps =
     \<lparr>ports = ps, by_name = name_index_init (port_get_name ps) mem PORT_NAME_LEN_MAX True True True\<rparr>"

definition port_table_port_is_live :: "port_table \<Rightarrow> u8 list \<Rightarrow> nat \<Rightarrow> bool" where
  "port_table_port_is_live s name p \<longleftrightarrow>
     (case name_index_search (port_get_name (ports s)) (by_name s) (Some name) of
        None \<Rightarrow> False
      | Some (v, _) \<Rightarrow> v = p \<and> (case ports s p of None \<Rightarrow> False | Some pt \<Rightarrow> port_is_registered pt))"

text \<open>\<open>None\<close>: the port was freed.\<close>

definition register_port ::
    "(nat \<Rightarrow> port_ops_type \<Rightarrow> error_t) \<Rightarrow> (nat \<Rightarrow> bool) \<Rightarrow> port_table \<Rightarrow> nat \<Rightarrow> (port_table \<times> error_t) option" where
  "register_port allow mem s p =
     (case ports s p of
        None \<Rightarrow> None
      | Some pt \<Rightarrow>
          let gn = port_get_name (ports s) in
          if p_name pt = [] then Some (s, E_IN_PARAM)
          else (case name_index_search gn (by_name s) (Some (p_name pt)) of
              Some (existing, _) \<Rightarrow> Some (s, if existing = p then REND_SUCCESS else E_RENDEZVOS)
            | None \<Rightarrow>
                if allow p PORT_OPS_REGISTER \<noteq> REND_SUCCESS then Some (s, allow p PORT_OPS_REGISTER)
                else (case name_index_register gn mem (by_name s) p of
                    (idx, e, None) \<Rightarrow> Some (flush (ports s) idx, E_RENDEZVOS)
                  | (idx, e, Some r) \<Rightarrow>
                      let s = flush (ports s) idx in
                      (case ports s p of
                         None \<Rightarrow> None
                       | Some pt \<Rightarrow>
                           (case ref_get_not_zero (p_ref pt) of
                              None \<Rightarrow>
                                Some (flush (ports s) (name_index_register_abort (port_get_name (ports s)) mem (by_name s) r p),
                                      E_RENDEZVOS)
                            | Some n \<Rightarrow> Some (s\<lparr>ports := (ports s)(p \<mapsto> pt\<lparr>p_ref := n\<rparr>)\<rparr>, REND_SUCCESS))))))"

text \<open>
  \<^verbatim>\<open>unregister_port\<close> up to the unlock, and after the wait for \<open>ops_count\<close> to be zero. The first
  part gives the port that is being closed, \<open>None\<close> when there is nothing to do.
\<close>

definition unregister_port_begin :: "(nat \<Rightarrow> bool) \<Rightarrow> port_table \<Rightarrow> u8 list \<Rightarrow> port_table \<times> nat option" where
  "unregister_port_begin mem s name =
     (let gn = port_get_name (ports s) in
      case name_index_search gn (by_name s) (Some name) of
        None \<Rightarrow> (s, None)
      | Some (p, r) \<Rightarrow>
          (case ports s p of
             None \<Rightarrow> (s, None)
           | Some pt \<Rightarrow>
               if \<not> port_is_registered pt then (s, None)
               else (flush (ports s) (name_index_unregister gn mem (by_name s) p r (Some name)), Some p)))"

definition unregister_port_finish :: "port_table \<Rightarrow> nat \<Rightarrow> port_table option" where
  "unregister_port_finish s p =
     (case ports s p of
        None \<Rightarrow> None
      | Some pt \<Rightarrow>
          map_option (\<lambda>ps. s\<lparr>ports := ps\<rparr>)
            (put_port ((ports s)(p \<mapsto> port_ops_set_life_with_expect pt LIFE_CLOSING LIFE_CLOSED)) p))"

definition port_lookup_finish ::
    "(nat \<Rightarrow> port_ops_type \<Rightarrow> error_t) \<Rightarrow> port_table \<Rightarrow> nat option \<Rightarrow> port_table \<times> nat option" where
  "port_lookup_finish allow s port =
     (case port of
        None \<Rightarrow> (s, None)
      | Some p \<Rightarrow>
          if allow p PORT_OPS_LOOKUP \<noteq> REND_SUCCESS then
            (case put_port (ports s) p of None \<Rightarrow> (s, None) | Some ps \<Rightarrow> (s\<lparr>ports := ps\<rparr>, None))
          else (s, Some p))"

text \<open>The effect of a successful \<open>hold\<close> on the port.\<close>

definition take_hold :: "port_table \<Rightarrow> nat option \<Rightarrow> port_table" where
  "take_hold s v =
     (case v of
        None \<Rightarrow> s
      | Some p \<Rightarrow> (case ports s p of None \<Rightarrow> s | Some pt \<Rightarrow> s\<lparr>ports := (ports s)(p \<mapsto> pt\<lparr>p_ref := p_ref pt + 1\<rparr>)\<rparr>))"

definition port_table_lookup_with_token ::
    "(nat \<Rightarrow> port_ops_type \<Rightarrow> error_t) \<Rightarrow> port_table \<Rightarrow> u8 list \<Rightarrow> port_table \<times> nat option \<times> name_index_token option" where
  "port_table_lookup_with_token allow s name =
     (let (v, tok) = name_index_lookup (port_get_name (ports s)) (port_hold (ports s)) (by_name s) (Some name);
          (s', v') = port_lookup_finish allow (take_hold s v) v
      in (s', v', tok))"

definition port_table_lookup ::
    "(nat \<Rightarrow> port_ops_type \<Rightarrow> error_t) \<Rightarrow> port_table \<Rightarrow> u8 list \<Rightarrow> port_table \<times> nat option" where
  "port_table_lookup allow s name =
     (let (v, _) = name_index_lookup (port_get_name (ports s)) (port_hold (ports s)) (by_name s) (Some name)
      in port_lookup_finish allow (take_hold s v) v)"

definition port_table_resolve_token ::
    "(nat \<Rightarrow> port_ops_type \<Rightarrow> error_t) \<Rightarrow> port_table \<Rightarrow> name_index_token option \<Rightarrow> u8 list \<Rightarrow> port_table \<times> nat option" where
  "port_table_resolve_token allow s tok name =
     (case tok of
        None \<Rightarrow> port_table_lookup allow s name
      | Some t \<Rightarrow>
          let v = name_index_resolve (port_get_name (ports s)) (port_hold (ports s)) (by_name s) (Some t) (Some name)
          in port_lookup_finish allow (take_hold s v) v)"

section \<open>What an index operation leaves of the hooks\<close>

definition hooks :: "name_index \<Rightarrow> nat \<times> bool \<times> bool \<times> bool" where
  "hooks idx = (name_len_max idx, has_drop idx, has_on_register idx, has_on_unregister idx)"

lemma same_rows_hooks: "same_rows idx idx' \<Longrightarrow> hooks idx' = hooks idx \<and> calls idx' = calls idx"
  by (simp add: same_rows_def hooks_def)

lemma grow_hooks: "name_index_grow_row_array mem idx = (idx', e) \<Longrightarrow> hooks idx' = hooks idx \<and> calls idx' = calls idx"
  by (auto simp: name_index_grow_row_array_def hooks_def Let_def split: if_splits)

lemma rehash_hooks: "name_index_ht_rehash gn mem idx c = (idx', e) \<Longrightarrow> hooks idx' = hooks idx \<and> calls idx' = calls idx"
  by (auto simp: name_index_ht_rehash_def hooks_def Let_def split: if_splits option.splits)

lemma bootstrap_hooks: "name_index_bootstrap gn mem idx = (idx', e) \<Longrightarrow> hooks idx' = hooks idx \<and> calls idx' = calls idx"
  by (auto simp: name_index_bootstrap_def Let_def split: if_splits prod.splits dest!: grow_hooks rehash_hooks)

lemma register_row_hooks:
  assumes inv: "ni_inv gn idx" and "register_row gn mem idx v = (idx', e, out)"
  shows "hooks idx' = hooks idx \<and>
    calls idx' = calls idx @ (if out \<noteq> None \<and> has_on_register idx then [OnRegister v] else [])"
proof (cases "free_head idx < length (rows idx) \<and> \<not> used (rows idx ! free_head idx)")
  case False
  then have "register_row gn mem idx v = (idx, E_RENDEZVOS, None)" by (auto simp: register_row_def Let_def)
  with assms(2) show ?thesis by simp
next
  case True
  define f where "f = free_head idx"
  define idx1 where "idx1 = idx\<lparr>free_head := storage (rows idx ! f),
      rows := (rows idx)[f := (rows idx ! f)\<lparr>storage := v, used := True\<rparr>], live := (live idx + 1) mod U64\<rparr>"
  obtain idx2 e2 where ins: "name_index_ht_insert gn mem idx1 f (gn v) = (idx2, e2)" by fastforce
  have "table_ok gn {f} idx1"
    using inv True by (auto simp: ni_inv_def table_ok_def idx1_def row_hash_def nth_list_update f_def)
  with ht_insert_spec [OF ins] True have "same_rows idx1 idx2" by (simp add: idx1_def f_def)
  then have "hooks idx2 = hooks idx" "calls idx2 = calls idx"
    by (auto dest!: same_rows_hooks simp: idx1_def hooks_def)
  with assms(2) True ins show ?thesis
    by (auto simp: register_row_def Let_def idx1_def f_def hooks_def call_def split: if_splits)
qed

lemma register_hooks:
  assumes inv: "ni_inv gn idx" and "name_index_register gn mem idx v = (idx', e, out)"
  shows "hooks idx' = hooks idx \<and>
    calls idx' = calls idx @ (if out \<noteq> None \<and> has_on_register idx then [OnRegister v] else [])"
proof -
  obtain idx1 e1 where b: "name_index_bootstrap gn mem idx = (idx1, e1)" by fastforce
  obtain idx2 e2 where g: "(if free_head idx1 = FREE_HEAD_INVALID then name_index_grow_row_array mem idx1
      else (idx1, REND_SUCCESS)) = (idx2, e2)" by fastforce
  have h1: "hooks idx1 = hooks idx" "calls idx1 = calls idx" "ni_inv gn idx1"
    using bootstrap_hooks [OF b] bootstrap_inv [OF b inv] by auto
  have h2: "hooks idx2 = hooks idx" "calls idx2 = calls idx" "ni_inv gn idx2"
    using g h1 grow_hooks [of mem idx1 idx2 e2] grow_row_array_inv(1) [of mem idx1 idx2 e2 gn] by (auto split: if_splits)
  have eq: "name_index_register gn mem idx v =
     (if v = 0 \<or> (case gn v of None \<Rightarrow> True | Some n \<Rightarrow> c_text n = []) then (idx, E_IN_PARAM, None)
      else if e1 \<noteq> REND_SUCCESS then (idx1, e1, None) else if e2 \<noteq> REND_SUCCESS then (idx2, e2, None)
      else register_row gn mem idx2 v)"
    using b g by (simp add: name_index_register_def)
  from h2 have on: "has_on_register idx2 = has_on_register idx" by (simp add: hooks_def)
  show ?thesis
    using assms(2) h1 h2 on register_row_hooks [OF h2(3), of mem v idx' e out] by (auto simp: eq split: if_splits)
qed

lemma unregister_hooks:
  assumes inv: "ni_inv gn idx" and r: "entries idx r = Some v"
  shows "hooks (name_index_unregister gn mem idx v r name) = hooks idx \<and>
    calls (name_index_unregister gn mem idx v r name) = calls idx @ (if has_on_unregister idx then [OnUnregister v] else [])"
proof -
  obtain fl where fl: "rows_ok idx fl" "names_ok gn idx" "table_ok gn {} idx" using inv by (auto simp: ni_inv_def)
  define idx1 where "idx1 = (if name \<noteq> None then name_index_ht_remove idx r name else idx)"
  have same: "same_rows idx idx1" and ok: "table_ok gn {r} idx1"
    using ht_remove_spec [OF fl(3)] table_ok_mono [OF fl(3), of "{r}"] by (auto simp: idx1_def)
  have u: "r < length (rows idx1)" "used (rows idx1 ! r)"
    using r same by (auto simp: entries_def same_rows_def split: if_splits)
  define row where "row = (rows idx1 ! r)\<lparr>used := False, gen := (gen (rows idx1 ! r) + 1) mod U64, storage := free_head idx1\<rparr>"
  define idx2 where "idx2 = (call (has_on_unregister idx1) (OnUnregister v) idx1)
      \<lparr>rows := (rows idx1)[r := row], free_head := r, live := (if live idx1 \<noteq> 0 then live idx1 - 1 else 0)\<rparr>"
  have "ni_inv gn idx2"
    using put_row(1) [OF rows_ok_same [OF fl(1) same] ok names_ok_same [OF fl(2) same] u, of row idx2]
    by (simp add: idx2_def row_def)
  note same_rows_hooks [OF maybe_shrink_inv(3) [OF this, of mem]]
  moreover have "release_row gn mem idx1 r v = name_index_maybe_shrink_ht gn mem idx2"
    by (simp add: release_row_def idx2_def row_def Let_def)
  ultimately have "hooks (release_row gn mem idx1 r v) = hooks idx2" "calls (release_row gn mem idx1 r v) = calls idx2"
    by simp_all
  moreover have "name_index_unregister gn mem idx v r name = release_row gn mem idx1 r v"
    using r by (auto simp: name_index_unregister_def idx1_def entries_def Let_def split: if_splits)
  moreover have "hooks idx2 = hooks idx1" "calls idx2 = calls idx1 @ (if has_on_unregister idx1 then [OnUnregister v] else [])"
    by (simp_all add: idx2_def hooks_def call_def)
  ultimately show ?thesis using same_rows_hooks [OF same] by (simp add: hooks_def)
qed

lemma ni_inv_cong:
  assumes inv: "ni_inv gn idx" and same: "\<forall>v \<in> ran (entries idx). gn' v = gn v"
  shows "ni_inv gn' idx"
proof -
  have eq: "gn' (storage (rows idx ! i)) = gn (storage (rows idx ! i))" if "i < length (rows idx)" "used (rows idx ! i)" for i
  proof -
    have "entries idx i = Some (storage (rows idx ! i))" using that by (simp add: entries_def)
    then show ?thesis using same ranI by metis
  qed
  have "names_ok gn' idx" using inv eq by (simp add: ni_inv_def names_ok_def)
  moreover have "table_ok gn' {} idx" using inv eq by (simp add: ni_inv_def table_ok_def row_hash_def row_live_def)
  ultimately show ?thesis using inv by (auto simp: ni_inv_def)
qed

section \<open>The port table invariant\<close>

definition registered :: "port_table \<Rightarrow> nat \<Rightarrow> bool" where
  "registered s p \<longleftrightarrow> p \<in> ran (entries (by_name s))"

text \<open>\<open>ext p\<close> is the number of references to \<open>p\<close> held outside the table.\<close>

definition port_ok :: "(nat \<Rightarrow> nat) \<Rightarrow> port_table \<Rightarrow> nat \<Rightarrow> port \<Rightarrow> bool" where
  "port_ok ext s p pt \<longleftrightarrow>
     p \<noteq> 0 \<and> name_ok PORT_NAME_LEN_MAX (p_name pt) \<and>
     p_ref pt = int (ext p) + (if registered s p then 1 else 0) \<and> 0 < p_ref pt \<and>
     (port_is_registered pt \<longleftrightarrow> registered s p) \<and> (p_table pt \<longleftrightarrow> registered s p)"

definition unique_ports :: "port_table \<Rightarrow> bool" where
  "unique_ports s \<longleftrightarrow> (\<forall>r r' v v'. entries (by_name s) r = Some v \<longrightarrow> entries (by_name s) r' = Some v' \<longrightarrow>
     port_get_name (ports s) v = port_get_name (ports s) v' \<longrightarrow> r = r')"

definition port_inv :: "(nat \<Rightarrow> nat) \<Rightarrow> port_table \<Rightarrow> bool" where
  "port_inv ext s \<longleftrightarrow>
     ni_inv (port_get_name (ports s)) (by_name s) \<and> unique_ports s \<and>
     hooks (by_name s) = (PORT_NAME_LEN_MAX, True, True, True) \<and> calls (by_name s) = [] \<and>
     (\<forall>p. registered s p \<longrightarrow> ports s p \<noteq> None) \<and> (\<forall>p pt. ports s p = Some pt \<longrightarrow> port_ok ext s p pt)"

lemma port_invD:
  assumes "port_inv ext s"
  shows "ni_inv (port_get_name (ports s)) (by_name s)" "unique_ports s"
    "hooks (by_name s) = (PORT_NAME_LEN_MAX, True, True, True)" "calls (by_name s) = []"
    "registered s p \<Longrightarrow> ports s p \<noteq> None" "ports s p = Some pt \<Longrightarrow> port_ok ext s p pt"
  using assms by (auto simp: port_inv_def)

lemma unique_registry: "unique_ports s \<longleftrightarrow> name_table.unique_names entries (port_get_name (ports s)) (by_name s)"
  by (simp add: unique_ports_def registry.unique_names_def)

lemma port_get_name_upd:
  "ps p = Some pt \<Longrightarrow> p_name pt' = p_name pt \<Longrightarrow> port_get_name (ps(p \<mapsto> pt')) = port_get_name ps"
  by (auto simp: port_get_name_def)

text \<open>Changing one port, its name apart, against the references to it.\<close>

lemma port_inv_update:
  assumes inv: "port_inv ext s" and p: "ports s p = Some pt" and nm: "p_name pt' = p_name pt"
    and idx: "ni_inv (port_get_name (ports s)) idx" "unique_ports \<lparr>ports = ports s, by_name = idx\<rparr>"
      "hooks idx = hooks (by_name s)" "calls idx = []"
    and reg: "\<And>q. q \<noteq> p \<Longrightarrow> q \<in> ran (entries idx) \<longleftrightarrow> registered s q"
    and ok: "port_ok ext' \<lparr>ports = (ports s)(p \<mapsto> pt'), by_name = idx\<rparr> p pt'"
    and ext: "\<And>q. q \<noteq> p \<Longrightarrow> ext' q = ext q"
  shows "port_inv ext' \<lparr>ports = (ports s)(p \<mapsto> pt'), by_name = idx\<rparr>"
proof -
  note i = port_invD [OF inv]
  let ?s = "\<lparr>ports = (ports s)(p \<mapsto> pt'), by_name = idx\<rparr>"
  have gn: "port_get_name (ports ?s) = port_get_name (ports s)" using port_get_name_upd [of "ports s" p pt pt', OF p nm] by simp
  have "port_ok ext' ?s q qt" if "q \<noteq> p" "ports s q = Some qt" for q qt
    using i(6) [OF that(2)] reg [OF that(1)] ext [OF that(1)] by (simp add: port_ok_def registered_def)
  then have "port_ok ext' ?s q qt" if "ports ?s q = Some qt" for q qt
    using that ok by (cases "q = p") auto
  moreover have "ports ?s q \<noteq> None" if "registered ?s q" for q
    using that reg [of q] i(5) [of q] by (cases "q = p") (auto simp: registered_def)
  moreover have "unique_ports ?s" using idx(2) gn by (simp add: unique_ports_def)
  ultimately show ?thesis using i idx gn by (simp add: port_inv_def)
qed

lemma search_in_table:
  assumes inv: "port_inv ext s" and n: "name_ok PORT_NAME_LEN_MAX n"
  shows "case name_index_search (port_get_name (ports s)) (by_name s) (Some n) of
      Some (p, r) \<Rightarrow> entries (by_name s) r = Some p \<and> port_get_name (ports s) p = Some n \<and> registered s p
    | None \<Rightarrow> (\<forall>p. registered s p \<longrightarrow> port_get_name (ports s) p \<noteq> Some n)"
proof -
  have "good_name (by_name s) n" using n port_invD(3) [OF inv] by (simp add: good_name_def hooks_def)
  from registry.search_law [OF port_invD(1) [OF inv] this] show ?thesis
    by (auto simp: registered_def ran_def split: option.splits)
qed

section \<open>Registration\<close>

lemma register_port_ok:
  assumes inv: "port_inv ext s" and p: "ports s p = Some pt" and act: "ops_life pt = LIFE_ACTIVE"
  shows "\<exists>s' e. register_port allow mem s p = Some (s', e) \<and> port_inv ext s' \<and>
     (if e = REND_SUCCESS then (\<forall>q. registered s' q \<longleftrightarrow> q = p \<or> registered s q)
      else ports s' = ports s \<and> entries (by_name s') = entries (by_name s)) \<and>
     (\<forall>q. map_option p_name (ports s' q) = map_option p_name (ports s q))"
proof -
  note i = port_invD [OF inv]
  let ?gn = "port_get_name (ports s)"
  have ok: "port_ok ext s p pt" by (rule i(6) [OF p])
  then have pt: "p \<noteq> 0" "name_ok PORT_NAME_LEN_MAX (p_name pt)" "\<not> registered s p" "0 < p_ref pt" "p_name pt \<noteq> []"
    using act by (auto simp: port_ok_def port_is_registered_def name_ok_def)
  have gn: "?gn p = Some (p_name pt)" using pt(1) p by (simp add: port_get_name_def)
  have good: "good_name (by_name s) (p_name pt)" using pt(2) i(3) by (simp add: good_name_def hooks_def)
  show ?thesis
  proof (cases "name_index_search ?gn (by_name s) (Some (p_name pt))")
    case (Some er)
    obtain e r where er: "er = (e, r)" by fastforce
    with search_in_table [OF inv pt(2)] Some have "registered s e" by simp
    then have "e \<noteq> p" using pt(3) by auto
    then show ?thesis using Some er p pt(5) inv by (simp add: register_port_def Let_def)
  next
    case None
    show ?thesis
    proof (cases "allow p PORT_OPS_REGISTER = REND_SUCCESS")
      case False
      then show ?thesis using None p pt(5) inv by (simp add: register_port_def Let_def)
    next
      case True
      obtain idx e out where reg: "name_index_register ?gn mem (by_name s) p = (idx, e, out)" by (metis prod_cases3)
      have ro: "register_out ?gn mem (by_name s) p = (idx, out)" using reg by (simp add: register_out_def)
      note ins = registry.insert_if_absent [OF i(1) i(2) [unfolded unique_registry] gn good pt(1) None ro]
      have hk: "hooks idx = hooks (by_name s)" "calls idx = (if out \<noteq> None then [OnRegister p] else [])"
        using register_hooks [OF i(1) reg] i(3,4) by (auto simp: hooks_def)
      show ?thesis
      proof (cases out)
        case no: None
        let ?s' = "\<lparr>ports = ports s, by_name = idx\<rparr>"
        have fl: "flush (ports s) idx = ?s'" using hk no by (simp add: flush_def)
        have ent: "entries idx = entries (by_name s)" using ins(3) no by simp
        have "port_inv ext ((\<lparr>ports = (ports s)(p \<mapsto> pt), by_name = idx\<rparr>))"
        proof (rule port_inv_update [OF inv p refl ins(1)])
          show "unique_ports \<lparr>ports = ports s, by_name = idx\<rparr>" using ins(2) by (simp add: unique_registry)
          show "port_ok ext \<lparr>ports = (ports s)(p \<mapsto> pt), by_name = idx\<rparr> p pt"
            using ok ent by (simp add: port_ok_def registered_def)
        qed (use hk no ent in \<open>simp_all add: registered_def\<close>)
        moreover have "(ports s)(p \<mapsto> pt) = ports s" using p by auto
        ultimately have "port_inv ext ?s'" by simp
        moreover have "register_port allow mem s p = Some (?s', E_RENDEZVOS)"
          using None True no reg p pt(5) fl by (simp add: register_port_def Let_def)
        ultimately show ?thesis using ent by simp
      next
        case (Some r)
        define pt1 where "pt1 = pt\<lparr>ops_life := LIFE_REGISTERED, p_table := True\<rparr>"
        define pt2 where "pt2 = pt1\<lparr>p_ref := p_ref pt + 1\<rparr>"
        have ent: "entries (by_name s) r = None" "entries idx = (entries (by_name s))(r \<mapsto> p)" using ins(3) Some by simp_all
        then have ran: "ran (entries idx) = insert p (ran (entries (by_name s)))" by (simp add: ran_map_upd)
        have fl: "flush (ports s) idx = \<lparr>ports = (ports s)(p \<mapsto> pt1), by_name = idx\<lparr>calls := []\<rparr>\<rparr>"
          using hk Some p act by (simp add: flush_def port_ops_set_life_with_expect_def pt1_def)
        have "port_inv ext \<lparr>ports = (ports s)(p \<mapsto> pt2), by_name = idx\<lparr>calls := []\<rparr>\<rparr>"
        proof (rule port_inv_update [OF inv p])
          show "ni_inv ?gn (idx\<lparr>calls := []\<rparr>)" using ins(1) by simp
          show "unique_ports \<lparr>ports = ports s, by_name = idx\<lparr>calls := []\<rparr>\<rparr>"
            using ins(2) by (simp add: unique_registry registry.unique_names_def)
          show "port_ok ext \<lparr>ports = (ports s)(p \<mapsto> pt2), by_name = idx\<lparr>calls := []\<rparr>\<rparr> p pt2"
            using ok pt ran by (simp add: port_ok_def registered_def pt2_def pt1_def port_is_registered_def)
        qed (use hk ran in \<open>simp_all add: registered_def pt2_def pt1_def hooks_def\<close>)
        moreover have "register_port allow mem s p
            = Some (\<lparr>ports = (ports s)(p \<mapsto> pt2), by_name = idx\<lparr>calls := []\<rparr>\<rparr>, REND_SUCCESS)"
          using None True Some reg p pt(4,5) fl
          by (simp add: register_port_def Let_def ref_get_not_zero_def pt2_def pt1_def)
        ultimately show ?thesis using ran p by (auto simp: registered_def pt2_def pt1_def)
      qed
    qed
  qed
qed

section \<open>Unregistration\<close>

lemma abort_name: "ports s p = Some pt \<Longrightarrow> p \<noteq> 0 \<Longrightarrow> port_get_name (ports s) p = Some (p_name pt)"
  by (simp add: port_get_name_def)

lemma unregister_begin_ok:
  assumes inv: "port_inv ext s" and n: "name_ok PORT_NAME_LEN_MAX n"
    and hit: "registered s p" "port_get_name (ports s) p = Some n"
  shows "\<exists>s'. unregister_port_begin mem s n = (s', Some p) \<and> port_inv (ext(p := ext p + 1)) s' \<and>
     (\<forall>q. registered s' q \<longleftrightarrow> registered s q \<and> q \<noteq> p) \<and>
     (\<forall>q. registered s' q \<longrightarrow> port_get_name (ports s') q \<noteq> Some n) \<and>
     map_option ops_life (ports s' p) = Some LIFE_CLOSING"
proof -
  note i = port_invD [OF inv]
  let ?gn = "port_get_name (ports s)"
  obtain v r where v: "name_index_search ?gn (by_name s) (Some n) = Some (v, r)"
      "entries (by_name s) r = Some v" "?gn v = Some n"
    using search_in_table [OF inv n] hit by (auto split: option.splits)
  obtain r' where r': "entries (by_name s) r' = Some p" using hit(1) by (auto simp: registered_def ran_def)
  then have "r' = r" using i(2) v hit(2) unfolding unique_ports_def by metis
  then have vp: "v = p" using r' v by simp
  obtain pt where pt: "ports s p = Some pt" using i(5) [OF hit(1)] by auto
  have ok: "port_ok ext s p pt" by (rule i(6) [OF pt])
  have reg: "ops_life pt = LIFE_REGISTERED" using ok hit(1) by (simp add: port_ok_def port_is_registered_def)
  have good: "good_name (by_name s) n" using n i(3) by (simp add: good_name_def hooks_def)
  let ?idx = "name_index_unregister ?gn mem (by_name s) p r (Some n)"
  have hit': "name_index_search ?gn (by_name s) (Some n) = Some (p, r)" using v vp by simp
  have rm: "?idx = name_index_unregister ?gn mem (by_name s) p r (?gn p)" using hit(2) by simp
  note rem = registry.remove_absent [OF i(1) i(2) [unfolded unique_registry] good hit', of mem, folded rm]
  have hk: "hooks ?idx = hooks (by_name s)" "calls ?idx = [OnUnregister p]"
    using unregister_hooks [OF i(1) v(2) [unfolded vp], of mem "Some n"] i(3,4) by (auto simp: hooks_def)
  define pt' where "pt' = pt\<lparr>p_table := False, ops_life := LIFE_CLOSING\<rparr>"
  let ?s' = "\<lparr>ports = (ports s)(p \<mapsto> pt'), by_name = ?idx\<lparr>calls := []\<rparr>\<rparr>"
  have fl: "flush (ports s) ?idx = ?s'"
    using hk pt reg by (simp add: flush_def port_ops_set_life_with_expect_def pt'_def)
  have only: "entries (by_name s) r2 = Some p \<Longrightarrow> r2 = r" for r2
    using i(2) v vp unfolding unique_ports_def by metis
  have ent: "entries (by_name s) r = Some p" using v(2) vp by simp
  have "q \<in> ran (entries ?idx) \<longleftrightarrow> (\<exists>r2. r2 \<noteq> r \<and> entries (by_name s) r2 = Some q)" for q
    unfolding rem(3) ran_def by simp blast
  moreover have "(\<exists>r2. r2 \<noteq> r \<and> entries (by_name s) r2 = Some q) \<longleftrightarrow> registered s q \<and> q \<noteq> p" for q
    unfolding registered_def ran_def mem_Collect_eq using only ent by (metis option.inject)
  ultimately have ran: "q \<in> ran (entries ?idx) \<longleftrightarrow> registered s q \<and> q \<noteq> p" for q by simp
  have "port_inv (ext(p := ext p + 1)) ?s'"
  proof (rule port_inv_update [OF inv pt])
    show "ni_inv ?gn (?idx\<lparr>calls := []\<rparr>)" using rem(1) by simp
    show "unique_ports \<lparr>ports = ports s, by_name = ?idx\<lparr>calls := []\<rparr>\<rparr>"
      using rem(2) by (simp add: unique_registry registry.unique_names_def)
    show "port_ok (ext(p := ext p + 1)) ?s' p pt'"
      using ok ran [of p] hit(1) by (simp add: port_ok_def registered_def pt'_def port_is_registered_def)
  qed (use hk ran in \<open>simp_all add: pt'_def hooks_def\<close>)
  moreover have "unregister_port_begin mem s n = (?s', Some p)"
    using hit' pt reg fl by (simp add: unregister_port_begin_def Let_def port_is_registered_def)
  moreover have "port_get_name (ports ?s') q \<noteq> Some n" if "registered ?s' q" for q
    using that rem(4) port_get_name_upd [of "ports s" p pt pt', OF pt]
    by (auto simp: registered_def ran_def pt'_def)
  moreover have "map_option ops_life (ports ?s' p) = Some LIFE_CLOSING" by (simp add: pt'_def)
  ultimately show ?thesis using ran by (intro exI [of _ ?s']) (auto simp: registered_def)
qed

text \<open>Dropping a reference held outside the table.\<close>

lemma put_port_ok:
  assumes inv: "port_inv ext s" and p: "ports s p = Some pt" "0 < ext p"
  shows "\<exists>ps. put_port (ports s) p = Some ps \<and> port_inv (ext(p := ext p - 1)) (s\<lparr>ports := ps\<rparr>)"
proof -
  note i = port_invD [OF inv]
  have ok: "port_ok ext s p pt" by (rule i(6) [OF p(1)])
  show ?thesis
  proof (cases "p_ref pt = 1")
    case True
    then have nr: "\<not> registered s p" "ext p = 1" using ok p(2) by (auto simp: port_ok_def split: if_splits)
    let ?s = "s\<lparr>ports := (ports s)(p := None)\<rparr>"
    have same: "port_get_name (ports ?s) v = port_get_name (ports s) v" if "registered s v" for v
      using that nr by (auto simp: port_get_name_def)
    have "ni_inv (port_get_name (ports ?s)) (by_name s)"
      using same by (intro ni_inv_cong [OF i(1)]) (auto simp: registered_def)
    moreover have "unique_ports ?s" using i(2) same unfolding unique_ports_def registered_def ran_def by simp metis
    moreover have "port_ok (ext(p := ext p - 1)) ?s q qt" if "ports ?s q = Some qt" for q qt
      using that i(6) [of q qt] by (auto simp: port_ok_def registered_def split: if_splits)
    moreover have "ports ?s q \<noteq> None" if "registered ?s q" for q
      using that nr i(5) [of q] by (auto simp: registered_def)
    ultimately have "port_inv (ext(p := ext p - 1)) ?s" using i by (simp add: port_inv_def)
    moreover have "put_port (ports s) p = Some ((ports s)(p := None))" using True p by (simp add: put_port_def ref_put_def)
    ultimately show ?thesis by blast
  next
    case False
    let ?pt = "pt\<lparr>p_ref := p_ref pt - 1\<rparr>"
    have "port_inv (ext(p := ext p - 1)) \<lparr>ports = (ports s)(p \<mapsto> ?pt), by_name = by_name s\<rparr>"
    proof (rule port_inv_update [OF inv p(1)])
      show "port_ok (ext(p := ext p - 1)) \<lparr>ports = (ports s)(p \<mapsto> ?pt), by_name = by_name s\<rparr> p ?pt"
        using ok False p(2) by (auto simp: port_ok_def registered_def port_is_registered_def)
    qed (use i in \<open>simp_all add: registered_def unique_ports_def\<close>)
    moreover have "put_port (ports s) p = Some ((ports s)(p \<mapsto> ?pt))" using False p by (simp add: put_port_def ref_put_def)
    moreover have "s\<lparr>ports := (ports s)(p \<mapsto> ?pt)\<rparr> = \<lparr>ports = (ports s)(p \<mapsto> ?pt), by_name = by_name s\<rparr>" by simp
    ultimately show ?thesis by metis
  qed
qed

lemma unregister_finish_ok:
  assumes inv: "port_inv ext s" and p: "ports s p = Some pt" "0 < ext p" "ops_life pt = LIFE_CLOSING"
  shows "\<exists>s'. unregister_port_finish s p = Some s' \<and> port_inv (ext(p := ext p - 1)) s' \<and>
     entries (by_name s') = entries (by_name s)"
proof -
  let ?pt = "pt\<lparr>ops_life := LIFE_CLOSED\<rparr>"
  note i = port_invD [OF inv]
  have ok: "port_ok ext s p pt" by (rule i(6) [OF p(1)])
  let ?s = "\<lparr>ports = (ports s)(p \<mapsto> ?pt), by_name = by_name s\<rparr>"
  have "port_inv ext ?s"
  proof (rule port_inv_update [OF inv p(1)])
    show "port_ok ext \<lparr>ports = (ports s)(p \<mapsto> ?pt), by_name = by_name s\<rparr> p ?pt"
      using ok p(3) by (auto simp: port_ok_def registered_def port_is_registered_def)
  qed (use i in \<open>simp_all add: registered_def unique_ports_def\<close>)
  from put_port_ok [OF this, of p ?pt] p(2) obtain ps where
    ps: "put_port ((ports s)(p \<mapsto> ?pt)) p = Some ps" "port_inv (ext(p := ext p - 1)) (?s\<lparr>ports := ps\<rparr>)" by auto
  have "unregister_port_finish s p = Some (s\<lparr>ports := ps\<rparr>)"
    using p ps(1) by (simp add: unregister_port_finish_def port_ops_set_life_with_expect_def)
  moreover have "s\<lparr>ports := ps\<rparr> = ?s\<lparr>ports := ps\<rparr>" by simp
  ultimately show ?thesis using ps(2) by simp
qed

section \<open>Lookup\<close>

lemma take_hold_ok:
  assumes inv: "port_inv ext s" and p: "ports s p = Some pt"
  shows "port_inv (ext(p := ext p + 1)) (take_hold s (Some p))" "by_name (take_hold s (Some p)) = by_name s"
    "ports (take_hold s (Some p)) p = Some (pt\<lparr>p_ref := p_ref pt + 1\<rparr>)"
proof -
  let ?pt = "pt\<lparr>p_ref := p_ref pt + 1\<rparr>"
  note i = port_invD [OF inv]
  have "port_inv (ext(p := ext p + 1)) \<lparr>ports = (ports s)(p \<mapsto> ?pt), by_name = by_name s\<rparr>"
  proof (rule port_inv_update [OF inv p])
    show "port_ok (ext(p := ext p + 1)) \<lparr>ports = (ports s)(p \<mapsto> ?pt), by_name = by_name s\<rparr> p ?pt"
      using i(6) [OF p] by (auto simp: port_ok_def registered_def port_is_registered_def)
  qed (use i in \<open>simp_all add: registered_def unique_ports_def\<close>)
  moreover have "take_hold s (Some p) = \<lparr>ports = (ports s)(p \<mapsto> ?pt), by_name = by_name s\<rparr>"
    using p by (simp add: take_hold_def)
  ultimately show "port_inv (ext(p := ext p + 1)) (take_hold s (Some p))" "by_name (take_hold s (Some p)) = by_name s"
    "ports (take_hold s (Some p)) p = Some (pt\<lparr>p_ref := p_ref pt + 1\<rparr>)"
    by simp_all
qed

lemma lookup_finish_ok:
  assumes inv: "port_inv ext s" and p: "ports s p = Some pt"
  shows "\<exists>s' res. port_lookup_finish allow (take_hold s (Some p)) (Some p) = (s', res) \<and>
     by_name s' = by_name s \<and>
     (if allow p PORT_OPS_LOOKUP = REND_SUCCESS then res = Some p \<and> port_inv (ext(p := ext p + 1)) s'
      else res = None \<and> port_inv ext s')"
proof -
  note t = take_hold_ok [OF inv p]
  show ?thesis
  proof (cases "allow p PORT_OPS_LOOKUP = REND_SUCCESS")
    case True
    with t show ?thesis by (simp add: port_lookup_finish_def)
  next
    case False
    obtain ps where ps: "put_port (ports (take_hold s (Some p))) p = Some ps"
        "port_inv ((ext(p := ext p + 1))(p := (ext(p := ext p + 1)) p - 1)) ((take_hold s (Some p))\<lparr>ports := ps\<rparr>)"
      using put_port_ok [OF t(1,3)] by auto
    have "(ext(p := ext p + 1))(p := (ext(p := ext p + 1)) p - 1) = ext" by auto
    with False ps t(2) show ?thesis by (simp add: port_lookup_finish_def)
  qed
qed

lemma lookup_ok:
  assumes inv: "port_inv ext s" and n: "name_ok PORT_NAME_LEN_MAX n"
  shows "\<exists>s' res. port_table_lookup allow s n = (s', res) \<and> by_name s' = by_name s \<and>
     (case res of
        Some p \<Rightarrow> registered s p \<and> port_get_name (ports s) p = Some n \<and> port_inv (ext(p := ext p + 1)) s'
      | None \<Rightarrow> port_inv ext s' \<and>
          (\<forall>p. registered s p \<longrightarrow> port_get_name (ports s) p = Some n \<longrightarrow> allow p PORT_OPS_LOOKUP \<noteq> REND_SUCCESS))"
proof -
  note i = port_invD [OF inv]
  let ?gn = "port_get_name (ports s)"
  show ?thesis
  proof (cases "name_index_search ?gn (by_name s) (Some n)")
    case None
    with search_in_table [OF inv n] inv show ?thesis
      by (simp add: port_table_lookup_def name_index_lookup_def port_lookup_finish_def take_hold_def)
  next
    case (Some pr)
    obtain p r where pr: "pr = (p, r)" by fastforce
    with Some search_in_table [OF inv n] have p: "entries (by_name s) r = Some p" "?gn p = Some n" "registered s p" by auto
    obtain pt where pt: "ports s p = Some pt" using i(5) [OF p(3)] by auto
    have ok: "p \<noteq> 0" "0 < p_ref pt" using i(6) [OF pt] by (auto simp: port_ok_def)
    have used: "used (rows (by_name s) ! r)" using p(1) by (auto simp: entries_def split: if_splits)
    have "name_index_lookup ?gn (port_hold (ports s)) (by_name s) (Some n)
        = (Some p, Some \<lparr>row_index = r mod 2 ^ 32, row_gen = gen (rows (by_name s) ! r) mod 2 ^ 16\<rparr>)"
      using Some pr used ok pt by (simp add: name_index_lookup_def port_hold_def ref_get_not_zero_def Let_def)
    then have eq: "port_table_lookup allow s n = port_lookup_finish allow (take_hold s (Some p)) (Some p)"
      by (simp add: port_table_lookup_def)
    have uniq: "q = p" if "registered s q" "?gn q = Some n" for q
      using that p i(2) unfolding unique_ports_def registered_def ran_def by (auto simp: ) (metis option.inject)
    show ?thesis
    proof (cases "allow p PORT_OPS_LOOKUP = REND_SUCCESS")
      case True
      with lookup_finish_ok [OF inv pt, of allow] p show ?thesis by (auto simp: eq)
    next
      case False
      with lookup_finish_ok [OF inv pt, of allow] uniq show ?thesis by (auto simp: eq)
    qed
  qed
qed

section \<open>Runs of the port table\<close>

lemma c_text_no_zero: "0 \<notin> set (c_text n)"
  by (auto simp: c_text_def dest: set_takeWhileD)

lemma create_port_ok:
  assumes inv: "port_inv ext s" and a: "ports s a = None" "a \<noteq> 0"
    and c: "create_message_port (Some a) dummy_ok init_e s (Some n) = (s', Some a)"
  shows "port_inv (ext(a := 1)) s'" "by_name s' = by_name s"
proof -
  note i = port_invD [OF inv]
  define pt where "pt = \<lparr>p_name = c_text n, p_ref = ref_init, p_table = False,
      service_id = service_id_from_name n, ops_life = LIFE_ACTIVE, ops_count = 0\<rparr>"
  have s': "s' = s\<lparr>ports := (ports s)(a \<mapsto> pt)\<rparr>" and n: "name_ok PORT_NAME_LEN_MAX (c_text n)"
    using c c_text_no_zero [of n]
    by (auto simp: create_message_port_def pt_def name_ok_def PORT_NAME_LEN_MAX_def split: if_splits)
  have na: "\<not> registered s a" using i(5) [of a] a by auto
  have same: "port_get_name (ports s') v = port_get_name (ports s) v" if "registered s v" for v
    using that na by (auto simp: port_get_name_def s')
  have "ni_inv (port_get_name (ports s')) (by_name s)"
    using same by (intro ni_inv_cong [OF i(1)]) (auto simp: registered_def)
  moreover have "unique_ports s'"
    using i(2) same unfolding unique_ports_def registered_def ran_def s' by simp metis
  moreover have "port_ok (ext(a := 1)) s' q qt" if "ports s' q = Some qt" for q qt
    using that i(6) [of q qt] n na a
    by (auto simp: port_ok_def registered_def s' pt_def ref_init_def port_is_registered_def split: if_splits)
  moreover have "ports s' q \<noteq> None" if "registered s' q" for q
    using that i(5) [of q] by (auto simp: registered_def s')
  ultimately show "port_inv (ext(a := 1)) s'" "by_name s' = by_name s" using i by (simp_all add: port_inv_def s')
qed

lemma port_init_inv: "port_inv (\<lambda>_. 0) (port_table_init mem Map.empty)"
proof -
  let ?gn = "port_get_name Map.empty"
  let ?i = "\<lparr>rows = [], free_head = FREE_HEAD_INVALID, live = 0, ht = [], ht_mask = 0, ht_tombs = 0,
        name_len_max = PORT_NAME_LEN_MAX, has_drop = True, has_on_register = True, has_on_unregister = True, allocs = 0, calls = []\<rparr>"
  have "hooks (name_index_init ?gn mem PORT_NAME_LEN_MAX True True True) = hooks ?i"
    "calls (name_index_init ?gn mem PORT_NAME_LEN_MAX True True True) = []"
    using bootstrap_hooks [of ?gn mem ?i "fst (name_index_bootstrap ?gn mem ?i)" "snd (name_index_bootstrap ?gn mem ?i)"]
    by (simp_all add: name_index_init_def)
  then show ?thesis using init_inv [of ?gn mem PORT_NAME_LEN_MAX True True True]
    by (simp add: port_inv_def port_table_init_def unique_ports_def registered_def hooks_def)
qed

text \<open>
  Ports are created, registered while active, looked up, closed in two phases, and released by the
  holders of references.
\<close>

inductive port_step ::
    "(nat \<Rightarrow> port_ops_type \<Rightarrow> error_t) \<Rightarrow> (nat \<Rightarrow> bool) \<Rightarrow> (nat \<Rightarrow> nat) \<times> port_table \<Rightarrow> (nat \<Rightarrow> nat) \<times> port_table \<Rightarrow> bool"
  for allow mem where
  port_create: "\<lbrakk>ports s a = None; a \<noteq> 0; create_message_port (Some a) dummy_ok init_e s (Some n) = (s', Some a)\<rbrakk> \<Longrightarrow>
     port_step allow mem (ext, s) (ext(a := 1), s')"
| port_register: "\<lbrakk>ports s p = Some pt; 0 < ext p; ops_life pt = LIFE_ACTIVE; register_port allow mem s p = Some (s', e)\<rbrakk> \<Longrightarrow>
     port_step allow mem (ext, s) (ext, s')"
| port_close: "\<lbrakk>name_ok PORT_NAME_LEN_MAX n; unregister_port_begin mem s n = (s', Some p)\<rbrakk> \<Longrightarrow>
     port_step allow mem (ext, s) (ext(p := ext p + 1), s')"
| port_closed: "\<lbrakk>ports s p = Some pt; 0 < ext p; ops_life pt = LIFE_CLOSING; unregister_port_finish s p = Some s'\<rbrakk> \<Longrightarrow>
     port_step allow mem (ext, s) (ext(p := ext p - 1), s')"
| port_lookup: "\<lbrakk>name_ok PORT_NAME_LEN_MAX n; port_table_lookup allow s n = (s', Some p)\<rbrakk> \<Longrightarrow>
     port_step allow mem (ext, s) (ext(p := ext p + 1), s')"
| port_put: "\<lbrakk>0 < ext p; put_port (ports s) p = Some ps\<rbrakk> \<Longrightarrow>
     port_step allow mem (ext, s) (ext(p := ext p - 1), s\<lparr>ports := ps\<rparr>)"

lemma port_step_inv:
  "port_step allow mem x y \<Longrightarrow> port_inv (fst x) (snd x) \<Longrightarrow> port_inv (fst y) (snd y)"
proof (induction rule: port_step.induct)
  case (port_create s a dummy_ok init_e n s' ext)
  then have "port_inv (ext(a := 1)) s'" by (intro create_port_ok(1) [OF _ port_create(1,2,3)]) simp
  then show ?case by (simp only: fst_conv snd_conv)
next
  case (port_register s p pt ext s' e)
  then show ?case using register_port_ok [of ext s p pt allow mem] by auto
next
  case (port_close n s s' p ext)
  have inv: "port_inv ext s" using port_close by simp
  from port_close(2) obtain r where "name_index_search (port_get_name (ports s)) (by_name s) (Some n) = Some (p, r)"
    by (auto simp: unregister_port_begin_def Let_def split: option.splits if_splits)
  with search_in_table [OF inv port_close(1)] have "registered s p" "port_get_name (ports s) p = Some n" by auto
  from unregister_begin_ok [OF inv port_close(1) this, of mem] port_close(2)
  have "port_inv (ext(p := ext p + 1)) s'" by auto
  then show ?case by (simp only: fst_conv snd_conv)
next
  case (port_closed s p pt ext s')
  then have "port_inv (ext(p := ext p - 1)) s'" using unregister_finish_ok [of ext s p pt] by auto
  then show ?case by (simp only: fst_conv snd_conv)
next
  case (port_lookup n s s' p ext)
  then have "port_inv (ext(p := ext p + 1)) s'" using lookup_ok [of ext s n allow] by auto
  then show ?case by (simp only: fst_conv snd_conv)
next
  case (port_put ext p s ps)
  then obtain pt where "ports s p = Some pt" by (auto simp: put_port_def split: option.splits)
  with port_put put_port_ok [of ext s p pt] have "port_inv (ext(p := ext p - 1)) (s\<lparr>ports := ps\<rparr>)" by auto
  then show ?case by (simp only: fst_conv snd_conv)
qed

lemma port_steps_inv:
  "(port_step allow mem)\<^sup>*\<^sup>* x y \<Longrightarrow> port_inv (fst x) (snd x) \<Longrightarrow> port_inv (fst y) (snd y)"
  by (induction rule: rtranclp_induct) (auto intro: port_step_inv)

section \<open>Properties\<close>

text \<open>C19. In every reachable state of the port table, lookup is exact and reference-safe: it returns a port
  only if that port is registered under the name asked for, and returns none only when no registered
  port of that name admits the caller; names of registered ports are unique; a live port's count is
  the references held outside plus one for the table, so a registered port is never freed.\<close>

theorem port_table_lookup_exact:
  assumes "(port_step allow mem)\<^sup>*\<^sup>* (\<lambda>_. 0, port_table_init mem Map.empty) (ext, s)"
    and "name_ok PORT_NAME_LEN_MAX n"
  shows "(case snd (port_table_lookup allow s n) of
            Some p \<Rightarrow> registered s p \<and> port_get_name (ports s) p = Some n
          | None \<Rightarrow> (\<forall>p. registered s p \<longrightarrow> port_get_name (ports s) p = Some n \<longrightarrow> allow p PORT_OPS_LOOKUP \<noteq> REND_SUCCESS)) \<and>
         unique_ports s \<and>
         (\<forall>p. registered s p \<longrightarrow> (\<exists>pt. ports s p = Some pt \<and> p_ref pt = int (ext p) + 1 \<and> ops_life pt = LIFE_REGISTERED))"
proof -
  have inv: "port_inv ext s" using port_steps_inv [OF assms(1)] port_init_inv by simp
  have "registered s p \<longrightarrow> (\<exists>pt. ports s p = Some pt \<and> p_ref pt = int (ext p) + 1 \<and> ops_life pt = LIFE_REGISTERED)" for p
    using port_invD(5,6) [OF inv, of p] by (auto simp: port_ok_def port_is_registered_def)
  with lookup_ok [OF inv assms(2), of allow] port_invD(2) [OF inv] show ?thesis
    by (auto split: option.splits)
qed

theorem port_table_lookup_exact_witness:
  "\<exists>ext s. (port_step (\<lambda>_ _. REND_SUCCESS) (\<lambda>_. True))\<^sup>*\<^sup>* (\<lambda>_. 0, port_table_init (\<lambda>_. True) Map.empty) (ext, s) \<and>
     ports s 7 \<noteq> None \<and> unique_ports s \<and>
     (\<forall>p. snd (port_table_lookup (\<lambda>_ _. REND_SUCCESS) s [65]) = Some p \<longrightarrow> registered s p)"
proof -
  let ?s0 = "port_table_init (\<lambda>_. True) Map.empty"
  obtain s1 where c: "create_message_port (Some 7) True REND_SUCCESS ?s0 (Some [65]) = (s1, Some 7)"
    by (simp add: create_message_port_def c_text_def PORT_NAME_LEN_MAX_def)
  have "port_step (\<lambda>_ _. REND_SUCCESS) (\<lambda>_. True) (\<lambda>_. 0, ?s0) ((\<lambda>_. 0)(7 := 1), s1)"
    by (rule port_create [OF _ _ c]) (simp_all add: port_table_init_def)
  then have run: "(port_step (\<lambda>_ _. REND_SUCCESS) (\<lambda>_. True))\<^sup>*\<^sup>* (\<lambda>_. 0, ?s0) ((\<lambda>_. 0)(7 := 1), s1)" by blast
  have "name_ok PORT_NAME_LEN_MAX [65]" by (simp add: name_ok_def PORT_NAME_LEN_MAX_def)
  from port_table_lookup_exact [OF run this]
  have "unique_ports s1" "\<forall>p. snd (port_table_lookup (\<lambda>_ _. REND_SUCCESS) s1 [65]) = Some p \<longrightarrow> registered s1 p"
    by (auto split: option.splits)
  moreover have "ports s1 7 \<noteq> None"
    using c by (auto simp: create_message_port_def c_text_def PORT_NAME_LEN_MAX_def)
  ultimately show ?thesis using run by blast
qed

text \<open>A table with one registered and one active port, on which the next properties are evaluated.\<close>

definition tiny_table :: port_table where
  "tiny_table = \<lparr>ports = [7 \<mapsto> \<lparr>p_name = [65], p_ref = 1, p_table = True, service_id = 1, ops_life = LIFE_REGISTERED, ops_count = 0\<rparr>,
                          8 \<mapsto> \<lparr>p_name = [66], p_ref = 1, p_table = False, service_id = 2, ops_life = LIFE_ACTIVE, ops_count = 0\<rparr>],
     by_name = tiny_index\<rparr>"

lemma tiny_fields:
  "ports tiny_table = [7 \<mapsto> \<lparr>p_name = [65], p_ref = 1, p_table = True, service_id = 1, ops_life = LIFE_REGISTERED, ops_count = 0\<rparr>,
                       8 \<mapsto> \<lparr>p_name = [66], p_ref = 1, p_table = False, service_id = 2, ops_life = LIFE_ACTIVE, ops_count = 0\<rparr>]"
  "by_name tiny_table = tiny_index"
  by (simp_all add: tiny_table_def)

lemma tiny_entries: "entries tiny_index = [0 \<mapsto> 7]"
  by (auto simp: entries_def tiny_index_def fun_eq_iff)

lemma tiny_registered: "registered tiny_table p \<longleftrightarrow> p = 7"
  by (simp add: registered_def tiny_table_def tiny_entries)

lemma tiny_port8: "ports tiny_table 8 = Some \<lparr>p_name = [66], p_ref = 1, p_table = False, service_id = 2, ops_life = LIFE_ACTIVE, ops_count = 0\<rparr>"
  by (simp add: tiny_fields)

lemma tiny_table_inv: "port_inv ((\<lambda>_. 0)(8 := 1)) tiny_table"
proof -
  have "ni_inv (port_get_name (ports tiny_table)) tiny_index"
    by (rule ni_inv_cong [OF tiny_inv]) (simp add: tiny_entries port_get_name_def tiny_fields tiny_name_def)
  moreover have "unique_ports tiny_table" by (simp add: unique_ports_def tiny_fields tiny_entries)
  moreover have "port_ok ((\<lambda>_. 0)(8 := 1)) tiny_table p pt" if "ports tiny_table p = Some pt" for p pt
    using that by (auto simp: port_ok_def tiny_registered tiny_fields name_ok_def PORT_NAME_LEN_MAX_def
        port_is_registered_def split: if_splits)
  ultimately show ?thesis
    unfolding port_inv_def tiny_registered
    by (auto simp: tiny_fields hooks_def tiny_index_def PORT_NAME_LEN_MAX_def)
qed

text \<open>C25. Registering an active port is all or nothing: it succeeds and exactly that port becomes registered,
  holding one more reference, or it fails (name taken, denied, no memory) and neither the table's
  entries nor any port changes; the table stays consistent either way.\<close>

theorem register_port_atomic:
  assumes "port_inv ext s" and "ports s p = Some pt" and "ops_life pt = LIFE_ACTIVE"
  shows "\<exists>s' e. register_port allow mem s p = Some (s', e) \<and> port_inv ext s' \<and>
     (if e = REND_SUCCESS then (\<forall>q. registered s' q \<longleftrightarrow> q = p \<or> registered s q)
      else ports s' = ports s \<and> entries (by_name s') = entries (by_name s))"
  using register_port_ok [OF assms, of allow mem] by blast

theorem register_port_atomic_witness:
  "\<exists>s' e. register_port (\<lambda>_ _. REND_SUCCESS) (\<lambda>_. True) tiny_table 8 = Some (s', e) \<and>
     port_inv ((\<lambda>_. 0)(8 := 1)) s' \<and>
     (if e = REND_SUCCESS then (\<forall>q. registered s' q \<longleftrightarrow> q = 8 \<or> registered tiny_table q)
      else ports s' = ports tiny_table \<and> entries (by_name s') = entries (by_name tiny_table))"
  by (rule register_port_atomic [OF tiny_table_inv tiny_port8]) simp

text \<open>C26. Closing a registered port removes it from the table at once: after the first phase of
  \<^verbatim>\<open>unregister_port\<close> no registered port has the name, the port is in the closing state and is kept
  alive by the closing thread's reference; the second phase releases that reference safely.\<close>

theorem unregister_port_removes:
  assumes inv: "port_inv ext s" and n: "name_ok PORT_NAME_LEN_MAX n"
    and hit: "registered s p" "port_get_name (ports s) p = Some n"
  shows "\<exists>s' s''. unregister_port_begin mem s n = (s', Some p) \<and>
     (\<forall>q. registered s' q \<longrightarrow> port_get_name (ports s') q \<noteq> Some n) \<and>
     map_option ops_life (ports s' p) = Some LIFE_CLOSING \<and>
     unregister_port_finish s' p = Some s'' \<and> port_inv ext s'' \<and> \<not> registered s'' p"
proof -
  obtain s' where s': "unregister_port_begin mem s n = (s', Some p)" "port_inv (ext(p := ext p + 1)) s'"
      "\<forall>q. registered s' q \<longleftrightarrow> registered s q \<and> q \<noteq> p"
      "\<forall>q. registered s' q \<longrightarrow> port_get_name (ports s') q \<noteq> Some n"
      "map_option ops_life (ports s' p) = Some LIFE_CLOSING"
    using unregister_begin_ok [OF assms] by blast
  from s'(5) obtain pt where pt: "ports s' p = Some pt" "ops_life pt = LIFE_CLOSING" by auto
  obtain s'' where s'': "unregister_port_finish s' p = Some s''" "entries (by_name s'') = entries (by_name s')"
      "port_inv ((ext(p := ext p + 1))(p := (ext(p := ext p + 1)) p - 1)) s''"
    using unregister_finish_ok [OF s'(2) pt(1) _ pt(2)] by auto
  have "(ext(p := ext p + 1))(p := (ext(p := ext p + 1)) p - 1) = ext" by auto
  with s' s'' show ?thesis by (auto simp: registered_def)
qed

theorem unregister_port_removes_witness:
  "\<exists>s' s''. unregister_port_begin (\<lambda>_. True) tiny_table [65] = (s', Some 7) \<and>
     (\<forall>q. registered s' q \<longrightarrow> port_get_name (ports s') q \<noteq> Some [65]) \<and>
     map_option ops_life (ports s' 7) = Some LIFE_CLOSING \<and>
     unregister_port_finish s' 7 = Some s'' \<and> port_inv ((\<lambda>_. 0)(8 := 1)) s'' \<and> \<not> registered s'' 7"
  by (rule unregister_port_removes [OF tiny_table_inv])
     (simp_all add: tiny_registered name_ok_def PORT_NAME_LEN_MAX_def port_get_name_def tiny_fields)

end
