(* ===== verification/Port_Drain.thy ===== *)
theory Port_Drain
  imports Port
begin

text \<open>
  The race between senders and receivers that enter a port (\<^verbatim>\<open>port_ops_begin\<close>, \<^verbatim>\<open>port_ops_end\<close>) and
  the thread that closes it (\<^verbatim>\<open>unregister_port\<close>), in \<^verbatim>\<open>kernel/ipc/port.c\<close>. Each load, increment,
  decrement and compare-and-swap of \<open>ops_life\<close> and \<open>ops_count\<close> is one step, and the steps of any
  number of threads interleave freely.
\<close>

section \<open>The protocol\<close>

datatype ops_pc =
    Outside       \<comment> \<open>not in \<open>port_ops_begin\<close>\<close>
  | Admitted      \<comment> \<open>the first check and \<open>ops_allow\<close> have passed\<close>
  | Counted       \<comment> \<open>after \<open>port_ops_count_inc\<close>\<close>
  | Undo          \<comment> \<open>the second check failed, about to \<open>port_ops_count_dec\<close>\<close>
  | Inside        \<comment> \<open>\<open>port_ops_begin\<close> returned true, until \<open>port_ops_end\<close>\<close>

datatype close_pc =
    Open          \<comment> \<open>before \<open>on_unregister\<close>\<close>
  | Waiting       \<comment> \<open>in the loop on \<open>port_ops_count_get(port) != 0\<close>\<close>
  | Cleaning      \<comment> \<open>past the loop, in \<open>port_clean_thread_queue\<close>\<close>
  | Closed        \<comment> \<open>after the change from closing to closed\<close>

record drain =
  life :: port_life
  count :: int
  opc :: "nat \<Rightarrow> ops_pc"
  cpc :: close_pc

inductive drain_step :: "drain \<Rightarrow> drain \<Rightarrow> bool" where
  begin_check: "\<lbrakk>opc s t = Outside; life s = LIFE_REGISTERED\<rbrakk> \<Longrightarrow>
     drain_step s (s\<lparr>opc := (opc s)(t := Admitted)\<rparr>)"
| begin_inc: "opc s t = Admitted \<Longrightarrow>
     drain_step s (s\<lparr>opc := (opc s)(t := Counted), count := count s + 1\<rparr>)"
| begin_recheck: "opc s t = Counted \<Longrightarrow>
     drain_step s (s\<lparr>opc := (opc s)(t := (if life s = LIFE_REGISTERED then Inside else Undo))\<rparr>)"
| begin_undo: "opc s t = Undo \<Longrightarrow>
     drain_step s (s\<lparr>opc := (opc s)(t := Outside), count := count s - 1\<rparr>)"
| ops_end: "opc s t = Inside \<Longrightarrow>
     drain_step s (s\<lparr>opc := (opc s)(t := Outside), count := count s - 1\<rparr>)"
| close_start: "\<lbrakk>cpc s = Open; life s = LIFE_REGISTERED\<rbrakk> \<Longrightarrow>
     drain_step s (s\<lparr>cpc := Waiting, life := LIFE_CLOSING\<rparr>)"
| close_seen_zero: "\<lbrakk>cpc s = Waiting; count s = 0\<rbrakk> \<Longrightarrow>
     drain_step s (s\<lparr>cpc := Cleaning\<rparr>)"
| close_done: "\<lbrakk>cpc s = Cleaning; life s = LIFE_CLOSING\<rbrakk> \<Longrightarrow>
     drain_step s (s\<lparr>cpc := Closed, life := LIFE_CLOSED\<rparr>)"

definition drain_init :: drain where
  "drain_init = \<lparr>life = LIFE_REGISTERED, count = 0, opc = (\<lambda>_. Outside), cpc = Open\<rparr>"

section \<open>The invariant\<close>

definition counted :: "drain \<Rightarrow> nat set" where
  "counted s = {t. opc s t = Counted \<or> opc s t = Undo \<or> opc s t = Inside}"

definition drain_inv :: "drain \<Rightarrow> bool" where
  "drain_inv s \<longleftrightarrow>
     finite (counted s) \<and> count s = int (card (counted s)) \<and>
     (cpc s = Open \<longleftrightarrow> life s = LIFE_REGISTERED) \<and> (cpc s = Waiting \<or> cpc s = Cleaning \<longrightarrow> life s = LIFE_CLOSING) \<and>
     (cpc s = Cleaning \<or> cpc s = Closed \<longrightarrow> (\<forall>t. opc s t \<noteq> Inside))"

lemma counted_upd:
  "counted (s\<lparr>opc := (opc s)(t := p)\<rparr>)
   = (if p = Counted \<or> p = Undo \<or> p = Inside then insert t (counted s) else counted s - {t})"
  "counted (s\<lparr>opc := (opc s)(t := p), count := c\<rparr>)
   = (if p = Counted \<or> p = Undo \<or> p = Inside then insert t (counted s) else counted s - {t})"
  "counted (s\<lparr>cpc := q\<rparr>) = counted s" "counted (s\<lparr>cpc := q, life := l\<rparr>) = counted s"
  by (auto simp: counted_def split: if_splits)

lemma drain_step_inv: "drain_step s s' \<Longrightarrow> drain_inv s \<Longrightarrow> drain_inv s'"
proof (induction rule: drain_step.induct)
  case (begin_check s t)
  then have "t \<notin> counted s" by (simp add: counted_def)
  with begin_check show ?case by (auto simp: drain_inv_def counted_upd)
next
  case (begin_inc s t)
  then have "t \<notin> counted s" by (simp add: counted_def)
  with begin_inc show ?case by (auto simp: drain_inv_def counted_upd)
next
  case (begin_recheck s t)
  then have "t \<in> counted s" by (simp add: counted_def)
  with begin_recheck show ?case by (auto simp: drain_inv_def counted_upd insert_absorb)
next
  case (begin_undo s t)
  then have t: "t \<in> counted s" "finite (counted s)" by (auto simp: counted_def drain_inv_def)
  then have "int (card (counted s - {t})) = int (card (counted s)) - 1"
    by (metis card.remove add_diff_cancel_left' int_ops(2) of_nat_add plus_1_eq_Suc)
  with begin_undo t show ?case by (auto simp: drain_inv_def counted_upd)
next
  case (ops_end s t)
  then have t: "t \<in> counted s" "finite (counted s)" by (auto simp: counted_def drain_inv_def)
  then have "int (card (counted s - {t})) = int (card (counted s)) - 1"
    by (metis card.remove add_diff_cancel_left' int_ops(2) of_nat_add plus_1_eq_Suc)
  with ops_end t show ?case by (auto simp: drain_inv_def counted_upd)
next
  case (close_seen_zero s)
  then have "counted s = {}" by (auto simp: drain_inv_def)
  then have "opc s t \<noteq> Inside" for t by (auto simp: counted_def)
  with close_seen_zero show ?case by (auto simp: drain_inv_def counted_upd)
qed (auto simp: drain_inv_def counted_upd)

lemma drain_init_inv: "drain_inv drain_init"
  by (simp add: drain_inv_def drain_init_def counted_def)

lemma drain_steps_inv: "drain_step\<^sup>*\<^sup>* s s' \<Longrightarrow> drain_inv s \<Longrightarrow> drain_inv s'"
  by (induction rule: rtranclp_induct) (auto intro: drain_step_inv)

section \<open>Properties\<close>

text \<open>C20. Once the closing thread has seen \<open>ops_count\<close> at zero, no thread is inside a send or receive section
  of the port, then or at any later time, whatever the interleaving: a thread that raced past the
  first check is turned away by the second.\<close>

theorem port_drain_excludes:
  assumes "drain_step\<^sup>*\<^sup>* drain_init s" and "cpc s = Cleaning \<or> cpc s = Closed"
  shows "opc s t \<noteq> Inside"
  using drain_steps_inv [OF assms(1) drain_init_inv] assms(2) by (auto simp: drain_inv_def)

text \<open>A thread passes the first check, the port closes, and the thread is turned away.\<close>

lemma drain_run:
  "\<exists>s. drain_step\<^sup>*\<^sup>* drain_init s \<and> cpc s = Cleaning \<and> opc s 1 = Admitted"
proof -
  let ?s1 = "drain_init\<lparr>opc := (opc drain_init)(1 := Admitted)\<rparr>"
  let ?s2 = "?s1\<lparr>cpc := Waiting, life := LIFE_CLOSING\<rparr>"
  have "drain_step drain_init ?s1" by (rule begin_check) (simp_all add: drain_init_def)
  moreover have "drain_step ?s1 ?s2" by (rule close_start) (simp_all add: drain_init_def)
  moreover have "drain_step ?s2 (?s2\<lparr>cpc := Cleaning\<rparr>)" by (rule close_seen_zero) (simp_all add: drain_init_def)
  ultimately have "drain_step\<^sup>*\<^sup>* drain_init (?s2\<lparr>cpc := Cleaning\<rparr>)"
    by (meson converse_rtranclp_into_rtranclp r_into_rtranclp)
  then show ?thesis by (intro exI [of _ "?s2\<lparr>cpc := Cleaning\<rparr>"]) (simp add: drain_init_def)
qed

theorem port_drain_excludes_witness:
  "\<exists>s. drain_step\<^sup>*\<^sup>* drain_init s \<and> cpc s = Cleaning \<and> opc s 1 \<noteq> Inside"
  using drain_run port_drain_excludes by blast

lemma drain_one:
  assumes "drain_inv s" "cpc s = Waiting" "t \<in> counted s"
  shows "\<exists>s'. drain_step\<^sup>*\<^sup>* s s' \<and> cpc s' = Waiting \<and> counted s' = counted s - {t}"
proof -
  have l: "life s \<noteq> LIFE_REGISTERED" using assms by (auto simp: drain_inv_def)
  have leave: "\<exists>s'. drain_step\<^sup>*\<^sup>* s s' \<and> cpc s' = Waiting \<and> counted s' = counted s - {t}"
    if "opc s t = Undo \<or> opc s t = Inside" "cpc s = Waiting" for s
  proof (intro exI conjI)
    let ?s' = "s\<lparr>opc := (opc s)(t := Outside), count := count s - 1\<rparr>"
    show "drain_step\<^sup>*\<^sup>* s ?s'" using that by (auto intro: drain_step.intros)
    show "cpc ?s' = Waiting" "counted ?s' = counted s - {t}" using that by (simp_all add: counted_upd)
  qed
  show ?thesis
  proof (cases "opc s t = Counted")
    case True
    let ?s1 = "s\<lparr>opc := (opc s)(t := Undo)\<rparr>"
    have "drain_step s ?s1" using begin_recheck [OF True] l by simp
    moreover obtain s' where "drain_step\<^sup>*\<^sup>* ?s1 s'" "cpc s' = Waiting" "counted s' = counted ?s1 - {t}"
      using leave [of ?s1] assms(2) by auto
    moreover have "counted ?s1 = counted s" using assms(3) by (auto simp: counted_upd)
    ultimately show ?thesis by (metis converse_rtranclp_into_rtranclp)
  next
    case False
    with assms leave show ?thesis by (auto simp: counted_def)
  qed
qed

lemma drain_all:
  assumes "drain_inv s" "cpc s = Waiting"
  shows "\<exists>s'. drain_step\<^sup>*\<^sup>* s s' \<and> cpc s' = Waiting \<and> counted s' = {}"
  using assms
proof (induction "card (counted s)" arbitrary: s)
  case 0
  then have "counted s = {}" by (simp add: drain_inv_def)
  with 0 show ?case by blast
next
  case (Suc n)
  then obtain t where t: "t \<in> counted s" by (metis card.empty ex_in_conv nat.distinct(1))
  then obtain s1 where s1: "drain_step\<^sup>*\<^sup>* s s1" "cpc s1 = Waiting" "counted s1 = counted s - {t}"
    using drain_one Suc.prems by blast
  have "card (counted s1) = n" using Suc.hyps(2) t s1(3) Suc.prems(1) by (simp add: drain_inv_def)
  with Suc.hyps(1) [of s1] s1 drain_steps_inv [OF s1(1) Suc.prems(1)] show ?case
    by (meson rtranclp_trans)
qed

text \<open>C27. Closing never deadlocks: from every reachable state in which the closing thread waits, the threads
  that are counted can leave, in finitely many steps, so that it goes on.\<close>

theorem port_drain_completes:
  assumes "drain_step\<^sup>*\<^sup>* drain_init s" and "cpc s = Waiting"
  shows "\<exists>s'. drain_step\<^sup>*\<^sup>* s s' \<and> cpc s' = Closed"
proof -
  have inv: "drain_inv s" by (rule drain_steps_inv [OF assms(1) drain_init_inv])
  obtain s1 where s1: "drain_step\<^sup>*\<^sup>* s s1" "cpc s1 = Waiting" "counted s1 = {}"
    using drain_all [OF inv assms(2)] by blast
  have "drain_inv s1" by (rule drain_steps_inv [OF s1(1) inv])
  then have "count s1 = 0" "life s1 = LIFE_CLOSING" using s1 by (auto simp: drain_inv_def)
  then have "drain_step s1 (s1\<lparr>cpc := Cleaning\<rparr>)" "drain_step (s1\<lparr>cpc := Cleaning\<rparr>) (s1\<lparr>cpc := Closed, life := LIFE_CLOSED\<rparr>)"
    using close_seen_zero [OF s1(2)] close_done [of "s1\<lparr>cpc := Cleaning\<rparr>"] by simp_all
  with s1(1) have "drain_step\<^sup>*\<^sup>* s (s1\<lparr>cpc := Closed, life := LIFE_CLOSED\<rparr>)"
    by (meson rtranclp.rtrancl_into_rtrancl)
  then show ?thesis by (intro exI [of _ "s1\<lparr>cpc := Closed, life := LIFE_CLOSED\<rparr>"]) simp
qed

theorem port_drain_completes_witness:
  "\<exists>s s'. drain_step\<^sup>*\<^sup>* drain_init s \<and> cpc s = Waiting \<and> drain_step\<^sup>*\<^sup>* s s' \<and> cpc s' = Closed"
proof -
  have "drain_step drain_init (drain_init\<lparr>cpc := Waiting, life := LIFE_CLOSING\<rparr>)"
    by (rule close_start) (simp_all add: drain_init_def)
  then have s: "drain_step\<^sup>*\<^sup>* drain_init (drain_init\<lparr>cpc := Waiting, life := LIFE_CLOSING\<rparr>)" by blast
  then show ?thesis using port_drain_completes [OF s] by auto
qed

end
