(* ===== verification/Page_Slice.thy ===== *)
theory Page_Slice
  imports Tagged_Ptr "HOL-Library.Sublist"
begin

text \<open>
  Page slices, \<^verbatim>\<open>kernel/mm/page_slice.c\<close> and \<^verbatim>\<open>include/rendezvos/mm/page_slice.h\<close>: a radix tree of up to
  three index levels that maps page offsets to kernel pages.

  An index entry is a tagged pointer that packs a height and a live count with the address of a
  page; the packing is modelled on words. The tree itself is a datatype of pages in which every
  page has one owner. A C pointer to an entry is the list of slot numbers from the root to it
  (\<open>[]\<close> is \<^verbatim>\<open>&slice->root\<close>), read with \<open>at\<close> and written with \<open>upd\<close>. Freshly allocated pages are
  zeroed by \<^verbatim>\<open>m_alloc\<close>; its \<open>i\<close>-th call succeeds iff \<open>mem i\<close>. The data pages given to \<^verbatim>\<open>m_free\<close> are
  recorded in order. The list node embedded in a leaf entry is the client's and is left out.
\<close>

section \<open>Index entries as words\<close>

definition PS_ENTRY_LIVE_MASK :: u16 where "PS_ENTRY_LIVE_MASK = 2 ^ 13 - 1"

definition PS_ENTRY_HEIGHT_MASK :: u16 where "PS_ENTRY_HEIGHT_MASK = 2 ^ 3 - 1"

definition ps_entry_make_tag :: "u8 \<Rightarrow> u16 \<Rightarrow> u16" where
  "ps_entry_make_tag height live =
     push_bit 13 (ucast height AND PS_ENTRY_HEIGHT_MASK) OR (live AND PS_ENTRY_LIVE_MASK)"

definition ps_entry_get_height :: "tagged_ptr_t \<Rightarrow> u8" where
  "ps_entry_get_height entry = ucast (drop_bit 13 (tp_get_tag entry) AND PS_ENTRY_HEIGHT_MASK)"

definition ps_entry_get_live :: "tagged_ptr_t \<Rightarrow> u16" where
  "ps_entry_get_live entry = tp_get_tag entry AND PS_ENTRY_LIVE_MASK"

definition ps_entry_new :: "u64 \<Rightarrow> u8 \<Rightarrow> u16 \<Rightarrow> tagged_ptr_t" where
  "ps_entry_new ptr height live = tp_new ptr (ps_entry_make_tag height live)"

definition ps_entry_set_live :: "tagged_ptr_t \<Rightarrow> u16 \<Rightarrow> tagged_ptr_t" where
  "ps_entry_set_live entry live =
     tp_set_tag entry ((tp_get_tag entry AND NOT PS_ENTRY_LIVE_MASK) OR (live AND PS_ENTRY_LIVE_MASK))"

definition ps_entry_set_height :: "tagged_ptr_t \<Rightarrow> u8 \<Rightarrow> tagged_ptr_t" where
  "ps_entry_set_height entry height =
     tp_set_tag entry ((tp_get_tag entry AND PS_ENTRY_LIVE_MASK)
                       OR push_bit 13 (ucast height AND PS_ENTRY_HEIGHT_MASK))"

section \<open>The tree\<close>

record page_slice_entry =
  kva :: u64
  flags :: u64

definition FLAG_VALID :: u64 where "FLAG_VALID = 1"

definition FLAG_PIN :: u64 where "FLAG_PIN = 2"

datatype ps_page = LeafPage "nat \<Rightarrow> page_slice_entry" | IndexPage "nat \<Rightarrow> ps_ient"
  and ps_ient = E_None | Ent nat nat ps_page   \<comment> \<open>height, live, page\<close>

text \<open>What the slice sees of the allocator: the calls of \<^verbatim>\<open>m_alloc\<close> so far, the blocks it got (tree pages
  and the slice header), the blocks it gave back, and the data pages it gave to \<^verbatim>\<open>m_free\<close>, in order.\<close>

record kheap =
  allocs :: nat
  got :: nat
  put :: nat
  freed :: "u64 list"

record page_slice = kheap +
  root :: ps_ient
  size :: nat
  mapped_entries :: nat

definition LEAF_CAPACITY :: nat where "LEAF_CAPACITY = 128"

definition INDEX_CAPACITY :: nat where "INDEX_CAPACITY = 512"

definition MAX_BYTE_SIZE :: nat where "MAX_BYTE_SIZE = 2 ^ 34 * 4096"

definition SIZE_TO_PAGE_COUNT :: "nat \<Rightarrow> nat" where
  "SIZE_TO_PAGE_COUNT sz = (if sz = 0 then 0 else (sz + 4096 - 1) div 4096)"

definition LEAF_IDX :: "nat \<Rightarrow> nat" where
  "LEAF_IDX pgoff = pgoff mod 128"

definition INDEX_ENTRY :: "nat \<Rightarrow> nat \<Rightarrow> nat" where
  "INDEX_ENTRY pgoff level = pgoff div 2 ^ (7 + 9 * level) mod 512"

fun height_of :: "ps_ient \<Rightarrow> nat" where
  "height_of E_None = 0"
| "height_of (Ent h l p) = h"

fun live_of :: "ps_ient \<Rightarrow> nat" where
  "live_of E_None = 0"
| "live_of (Ent h l p) = l"

fun set_live :: "nat \<Rightarrow> ps_ient \<Rightarrow> ps_ient" where
  "set_live n E_None = E_None"
| "set_live n (Ent h l p) = Ent h n p"

definition points_to_leaf :: "ps_ient \<Rightarrow> bool" where
  "points_to_leaf e \<longleftrightarrow> height_of e = 2"

definition points_to_index :: "ps_ient \<Rightarrow> bool" where
  "points_to_index e \<longleftrightarrow> height_of e = 3 \<or> height_of e = 4"

definition stored_height :: "page_slice \<Rightarrow> nat" where
  "stored_height s = height_of (root s)"

definition root_empty :: "page_slice \<Rightarrow> bool" where
  "root_empty s \<longleftrightarrow> root s = E_None \<or> stored_height s = 0"

definition root_is_leaf :: "page_slice \<Rightarrow> bool" where
  "root_is_leaf s \<longleftrightarrow> stored_height s = 1"

definition root_is_index :: "page_slice \<Rightarrow> bool" where
  "root_is_index s \<longleftrightarrow> \<not> root_empty s \<and> 2 \<le> stored_height s \<and> stored_height s \<le> 4"

definition root_live :: "page_slice \<Rightarrow> nat" where
  "root_live s = (if root_empty s then 0 else live_of (root s))"

definition page_count :: "page_slice \<Rightarrow> nat" where
  "page_count s = SIZE_TO_PAGE_COUNT (size s)"

text \<open>Pointers to entries.\<close>

fun at :: "ps_ient \<Rightarrow> nat list \<Rightarrow> ps_ient" where
  "at e [] = e"
| "at (Ent h l (IndexPage f)) (s # q) = at (f s) q"
| "at _ (s # q) = E_None"

fun upd :: "nat list \<Rightarrow> (ps_ient \<Rightarrow> ps_ient) \<Rightarrow> ps_ient \<Rightarrow> ps_ient" where
  "upd [] F e = F e"
| "upd (s # q) F (Ent h l (IndexPage f)) = Ent h l (IndexPage (f(s := upd q F (f s))))"
| "upd (s # q) F e = e"

definition poke :: "nat list \<Rightarrow> (ps_ient \<Rightarrow> ps_ient) \<Rightarrow> page_slice \<Rightarrow> page_slice" where
  "poke q F s = s\<lparr>root := upd q F (root s)\<rparr>"

definition empty_entry :: page_slice_entry where
  "empty_entry = \<lparr>kva = 0, flags = 0\<rparr>"

definition valid_entry :: "page_slice_entry \<Rightarrow> bool" where
  "valid_entry e \<longleftrightarrow> flags e AND FLAG_VALID \<noteq> 0 \<and> kva e \<noteq> 0"

fun leaf_entry :: "ps_ient \<Rightarrow> nat \<Rightarrow> page_slice_entry" where
  "leaf_entry (Ent h l (LeafPage g)) i = g i"
| "leaf_entry _ i = empty_entry"

fun set_leaf_entry :: "nat \<Rightarrow> page_slice_entry \<Rightarrow> ps_ient \<Rightarrow> ps_ient" where
  "set_leaf_entry i v (Ent h l (LeafPage g)) = Ent h l (LeafPage (g(i := v)))"
| "set_leaf_entry i v e = e"

section \<open>Operations\<close>

fun leaf_index_loop :: "ps_ient \<Rightarrow> nat \<Rightarrow> nat \<Rightarrow> nat list \<Rightarrow> nat list option" where
  "leaf_index_loop r pgoff 0 q = Some (q @ [INDEX_ENTRY pgoff 0])"
| "leaf_index_loop r pgoff (Suc l) q =
     (let q' = q @ [INDEX_ENTRY pgoff (Suc l)] in
      if points_to_index (at r q') then leaf_index_loop r pgoff l q' else None)"

definition ps_leaf_index_entry :: "page_slice \<Rightarrow> nat \<Rightarrow> nat list option" where
  "ps_leaf_index_entry s pgoff =
     (if root_is_leaf s then Some []
      else if \<not> root_is_index s then None
      else leaf_index_loop (root s) pgoff (stored_height s - 2) [])"

definition ps_byte_size_valid :: "nat \<Rightarrow> error_t" where
  "ps_byte_size_valid sz = (if sz > MAX_BYTE_SIZE then E_REND_OVERFLOW else REND_SUCCESS)"

definition ps_pgoff_valid :: "page_slice \<Rightarrow> nat \<Rightarrow> error_t" where
  "ps_pgoff_valid s pgoff = (if pgoff \<ge> page_count s then E_IN_PARAM else REND_SUCCESS)"

definition ps_required_height_for_pgoff :: "nat \<Rightarrow> nat" where
  "ps_required_height_for_pgoff pgoff =
     (if pgoff < LEAF_CAPACITY then 1
      else if INDEX_ENTRY pgoff 2 \<noteq> 0 then 4
      else if INDEX_ENTRY pgoff 1 \<noteq> 0 then 3
      else 2)"

definition ps_entry_live_max_table :: "bool \<Rightarrow> nat \<Rightarrow> nat" where
  "ps_entry_live_max_table is_root h =
     (if h = 0 then 0 else if h = 1 then LEAF_CAPACITY
      else if h = 2 then (if is_root then INDEX_CAPACITY else LEAF_CAPACITY)
      else INDEX_CAPACITY)"

definition ps_entry_live_inc :: "nat list \<Rightarrow> page_slice \<Rightarrow> page_slice" where
  "ps_entry_live_inc q =
     poke q (\<lambda>e. if live_of e < ps_entry_live_max_table (q = []) (height_of e) then set_live (live_of e + 1) e else e)"

definition ps_entry_live_dec :: "nat list \<Rightarrow> page_slice \<Rightarrow> page_slice" where
  "ps_entry_live_dec q = poke q (\<lambda>e. if live_of e > 0 then set_live (live_of e - 1) e else e)"

definition m_alloc :: "(nat \<Rightarrow> bool) \<Rightarrow> 'a kheap_scheme \<Rightarrow> 'a kheap_scheme \<times> bool" where
  "m_alloc mem s =
     (s\<lparr>allocs := Suc (allocs s), got := (if mem (allocs s) then Suc (got s) else got s)\<rparr>, mem (allocs s))"

definition m_free :: "'a kheap_scheme \<Rightarrow> 'a kheap_scheme" where
  "m_free s = s\<lparr>put := Suc (put s)\<rparr>"

text \<open>One turn of the loop of \<^verbatim>\<open>ps_raise_height\<close>.\<close>

definition raise_once :: "page_slice \<Rightarrow> page_slice" where
  "raise_once s =
     (let new_height = (if stored_height s = 0 then 2 else stored_height s + 1);
          slot0 = (case root s of E_None \<Rightarrow> E_None | Ent h l p \<Rightarrow> Ent new_height (root_live s) p) in
      s\<lparr>root := Ent new_height (if slot0 = E_None then 0 else 1) (IndexPage ((\<lambda>_. E_None)(0 := slot0)))\<rparr>)"

lemma stored_height_raise: "stored_height (raise_once s) = (if stored_height s = 0 then 2 else stored_height s + 1)"
  by (simp add: raise_once_def stored_height_def Let_def)

lemma stored_height_alloc [simp]: "stored_height (fst (m_alloc mem s)) = stored_height s"
  by (simp add: m_alloc_def stored_height_def)

function raise_loop :: "(nat \<Rightarrow> bool) \<Rightarrow> nat \<Rightarrow> page_slice \<Rightarrow> page_slice \<times> error_t" where
  "raise_loop mem target s =
     (if stored_height s < target then
        (let (s, ok) = m_alloc mem s in
         if \<not> ok then (s, E_REND_NO_MEM) else raise_loop mem target (raise_once s))
      else (s, REND_SUCCESS))"
  by pat_completeness auto

termination raise_loop
proof (relation "measure (\<lambda>(mem, target, s). target - stored_height s)")
  fix mem target s x y z
  assume a: "stored_height s < target" "x = m_alloc mem s" "(y, z) = x"
  then have "stored_height y = stored_height s" by (metis fst_conv stored_height_alloc)
  then show "((mem, target, raise_once y), mem, target, s) \<in> measure (\<lambda>(mem, target, s). target - stored_height s)"
    using a(1) by (auto simp: stored_height_raise)
qed simp

declare raise_loop.simps [simp del]

definition ps_raise_height :: "(nat \<Rightarrow> bool) \<Rightarrow> nat \<Rightarrow> page_slice \<Rightarrow> page_slice \<times> error_t" where
  "ps_raise_height mem target s =
     (if target < 2 then (s, REND_SUCCESS)
      else if target > 4 then (s, E_REND_OVERFLOW)
      else raise_loop mem target s)"

text \<open>The walk of \<^verbatim>\<open>ps_descend_pgoff\<close> over the index levels. \<open>q\<close> is both the entry that points to
  \<^verbatim>\<open>index_page\<close> and \<^verbatim>\<open>structural_parent\<close>; \<open>paths\<close> are the entries stored through \<^verbatim>\<open>path0_out\<close> to
  \<^verbatim>\<open>path2_out\<close>, at most \<^verbatim>\<open>PS_STRUCTURAL_PATH_DEPTH\<close> of them.\<close>

definition new_child :: "nat list \<Rightarrow> nat list \<Rightarrow> ps_ient \<Rightarrow> page_slice \<Rightarrow> page_slice" where
  "new_child parent q e s = ps_entry_live_inc parent (poke q (\<lambda>_. e) s)"

text \<open>The code that makes sure that the slot \<open>i\<close> of a page is occupied, the same for index and leaf pages.\<close>

definition get_child ::
  "(nat \<Rightarrow> bool) \<Rightarrow> bool \<Rightarrow> nat list \<Rightarrow> nat \<Rightarrow> ps_ient \<Rightarrow> page_slice \<Rightarrow> page_slice \<times> error_t option" where
  "get_child mem create parent i e s =
     (if at (root s) (parent @ [i]) \<noteq> E_None then (s, None)
      else if \<not> create then (s, Some E_REND_NOFOUND)
      else (case m_alloc mem s of (s, ok) \<Rightarrow>
        if \<not> ok then (s, Some E_REND_NO_MEM)
        else (new_child parent (parent @ [i]) e s, None)))"

fun descend_loop ::
  "(nat \<Rightarrow> bool) \<Rightarrow> bool \<Rightarrow> bool \<Rightarrow> nat \<Rightarrow> nat \<Rightarrow> nat \<Rightarrow> nat list \<Rightarrow> nat list list \<Rightarrow> page_slice
   \<Rightarrow> page_slice \<times> (error_t + nat \<times> nat list \<times> nat list list)" where
  "descend_loop mem create want pgoff 0 page_h q paths s = (s, Inr (page_h, q, paths))"
| "descend_loop mem create want pgoff (Suc l) page_h q paths s =
     (let i = INDEX_ENTRY pgoff (Suc l); q' = q @ [i] in
      case get_child mem create q i (Ent page_h 0 (IndexPage (\<lambda>_. E_None))) s of
        (s, Some err) \<Rightarrow> (s, Inl err)
      | (s, None) \<Rightarrow>
          if want \<and> length paths \<ge> 3 then (s, Inl E_RENDEZVOS)
          else if \<not> points_to_index (at (root s) q')
            then (s, Inl (if create then E_RENDEZVOS else E_REND_NOFOUND))
          else descend_loop mem create want pgoff l (page_h - 1) q' (if want then paths @ [q'] else paths) s)"

definition ps_alloc_leaf_page :: ps_page where
  "ps_alloc_leaf_page = LeafPage (\<lambda>_. empty_entry)"

text \<open>The part of \<^verbatim>\<open>ps_descend_pgoff\<close> from \<^verbatim>\<open>bottom_index\<close> on, for a slice with an index root.\<close>

definition descend_bottom ::
  "(nat \<Rightarrow> bool) \<Rightarrow> bool \<Rightarrow> nat \<Rightarrow> nat \<Rightarrow> nat list \<Rightarrow> nat list list \<Rightarrow> page_slice
   \<Rightarrow> page_slice \<times> (error_t + nat list \<times> nat list list)" where
  "descend_bottom mem create pgoff page_h q paths s =
     (let i = INDEX_ENTRY pgoff 0; q' = q @ [i] in
      case get_child mem create q i (Ent page_h 0 ps_alloc_leaf_page) s of
        (s, Some err) \<Rightarrow> (s, Inl err)
      | (s, None) \<Rightarrow>
          if \<not> points_to_leaf (at (root s) q')
            then (s, Inl (if create then E_RENDEZVOS else E_REND_NOFOUND))
          else (s, Inr (q', paths)))"

text \<open>The result is the entry whose page is the leaf; \<^verbatim>\<open>*out_entry\<close> is slot \<open>LEAF_IDX pgoff\<close> of it.\<close>

definition ps_descend_pgoff ::
  "(nat \<Rightarrow> bool) \<Rightarrow> bool \<Rightarrow> bool \<Rightarrow> nat \<Rightarrow> page_slice
   \<Rightarrow> page_slice \<times> (error_t + nat list \<times> nat list list)" where
  "ps_descend_pgoff mem create want pgoff s =
     (let stored_h = stored_height s in
      if \<not> create \<and> stored_h < ps_required_height_for_pgoff pgoff then (s, Inl E_REND_NOFOUND)
      else if stored_h \<ge> 2 then
        if \<not> root_is_index s then (s, Inl E_REND_NOFOUND)
        else (case descend_loop mem create want pgoff (stored_h - 2) stored_h [] (if want then [[]] else []) s of
            (s, Inl e) \<Rightarrow> (s, Inl e)
          | (s, Inr (page_h, q, paths)) \<Rightarrow> descend_bottom mem create pgoff page_h q paths s)
      else if root_is_leaf s then (s, Inr ([], []))
      else if \<not> create then (s, Inl E_REND_NOFOUND)
      else (let (s, ok) = m_alloc mem s in
            if \<not> ok then (s, Inl E_REND_NO_MEM)
            else (s\<lparr>root := Ent 1 0 ps_alloc_leaf_page\<rparr>, Inr ([], []))))"

definition ps_get_entry ::
  "(nat \<Rightarrow> bool) \<Rightarrow> bool \<Rightarrow> nat \<Rightarrow> page_slice \<Rightarrow> page_slice \<times> (error_t + nat list \<times> nat list list)" where
  "ps_get_entry mem create pgoff s =
     (if ps_pgoff_valid s pgoff \<noteq> REND_SUCCESS then (s, Inl (ps_pgoff_valid s pgoff))
      else if create then
        (case ps_raise_height mem (ps_required_height_for_pgoff pgoff) s of
          (s, err) \<Rightarrow> if err \<noteq> REND_SUCCESS then (s, Inl err)
                      else ps_descend_pgoff mem create False pgoff s)
      else ps_descend_pgoff mem create False pgoff s)"

text \<open>Clearing a leaf entry gives its page to \<^verbatim>\<open>m_free\<close> unless it is pinned.\<close>

definition owned_page :: "page_slice_entry \<Rightarrow> u64 list" where
  "owned_page e = (if kva e \<noteq> 0 \<and> flags e AND FLAG_PIN = 0 then [kva e] else [])"

definition ps_clear_leaf_entry :: "nat list \<Rightarrow> nat \<Rightarrow> page_slice \<Rightarrow> page_slice" where
  "ps_clear_leaf_entry q i s =
     (let e = leaf_entry (at (root s) q) i;
          s = poke q (set_leaf_entry i empty_entry) s in
      s\<lparr>freed := freed s @ owned_page e\<rparr>)"

text \<open>\<^verbatim>\<open>ps_free_leaf_page\<close> and \<^verbatim>\<open>ps_free_index_page_recursive\<close>: the data pages freed, in order, and
  the number of tree pages freed.\<close>

primrec free_page :: "ps_page \<Rightarrow> u64 list \<times> nat" and free_ent :: "ps_ient \<Rightarrow> u64 list \<times> nat" where
  "free_page (LeafPage g) = (concat (map (\<lambda>i. owned_page (g i)) [0..<LEAF_CAPACITY]), 1)"
| "free_page (IndexPage f) =
     (concat (map (\<lambda>i. fst (free_ent (f i))) [0..<INDEX_CAPACITY]),
      Suc (sum_list (map (\<lambda>i. snd (free_ent (f i))) [0..<INDEX_CAPACITY])))"
| "free_ent E_None = ([], 0)"
| "free_ent (Ent h l p) = (if h = 2 \<or> h = 3 \<or> h = 4 then free_page p else ([], 0))"

definition free_root :: "page_slice \<Rightarrow> page_slice" where
  "free_root s =
     (case root s of
        E_None \<Rightarrow> s
      | Ent h l p \<Rightarrow> s\<lparr>freed := freed s @ fst (free_page p), put := put s + snd (free_page p), root := E_None\<rparr>)"

text \<open>\<open>qs\<close> lists the structural path from its deepest entry to the root.\<close>

fun ps_cascade_up_empty_index :: "nat list list \<Rightarrow> page_slice \<Rightarrow> page_slice" where
  "ps_cascade_up_empty_index [] s = s"
| "ps_cascade_up_empty_index (q # qs) s =
     (if live_of (at (root s) q) \<noteq> 0 then s
      else
        (let s = (if at (root s) q = E_None then s else m_free s);
             s = poke q (\<lambda>_. E_None) s;
             s = (case qs of [] \<Rightarrow> s | parent # _ \<Rightarrow> ps_entry_live_dec parent s) in
         ps_cascade_up_empty_index qs s))"

text \<open>The part of \<^verbatim>\<open>ps_remove_page_locked\<close> that runs when the leaf page got empty.\<close>

definition drop_leaf :: "nat list \<Rightarrow> nat list list \<Rightarrow> page_slice \<Rightarrow> page_slice" where
  "drop_leaf leaf_index paths s =
     (let s = (if at (root s) leaf_index = E_None then s
               else
                 (let s = m_free (poke leaf_index (\<lambda>_. E_None) s) in
                  case rev paths of [] \<Rightarrow> s | structural_parent # _ \<Rightarrow> ps_entry_live_dec structural_parent s)) in
      ps_cascade_up_empty_index (rev paths) s)"

definition ps_remove_page_locked :: "nat \<Rightarrow> bool \<Rightarrow> page_slice \<Rightarrow> page_slice \<times> error_t" where
  "ps_remove_page_locked pgoff missing_ok s =
     (let missing = (\<lambda>err. if missing_ok then REND_SUCCESS else err) in
      if root_empty s then (s, missing E_REND_NOFOUND)
      else case ps_descend_pgoff (\<lambda>_. False) False True pgoff s of
          (s, Inl err) \<Rightarrow> (s, missing err)
        | (s, Inr (q, paths)) \<Rightarrow>
            (case ps_leaf_index_entry s pgoff of
               None \<Rightarrow> (s, missing E_REND_NOFOUND)
             | Some leaf_index \<Rightarrow>
                 if \<not> valid_entry (leaf_entry (at (root s) q) (LEAF_IDX pgoff)) then (s, missing E_REND_NOFOUND)
                 else
                   (let s = ps_clear_leaf_entry q (LEAF_IDX pgoff) s;
                        s = s\<lparr>mapped_entries := mapped_entries s - 1\<rparr>;
                        s = ps_entry_live_dec leaf_index s in
                    if live_of (at (root s) leaf_index) \<noteq> 0 then (s, REND_SUCCESS)
                    else (drop_leaf leaf_index paths s, REND_SUCCESS))))"

text \<open>The loop of \<^verbatim>\<open>ps_shrink\<close>: an index root with slot 0 as its only child is replaced by the child.\<close>

fun slot0 :: "ps_ient \<Rightarrow> ps_ient" where
  "slot0 e = at e [0]"

definition unwrap_root :: "page_slice \<Rightarrow> page_slice" where
  "unwrap_root s =
     m_free (s\<lparr>root := (case slot0 (root s) of E_None \<Rightarrow> E_None | Ent h l p \<Rightarrow> Ent (stored_height s - 1) l p)\<rparr>)"

text \<open>The flag of \<open>shrink_loop\<close> says that the function returned from inside the loop.\<close>

function shrink_loop :: "page_slice \<Rightarrow> page_slice \<times> bool" where
  "shrink_loop s =
     (if root_is_index s \<and> root_live s = 1 \<and> slot0 (root s) \<noteq> E_None then
        if stored_height s = 2 \<and> points_to_leaf (slot0 (root s)) then (unwrap_root s, True)
        else shrink_loop (unwrap_root s)
      else (s, False))"
  by pat_completeness auto

termination shrink_loop
  by (relation "measure stored_height")
     (auto simp: unwrap_root_def m_free_def stored_height_def root_is_index_def split: ps_ient.splits)

declare shrink_loop.simps [simp del]

definition ps_shrink :: "page_slice \<Rightarrow> page_slice" where
  "ps_shrink s =
     (case shrink_loop s of
        (s, True) \<Rightarrow> s
      | (s, False) \<Rightarrow>
          if (root_is_leaf s \<or> root_is_index s) \<and> root_live s = 0 then free_root s else s)"

subsection \<open>The public interface\<close>

text \<open>A NULL slice pointer is \<open>None\<close>. The per-CPU allocator is taken to be installed.\<close>

definition page_slice_create :: "(nat \<Rightarrow> bool) \<Rightarrow> nat \<Rightarrow> kheap \<Rightarrow> kheap \<times> page_slice option" where
  "page_slice_create mem slice_size k =
     (if slice_size = 0 then (k, None)
      else if ps_byte_size_valid slice_size \<noteq> REND_SUCCESS then (k, None)
      else (case m_alloc mem k of (k, ok) \<Rightarrow>
        if \<not> ok then (k, None)
        else (k, Some (kheap.extend k (page_slice.fields E_None slice_size 0)))))"

fun page_slice_get_size :: "page_slice option \<Rightarrow> nat" where
  "page_slice_get_size None = 0"
| "page_slice_get_size (Some s) = size s"

fun page_slice_destroy :: "page_slice option \<Rightarrow> kheap option \<times> page_slice option \<times> error_t" where
  "page_slice_destroy None = (None, None, E_IN_PARAM)"
| "page_slice_destroy (Some s) =
     (let s = (if \<not> root_empty s then free_root s else s) in
      (Some (kheap.truncate (m_free s)), None, REND_SUCCESS))"

text \<open>The loop of \<^verbatim>\<open>page_slice_set_size\<close> that removes the pages from \<open>new_pages + n\<close> down to \<open>new_pages\<close>.\<close>

primrec truncate_loop :: "nat \<Rightarrow> nat \<Rightarrow> page_slice \<Rightarrow> page_slice" where
  "truncate_loop new_pages 0 s = s"
| "truncate_loop new_pages (Suc n) s =
     truncate_loop new_pages n (fst (ps_remove_page_locked (new_pages + n) True s))"

fun page_slice_set_size :: "page_slice option \<Rightarrow> nat \<Rightarrow> kheap option \<times> page_slice option \<times> error_t" where
  "page_slice_set_size None new_size = (None, None, E_IN_PARAM)"
| "page_slice_set_size (Some s) new_size =
     (if new_size = 0 then page_slice_destroy (Some s)
      else if ps_byte_size_valid new_size \<noteq> REND_SUCCESS then (None, Some s, ps_byte_size_valid new_size)
      else if new_size = size s then (None, Some s, REND_SUCCESS)
      else
        (let new_pages = SIZE_TO_PAGE_COUNT new_size;
             s = (if new_size < size s \<and> new_pages < page_count s
                  then truncate_loop new_pages (page_count s - new_pages) s else s);
             s = ps_shrink (s\<lparr>size := new_size\<rparr>) in
         (None, Some s, REND_SUCCESS)))"

text \<open>A found entry is returned by its value.\<close>

fun page_slice_lookup :: "page_slice option \<Rightarrow> nat \<Rightarrow> page_slice_entry option" where
  "page_slice_lookup None pgoff = None"
| "page_slice_lookup (Some s) pgoff =
     (case ps_get_entry (\<lambda>_. False) False pgoff s of
        (s, Inl err) \<Rightarrow> None
      | (s, Inr (q, paths)) \<Rightarrow>
          (let entry = leaf_entry (at (root s) q) (LEAF_IDX pgoff) in
           if \<not> valid_entry entry then None else Some entry))"

definition bind_entry :: "nat list \<Rightarrow> nat \<Rightarrow> u64 \<Rightarrow> u64 \<Rightarrow> page_slice \<Rightarrow> page_slice" where
  "bind_entry q pgoff page_address fl s =
     (let s = poke q (set_leaf_entry (LEAF_IDX pgoff) \<lparr>kva = page_address, flags = fl OR FLAG_VALID\<rparr>) s;
          s = s\<lparr>mapped_entries := mapped_entries s + 1\<rparr> in
      case ps_leaf_index_entry s pgoff of
        None \<Rightarrow> s
      | Some leaf_index \<Rightarrow> ps_entry_live_inc leaf_index s)"

fun page_slice_insert_page ::
  "(nat \<Rightarrow> bool) \<Rightarrow> page_slice option \<Rightarrow> nat \<Rightarrow> u64 \<Rightarrow> u64 \<Rightarrow> page_slice option \<times> error_t" where
  "page_slice_insert_page mem None pgoff page_address fl = (None, E_IN_PARAM)"
| "page_slice_insert_page mem (Some s) pgoff page_address fl =
     (if page_address = 0 then (Some s, E_IN_PARAM)
      else case ps_get_entry mem True pgoff s of
        (s, Inl err) \<Rightarrow> (Some s, err)
      | (s, Inr (q, paths)) \<Rightarrow>
          (let entry = leaf_entry (at (root s) q) (LEAF_IDX pgoff) in
           if valid_entry entry then (Some s, if kva entry = page_address then REND_SUCCESS else E_REND_AGAIN)
           else (Some (bind_entry q pgoff page_address fl s), REND_SUCCESS)))"

fun page_slice_remove_page :: "page_slice option \<Rightarrow> nat \<Rightarrow> page_slice option \<times> error_t" where
  "page_slice_remove_page None pgoff = (None, E_IN_PARAM)"
| "page_slice_remove_page (Some s) pgoff =
     (if ps_pgoff_valid s pgoff \<noteq> REND_SUCCESS then (Some s, ps_pgoff_valid s pgoff)
      else case ps_remove_page_locked pgoff False s of
        (s, err) \<Rightarrow>
          if err = REND_SUCCESS then (Some ((ps_shrink ^^ 4) s), err) else (Some s, err))"

section \<open>The packing of index entries\<close>

lemma entry_masks: "PS_ENTRY_LIVE_MASK = mask 13" "PS_ENTRY_HEIGHT_MASK = mask 3"
  by (simp_all add: PS_ENTRY_LIVE_MASK_def PS_ENTRY_HEIGHT_MASK_def mask_eq_exp_minus_1)

lemma bit_make_tag:
  "bit (ps_entry_make_tag h l) i \<longleftrightarrow> i < 16 \<and> (if i < 13 then bit l i else bit h (i - 13))"
  by (auto simp: ps_entry_make_tag_def entry_masks bit_simps dest: bit_imp_le_length)

lemma get_make_tag:
  "ps_entry_get_height (tp_new p (ps_entry_make_tag h l)) = take_bit 3 h"
  "ps_entry_get_live (tp_new p (ps_entry_make_tag h l)) = take_bit 13 l"
  by (rule bit_word_eqI, auto simp: ps_entry_get_height_def ps_entry_get_live_def entry_masks bit_make_tag bit_simps
      add.commute)+

lemma make_tag_get: "ps_entry_make_tag (ps_entry_get_height e) (ps_entry_get_live e) = tp_get_tag e"
  by (rule bit_word_eqI) (auto simp: bit_make_tag ps_entry_get_height_def ps_entry_get_live_def entry_masks bit_simps)

lemma set_live_new: "ps_entry_set_live e l = tp_new (tp_get_ptr e) (ps_entry_make_tag (ps_entry_get_height e) l)"
  unfolding ps_entry_set_live_def tp_set_tag_new
  by (rule arg_cong [of _ _ "tp_new (tp_get_ptr e)"], rule bit_word_eqI)
    (auto simp: bit_make_tag ps_entry_get_height_def entry_masks bit_simps)

lemma set_height_new: "ps_entry_set_height e h = tp_new (tp_get_ptr e) (ps_entry_make_tag h (ps_entry_get_live e))"
  unfolding ps_entry_set_height_def tp_set_tag_new
  by (rule arg_cong [of _ _ "tp_new (tp_get_ptr e)"], rule bit_word_eqI)
    (auto simp: bit_make_tag ps_entry_get_live_def entry_masks bit_simps dest: bit_imp_le_length)

lemma take_bit_unat: "unat w < 2 ^ n \<Longrightarrow> take_bit n w = w"
  by (metis take_bit_nat_eq_self unsigned_take_bit_eq unsigned_word_eqI)

lemma take_bit_get [simp]: "take_bit 3 (ps_entry_get_height e) = ps_entry_get_height e"
  "take_bit 13 (ps_entry_get_live e) = ps_entry_get_live e"
  by (rule bit_word_eqI, auto simp: ps_entry_get_height_def ps_entry_get_live_def entry_masks bit_simps)+

text \<open>The packing of an index entry loses nothing: an entry made from a canonical page address, a height
  below 8 and a live count below 8192 gives all three back, and setting the live count or the height of any
  entry changes that field and neither of the other two.\<close>

theorem ps_entry_roundtrip:
  assumes "canonical p" "unat h < 2 ^ 3" "unat l < 2 ^ 13"
  shows "tp_get_ptr (ps_entry_new p h l) = p \<and> ps_entry_get_height (ps_entry_new p h l) = h
           \<and> ps_entry_get_live (ps_entry_new p h l) = l
       \<and> ps_entry_get_live (ps_entry_set_live e l) = l \<and> ps_entry_get_height (ps_entry_set_live e l) = ps_entry_get_height e
           \<and> tp_get_ptr (ps_entry_set_live e l) = tp_get_ptr e
       \<and> ps_entry_get_height (ps_entry_set_height e h) = h \<and> ps_entry_get_live (ps_entry_set_height e h) = ps_entry_get_live e
           \<and> tp_get_ptr (ps_entry_set_height e h) = tp_get_ptr e"
  using take_bit_unat [OF assms(2)] take_bit_unat [OF assms(3)]
  by (simp add: ps_entry_new_def set_live_new set_height_new get_make_tag tp_get_ptr_new assms(1))

theorem ps_entry_roundtrip_witness:
  "ps_entry_get_height (ps_entry_new 4096 4 512) = 4 \<and> ps_entry_get_live (ps_entry_new 4096 4 512) = 512
   \<and> tp_get_ptr (ps_entry_new 4096 4 512) = 4096"
proof -
  have b: "\<not> bit (4096::u64) i" if "47 \<le> i" for i
    using that bit_push_bit_iff [of 12 "1::u64" i] by (simp add: bit_1_iff)
  then have "canonical 4096" by (simp add: canonical_def)
  from ps_entry_roundtrip [OF this, of 4 512] show ?thesis by simp
qed

end
