(* ===== verification/Page_Slice_Spec.thy ===== *)
theory Page_Slice_Spec
  imports Page_Slice
begin

text \<open>
  Correctness of page slices (\<open>Page_Slice\<close>). A tree is well-formed when all pages below an index page have
  the height the index page says, and every live count is the number of occupied slots (\<open>wf_page\<close>, \<open>tree_ok\<close>).
  A well-formed slice stands for a map from page offsets to entries (\<open>slice_map\<close>). Every C write is an update
  at the end of a path; \<open>upd_page\<close> says what such an update does to the whole tree. The grow, prune and shrink
  steps then keep the map (\<open>keeps\<close>), inserting and removing change it at one offset (\<open>edits\<close>), and the
  public operations are exact on the map.
\<close>

section \<open>Well-formed trees\<close>

fun used :: "ps_page \<Rightarrow> nat" where
  "used (LeafPage g) = card {i. i < LEAF_CAPACITY \<and> valid_entry (g i)}"
| "used (IndexPage f) = card {i. i < INDEX_CAPACITY \<and> f i \<noteq> E_None}"

text \<open>\<open>wf_page n p\<close>: a page of height \<open>n\<close>, 1 for leaf pages; the live counts are exact.\<close>

fun wf_page :: "nat \<Rightarrow> ps_page \<Rightarrow> bool" where
  "wf_page (Suc 0) (LeafPage g) \<longleftrightarrow> (\<forall>i. g i = empty_entry \<or> valid_entry (g i) \<and> i < LEAF_CAPACITY)"
| "wf_page (Suc (Suc n)) (IndexPage f) \<longleftrightarrow>
     (\<forall>i. case f i of
            E_None \<Rightarrow> True
          | Ent h l p \<Rightarrow> i < INDEX_CAPACITY \<and> h = Suc (Suc n) \<and> l = used p \<and> wf_page (Suc n) p)"
| "wf_page _ _ \<longleftrightarrow> False"

fun page_get :: "nat \<Rightarrow> ps_page \<Rightarrow> nat \<Rightarrow> page_slice_entry" where
  "page_get (Suc 0) (LeafPage g) x = g (LEAF_IDX x)"
| "page_get (Suc (Suc n)) (IndexPage f) x =
     (case f (INDEX_ENTRY x n) of E_None \<Rightarrow> empty_entry | Ent h l p \<Rightarrow> page_get (Suc n) p x)"
| "page_get _ _ x = empty_entry"

fun tree_pages :: "ps_ient \<Rightarrow> nat" where
  "tree_pages E_None = 0"
| "tree_pages (Ent h l p) = snd (free_page p)"

fun on_path :: "nat \<Rightarrow> nat list \<Rightarrow> nat \<Rightarrow> bool" where
  "on_path n [] x \<longleftrightarrow> True"
| "on_path n (s # q) x \<longleftrightarrow> INDEX_ENTRY x (n - 2) = s \<and> on_path (n - 1) q x"

lemma LEAF_IDX_less [simp]: "LEAF_IDX x < LEAF_CAPACITY"
  by (simp add: LEAF_IDX_def LEAF_CAPACITY_def)

lemma INDEX_ENTRY_less [simp]: "INDEX_ENTRY x l < INDEX_CAPACITY"
  by (simp add: INDEX_ENTRY_def INDEX_CAPACITY_def)

lemma on_path_append: "on_path n (q @ r) x \<longleftrightarrow> on_path n q x \<and> on_path (n - length q) r x"
  by (induction n q x rule: on_path.induct) auto

lemma at_None [simp]: "at E_None q = E_None"
  by (cases q) auto

lemma at_append: "at e (q @ r) = at (at e q) r"
proof (induction q arbitrary: e)
  case (Cons s q)
  show ?case by (rule at.cases [of "(e, s # q)"]) (simp_all add: Cons at_None)
qed simp

lemma upd_append: "upd (q @ r) F e = upd q (upd r F) e"
proof (induction q arbitrary: e)
  case (Cons s q)
  show ?case by (cases "(s # q, F, e)" rule: upd.cases) (auto simp: Cons)
qed simp

lemma upd_comp: "upd q F (upd q G e) = upd q (\<lambda>e. F (G e)) e"
proof (induction q arbitrary: e)
  case (Cons s q)
  show ?case by (cases "(s # q, F, e)" rule: upd.cases) (auto simp: Cons)
qed simp

lemma at_upd: "at e q \<noteq> E_None \<Longrightarrow> at (upd q F e) q = F (at e q)"
proof (induction q arbitrary: e)
  case (Cons s q)
  then show ?case by (cases "(s # q, F, e)" rule: upd.cases) auto
qed simp

lemma upd_upd_slot:
  "upd q F (upd (q @ [s]) G e) = upd q (\<lambda>e. F (upd [s] G e)) e"
  by (simp add: upd_append upd_comp)

lemma wf_page_Suc_cases:
  assumes "wf_page n p"
  obtains (leaf) g where "n = Suc 0" "p = LeafPage g" | (index) m f where "n = Suc (Suc m)" "p = IndexPage f"
  using assms by (cases "(n, p)" rule: wf_page.cases) auto

lemma wf_page_slot:
  assumes "wf_page (Suc (Suc n)) (IndexPage f)" "f i = Ent h l p"
  shows "i < INDEX_CAPACITY" "h = Suc (Suc n)" "l = used p" "wf_page (Suc n) p"
  using assms by (auto dest!: spec [of _ i])

text \<open>What the entry at the end of a path is.\<close>

lemma at_wf:
  assumes "wf_page n p" "at (Ent t (used p) p) q = Ent t' l' p'"
  shows "l' = used p' \<and> length q < n \<and> wf_page (n - length q) p' \<and> (q \<noteq> [] \<longrightarrow> t' = Suc (n - length q))"
  using assms
proof (induction q arbitrary: n p t)
  case Nil
  then show ?case by (auto elim: wf_page_Suc_cases)
next
  case (Cons s q)
  from Cons.prems(1) show ?case
  proof (cases rule: wf_page_Suc_cases)
    case leaf
    then show ?thesis using Cons.prems by simp
  next
    case (index m f)
    then have a: "at (f s) q = Ent t' l' p'" using Cons.prems by simp
    then obtain t1 l1 p1 where f: "f s = Ent t1 l1 p1" by (cases "f s") auto
    note w = wf_page_slot [OF Cons.prems(1) [unfolded index] f]
    have "l' = used p' \<and> length q < Suc m \<and> wf_page (Suc m - length q) p' \<and> (q \<noteq> [] \<longrightarrow> t' = Suc (Suc m - length q))"
      using Cons.IH [OF w(4), of t1] a f w(3) by simp
    then show ?thesis using index f a w by (cases q) auto
  qed
qed

lemma page_get_at:
  assumes "wf_page n p" "on_path n q x" "at (Ent t l p) q = Ent t' l' p'"
  shows "page_get n p x = page_get (n - length q) p' x"
  using assms
proof (induction q arbitrary: n p t l)
  case (Cons s q)
  from Cons.prems(1) show ?case
  proof (cases rule: wf_page_Suc_cases)
    case (index m f)
    then have a: "at (f s) q = Ent t' l' p'" using Cons.prems by simp
    then obtain t1 l1 p1 where f: "f s = Ent t1 l1 p1" by (cases "f s") auto
    note w = wf_page_slot [OF Cons.prems(1) [unfolded index] f]
    show ?thesis using Cons.IH [OF w(4), of t1 l1] a f index Cons.prems(2) by simp
  qed (use Cons.prems in simp)
qed simp

lemma page_get_at_None:
  assumes "wf_page n p" "on_path n q x" "at (Ent t l p) q = E_None"
  shows "page_get n p x = empty_entry \<or> length q \<ge> n"
  using assms
proof (induction q arbitrary: n p t l)
  case (Cons s q)
  from Cons.prems(1) show ?case
  proof (cases rule: wf_page_Suc_cases)
    case (index m f)
    show ?thesis
    proof (cases "f s")
      case (Ent t1 l1 p1)
      note w = wf_page_slot [OF Cons.prems(1) [unfolded index] Ent]
      show ?thesis using Cons.IH [OF w(4), of t1 l1] Ent index Cons.prems by simp
    qed (use index Cons.prems in simp)
  qed (use Cons.prems in simp)
qed simp

text \<open>Replacing the page at the end of a path, with its live count: the tree stays well-formed, and
  only what lies below the path changes.\<close>

lemma free_ent_wf:
  assumes "wf_page (Suc (Suc m)) (IndexPage f)" "m \<le> 2"
  shows "free_ent (f i) = (case f i of E_None \<Rightarrow> ([], 0) | Ent h l p \<Rightarrow> free_page p)"
proof (cases "f i")
  case (Ent h l p)
  with wf_page_slot(2) [OF assms(1) Ent] assms(2) show ?thesis by auto
qed simp

lemma tree_pages_slots:
  assumes "wf_page (Suc (Suc m)) (IndexPage f)" "m \<le> 2"
  shows "snd (free_page (IndexPage f)) = Suc (\<Sum>i<INDEX_CAPACITY. tree_pages (f i))"
proof -
  have "snd (free_ent (f i)) = tree_pages (f i)" for i
    by (simp add: free_ent_wf [OF assms] split: ps_ient.split)
  then show ?thesis by (simp add: interv_sum_list_conv_sum_set_nat atLeast0LessThan)
qed

lemma sum_fun_upd:
  fixes a :: "'a \<Rightarrow> nat" and i N :: nat
  assumes "i < N"
  shows "(\<Sum>j<N. a ((f(i := v)) j)) + a (f i) = (\<Sum>j<N. a (f j)) + a v"
proof -
  have i: "i \<in> {..<N}" using assms by simp
  have "(\<Sum>j\<in>{..<N} - {i}. a ((f(i := v)) j)) = (\<Sum>j\<in>{..<N} - {i}. a (f j))"
    by (rule sum.cong) auto
  then show ?thesis
    using sum.remove [OF finite_lessThan i, of "\<lambda>j. a ((f(i := v)) j)"] sum.remove [OF finite_lessThan i, of "\<lambda>j. a (f j)"] by simp
qed

lemma wf_page_replace:
  assumes "wf_page (Suc (Suc m)) (IndexPage f)" "m \<le> 2" "f s = Ent t l p"
    and "wf_page (Suc m) P"
  defines "f' \<equiv> f(s := Ent t (used P) P)"
  shows "wf_page (Suc (Suc m)) (IndexPage f')"
    and "used (IndexPage f') = used (IndexPage f)"
    and "snd (free_page (IndexPage f')) + snd (free_page p) = snd (free_page (IndexPage f)) + snd (free_page P)"
proof -
  note w = wf_page_slot [OF assms(1,3)]
  show f': "wf_page (Suc (Suc m)) (IndexPage f')"
    using assms(1,4) w unfolding f'_def by (auto simp del: used.simps)
  have "{i. i < INDEX_CAPACITY \<and> f' i \<noteq> E_None} = {i. i < INDEX_CAPACITY \<and> f i \<noteq> E_None}"
    using assms(3) unfolding f'_def by auto
  then show "used (IndexPage f') = used (IndexPage f)" by (simp only: used.simps)
  show "snd (free_page (IndexPage f')) + snd (free_page p) = snd (free_page (IndexPage f)) + snd (free_page P)"
    unfolding tree_pages_slots [OF f' assms(2)] tree_pages_slots [OF assms(1,2)]
    using sum_fun_upd [OF w(1), of tree_pages f "Ent t (used P) P"] assms(3) unfolding f'_def
    by (simp del: fun_upd_apply)
qed

lemma upd_page:
  assumes "wf_page n p" "n \<le> 4" "at (Ent t (used p) p) q = Ent t' l' p'"
    and "F (Ent t' l' p') = Ent t' (used p'') p''" "wf_page (n - length q) p''"
  shows "\<exists>P. upd q F (Ent t (used p) p) = Ent t (used P) P \<and> wf_page n P
           \<and> (\<forall>x. page_get n P x = (if on_path n q x then page_get (n - length q) p'' x else page_get n p x))
           \<and> snd (free_page P) + snd (free_page p') = snd (free_page p) + snd (free_page p'')"
  using assms
proof (induction q arbitrary: n p t)
  case (Cons s q)
  from Cons.prems(1) show ?case
  proof (cases rule: wf_page_Suc_cases)
    case (index m f)
    then have a: "at (f s) q = Ent t' l' p'" using Cons.prems by simp
    then obtain t1 l1 p1 where f: "f s = Ent t1 l1 p1" by (cases "f s") auto
    have m: "m \<le> 2" using index Cons.prems(2) by simp
    note w = wf_page_slot [OF Cons.prems(1) [unfolded index] f]
    obtain P where P: "upd q F (f s) = Ent t1 (used P) P" "wf_page (Suc m) P"
      "\<And>x. page_get (Suc m) P x = (if on_path (Suc m) q x then page_get (Suc m - length q) p'' x else page_get (Suc m) p1 x)"
      "snd (free_page P) + snd (free_page p') = snd (free_page p1) + snd (free_page p'')"
      using Cons.IH [OF w(4), of t1] a f w(3) Cons.prems(4,5) m index by auto
    note r = wf_page_replace [OF Cons.prems(1) [unfolded index] m f P(2)]
    show ?thesis
      using r P(1,3,4) f index by (intro exI [of _ "IndexPage (f(s := Ent t1 (used P) P))"]) (auto simp del: used.simps)
  qed (use Cons.prems in simp)
qed simp

lemma card_insert_slot:
  fixes f :: "nat \<Rightarrow> 'a"
  assumes "s < N" "\<not> Q (f s)" "Q v"
  shows "card {i. i < N \<and> Q ((f(s := v)) i)} = Suc (card {i. i < N \<and> Q (f i)})"
    and "card {i. i < N \<and> Q (f i)} < N"
proof -
  have e: "{i. i < N \<and> Q ((f(s := v)) i)} = insert s {i. i < N \<and> Q (f i)}" using assms by auto
  have fin: "finite {i. i < N \<and> Q (f i)}" by simp
  show 1: "card {i. i < N \<and> Q ((f(s := v)) i)} = Suc (card {i. i < N \<and> Q (f i)})"
    unfolding e using fin assms(2) by simp
  have "card {i. i < N \<and> Q ((f(s := v)) i)} \<le> card {..<N}" by (rule card_mono) auto
  then show "card {i. i < N \<and> Q (f i)} < N" using 1 by simp
qed

lemma wf_page_add:
  assumes "wf_page (Suc (Suc m)) (IndexPage f)" "m \<le> 2" "f s = E_None" "s < INDEX_CAPACITY" "wf_page (Suc m) P"
  defines "f' \<equiv> f(s := Ent (Suc (Suc m)) (used P) P)"
  shows "wf_page (Suc (Suc m)) (IndexPage f')"
    and "used (IndexPage f') = Suc (used (IndexPage f))" and "used (IndexPage f) < INDEX_CAPACITY"
    and "snd (free_page (IndexPage f')) = snd (free_page (IndexPage f)) + snd (free_page P)"
proof -
  show f': "wf_page (Suc (Suc m)) (IndexPage f')"
    using assms(1,4,5) unfolding f'_def by (auto simp del: used.simps)
  show "used (IndexPage f') = Suc (used (IndexPage f))" "used (IndexPage f) < INDEX_CAPACITY"
    using card_insert_slot [of s INDEX_CAPACITY "\<lambda>e. e \<noteq> E_None" f "Ent (Suc (Suc m)) (used P) P"] assms(3,4)
    unfolding f'_def by (simp_all del: fun_upd_apply)
  show "snd (free_page (IndexPage f')) = snd (free_page (IndexPage f)) + snd (free_page P)"
    unfolding tree_pages_slots [OF f' assms(2)] tree_pages_slots [OF assms(1,2)]
    using sum_fun_upd [OF assms(4), of tree_pages f "Ent (Suc (Suc m)) (used P) P"] assms(3) unfolding f'_def
    by (simp del: fun_upd_apply)
qed

lemma wf_page_del:
  assumes "wf_page (Suc (Suc m)) (IndexPage f)" "m \<le> 2" "f s = Ent t l p"
  defines "f' \<equiv> f(s := E_None)"
  shows "wf_page (Suc (Suc m)) (IndexPage f')"
    and "used (IndexPage f) = Suc (used (IndexPage f'))"
    and "snd (free_page (IndexPage f)) = snd (free_page (IndexPage f')) + snd (free_page p)"
proof -
  note w = wf_page_slot [OF assms(1,3)]
  have f: "f = f'(s := Ent (Suc (Suc m)) (used p) p)" using w assms(3) unfolding f'_def by auto
  show f': "wf_page (Suc (Suc m)) (IndexPage f')"
    using assms(1) unfolding f'_def by (auto simp del: used.simps)
  note a = wf_page_add [OF f' assms(2) _ w(1,4)]
  show "used (IndexPage f) = Suc (used (IndexPage f'))"
    "snd (free_page (IndexPage f)) = snd (free_page (IndexPage f')) + snd (free_page p)"
    using a(2,4) unfolding f [symmetric] by (simp_all add: f'_def)
qed

lemma used_0_leaf:
  assumes "wf_page (Suc 0) (LeafPage g)" "used (LeafPage g) = 0"
  shows "g i = empty_entry"
  using assms by auto

lemma used_0_index:
  assumes "wf_page (Suc (Suc m)) (IndexPage f)" "used (IndexPage f) = 0"
  shows "f i = E_None"
proof -
  have fin: "finite {i. i < INDEX_CAPACITY \<and> f i \<noteq> E_None}" by simp
  have "f i = E_None" if "i < INDEX_CAPACITY" using assms(2) fin that by auto
  then show ?thesis using wf_page_slot(1) [OF assms(1), of i] by (cases "f i") auto
qed

lemma used_0_page:
  assumes "wf_page n p" "used p = 0" "n \<le> 4"
  shows "page_get n p x = empty_entry" "snd (free_page p) = 1" "fst (free_page p) = []"
proof -
  have "page_get n p x = empty_entry \<and> snd (free_page p) = 1 \<and> fst (free_page p) = []" using assms(1)
  proof (cases rule: wf_page_Suc_cases)
    case (leaf g)
    then have "g i = empty_entry" for i using used_0_leaf assms by blast
    moreover have "owned_page empty_entry = []" by (simp add: owned_page_def empty_entry_def)
    ultimately show ?thesis using leaf by simp
  next
    case (index m f)
    then have "f i = E_None" for i using used_0_index assms by blast
    then show ?thesis using index by simp
  qed
  then show "page_get n p x = empty_entry" "snd (free_page p) = 1" "fst (free_page p) = []" by simp_all
qed

section \<open>The slice as a map\<close>

definition capacity :: "nat \<Rightarrow> nat" where
  "capacity h = 128 * 512 ^ (h - 1)"

definition slice_map :: "page_slice \<Rightarrow> nat \<Rightarrow> page_slice_entry" where
  "slice_map s x =
     (case root s of E_None \<Rightarrow> empty_entry | Ent h l p \<Rightarrow> if x < capacity h then page_get h p x else empty_entry)"

fun tree_ok :: "ps_ient \<Rightarrow> bool" where
  "tree_ok E_None \<longleftrightarrow> True"
| "tree_ok (Ent h l p) \<longleftrightarrow> 1 \<le> h \<and> h \<le> 4 \<and> l = used p \<and> wf_page h p"

text \<open>\<open>keeps s s'\<close>: the tree was restructured without a change to what it maps, and every tree page
  is still accounted for.\<close>

definition keeps :: "page_slice \<Rightarrow> page_slice \<Rightarrow> bool" where
  "keeps s s' \<longleftrightarrow> tree_ok (root s') \<and> slice_map s' = slice_map s \<and> size s' = size s
     \<and> mapped_entries s' = mapped_entries s \<and> freed s' = freed s
     \<and> got s' + put s + tree_pages (root s) = got s + put s' + tree_pages (root s')"

lemma keeps_refl: "tree_ok (root s) \<Longrightarrow> keeps s s"
  by (simp add: keeps_def)

lemma keeps_trans: "keeps a b \<Longrightarrow> keeps b c \<Longrightarrow> keeps a c"
  by (auto simp: keeps_def)

lemma poke_sel [simp]:
  "root (poke q F s) = upd q F (root s)" "size (poke q F s) = size s" "freed (poke q F s) = freed s"
  "mapped_entries (poke q F s) = mapped_entries s" "got (poke q F s) = got s" "put (poke q F s) = put s"
  "allocs (poke q F s) = allocs s"
  by (simp_all add: poke_def)

lemma poke_poke [simp]: "poke q F (poke q G s) = poke q (\<lambda>e. F (G e)) s"
  by (simp add: poke_def upd_comp)

lemma poke_slot: "poke q F (poke (q @ [i]) G s) = poke q (\<lambda>e. F (upd [i] G e)) s"
  by (simp add: poke_def upd_append upd_comp)

text \<open>A poke at an entry that stays an entry of the same height.\<close>

lemma slice_poke:
  assumes "tree_ok (root s)" "root s = Ent h l p" "at (root s) q = Ent t l' p'"
    and "F (Ent t l' p') = Ent t (used p'') p''" "wf_page (h - length q) p''"
  obtains P where "root (poke q F s) = Ent h (used P) P" "tree_ok (root (poke q F s))"
    "\<And>x. slice_map (poke q F s) x =
       (if on_path h q x \<and> x < capacity h then page_get (h - length q) p'' x else slice_map s x)"
    "tree_pages (root (poke q F s)) + snd (free_page p') = tree_pages (root s) + snd (free_page p'')"
    "at (root (poke q F s)) q = Ent t (used p'') p''"
proof -
  have h: "1 \<le> h" "h \<le> 4" "l = used p" "wf_page h p" using assms(1,2) by auto
  obtain P where P: "upd q F (Ent h (used p) p) = Ent h (used P) P" "wf_page h P"
    "\<forall>x. page_get h P x = (if on_path h q x then page_get (h - length q) p'' x else page_get h p x)"
    "snd (free_page P) + snd (free_page p') = snd (free_page p) + snd (free_page p'')"
    using upd_page [of h p h q t l' p' F p''] assms h by auto
  have r: "root (poke q F s) = Ent h (used P) P" using P(1) assms(2) h(3) by simp
  show thesis
    using that [OF r] P h assms r at_upd [of "root s" q F] by (auto simp: slice_map_def)
qed

lemma slice_map_sel [simp]:
  "slice_map (s\<lparr>got := a\<rparr>) = slice_map s" "slice_map (s\<lparr>put := a\<rparr>) = slice_map s"
  "slice_map (s\<lparr>allocs := a\<rparr>) = slice_map s" "slice_map (s\<lparr>freed := b\<rparr>) = slice_map s"
  "slice_map (s\<lparr>size := a\<rparr>) = slice_map s" "slice_map (s\<lparr>mapped_entries := a\<rparr>) = slice_map s"
  by (simp_all add: slice_map_def fun_eq_iff)

text \<open>Where the paths of a slice lead.\<close>

lemma at_tree:
  assumes "tree_ok (root s)" "root s = Ent h l p" "at (root s) q = Ent t l' p'"
  shows "l' = used p'" "length q < h" "wf_page (h - length q) p'" "t = (if q = [] then h else Suc (h - length q))"
  using at_wf [of h p h q t l' p'] assms by auto

lemma slice_map_at:
  assumes "tree_ok (root s)" "root s = Ent h l p" "at (root s) q = Ent t l' p'" "on_path h q x" "x < capacity h"
  shows "slice_map s x = page_get (h - length q) p' x"
  using page_get_at [of h p q x h l t l' p'] assms by (auto simp: slice_map_def)

lemma slice_poke_same:
  assumes "tree_ok (root s)" "root s = Ent h l p" "at (root s) q = Ent t l' p'"
    and "F (Ent t l' p') = Ent t (used p'') p''" "wf_page (h - length q) p''"
    and "\<And>x. page_get (h - length q) p'' x = page_get (h - length q) p' x"
  shows "\<exists>p2. root (poke q F s) = Ent h (used p2) p2" "tree_ok (root (poke q F s))" "slice_map (poke q F s) = slice_map s"
    "tree_pages (root (poke q F s)) + snd (free_page p') = tree_pages (root s) + snd (free_page p'')"
    "at (root (poke q F s)) q = Ent t (used p'') p''"
proof -
  obtain p2 where r: "root (poke q F s) = Ent h (used p2) p2" "tree_ok (root (poke q F s))"
    "\<And>x. slice_map (poke q F s) x =
       (if on_path h q x \<and> x < capacity h then page_get (h - length q) p'' x else slice_map s x)"
    "tree_pages (root (poke q F s)) + snd (free_page p') = tree_pages (root s) + snd (free_page p'')"
    "at (root (poke q F s)) q = Ent t (used p'') p''"
    by (rule slice_poke [of s h l p q t l' p' F p'', OF assms(1-5)]) blast
  show "\<exists>p2. root (poke q F s) = Ent h (used p2) p2" using r(1) by blast
  show "slice_map (poke q F s) = slice_map s"
    using r(3) slice_map_at [OF assms(1-3)] assms(6) by (intro ext) simp
  show "tree_ok (root (poke q F s))" "at (root (poke q F s)) q = Ent t (used p'') p''"
    "tree_pages (root (poke q F s)) + snd (free_page p') = tree_pages (root s) + snd (free_page p'')"
    by (fact r)+
qed

text \<open>Hanging an empty page into a free slot.\<close>

lemma new_child_keeps:
  assumes "tree_ok (root s)" "root s = Ent h l p" "at (root s) q = Ent t l' p'" "Suc (length q) < h"
    and "i < INDEX_CAPACITY" "at (root s) (q @ [i]) = E_None"
    and "wf_page (h - Suc (length q)) P" "used P = 0"
  defines "s' \<equiv> new_child q (q @ [i]) (Ent (h - length q) 0 P) s"
  shows "\<exists>p2. root s' = Ent h (used p2) p2" "keeps s (s'\<lparr>got := Suc (got s')\<rparr>)"
    "at (root s') (q @ [i]) = Ent (h - length q) 0 P" "tree_ok (root s')"
proof -
  note a = at_tree [OF assms(1-3)]
  have h4: "h \<le> 4" using assms(1,2) by simp
  obtain m where m: "h - length q = Suc (Suc m)" "m \<le> 2" using assms(4) h4
    by (intro that [of "h - length q - 2"]) auto
  then obtain f where p': "p' = IndexPage f" using a(3) by (auto elim: wf_page_Suc_cases)
  have fi: "f i = E_None" using assms(3,6) p' by (simp add: at_append)
  have P: "wf_page (Suc m) P" using assms(7) m(1) by (metis Suc_diff_Suc assms(4) diff_Suc_Suc Suc_lessD diff_Suc_1)
  define f' where "f' = f(i := Ent (Suc (Suc m)) (used P) P)"
  note w = wf_page_add [OF a(3) [unfolded m(1) p'] m(2) fi assms(5) P, folded f'_def]
  define F where "F = (\<lambda>e. let e = upd [i] (\<lambda>_. Ent (h - length q) 0 P) e in
     if live_of e < ps_entry_live_max_table (q = []) (height_of e) then set_live (live_of e + 1) e else e)"
  have s': "s' = poke q F s"
    unfolding s'_def new_child_def ps_entry_live_inc_def poke_slot F_def Let_def by simp
  have mx: "ps_entry_live_max_table (q = []) t = INDEX_CAPACITY"
    using a(4) m(1) by (auto simp: ps_entry_live_max_table_def)
  have F: "F (Ent t l' p') = Ent t (used (IndexPage f')) (IndexPage f')"
    using w(2,3) mx a(1) m(1) assms(8) unfolding F_def p' by (simp add: f'_def del: used.simps fun_upd_apply)
  have wq: "wf_page (h - length q) (IndexPage f')" using w(1) m(1) by simp
  have e: "page_get (h - length q) (IndexPage f') x = page_get (h - length q) p' x" for x
    using used_0_page(1) [OF P assms(8)] m fi unfolding p' by (simp add: f'_def)
  note r = slice_poke_same [of s h l p q t l' p' F "IndexPage f'", OF assms(1-3) F wq e]
  show "\<exists>p2. root s' = Ent h (used p2) p2" "tree_ok (root s')" using r(1,2) s' by auto
  show "at (root s') (q @ [i]) = Ent (h - length q) 0 P"
    unfolding s' at_append r(5) using m(1) assms(8) by (simp add: f'_def)
  have "tree_pages (root s') = Suc (tree_pages (root s))"
    using r(4) w(4) used_0_page(2) [OF P assms(8)] m(2) unfolding s' p' by simp
  then show "keeps s (s'\<lparr>got := Suc (got s')\<rparr>)"
    using r(2,3) unfolding keeps_def s' by simp
qed

text \<open>Taking an empty page out of its slot.\<close>

lemma prune_keeps:
  assumes "tree_ok (root s)" "root s = Ent h l p" "at (root s) (q @ [i]) = Ent t2 0 P"
  defines "s' \<equiv> ps_entry_live_dec q (poke (q @ [i]) (\<lambda>_. E_None) s)"
  shows "\<exists>p2. root s' = Ent h (used p2) p2" "keeps s (s'\<lparr>put := Suc (put s')\<rparr>)" "at (root s') (q @ [i]) = E_None"
    "at (root s') q \<noteq> E_None"
proof -
  note b = at_tree [OF assms(1-3)]
  obtain t l' p' where q: "at (root s) q = Ent t l' p'"
    using assms(3) by (cases "at (root s) q") (auto simp: at_append)
  note a = at_tree [OF assms(1,2) q]
  have h4: "h \<le> 4" using assms(1,2) by simp
  obtain m where m: "h - length q = Suc (Suc m)" "m \<le> 2" using b(2) h4
    by (intro that [of "h - length q - 2"]) auto
  then obtain f where p': "p' = IndexPage f" using a(3) by (auto elim: wf_page_Suc_cases)
  have fi: "f i = Ent t2 0 P" using assms(3) q p' by (simp add: at_append)
  define f' where "f' = f(i := E_None)"
  note w = wf_page_del [OF a(3) [unfolded m(1) p'] m(2) fi, folded f'_def]
  define F where "F = (\<lambda>e. let e = upd [i] (\<lambda>_. E_None) e in if live_of e > 0 then set_live (live_of e - 1) e else e)"
  have s': "s' = poke q F s"
    unfolding s'_def ps_entry_live_dec_def poke_slot F_def Let_def by simp
  have F: "F (Ent t l' p') = Ent t (used (IndexPage f')) (IndexPage f')"
    using w(2) a(1) unfolding F_def p' by (simp add: f'_def del: used.simps fun_upd_apply)
  have wq: "wf_page (h - length q) (IndexPage f')" using w(1) m(1) by simp
  have P: "wf_page (Suc m) P" "used P = 0" using wf_page_slot [OF a(3) [unfolded m(1) p'] fi] by auto
  have e: "page_get (h - length q) (IndexPage f') x = page_get (h - length q) p' x" for x
    using used_0_page(1) [OF P] m fi unfolding p' by (simp add: f'_def)
  note r = slice_poke_same [of s h l p q t l' p' F "IndexPage f'", OF assms(1,2) q F wq e]
  show "\<exists>p2. root s' = Ent h (used p2) p2" using r(1) s' by auto
  show "at (root s') (q @ [i]) = E_None" "at (root s') q \<noteq> E_None"
    unfolding s' at_append r(5) by (simp_all add: f'_def)
  have "tree_pages (root s) = Suc (tree_pages (root s'))"
    using r(4) w(3) used_0_page(2) [OF P] m(2) unfolding s' p' by simp
  then show "keeps s (s'\<lparr>put := Suc (put s')\<rparr>)"
    using r(2,3) unfolding keeps_def s' by simp
qed

lemma capacity_Suc: "1 \<le> h \<Longrightarrow> capacity (Suc h) = 512 * capacity h"
  by (cases h) (simp_all add: capacity_def)

lemma capacity_pos [simp]: "0 < capacity h"
  by (simp add: capacity_def)

lemma capacity_4: "capacity 4 = 2 ^ 34" "capacity 1 = 128" "capacity 2 = 65536" "capacity 3 = 33554432"
  by (simp_all add: capacity_def)

lemma INDEX_ENTRY_capacity: "INDEX_ENTRY x h = x div capacity (Suc h) mod 512"
proof -
  have "(2::nat) ^ (7 + 9 * h) = 128 * 512 ^ h" by (simp add: power_add power_mult)
  then show ?thesis by (simp add: INDEX_ENTRY_def capacity_def)
qed

lemma INDEX_ENTRY_0:
  assumes "x < capacity (Suc (Suc h))"
  shows "INDEX_ENTRY x h = 0 \<longleftrightarrow> x < capacity (Suc h)"
proof -
  have "x div capacity (Suc h) < 512" using assms
    by (simp add: capacity_Suc less_mult_imp_div_less)
  then show ?thesis by (simp add: INDEX_ENTRY_capacity div_eq_0_iff capacity_def)
qed

lemma required_height:
  assumes "x < capacity 4" "1 \<le> h" "h \<le> 4"
  shows "ps_required_height_for_pgoff x \<le> h \<longleftrightarrow> x < capacity h"
proof -
  have c: "capacity 1 \<le> capacity 2" "capacity 2 \<le> capacity 3" "capacity 3 \<le> capacity 4"
    by (simp_all add: capacity_def)
  have 2: "INDEX_ENTRY x 2 = 0 \<longleftrightarrow> x < capacity 3"
    using INDEX_ENTRY_0 [of x 2] assms(1) by (simp add: eval_nat_numeral)
  have 1: "INDEX_ENTRY x 1 = 0 \<longleftrightarrow> x < capacity 2" if "x < capacity 3"
    using INDEX_ENTRY_0 [of x 1] that by (simp add: eval_nat_numeral)
  have c1: "capacity (Suc 0) = 128" by (simp add: capacity_def)
  consider "h = 1" | "h = 2" | "h = 3" | "h = 4" using assms(2,3) by linarith
  then show ?thesis
    using 1 2 c assms(1) by cases (auto simp: ps_required_height_for_pgoff_def LEAF_CAPACITY_def c1)
qed

lemma required_height_bounds: "1 \<le> ps_required_height_for_pgoff x" "ps_required_height_for_pgoff x \<le> 4"
  by (simp_all add: ps_required_height_for_pgoff_def)

lemma m_alloc_sel [simp]:
  "root (fst (m_alloc mem s)) = root s" "size (fst (m_alloc mem s)) = size s"
  "slice_map (fst (m_alloc mem s)) = slice_map s"
  by (simp_all add: m_alloc_def)

lemma raise_once_keeps:
  assumes "tree_ok (root s)" "stored_height s < 4"
  shows "keeps s (raise_once (s\<lparr>allocs := n, got := Suc (got s)\<rparr>))"
proof (cases "root s")
  case E_None
  have "wf_page 2 (IndexPage (\<lambda>_. E_None))" by (simp add: numeral_2_eq_2)
  then show ?thesis using E_None
    by (auto simp: keeps_def raise_once_def stored_height_def slice_map_def fun_eq_iff numeral_2_eq_2)
next
  case (Ent h l p)
  then have h: "1 \<le> h" "h < 4" "l = used p" "wf_page h p" using assms by (auto simp: stored_height_def)
  then obtain m where m: "h = Suc m" "m \<le> 2" by (cases h) auto
  define f :: "nat \<Rightarrow> ps_ient" where "f = (\<lambda>_. E_None)(0 := Ent (Suc h) l p)"
  have s': "raise_once (s\<lparr>allocs := n, got := Suc (got s)\<rparr>) = s\<lparr>allocs := n, got := Suc (got s), root := Ent (Suc h) 1 (IndexPage f)\<rparr>"
    using Ent h(1) by (simp add: raise_once_def stored_height_def f_def root_live_def root_empty_def)
  have e: "wf_page (Suc (Suc m)) (IndexPage (\<lambda>_. E_None))" by simp
  have f: "f = (\<lambda>_. E_None)(0 := Ent (Suc (Suc m)) (used p) p)" unfolding f_def m(1) h(3) ..
  have 0: "(0::nat) < INDEX_CAPACITY" by (simp add: INDEX_CAPACITY_def)
  note w = wf_page_add [OF e m(2) refl 0 h(4) [unfolded m(1)], folded f]
  have "page_get (Suc (Suc m)) (IndexPage f) x = (if x < capacity h then page_get h p x else empty_entry)"
    if "x < capacity (Suc h)" for x
    using INDEX_ENTRY_0 [of x m] that by (simp add: m(1) f)
  moreover have "x < capacity h \<Longrightarrow> x < capacity (Suc h)" for x using capacity_Suc [OF h(1)] by simp
  ultimately have map: "slice_map (raise_once (s\<lparr>allocs := n, got := Suc (got s)\<rparr>)) = slice_map s"
    unfolding s' by (auto simp: slice_map_def Ent fun_eq_iff m(1) simp del: page_get.simps)
  have "tree_ok (Ent (Suc h) 1 (IndexPage f))" using w(1,2) m by simp
  then show ?thesis unfolding keeps_def map using w(4) Ent by (simp add: s')
qed

lemma keeps_allocs [simp]: "keeps s (s'\<lparr>allocs := a\<rparr>) \<longleftrightarrow> keeps s s'" "keeps (s\<lparr>allocs := a\<rparr>) s' \<longleftrightarrow> keeps s s'"
  by (simp_all add: keeps_def)

lemma keeps_ok: "keeps s s' \<Longrightarrow> tree_ok (root s')"
  by (simp add: keeps_def)

lemma raise_loop_ok:
  assumes "tree_ok (root s)" "target \<le> 4" "raise_loop mem target s = (s', err)"
  shows "keeps s s' \<and> allocs s \<le> allocs s'
    \<and> (err = REND_SUCCESS \<and> target \<le> stored_height s'
         \<or> err = E_REND_NO_MEM \<and> (\<exists>i \<ge> allocs s. \<not> mem i) \<and> stored_height s < target)"
  using assms
proof (induction mem target s rule: raise_loop.induct)
  case (1 mem target s)
  show ?case
  proof (cases "stored_height s < target")
    case True
    let ?a = "fst (m_alloc mem s)"
    show ?thesis
    proof (cases "mem (allocs s)")
      case m: True
      have a: "?a = s\<lparr>allocs := Suc (allocs s), got := Suc (got s)\<rparr>" using m by (simp add: m_alloc_def)
      then have k: "keeps s (raise_once ?a)" "allocs (raise_once ?a) = Suc (allocs s)"
        using raise_once_keeps [OF 1(2)] True 1(3) by (simp_all add: raise_once_def Let_def)
      have "raise_loop mem target (raise_once ?a) = (s', err)"
        using 1(4) True m by (simp add: raise_loop.simps [of mem target s] m_alloc_def)
      then have "keeps (raise_once ?a) s' \<and> allocs (raise_once ?a) \<le> allocs s'
         \<and> (err = REND_SUCCESS \<and> target \<le> stored_height s'
              \<or> err = E_REND_NO_MEM \<and> (\<exists>i \<ge> allocs (raise_once ?a). \<not> mem i) \<and> stored_height (raise_once ?a) < target)"
        using 1(1) [OF True, of "m_alloc mem s" ?a True] m keeps_ok [OF k(1)] 1(3) by (simp add: m_alloc_def)
      then show ?thesis using keeps_trans [OF k(1)] k(2) True by (auto intro: Suc_leD)
    next
      case False
      then show ?thesis using 1 True
        by (auto simp: raise_loop.simps [of mem target s] m_alloc_def keeps_refl)
    qed
  next
    case False
    then show ?thesis using 1 by (simp add: raise_loop.simps [of mem target s] keeps_refl)
  qed
qed

lemma path_snoc:
  assumes "on_path h q x" "length q + 2 + L = h"
  shows "on_path h (q @ [INDEX_ENTRY x L]) x"
  using assms by (auto simp: on_path_append)

definition walk_post :: "bool \<Rightarrow> nat \<Rightarrow> nat \<Rightarrow> page_slice \<Rightarrow> page_slice \<Rightarrow> bool" where
  "walk_post create pgoff h s s' \<longleftrightarrow> keeps s s' \<and> stored_height s' = h \<and> (\<not> create \<longrightarrow> s' = s)"

definition walk_err :: "(nat \<Rightarrow> bool) \<Rightarrow> bool \<Rightarrow> nat \<Rightarrow> page_slice \<Rightarrow> error_t \<Rightarrow> bool" where
  "walk_err mem create pgoff s e \<longleftrightarrow>
     slice_map s pgoff = empty_entry
     \<and> (if create then e = E_REND_NO_MEM \<and> (\<exists>i \<ge> allocs s. \<not> mem i) else e = E_REND_NOFOUND)"

lemma walk_err_later: "walk_err mem create pgoff s' e \<Longrightarrow> allocs s \<le> allocs s' \<Longrightarrow> slice_map s' = slice_map s
  \<Longrightarrow> walk_err mem create pgoff s e"
  by (auto simp: walk_err_def split: if_splits intro: order_trans)

lemma slice_map_missing:
  assumes "tree_ok (root s)" "root s = Ent h l p" "at (root s) q = E_None" "on_path h q x" "length q < h"
  shows "slice_map s x = empty_entry"
  using page_get_at_None [of h p q x h l] assms by (auto simp: slice_map_def)

text \<open>One level down: the slot of \<open>pgoff\<close> holds a page, or gets one.\<close>

lemma alloc_child:
  assumes "tree_ok (root s)" "root s = Ent h l p" "at (root s) q = Ent t l' p'"
    and "length q + 2 + L = h" "at (root s) (q @ [i]) = E_None" "i < INDEX_CAPACITY"
    and "wf_page (Suc L) P" "used P = 0" "mem (allocs s)"
  defines "s' \<equiv> new_child q (q @ [i]) (Ent (Suc (Suc L)) 0 P) (fst (m_alloc mem s))"
  shows "keeps s s'" "\<exists>p2. root s' = Ent h (used p2) p2" "at (root s') (q @ [i]) = Ent (Suc (Suc L)) 0 P"
    "allocs s' = Suc (allocs s)"
proof -
  let ?n = "new_child q (q @ [i]) (Ent (Suc (Suc L)) 0 P) s"
  have h: "h - Suc (length q) = Suc L" "h - length q = Suc (Suc L)" "Suc (length q) < h" using assms(4) by simp_all
  have s': "s' = ?n\<lparr>got := Suc (got ?n)\<rparr>\<lparr>allocs := Suc (allocs s)\<rparr>"
    using assms(9) by (simp add: s'_def new_child_def m_alloc_def ps_entry_live_inc_def poke_def)
  note k = new_child_keeps [OF assms(1-3) h(3) assms(6,5), unfolded h, OF assms(7,8)]
  show "keeps s s'" "\<exists>p2. root s' = Ent h (used p2) p2" "at (root s') (q @ [i]) = Ent (Suc (Suc L)) 0 P"
    "allocs s' = Suc (allocs s)"
    using k unfolding s' by simp_all
qed

lemma get_child_ok:
  assumes "tree_ok (root s)" "root s = Ent h l p" "at (root s) q = Ent t l' p'"
    and "length q + 2 + L = h" "i < INDEX_CAPACITY" "wf_page (Suc L) P" "used P = 0" "on_path h (q @ [i]) pgoff"
    and "get_child mem create q i (Ent (Suc (Suc L)) 0 P) s = (s', r)"
  shows "walk_post create pgoff h s s' \<and> allocs s \<le> allocs s' \<and>
     (case r of Some e \<Rightarrow> walk_err mem create pgoff s e
      | None \<Rightarrow> \<exists>l2 p2 l3 p3. root s' = Ent h l2 p2 \<and> at (root s') (q @ [i]) = Ent (Suc (Suc L)) l3 p3)"
proof (cases "at (root s) (q @ [i])")
  case (Ent t2 l3 p3)
  then have "t2 = Suc (Suc L)" using at_tree(4) [OF assms(1,2) Ent] assms(4) by simp
  then show ?thesis using assms(1,2,9) Ent by (auto simp: get_child_def walk_post_def keeps_refl stored_height_def)
next
  case E_None
  note m = slice_map_missing [OF assms(1,2) E_None assms(8)]
  show ?thesis
  proof (cases "create \<and> mem (allocs s)")
    case True
    note n = alloc_child [where mem = mem, OF assms(1-4) E_None assms(5-7) conjunct2 [OF True]]
    have "s' = new_child q (q @ [i]) (Ent (Suc (Suc L)) 0 P) (fst (m_alloc mem s))" "r = None"
      using assms(9) E_None True by (simp_all add: get_child_def m_alloc_def)
    then show ?thesis using n True by (auto simp: walk_post_def stored_height_def)
  next
    case False
    then have "(s', r) = (if \<not> create then (s, Some E_REND_NOFOUND) else (fst (m_alloc mem s), Some E_REND_NO_MEM))"
      using assms(9) E_None by (auto simp: get_child_def m_alloc_def)
    then show ?thesis using False m assms(1,2,4) keeps_refl [OF assms(1)]
      by (auto simp: walk_post_def walk_err_def m_alloc_def stored_height_def split: if_splits)
  qed
qed

lemma walk_trans:
  assumes "walk_post create pgoff h s a" "allocs s \<le> allocs a" "walk_post create pgoff h a b" "allocs a \<le> allocs b"
  shows "walk_post create pgoff h s b \<and> allocs s \<le> allocs b \<and> (\<forall>e. walk_err mem create pgoff a e \<longrightarrow> walk_err mem create pgoff s e)"
  using assms keeps_trans [of s a b] walk_err_later [of mem create pgoff a _ s]
  by (auto simp: walk_post_def keeps_def)

lemma descend_loop_ok:
  assumes "tree_ok (root s)" "root s = Ent h l p" "at (root s) q = Ent t l' p'"
    and "length q + 2 + L = h" "on_path h q pgoff" "want \<longrightarrow> paths = prefixes q"
    and "descend_loop mem create want pgoff L (Suc (Suc L)) q paths s = (s', r)"
  shows "walk_post create pgoff h s s' \<and> allocs s \<le> allocs s' \<and>
     (case r of Inl e \<Rightarrow> walk_err mem create pgoff s e
      | Inr (ph, q', paths') \<Rightarrow> ph = 2 \<and> length q' + 2 = h \<and> on_path h q' pgoff \<and> at (root s') q' \<noteq> E_None
          \<and> (want \<longrightarrow> paths' = prefixes q'))"
  using assms
proof (induction L arbitrary: s q paths l p t l' p')
  case 0
  then show ?case by (auto simp: walk_post_def keeps_refl stored_height_def)
next
  case (Suc L)
  let ?i = "INDEX_ENTRY pgoff (Suc L)"
  let ?q = "q @ [?i]"
  let ?P = "IndexPage (\<lambda>_. E_None)"
  obtain a c where c: "get_child mem create q ?i (Ent (Suc (Suc (Suc L))) 0 ?P) s = (a, c)" by fastforce
  have len: "length ?q + 2 + L = h" "h \<le> 4" using Suc.prems(1,2,4) by auto
  have on: "on_path h ?q pgoff" using path_snoc [OF Suc.prems(5)] Suc.prems(4) by simp
  have lenp: "\<not> (want \<and> length paths \<ge> 3)" using len Suc.prems(6) by auto
  have w: "wf_page (Suc (Suc L)) ?P" "used ?P = 0" by simp_all
  note g = get_child_ok [OF Suc.prems(1-4) INDEX_ENTRY_less w on c]
  show ?case
  proof (cases c)
    case (Some e)
    then show ?thesis using g Suc.prems(7) c by auto
  next
    case None
    then obtain l2 p2 l3 p3 where a: "root a = Ent h l2 p2" "at (root a) ?q = Ent (Suc (Suc (Suc L))) l3 p3"
      using g by auto
    have ta: "tree_ok (root a)" using g by (simp add: walk_post_def keeps_def)
    have "points_to_index (at (root a) ?q)" using a(2) len by (auto simp: points_to_index_def)
    then have "descend_loop mem create want pgoff L (Suc (Suc L)) ?q (if want then paths @ [?q] else paths) a = (s', r)"
      using Suc.prems(7) c None lenp by (auto simp: Let_def)
    note IH = Suc.IH [OF ta a len(1) on _ this]
    show ?thesis using IH walk_trans [of create pgoff h s a s'] g Suc.prems(6)
      by (auto simp: prefixes_snoc split: sum.splits)
  qed
qed

text \<open>The whole descent.\<close>

definition found_leaf :: "page_slice \<Rightarrow> nat \<Rightarrow> nat list \<Rightarrow> bool" where
  "found_leaf s pgoff q \<longleftrightarrow> (\<exists>h l p t l' g. root s = Ent h l p \<and> at (root s) q = Ent t l' (LeafPage g)
     \<and> pgoff < capacity h \<and> Suc (length q) = h \<and> on_path h q pgoff)"

lemma descend_bottom_ok:
  assumes "tree_ok (root s)" "root s = Ent h l p" "at (root s) q \<noteq> E_None"
    and "length q + 2 = h" "on_path h q pgoff" "pgoff < capacity h"
    and "descend_bottom mem create pgoff 2 q paths s = (s', r)"
  shows "walk_post create pgoff h s s' \<and>
     (case r of Inl e \<Rightarrow> walk_err mem create pgoff s e
      | Inr (q', paths') \<Rightarrow> found_leaf s' pgoff q' \<and> (\<exists>i. q' = q @ [i]) \<and> paths' = paths)"
proof -
  let ?i = "INDEX_ENTRY pgoff 0"
  obtain t l' p' where q: "at (root s) q = Ent t l' p'" using assms(3) by (cases "at (root s) q") auto
  obtain a c where c: "get_child mem create q ?i (Ent (Suc (Suc 0)) 0 ps_alloc_leaf_page) s = (a, c)" by fastforce
  have w: "wf_page (Suc 0) ps_alloc_leaf_page" "used ps_alloc_leaf_page = 0"
    by (simp_all add: ps_alloc_leaf_page_def valid_entry_def empty_entry_def)
  have len: "length q + 2 + 0 = h" using assms(4) by simp
  note on = path_snoc [OF assms(5) len]
  note g = get_child_ok [OF assms(1,2) q len INDEX_ENTRY_less w on c]
  show ?thesis
  proof (cases c)
    case (Some e)
    then show ?thesis using g assms(7) c by (auto simp: descend_bottom_def numeral_2_eq_2)
  next
    case None
    then obtain l2 p2 l3 p3 where a: "root a = Ent h l2 p2" "at (root a) (q @ [?i]) = Ent (Suc (Suc 0)) l3 p3"
      using g by auto
    have "tree_ok (root a)" using g by (simp add: walk_post_def keeps_def)
    from at_tree(3) [OF this a] have "wf_page (Suc 0) p3" using assms(4) by auto
    then obtain gg where p3: "p3 = LeafPage gg" by (auto elim: wf_page_Suc_cases)
    have "s' = a" "r = Inr (q @ [?i], paths)"
      using assms(7) c None a(2) by (simp_all add: descend_bottom_def numeral_2_eq_2 points_to_leaf_def)
    then show ?thesis using g a p3 assms(4,6) on by (auto simp: found_leaf_def)
  qed
qed

definition descend_post ::
  "(nat \<Rightarrow> bool) \<Rightarrow> bool \<Rightarrow> bool \<Rightarrow> nat \<Rightarrow> page_slice \<Rightarrow> page_slice \<Rightarrow> error_t + nat list \<times> nat list list \<Rightarrow> bool" where
  "descend_post mem create want pgoff s s' r \<longleftrightarrow> keeps s s' \<and> (\<not> create \<longrightarrow> s' = s) \<and>
     (case r of Inl e \<Rightarrow> walk_err mem create pgoff s e
      | Inr (q, paths) \<Rightarrow> found_leaf s' pgoff q \<and> (want \<longrightarrow> paths = (if q = [] then [] else prefixes (butlast q))))"

lemma descend_index_ok:
  assumes "tree_ok (root s)" "root s = Ent h l p" "2 \<le> h" "pgoff < capacity h"
    and "descend_loop mem create want pgoff (h - 2) h [] (if want then [[]] else []) s = (a, c)"
    and "(case c of Inl e \<Rightarrow> (a, Inl e) | Inr (page_h, q, paths) \<Rightarrow> descend_bottom mem create pgoff page_h q paths a) = (s', r)"
  shows "descend_post mem create want pgoff s s' r"
proof -
  have hs: "Suc (Suc (h - 2)) = h" "length ([] :: nat list) + 2 + (h - 2) = h" using assms(3) by simp_all
  have x: "at (root s) [] = Ent h l p" using assms(2) by simp
  have y: "descend_loop mem create want pgoff (h - 2) (Suc (Suc (h - 2))) [] (if want then [[]] else []) s = (a, c)"
    using assms(5) by (simp only: hs(1))
  have L: "walk_post create pgoff h s a \<and> allocs s \<le> allocs a \<and>
     (case c of Inl e \<Rightarrow> walk_err mem create pgoff s e
      | Inr (ph, q', paths') \<Rightarrow> ph = 2 \<and> length q' + 2 = h \<and> on_path h q' pgoff \<and> at (root a) q' \<noteq> E_None
          \<and> (want \<longrightarrow> paths' = prefixes q'))"
    by (rule descend_loop_ok [OF assms(1,2) x hs(2) _ _ y]) simp_all
  show ?thesis
  proof (cases c)
    case (Inl e)
    then show ?thesis using L assms(6) by (auto simp: walk_post_def descend_post_def)
  next
    case (Inr v)
    then obtain q paths where v: "c = Inr (2, q, paths)" using L by (cases v) auto
    have D: "descend_bottom mem create pgoff 2 q paths a = (s', r)" using assms(6) v by simp
    obtain l2 p2 where a: "root a = Ent h l2 p2" "tree_ok (root a)"
      using L assms(3) by (cases "root a") (auto simp: walk_post_def keeps_def stored_height_def)
    have "walk_post create pgoff h a s' \<and>
     (case r of Inl e \<Rightarrow> walk_err mem create pgoff a e
      | Inr (q', paths') \<Rightarrow> found_leaf s' pgoff q' \<and> (\<exists>i. q' = q @ [i]) \<and> paths' = paths)"
      using descend_bottom_ok [OF a(2,1) _ _ _ assms(4) D] L v by simp
    then show ?thesis using L v walk_err_later [of mem create pgoff a _ s] keeps_trans [of s a s']
      by (auto simp: walk_post_def keeps_def descend_post_def split: sum.splits)
  qed
qed

lemma slice_map_beyond:
  assumes "tree_ok (root s)" "pgoff < capacity 4" "stored_height s < ps_required_height_for_pgoff pgoff"
  shows "slice_map s pgoff = empty_entry"
  using assms required_height [OF assms(2), of "stored_height s"]
  by (cases "root s") (auto simp: slice_map_def stored_height_def)

lemma ps_descend_ok:
  assumes "tree_ok (root s)" "pgoff < capacity 4" "create \<longrightarrow> ps_required_height_for_pgoff pgoff \<le> max 1 (stored_height s)"
    and "ps_descend_pgoff mem create want pgoff s = (s', r)"
  shows "descend_post mem create want pgoff s s' r"
proof (cases "root s")
  case E_None
  have "wf_page (Suc 0) ps_alloc_leaf_page" "used ps_alloc_leaf_page = 0" "snd (free_page ps_alloc_leaf_page) = 1"
    by (simp_all add: ps_alloc_leaf_page_def valid_entry_def empty_entry_def)
  moreover have "pgoff < capacity (Suc 0)" if create
    using that assms(3) required_height [OF assms(2), of 1] E_None by (simp add: stored_height_def)
  moreover have "\<not> create \<Longrightarrow> r = Inl E_REND_NOFOUND \<and> s' = s"
    using assms(4) E_None required_height_bounds(1) [of pgoff]
    by (auto simp: ps_descend_pgoff_def descend_post_def stored_height_def Let_def)
  ultimately show ?thesis
    using assms(4) E_None keeps_refl [OF assms(1)]
    by (auto simp: ps_descend_pgoff_def descend_post_def stored_height_def root_is_leaf_def m_alloc_def Let_def walk_err_def found_leaf_def
          keeps_def slice_map_def fun_eq_iff ps_alloc_leaf_page_def split: if_splits)
next
  case (Ent h l p)
  then have h: "1 \<le> h" "h \<le> 4" "l = used p" "wf_page h p" using assms(1) by auto
  have sh: "stored_height s = h" using Ent by (simp add: stored_height_def)
  show ?thesis
  proof (cases "\<not> create \<and> h < ps_required_height_for_pgoff pgoff")
    case True
    then show ?thesis
      using assms(4) keeps_refl [OF assms(1)] slice_map_beyond [OF assms(1,2)] sh
      by (auto simp: ps_descend_pgoff_def descend_post_def walk_err_def)
  next
    case False
    then have cap: "pgoff < capacity h" using required_height [OF assms(2) h(1,2)] assms(3) sh h(1) by auto
    show ?thesis
    proof (cases "h = 1")
      case True
      then obtain g where "p = LeafPage g" using h(4) by (auto elim: wf_page_Suc_cases)
      then show ?thesis using assms(4) False True Ent cap keeps_refl [OF assms(1)]
        by (auto simp: ps_descend_pgoff_def sh root_is_leaf_def found_leaf_def descend_post_def)
    next
      case n: False
      then have h2: "2 \<le> h" "root_is_index s" using h sh Ent by (auto simp: root_is_index_def root_empty_def)
      obtain a c where c: "descend_loop mem create want pgoff (h - 2) h [] (if want then [[]] else []) s = (a, c)" by fastforce
      have "(case c of Inl e \<Rightarrow> (a, Inl e) | Inr (page_h, q, paths) \<Rightarrow> descend_bottom mem create pgoff page_h q paths a) = (s', r)"
        using assms(4) False h2 unfolding ps_descend_pgoff_def sh Let_def c by (simp add: split_beta split: sum.splits)
      then show ?thesis by (rule descend_index_ok [OF assms(1) Ent h2(1) cap c])
    qed
  qed
qed

lemma page_get_wf: "wf_page n p \<Longrightarrow> page_get n p x = empty_entry \<or> valid_entry (page_get n p x)"
proof (induction n p x rule: page_get.induct)
  case (2 n f x)
  then show ?case
  proof (cases "f (INDEX_ENTRY x n)")
    case (Ent h l p)
    then show ?thesis using 2(1) wf_page_slot(4) [OF 2(2) Ent] by simp
  qed simp
qed auto

lemma slice_map_wf: "tree_ok (root s) \<Longrightarrow> slice_map s x = empty_entry \<or> valid_entry (slice_map s x)"
  using page_get_wf [of _ _ x] by (cases "root s") (auto simp: slice_map_def)

lemma not_valid_empty [simp]: "\<not> valid_entry empty_entry" "owned_page empty_entry = []"
  by (simp_all add: valid_entry_def empty_entry_def owned_page_def)

lemma ps_raise_height_ok:
  assumes "tree_ok (root s)" "h \<le> 4" "ps_raise_height mem h s = (a, e)"
  shows "keeps s a \<and> allocs s \<le> allocs a
    \<and> (e = REND_SUCCESS \<and> h \<le> max 1 (stored_height a)
         \<or> e = E_REND_NO_MEM \<and> (\<exists>i \<ge> allocs s. \<not> mem i) \<and> stored_height s < h)"
  using raise_loop_ok [OF assms(1,2), of mem a e] assms keeps_refl [OF assms(1)]
  by (auto simp: ps_raise_height_def split: if_splits)

lemma get_entry_ok:
  assumes "tree_ok (root s)" "page_count s \<le> capacity 4" "ps_get_entry mem create pgoff s = (s', r)"
  shows "if pgoff < page_count s then descend_post mem create False pgoff s s' r
         else s' = s \<and> r = Inl E_IN_PARAM"
proof (cases "pgoff < page_count s \<and> create")
  case True
  then have x: "pgoff < capacity 4" using assms(2) by simp
  let ?h = "ps_required_height_for_pgoff pgoff"
  obtain a e where a: "ps_raise_height mem ?h s = (a, e)" by fastforce
  note r = ps_raise_height_ok [OF assms(1) required_height_bounds(2) a]
  show ?thesis
  proof (cases "e = REND_SUCCESS")
    case e: True
    have "ps_descend_pgoff mem create False pgoff a = (s', r)"
      using assms(3) True a e by (auto simp: ps_get_entry_def ps_pgoff_valid_def)
    from ps_descend_ok [OF _ x _ this] r e have "descend_post mem create False pgoff a s' r"
      by (auto simp: keeps_def)
    then show ?thesis using r True walk_err_later [of mem create pgoff a _ s] keeps_trans [of s a s']
      by (auto simp: descend_post_def keeps_def split: sum.splits)
  next
    case False
    then have "s' = a" "r = Inl e" using assms(3) True a by (auto simp: ps_get_entry_def ps_pgoff_valid_def)
    then show ?thesis using False r True slice_map_beyond [OF assms(1) x]
      by (auto simp: descend_post_def walk_err_def)
  qed
next
  case False
  then show ?thesis
    using assms ps_descend_ok [OF assms(1), of pgoff create mem False s' r]
    by (auto simp: ps_get_entry_def ps_pgoff_valid_def)
qed

text \<open>The leaf that a descent ends in, and the entries of it.\<close>

fun decode :: "nat list \<Rightarrow> nat" where
  "decode [] = 0"
| "decode (i # q) = i * 512 ^ length q + decode q"

lemma on_path_decode:
  assumes "on_path h q x" "h = Suc (length q)"
  shows "x div 128 mod 512 ^ length q = decode q"
  using assms
proof (induction q arbitrary: h)
  case (Cons i q)
  have i: "x div 128 div 512 ^ length q mod 512 = i"
    using Cons.prems by (simp add: INDEX_ENTRY_capacity capacity_def div_mult2_eq)
  show ?case
    using Cons.IH [of "Suc (length q)"] Cons.prems i mod_mult2_eq [of "x div 128" "512 ^ length q" 512]
    by (simp add: mult.commute)
qed simp

lemma on_path_inj:
  assumes "on_path h q x" "on_path h q y" "h = Suc (length q)" "x < capacity h" "y < capacity h"
    and "LEAF_IDX x = LEAF_IDX y"
  shows "x = y"
proof -
  have "z div 128 = decode q" if "on_path h q z" "z < capacity h" for z
    using on_path_decode [OF that(1) assms(3)] that(2) assms(3)
    by (simp add: capacity_def less_mult_imp_div_less mult.commute)
  then have "x div 128 = y div 128" using assms(1,2,4,5) by metis
  then show ?thesis using assms(6) by (metis LEAF_IDX_def div_mult_mod_eq)
qed

lemma found_leaf_get:
  assumes "tree_ok (root s)" "found_leaf s x q"
  shows "leaf_entry (at (root s) q) (LEAF_IDX x) = slice_map s x"
proof -
  obtain h l p t l' g where f: "root s = Ent h l p" "at (root s) q = Ent t l' (LeafPage g)" "x < capacity h"
    "Suc (length q) = h" "on_path h q x" using assms(2) by (auto simp: found_leaf_def)
  have "h - length q = Suc 0" using f(4) by simp
  then show ?thesis using slice_map_at [OF assms(1) f(1,2,5,3)] f(2) by simp
qed

lemma leaf_index_loop_path:
  assumes "tree_ok (root s)" "root s = Ent h l p" "at (root s) (q0 @ r) \<noteq> E_None"
    and "length q0 + 2 + L = h" "length r = Suc L" "on_path (h - length q0) r x"
  shows "leaf_index_loop (root s) x L q0 = Some (q0 @ r)"
  using assms
proof (induction L arbitrary: q0 r)
  case 0
  then obtain i where r: "r = [i]" by (cases r) auto
  then show ?case using 0 by auto
next
  case (Suc L)
  then obtain i r' where r: "r = i # r'" by (cases r) auto
  have i: "i = INDEX_ENTRY x (Suc L)" using Suc.prems(4,6) r by auto
  have nn: "at (root s) ((q0 @ [i]) @ r') \<noteq> E_None" using Suc.prems(3) r by simp
  then obtain t l' p' where e: "at (root s) (q0 @ [i]) = Ent t l' p'"
    using at_append [of "root s" "q0 @ [i]" r'] by (cases "at (root s) (q0 @ [i])") auto
  have "points_to_index (at (root s) (q0 @ [i]))"
    using at_tree(4) [OF Suc.prems(1,2) e] e Suc.prems(1,2,4) by (auto simp: points_to_index_def)
  moreover have "leaf_index_loop (root s) x L (q0 @ [i]) = Some ((q0 @ [i]) @ r')"
    using Suc.prems(4-6) r by (intro Suc.IH [OF Suc.prems(1,2) nn]) auto
  ultimately show ?case using r i by simp
qed

lemma leaf_index_found:
  assumes "tree_ok (root s)" "found_leaf s x q"
  shows "ps_leaf_index_entry s x = Some q"
proof -
  obtain h l p where f: "root s = Ent h l p" "at (root s) q \<noteq> E_None" "Suc (length q) = h" "on_path h q x"
    using assms(2) unfolding found_leaf_def by (metis ps_ient.distinct(1))
  show ?thesis
  proof (cases q)
    case Nil
    then show ?thesis using f by (simp add: ps_leaf_index_entry_def root_is_leaf_def stored_height_def)
  next
    case (Cons i q')
    then have h: "2 \<le> h" "h \<le> 4" using f assms(1) by auto
    have "leaf_index_loop (root s) x (h - 2) [] = Some ([] @ q)"
      using f h by (intro leaf_index_loop_path [OF assms(1) f(1)]) auto
    then show ?thesis using f(1) h
      by (simp add: ps_leaf_index_entry_def root_is_leaf_def root_is_index_def root_empty_def stored_height_def)
  qed
qed

text \<open>Writing one leaf entry, with the live count of the leaf.\<close>

lemma leaf_poke:
  assumes "tree_ok (root s)" "found_leaf s x q" "v = empty_entry \<or> valid_entry v"
    and "\<And>t g. at (root s) q = Ent t (used (LeafPage g)) (LeafPage g) \<Longrightarrow>
       F (Ent t (used (LeafPage g)) (LeafPage g)) = (let P = LeafPage (g(LEAF_IDX x := v)) in Ent t (used P) P)"
  shows "tree_ok (root (poke q F s))" "slice_map (poke q F s) = (slice_map s)(x := v)"
    "tree_pages (root (poke q F s)) = tree_pages (root s)" "found_leaf (poke q F s) x q"
proof -
  obtain h l p t l' g where f: "root s = Ent h l p" "at (root s) q = Ent t l' (LeafPage g)" "x < capacity h"
    "Suc (length q) = h" "on_path h q x" using assms(2) by (auto simp: found_leaf_def)
  note a = at_tree [OF assms(1) f(1,2)]
  have hq: "h - length q = Suc 0" using f(4) by simp
  let ?P = "LeafPage (g(LEAF_IDX x := v))"
  have F: "F (Ent t l' (LeafPage g)) = Ent t (used ?P) ?P" using assms(4) f(2) a(1) by (simp add: Let_def)
  have w: "wf_page (h - length q) ?P" using a(3) assms(3) hq by simp
  obtain P where r: "root (poke q F s) = Ent h (used P) P" "tree_ok (root (poke q F s))"
    "\<And>y. slice_map (poke q F s) y =
       (if on_path h q y \<and> y < capacity h then page_get (h - length q) ?P y else slice_map s y)"
    "tree_pages (root (poke q F s)) + snd (free_page (LeafPage g)) = tree_pages (root s) + snd (free_page ?P)"
    "at (root (poke q F s)) q = Ent t (used ?P) ?P"
    by (rule slice_poke [of s h l p q t l' "LeafPage g" F ?P, OF assms(1) f(1,2) F w]) blast
  show "tree_ok (root (poke q F s))" by (fact r(2))
  show "tree_pages (root (poke q F s)) = tree_pages (root s)" using r(4) by simp
  show "found_leaf (poke q F s) x q" using r(1,5) f unfolding found_leaf_def by blast
  show "slice_map (poke q F s) = (slice_map s)(x := v)"
  proof
    fix y
    have "LEAF_IDX y = LEAF_IDX x \<longleftrightarrow> y = x" if "on_path h q y" "y < capacity h"
      using on_path_inj [OF that(1) f(5) f(4) [symmetric] that(2) f(3)] by auto
    then show "slice_map (poke q F s) y = ((slice_map s)(x := v)) y"
      using r(3) [of y] f(3,5) hq slice_map_at [OF assms(1) f(1,2), of y] by auto
  qed
qed

lemma leaf_used:
  assumes "i < LEAF_CAPACITY"
  shows "\<not> valid_entry (g i) \<Longrightarrow> valid_entry v \<Longrightarrow> used (LeafPage (g(i := v))) = Suc (used (LeafPage g)) \<and> used (LeafPage g) < LEAF_CAPACITY"
    and "valid_entry (g i) \<Longrightarrow> used (LeafPage g) = Suc (used (LeafPage (g(i := empty_entry))))"
proof -
  show "\<not> valid_entry (g i) \<Longrightarrow> valid_entry v \<Longrightarrow> used (LeafPage (g(i := v))) = Suc (used (LeafPage g)) \<and> used (LeafPage g) < LEAF_CAPACITY"
    using card_insert_slot [OF assms, of valid_entry g v] by (simp del: fun_upd_apply)
  assume "valid_entry (g i)"
  then show "used (LeafPage g) = Suc (used (LeafPage (g(i := empty_entry))))"
    using card_insert_slot(1) [OF assms, of valid_entry "g(i := empty_entry)" "g i"] by (simp del: fun_upd_apply add: fun_upd_idem fun_upd_same)
qed

lemma leaf_height:
  assumes "tree_ok (root s)" "root s = Ent h l p" "at (root s) q = Ent t l' p'" "Suc (length q) = h"
  shows "ps_entry_live_max_table (q = []) t = LEAF_CAPACITY"
  using at_tree(4) [OF assms(1-3)] assms(4) by (auto simp: ps_entry_live_max_table_def)

lemma live_of_found:
  assumes "tree_ok (root s)" "at (root s) q = Ent t l' p'"
  shows "l' = used p'"
  using assms at_tree(1) [OF assms(1) _ assms(2)] by (cases "root s") auto

lemma leaf_insert:
  assumes "tree_ok (root s)" "found_leaf s x q" "\<not> valid_entry (slice_map s x)" "valid_entry v"
  defines "s' \<equiv> ps_entry_live_inc q (poke q (set_leaf_entry (LEAF_IDX x) v) s)"
  shows "tree_ok (root s')" "slice_map s' = (slice_map s)(x := v)" "tree_pages (root s') = tree_pages (root s)"
proof -
  let ?F = "\<lambda>e. (let e = set_leaf_entry (LEAF_IDX x) v e in
     if live_of e < ps_entry_live_max_table (q = []) (height_of e) then set_live (live_of e + 1) e else e)"
  have s': "s' = poke q ?F s" unfolding s'_def ps_entry_live_inc_def poke_poke Let_def ..
  have F: "?F (Ent t (used (LeafPage g)) (LeafPage g)) = (let P = LeafPage (g(LEAF_IDX x := v)) in Ent t (used P) P)"
    if "at (root s) q = Ent t (used (LeafPage g)) (LeafPage g)" for t g
  proof -
    have "ps_entry_live_max_table (q = []) t = LEAF_CAPACITY"
      using leaf_height [OF assms(1) _ that] assms(2) by (auto simp: found_leaf_def)
    moreover have "\<not> valid_entry (g (LEAF_IDX x))" using found_leaf_get [OF assms(1,2)] that assms(3) by simp
    ultimately show ?thesis
      using leaf_used(1) [OF LEAF_IDX_less, of g x v] assms(4) by (simp add: Let_def del: used.simps)
  qed
  show "tree_ok (root s')" "slice_map s' = (slice_map s)(x := v)" "tree_pages (root s') = tree_pages (root s)"
    using leaf_poke [OF assms(1,2) disjI2 [OF assms(4)] F] unfolding s' by blast+
qed

lemma leaf_remove:
  assumes "tree_ok (root s)" "found_leaf s x q" "valid_entry (slice_map s x)"
  defines "s' \<equiv> ps_entry_live_dec q (poke q (set_leaf_entry (LEAF_IDX x) empty_entry) s)"
  shows "tree_ok (root s')" "slice_map s' = (slice_map s)(x := empty_entry)"
    "tree_pages (root s') = tree_pages (root s)" "found_leaf s' x q"
proof -
  let ?F = "\<lambda>e. (let e = set_leaf_entry (LEAF_IDX x) empty_entry e in
     if live_of e > 0 then set_live (live_of e - 1) e else e)"
  have s': "s' = poke q ?F s" unfolding s'_def ps_entry_live_dec_def poke_poke Let_def ..
  have F: "?F (Ent t (used (LeafPage g)) (LeafPage g)) =
      (let P = LeafPage (g(LEAF_IDX x := empty_entry)) in Ent t (used P) P)"
    if "at (root s) q = Ent t (used (LeafPage g)) (LeafPage g)" for t g
  proof -
    have "valid_entry (g (LEAF_IDX x))" using found_leaf_get [OF assms(1,2)] that assms(3) by simp
    then show ?thesis using leaf_used(2) [OF LEAF_IDX_less, of g x] by (simp add: Let_def del: used.simps)
  qed
  show "tree_ok (root s')" "slice_map s' = (slice_map s)(x := empty_entry)"
    "tree_pages (root s') = tree_pages (root s)" "found_leaf s' x q"
    using leaf_poke [OF assms(1,2) disjI1 [OF refl] F] unfolding s' by blast+
qed

text \<open>Looking up the leaf entry again after the write finds the same one: only heights matter.\<close>

lemma height_set_leaf: "height_of (at (upd q (set_leaf_entry i v) e) r) = height_of (at e r)"
proof (induction q arbitrary: e r)
  case Nil
  show ?case by (rule set_leaf_entry.cases [of "(i, v, e)"]; cases r) auto
next
  case (Cons j q)
  show ?case
  proof (rule upd.cases [of "(j # q, set_leaf_entry i v, e)"])
    fix s q' F h l f assume "(j # q, set_leaf_entry i v, e) = (s # q', F, Ent h l (IndexPage f))"
    then show ?thesis using Cons by (cases r) auto
  qed auto
qed

lemma leaf_index_loop_height:
  assumes "\<And>q. height_of (at e q) = height_of (at e' q)"
  shows "leaf_index_loop e x L q = leaf_index_loop e' x L q"
  by (induction L arbitrary: q) (simp_all add: points_to_index_def assms Let_def)

lemma leaf_index_set_leaf:
  "ps_leaf_index_entry (poke q (set_leaf_entry i v) s) x = ps_leaf_index_entry s x"
proof -
  have h: "height_of (at (upd q (set_leaf_entry i v) (root s)) r) = height_of (at (root s) r)" for r
    by (rule height_set_leaf)
  have n: "upd q (set_leaf_entry i v) (root s) = E_None \<longleftrightarrow> root s = E_None"
    by (rule upd.cases [of "(q, set_leaf_entry i v, root s)"]; rule set_leaf_entry.cases [of "(i, v, root s)"]) auto
  show ?thesis using h [of "[]"] n leaf_index_loop_height [OF h]
    by (simp add: ps_leaf_index_entry_def root_is_leaf_def root_is_index_def root_empty_def stored_height_def)
qed

lemma leaf_index_mapped [simp]: "ps_leaf_index_entry (s\<lparr>mapped_entries := n\<rparr>) x = ps_leaf_index_entry s x"
  by (simp add: ps_leaf_index_entry_def root_is_leaf_def root_is_index_def root_empty_def stored_height_def)

lemma live_inc_mapped: "ps_entry_live_inc q (s\<lparr>mapped_entries := n\<rparr>) = (ps_entry_live_inc q s)\<lparr>mapped_entries := n\<rparr>"
  by (simp add: ps_entry_live_inc_def poke_def)

lemma bind_entry_ok:
  fixes fl :: u64
  assumes "tree_ok (root s)" "found_leaf s x q" "\<not> valid_entry (slice_map s x)" "a \<noteq> 0"
  defines "s' \<equiv> bind_entry q x a fl s" and "v \<equiv> \<lparr>kva = a, flags = fl OR FLAG_VALID\<rparr>"
  shows "tree_ok (root s') \<and> slice_map s' = (slice_map s)(x := v) \<and> tree_pages (root s') = tree_pages (root s)
    \<and> mapped_entries s' = Suc (mapped_entries s) \<and> size s' = size s \<and> freed s' = freed s \<and> got s' = got s \<and> put s' = put s"
proof -
  have v: "valid_entry v" using assms(4) by (simp add: v_def valid_entry_def FLAG_VALID_def and_one_eq mod_2_eq_odd even_or_iff)
  note i = leaf_insert [OF assms(1-3) v]
  have "s' = (ps_entry_live_inc q (poke q (set_leaf_entry (LEAF_IDX x) v) s))\<lparr>mapped_entries := Suc (mapped_entries s)\<rparr>"
    using leaf_index_found [OF assms(1,2)]
    by (simp add: s'_def bind_entry_def v_def Let_def leaf_index_set_leaf live_inc_mapped)
  then show ?thesis using i by (simp add: ps_entry_live_inc_def)
qed

text \<open>\<open>edits s s' m fr n\<close>: the slice now maps \<open>m\<close>, \<open>fr\<close> are the data pages freed on the way, \<open>n\<close> is the
  statistic, and every tree page is accounted for.\<close>

definition edits :: "page_slice \<Rightarrow> page_slice \<Rightarrow> (nat \<Rightarrow> page_slice_entry) \<Rightarrow> u64 list \<Rightarrow> nat \<Rightarrow> bool" where
  "edits s s' m fr n \<longleftrightarrow> tree_ok (root s') \<and> slice_map s' = m \<and> size s' = size s
     \<and> mapped_entries s' = n \<and> freed s' = freed s @ fr
     \<and> got s' + put s + tree_pages (root s) = got s + put s' + tree_pages (root s')"

lemma keeps_edits: "keeps s s' \<longleftrightarrow> edits s s' (slice_map s) [] (mapped_entries s)"
  by (auto simp: keeps_def edits_def)

lemma edits_trans: "edits a b m fr n \<Longrightarrow> edits b c m' fr' n' \<Longrightarrow> edits a c m' (fr @ fr') n'"
  by (auto simp: edits_def)

lemma edits_keeps: "edits a b m fr n \<Longrightarrow> keeps b c \<Longrightarrow> edits a c m fr n"
  using edits_trans [of a b m fr n c "slice_map b" "[]" "mapped_entries b"] by (auto simp: keeps_edits edits_def)

lemma keeps_edits_trans: "keeps a b \<Longrightarrow> edits b c m fr n \<Longrightarrow> edits a c m fr n"
  using edits_trans [of a b "slice_map a" "[]" _ c] by (auto simp: keeps_edits)

text \<open>Removing empty pages.\<close>

lemma poke_m_free: "poke q F (m_free s) = m_free (poke q F s)"
  by (simp add: m_free_def poke_def)

lemma m_free_sel [simp]: "root (m_free s) = root s" "slice_map (m_free s) = slice_map s"
  by (simp_all add: m_free_def)

lemma clear_root_keeps:
  assumes "tree_ok (root s)" "root s = Ent h 0 p"
  shows "keeps s (m_free (poke [] (\<lambda>_. E_None) s))"
proof -
  have w: "wf_page h p" "used p = 0" "h \<le> 4" using assms by auto
  have "slice_map s x = empty_entry" for x using used_0_page(1) [OF w] assms(2) by (simp add: slice_map_def)
  then show ?thesis using used_0_page(2) [OF w] assms(2)
    by (simp add: keeps_def m_free_def fun_eq_iff slice_map_def)
qed

lemma rev_prefixes: "\<exists>qs. rev (prefixes q) = q # qs"
  by (cases q rule: rev_cases) (simp_all add: prefixes_snoc)

lemma prune_keeps':
  assumes "tree_ok (root s)" "at (root s) (q @ [i]) \<noteq> E_None" "live_of (at (root s) (q @ [i])) = 0"
  defines "s' \<equiv> ps_entry_live_dec q (m_free (poke (q @ [i]) (\<lambda>_. E_None) s))"
  shows "keeps s s'" "at (root s') q \<noteq> E_None"
proof -
  obtain t P where e: "at (root s) (q @ [i]) = Ent t 0 P"
    using assms(2,3) by (cases "at (root s) (q @ [i])") auto
  obtain h l p where r: "root s = Ent h l p" using e by (cases "root s") auto
  have "s' = (ps_entry_live_dec q (poke (q @ [i]) (\<lambda>_. E_None) s)) \<lparr>put := Suc (put s)\<rparr>"
    by (simp add: s'_def ps_entry_live_dec_def poke_def m_free_def)
  then show "keeps s s'" "at (root s') q \<noteq> E_None"
    using prune_keeps(2,4) [OF assms(1) r e] by (simp_all add: ps_entry_live_dec_def)
qed

lemma cascade_step:
  assumes "live_of (at (root s) q) = 0" "at (root s) q \<noteq> E_None"
  shows "ps_cascade_up_empty_index (q # q' # qs) s =
    ps_cascade_up_empty_index (q' # qs) (ps_entry_live_dec q' (m_free (poke q (\<lambda>_. E_None) s)))"
  using assms by (subst ps_cascade_up_empty_index.simps(2))
    (simp add: Let_def poke_m_free del: ps_cascade_up_empty_index.simps(2))

lemma cascade_keeps:
  assumes "tree_ok (root s)" "at (root s) q \<noteq> E_None"
  shows "keeps s (ps_cascade_up_empty_index (rev (prefixes q)) s)"
  using assms
proof (induction q arbitrary: s rule: rev_induct)
  case Nil
  then obtain h l p where "root s = Ent h l p" by (cases "root s") auto
  then show ?case using Nil clear_root_keeps [of s h p] keeps_refl [of s] by (auto simp: poke_m_free)
next
  case (snoc i q)
  obtain qs where qs: "rev (prefixes q) = q # qs" using rev_prefixes by blast
  let ?s = "ps_entry_live_dec q (m_free (poke (q @ [i]) (\<lambda>_. E_None) s))"
  show ?case
  proof (cases "live_of (at (root s) (q @ [i])) = 0")
    case True
    note p = prune_keeps' [OF snoc.prems True]
    have "keeps ?s (ps_cascade_up_empty_index (rev (prefixes q)) ?s)"
      by (rule snoc.IH) (use p keeps_ok in auto)
    then show ?thesis
      using keeps_trans [OF p(1)] cascade_step [OF True snoc.prems(2), of q qs]
      by (simp add: prefixes_snoc qs del: ps_cascade_up_empty_index.simps(2))
  qed (simp add: prefixes_snoc keeps_refl snoc.prems)
qed

lemma drop_leaf_keeps:
  assumes "tree_ok (root s)" "at (root s) q \<noteq> E_None" "live_of (at (root s) q) = 0"
    and "paths = (if q = [] then [] else prefixes (butlast q))"
  shows "keeps s (drop_leaf q paths s)"
proof (cases q rule: rev_cases)
  case Nil
  then obtain h p where "root s = Ent h 0 p" using assms(2,3) by (cases "root s") auto
  then show ?thesis using clear_root_keeps [OF assms(1)] Nil assms(4) by (simp add: drop_leaf_def)
next
  case (snoc q0 i)
  obtain qs where qs: "rev (prefixes q0) = q0 # qs" using rev_prefixes by blast
  note p = prune_keeps' [OF assms(1) assms(2,3) [unfolded snoc]]
  show ?thesis
    using keeps_trans [OF p(1) cascade_keeps [OF keeps_ok [OF p(1)] p(2)]] assms(2,4) snoc
    by (simp add: drop_leaf_def qs Let_def del: ps_cascade_up_empty_index.simps(2))
qed

lemma clear_and_dec:
  assumes "tree_ok (root s)" "found_leaf s x q" "valid_entry (slice_map s x)"
  defines "b \<equiv> ps_clear_leaf_entry q (LEAF_IDX x) s"
  defines "c \<equiv> ps_entry_live_dec q (b\<lparr>mapped_entries := mapped_entries b - 1\<rparr>)"
  shows "edits s c ((slice_map s)(x := empty_entry)) (owned_page (slice_map s x)) (mapped_entries s - 1)"
    and "at (root c) q \<noteq> E_None"
proof -
  let ?b = "ps_entry_live_dec q (poke q (set_leaf_entry (LEAF_IDX x) empty_entry) s)"
  note l = leaf_remove [OF assms(1-3)]
  have c: "c = ?b\<lparr>freed := freed s @ owned_page (slice_map s x), mapped_entries := mapped_entries s - 1\<rparr>"
    by (simp add: c_def b_def ps_clear_leaf_entry_def found_leaf_get [OF assms(1,2)] ps_entry_live_dec_def poke_def Let_def)
  show "edits s c ((slice_map s)(x := empty_entry)) (owned_page (slice_map s x)) (mapped_entries s - 1)"
    using l by (simp add: c edits_def ps_entry_live_dec_def)
  show "at (root c) q \<noteq> E_None" using l(4) by (auto simp: c found_leaf_def)
qed

lemma remove_present:
  assumes "tree_ok (root s)" "x < capacity 4" "ps_remove_page_locked x mo s = (s', err)" "valid_entry (slice_map s x)"
  shows "edits s s' ((slice_map s)(x := empty_entry)) (owned_page (slice_map s x)) (mapped_entries s - 1)
      \<and> err = REND_SUCCESS"
proof -
  obtain a r where d: "ps_descend_pgoff (\<lambda>_. False) False True x s = (a, r)" by fastforce
  have D: "descend_post (\<lambda>_. False) False True x s a r" by (rule ps_descend_ok [OF assms(1,2) _ d]) simp
  then have a: "a = s" by (simp add: descend_post_def)
  have "root s \<noteq> E_None" using assms(4) by (auto simp: slice_map_def)
  then have ne: "\<not> root_empty s" using assms(1) by (cases "root s") (auto simp: root_empty_def stored_height_def)
  obtain q paths where r: "r = Inr (q, paths)" using D assms(4) by (cases r) (auto simp: descend_post_def walk_err_def)
  then have f: "found_leaf s x q" "paths = (if q = [] then [] else prefixes (butlast q))"
    using D a by (auto simp: descend_post_def)
  define b where "b = ps_clear_leaf_entry q (LEAF_IDX x) s"
  define c where "c = ps_entry_live_dec q (b\<lparr>mapped_entries := mapped_entries b - 1\<rparr>)"
  note cd = clear_and_dec [OF assms(1) f(1) assms(4), folded b_def, folded c_def]
  have "(s', err) = (if live_of (at (root c) q) \<noteq> 0 then c else drop_leaf q paths c, REND_SUCCESS)"
    using assms(3,4) unfolding ps_remove_page_locked_def d r a
    by (simp add: ne leaf_index_found [OF assms(1) f(1)] found_leaf_get [OF assms(1) f(1)] b_def c_def Let_def split: if_splits)
  moreover have "keeps c (drop_leaf q paths c)" if "live_of (at (root c) q) = 0"
    by (rule drop_leaf_keeps [OF _ cd(2) that f(2)]) (use cd(1) in \<open>simp add: edits_def\<close>)
  ultimately show ?thesis using cd(1) edits_keeps [OF cd(1)] by auto
qed

lemma remove_missing:
  assumes "tree_ok (root s)" "x < capacity 4" "ps_remove_page_locked x mo s = (s', err)" "\<not> valid_entry (slice_map s x)"
  shows "s' = s \<and> err = (if mo then REND_SUCCESS else E_REND_NOFOUND)"
proof -
  obtain a r where d: "ps_descend_pgoff (\<lambda>_. False) False True x s = (a, r)" by fastforce
  have D: "descend_post (\<lambda>_. False) False True x s a r" by (rule ps_descend_ok [OF assms(1,2) _ d]) simp
  then have a: "a = s" by (simp add: descend_post_def)
  show ?thesis
  proof (cases r)
    case (Inl e)
    then have "e = E_REND_NOFOUND" using D by (simp add: descend_post_def walk_err_def)
    then show ?thesis using assms(3) d a Inl by (auto simp: ps_remove_page_locked_def Let_def split: if_splits)
  next
    case (Inr v)
    then obtain q paths where v: "r = Inr (q, paths)" "found_leaf s x q"
      using D a by (cases v) (auto simp: descend_post_def)
    then show ?thesis using assms(3,4) d a leaf_index_found [OF assms(1) v(2)] found_leaf_get [OF assms(1) v(2)]
      by (auto simp: ps_remove_page_locked_def Let_def split: if_splits)
  qed
qed

lemma remove_locked_ok:
  assumes "tree_ok (root s)" "x < capacity 4" "ps_remove_page_locked x mo s = (s', err)"
  shows "edits s s' ((slice_map s)(x := empty_entry)) (owned_page (slice_map s x))
           (mapped_entries s - (if valid_entry (slice_map s x) then 1 else 0))"
    and "err = (if valid_entry (slice_map s x) \<or> mo then REND_SUCCESS else E_REND_NOFOUND)"
  using remove_present [OF assms] remove_missing [OF assms] slice_map_wf [OF assms(1), of x] keeps_refl [OF assms(1)]
  by (auto simp: keeps_edits fun_upd_idem)

text \<open>Shrinking.\<close>

lemma unwrap_root_keeps:
  assumes "tree_ok (root s)" "root_is_index s" "root_live s = 1" "slot0 (root s) \<noteq> E_None"
  shows "keeps s (unwrap_root s)"
proof -
  obtain h l p where r: "root s = Ent h l p" using assms(4) by (cases "root s") auto
  then have h: "2 \<le> h" "h \<le> 4" "l = 1" "used p = 1" "wf_page h p"
    using assms(1-3) by (auto simp: root_is_index_def stored_height_def root_live_def root_empty_def)
  then obtain m f where m: "h = Suc (Suc m)" "m \<le> 2" "p = IndexPage f" by (auto elim: wf_page_Suc_cases)
  obtain t1 l1 p1 where f0: "f 0 = Ent t1 l1 p1" using assms(4) r m(3) by (cases "f 0") auto
  note w = wf_page_slot [OF h(5) [unfolded m(1,3)] f0]
  note d = wf_page_del [OF h(5) [unfolded m(1,3)] m(2) f0]
  have "used (IndexPage (f(0 := E_None))) = 0" using d(2) h(4) m(3) by simp
  then have e: "(f(0 := E_None)) i = E_None" for i using used_0_index [OF d(1)] by blast
  then have f: "f i = (if i = 0 then Ent t1 l1 p1 else E_None)" for i using f0 by (metis fun_upd_apply)
  have "snd (free_page p) = Suc (snd (free_page p1))"
    using d(3) e m(3) by (simp del: fun_upd_apply)
  moreover have "slice_map (unwrap_root s) x = slice_map s x" for x
    using INDEX_ENTRY_0 [of x m] f r m capacity_Suc [of "Suc m"]
    by (auto simp: slice_map_def unwrap_root_def stored_height_def)
  ultimately show ?thesis using r m w f0
    by (auto simp: keeps_def unwrap_root_def stored_height_def m_free_def)
qed

lemma shrink_loop_keeps: "tree_ok (root s) \<Longrightarrow> keeps s (fst (shrink_loop s))"
proof (induction s rule: shrink_loop.induct)
  case (1 s)
  show ?case
  proof (cases "root_is_index s \<and> root_live s = 1 \<and> slot0 (root s) \<noteq> E_None")
    case True
    then have k: "keeps s (unwrap_root s)" using unwrap_root_keeps [OF 1(2)] by blast
    then show ?thesis using 1(1) True keeps_trans [OF k] keeps_ok [OF k]
      by (auto simp: shrink_loop.simps [of s] simp del: slot0.simps)
  next
    case False
    then show ?thesis using keeps_refl [OF 1(2)] by (auto simp: shrink_loop.simps [of s] simp del: slot0.simps)
  qed
qed

lemma free_root_keeps:
  assumes "tree_ok (root s)" "root_live s = 0"
  shows "keeps s (free_root s)"
proof (cases "root s")
  case E_None
  then show ?thesis using keeps_refl [OF assms(1)] by (simp add: free_root_def)
next
  case (Ent h l p)
  then have h: "h \<le> 4" "used p = 0" "wf_page h p" "l = 0"
    using assms by (auto simp: root_live_def root_empty_def stored_height_def)
  have "free_root s = m_free (poke [] (\<lambda>_. E_None) s)"
    using used_0_page(2,3) [OF h(3,2,1)] Ent by (simp add: free_root_def m_free_def poke_def)
  then show ?thesis using clear_root_keeps [OF assms(1)] Ent h(4) by simp
qed

lemma ps_shrink_keeps:
  assumes "tree_ok (root s)"
  shows "keeps s (ps_shrink s)"
proof -
  note k = shrink_loop_keeps [OF assms]
  show ?thesis using k keeps_trans [OF k free_root_keeps [OF keeps_ok [OF k]]]
    by (auto simp: ps_shrink_def split: prod.split bool.split)
qed

lemma ps_shrink_iter_keeps: "tree_ok (root s) \<Longrightarrow> keeps s ((ps_shrink ^^ n) s)"
  by (induction n) (auto intro: keeps_refl keeps_trans ps_shrink_keeps keeps_ok)

section \<open>The interface of a slice\<close>

definition slice_inv :: "page_slice \<Rightarrow> bool" where
  "slice_inv s \<longleftrightarrow> tree_ok (root s) \<and> got s = put s + 1 + tree_pages (root s)
     \<and> 0 < size s \<and> size s \<le> MAX_BYTE_SIZE
     \<and> (\<forall>x. valid_entry (slice_map s x) \<longrightarrow> x < page_count s)
     \<and> mapped_entries s = card {x. valid_entry (slice_map s x)}"

lemma page_count_le: "0 < sz \<Longrightarrow> sz \<le> MAX_BYTE_SIZE \<Longrightarrow> SIZE_TO_PAGE_COUNT sz \<le> capacity 4"
proof -
  assume "sz \<le> MAX_BYTE_SIZE"
  then have "sz + 4096 - 1 < (2 ^ 34 + 1) * 4096" by (simp add: MAX_BYTE_SIZE_def)
  then have "(sz + 4096 - 1) div 4096 < 2 ^ 34 + 1" by (rule less_mult_imp_div_less)
  then show ?thesis by (simp add: SIZE_TO_PAGE_COUNT_def capacity_4)
qed

lemma slice_inv_count: "slice_inv s \<Longrightarrow> page_count s \<le> capacity 4"
  using page_count_le by (simp add: slice_inv_def page_count_def)

lemma lookup_spec:
  assumes "slice_inv s"
  shows "page_slice_lookup (Some s) x = (if valid_entry (slice_map s x) then Some (slice_map s x) else None)"
proof -
  have ok: "tree_ok (root s)" using assms by (simp add: slice_inv_def)
  obtain a r where g: "ps_get_entry (\<lambda>_. False) False x s = (a, r)" by fastforce
  have G: "if x < page_count s then descend_post (\<lambda>_. False) False False x s a r else a = s \<and> r = Inl E_IN_PARAM"
    by (rule get_entry_ok [OF ok slice_inv_count [OF assms] g])
  show ?thesis
  proof (cases r)
    case (Inl e)
    then have "\<not> valid_entry (slice_map s x)"
      using G assms by (auto simp: descend_post_def walk_err_def slice_inv_def split: if_splits)
    then show ?thesis using g Inl by simp
  next
    case (Inr v)
    then obtain q p where v: "v = (q, p)" "a = s" "found_leaf s x q"
      using G by (cases v) (auto simp: descend_post_def split: if_splits)
    then show ?thesis using g Inr found_leaf_get [OF ok v(3)] by (simp add: Let_def)
  qed
qed

lemma slice_inv_edits:
  assumes "slice_inv s" "edits s s' m fr n" "\<And>x. valid_entry (m x) \<Longrightarrow> x < page_count s"
    and "n = card {x. valid_entry (m x)}"
  shows "slice_inv s'"
  using assms by (auto simp: slice_inv_def edits_def page_count_def)

lemma slice_inv_keeps: "slice_inv s \<Longrightarrow> keeps s s' \<Longrightarrow> slice_inv s'"
  by (auto simp: slice_inv_def keeps_def page_count_def)

lemma finite_valid: "slice_inv s \<Longrightarrow> finite {x. valid_entry (slice_map s x)}"
  by (rule finite_subset [of _ "{..<page_count s}"]) (auto simp: slice_inv_def)

lemma lookup_map: "slice_inv s \<Longrightarrow> page_slice_lookup (Some s) = (\<lambda>x. if valid_entry (slice_map s x) then Some (slice_map s x) else None)"
  by (rule ext) (rule lookup_spec)

lemma lookup_keeps: "slice_inv s \<Longrightarrow> keeps s s' \<Longrightarrow> page_slice_lookup (Some s') = page_slice_lookup (Some s)"
  using slice_inv_keeps [of s s'] by (auto simp: lookup_map keeps_def fun_eq_iff simp del: page_slice_lookup.simps)

text \<open>The outcome of an insert.\<close>

lemma insert_bind:
  fixes fl :: u64
  assumes "slice_inv s" "found_leaf s x q" "\<not> valid_entry (slice_map s x)" "a \<noteq> 0" "x < page_count s"
  defines "t \<equiv> bind_entry q x a fl s" and "new \<equiv> \<lparr>kva = a, flags = fl OR FLAG_VALID\<rparr>"
  shows "slice_inv t" "page_slice_lookup (Some t) = (page_slice_lookup (Some s))(x \<mapsto> new)" "freed t = freed s" "size t = size s"
proof -
  have ok: "tree_ok (root s)" using assms by (simp add: slice_inv_def)
  have B: "edits s t ((slice_map s)(x := new)) [] (Suc (mapped_entries s))" "valid_entry new"
    using bind_entry_ok [OF ok assms(2,3,4), of fl] assms(4)
    by (auto simp: edits_def t_def new_def valid_entry_def FLAG_VALID_def and_one_eq mod_2_eq_odd even_or_iff)
  have set: "{y. valid_entry (((slice_map s)(x := new)) y)} = insert x {y. valid_entry (slice_map s y)}"
    using B(2) by auto
  have "Suc (mapped_entries s) = card {y. valid_entry (((slice_map s)(x := new)) y)}"
    unfolding set using assms(1,3) finite_valid [OF assms(1)] by (simp add: slice_inv_def)
  moreover have "y < page_count s" if "valid_entry (((slice_map s)(x := new)) y)" for y
    using that assms(1,5) by (cases "y = x") (simp_all add: slice_inv_def)
  ultimately show t: "slice_inv t" using slice_inv_edits [OF assms(1) B(1)] by blast
  show "page_slice_lookup (Some t) = (page_slice_lookup (Some s))(x \<mapsto> new)"
    using B by (auto simp: lookup_map [OF t] lookup_map [OF assms(1)] edits_def simp del: page_slice_lookup.simps)
  show "freed t = freed s" "size t = size s" using B(1) by (simp_all add: edits_def)
qed

lemma insert_cases:
  assumes "slice_inv s" "page_slice_insert_page mem (Some s) x a fl = (o', err)"
  defines "new \<equiv> \<lparr>kva = a, flags = fl OR FLAG_VALID\<rparr>"
  shows "\<exists>t. o' = Some t \<and> slice_inv t \<and> freed t = freed s \<and> size t = size s
    \<and> (if a = 0 \<or> x \<ge> page_count s then err = E_IN_PARAM \<and> t = s
       else case page_slice_lookup (Some s) x of
           Some e \<Rightarrow> page_slice_lookup (Some t) = page_slice_lookup (Some s)
                       \<and> err = (if kva e = a then REND_SUCCESS else E_REND_AGAIN)
         | None \<Rightarrow> err = REND_SUCCESS \<and> page_slice_lookup (Some t) = (page_slice_lookup (Some s))(x \<mapsto> new)
                     \<or> err = E_REND_NO_MEM \<and> page_slice_lookup (Some t) = page_slice_lookup (Some s)
                          \<and> (\<exists>i \<ge> allocs s. \<not> mem i))"
proof (cases "a = 0 \<or> x \<ge> page_count s")
  case True
  have "x \<ge> page_count s \<Longrightarrow> ps_get_entry mem True x s = (s, Inl E_IN_PARAM)"
    by (simp add: ps_get_entry_def ps_pgoff_valid_def)
  then show ?thesis using True assms by (auto split: if_splits)
next
  case False
  have ok: "tree_ok (root s)" using assms by (simp add: slice_inv_def)
  obtain b r where g: "ps_get_entry mem True x s = (b, r)" by fastforce
  have G: "descend_post mem True False x s b r"
    using get_entry_ok [OF ok slice_inv_count [OF assms(1)] g] False by simp
  then have k: "keeps s b" by (simp add: descend_post_def)
  note i = slice_inv_keeps [OF assms(1) k] lookup_keeps [OF assms(1) k] keeps_ok [OF k]
  have fb: "freed b = freed s" "size b = size s" "slice_map b = slice_map s" using k by (auto simp: keeps_def)
  show ?thesis
  proof (cases r)
    case (Inl e)
    then show ?thesis using G False g i fb lookup_spec [OF assms(1), of x] assms(2)
      by (auto simp: descend_post_def walk_err_def simp del: page_slice_lookup.simps)
  next
    case (Inr v)
    then obtain q p where v: "v = (q, p)" "found_leaf b x q" using G by (cases v) (auto simp: descend_post_def)
    note L = found_leaf_get [OF i(3) v(2)] lookup_spec [OF assms(1), of x]
    show ?thesis
    proof (cases "valid_entry (slice_map s x)")
      case True
      then show ?thesis using False g Inr v L assms(2) i fb
        by (auto simp: Let_def simp del: page_slice_lookup.simps)
    next
      case n: False
      note B = insert_bind [OF i(1) v(2), of a fl]
      have "o' = Some (bind_entry q x a fl b)" "err = REND_SUCCESS"
        using False g Inr v L n assms(2) fb by (simp_all add: Let_def)
      then show ?thesis using B False n L fb i(2)
        by (auto simp: page_count_def new_def simp del: page_slice_lookup.simps)
    qed
  qed
qed

lemma slice_inv_size:
  assumes "tree_ok (root s)" "got s = put s + 1 + tree_pages (root s)" "mapped_entries s = card {x. valid_entry (slice_map s x)}"
    and "0 < size s" "size s \<le> MAX_BYTE_SIZE" "\<And>x. valid_entry (slice_map s x) \<Longrightarrow> x < page_count s"
  shows "slice_inv s"
  using assms by (simp add: slice_inv_def)

lemma card_valid_clear:
  assumes "finite {y. valid_entry (m y)}"
  shows "card {y. valid_entry ((m(x := empty_entry)) y)} = card {y. valid_entry (m y)} - (if valid_entry (m x) then 1 else 0)"
proof -
  have "{y. valid_entry ((m(x := empty_entry)) y)} = {y. valid_entry (m y)} - {x}" by auto
  then show ?thesis using assms by (simp add: card_Diff_singleton_if)
qed

definition owned_at :: "page_slice \<Rightarrow> nat \<Rightarrow> u64 list" where
  "owned_at s x = (case page_slice_lookup (Some s) x of None \<Rightarrow> [] | Some e \<Rightarrow> owned_page e)"

lemma owned_at_map: "slice_inv s \<Longrightarrow> owned_at s x = owned_page (slice_map s x)"
  using slice_map_wf [of s x] by (auto simp: owned_at_def lookup_spec slice_inv_def simp del: page_slice_lookup.simps)

lemma remove_cases:
  assumes "slice_inv s" "page_slice_remove_page (Some s) x = (o', err)"
  shows "\<exists>t. o' = Some t \<and> slice_inv t \<and> size t = size s
    \<and> (if x \<ge> page_count s then err = E_IN_PARAM \<and> t = s
       else case page_slice_lookup (Some s) x of
           None \<Rightarrow> err = E_REND_NOFOUND \<and> t = s
         | Some e \<Rightarrow> err = REND_SUCCESS \<and> page_slice_lookup (Some t) = (page_slice_lookup (Some s))(x := None)
                       \<and> freed t = freed s @ owned_page e)"
proof (cases "x \<ge> page_count s")
  case True
  then show ?thesis using assms by (auto simp: ps_pgoff_valid_def)
next
  case False
  have ok: "tree_ok (root s)" using assms by (simp add: slice_inv_def)
  have x: "x < capacity 4" using False slice_inv_count [OF assms(1)] by simp
  obtain b e where b: "ps_remove_page_locked x False s = (b, e)" by fastforce
  show ?thesis
  proof (cases "valid_entry (slice_map s x)")
    case True
    let ?m = "(slice_map s)(x := empty_entry)"
    have R: "edits s b ?m (owned_page (slice_map s x)) (mapped_entries s - 1)" "e = REND_SUCCESS"
      using remove_present [OF ok x b True] by auto
    let ?t = "(ps_shrink ^^ 4) b"
    have E: "edits s ?t ?m (owned_page (slice_map s x)) (mapped_entries s - 1)"
      using edits_keeps [OF R(1) ps_shrink_iter_keeps] R(1) by (simp add: edits_def)
    have "slice_inv ?t"
      using assms(1) True card_valid_clear [OF finite_valid [OF assms(1)], of x]
      by (intro slice_inv_edits [OF assms(1) E]) (auto simp: slice_inv_def split: if_splits)
    moreover from this have "page_slice_lookup (Some ?t) = (page_slice_lookup (Some s))(x := None)"
      using E by (auto simp: lookup_map assms(1) edits_def simp del: page_slice_lookup.simps)
    moreover have "o' = Some ?t" "err = REND_SUCCESS"
      using assms(2) False b R(2) by (auto simp: ps_pgoff_valid_def split: if_splits)
    ultimately show ?thesis using False True E lookup_spec [OF assms(1), of x]
      by (auto simp: edits_def simp del: page_slice_lookup.simps)
  next
    case n: False
    then show ?thesis using remove_missing [OF ok x b n] assms False b lookup_spec [OF assms(1), of x]
      by (auto simp: ps_pgoff_valid_def simp del: page_slice_lookup.simps)
  qed
qed

text \<open>Truncation.\<close>

definition cut_map :: "(nat \<Rightarrow> page_slice_entry) \<Rightarrow> nat \<Rightarrow> nat \<Rightarrow> nat \<Rightarrow> page_slice_entry" where
  "cut_map m new n x = (if new \<le> x \<and> x < new + n then empty_entry else m x)"

lemma cut_0: "cut_map m new 0 = m"
  by (rule ext) (auto simp: cut_map_def)

lemma cut_Suc: "cut_map (m(new + n := empty_entry)) new n = cut_map m new (Suc n)"
  by (rule ext) (auto simp: cut_map_def)

lemma truncate_loop_ok:
  assumes "tree_ok (root s)" "new + n \<le> capacity 4" "finite {x. valid_entry (slice_map s x)}"
    and "mapped_entries s = card {x. valid_entry (slice_map s x)}"
  shows "edits s (truncate_loop new n s) (cut_map (slice_map s) new n)
           (concat (map (\<lambda>x. owned_page (slice_map s x)) (rev [new..<new + n])))
           (card {x. valid_entry (cut_map (slice_map s) new n x)})"
  using assms
proof (induction n arbitrary: s)
  case 0
  then show ?case using keeps_refl [of s] by (simp add: keeps_edits cut_0)
next
  case (Suc n)
  obtain b e where b: "ps_remove_page_locked (new + n) True s = (b, e)" by fastforce
  have x: "new + n < capacity 4" using Suc.prems(2) by simp
  note R = remove_locked_ok(1) [OF Suc.prems(1) x b]
  have map: "slice_map b = (slice_map s)(new + n := empty_entry)" using R by (simp add: edits_def)
  have fin: "finite {x. valid_entry (slice_map b x)}"
    by (rule finite_subset [OF _ Suc.prems(3)]) (auto simp: map)
  have "mapped_entries b = card {x. valid_entry (slice_map b x)}"
    using R Suc.prems(4) card_valid_clear [OF Suc.prems(3), of "new + n"] unfolding map by (simp add: edits_def)
  then have "edits b (truncate_loop new n b) (cut_map (slice_map b) new n)
     (concat (map (\<lambda>x. owned_page (slice_map b x)) (rev [new..<new + n]))) (card {x. valid_entry (cut_map (slice_map b) new n x)})"
    using Suc.IH [of b] R Suc.prems(2) fin by (simp add: edits_def)
  note E = edits_trans [OF R this, unfolded map cut_Suc]
  have "concat (map (\<lambda>x. owned_page (((slice_map s)(new + n := empty_entry)) x)) (rev [new..<new + n]))
      = concat (map (\<lambda>x. owned_page (slice_map s x)) (rev [new..<new + n]))"
    by (intro arg_cong [of _ _ concat] map_cong) auto
  then show ?case using E by (simp add: b del: fun_upd_apply)
qed

lemma page_count_mono: "a \<le> b \<Longrightarrow> SIZE_TO_PAGE_COUNT a \<le> SIZE_TO_PAGE_COUNT b"
  by (auto simp: SIZE_TO_PAGE_COUNT_def intro: div_le_mono)

lemma set_size_edits:
  fixes n :: nat
  assumes "slice_inv s"
  defines "p \<equiv> SIZE_TO_PAGE_COUNT n"
  defines "m \<equiv> \<lambda>x. if x < p then slice_map s x else empty_entry"
  shows "edits s (if n < size s \<and> p < page_count s then truncate_loop p (page_count s - p) s else s) m
     (concat (map (owned_at s) (rev [p..<page_count s]))) (card {x. valid_entry (m x)})"
proof -
  have I: "tree_ok (root s)" "mapped_entries s = card {x. valid_entry (slice_map s x)}"
    using assms(1) by (simp_all add: slice_inv_def)
  have beyond: "slice_map s x = empty_entry" if "page_count s \<le> x" for x
    using slice_map_wf [OF I(1), of x] assms(1) that by (auto simp: slice_inv_def)
  show ?thesis
  proof (cases "n < size s \<and> p < page_count s")
    case True
    have m: "m = cut_map (slice_map s) p (page_count s - p)"
      using True beyond unfolding m_def by (auto simp: fun_eq_iff not_less cut_map_def)
    have o: "owned_at s = (\<lambda>x. owned_page (slice_map s x))" using owned_at_map [OF assms(1)] by (rule ext)
    have "p + (page_count s - p) \<le> capacity 4" using True slice_inv_count [OF assms(1)] by simp
    from truncate_loop_ok [OF I(1) this finite_valid [OF assms(1)] I(2)] True
    show ?thesis unfolding m o by simp
  next
    case False
    then have le: "page_count s \<le> p" using page_count_mono [of "size s" n] by (auto simp: p_def page_count_def)
    then have "m = slice_map s" using beyond unfolding m_def by (auto simp: fun_eq_iff)
    then show ?thesis using False le I(2) keeps_refl [OF I(1)] by (simp add: keeps_edits)
  qed
qed

lemma set_size_cases:
  assumes "slice_inv s" "0 < n"
  shows "if n > MAX_BYTE_SIZE then page_slice_set_size (Some s) n = (None, Some s, E_REND_OVERFLOW)
    else \<exists>t. page_slice_set_size (Some s) n = (None, Some t, REND_SUCCESS) \<and> slice_inv t \<and> size t = n
      \<and> page_slice_lookup (Some t) = (\<lambda>x. if x < SIZE_TO_PAGE_COUNT n then page_slice_lookup (Some s) x else None)
      \<and> freed t = freed s @ concat (map (owned_at s) (rev [SIZE_TO_PAGE_COUNT n..<page_count s]))"
proof (cases "n > MAX_BYTE_SIZE")
  case True
  then show ?thesis using assms(2) by (simp add: ps_byte_size_valid_def)
next
  case False
  let ?p = "SIZE_TO_PAGE_COUNT n"
  define b where "b = (if n < size s \<and> ?p < page_count s then truncate_loop ?p (page_count s - ?p) s else s)"
  define m where "m = (\<lambda>x. if x < ?p then slice_map s x else empty_entry)"
  have B: "edits s b m (concat (map (owned_at s) (rev [?p..<page_count s]))) (card {x. valid_entry (m x)})"
    using set_size_edits [OF assms(1), of n] unfolding b_def m_def .
  have k: "keeps (b\<lparr>size := n\<rparr>) (ps_shrink (b\<lparr>size := n\<rparr>))"
    by (rule ps_shrink_keeps) (use B in \<open>simp add: edits_def\<close>)
  define t where "t = (if n = size s then s else ps_shrink (b\<lparr>size := n\<rparr>))"
  have eq: "page_slice_set_size (Some s) n = (None, Some t, REND_SUCCESS)"
    using False assms(2) by (simp add: ps_byte_size_valid_def t_def b_def Let_def)
  show ?thesis
  proof (cases "n = size s")
    case True
    have "page_slice_lookup (Some s) = (\<lambda>x. if x < ?p then page_slice_lookup (Some s) x else None)"
      using assms(1) True by (auto simp: lookup_map slice_inv_def page_count_def fun_eq_iff simp del: page_slice_lookup.simps)
    then show ?thesis using True False assms(1) eq by (simp add: t_def page_count_def del: page_slice_lookup.simps page_slice_set_size.simps)
  next
    case ne: False
    have T: "tree_ok (root t)" "slice_map t = m" "mapped_entries t = card {x. valid_entry (m x)}" "size t = n"
      "freed t = freed s @ concat (map (owned_at s) (rev [?p..<page_count s]))"
      "got t + put s + tree_pages (root s) = got s + put t + tree_pages (root t)"
      using B k ne by (simp_all add: t_def keeps_def edits_def)
    have inv: "slice_inv t"
      using T(1-4,6) assms False by (intro slice_inv_size) (auto simp: m_def page_count_def slice_inv_def split: if_splits)
    moreover have "page_slice_lookup (Some t) = (\<lambda>x. if x < ?p then page_slice_lookup (Some s) x else None)"
      using T(2) by (auto simp: lookup_map [OF inv] lookup_map [OF assms(1)] m_def simp del: page_slice_lookup.simps)
    ultimately show ?thesis using False eq T by (simp del: page_slice_lookup.simps page_slice_set_size.simps)
  qed
qed

text \<open>Tearing down.\<close>

lemma concat_blocks: "concat (map (\<lambda>i. concat (map (\<lambda>y. F (i * c + y)) [0..<c])) [0..<n]) = concat (map F [0..<n * c])"
proof (induction n)
  case (Suc n)
  have "[0..<n * c + c] = [0..<n * c] @ [n * c..<n * c + c]" by (rule upt_add_eq_append) simp
  moreover have "[n * c..<n * c + c] = map (\<lambda>y. n * c + y) [0..<c]"
    using map_add_upt [of "n * c" c] by (simp add: add.commute)
  ultimately show ?case using Suc by (simp add: comp_def add.commute)
qed simp

lemma INDEX_ENTRY_block:
  assumes "y < capacity (Suc m)" "i < 512"
  shows "INDEX_ENTRY (i * capacity (Suc m) + y) m = i"
  using assms by (simp add: INDEX_ENTRY_capacity)

lemma INDEX_ENTRY_shift: "INDEX_ENTRY (k * capacity (Suc (Suc m)) + y) m = INDEX_ENTRY y m"
proof -
  define C where "C = capacity (Suc m)"
  have C: "0 < C" "capacity (Suc (Suc m)) = 512 * C" by (simp_all add: C_def capacity_Suc)
  have "(k * (512 * C) + y) div C = k * 512 + y div C"
    using C(1) div_mult_self1 [of C y "k * 512"] by (simp add: mult.assoc add.commute)
  then show ?thesis unfolding INDEX_ENTRY_capacity C(2) C_def [symmetric] by simp
qed

lemma page_get_shift: "page_get n p (k * capacity n + y) = page_get n p y"
proof (induction n p y arbitrary: k rule: page_get.induct)
  case (1 g x)
  have "(k * capacity (Suc 0) + x) mod 128 = x mod 128" by (simp add: capacity_def mult.commute)
  then show ?case by (simp add: LEAF_IDX_def)
next
  case (2 n f x)
  have k: "k * capacity (Suc (Suc n)) + x = (k * 512) * capacity (Suc n) + x" by (simp add: capacity_Suc)
  show ?case
  proof (cases "f (INDEX_ENTRY x n)")
    case (Ent h l p)
    have "page_get (Suc n) p (k * capacity (Suc (Suc n)) + x) = page_get (Suc n) p x"
      unfolding k by (rule 2 [OF Ent])
    then show ?thesis by (simp add: INDEX_ENTRY_shift Ent)
  qed (simp add: INDEX_ENTRY_shift)
qed auto

lemma free_page_order:
  assumes "wf_page n p" "n \<le> 4"
  shows "fst (free_page p) = concat (map (\<lambda>x. owned_page (page_get n p x)) [0..<capacity n])"
  using assms
proof (induction n p rule: wf_page.induct)
  case (1 g)
  have "LEAF_IDX x = x" if "x < 128" for x using that by (simp add: LEAF_IDX_def)
  then have "map (\<lambda>x. owned_page (g x)) [0..<128] = map (\<lambda>x. owned_page (g (LEAF_IDX x))) [0..<128]" by simp
  then show ?case by (simp add: capacity_def LEAF_CAPACITY_def del: map_eq_conv)
next
  case (2 m f)
  let ?F = "\<lambda>x. owned_page (page_get (Suc (Suc m)) (IndexPage f) x)"
  let ?C = "capacity (Suc m)"
  have m: "m \<le> 2" using 2 by simp
  have blk: "fst (free_ent (f i)) = concat (map (\<lambda>y. ?F (i * ?C + y)) [0..<?C])" if i: "i < 512" for i
  proof (cases "f i")
    case E_None
    then show ?thesis using INDEX_ENTRY_block [OF _ i] by (simp cong: map_cong)
  next
    case (Ent h l p)
    note w = wf_page_slot [OF 2(2) Ent]
    have "fst (free_page p) = concat (map (\<lambda>y. owned_page (page_get (Suc m) p y)) [0..<?C])"
      using 2(1) [of i h l p] Ent w(4) 2(3) by simp
    moreover have "map (\<lambda>y. ?F (i * ?C + y)) [0..<?C] = map (\<lambda>y. owned_page (page_get (Suc m) p y)) [0..<?C]"
      by (rule map_cong) (simp_all add: INDEX_ENTRY_block [OF _ i] Ent page_get_shift)
    moreover have "free_ent (f i) = free_page p" using free_ent_wf [OF 2(2) m, of i] Ent by simp
    ultimately show ?thesis by (simp only:)
  qed
  have c: "capacity (Suc (Suc m)) = 512 * ?C" by (simp add: capacity_Suc)
  have "fst (free_page (IndexPage f)) = concat (map (\<lambda>i. concat (map (\<lambda>y. ?F (i * ?C + y)) [0..<?C])) [0..<512])"
    unfolding free_page.simps fst_conv INDEX_CAPACITY_def
    by (intro arg_cong [of _ _ concat] map_cong refl) (rule blk, simp)
  also have "\<dots> = concat (map ?F [0..<512 * ?C])" by (rule concat_blocks)
  finally show ?case unfolding c .
qed auto

lemma concat_trim:
  assumes "\<And>x. n \<le> x \<Longrightarrow> F x = []" "n \<le> m"
  shows "concat (map F [0..<m]) = concat (map F [0..<n])"
proof -
  have "[0..<m] = [0..<n] @ [n..<m]" using assms(2) by (metis le_add_diff_inverse upt_add_eq_append zero_le)
  moreover have "concat (map F [n..<m]) = []" using assms(1) by auto
  ultimately show ?thesis by simp
qed

lemma free_root_all:
  assumes "slice_inv s"
  defines "t \<equiv> if \<not> root_empty s then free_root s else s"
  shows "freed t = freed s @ concat (map (owned_at s) [0..<page_count s])" "got t = put t + 1"
proof -
  have ok: "tree_ok (root s)" and bal: "got s = put s + 1 + tree_pages (root s)" using assms by (simp_all add: slice_inv_def)
  have o: "owned_at s = (\<lambda>x. owned_page (slice_map s x))" using owned_at_map [OF assms(1)] by (rule ext)
  have beyond: "slice_map s x = empty_entry" if "page_count s \<le> x" for x
    using slice_map_wf [OF ok, of x] assms(1) that by (auto simp: slice_inv_def)
  show "got t = put t + 1" using bal ok by (cases "root s") (auto simp: t_def free_root_def root_empty_def stored_height_def)
  show "freed t = freed s @ concat (map (owned_at s) [0..<page_count s])"
  proof (cases "root s")
    case E_None
    then have "slice_map s x = empty_entry" for x by (simp add: slice_map_def)
    then show ?thesis using E_None by (simp add: t_def root_empty_def o)
  next
    case (Ent h l p)
    then have h: "wf_page h p" "h \<le> 4" "1 \<le> h" using ok by auto
    have "map (\<lambda>x. owned_page (page_get h p x)) [0..<capacity h] = map (owned_at s) [0..<capacity h]"
      by (rule map_cong) (auto simp: o slice_map_def Ent)
    then have f: "fst (free_page p) = concat (map (owned_at s) [0..<capacity h])"
      using free_page_order [OF h(1,2)] by (simp only:)
    have out: "owned_at s x = []" if "capacity h \<le> x \<or> page_count s \<le> x" for x
      using that beyond [of x] by (auto simp: o slice_map_def Ent)
    have "concat (map (owned_at s) [0..<capacity h]) = concat (map (owned_at s) [0..<page_count s])"
      using concat_trim [of "capacity h" "owned_at s" "page_count s"] concat_trim [of "page_count s" "owned_at s" "capacity h"] out
      by (cases "capacity h \<le> page_count s") auto
    then show ?thesis using Ent h(3) f by (simp add: t_def free_root_def root_empty_def stored_height_def)
  qed
qed

lemma destroy_cases:
  assumes "slice_inv s"
  shows "\<exists>k. page_slice_destroy (Some s) = (Some k, None, REND_SUCCESS) \<and> got k = put k
     \<and> freed k = freed s @ concat (map (owned_at s) [0..<page_count s])"
  using free_root_all [OF assms] by (simp add: Let_def m_free_def kheap.truncate_def)

lemma create_cases:
  assumes "got k = put k" "page_slice_create mem n k = (k', r)"
  shows "case r of None \<Rightarrow> n = 0 \<or> n > MAX_BYTE_SIZE \<or> \<not> mem (allocs k)
    | Some s \<Rightarrow> slice_inv s \<and> size s = n \<and> page_slice_lookup (Some s) = (\<lambda>_. None) \<and> freed s = freed k"
proof (cases r)
  case None
  then show ?thesis using assms(2) by (auto simp: page_slice_create_def ps_byte_size_valid_def m_alloc_def kheap.extend_def split: if_splits)
next
  case (Some s)
  then have s: "root s = E_None" "size s = n" "mapped_entries s = 0" "got s = put s + 1" "freed s = freed k" "0 < n" "n \<le> MAX_BYTE_SIZE"
    using assms by (auto simp: page_slice_create_def ps_byte_size_valid_def m_alloc_def kheap.extend_def page_slice.fields_def split: if_splits)
  then have "slice_map s x = empty_entry" for x by (simp add: slice_map_def)
  then show ?thesis using s Some by (auto simp: slice_inv_def lookup_spec fun_eq_iff simp del: page_slice_lookup.simps)
qed

text \<open>The life of a slice between its creation and its destruction.\<close>

inductive slice_step :: "(nat \<Rightarrow> bool) \<Rightarrow> page_slice \<Rightarrow> page_slice \<Rightarrow> bool" for mem where
  ins: "page_slice_insert_page mem (Some s) x a fl = (Some t, err) \<Longrightarrow> slice_step mem s t"
| rem: "page_slice_remove_page (Some s) x = (Some t, err) \<Longrightarrow> slice_step mem s t"
| resize: "page_slice_set_size (Some s) n = (k, Some t, err) \<Longrightarrow> slice_step mem s t"

lemma slice_step_inv:
  assumes "slice_step mem s t" "slice_inv s"
  shows "slice_inv t"
  using assms(1)
proof cases
  case (ins x a fl err)
  then show ?thesis using insert_cases [OF assms(2) ins] by auto
next
  case (rem x err)
  then show ?thesis using remove_cases [OF assms(2) rem] by auto
next
  case (resize n k err)
  then have "0 < n" by (auto simp: Let_def split: if_splits)
  from set_size_cases [OF assms(2) this] resize assms(2) show ?thesis
    by (auto simp del: page_slice_set_size.simps split: if_splits)
qed

lemma slice_steps_inv: "(slice_step mem)\<^sup>*\<^sup>* s t \<Longrightarrow> slice_inv s \<Longrightarrow> slice_inv t"
  by (induction rule: rtranclp_induct) (auto intro: slice_step_inv)

section \<open>Properties\<close>

text \<open>A slice of 147 pages, before and after one insert.\<close>

definition slice0 :: page_slice where
  "slice0 = \<lparr>allocs = 1, got = 1, put = 0, freed = [], root = E_None, size = 600000, mapped_entries = 0\<rparr>"

lemma slice0_created:
  "page_slice_create (\<lambda>_. True) 600000 \<lparr>allocs = 0, got = 0, put = 0, freed = []\<rparr>
   = (\<lparr>allocs = 1, got = 1, put = 0, freed = []\<rparr>, Some slice0)"
  by (simp add: page_slice_create_def slice0_def m_alloc_def ps_byte_size_valid_def MAX_BYTE_SIZE_def kheap.extend_def page_slice.fields_def)
lemma slice0_inv: "slice_inv slice0"
  using create_cases [OF _ slice0_created] by simp

lemma slice0_empty: "page_slice_lookup (Some slice0) = (\<lambda>_. None)"
  using create_cases [OF _ slice0_created] by simp

lemma slice0_count: "page_count slice0 = 147"
  by (simp add: page_count_def slice0_def SIZE_TO_PAGE_COUNT_def)

definition slice1 :: page_slice where
  "slice1 = the (fst (page_slice_insert_page (\<lambda>_. True) (Some slice0) 130 4096 0))"

lemma slice1_facts:
  "page_slice_insert_page (\<lambda>_. True) (Some slice0) 130 4096 0 = (Some slice1, REND_SUCCESS)"
  "slice_inv slice1" "page_slice_lookup (Some slice1) = [130 \<mapsto> \<lparr>kva = 4096, flags = 1\<rparr>]"
  "freed slice1 = []" "page_count slice1 = 147"
proof -
  obtain o' err where r: "page_slice_insert_page (\<lambda>_. True) (Some slice0) 130 4096 0 = (o', err)" by fastforce
  note i = insert_cases [OF slice0_inv r]
  then show "page_slice_insert_page (\<lambda>_. True) (Some slice0) 130 4096 0 = (Some slice1, REND_SUCCESS)"
    "slice_inv slice1" "page_slice_lookup (Some slice1) = [130 \<mapsto> \<lparr>kva = 4096, flags = 1\<rparr>]"
    "freed slice1 = []" "page_count slice1 = 147"
    using r slice0_count
    by (auto simp: slice1_def slice0_empty page_count_def FLAG_VALID_def slice0_def [THEN arg_cong, of freed]
      slice0_def [THEN arg_cong, of size] simp del: page_slice_lookup.simps page_slice_insert_page.simps)
qed

lemma owned_in: "a \<in> set (owned_at s x) \<Longrightarrow> x \<in> set xs \<Longrightarrow> a \<in> set (concat (map (owned_at s) xs))"
  by auto

lemma slice1_owned: "4096 \<in> set (owned_at slice1 130)"
  by (simp add: owned_at_def slice1_facts owned_page_def FLAG_PIN_def del: page_slice_lookup.simps)

text \<open>C15. Inserting a page is exact on every branch. A null page or an offset outside the slice is refused and changes
  nothing. An offset that is already bound keeps its page, and the call reports whether the page is the same. A free
  offset is bound to the new page and no other lookup changes, or, only if an allocation failed, the call reports
  it and no lookup changes. The invariant holds afterwards: exact live counts at every level, no tree page lost.\<close>

theorem page_slice_insert_exact:
  assumes "slice_inv s" "page_slice_insert_page mem (Some s) x a fl = (o', err)"
  shows "\<exists>t. o' = Some t \<and> slice_inv t \<and> freed t = freed s \<and> size t = size s
    \<and> (if a = 0 \<or> x \<ge> page_count s then err = E_IN_PARAM \<and> t = s
       else case page_slice_lookup (Some s) x of
           Some e \<Rightarrow> page_slice_lookup (Some t) = page_slice_lookup (Some s)
                       \<and> err = (if kva e = a then REND_SUCCESS else E_REND_AGAIN)
         | None \<Rightarrow> err = REND_SUCCESS
                       \<and> page_slice_lookup (Some t) = (page_slice_lookup (Some s))(x \<mapsto> \<lparr>kva = a, flags = fl OR FLAG_VALID\<rparr>)
                   \<or> err = E_REND_NO_MEM \<and> page_slice_lookup (Some t) = page_slice_lookup (Some s)
                       \<and> (\<exists>i \<ge> allocs s. \<not> mem i))"
  by (rule insert_cases [OF assms])

theorem page_slice_insert_exact_witness:
  "page_slice_lookup (fst (page_slice_insert_page (\<lambda>_. True) (Some slice0) 130 4096 0)) 130 = Some \<lparr>kva = 4096, flags = 1\<rparr>
   \<and> snd (page_slice_insert_page (\<lambda>_. True) (Some slice1) 130 8192 0) = E_REND_AGAIN"
proof -
  obtain o1 e1 where 1: "page_slice_insert_page (\<lambda>_. True) (Some slice0) 130 4096 0 = (o1, e1)" by fastforce
  obtain o2 e2 where 2: "page_slice_insert_page (\<lambda>_. True) (Some slice1) 130 8192 0 = (o2, e2)" by fastforce
  show ?thesis
    using page_slice_insert_exact [OF slice0_inv 1] page_slice_insert_exact [OF slice1_facts(2) 2] 1 2
    by (auto simp: slice0_count slice0_empty slice1_facts(3,5) FLAG_VALID_def
        simp del: page_slice_lookup.simps page_slice_insert_page.simps)
qed

text \<open>C16. Removing an offset is exact on every branch: outside the slice or not bound, nothing changes and the right
  error is returned; otherwise exactly this offset becomes unbound, and its page is freed once unless it is pinned.
  The pages emptied on the way up are released and the height is lowered without changing any other lookup.\<close>

theorem page_slice_remove_exact:
  assumes "slice_inv s" "page_slice_remove_page (Some s) x = (o', err)"
  shows "\<exists>t. o' = Some t \<and> slice_inv t \<and> size t = size s
    \<and> (if x \<ge> page_count s then err = E_IN_PARAM \<and> t = s
       else case page_slice_lookup (Some s) x of
           None \<Rightarrow> err = E_REND_NOFOUND \<and> t = s
         | Some e \<Rightarrow> err = REND_SUCCESS \<and> page_slice_lookup (Some t) = (page_slice_lookup (Some s))(x := None)
                       \<and> freed t = freed s @ owned_page e)"
  by (rule remove_cases [OF assms])

theorem page_slice_remove_exact_witness:
  "page_slice_lookup (fst (page_slice_remove_page (Some slice1) 130)) 130 = None
   \<and> freed (the (fst (page_slice_remove_page (Some slice1) 130))) = [4096]
   \<and> snd (page_slice_remove_page (Some slice1) 3) = E_REND_NOFOUND"
proof -
  obtain o1 e1 where 1: "page_slice_remove_page (Some slice1) 130 = (o1, e1)" by fastforce
  obtain o2 e2 where 2: "page_slice_remove_page (Some slice1) 3 = (o2, e2)" by fastforce
  show ?thesis
    using page_slice_remove_exact [OF slice1_facts(2) 1] page_slice_remove_exact [OF slice1_facts(2) 2] 1 2
    by (auto simp: slice1_facts(3,4,5) owned_page_def FLAG_PIN_def
        simp del: page_slice_lookup.simps page_slice_remove_page.simps)
qed

text \<open>Setting a size within the limit succeeds: lookups below the new page count are unchanged, all others find
  nothing, and exactly the unpinned pages beyond the new end are freed, each once, from the end downwards.\<close>

theorem page_slice_resize_exact:
  assumes "slice_inv s" "0 < n" "n \<le> MAX_BYTE_SIZE"
  shows "\<exists>t. page_slice_set_size (Some s) n = (None, Some t, REND_SUCCESS) \<and> slice_inv t \<and> page_slice_get_size (Some t) = n
    \<and> page_slice_lookup (Some t) = (\<lambda>x. if x < SIZE_TO_PAGE_COUNT n then page_slice_lookup (Some s) x else None)
    \<and> freed t = freed s @ concat (map (owned_at s) (rev [SIZE_TO_PAGE_COUNT n..<page_count s]))"
  using set_size_cases [OF assms(1,2)] assms(3) by (auto simp del: page_slice_lookup.simps page_slice_set_size.simps)

theorem page_slice_resize_exact_witness:
  "\<exists>t. page_slice_set_size (Some slice1) 4096 = (None, Some t, REND_SUCCESS) \<and> page_slice_lookup (Some t) 130 = None
     \<and> 4096 \<in> set (freed t)"
proof -
  have "4096 \<in> set (concat (map (owned_at slice1) (rev [1..<147])))"
    by (rule owned_in [OF slice1_owned]) simp
  then show ?thesis
    using page_slice_resize_exact [OF slice1_facts(2), of 4096]
    by (auto simp: MAX_BYTE_SIZE_def SIZE_TO_PAGE_COUNT_def slice1_facts simp del: page_slice_lookup.simps page_slice_set_size.simps set_concat)
qed



end
