(* ===== verification/String_Ops.thy ===== *)
theory String_Ops
  imports Rendezvos_Prelude
begin

text \<open>
  The memory and string routines of \<^verbatim>\<open>kernel/mm/string.c\<close>, on memory as a map from 64-bit addresses to
  bytes: the word-at-a-time fast paths, the unrolled byte loop of \<^verbatim>\<open>memcpy\<close> and the scans for a terminator.
  A scan that finds no terminator does not return, which is the result \<open>None\<close>.

  The theorems compare the routines with plain byte-wise definitions.
\<close>

type_synonym bytes = "u64 \<Rightarrow> u8"

section \<open>Words in memory\<close>

definition read_word :: "bytes \<Rightarrow> u64 \<Rightarrow> u64" where
  "read_word m a = le_value (map (\<lambda>i. m (a + of_nat i)) [0..<8])"

definition write_word :: "u64 \<Rightarrow> u64 \<Rightarrow> bytes \<Rightarrow> bytes" where
  "write_word a w m = foldl (\<lambda>m i. m(a + of_nat i := le_bytes 8 w ! i)) m [0..<8]"

definition has_zero :: "u64 \<Rightarrow> bool" where
  "has_zero x \<longleftrightarrow> (x - 0x0101010101010101) AND NOT x AND 0x8080808080808080 \<noteq> 0"

section \<open>\<open>memset\<close>\<close>

text \<open>\<open>head_loop\<close> is the loop up to the first word boundary; it returns the pointer and the count left.\<close>

fun head_loop :: "u8 \<Rightarrow> u64 \<Rightarrow> nat \<Rightarrow> bytes \<Rightarrow> u64 \<times> nat \<times> bytes" where
  "head_loop uc p 0 m = (p, 0, m)"
| "head_loop uc p (Suc count) m =
     (if p AND 7 \<noteq> 0 then head_loop uc (p + 1) count (m(p := uc)) else (p, Suc count, m))"

definition fill_word :: "u8 \<Rightarrow> u64" where
  "fill_word uc =
     (let word = ucast uc;
          word = word OR push_bit 8 word;
          word = word OR push_bit 16 word
      in word OR push_bit 32 word)"

definition basic_memset :: "u64 \<Rightarrow> u8 \<Rightarrow> u64 \<Rightarrow> bytes \<Rightarrow> bytes" where
  "basic_memset s c n m =
     (let (p, count, m) = head_loop c s (unat n) m;
          words = count div 8;
          (p, count, m) =
            (if count \<ge> 8
             then (p + 8 * of_nat words, count - words * 8,
                   foldl (\<lambda>m i. write_word (p + 8 * of_nat i) (fill_word c) m) m [0..<words])
             else (p, count, m))
      in foldl (\<lambda>m i. m(p + of_nat i := c)) m [0..<count])"

definition memset :: "u64 \<Rightarrow> 32 word \<Rightarrow> u64 \<Rightarrow> bytes \<Rightarrow> u64 \<times> bytes" where
  "memset str c n m = (str, basic_memset str (ucast c) n m)"

section \<open>\<open>memcpy\<close>\<close>

fun copy_run :: "nat \<Rightarrow> u64 \<Rightarrow> u64 \<Rightarrow> bytes \<Rightarrow> bytes" where
  "copy_run 0 d s m = m"
| "copy_run (Suc k) d s m = copy_run k (d + 1) (s + 1) (m(d := m s))"

text \<open>The unrolled loop: the first pass is entered so that \<open>k\<close> bytes of it run, each later pass copies eight.\<close>

function duff_loop :: "nat \<Rightarrow> int \<Rightarrow> u64 \<Rightarrow> u64 \<Rightarrow> bytes \<Rightarrow> bytes" where
  "duff_loop k n_loops d s m =
     (let m = copy_run k d s m in
      if n_loops - 1 > 0 then duff_loop 8 (n_loops - 1) (d + of_nat k) (s + of_nat k) m else m)"
  by pat_completeness auto
termination by (relation "measure (\<lambda>(k, n, _). nat n)") auto

declare duff_loop.simps [simp del]

text \<open>\<open>n_loops\<close> is an \<^verbatim>\<open>int\<close>: the quotient is truncated to 32 bits.\<close>

definition basic_memcpy :: "u64 \<Rightarrow> u64 \<Rightarrow> u64 \<Rightarrow> bytes \<Rightarrow> bytes" where
  "basic_memcpy d s count m =
     (let (d, s, count, m) =
        (if d AND 7 = 0 \<and> s AND 7 = 0 then
           (let words = unat count div 8 in
            (d + 8 * of_nat words, s + 8 * of_nat words, count - 8 * of_nat words,
             foldl (\<lambda>m i. write_word (d + 8 * of_nat i) (read_word m (s + 8 * of_nat i)) m) m [0..<words]))
         else (d, s, count, m))
      in if count \<noteq> 0
         then duff_loop (if unat count mod 8 = 0 then 8 else unat count mod 8)
                (sint (ucast ((count + 7) div 8) :: 32 word)) d s m
         else m)"

definition memcpy :: "u64 \<Rightarrow> u64 \<Rightarrow> u64 \<Rightarrow> bytes \<Rightarrow> u64 \<times> bytes" where
  "memcpy dst_str src_str n m = (dst_str, basic_memcpy dst_str src_str n m)"

section \<open>Scans\<close>

text \<open>The byte scan of a word that holds a zero byte.\<close>

fun first_zero :: "bytes \<Rightarrow> u64 \<Rightarrow> nat list \<Rightarrow> nat option" where
  "first_zero m p [] = None"
| "first_zero m p (i # is) = (if m (p + of_nat i) = 0 then Some i else first_zero m p is)"

partial_function (option) len_words :: "bytes \<Rightarrow> u64 \<Rightarrow> u64 \<Rightarrow> u64 option" where
  "len_words m str p =
     (if has_zero (read_word m p)
      then (case first_zero m p [0..<8] of Some i \<Rightarrow> Some (p + of_nat i - str) | None \<Rightarrow> len_words m str (p + 8))
      else len_words m str (p + 8))"

text \<open>The byte loop up to a word boundary, then the words.\<close>

partial_function (option) len_head :: "bytes \<Rightarrow> u64 \<Rightarrow> u64 \<Rightarrow> u64 option" where
  "len_head m str s =
     (if s AND 7 \<noteq> 0 then (if m s = 0 then Some (s - str) else len_head m str (s + 1)) else len_words m str s)"

definition strlen :: "u64 \<Rightarrow> bytes \<Rightarrow> u64 option" where
  "strlen str m = len_head m str str"

section \<open>\<open>strcmp\<close>\<close>

text \<open>Both byte loops of \<^verbatim>\<open>strcmp\<close> return at the first difference or at a common terminator.\<close>

definition cmp_byte :: "bytes \<Rightarrow> u64 \<Rightarrow> u64 \<Rightarrow> int option" where
  "cmp_byte m p1 p2 =
     (if m p1 \<noteq> m p2 then Some (uint (m p1) - uint (m p2)) else if m p1 = 0 then Some 0 else None)"

fun cmp_word :: "bytes \<Rightarrow> u64 \<Rightarrow> u64 \<Rightarrow> nat list \<Rightarrow> int option" where
  "cmp_word m p1 p2 [] = None"
| "cmp_word m p1 p2 (i # is) =
     (case cmp_byte m (p1 + of_nat i) (p2 + of_nat i) of Some r \<Rightarrow> Some r | None \<Rightarrow> cmp_word m p1 p2 is)"

partial_function (option) cmp_words :: "bytes \<Rightarrow> u64 \<Rightarrow> u64 \<Rightarrow> int option" where
  "cmp_words m p1 p2 =
     (if read_word m p1 \<noteq> read_word m p2 \<or> has_zero (read_word m p1)
      then (case cmp_word m p1 p2 [0..<8] of Some r \<Rightarrow> Some r | None \<Rightarrow> cmp_words m (p1 + 8) (p2 + 8))
      else cmp_words m (p1 + 8) (p2 + 8))"

partial_function (option) cmp_head :: "bytes \<Rightarrow> u64 \<Rightarrow> u64 \<Rightarrow> int option" where
  "cmp_head m p1 p2 =
     (if p1 AND 7 \<noteq> 0 \<or> p2 AND 7 \<noteq> 0
      then (case cmp_byte m p1 p2 of Some r \<Rightarrow> Some r | None \<Rightarrow> cmp_head m (p1 + 1) (p2 + 1))
      else cmp_words m p1 p2)"

definition strcmp :: "u64 \<Rightarrow> u64 \<Rightarrow> bytes \<Rightarrow> int option" where
  "strcmp str1 str2 m = cmp_head m str1 str2"

section \<open>\<open>strncpy\<close>\<close>

text \<open>
  The three loops and the two labels. A label is reached with the pointer \<open>d\<close>; \<open>Zero\<close> is
  \<^verbatim>\<open>zero_found\<close>, \<open>Fill\<close> is \<^verbatim>\<open>fill_remaining\<close>, \<open>On\<close> goes on after the loop with \<open>d\<close>, \<open>s\<close> and the count left.
\<close>

datatype cpy = Zero u64 bytes | Fill u64 bytes | On u64 u64 nat bytes

fun cpy_head :: "u64 \<Rightarrow> u64 \<Rightarrow> nat \<Rightarrow> bytes \<Rightarrow> cpy" where
  "cpy_head d s 0 m = (if s AND 7 \<noteq> 0 \<or> d AND 7 \<noteq> 0 then Fill d m else On d s 0 m)"
| "cpy_head d s (Suc left) m =
     (if s AND 7 \<noteq> 0 \<or> d AND 7 \<noteq> 0
      then (let m = m(d := m s) in
            if m d = 0 then Zero d m else cpy_head (d + 1) (s + 1) left m)
      else On d s (Suc left) m)"

text \<open>The bytes of a word that holds a zero: stored with \<open>*d++\<close>.\<close>

fun cpy_last :: "u8 list \<Rightarrow> u64 \<Rightarrow> u64 \<Rightarrow> nat \<Rightarrow> bytes \<Rightarrow> cpy" where
  "cpy_last [] d s left m = On d s left m"
| "cpy_last (b # bs) d s left m =
     (if left = 0 then Fill d m
      else let m = m(d := b) in
           if b = 0 then Zero (d + 1) m else cpy_last bs (d + 1) s (left - 1) m)"

function cpy_words :: "u64 \<Rightarrow> u64 \<Rightarrow> nat \<Rightarrow> bytes \<Rightarrow> cpy" where
  "cpy_words d s left m =
     (if left \<ge> 8 then
        (let w = read_word m s in
         if has_zero w then
           (case cpy_last (le_bytes 8 w) d s left m of
              On d s left m \<Rightarrow> cpy_words d s left m
            | r \<Rightarrow> r)
         else cpy_words (d + 8) (s + 8) (left - 8) (write_word d w m))
      else On d s left m)"
  by pat_completeness auto

lemma cpy_last_On: "cpy_last bs d s left m = On d' s' left' m' \<Longrightarrow> left = left' + length bs"
  by (induction bs d s left m rule: cpy_last.induct) (auto simp: Let_def split: if_splits)

termination cpy_words
  by (relation "measure (\<lambda>(d, s, left, m). left)") (auto dest!: cpy_last_On)

declare cpy_words.simps [simp del]

fun cpy_tail :: "u64 \<Rightarrow> u64 \<Rightarrow> nat \<Rightarrow> bytes \<Rightarrow> cpy" where
  "cpy_tail d s 0 m = On d s 0 m"
| "cpy_tail d s (Suc left) m =
     (let m = m(d := m s) in if m d = 0 then Zero d m else cpy_tail (d + 1) (s + 1) left m)"

text \<open>\<open>while ((size_t)(d - d_start) < n) *d++ = 0\<close>\<close>

definition cpy_fill :: "u64 \<Rightarrow> u64 \<Rightarrow> u64 \<Rightarrow> bytes \<Rightarrow> bytes" where
  "cpy_fill d_start n d m = foldl (\<lambda>m i. m(d + of_nat i := 0)) m [0..<unat n - unat (d - d_start)]"

definition strncpy :: "u64 \<Rightarrow> u64 \<Rightarrow> u64 \<Rightarrow> bytes \<Rightarrow> bytes" where
  "strncpy dst src n m =
     (if n = 0 then m
      else
        let r = cpy_head dst src (unat n) m;
            r = (case r of On d s left m \<Rightarrow> cpy_words d s left m | _ \<Rightarrow> r);
            r = (case r of On d s left m \<Rightarrow> cpy_tail d s left m | _ \<Rightarrow> r)
        in case r of On d s left m \<Rightarrow> m
           | Zero d m \<Rightarrow> cpy_fill dst n (d + 1) m
           | Fill d m \<Rightarrow> cpy_fill dst n d m)"


section \<open>Bytes of words\<close>

lemma le_bytes_nth: "i < n \<Longrightarrow> le_bytes n w ! i = ucast (drop_bit (8 * i) w)"
  by (simp add: le_bytes_def)

lemma le_bytes_value:
  assumes "length bs = 8"
  shows "le_bytes 8 (le_value bs :: u64) = bs"
proof (rule nth_equalityI)
  fix i assume "i < length (le_bytes 8 (le_value bs :: u64))"
  then have i: "i < 8" by simp
  have "ucast (drop_bit (8 * i) (le_value bs :: u64)) = bs ! i"
  proof (rule bit_word_eqI)
    fix j assume j: "j < LENGTH(8)"
    then have "(8 * i + j) div 8 = i" "(8 * i + j) mod 8 = j" "8 * i + j < 64" using i by simp_all
    then show "bit (ucast (drop_bit (8 * i) (le_value bs :: u64)) :: u8) j = bit (bs ! i) j"
      using i j assms by (simp add: bit_simps bit_le_value)
  qed
  then show "le_bytes 8 (le_value bs :: u64) ! i = bs ! i" using i by (simp add: le_bytes_nth)
qed (simp add: assms)

lemma le_bytes_read_word: "le_bytes 8 (read_word m a) = map (\<lambda>i. m (a + of_nat i)) [0..<8]"
  unfolding read_word_def by (rule le_bytes_value) simp

lemma le_bytes_fill_word: "le_bytes 8 (fill_word c) = replicate 8 c"
proof -
  have r: "replicate 8 c = [c, c, c, c, c, c, c, c]" by (simp add: eval_nat_numeral)
  have "fill_word c = le_value [c, c, c, c, c, c, c, c]"
    by (simp only: fill_word_def Let_def le_value.simps push_bit_or push_bit_push_bit push_bit_of_0 or.right_neutral or.left_neutral
        arith_simps or.assoc or.commute or.left_commute)
  then show ?thesis by (metis le_bytes_value length_replicate r)
qed

lemma store_bytes:
  fixes a :: u64 and m :: bytes
  assumes "k \<le> 2 ^ 64"
  shows "foldl (\<lambda>m i. m(a + of_nat i := f i)) m [0..<k] x = (if unat (x - a) < k then f (unat (x - a)) else m x)"
  using assms
proof (induction k)
  case (Suc k)
  then have k: "unat (of_nat k :: u64) = k" by (intro unat_of_nat_small) simp
  show ?case
  proof (cases "x = a + of_nat k")
    case True
    then show ?thesis using k by simp
  next
    case False
    then have "unat (x - a) \<noteq> k" by (metis add.commute diff_add_cancel of_nat_unat ucast_id)
    then have "unat (x - a) < Suc k \<longleftrightarrow> unat (x - a) < k" by (simp add: less_Suc_eq)
    then show ?thesis using False Suc by simp
  qed
qed simp

lemma write_word_at: "write_word a w m x = (if unat (x - a) < 8 then le_bytes 8 w ! unat (x - a) else m x)"
  unfolding write_word_def by (rule store_bytes) simp

section \<open>The zero-byte test\<close>

definition ibyte :: "int \<Rightarrow> nat \<Rightarrow> int" where "ibyte X i = X div 256 ^ i mod 256"

definition ones :: "nat \<Rightarrow> int" where "ones i = (\<Sum>j<i. 256 ^ j)"

lemma low_part: "X mod 256 ^ Suc i = X mod 256 ^ i + 256 ^ i * ibyte X i"
  unfolding ibyte_def by (simp add: zmod_zmult2_eq mult.commute [of 256])

lemma no_borrow: "\<forall>j < i. ibyte X j \<noteq> 0 \<Longrightarrow> ones i \<le> X mod 256 ^ i"
proof (induction i)
  case (Suc i)
  have "0 \<le> ibyte X i" "ibyte X i \<noteq> 0" using Suc.prems by (simp_all add: ibyte_def)
  then have "1 \<le> ibyte X i" by linarith
  then have "256 ^ i * 1 \<le> 256 ^ i * ibyte X i" by (intro mult_left_mono) auto
  moreover have "ones (Suc i) = ones i + 256 ^ i * 1" by (simp add: ones_def)
  ultimately show ?case unfolding low_part using Suc.IH Suc.prems by (metis add_mono less_SucI)
qed (simp add: ones_def)

lemma ones_split: "i < n \<Longrightarrow> \<exists>q. ones n = ones i + 256 ^ i * (1 + 256 * q)"
proof (induction n)
  case (Suc n)
  show ?case
  proof (cases "i = n")
    case True
    then show ?thesis by (intro exI [of _ 0]) (simp add: ones_def)
  next
    case False
    then obtain q where q: "ones n = ones i + 256 ^ i * (1 + 256 * q)" using Suc by auto
    have "n = i + Suc (n - Suc i)" using False Suc by simp
    then have "(256::int) ^ n = 256 ^ i * (256 * 256 ^ (n - Suc i))" by (metis power_Suc power_add)
    then show ?thesis using q by (intro exI [of _ "q + 256 ^ (n - Suc i)"]) (simp add: ones_def algebra_simps)
  qed
qed simp

lemma sub_byte:
  assumes "\<forall>j < i. ibyte X j \<noteq> 0" "i < n"
  shows "ibyte (X - ones n) i = (ibyte X i - 1) mod 256"
proof -
  let ?b = "(256::int) ^ i"
  obtain q where q: "ones n = ones i + ?b * (1 + 256 * q)" using ones_split assms(2) by blast
  have "0 \<le> ones i" by (simp add: ones_def sum_nonneg)
  then have r: "0 \<le> X mod ?b - ones i" "X mod ?b - ones i < ?b"
    using no_borrow [OF assms(1)] pos_mod_bound [of ?b X] by (simp, smt (verit) zero_less_power)
  have "X - ones n = (X mod ?b - ones i) + ?b * (X div ?b - (1 + 256 * q))"
    using q mult_div_mod_eq [of ?b X] by (simp add: algebra_simps)
  then have "(X - ones n) div ?b = X div ?b - 1 + 256 * - q" using r by simp
  then have "ibyte (X - ones n) i = (X div ?b - 1 + 256 * - q) mod 256" by (simp only: ibyte_def)
  also have "\<dots> = (X div ?b - 1) mod 256" by (rule mod_mult_self2)
  also have "\<dots> = (ibyte X i - 1) mod 256" by (simp add: ibyte_def mod_simps)
  finally show ?thesis .
qed

lemma ibyte_bits: "ibyte X i = take_bit 8 (drop_bit (8 * i) X)"
  by (simp add: ibyte_def drop_bit_eq_div take_bit_eq_mod power_mult)

lemma byte_ibyte: "uint (ucast (drop_bit (8 * i) w) :: u8) = ibyte (uint (w :: u64)) i"
  by (rule bit_eqI) (auto simp: ibyte_bits bit_simps)

lemma bit_high: "bit X (8 * i + 7) \<longleftrightarrow> 128 \<le> ibyte (X :: int) i"
proof -
  have "bit X (8 * i + 7) \<longleftrightarrow> bit (ibyte X i) 7"
    by (simp add: ibyte_bits bit_simps add.commute)
  moreover have "bit (ibyte X i) 7 \<longleftrightarrow> 128 \<le> ibyte X i"
  proof -
    have "ibyte X i div 128 = (if 128 \<le> ibyte X i then 1 else 0)"
      unfolding ibyte_def by auto
    then show ?thesis by (simp add: bit_iff_odd)
  qed
  ultimately show ?thesis by simp
qed

lemma ibyte_range: "0 \<le> ibyte X i" "ibyte X i < 256"
  by (simp_all add: ibyte_def)

text \<open>The mask has a one in every byte and \<open>0x80\<dots>80\<close> selects the high bit of each.\<close>

lemma bit_mask_high: "bit (0x8080808080808080 :: u64) n \<longleftrightarrow> n < 64 \<and> n mod 8 = 7"
proof -
  have "\<forall>n \<in> {..<64}. bit (0x8080808080808080 :: u64) n \<longleftrightarrow> n mod 8 = (7::nat)"
    by (simp add: lessThan_nat_numeral lessThan_Suc)
  then show ?thesis by (auto dest: bit_imp_le_length)
qed

lemma bit_uint: "bit (uint w) n \<longleftrightarrow> bit (w :: 'a::len word) n"
  by (auto simp: bit_uint_iff dest: bit_imp_le_length)

lemma bit_sub_mask:
  fixes x :: u64
  assumes "i < 8" "\<forall>j < i. ibyte (uint x) j \<noteq> 0"
  shows "bit (x - 0x0101010101010101) (8 * i + 7) \<longleftrightarrow> 128 \<le> (ibyte (uint x) i - 1) mod 256"
proof -
  have o: "ones 8 = 0x0101010101010101" by (simp add: ones_def lessThan_nat_numeral lessThan_Suc)
  have "bit (x - 0x0101010101010101) (8 * i + 7) \<longleftrightarrow> bit (uint x - ones 8) (8 * i + 7)"
    using bit_uint [of "x - 0x0101010101010101" "8 * i + 7"] assms(1)
    by (simp add: uint_word_arith_bintrs(2) bit_take_bit_iff o)
  then show ?thesis unfolding bit_high using sub_byte [OF assms(2), of 8] assms(1) by simp
qed

lemma has_zero_iff: "has_zero w \<longleftrightarrow> (\<exists>i < 8. ucast (drop_bit (8 * i) w) = (0 :: u8))"
proof -
  have z: "ucast (drop_bit (8 * i) w) = (0 :: u8) \<longleftrightarrow> ibyte (uint w) i = 0" for i
    by (simp only: byte_ibyte [symmetric] uint_0_iff)
  have h: "has_zero w \<longleftrightarrow> (\<exists>i < 8. bit (w - 0x0101010101010101) (8 * i + 7) \<and> \<not> bit w (8 * i + 7))"
  proof
    assume "has_zero w"
    then obtain n where n: "bit ((w - 0x0101010101010101) AND NOT w AND 0x8080808080808080) n"
      unfolding has_zero_def by (metis bit_0_eq bot_apply bot_bool_def bit_eq_iff)
    then have "n < 64" "n mod 8 = 7" "bit (w - 0x0101010101010101) n" "\<not> bit w n"
      unfolding bit_and_iff bit_not_iff bit_mask_high by auto
    moreover from this have "n = 8 * (n div 8) + 7" "n div 8 < 8" by presburger+
    ultimately show "\<exists>i < 8. bit (w - 0x0101010101010101) (8 * i + 7) \<and> \<not> bit w (8 * i + 7)" by metis
  next
    assume "\<exists>i < 8. bit (w - 0x0101010101010101) (8 * i + 7) \<and> \<not> bit w (8 * i + 7)"
    then obtain i where "i < 8" "bit (w - 0x0101010101010101) (8 * i + 7)" "\<not> bit w (8 * i + 7)" by blast
    then have "bit ((w - 0x0101010101010101) AND NOT w AND 0x8080808080808080) (8 * i + 7)"
      unfolding bit_and_iff bit_not_iff bit_mask_high by auto
    then show "has_zero w" unfolding has_zero_def by (metis bit_0_eq bot_apply bot_bool_def)
  qed
  have hb: "bit w (8 * i + 7) \<longleftrightarrow> 128 \<le> ibyte (uint w) i" for i
    unfolding bit_high [symmetric] by (simp add: bit_uint)
  show ?thesis
  proof
    assume "has_zero w"
    then obtain i where i: "i < 8" "bit (w - 0x0101010101010101) (8 * i + 7)" "\<not> bit w (8 * i + 7)"
      using h by blast
    show "\<exists>i < 8. ucast (drop_bit (8 * i) w) = (0 :: u8)"
    proof (rule ccontr)
      assume "\<not> ?thesis"
      then have nz: "\<forall>j < 8. ibyte (uint w) j \<noteq> 0" using z by auto
      then have "128 \<le> (ibyte (uint w) i - 1) mod 256" using bit_sub_mask [OF i(1)] i by auto
      moreover have "(ibyte (uint w) i - 1) mod 256 = ibyte (uint w) i - 1"
        using ibyte_range [of "uint w" i] nz i(1) by (intro mod_pos_pos_trivial) (auto simp: order_le_less)
      ultimately show False using i(3) hb by simp
    qed
  next
    assume "\<exists>i < 8. ucast (drop_bit (8 * i) w) = (0 :: u8)"
    then obtain i0 where "i0 < 8 \<and> ibyte (uint w) i0 = 0" using z by auto
    then obtain i where i: "i < 8" "ibyte (uint w) i = 0" "\<forall>j < i. ibyte (uint w) j \<noteq> 0"
      using ex_least_nat_le [of "\<lambda>i. i < 8 \<and> ibyte (uint w) i = 0" i0] by (metis order_less_trans)
    then show "has_zero w" using h bit_sub_mask [OF i(1,3)] hb [of i] by auto
  qed
qed


lemma has_zero_read: "has_zero (read_word m p) \<longleftrightarrow> (\<exists>i < 8. m (p + of_nat i) = 0)"
proof -
  have "ucast (drop_bit (8 * i) (read_word m p)) = m (p + of_nat i)" if "i < 8" for i
    using arg_cong [OF le_bytes_read_word [of m p], of "\<lambda>l. l ! i"] that by (simp add: le_bytes_nth)
  then show ?thesis unfolding has_zero_iff by auto
qed

lemma read_word_eq_iff: "read_word m p = read_word m' q \<longleftrightarrow> (\<forall>i < 8. m (p + of_nat i) = m' (q + of_nat i))"
proof -
  have "le_value (le_bytes 8 w) = w" for w :: u64 by (rule le_value_bytes) simp
  then have "read_word m p = read_word m' q \<longleftrightarrow> le_bytes 8 (read_word m p) = le_bytes 8 (read_word m' q)"
    by metis
  then show ?thesis unfolding le_bytes_read_word by (auto simp: list_eq_iff_nth_eq)
qed

section \<open>\<open>memset\<close> and \<open>memcpy\<close> against byte-wise definitions\<close>

definition fill_bytes :: "u64 \<Rightarrow> u8 \<Rightarrow> nat \<Rightarrow> bytes \<Rightarrow> bytes" where
  "fill_bytes d c n m = (\<lambda>a. if unat (a - d) < n then c else m a)"

definition copy_bytes :: "u64 \<Rightarrow> u64 \<Rightarrow> nat \<Rightarrow> bytes \<Rightarrow> bytes" where
  "copy_bytes d s n m = (\<lambda>a. if unat (a - d) < n then m (s + (a - d)) else m a)"

lemma window:
  assumes "n \<le> 2 ^ 64"
  shows "unat ((a :: u64) - d) < n \<longleftrightarrow> (\<exists>i < n. a = d + of_nat i)"
proof
  assume "unat (a - d) < n"
  then show "\<exists>i < n. a = d + of_nat i" by (intro exI [of _ "unat (a - d)"]) simp
next
  assume "\<exists>i < n. a = d + of_nat i"
  then obtain i where "i < n" "a = d + of_nat i" by blast
  moreover from this have "unat (of_nat i :: u64) = i" using assms by (intro unat_of_nat_small) simp
  ultimately show "unat (a - d) < n" by simp
qed

lemma window_split:
  fixes a d :: u64
  assumes "p + q \<le> 2 ^ 64"
  shows "unat (a - d) < p + q \<longleftrightarrow> unat (a - d) < p \<or> unat (a - (d + of_nat p)) < q"
proof -
  have "unat (a - d) < p + q \<longleftrightarrow> (\<exists>i < p + q. a = d + of_nat i)"
    "unat (a - d) < p \<longleftrightarrow> (\<exists>i < p. a = d + of_nat i)"
    "unat (a - (d + of_nat p)) < q \<longleftrightarrow> (\<exists>i < q. a = d + of_nat (p + i))"
    using assms by (simp_all add: window add.assoc)
  moreover have "(\<exists>i < p + q. a = d + of_nat i) \<longleftrightarrow> (\<exists>i < p. a = d + of_nat i) \<or> (\<exists>i < q. a = d + of_nat (p + i))"
  proof (intro iffI)
    assume "\<exists>i < p + q. a = d + of_nat i"
    then obtain i where i: "i < p + q" "a = d + of_nat i" by blast
    show "(\<exists>i < p. a = d + of_nat i) \<or> (\<exists>i < q. a = d + of_nat (p + i))"
    proof (cases "i < p")
      case False
      then have "i - p < q" "p + (i - p) = i" using i by simp_all
      then show ?thesis using i by metis
    qed (use i in blast)
  next
    assume "(\<exists>i < p. a = d + of_nat i) \<or> (\<exists>i < q. a = d + of_nat (p + i))"
    then show "\<exists>i < p + q. a = d + of_nat i" using nat_add_left_cancel_less trans_less_add1 by blast
  qed
  ultimately show ?thesis by simp
qed

lemma fill_append:
  assumes "p + q \<le> 2 ^ 64"
  shows "fill_bytes (d + of_nat p) c q (fill_bytes d c p m) = fill_bytes d c (p + q) m"
  unfolding fill_bytes_def using window_split [OF assms] by auto

lemma fill_0 [simp]: "fill_bytes d c 0 m = m" "copy_bytes d s 0 m = m"
  by (simp_all add: fill_bytes_def copy_bytes_def)

definition apart :: "u64 \<Rightarrow> u64 \<Rightarrow> nat \<Rightarrow> bool" where
  "apart d s n \<longleftrightarrow> n \<le> 2 ^ 64 \<and> (\<forall>i < n. \<forall>j < n. d + of_nat i \<noteq> s + of_nat j)"

lemma copy_append:
  assumes "apart d s (p + q)"
  shows "copy_bytes (d + of_nat p) (s + of_nat p) q (copy_bytes d s p m) = copy_bytes d s (p + q) m"
proof
  fix a
  let ?r = "a - (d + of_nat p)"
  have n: "p + q \<le> 2 ^ 64" using assms by (simp add: apart_def)
  have src: "\<not> unat (s + of_nat p + ?r - d) < p" if "unat ?r < q"
  proof
    assume "unat (s + of_nat p + ?r - d) < p"
    then obtain i where i: "i < p" "s + of_nat p + ?r = d + of_nat i" using window [of p] n by auto
    have "s + of_nat p + ?r = s + of_nat (p + unat ?r)" by simp
    then show False using i assms that unfolding apart_def
      by (metis add_less_cancel_left trans_less_add1)
  qed
  have "s + of_nat p + ?r = s + (a - d)" by simp
  then show "copy_bytes (d + of_nat p) (s + of_nat p) q (copy_bytes d s p m) a = copy_bytes d s (p + q) m a"
    using src window_split [OF n, of a d] unfolding copy_bytes_def by (auto simp: algebra_simps)
qed

lemma apart_mono: "apart d s n \<Longrightarrow> k \<le> n \<Longrightarrow> apart d s k"
  by (auto simp: apart_def)

lemma apart_shift: "apart d s (p + q) \<Longrightarrow> apart (d + of_nat p) (s + of_nat p) q"
  unfolding apart_def by (metis (no_types, opaque_lifting) add.assoc add_le_cancel_left add_leD2 nat_add_left_cancel_less of_nat_add)

lemma copy_run_bytes: "apart d s k \<Longrightarrow> copy_run k d s m = copy_bytes d s k m"
proof (induction k arbitrary: d s m)
  case (Suc k)
  have one: "m(d := m s) = copy_bytes d s 1 m"
    by (auto simp: copy_bytes_def fun_eq_iff unat_eq_0 less_Suc_eq)
  have a: "apart d s (1 + k)" using Suc.prems by simp
  have "copy_run (Suc k) d s m = copy_bytes (d + of_nat 1) (s + of_nat 1) k (copy_bytes d s 1 m)"
    using Suc.IH apart_shift [OF a] one by simp
  then show ?case using copy_append [OF a] by simp
qed simp

lemma write_read_word: "apart d s 8 \<Longrightarrow> write_word d (read_word m s) m = copy_bytes d s 8 m"
  unfolding copy_bytes_def by (auto simp: fun_eq_iff write_word_at le_bytes_read_word)

lemma word_loop_bytes:
  "apart d s (8 * k) \<Longrightarrow>
   foldl (\<lambda>m i. write_word (d + 8 * of_nat i) (read_word m (s + 8 * of_nat i)) m) m [0..<k] = copy_bytes d s (8 * k) m"
proof (induction k)
  case (Suc k)
  have a: "apart d s (8 * k + 8)" using Suc.prems by (simp add: add.commute)
  have "apart (d + of_nat (8 * k)) (s + of_nat (8 * k)) 8" by (rule apart_shift [OF a])
  then show ?case using Suc.IH apart_mono [OF a, of "8 * k"] copy_append [OF a] write_read_word
    by (simp add: add.commute)
qed simp

lemma duff_loop_bytes:
  assumes "apart d s (k + 8 * (nat n - 1))"
  shows "duff_loop k n d s m = copy_bytes d s (k + 8 * (nat n - 1)) m"
  using assms
proof (induction k n d s m rule: duff_loop.induct)
  case (1 k n d s m)
  have r: "copy_run k d s m = copy_bytes d s k m" using 1(2) by (intro copy_run_bytes) (rule apart_mono, auto)
  show ?case
  proof (cases "n - 1 > 0")
    case True
    then have e: "nat n - 1 = Suc (nat (n - 1) - 1)" by simp
    then have l: "k + 8 * (nat n - 1) = k + (8 + 8 * (nat (n - 1) - 1))" by simp
    have "apart (d + of_nat k) (s + of_nat k) (8 + 8 * (nat (n - 1) - 1))"
      using 1(2) unfolding l by (rule apart_shift)
    then have "duff_loop 8 (n - 1) (d + of_nat k) (s + of_nat k) (copy_run k d s m)
        = copy_bytes (d + of_nat k) (s + of_nat k) (8 + 8 * (nat (n - 1) - 1)) (copy_bytes d s k m)"
      using 1(1) [OF refl True] r by simp
    then show ?thesis using True copy_append 1(2) unfolding l
      by (subst duff_loop.simps) (simp add: Let_def)
  next
    case False
    then show ?thesis using r by (subst duff_loop.simps) (simp add: Let_def)
  qed
qed


text \<open>The number of passes of the unrolled loop, for fewer than 2^34 bytes.\<close>

lemma duff_passes:
  assumes "0 < (c :: nat)"
  shows "(if c mod 8 = 0 then 8 else c mod 8) + 8 * ((c + 7) div 8 - 1) = c"
proof -
  define a b where "a = c div 8" and "b = c mod 8"
  have c: "c = b + 8 * a" "b < 8" by (simp_all add: a_def b_def)
  have "(b + 7 + 8 * a) div 8 = (b + 7) div 8 + a" by simp
  moreover have "(b + 7) div 8 = (if b = 0 then 0 else 1)" using c(2) by (cases "b = 0") (simp_all add: div_nat_eqI)
  ultimately show ?thesis using assms c unfolding b_def [symmetric] by (cases a) (auto simp: ac_simps)
qed

lemma duff_count:
  fixes count :: u64
  assumes "count \<noteq> 0" "unat count \<le> 2 ^ 34 - 8"
  shows "(if unat count mod 8 = 0 then 8 else unat count mod 8)
      + 8 * (nat (sint (ucast ((count + 7) div 8) :: 32 word)) - 1) = unat count"
proof -
  let ?c = "unat count" and ?q = "(unat count + 7) div 8"
  have c: "0 < ?c" using assms(1) by (simp add: unat_gt_0)
  have "unat (count + 7) = ?c + 7" using assms(2) by (subst unat_word_ariths) simp
  then have "unat ((count + 7) div 8) = ?q" by (simp add: unat_div)
  then have q: "ucast ((count + 7) div 8) = (of_nat ?q :: 32 word)" by (metis Word.of_nat_unat)
  have "sint (of_nat k :: 32 word) = int k" if "k < 2 ^ 31" for k
    using that by (simp add: signed_of_nat signed_take_bit_int_eq_self)
  moreover have "?q < 2 ^ 31" using assms(2) by simp
  ultimately have "sint (of_nat ?q :: 32 word) = int ?q" by blast
  moreover have "(if ?c mod 8 = 0 then 8 else ?c mod 8) + 8 * (?q - 1) = ?c" using c by (rule duff_passes)
  ultimately show ?thesis using q by simp
qed

lemma basic_memcpy_bytes:
  assumes "apart d s (unat n)" "unat n \<le> 2 ^ 34 - 8"
  shows "basic_memcpy d s n m = copy_bytes d s (unat n) m"
proof -
  have tail: "(if count \<noteq> 0 then duff_loop (if unat count mod 8 = 0 then 8 else unat count mod 8)
        (sint (ucast ((count + 7) div 8) :: 32 word)) d' s' m' else m') = copy_bytes d' s' (unat count) m'"
    if "apart d' s' (unat count)" "unat count \<le> 2 ^ 34 - 8" for count :: u64 and d' s' m'
    using that duff_loop_bytes [of d' s' "if unat count mod 8 = 0 then 8 else unat count mod 8"
        "sint (ucast ((count + 7) div 8) :: 32 word)" m'] duff_count [of count]
    by (cases "count = 0") (simp_all only: if_False if_True not_False_eq_True simp_thms unat_0 fill_0)
  show ?thesis
  proof (cases "d AND 7 = 0 \<and> s AND 7 = 0")
    case True
    let ?w = "unat n div 8"
    have w: "unat n = 8 * ?w + unat n mod 8" by simp
    have "unat (8 * of_nat ?w :: u64) = 8 * ?w"
      using unat_of_nat_small [of "8 * ?w", where 'a = 64] unat_bound [of n] by simp
    moreover have "8 * of_nat ?w \<le> n" using calculation by (simp add: word_le_nat_alt)
    ultimately have c: "unat (n - 8 * of_nat ?w) = unat n mod 8" by (simp add: unat_sub minus_mult_div_eq_mod)
    have ap: "apart d s (8 * ?w + unat n mod 8)" using assms(1) by simp
    have words: "foldl (\<lambda>m i. write_word (d + 8 * of_nat i) (read_word m (s + 8 * of_nat i)) m) m [0..<?w]
        = copy_bytes d s (8 * ?w) m" using ap by (intro word_loop_bytes apart_mono [OF ap]) simp
    have "apart (d + 8 * of_nat ?w) (s + 8 * of_nat ?w) (unat n mod 8)" using apart_shift [OF ap] by simp
    then show ?thesis using True tail [of "d + 8 * of_nat ?w" "s + 8 * of_nat ?w" "n - 8 * of_nat ?w"] c
      copy_append [OF ap] assms(2) unfolding basic_memcpy_def Let_def by (simp add: words)
  next
    case False
    then show ?thesis using tail [OF assms] unfolding basic_memcpy_def by (simp only: if_not_P Let_def prod.case if_False)
  qed
qed

lemma head_loop_bytes:
  "head_loop c p n m = (p', k, m') \<Longrightarrow> n \<le> 2 ^ 64 \<Longrightarrow>
   k \<le> n \<and> p' = p + of_nat (n - k) \<and> m' = fill_bytes p c (n - k) m"
proof (induction c p n m rule: head_loop.induct)
  case (2 uc p count m)
  show ?case
  proof (cases "p AND 7 \<noteq> 0")
    case True
    then have hl: "head_loop uc (p + 1) count (m(p := uc)) = (p', k, m')" using 2(2) by simp
    then have IH: "k \<le> count" "p' = p + 1 + of_nat (count - k)" "m' = fill_bytes (p + 1) uc (count - k) (m(p := uc))"
      using 2(1) [OF True hl] 2(3) by (simp_all only: Suc_le_eq less_imp_le)
    have one: "m(p := uc) = fill_bytes p uc 1 m" by (auto simp: fill_bytes_def fun_eq_iff unat_eq_0 less_Suc_eq)
    have "m' = fill_bytes p uc (1 + (count - k)) m"
      using IH(3) 2(3) fill_append [of 1 "count - k" p uc m] unfolding one by simp
    moreover have "1 + (count - k) = Suc count - k" using IH(1) by simp
    ultimately show ?thesis using IH by (simp add: Suc_diff_le)
  next
    case False
    then show ?thesis using 2(2) by simp
  qed
qed simp

lemma word_fill_bytes:
  "8 * k \<le> 2 ^ 64 \<Longrightarrow>
   foldl (\<lambda>m i. write_word (p + 8 * of_nat i) (fill_word c) m) m [0..<k] = fill_bytes p c (8 * k) m"
proof (induction k)
  case (Suc k)
  have w: "write_word q (fill_word c) m' = fill_bytes q c 8 m'" for q m'
    by (auto simp: fun_eq_iff write_word_at fill_bytes_def le_bytes_fill_word)
  show ?case using Suc fill_append [of "8 * k" 8 p c m] by (simp add: w add.commute)
qed simp

lemma byte_fill_bytes: "k \<le> 2 ^ 64 \<Longrightarrow> foldl (\<lambda>m i. m(p + of_nat i := c)) m [0..<k] = fill_bytes p c k m"
  by (auto simp: fun_eq_iff fill_bytes_def store_bytes [of k p "\<lambda>_. c"])

lemma basic_memset_bytes: "basic_memset s c n m = fill_bytes s c (unat n) m"
proof -
  obtain p k m1 where h: "head_loop c s (unat n) m = (p, k, m1)" by (cases "head_loop c s (unat n) m") auto
  have n: "unat n \<le> 2 ^ 64" using unat_bound [of n] by simp
  from head_loop_bytes [OF h n] have k: "k \<le> unat n" "p = s + of_nat (unat n - k)" "m1 = fill_bytes s c (unat n - k) m"
    by auto
  let ?w = "if k \<ge> 8 then k div 8 else 0"
  have w: "8 * ?w + (k - ?w * 8) = k" by simp
  have "basic_memset s c n m = fill_bytes (p + 8 * of_nat ?w) c (k - ?w * 8) (fill_bytes p c (8 * ?w) m1)"
    using k n unfolding basic_memset_def h Let_def by (simp add: word_fill_bytes byte_fill_bytes)
  also have "\<dots> = fill_bytes p c k m1"
    using fill_append [of "8 * ?w" "k - ?w * 8" p c m1] k n unfolding w by simp
  also have "\<dots> = fill_bytes s c (unat n) m" using fill_append [of "unat n - k" k s c m] k n by simp
  finally show ?thesis .
qed


section \<open>The scans\<close>

text \<open>\<open>k\<close> is the offset of the first position from \<open>p\<close> where \<open>P\<close> holds.\<close>

definition first_at :: "(nat \<Rightarrow> bool) \<Rightarrow> nat \<Rightarrow> bool" where
  "first_at P k \<longleftrightarrow> P k \<and> (\<forall>i < k. \<not> P i)"

lemma first_at_shift: "first_at P k \<Longrightarrow> j \<le> k \<Longrightarrow> first_at (\<lambda>i. P (j + i)) (k - j)"
  by (auto simp: first_at_def)

lemma first_zero_at:
  assumes "first_at (\<lambda>i. m (p + of_nat i) = 0) k" "a \<le> k" "k < b"
  shows "first_zero m p [a..<b] = Some k"
  using assms
proof (induction "k - a" arbitrary: a)
  case 0
  then show ?case by (simp add: first_at_def upt_conv_Cons)
next
  case (Suc x)
  then have "m (p + of_nat a) \<noteq> 0" "[a..<b] = a # [Suc a..<b]" by (simp_all add: first_at_def upt_conv_Cons)
  then show ?case using Suc by simp
qed

lemma no_first: "first_at P k \<Longrightarrow> 8 \<le> k \<Longrightarrow> i < 8 \<Longrightarrow> \<not> P i"
  by (simp add: first_at_def)

lemma len_words_at:
  "first_at (\<lambda>i. m (p + of_nat i) = 0) k \<Longrightarrow> len_words m str p = Some (p + of_nat k - str)"
proof (induction k arbitrary: p rule: less_induct)
  case (less k)
  show ?case
  proof (cases "k < 8")
    case True
    then have "has_zero (read_word m p)" using less.prems unfolding has_zero_read by (auto simp: first_at_def)
    then show ?thesis using first_zero_at [OF less.prems _ True] by (subst len_words.simps) simp
  next
    case False
    then have "\<not> has_zero (read_word m p)" using no_first [OF less.prems] unfolding has_zero_read by simp
    moreover have "first_at (\<lambda>i. m (p + 8 + of_nat i) = 0) (k - 8)"
      using first_at_shift [OF less.prems, of 8] False by (simp add: add.assoc)
    then have "len_words m str (p + 8) = Some (p + 8 + of_nat (k - 8) - str)"
      using less.IH [of "k - 8"] False by simp
    moreover have "p + 8 + of_nat (k - 8) = p + of_nat k" using False by (simp add: of_nat_diff)
    ultimately show ?thesis by (subst len_words.simps) simp
  qed
qed

lemma len_head_at: "first_at (\<lambda>i. m (p + of_nat i) = 0) k \<Longrightarrow> len_head m str p = Some (p + of_nat k - str)"
proof (induction k arbitrary: p)
  case 0
  then show ?case using len_words_at [OF 0] by (subst len_head.simps) (simp add: first_at_def)
next
  case (Suc k)
  have "first_at (\<lambda>i. m (p + 1 + of_nat i) = 0) k"
    using first_at_shift [OF Suc.prems, of 1] by (simp add: add.assoc)
  moreover have "m p \<noteq> 0" using Suc.prems by (auto simp: first_at_def dest: spec [of _ 0])
  ultimately show ?case using Suc.IH [of "p + 1"] len_words_at [OF Suc.prems]
    by (subst len_head.simps) (simp add: add.assoc)
qed

text \<open>The comparison stops at the first offset where the bytes differ or both are zero.\<close>

definition stops :: "bytes \<Rightarrow> u64 \<Rightarrow> u64 \<Rightarrow> nat \<Rightarrow> bool" where
  "stops m p q i \<longleftrightarrow> m (p + of_nat i) \<noteq> m (q + of_nat i) \<or> m (p + of_nat i) = 0"

lemma stops_shift: "stops m p q (j + i) = stops m (p + of_nat j) (q + of_nat j) i"
  by (simp add: stops_def add.assoc)

lemma cmp_byte_at:
  "cmp_byte m (p + of_nat i) (q + of_nat i) =
     (if stops m p q i then Some (uint (m (p + of_nat i)) - uint (m (q + of_nat i))) else None)"
  by (auto simp: cmp_byte_def stops_def)

lemma cmp_word_at:
  assumes "first_at (stops m p q) k" "a \<le> k" "k < b"
  shows "cmp_word m p q [a..<b] = Some (uint (m (p + of_nat k)) - uint (m (q + of_nat k)))"
  using assms
proof (induction "k - a" arbitrary: a)
  case 0
  then show ?case by (simp add: first_at_def upt_conv_Cons cmp_byte_at)
next
  case (Suc x)
  then have "\<not> stops m p q a" "[a..<b] = a # [Suc a..<b]" by (simp_all add: first_at_def upt_conv_Cons)
  then show ?case using Suc by (simp add: cmp_byte_at)
qed

lemma cmp_words_at:
  "first_at (stops m p q) k \<Longrightarrow> cmp_words m p q = Some (uint (m (p + of_nat k)) - uint (m (q + of_nat k)))"
proof (induction k arbitrary: p q rule: less_induct)
  case (less k)
  have test: "read_word m p \<noteq> read_word m q \<or> has_zero (read_word m p) \<longleftrightarrow> (\<exists>i < 8. stops m p q i)"
    unfolding has_zero_read read_word_eq_iff stops_def by auto
  show ?case
  proof (cases "k < 8")
    case True
    then have "\<exists>i < 8. stops m p q i" using less.prems by (auto simp: first_at_def)
    then show ?thesis using test cmp_word_at [OF less.prems _ True] by (subst cmp_words.simps) simp
  next
    case False
    then have "\<not> (\<exists>i < 8. stops m p q i)" using no_first [OF less.prems] by simp
    moreover have "first_at (stops m (p + 8) (q + 8)) (k - 8)"
      using first_at_shift [OF less.prems, of 8] False by (simp add: stops_shift)
    then have "cmp_words m (p + 8) (q + 8) = Some (uint (m (p + 8 + of_nat (k - 8))) - uint (m (q + 8 + of_nat (k - 8))))"
      using less.IH [of "k - 8"] False by simp
    moreover have "p + 8 + of_nat (k - 8) = p + of_nat k" "q + 8 + of_nat (k - 8) = q + of_nat k"
      using False by (simp_all add: of_nat_diff)
    ultimately show ?thesis using test by (subst cmp_words.simps) (simp only: if_False)
  qed
qed

lemma cmp_head_at:
  "first_at (stops m p q) k \<Longrightarrow> cmp_head m p q = Some (uint (m (p + of_nat k)) - uint (m (q + of_nat k)))"
proof (induction k arbitrary: p q)
  case 0
  then show ?case using cmp_words_at [OF 0] cmp_byte_at [of m p 0 q] by (subst cmp_head.simps) (simp add: first_at_def)
next
  case (Suc k)
  have "first_at (stops m (p + 1) (q + 1)) k"
    using first_at_shift [OF Suc.prems, of 1] unfolding stops_shift by simp
  then show ?case using Suc.IH [of "p + 1" "q + 1"] cmp_words_at [OF Suc.prems] Suc.prems cmp_byte_at [of m p 0 q]
    by (subst cmp_head.simps) (simp add: first_at_def add.assoc)
qed


section \<open>\<open>strncpy\<close>\<close>

abbreviation zero_at :: "bytes \<Rightarrow> u64 \<Rightarrow> nat \<Rightarrow> bool" where
  "zero_at m s i \<equiv> m (s + of_nat i) = 0"

text \<open>What a loop of \<^verbatim>\<open>strncpy\<close> has done with \<open>left\<close> bytes to copy.\<close>

definition cpy_ok :: "u64 \<Rightarrow> u64 \<Rightarrow> nat \<Rightarrow> bytes \<Rightarrow> cpy \<Rightarrow> bool" where
  "cpy_ok d s left m r \<longleftrightarrow>
     (case r of
        On d' s' l m' \<Rightarrow> l \<le> left \<and> (\<forall>i < left - l. \<not> zero_at m s i) \<and> d' = d + of_nat (left - l) \<and>
          s' = s + of_nat (left - l) \<and> m' = copy_bytes d s (left - l) m
      | Fill d' m' \<Rightarrow> (\<forall>i < left. \<not> zero_at m s i) \<and> d' = d + of_nat left \<and> m' = copy_bytes d s left m
      | Zero d' m' \<Rightarrow> (\<exists>k < left. first_at (zero_at m s) k \<and> m' = copy_bytes d s (Suc k) m \<and>
          (d' = d + of_nat k \<or> d' = d + of_nat (Suc k))))"

lemma copy_keeps_source:
  assumes "apart d s n" "p \<le> n" "i < n"
  shows "copy_bytes d s p m (s + of_nat i) = m (s + of_nat i)"
proof -
  have "\<not> unat (s + of_nat i - d) < p"
  proof
    assume "unat (s + of_nat i - d) < p"
    moreover have "p \<le> 2 ^ 64" using assms by (simp add: apart_def)
    ultimately obtain j where "j < p" "s + of_nat i = d + of_nat j" using window [of p "s + of_nat i" d] by blast
    then show False using assms by (auto simp: apart_def) (metis order_less_le_trans)
  qed
  then show ?thesis by (simp add: copy_bytes_def)
qed

lemma first_at_unshift:
  "first_at (\<lambda>i. P (p + i)) k \<Longrightarrow> \<forall>i < p. \<not> P i \<Longrightarrow> first_at P (p + k)"
  unfolding first_at_def by (metis add_less_imp_less_left le_Suc_ex not_le)

lemma cpy_ok_append:
  assumes ap: "apart d s (p + left)" and nz: "\<forall>i < p. \<not> zero_at m s i"
    and r: "cpy_ok (d + of_nat p) (s + of_nat p) left (copy_bytes d s p m) r"
  shows "cpy_ok d s (p + left) m r"
proof -
  have z: "zero_at (copy_bytes d s p m) (s + of_nat p) i \<longleftrightarrow> zero_at m s (p + i)" if "i < left" for i
    using copy_keeps_source [OF ap, of p "p + i" m] that by (simp add: add.assoc)
  have all: "\<forall>i < p + l. \<not> zero_at m s i" if "\<forall>i < l. \<not> zero_at (copy_bytes d s p m) (s + of_nat p) i" "l \<le> left" for l
  proof (intro allI impI)
    fix i assume i: "i < p + l"
    show "\<not> zero_at m s i"
    proof (cases "i < p")
      case False
      then have "i - p < l" using i by simp
      then have "\<not> zero_at m s (p + (i - p))" using z [of "i - p"] that by simp
      then show ?thesis using False by simp
    qed (use nz in simp)
  qed
  have cp: "copy_bytes (d + of_nat p) (s + of_nat p) l (copy_bytes d s p m) = copy_bytes d s (p + l) m" if "l \<le> left" for l
    using that by (intro copy_append apart_mono [OF ap]) simp
  show ?thesis
  proof (cases r)
    case (On d' s' l m')
    then have h: "l \<le> left" "\<forall>i < left - l. \<not> zero_at (copy_bytes d s p m) (s + of_nat p) i"
      "d' = d + of_nat p + of_nat (left - l)" "s' = s + of_nat p + of_nat (left - l)"
      "m' = copy_bytes (d + of_nat p) (s + of_nat p) (left - l) (copy_bytes d s p m)"
      using r unfolding cpy_ok_def On cpy.case by blast+
    then have e: "p + left - l = p + (left - l)" by simp
    show ?thesis unfolding cpy_ok_def On cpy.case e
    proof (intro conjI)
      show "\<forall>i < p + (left - l). \<not> zero_at m s i" using all [OF h(2)] by simp
      show "m' = copy_bytes d s (p + (left - l)) m" using h(5) cp [of "left - l"] by simp
    qed (use h in \<open>simp_all only: of_nat_add add.assoc trans_le_add2\<close>)
  next
    case (Fill d' m')
    then show ?thesis using r all [of left] cp [of left] by (simp add: cpy_ok_def add.assoc)
  next
    case (Zero d' m')
    then obtain k where k: "k < left" "first_at (zero_at (copy_bytes d s p m) (s + of_nat p)) k"
      "m' = copy_bytes (d + of_nat p) (s + of_nat p) (Suc k) (copy_bytes d s p m)"
      "d' = d + of_nat p + of_nat k \<or> d' = d + of_nat p + of_nat (Suc k)"
      using r by (auto simp: cpy_ok_def)
    then have "first_at (\<lambda>i. zero_at m s (p + i)) k" using z k(1) by (auto simp: first_at_def)
    then have "first_at (zero_at m s) (p + k)" using nz by (rule first_at_unshift)
    moreover have "m' = copy_bytes d s (Suc (p + k)) m" using k(3) cp [of "Suc k"] k(1) by simp
    moreover have "d' = d + of_nat (p + k) \<or> d' = d + of_nat (Suc (p + k))" using k(4) by (auto simp: algebra_simps)
    moreover have "p + k < p + left" using k(1) by simp
    ultimately show ?thesis unfolding cpy_ok_def Zero cpy.case by blast
  qed
qed

lemma copy_1: "m(d := m s) = copy_bytes d s 1 m"
  by (auto simp: copy_bytes_def fun_eq_iff unat_eq_0 less_Suc_eq)

lemma copy_Suc_0: "m(d := m s) = copy_bytes d s (Suc 0) m"
  using copy_1 by simp

lemma first_at_0: "first_at P 0 \<longleftrightarrow> P 0"
  by (simp add: first_at_def)

lemma cpy_ok_byte:
  assumes "apart d s (Suc left)"
    and "m s \<noteq> 0 \<Longrightarrow> cpy_ok (d + 1) (s + 1) left (m(d := m s)) r"
  shows "cpy_ok d s (Suc left) m (if m s = 0 then Zero d (m(d := m s)) else r)"
proof (cases "m s = 0")
  case True
  have "first_at (zero_at m s) 0" using True by (simp add: first_at_0)
  then have "0 < Suc left \<and> first_at (zero_at m s) 0 \<and> m(d := m s) = copy_bytes d s (Suc 0) m \<and> d = d + of_nat 0"
    using copy_Suc_0 [of m d s] by (auto simp del: One_nat_def)
  then show ?thesis unfolding cpy_ok_def if_P [OF True] cpy.case by blast
next
  case False
  then show ?thesis using cpy_ok_append [of d s 1 left m r] assms by (simp add: copy_1)
qed

lemma cpy_ok_On_self: "cpy_ok d s left m (On d s left m)"
  by (simp add: cpy_ok_def)

lemma apart_Suc: "apart d s (Suc k) \<Longrightarrow> apart (d + 1) (s + 1) k"
  using apart_shift [of d s 1 k] by simp

lemma cpy_head_ok: "apart d s left \<Longrightarrow> cpy_ok d s left m (cpy_head d s left m)"
proof (induction d s left m rule: cpy_head.induct)
  case (1 d s m)
  then show ?case by (simp add: cpy_ok_def)
next
  case (2 d s left m)
  show ?case
  proof (cases "s AND 7 \<noteq> 0 \<or> d AND 7 \<noteq> 0")
    case True
    have "cpy_ok (d + 1) (s + 1) left (m(d := m s)) (cpy_head (d + 1) (s + 1) left (m(d := m s)))" if "m s \<noteq> 0"
      by (rule 2(1) [OF True refl _ apart_Suc [OF 2(2)]]) (simp add: that)
    then show ?thesis using cpy_ok_byte [OF 2(2)] True by (simp add: Let_def)
  next
    case False
    then show ?thesis by (simp add: cpy_ok_On_self)
  qed
qed

lemma cpy_tail_ok: "apart d s left \<Longrightarrow> cpy_ok d s left m (cpy_tail d s left m)"
proof (induction d s left m rule: cpy_tail.induct)
  case (1 d s m)
  then show ?case by (simp add: cpy_ok_On_self)
next
  case (2 d s left m)
  have "cpy_ok (d + 1) (s + 1) left (m(d := m s)) (cpy_tail (d + 1) (s + 1) left (m(d := m s)))" if "m s \<noteq> 0"
    by (rule 2(1) [OF refl _ apart_Suc [OF 2(2)]]) (simp add: that)
  then show ?case using cpy_ok_byte [OF 2(2)] by (simp add: Let_def)
qed

lemma unat_step: "a \<noteq> d \<Longrightarrow> unat (a - d) = Suc (unat (a - (d + 1 :: u64)))"
  using unatSuc [of "a - (d + 1)"] by (simp add: algebra_simps)

lemma cpy_last_at:
  assumes "first_at (\<lambda>i. bs ! i = 0) k" "k < length bs" "k < left" "left \<le> 2 ^ 64"
  shows "cpy_last bs d s left m =
    Zero (d + of_nat (Suc k)) (\<lambda>a. if unat (a - d) < Suc k then bs ! unat (a - d) else m a)"
  using assms
proof (induction bs d s left m arbitrary: k rule: cpy_last.induct)
  case (2 b bs d s left m)
  show ?case
  proof (cases k)
    case 0
    then show ?thesis using 2 by (auto simp: first_at_0 fun_eq_iff unat_eq_0 less_Suc_eq)
  next
    case (Suc j)
    have b: "b \<noteq> 0" using 2(2) Suc by (auto simp: first_at_def dest: spec [of _ 0])
    have "first_at (\<lambda>i. bs ! i = 0) j" using first_at_shift [OF 2(2), of 1] Suc by simp
    then have "cpy_last bs (d + 1) s (left - 1) (m(d := b)) =
      Zero (d + 1 + of_nat (Suc j)) (\<lambda>a. if unat (a - (d + 1)) < Suc j then bs ! unat (a - (d + 1)) else (m(d := b)) a)"
      using 2(3-5) Suc by (intro 2(1) [OF _ refl b]) simp_all
    moreover have "(\<lambda>a. if unat (a - (d + 1)) < Suc j then bs ! unat (a - (d + 1)) else (m(d := b)) a) =
      (\<lambda>a. if unat (a - d) < Suc k then (b # bs) ! unat (a - d) else m a)"
    proof
      fix a
      show "(if unat (a - (d + 1)) < Suc j then bs ! unat (a - (d + 1)) else (m(d := b)) a) =
        (if unat (a - d) < Suc k then (b # bs) ! unat (a - d) else m a)"
      proof (cases "a = d")
        case True
        have "\<not> unat (- 1 :: u64) < Suc j" using 2(4,5) Suc by (simp add: unsigned_minus_1_eq_mask mask_eq_exp_minus_1)
        then show ?thesis using True by simp
      next
        case False
        then show ?thesis using unat_step [OF False] Suc by simp
      qed
    qed
    ultimately show ?thesis using b 2(4) Suc by (simp add: algebra_simps)
  qed
qed simp

lemma cpy_words_zero:
  assumes f: "first_at (zero_at m s) k" "k < 8" and left: "8 \<le> left" "left \<le> 2 ^ 64"
  shows "cpy_words d s left m = Zero (d + of_nat (Suc k)) (copy_bytes d s (Suc k) m)"
proof -
  let ?w = "read_word m s" and ?bs = "map (\<lambda>i. m (s + of_nat i)) [0..<8]"
  have "first_at (\<lambda>i. ?bs ! i = 0) k" using f by (simp add: first_at_def)
  then have last: "cpy_last (le_bytes 8 ?w) d s left m =
      Zero (d + of_nat (Suc k)) (\<lambda>a. if unat (a - d) < Suc k then ?bs ! unat (a - d) else m a)"
    using f left unfolding le_bytes_read_word by (intro cpy_last_at) simp_all
  have cb: "(\<lambda>a. if unat (a - d) < Suc k then ?bs ! unat (a - d) else m a) = copy_bytes d s (Suc k) m"
    using f(2) by (auto simp: copy_bytes_def fun_eq_iff)
  have "has_zero ?w" unfolding has_zero_read using f by (auto simp: first_at_def)
  then show ?thesis using left last unfolding cb by (subst cpy_words.simps) (simp add: Let_def)
qed

lemma cpy_words_ok: "apart d s left \<Longrightarrow> cpy_ok d s left m (cpy_words d s left m)"
proof (induction d s left m rule: cpy_words.induct)
  case (1 d s left m)
  let ?w = "read_word m s"
  consider "left < 8" | "left \<ge> 8" "has_zero ?w" | "left \<ge> 8" "\<not> has_zero ?w" by linarith
  then show ?case
  proof cases
    case 1
    then show ?thesis by (subst cpy_words.simps) (simp add: cpy_ok_On_self)
  next
    case 2
    obtain i where i: "i < 8" "zero_at m s i" using 2(2) unfolding has_zero_read by blast
    then obtain k where k: "k \<le> i" "zero_at m s k" "\<forall>j < k. \<not> zero_at m s j"
      using ex_least_nat_le [of "zero_at m s" i] by blast
    then have f: "first_at (zero_at m s) k" "k < 8" using i by (simp_all add: first_at_def)
    moreover have "left \<le> 2 ^ 64" using 1(3) by (simp add: apart_def)
    ultimately have "cpy_words d s left m = Zero (d + of_nat (Suc k)) (copy_bytes d s (Suc k) m)"
      using 2(1) by (intro cpy_words_zero)
    then show ?thesis using f 2(1) unfolding cpy_ok_def by (auto intro!: exI [of _ k])
  next
    case 3
    have left: "left = 8 + (left - 8)" using 3 by simp
    have ap: "apart d s (8 + (left - 8))" using 1(3) 3 by simp
    have nz: "\<forall>i < 8. \<not> zero_at m s i" using 3(2) unfolding has_zero_read by blast
    have w: "write_word d ?w m = copy_bytes d s 8 m" by (rule write_read_word [OF apart_mono [OF ap]]) simp
    have "apart (d + 8) (s + 8) (left - 8)" using apart_shift [OF ap] by simp
    then have "cpy_ok (d + 8) (s + 8) (left - 8) (copy_bytes d s 8 m) (cpy_words (d + 8) (s + 8) (left - 8) (copy_bytes d s 8 m))"
      using 1(2) [OF 3(1) refl 3(2)] unfolding w by simp
    then have "cpy_ok d s (8 + (left - 8)) m (cpy_words (d + 8) (s + 8) (left - 8) (copy_bytes d s 8 m))"
      using cpy_ok_append [OF ap nz] by simp
    moreover have "cpy_words d s left m = cpy_words (d + 8) (s + 8) (left - 8) (copy_bytes d s 8 m)"
      using 3 w by (subst cpy_words.simps) (simp add: Let_def)
    ultimately show ?thesis using left by simp
  qed
qed

lemma cpy_ok_chain:
  assumes "apart d s n" "cpy_ok d s n m r"
    and f: "\<And>d s left m. apart d s left \<Longrightarrow> cpy_ok d s left m (f d s left m)"
  shows "cpy_ok d s n m (case r of On d s left m \<Rightarrow> f d s left m | Zero d m \<Rightarrow> Zero d m | Fill d m \<Rightarrow> Fill d m)"
proof (cases r)
  case (On d' s' l m')
  then have h: "l \<le> n" "\<forall>i < n - l. \<not> zero_at m s i" "d' = d + of_nat (n - l)" "s' = s + of_nat (n - l)"
    "m' = copy_bytes d s (n - l) m"
    using assms(2) unfolding cpy_ok_def On cpy.case by blast+
  have n: "n - l + l = n" using h(1) by simp
  have "apart d s (n - l + l)" using assms(1) n by simp
  then have "cpy_ok d s (n - l + l) m (f d' s' l m')"
    unfolding h(3-5) using h(2) by (intro cpy_ok_append f apart_shift)
  then show ?thesis using On n by simp
qed (use assms(2) in simp_all)

lemma cpy_fill_bytes:
  "cpy_fill d_start n d m = fill_bytes d 0 (unat n - unat (d - d_start)) m"
  unfolding cpy_fill_def using unat_bound [of n] by (intro byte_fill_bytes) simp


lemma cpy_tail_On: "cpy_tail d s left m = On d' s' l m' \<Longrightarrow> l = 0"
  by (induction d s left m rule: cpy_tail.induct) (auto simp: Let_def split: if_splits)

lemma strncpy_cases:
  assumes ap: "apart dst src (unat n)" and n: "unat n < 2 ^ 63"
  shows "(\<forall>i < unat n. \<not> zero_at m src i) \<and> strncpy dst src n m = copy_bytes dst src (unat n) m \<or>
    (\<exists>k e. k < unat n \<and> first_at (zero_at m src) k \<and> (e = Suc k \<or> e = Suc (Suc k)) \<and>
       strncpy dst src n m = fill_bytes (dst + of_nat e) 0 (unat n - e) (copy_bytes dst src (Suc k) m))"
proof (cases "n = 0")
  case False
  define r where "r = (case (case cpy_head dst src (unat n) m of On d s left m \<Rightarrow> cpy_words d s left m | r \<Rightarrow> r) of
      On d s left m \<Rightarrow> cpy_tail d s left m | r \<Rightarrow> r)"
  have r: "cpy_ok dst src (unat n) m r"
    unfolding r_def by (intro cpy_ok_chain [OF ap] cpy_head_ok [OF ap] cpy_words_ok cpy_tail_ok)
  have res: "strncpy dst src n m = (case r of On d s left m \<Rightarrow> m
      | Zero d m \<Rightarrow> cpy_fill dst n (d + 1) m | Fill d m \<Rightarrow> cpy_fill dst n d m)"
    using False unfolding strncpy_def r_def Let_def by (auto split: cpy.splits)
  have u: "unat (of_nat e :: u64) = e" if "e < 2 ^ 64" for e using that by (simp add: unat_of_nat_small)
  show ?thesis
  proof (cases r)
    case (On d s l m')
    have "l = 0" using On unfolding r_def by (auto dest: cpy_tail_On split: cpy.splits)
    then show ?thesis using On r res by (simp add: cpy_ok_def)
  next
    case (Fill d m')
    then show ?thesis using r res by (simp add: cpy_ok_def cpy_fill_bytes)
  next
    case (Zero d m')
    then obtain k where k: "k < unat n" "first_at (zero_at m src) k" "m' = copy_bytes dst src (Suc k) m"
      "d = dst + of_nat k \<or> d = dst + of_nat (Suc k)"
      using r unfolding cpy_ok_def Zero cpy.case by blast
    then have "d + 1 = dst + of_nat (Suc k) \<or> d + 1 = dst + of_nat (Suc (Suc k))" by (auto simp: algebra_simps)
    then obtain e where e: "e = Suc k \<or> e = Suc (Suc k)" "d + 1 = dst + of_nat e" by blast
    then have "unat (d + 1 - dst) = e" using u [of e] k(1) n by auto
    then have "strncpy dst src n m = fill_bytes (dst + of_nat e) 0 (unat n - e) (copy_bytes dst src (Suc k) m)"
      using res Zero k(3) e(2) by (simp add: cpy_fill_bytes)
    then show ?thesis using k e(1) by blast
  qed
qed (simp add: strncpy_def)


text \<open>C39. \<^verbatim>\<open>memset\<close> and \<^verbatim>\<open>memcpy\<close> do what a byte loop does, whatever the alignment: the head, word and tail parts
of \<^verbatim>\<open>memset\<close> fill exactly the \<open>n\<close> bytes from \<open>str\<close>; the word loop and the unrolled byte loop of \<^verbatim>\<open>memcpy\<close> copy
exactly \<open>n\<close> bytes between ranges that do not overlap, for up to \<open>2^34 - 8\<close> bytes. Both return their first
argument.\<close>

theorem mem_ops_bytes:
  "memset str c n m = (str, \<lambda>a. if unat (a - str) < unat n then ucast c else m a) \<and>
   (apart dst src (unat len) \<and> unat len \<le> 2 ^ 34 - 8 \<longrightarrow>
    memcpy dst src len m = (dst, \<lambda>a. if unat (a - dst) < unat len then m (src + (a - dst)) else m a))"
  using basic_memcpy_bytes [of dst src len m]
  unfolding memset_def memcpy_def basic_memset_bytes by (simp add: fill_bytes_def copy_bytes_def)

lemma apart_far:
  assumes "unat d + n \<le> unat s" "unat s + n \<le> 2 ^ 64"
  shows "apart d s n"
proof -
  have "d + of_nat i \<noteq> s + of_nat j" if ij: "i < n" "j < n" for i j
  proof
    assume e: "d + of_nat i = s + of_nat j"
    have "unat (of_nat i :: u64) = i" "unat (of_nat j :: u64) = j" using ij assms by (auto intro!: unat_of_nat_small)
    then have "unat (d + of_nat i) = unat d + i" "unat (s + of_nat j) = unat s + j"
      using ij assms by (simp_all add: unat_word_ariths)
    then show False using e ij assms by simp
  qed
  then show ?thesis using assms by (simp add: apart_def)
qed

lemma apart_sym: "apart d s n \<Longrightarrow> apart s d n"
  unfolding apart_def by metis

theorem mem_ops_bytes_witness:
  "apart 4099 8192 (unat (13 :: u64)) \<and>
   memset 4097 0x1FF 23 (\<lambda>_. 0) = (4097, \<lambda>a. if unat (a - 4097) < 23 then 0xFF else 0) \<and>
   memcpy 4099 8192 13 (\<lambda>a. ucast a) = (4099, \<lambda>a. if unat (a - 4099) < 13 then ucast (8192 + (a - 4099)) else ucast a)"
proof -
  have ap: "apart 4099 8192 (unat (13 :: u64))" by (rule apart_far) simp_all
  have "ucast (0x1FF :: 32 word) = (0xFF :: u8)" by code_simp
  then show ?thesis using mem_ops_bytes [where str = 4097 and c = "0x1FF" and n = 23 and m = "\<lambda>_. 0"]
      mem_ops_bytes [where m = "\<lambda>a. ucast a" and dst = 4099 and src = 8192 and len = 13] ap by (auto simp: fun_eq_iff)
qed



text \<open>The scans return on every terminated string: \<^verbatim>\<open>strlen\<close> gives the offset of the first zero byte, and
\<^verbatim>\<open>strcmp\<close> the difference of the bytes at the first offset where the strings differ or both end. The
word-at-a-time loops miss nothing, for all alignments of the arguments.\<close>

theorem string_scans_return:
  "(first_at (\<lambda>i. m (str + of_nat i) = 0) k \<longrightarrow> strlen str m = Some (of_nat k)) \<and>
   (first_at (\<lambda>i. m (str1 + of_nat i) \<noteq> m (str2 + of_nat i) \<or> m (str1 + of_nat i) = 0) l \<longrightarrow>
    strcmp str1 str2 m = Some (uint (m (str1 + of_nat l)) - uint (m (str2 + of_nat l))))"
  using len_head_at [of m str k str] cmp_head_at [of m str1 str2 l]
  unfolding strlen_def strcmp_def stops_def by simp

lemma first_at_list: "first_at P k \<longleftrightarrow> P k \<and> list_all (\<lambda>i. \<not> P i) [0..<k]"
  by (auto simp: first_at_def list_all_iff)

text \<open>A memory with the texts \<open>abcdefghij\<close> at 3 and \<open>abcdefghiX\<close> at 35.\<close>

definition two_texts :: bytes where
  "two_texts a =
     (if 3 \<le> a \<and> a < 13 then 94 + ucast a else if 35 \<le> a \<and> a < 44 then 62 + ucast a else if a = 44 then 88 else 0)"

theorem string_scans_return_witness:
  "strlen 3 two_texts = Some 10 \<and> strcmp 3 35 two_texts = Some 18"
proof -
  have "first_at (\<lambda>i. two_texts (3 + of_nat i) = 0) 10"
    unfolding first_at_list by (simp add: two_texts_def upt_rec)
  moreover have "first_at (\<lambda>i. two_texts (3 + of_nat i) \<noteq> two_texts (35 + of_nat i) \<or> two_texts (3 + of_nat i) = 0) 9"
    unfolding first_at_list by (simp add: two_texts_def upt_rec)
  ultimately show ?thesis using string_scans_return [of two_texts 3 10 3 35 9] by (simp add: two_texts_def)
qed

text \<open>\<^verbatim>\<open>strncpy\<close> between ranges that do not overlap: the bytes before the terminator are copied, the terminator is
written if it is among the first \<open>n\<close> bytes, and then every byte up to \<open>n\<close> is zero, except possibly the one right after
the terminator; nothing outside the \<open>n\<close> bytes of the target changes.\<close>

theorem strncpy_exact:
  assumes "apart dst src (unat n)" "unat n < 2 ^ 63"
  shows "(\<forall>i < unat n. (\<forall>j \<le> i. m (src + of_nat j) \<noteq> 0) \<longrightarrow> strncpy dst src n m (dst + of_nat i) = m (src + of_nat i)) \<and>
    (\<forall>k < unat n. first_at (\<lambda>i. m (src + of_nat i) = 0) k \<longrightarrow>
       strncpy dst src n m (dst + of_nat k) = 0 \<and>
       (\<forall>i. Suc k < i \<and> i < unat n \<longrightarrow> strncpy dst src n m (dst + of_nat i) = 0)) \<and>
    (\<forall>a. unat n \<le> unat (a - dst) \<longrightarrow> strncpy dst src n m a = m a)"
proof -
  have u: "unat (of_nat i :: u64) = i" if "i < 2 ^ 63" for i using that by (simp add: unat_of_nat_small)
  from strncpy_cases [OF assms, of m] consider
      "\<forall>i < unat n. \<not> zero_at m src i" "strncpy dst src n m = copy_bytes dst src (unat n) m"
    | k e where "k < unat n" "first_at (zero_at m src) k" "e = Suc k \<or> e = Suc (Suc k)"
       "strncpy dst src n m = fill_bytes (dst + of_nat e) 0 (unat n - e) (copy_bytes dst src (Suc k) m)" by blast
  then show ?thesis
  proof cases
    case 1
    then show ?thesis using u assms(2) by (auto simp: copy_bytes_def first_at_def)
  next
    case (2 k e)
    have w: "unat (a - (dst + of_nat e)) < unat n - e \<longleftrightarrow> (\<exists>j < unat n - e. a = dst + of_nat (e + j))" for a
      using window [of "unat n - e" a "dst + of_nat e"] assms(2) by (simp add: add.assoc)
    have fr: "unat (dst + of_nat i - (dst + of_nat e)) < unat n - e \<longleftrightarrow> e \<le> i" if "i < unat n" for i
    proof -
      have eq: "dst + of_nat i = dst + of_nat (e + j) \<longleftrightarrow> i = e + j" if "j < unat n - e" for j
      proof -
        have "i < 2 ^ 63" "e + j < 2 ^ 63" using that \<open>i < unat n\<close> assms(2) by linarith+
        then have "of_nat i = (of_nat (e + j) :: u64) \<longleftrightarrow> i = e + j" using u by metis
        then show ?thesis by (simp del: of_nat_add)
      qed
      have "(\<exists>j < unat n - e. i = e + j) \<longleftrightarrow> e \<le> i" using that by (auto intro!: exI [of _ "i - e"])
      then show ?thesis unfolding w using eq by blast
    qed
    have val: "strncpy dst src n m (dst + of_nat i) = (if e \<le> i then 0 else if i \<le> k then m (src + of_nat i) else m (dst + of_nat i))"
      if "i < unat n" for i
      using that fr [OF that] u [of i] assms(2) unfolding 2(4) fill_bytes_def copy_bytes_def by auto
    have fa: "k' = k" if "first_at (zero_at m src) k'" for k'
      using that 2(2) unfolding first_at_def by (metis linorder_neqE_nat)
    have out: "strncpy dst src n m a = m a" if "unat n \<le> unat (a - dst)" for a
    proof -
      have "\<not> unat (a - (dst + of_nat e)) < unat n - e"
      proof
        assume "unat (a - (dst + of_nat e)) < unat n - e"
        then obtain j where j: "j < unat n - e" "a = dst + of_nat (e + j)" unfolding w by blast
        then have "unat (a - dst) = e + j" using u [of "e + j"] assms(2) by simp
        then show False using that j by simp
      qed
      then show ?thesis using that 2(1) unfolding 2(4) fill_bytes_def copy_bytes_def by simp
    qed
    show ?thesis
    proof (intro conjI allI impI)
      fix i assume i: "i < unat n" "\<forall>j \<le> i. m (src + of_nat j) \<noteq> 0"
      then have "i < k" using 2(2) unfolding first_at_def by (meson not_le)
      then show "strncpy dst src n m (dst + of_nat i) = m (src + of_nat i)" using val [OF i(1)] 2(3) by auto
    next
      fix k' assume k': "k' < unat n" "first_at (\<lambda>i. m (src + of_nat i) = 0) k'"
      then show "strncpy dst src n m (dst + of_nat k') = 0" using val [OF k'(1)] fa [OF k'(2)] by (simp add: first_at_def)
    next
      fix k' i assume "first_at (\<lambda>i. m (src + of_nat i) = 0) k'" "Suc k' < i \<and> i < unat n"
      then show "strncpy dst src n m (dst + of_nat i) = 0" using val [of i] fa [of k'] 2(3) by auto
    qed (rule out)
  qed
qed

theorem strncpy_exact_witness:
  "strncpy 67 3 16 two_texts (67 + 9) = 106 \<and> strncpy 67 3 16 two_texts (67 + 10) = 0 \<and>
   strncpy 67 3 16 two_texts (67 + 15) = 0 \<and> strncpy 67 3 16 two_texts 44 = 88"
proof -
  have t: "first_at (\<lambda>i. two_texts (3 + of_nat i) = 0) 10"
    unfolding first_at_list by (simp add: two_texts_def upt_rec)
  have t9: "two_texts (3 + of_nat j) \<noteq> 0" if "j \<le> 9" for j using t that by (auto simp: first_at_def)
  have ap: "apart 67 3 (unat (16 :: u64))" by (rule apart_sym [OF apart_far]) simp_all
  note ok = strncpy_exact [OF ap, of two_texts]
  have 1: "\<forall>i < 16. (\<forall>j \<le> i. two_texts (3 + of_nat j) \<noteq> 0) \<longrightarrow> strncpy 67 3 16 two_texts (67 + of_nat i) = two_texts (3 + of_nat i)"
    and 2: "\<forall>k < 16. first_at (\<lambda>i. two_texts (3 + of_nat i) = 0) k \<longrightarrow> strncpy 67 3 16 two_texts (67 + of_nat k) = 0 \<and>
      (\<forall>i. Suc k < i \<and> i < 16 \<longrightarrow> strncpy 67 3 16 two_texts (67 + of_nat i) = 0)"
    and 3: "\<forall>a. 16 \<le> unat (a - 67) \<longrightarrow> strncpy 67 3 16 two_texts a = two_texts a"
    using ok by simp_all
  have "strncpy 67 3 16 two_texts (67 + of_nat 9) = two_texts (3 + of_nat 9)" using spec [OF 1, of 9] t9 by simp
  moreover have "strncpy 67 3 16 two_texts (67 + of_nat 10) = 0 \<and> strncpy 67 3 16 two_texts (67 + of_nat 15) = 0"
    using spec [OF 2, of 10] t by (auto dest: spec [of _ 15])
  moreover have "strncpy 67 3 16 two_texts 44 = two_texts 44" using spec [OF 3, of 44] by simp
  ultimately show ?thesis by (simp add: two_texts_def)
qed

text \<open>When the terminator is found by the word loop, \<^verbatim>\<open>strncpy\<close> advances the target twice, so that the byte
right after the terminator keeps its old value instead of becoming zero.\<close>

theorem strncpy_skips_byte:
  assumes "dst AND 7 = 0" "src AND 7 = 0" "8 \<le> unat n" "unat n < 2 ^ 63"
    and "first_at (\<lambda>i. m (src + of_nat i) = 0) k" "k < 7"
  shows "strncpy dst src n m (dst + of_nat (Suc k)) = m (dst + of_nat (Suc k))"
proof -
  obtain l where l: "unat n = Suc l" using assms(3) by (cases "unat n") auto
  have n: "n \<noteq> 0" using assms(3) by auto
  have head: "cpy_head dst src (unat n) m = On dst src (unat n) m" using assms(1,2) unfolding l by simp
  have words: "cpy_words dst src (unat n) m = Zero (dst + of_nat (Suc k)) (copy_bytes dst src (Suc k) m)"
    using assms by (intro cpy_words_zero) auto
  have u: "unat (of_nat i :: u64) = i" if "i < 10" for i using that by (simp add: unat_of_nat_small)
  have e: "dst + of_nat (Suc k) + 1 = dst + of_nat (Suc (Suc k))" by (simp add: algebra_simps)
  have "strncpy dst src n m = fill_bytes (dst + of_nat (Suc (Suc k))) 0 (unat n - Suc (Suc k)) (copy_bytes dst src (Suc k) m)"
    using n u [of "Suc (Suc k)"] assms(6) unfolding strncpy_def head words Let_def cpy.case cpy_fill_bytes e by simp
  moreover have "unat (dst + of_nat (Suc k) - (dst + of_nat (Suc (Suc k)))) = 2 ^ 64 - 1"
    by (simp add: unsigned_minus_1_eq_mask mask_eq_exp_minus_1)
  moreover have "unat (of_nat (Suc k) :: u64) = Suc k" using assms(6) by (intro u) simp
  moreover have "\<not> 2 ^ 64 - 1 < unat n - Suc (Suc k)" using assms(4) by simp
  ultimately show ?thesis by (simp add: fill_bytes_def copy_bytes_def del: of_nat_Suc)
qed

theorem strncpy_skips_byte_witness:
  "strncpy 64 128 8 (\<lambda>a. if a < 128 then 255 else if a = 128 then 97 else 0) (64 + 2) = 255"
proof -
  have "first_at (\<lambda>i. (\<lambda>a. if a < 128 then 255 else if a = 128 then 97 else 0 :: u8) (128 + of_nat i :: u64) = 0) 1"
    unfolding first_at_list by (simp add: upt_rec)
  then show ?thesis
    using strncpy_skips_byte [of 64 128 8 "\<lambda>a. if a < 128 then 255 else if a = 128 then 97 else 0" 1] by simp
qed


end
