(* ===== verification/Page_Slice_Copy.thy ===== *)
theory Page_Slice_Copy
  imports Page_Slice_Spec String_Ops
begin

text \<open>
  Copies on top of page slices, \<^verbatim>\<open>kernel/mm/page_slice_copy.c\<close>: from a slice to a kernel buffer, to another
  slice, to a user range, and the deep clone of a slice.

  Kernel memory is the memory of \<open>String_Ops\<close>, whose \<^verbatim>\<open>memcpy\<close> moves the bytes. The address that the
  \<open>i\<close>-th successful allocation returns is \<open>pg i\<close>. The walk of the clone keeps its arrays \<^verbatim>\<open>slot\<close>, \<^verbatim>\<open>index\<close>
  and \<^verbatim>\<open>pgoff_base\<close> up to position \<^verbatim>\<open>cur\<close> as a stack of frames; what lies above \<^verbatim>\<open>cur\<close> is never read
  before it is written again. The lookups of one copy see one state of the ps.
\<close>

section \<open>Copying a mapped range\<close>

definition BYTE_TO_PGOFF :: "nat \<Rightarrow> nat" where "BYTE_TO_PGOFF off = off div 4096"

definition IN_PAGE_OFF :: "nat \<Rightarrow> nat" where "IN_PAGE_OFF off = off mod 4096"

text \<open>\<open>emit c src_kva chunk_len src_byte_off\<close> is the callback with its context \<open>c\<close>.\<close>

function copy_loop ::
  "page_slice option \<Rightarrow> nat \<Rightarrow> nat \<Rightarrow> ('c \<Rightarrow> u64 \<Rightarrow> nat \<Rightarrow> nat \<Rightarrow> 'c \<times> error_t) \<Rightarrow> nat \<Rightarrow> 'c \<Rightarrow> 'c \<times> error_t" where
  "copy_loop ps byte_off len emit progress c =
     (if progress < len then
        (let off = byte_off + progress in
         case page_slice_lookup ps (BYTE_TO_PGOFF off) of
           None \<Rightarrow> (c, E_RENDEZVOS)
         | Some entry \<Rightarrow>
             (let chunk = min (4096 - IN_PAGE_OFF off) (len - progress) in
              case emit c (kva entry + of_nat (IN_PAGE_OFF off)) chunk off of
                (c, err) \<Rightarrow>
                  if err \<noteq> REND_SUCCESS then (c, err)
                  else copy_loop ps byte_off len emit (progress + chunk) c))
      else (c, REND_SUCCESS))"
  by pat_completeness auto

lemma IN_PAGE_OFF_less [simp]: "IN_PAGE_OFF off < 4096" "0 < 4096 - IN_PAGE_OFF off"
  by (simp_all add: IN_PAGE_OFF_def)

lemma progress_dec: "(p::nat) < len \<Longrightarrow> 0 < c \<Longrightarrow> len - (p + c) < len - p"
  by simp

termination copy_loop
  by (relation "measure (\<lambda>(ps, byte_off, len, emit, progress, c). len - progress)") (auto intro!: progress_dec)

declare copy_loop.simps [simp del]

definition page_slice_copy_from_mapped ::
  "page_slice option \<Rightarrow> nat \<Rightarrow> nat \<Rightarrow> ('c \<Rightarrow> u64 \<Rightarrow> nat \<Rightarrow> nat \<Rightarrow> 'c \<times> error_t) \<Rightarrow> 'c \<Rightarrow> 'c \<times> error_t" where
  "page_slice_copy_from_mapped ps byte_off len emit c =
     (if ps = None then (c, E_IN_PARAM)
      else if len = 0 then (c, REND_SUCCESS)
      else
        (let slice_size = page_slice_get_size ps in
         if byte_off > slice_size \<or> len > slice_size - byte_off then (c, E_IN_PARAM)
         else copy_loop ps byte_off len emit 0 c))"

text \<open>The context of a copy to a buffer: kernel memory and the bytes written so far.\<close>

definition page_slice_emit_to_buffer :: "u64 \<Rightarrow> bytes \<times> nat \<Rightarrow> u64 \<Rightarrow> nat \<Rightarrow> nat \<Rightarrow> (bytes \<times> nat) \<times> error_t" where
  "page_slice_emit_to_buffer dst c src_kva chunk_len src_byte_off =
     (let (m, n) = c in ((snd (memcpy (dst + of_nat n) src_kva (of_nat chunk_len) m), n + chunk_len), REND_SUCCESS))"

definition page_slice_copy_to_buffer :: "page_slice option \<Rightarrow> nat \<Rightarrow> u64 \<Rightarrow> nat \<Rightarrow> bytes \<Rightarrow> bytes \<times> error_t" where
  "page_slice_copy_to_buffer ps byte_off dst len m =
     (if dst = 0 then (m, E_IN_PARAM)
      else case page_slice_copy_from_mapped ps byte_off len (page_slice_emit_to_buffer dst) (m, 0) of
        ((m, n), err) \<Rightarrow> (m, err))"

text \<open>The copy to user memory calls \<^verbatim>\<open>map_handler_user_kernel_copy\<close>, here the argument \<open>user_copy\<close>, which
  changes a state \<open>'u\<close> and returns an error code.\<close>

definition page_slice_emit_to_user ::
  "('u \<Rightarrow> u64 \<Rightarrow> u64 \<Rightarrow> nat \<Rightarrow> 'u \<times> error_t) \<Rightarrow> u64 \<Rightarrow> 'u \<times> nat \<Rightarrow> u64 \<Rightarrow> nat \<Rightarrow> nat \<Rightarrow> ('u \<times> nat) \<times> error_t" where
  "page_slice_emit_to_user user_copy user_va c src_kva chunk_len src_byte_off =
     (let (u, n) = c; (u, err) = user_copy u (user_va + of_nat n) src_kva chunk_len in
      ((u, if err = REND_SUCCESS then n + chunk_len else n), err))"

definition page_slice_copy_to_user ::
  "('u \<Rightarrow> u64 \<Rightarrow> u64 \<Rightarrow> nat \<Rightarrow> 'u \<times> error_t) \<Rightarrow> bool \<Rightarrow> u64 \<Rightarrow> page_slice option \<Rightarrow> nat \<Rightarrow> nat \<Rightarrow> 'u \<Rightarrow> 'u \<times> error_t" where
  "page_slice_copy_to_user user_copy has_vs user_va ps file_byte_off len u =
     (if \<not> has_vs then (u, E_IN_PARAM)
      else case page_slice_copy_from_mapped ps file_byte_off len (page_slice_emit_to_user user_copy user_va) (u, 0) of
        ((u, n), err) \<Rightarrow> (u, err))"

section \<open>Slice to slice\<close>

definition page_slice_byte_ranges_overlap :: "nat \<Rightarrow> nat \<Rightarrow> nat \<Rightarrow> bool" where
  "page_slice_byte_ranges_overlap a_off b_off len =
     (let a_end = (a_off + len) mod 2 ^ 64; b_end = (b_off + len) mod 2 ^ 64 in a_off < b_end \<and> b_off < a_end)"

function slice_copy_loop ::
  "page_slice option \<Rightarrow> nat \<Rightarrow> page_slice option \<Rightarrow> nat \<Rightarrow> nat \<Rightarrow> nat \<Rightarrow> bytes \<Rightarrow> bytes \<times> error_t" where
  "slice_copy_loop dst dst_byte_off src src_byte_off len progress m =
     (if progress < len then
        (let src_off = src_byte_off + progress; dst_off = dst_byte_off + progress in
         case (page_slice_lookup src (BYTE_TO_PGOFF src_off), page_slice_lookup dst (BYTE_TO_PGOFF dst_off)) of
           (Some src_entry, Some dst_entry) \<Rightarrow>
             (let chunk = 4096 - IN_PAGE_OFF src_off;
                  chunk = (if 4096 - IN_PAGE_OFF dst_off < chunk then 4096 - IN_PAGE_OFF dst_off else chunk);
                  chunk = (if chunk > len - progress then len - progress else chunk) in
              slice_copy_loop dst dst_byte_off src src_byte_off len (progress + chunk)
                (snd (memcpy (kva dst_entry + of_nat (IN_PAGE_OFF dst_off)) (kva src_entry + of_nat (IN_PAGE_OFF src_off)) (of_nat chunk) m)))
         | _ \<Rightarrow> (m, E_RENDEZVOS))
      else (m, REND_SUCCESS))"
  by pat_completeness auto

termination slice_copy_loop
  by (relation "measure (\<lambda>(dst, d, src, s, len, progress, m). len - progress)") (auto intro!: progress_dec split: if_splits)

declare slice_copy_loop.simps [simp del]

text \<open>\<open>same\<close> says that both pointers are equal.\<close>

definition page_slice_copy_to_slice ::
  "bool \<Rightarrow> page_slice option \<Rightarrow> nat \<Rightarrow> page_slice option \<Rightarrow> nat \<Rightarrow> nat \<Rightarrow> bytes \<Rightarrow> bytes \<times> error_t" where
  "page_slice_copy_to_slice same dst dst_byte_off src src_byte_off len m =
     (if dst = None \<or> src = None then (m, E_IN_PARAM)
      else if len = 0 then (m, REND_SUCCESS)
      else if same \<and> page_slice_byte_ranges_overlap src_byte_off dst_byte_off len then (m, E_IN_PARAM)
      else
        (let dst_size = page_slice_get_size dst; src_size = page_slice_get_size src in
         if dst_byte_off > dst_size \<or> len > dst_size - dst_byte_off then (m, E_IN_PARAM)
         else if src_byte_off > src_size \<or> len > src_size - src_byte_off then (m, E_IN_PARAM)
         else slice_copy_loop dst dst_byte_off src src_byte_off len 0 m))"

section \<open>Clone\<close>

definition ps_clone_copy_leaf_entry ::
  "(nat \<Rightarrow> bool) \<Rightarrow> (nat \<Rightarrow> u64) \<Rightarrow> nat \<Rightarrow> page_slice_entry \<Rightarrow> page_slice \<times> bytes \<Rightarrow> (page_slice \<times> bytes) \<times> error_t" where
  "ps_clone_copy_leaf_entry mem pg pgoff src_entry st =
     (let (dst, m) = st in
      if \<not> valid_entry src_entry then (st, REND_SUCCESS)
      else
        (let new_page = (if mem (allocs dst) then pg (allocs dst) else 0);
             dst = dst\<lparr>allocs := Suc (allocs dst)\<rparr> in
         if new_page = 0 then ((dst, m), E_REND_NO_MEM)
         else
           (let m = snd (memcpy new_page (kva src_entry) 4096 m);
                fl = flags src_entry AND NOT FLAG_PIN in
            case page_slice_insert_page mem (Some dst) pgoff new_page fl of
              (None, err) \<Rightarrow> ((dst, m), err)
            | (Some dst, err) \<Rightarrow>
                if err \<noteq> REND_SUCCESS then ((dst\<lparr>freed := freed dst @ [new_page]\<rparr>, m), err)
                else ((dst, m), REND_SUCCESS))))"

text \<open>A loop over a list that stops at the first error.\<close>

fun fold_err :: "('x \<Rightarrow> 's \<Rightarrow> 's \<times> error_t) \<Rightarrow> 'x list \<Rightarrow> 's \<Rightarrow> 's \<times> error_t" where
  "fold_err f [] s = (s, REND_SUCCESS)"
| "fold_err f (x # xs) s = (case f x s of (s, err) \<Rightarrow> if err = REND_SUCCESS then fold_err f xs s else (s, err))"

text \<open>The functions of the clone take the per-entry copy as the argument \<open>visit\<close>.\<close>

definition ps_clone_copy_leaf_page ::
  "(nat \<Rightarrow> page_slice_entry \<Rightarrow> 's \<Rightarrow> 's \<times> error_t) \<Rightarrow> nat \<Rightarrow> (nat \<Rightarrow> page_slice_entry) \<Rightarrow> 's \<Rightarrow> 's \<times> error_t" where
  "ps_clone_copy_leaf_page visit pgoff_base leaf = fold_err (\<lambda>idx. visit (pgoff_base + idx) (leaf idx)) [0..<LEAF_CAPACITY]"

definition INDEX_SLOT_STRIDE :: "nat \<Rightarrow> nat" where
  "INDEX_SLOT_STRIDE stored_h = LEAF_CAPACITY * 2 ^ (9 * (stored_h - 2))"

fun index_of :: "ps_ient \<Rightarrow> nat \<Rightarrow> ps_ient" where
  "index_of (Ent h l (IndexPage f)) = f"
| "index_of _ = (\<lambda>_. E_None)"

fun leaf_of :: "ps_ient \<Rightarrow> nat \<Rightarrow> page_slice_entry" where
  "leaf_of (Ent h l (LeafPage g)) = g"
| "leaf_of _ = (\<lambda>_. empty_entry)"

text \<open>A frame is (\<^verbatim>\<open>slot\<close>, \<^verbatim>\<open>index\<close>, \<^verbatim>\<open>pgoff_base\<close>); the list has \<open>cur + 1\<close> frames, the current one first.\<close>

partial_function (option) clone_loop ::
  "nat \<Rightarrow> (nat \<Rightarrow> page_slice_entry \<Rightarrow> 's \<Rightarrow> 's \<times> error_t) \<Rightarrow> (nat \<times> (nat \<Rightarrow> ps_ient) \<times> nat) list \<Rightarrow> 's
   \<Rightarrow> ('s \<times> error_t) option" where
  "clone_loop stored_h visit frames st =
     (case frames of
        [] \<Rightarrow> Some (st, REND_SUCCESS)
      | (slot, index, base) # rest \<Rightarrow>
          if slot \<ge> INDEX_CAPACITY then
            (case rest of
               [] \<Rightarrow> Some (st, REND_SUCCESS)
             | (slot', index', base') # rest' \<Rightarrow> clone_loop stored_h visit ((Suc slot', index', base') # rest') st)
          else if length rest < stored_h - 1 - 1 then
            if index slot = E_None \<or> \<not> points_to_index (index slot)
            then clone_loop stored_h visit ((Suc slot, index, base) # rest) st
            else clone_loop stored_h visit
                   ((0, index_of (index slot), base + slot * INDEX_SLOT_STRIDE (stored_h - length rest))
                    # (slot, index, base) # rest) st
          else if index slot \<noteq> E_None \<and> points_to_leaf (index slot) then
            (case ps_clone_copy_leaf_page visit (base + slot * INDEX_SLOT_STRIDE 2) (leaf_of (index slot)) st of
               (st, err) \<Rightarrow>
                 if err \<noteq> REND_SUCCESS then Some (st, err)
                 else clone_loop stored_h visit ((Suc slot, index, base) # rest) st)
          else clone_loop stored_h visit ((Suc slot, index, base) # rest) st)"

definition ps_clone_walk_mapped ::
  "(nat \<Rightarrow> page_slice_entry \<Rightarrow> 's \<Rightarrow> 's \<times> error_t) \<Rightarrow> page_slice \<Rightarrow> 's \<Rightarrow> ('s \<times> error_t) option" where
  "ps_clone_walk_mapped visit src st =
     (if root_empty src then Some (st, REND_SUCCESS)
      else if root_is_leaf src then Some (ps_clone_copy_leaf_page visit 0 (leaf_of (root src)) st)
      else if \<not> root_is_index src \<or> stored_height src < 2 then Some (st, REND_SUCCESS)
      else clone_loop (stored_height src) visit [(0, index_of (root src), 0)] st)"

definition page_slice_clone ::
  "(nat \<Rightarrow> bool) \<Rightarrow> (nat \<Rightarrow> u64) \<Rightarrow> page_slice option \<Rightarrow> kheap \<Rightarrow> bytes
   \<Rightarrow> (kheap \<times> page_slice option \<times> bytes \<times> error_t) option" where
  "page_slice_clone mem pg src k m =
     (case src of
        None \<Rightarrow> Some (k, None, m, E_IN_PARAM)
      | Some s \<Rightarrow>
          if page_slice_get_size src = 0 then Some (k, None, m, E_IN_PARAM)
          else
            (case page_slice_create mem (page_slice_get_size src) k of
               (k, None) \<Rightarrow> Some (k, None, m, E_REND_NO_MEM)
             | (k, Some dst) \<Rightarrow>
                 (case ps_clone_walk_mapped (ps_clone_copy_leaf_entry mem pg) s (dst, m) of
                    None \<Rightarrow> None
                  | Some ((dst, m), err) \<Rightarrow>
                      if err \<noteq> REND_SUCCESS then
                        (case page_slice_destroy (Some dst) of
                           (Some k, r, e) \<Rightarrow> Some (k, None, m, err)
                         | (None, r, e) \<Rightarrow> Some (k, None, m, err))
                      else Some (kheap.truncate dst, Some dst, m, REND_SUCCESS))))"

section \<open>Correctness of the copies\<close>

text \<open>The address of a byte of a slice, and the ranges without holes.\<close>

definition slice_addr :: "page_slice option \<Rightarrow> nat \<Rightarrow> u64" where
  "slice_addr ps off = kva (the (page_slice_lookup ps (BYTE_TO_PGOFF off))) + of_nat (IN_PAGE_OFF off)"

definition mapped_range :: "page_slice option \<Rightarrow> nat \<Rightarrow> nat \<Rightarrow> bool" where
  "mapped_range ps off len \<longleftrightarrow> (\<forall>i < len. page_slice_lookup ps (BYTE_TO_PGOFF (off + i)) \<noteq> None)"

text \<open>\<open>m'\<close> is \<open>m\<close> with the first \<open>p\<close> bytes of the target replaced by those of the source.\<close>

definition copied :: "bytes \<Rightarrow> bytes \<Rightarrow> (nat \<Rightarrow> u64) \<Rightarrow> (nat \<Rightarrow> u64) \<Rightarrow> nat \<Rightarrow> bytes \<Rightarrow> bool" where
  "copied ms m da sa p m' \<longleftrightarrow>
     (\<forall>i < p. m' (da i) = ms (sa i)) \<and> (\<forall>a. (\<forall>i < p. a \<noteq> da i) \<longrightarrow> m' a = m a)"

lemma same_page:
  assumes "IN_PAGE_OFF off + j < 4096"
  shows "BYTE_TO_PGOFF (off + j) = BYTE_TO_PGOFF off" "IN_PAGE_OFF (off + j) = IN_PAGE_OFF off + j"
proof -
  have "off + j = 4096 * (off div 4096) + (off mod 4096 + j)" by simp
  then have "(off + j) div 4096 = off div 4096 \<and> (off + j) mod 4096 = off mod 4096 + j"
    using assms unfolding IN_PAGE_OFF_def by (metis div_mult_self4 div_less add.right_neutral mod_mult_self4 mod_less zero_neq_numeral)
  then show "BYTE_TO_PGOFF (off + j) = BYTE_TO_PGOFF off" "IN_PAGE_OFF (off + j) = IN_PAGE_OFF off + j"
    by (simp_all add: BYTE_TO_PGOFF_def IN_PAGE_OFF_def)
qed

lemma slice_addr_chunk: "IN_PAGE_OFF off + j < 4096 \<Longrightarrow> slice_addr ps (off + j) = slice_addr ps off + of_nat j"
  by (simp add: slice_addr_def same_page)

lemma copied_step:
  assumes "copied ms m da sa p m'" "c \<le> 4096" "inj_on da {..<p + c}"
    and da: "\<And>j. j < c \<Longrightarrow> da (p + j) = da p + of_nat j"
    and v: "\<And>j. j < c \<Longrightarrow> v (da p + of_nat j) = ms (sa (p + j))"
  shows "copied ms m da sa (p + c) (\<lambda>a. if unat (a - da p) < c then v a else m' a)"
proof -
  have w: "unat (a - da p) < c \<longleftrightarrow> (\<exists>j < c. a = da (p + j))" for a
    using window [of c a "da p"] assms(2) da by auto
  have old: "\<not> unat (da i - da p) < c" if "i < p" for i
    using that assms(3) unfolding w by (auto dest: inj_onD)
  have new: "(if unat (da i - da p) < c then v (da i) else m' (da i)) = ms (sa i)" if i: "i < p + c" for i
  proof (cases "i < p")
    case True
    then show ?thesis using old assms(1) by (simp add: copied_def)
  next
    case False
    then obtain j where "i = p + j" "j < c" using i by (metis add_less_cancel_left le_Suc_ex not_le)
    then show ?thesis using w [of "da i"] da v by auto
  qed
  show ?thesis unfolding copied_def
  proof (intro conjI allI impI)
    fix a assume a: "\<forall>i < p + c. a \<noteq> da i"
    then have "\<not> unat (a - da p) < c" unfolding w by auto
    then show "(if unat (a - da p) < c then v a else m' a) = m a" using a assms(1) by (simp add: copied_def)
  qed (rule new)
qed

text \<open>\<^verbatim>\<open>memcpy\<close> of at most one page between ranges that do not overlap.\<close>

lemma memcpy_chunk:
  assumes "apart d s c" "c \<le> 4096"
  shows "snd (memcpy d s (of_nat c) m) = copy_bytes d s c m"
proof -
  have "unat (of_nat c :: u64) = c" using assms(2) by (intro unat_of_nat_small) simp
  then show ?thesis using basic_memcpy_bytes [of d s "of_nat c" m] assms by (simp add: memcpy_def)
qed

text \<open>The loop of the copies out of a slice.\<close>

lemma mapped_range_chunk:
  assumes "IN_PAGE_OFF off + c \<le> 4096" "0 < c" "c \<le> len" "page_slice_lookup ps (BYTE_TO_PGOFF off) \<noteq> None"
  shows "mapped_range ps off len \<longleftrightarrow> mapped_range ps (off + c) (len - c)"
proof
  assume a: "mapped_range ps (off + c) (len - c)"
  show "mapped_range ps off len" unfolding mapped_range_def
  proof (intro allI impI)
    fix i assume "i < len"
    show "page_slice_lookup ps (BYTE_TO_PGOFF (off + i)) \<noteq> None"
    proof (cases "i < c")
      case True
      then show ?thesis using assms same_page(1) [of off i] by simp
    next
      case False
      then show ?thesis using a [unfolded mapped_range_def, rule_format, of "i - c"] \<open>i < len\<close> by simp
    qed
  qed
next
  assume "mapped_range ps off len"
  then show "mapped_range ps (off + c) (len - c)"
    unfolding mapped_range_def by (metis add.assoc add.commute less_diff_conv)
qed

lemma copy_loop_inv:
  assumes step: "\<And>p c x. Inv p x \<Longrightarrow> p + c \<le> len \<Longrightarrow> c \<le> 4096
      \<Longrightarrow> \<forall>j < c. slice_addr ps (off + p + j) = slice_addr ps (off + p) + of_nat j
      \<Longrightarrow> \<exists>x'. emit (x, p) (slice_addr ps (off + p)) c (off + p) = ((x', p + c), REND_SUCCESS) \<and> Inv (p + c) x'"
    and "Inv p x" "p \<le> len"
  shows "if mapped_range ps (off + p) (len - p)
     then \<exists>x'. copy_loop ps off len emit p (x, p) = ((x', len), REND_SUCCESS) \<and> Inv len x'
     else \<exists>x' p'. copy_loop ps off len emit p (x, p) = ((x', p'), E_RENDEZVOS) \<and> p' < len \<and> Inv p' x'"
  using assms(2,3)
proof (induction "len - p" arbitrary: p x rule: less_induct)
  case less
  let ?off = "off + p"
  show ?case
  proof (cases "p < len")
    case False
    then show ?thesis using less.prems by (simp add: copy_loop.simps mapped_range_def)
  next
    case True
    show ?thesis
    proof (cases "page_slice_lookup ps (BYTE_TO_PGOFF ?off)")
      case None
      then have "\<not> mapped_range ps ?off (len - p)"
        using True by (auto simp: mapped_range_def intro!: exI [of _ 0])
      then show ?thesis using None True less.prems by (simp add: copy_loop.simps)
    next
      case (Some e)
      define c where "c = min (4096 - IN_PAGE_OFF ?off) (len - p)"
      have c: "0 < c" "p + c \<le> len" "IN_PAGE_OFF ?off + c \<le> 4096" "c \<le> len - p"
        using True less_imp_le [OF IN_PAGE_OFF_less(1) [of ?off]] by (auto simp: c_def min_def)
      obtain x' where x': "emit (x, p) (slice_addr ps ?off) c ?off = ((x', p + c), REND_SUCCESS)" "Inv (p + c) x'"
        using step [OF less.prems(1) c(2)] slice_addr_chunk [of ?off] c by auto
      have eq: "copy_loop ps off len emit p (x, p) = copy_loop ps off len emit (p + c) (x', p + c)"
        using x'(1) Some True by (simp add: copy_loop.simps [of ps off len emit p] c_def [symmetric] slice_addr_def Let_def)
      have "len - (p + c) < len - p" using c True by simp
      from less.hyps [OF this x'(2) c(2)] show ?thesis
        using mapped_range_chunk [OF c(3,1,4)] Some unfolding eq by (simp add: add.assoc)
    qed
  qed
qed


lemma inj_offsets:
  assumes "n \<le> 2 ^ 64"
  shows "inj_on (\<lambda>i. (d :: u64) + of_nat i) {..<n}"
proof (rule inj_onI)
  fix i j assume "i \<in> {..<n}" "j \<in> {..<n}" "d + of_nat i = d + of_nat j"
  then have "i < 2 ^ 64" "j < 2 ^ 64" "(of_nat i :: u64) = of_nat j" using assms by simp_all
  moreover from this(1,2) have "unat (of_nat i :: u64) = i" "unat (of_nat j :: u64) = j"
    by (auto intro: unat_of_nat_small)
  ultimately show "i = j" by metis
qed

lemma copy_from_mapped_range:
  assumes "0 < len"
  shows "page_slice_copy_from_mapped (Some s) off len emit c =
     (if off + len > size s then (c, E_IN_PARAM) else copy_loop (Some s) off len emit 0 c)"
  using assms by (auto simp: page_slice_copy_from_mapped_def)

lemma buffer_loop:
  assumes "len \<le> 2 ^ 64" "\<And>i j. i < len \<Longrightarrow> j < len \<Longrightarrow> slice_addr ps (off + i) \<noteq> dst + of_nat j"
  defines "da \<equiv> \<lambda>i. dst + of_nat i" and "sa \<equiv> \<lambda>i. slice_addr ps (off + i)"
  shows "if mapped_range ps off len
     then \<exists>m'. copy_loop ps off len (page_slice_emit_to_buffer dst) 0 (m, 0) = ((m', len), REND_SUCCESS) \<and> copied m m da sa len m'
     else \<exists>m' p. copy_loop ps off len (page_slice_emit_to_buffer dst) 0 (m, 0) = ((m', p), E_RENDEZVOS) \<and> p < len
            \<and> copied m m da sa p m'"
proof -
  have inj: "inj_on da {..<n}" if "n \<le> len" for n
    unfolding da_def using that assms(1) by (intro inj_offsets) simp
  have step: "\<exists>x'. page_slice_emit_to_buffer dst (x, p) (slice_addr ps (off + p)) c (off + p) = ((x', p + c), REND_SUCCESS)
      \<and> copied m m da sa (p + c) x'"
    if "copied m m da sa p x" "p + c \<le> len" "c \<le> 4096"
      "\<forall>j < c. slice_addr ps (off + p + j) = slice_addr ps (off + p) + of_nat j" for p c x
  proof -
    have "x (sa (p + j)) = m (sa (p + j))" if "j < c" for j
      using \<open>copied m m da sa p x\<close> that \<open>p + c \<le> len\<close> assms(2) [of "p + j"] by (auto simp: copied_def da_def sa_def add.assoc)
    then have "copied m m da sa (p + c) (\<lambda>a. if unat (a - da p) < c then x (slice_addr ps (off + p) + (a - da p)) else x a)"
      using that inj by (intro copied_step) (auto simp: da_def sa_def add.assoc)
    moreover have "apart (dst + of_nat p) (slice_addr ps (off + p)) c"
      unfolding apart_def
    proof (intro conjI allI impI)
      fix i j assume "i < c" "j < c"
      then show "dst + of_nat p + of_nat i \<noteq> slice_addr ps (off + p) + of_nat j"
        using assms(2) [of "p + j" "p + i"] that(2,4) by (auto simp: add.assoc)
    qed (use that(3) in simp)
    ultimately show ?thesis using that(3)
      unfolding page_slice_emit_to_buffer_def da_def by (simp add: memcpy_chunk copy_bytes_def)
  qed
  have z: "copied m m da sa 0 m" by (simp add: copied_def)
  have "if mapped_range ps (off + 0) (len - 0)
     then \<exists>x'. copy_loop ps off len (page_slice_emit_to_buffer dst) 0 (m, 0) = ((x', len), REND_SUCCESS) \<and> copied m m da sa len x'
     else \<exists>x' p'. copy_loop ps off len (page_slice_emit_to_buffer dst) 0 (m, 0) = ((x', p'), E_RENDEZVOS) \<and> p' < len
            \<and> copied m m da sa p' x'"
    by (rule copy_loop_inv [where Inv = "copied m m da sa", OF _ z le0]) (rule step)
  then show ?thesis by (simp only: add_0_right diff_zero)
qed

text \<open>Copying a range of a slice to a kernel buffer that does not overlap the pages of the slice: the call
  succeeds exactly if the range lies inside the slice and has no hole; then every byte of the buffer is the byte
  of the slice at the same position, across page boundaries, and no other byte of memory changes. A hole gives
  the error and a copy of some prefix.\<close>

theorem page_slice_copy_to_buffer_exact:
  assumes "dst \<noteq> 0" "0 < len" "len \<le> 2 ^ 64"
    and "\<And>i j. i < len \<Longrightarrow> j < len \<Longrightarrow> slice_addr (Some s) (off + i) \<noteq> dst + of_nat j"
  shows "\<exists>m' err. page_slice_copy_to_buffer (Some s) off dst len m = (m', err)
    \<and> (if off + len > size s then err = E_IN_PARAM \<and> m' = m
       else if mapped_range (Some s) off len
         then err = REND_SUCCESS \<and> copied m m (\<lambda>i. dst + of_nat i) (\<lambda>i. slice_addr (Some s) (off + i)) len m'
       else err = E_RENDEZVOS
         \<and> (\<exists>p < len. copied m m (\<lambda>i. dst + of_nat i) (\<lambda>i. slice_addr (Some s) (off + i)) p m'))"
proof (cases "off + len > size s \<or> \<not> mapped_range (Some s) off len")
  case True
  then show ?thesis using buffer_loop [OF assms(3,4), of m] assms(1,2)
    by (auto simp: page_slice_copy_to_buffer_def copy_from_mapped_range) blast
next
  case False
  then show ?thesis using buffer_loop [OF assms(3,4), of m] assms(1,2)
    by (auto simp: page_slice_copy_to_buffer_def copy_from_mapped_range)
qed

text \<open>The kernel-to-user copy as the copy to user space relies on it: kernel memory \<open>m\<close> is read only.\<close>

definition copies_to_user :: "(bytes \<times> bytes \<Rightarrow> u64 \<Rightarrow> u64 \<Rightarrow> nat \<Rightarrow> (bytes \<times> bytes) \<times> error_t) \<Rightarrow> bool" where
  "copies_to_user user_copy \<longleftrightarrow> (\<forall>m um va src n.
     user_copy (m, um) va src n = ((m, \<lambda>a. if unat (a - va) < n then m (src + (a - va)) else um a), REND_SUCCESS))"

lemma user_loop:
  fixes m um :: bytes and va :: u64 and ps :: "page_slice option" and off :: nat
  assumes law: "copies_to_user user_copy" and len: "len \<le> 2 ^ 64"
  defines "da \<equiv> \<lambda>i. va + of_nat i" and "sa \<equiv> \<lambda>i. slice_addr ps (off + i)"
  shows "if mapped_range ps off len
     then \<exists>x. copy_loop ps off len (page_slice_emit_to_user user_copy va) 0 ((m, um), 0) = ((x, len), REND_SUCCESS)
            \<and> fst x = m \<and> copied m um da sa len (snd x)
     else \<exists>x p. copy_loop ps off len (page_slice_emit_to_user user_copy va) 0 ((m, um), 0) = ((x, p), E_RENDEZVOS)
            \<and> p < len \<and> fst x = m \<and> copied m um da sa p (snd x)"
proof -
  have step: "\<exists>x'. page_slice_emit_to_user user_copy va (x, p) (slice_addr ps (off + p)) c (off + p) = ((x', p + c), REND_SUCCESS)
      \<and> (fst x' = m \<and> copied m um da sa (p + c) (snd x'))"
    if "fst x = m \<and> copied m um da sa p (snd x)" "p + c \<le> len" "c \<le> 4096"
      "\<forall>j < c. slice_addr ps (off + p + j) = slice_addr ps (off + p) + of_nat j" for p c x
  proof -
    have "inj_on da {..<p + c}" unfolding da_def using that(2) len by (intro inj_offsets) simp
    then have "copied m um da sa (p + c) (\<lambda>a. if unat (a - da p) < c then m (slice_addr ps (off + p) + (a - da p)) else snd x a)"
      using that by (intro copied_step) (auto simp: da_def sa_def add.assoc)
    moreover have "x = (m, snd x)" using that(1) by (metis prod.collapse)
    then have "user_copy x (da p) src n = ((m, \<lambda>a. if unat (a - da p) < n then m (src + (a - da p)) else snd x a), REND_SUCCESS)" for src n
      using law unfolding copies_to_user_def by metis
    ultimately show ?thesis unfolding page_slice_emit_to_user_def da_def by simp
  qed
  have z: "fst (m, um) = m \<and> copied m um da sa 0 (snd (m, um))" by (simp add: copied_def)
  let ?I = "\<lambda>p x. fst x = m \<and> copied m um da sa p (snd x)"
  have "if mapped_range ps (off + 0) (len - 0)
     then \<exists>x'. copy_loop ps off len (page_slice_emit_to_user user_copy va) 0 ((m, um), 0) = ((x', len), REND_SUCCESS) \<and> ?I len x'
     else \<exists>x' p'. copy_loop ps off len (page_slice_emit_to_user user_copy va) 0 ((m, um), 0) = ((x', p'), E_RENDEZVOS) \<and> p' < len
            \<and> ?I p' x'"
    by (rule copy_loop_inv [where Inv = ?I, OF _ z le0]) (rule step)
  then show ?thesis by (simp only: add_0_right diff_zero)
qed

text \<open>Copying a range of a slice to user memory, given a kernel-to-user copy that copies: the calls cover
  the target range exactly once and in order, so that every user byte is the byte of the slice at its position,
  all other user bytes and kernel memory are unchanged, and a hole or a range beyond the slice is refused.\<close>

theorem page_slice_copy_to_user_exact:
  assumes "copies_to_user user_copy" "0 < len" "len \<le> 2 ^ 64"
  shows "\<exists>m' um' err. page_slice_copy_to_user user_copy True va (Some s) off len (m, um) = ((m', um'), err) \<and> m' = m
    \<and> (if off + len > size s then err = E_IN_PARAM \<and> um' = um
       else if mapped_range (Some s) off len
         then err = REND_SUCCESS \<and> copied m um (\<lambda>i. va + of_nat i) (\<lambda>i. slice_addr (Some s) (off + i)) len um'
       else err = E_RENDEZVOS)"
proof (cases "off + len > size s \<or> \<not> mapped_range (Some s) off len")
  case True
  then show ?thesis using user_loop [OF assms(1,3), where ps = "Some s" and off = off and m = m and um = um and va = va] assms(2)
    by (auto simp: page_slice_copy_to_user_def copy_from_mapped_range)
next
  case False
  then show ?thesis using user_loop [OF assms(1,3), where ps = "Some s" and off = off and m = m and um = um and va = va] assms(2)
    by (auto simp: page_slice_copy_to_user_def copy_from_mapped_range)
qed

text \<open>Slice to slice.\<close>

lemma memcpy_copied:
  assumes "copied m m da sa p m'" "c \<le> 4096" "inj_on da {..<p + c}"
    and "\<And>j. j < c \<Longrightarrow> da (p + j) = da p + of_nat j" "\<And>j. j < c \<Longrightarrow> sa (p + j) = sa p + of_nat j"
    and "\<And>i j. i < p + c \<Longrightarrow> j < p + c \<Longrightarrow> sa i \<noteq> da j"
  shows "copied m m da sa (p + c) (snd (memcpy (da p) (sa p) (of_nat c) m'))"
proof -
  have "m' (sa (p + j)) = m (sa (p + j))" if "j < c" for j
    using assms(1,6) that by (auto simp: copied_def)
  moreover have "apart (da p) (sa p) c" unfolding apart_def
  proof (intro conjI allI impI)
    fix i j assume ij: "i < c" "j < c"
    then show "da p + of_nat i \<noteq> sa p + of_nat j"
      using assms(6) [of "p + j" "p + i"] assms(4) [of i] assms(5) [of j] by auto
  qed (use assms(2) in simp)
  ultimately show ?thesis unfolding memcpy_chunk [OF \<open>apart (da p) (sa p) c\<close> assms(2)] copy_bytes_def
    by (intro copied_step [OF assms(1-4)]) (simp_all add: assms(5))
qed

lemma slice_copy_loop_inv:
  fixes s d :: "page_slice option" and so dd :: nat
  defines "da \<equiv> \<lambda>i. slice_addr d (dd + i)" and "sa \<equiv> \<lambda>i. slice_addr s (so + i)"
  assumes "inj_on da {..<len}" "\<And>i j. i < len \<Longrightarrow> j < len \<Longrightarrow> sa i \<noteq> da j"
    and "copied m m da sa p m'" "p \<le> len"
  shows "if mapped_range s (so + p) (len - p) \<and> mapped_range d (dd + p) (len - p)
     then \<exists>x. slice_copy_loop d dd s so len p m' = (x, REND_SUCCESS) \<and> copied m m da sa len x
     else \<exists>x p'. slice_copy_loop d dd s so len p m' = (x, E_RENDEZVOS) \<and> p' < len \<and> copied m m da sa p' x"
  using assms(5,6)
proof (induction "len - p" arbitrary: p m' rule: less_induct)
  case less
  show ?case
  proof (cases "p < len")
    case False
    then show ?thesis using less.prems by (simp add: slice_copy_loop.simps mapped_range_def)
  next
    case True
    show ?thesis
    proof (cases "page_slice_lookup s (BYTE_TO_PGOFF (so + p)) \<noteq> None \<and> page_slice_lookup d (BYTE_TO_PGOFF (dd + p)) \<noteq> None")
      case False
      then have "\<not> (mapped_range s (so + p) (len - p) \<and> mapped_range d (dd + p) (len - p))"
        using True by (auto simp: mapped_range_def intro!: exI [of _ 0])
      moreover have "slice_copy_loop d dd s so len p m' = (m', E_RENDEZVOS)"
        using False True by (auto simp: slice_copy_loop.simps [of d dd s so len p] Let_def split: option.split)
      ultimately show ?thesis using True less.prems by auto
    next
      case mapped: True
      then obtain e1 e2 where e: "page_slice_lookup s (BYTE_TO_PGOFF (so + p)) = Some e1"
        "page_slice_lookup d (BYTE_TO_PGOFF (dd + p)) = Some e2" by auto
      define c where "c = min (min (4096 - IN_PAGE_OFF (so + p)) (4096 - IN_PAGE_OFF (dd + p))) (len - p)"
      have c: "0 < c" "p + c \<le> len" "IN_PAGE_OFF (so + p) + c \<le> 4096" "IN_PAGE_OFF (dd + p) + c \<le> 4096" "c \<le> len - p"
        using True less_imp_le [OF IN_PAGE_OFF_less(1) [of "so + p"]] less_imp_le [OF IN_PAGE_OFF_less(1) [of "dd + p"]]
        by (auto simp: c_def min_def)
      have "inj_on da {..<p + c}" using assms(3) c(2) by (auto intro: inj_on_subset)
      then have cp: "copied m m da sa (p + c) (snd (memcpy (da p) (sa p) (of_nat c) m'))"
        using less.prems(1) c assms(4) slice_addr_chunk [of "so + p" _ s] slice_addr_chunk [of "dd + p" _ d]
        by (intro memcpy_copied) (auto simp: da_def sa_def add.assoc)
      have eq: "slice_copy_loop d dd s so len p m' = slice_copy_loop d dd s so len (p + c) (snd (memcpy (da p) (sa p) (of_nat c) m'))"
        using e True by (subst slice_copy_loop.simps) (simp add: Let_def c_def da_def sa_def slice_addr_def min_def)
      have "len - (p + c) < len - p" using c True by simp
      from less.hyps [OF this cp c(2)] show ?thesis
        using mapped_range_chunk [OF c(3,1,5)] mapped_range_chunk [OF c(4,1,5)] mapped unfolding eq by (simp add: add.assoc)
    qed
  qed
qed

text \<open>Copying between mapped ranges of two slices whose bytes are disjoint: ranges beyond either slice and
  overlapping ranges of one slice are refused and change nothing, a hole on either side gives the error, and
  otherwise every destination byte is the source byte at its position and no other byte changes, whatever the
  alignment of the two ranges.\<close>

theorem page_slice_copy_to_slice_exact:
  assumes "0 < len" "inj_on (\<lambda>i. slice_addr (Some d) (dd + i)) {..<len}"
    and "\<And>i j. i < len \<Longrightarrow> j < len \<Longrightarrow> slice_addr (Some s) (so + i) \<noteq> slice_addr (Some d) (dd + j)"
  shows "\<exists>m' err. page_slice_copy_to_slice same (Some d) dd (Some s) so len m = (m', err)
    \<and> (if same \<and> page_slice_byte_ranges_overlap so dd len \<or> dd + len > size d \<or> so + len > size s then err = E_IN_PARAM \<and> m' = m
       else if mapped_range (Some s) so len \<and> mapped_range (Some d) dd len
         then err = REND_SUCCESS \<and> copied m m (\<lambda>i. slice_addr (Some d) (dd + i)) (\<lambda>i. slice_addr (Some s) (so + i)) len m'
       else err = E_RENDEZVOS)"
proof -
  have z: "copied m m (\<lambda>i. slice_addr (Some d) (dd + i)) (\<lambda>i. slice_addr (Some s) (so + i)) 0 m" by (simp add: copied_def)
  let ?bad = "same \<and> page_slice_byte_ranges_overlap so dd len \<or> dd + len > size d \<or> so + len > size s"
  have eq: "page_slice_copy_to_slice same (Some d) dd (Some s) so len m =
     (if ?bad then (m, E_IN_PARAM) else slice_copy_loop (Some d) dd (Some s) so len 0 m)"
    using assms(1) by (auto simp: page_slice_copy_to_slice_def Let_def)
  note L = slice_copy_loop_inv [OF assms(2,3) z, simplified]
  show ?thesis
  proof (cases ?bad)
    case True
    then show ?thesis unfolding eq by (simp only: if_True simp_thms) blast
  next
    case False
    then show ?thesis unfolding eq using L by (auto split: if_splits)
  qed
qed

section \<open>The walk of the clone\<close>

text \<open>The recursive walk that the loop implements.\<close>

fun visit_page ::
  "(nat \<Rightarrow> page_slice_entry \<Rightarrow> 's \<Rightarrow> 's \<times> error_t) \<Rightarrow> nat \<Rightarrow> nat \<Rightarrow> ps_page \<Rightarrow> 's \<Rightarrow> 's \<times> error_t" where
  "visit_page v (Suc 0) b (LeafPage g) s = ps_clone_copy_leaf_page v b g s"
| "visit_page v (Suc (Suc n)) b (IndexPage f) s =
     fold_err (\<lambda>i s. case f i of E_None \<Rightarrow> (s, REND_SUCCESS)
                     | Ent h l p \<Rightarrow> visit_page v (Suc n) (b + i * capacity (Suc n)) p s) [0..<INDEX_CAPACITY] s"
| "visit_page v _ b _ s = (s, REND_SUCCESS)"

lemma fold_err_append:
  "fold_err f (xs @ ys) s = (case fold_err f xs s of (s, e) \<Rightarrow> if e = REND_SUCCESS then fold_err f ys s else (s, e))"
  by (induction xs arbitrary: s) (auto split: prod.split)

lemma fold_err_cong: "(\<And>x s. x \<in> set xs \<Longrightarrow> f x s = g x s) \<Longrightarrow> fold_err f xs s = fold_err g xs s"
  by (induction xs arbitrary: s) (auto split: prod.split)

lemma fold_err_map: "fold_err f (map h xs) s = fold_err (\<lambda>x. f (h x)) xs s"
  by (induction xs arbitrary: s) (auto split: prod.split)

lemma fold_err_skip: "(\<And>x s. x \<in> set xs \<Longrightarrow> f x s = (s, REND_SUCCESS)) \<Longrightarrow> fold_err f xs s = (s, REND_SUCCESS)"
  by (induction xs arbitrary: s) auto

lemma fold_err_blocks:
  "fold_err (\<lambda>i. fold_err (\<lambda>y. F (i * c + y)) [0..<c]) [0..<n] s = fold_err F [0..<n * c] s"
proof (induction n arbitrary: s)
  case (Suc n)
  have "[0..<n * c + c] = [0..<n * c] @ [n * c..<n * c + c]" by (rule upt_add_eq_append) simp
  moreover have "[n * c..<n * c + c] = map (\<lambda>y. n * c + y) [0..<c]"
    using map_add_upt [of "n * c" c] by (simp add: add.commute)
  ultimately show ?case using Suc
    by (simp add: fold_err_append fold_err_map add.commute split: prod.split)
qed simp

lemma stride_capacity: "2 \<le> h \<Longrightarrow> INDEX_SLOT_STRIDE h = capacity (h - 1)"
proof -
  assume "2 \<le> h"
  then obtain n where "h = Suc (Suc n)" by (metis add_2_eq_Suc le_Suc_ex)
  moreover have "(2::nat) ^ (9 * n) = 512 ^ n" by (simp add: power_mult)
  ultimately show ?thesis by (simp add: INDEX_SLOT_STRIDE_def capacity_def LEAF_CAPACITY_def)
qed

text \<open>Running the loop from a frame finishes the page of the frame, if it runs each slot of it.\<close>

lemma clone_loop_slots:
  assumes slot: "\<And>j st. j < INDEX_CAPACITY \<Longrightarrow> clone_loop h v ((j, f, b) # rest) st =
     (case act j st of (s, e) \<Rightarrow> if e = REND_SUCCESS then clone_loop h v ((Suc j, f, b) # rest) s else Some (s, e))"
    and "j \<le> INDEX_CAPACITY"
  shows "clone_loop h v ((j, f, b) # rest) st =
    (case fold_err act [j..<INDEX_CAPACITY] st of
       (s, e) \<Rightarrow> if e = REND_SUCCESS then clone_loop h v ((INDEX_CAPACITY, f, b) # rest) s else Some (s, e))"
  using assms(2)
proof (induction "INDEX_CAPACITY - j" arbitrary: j st)
  case (Suc k)
  then have j: "j < INDEX_CAPACITY" "[j..<INDEX_CAPACITY] = j # [Suc j..<INDEX_CAPACITY]" "k = INDEX_CAPACITY - Suc j"
    by (simp_all add: upt_conv_Cons)
  show ?case using slot [OF j(1)] Suc(1) [OF j(3)] j by (simp add: split_beta)
qed simp

lemma clone_loop_page:
  assumes "wf_page (Suc (Suc n)) (IndexPage f)" "Suc (Suc n) + length rest = h" "h \<le> 4" "j \<le> INDEX_CAPACITY"
  shows "clone_loop h v ((j, f, b) # rest) st =
    (case fold_err (\<lambda>i s. case f i of E_None \<Rightarrow> (s, REND_SUCCESS)
                     | Ent t l p \<Rightarrow> visit_page v (Suc n) (b + i * capacity (Suc n)) p s) [j..<INDEX_CAPACITY] st of
       (s, e) \<Rightarrow> if e = REND_SUCCESS then clone_loop h v ((INDEX_CAPACITY, f, b) # rest) s else Some (s, e))"
  using assms
proof (induction n arbitrary: f b rest j st)
  case 0
  show ?case
  proof (rule clone_loop_slots [OF _ "0.prems"(4)])
    fix j st assume j: "j < INDEX_CAPACITY"
    have len: "length rest = h - 2" "\<not> length rest < h - 1 - 1" using "0.prems"(2) by auto
    have st: "INDEX_SLOT_STRIDE 2 = capacity (Suc 0)" using stride_capacity [of 2] by simp
    show "clone_loop h v ((j, f, b) # rest) st =
      (case (case f j of E_None \<Rightarrow> (st, REND_SUCCESS) | Ent t l p \<Rightarrow> visit_page v (Suc 0) (b + j * capacity (Suc 0)) p st) of
         (s, e) \<Rightarrow> if e = REND_SUCCESS then clone_loop h v ((Suc j, f, b) # rest) s else Some (s, e))"
    proof (cases "f j")
      case E_None
      then show ?thesis using j len by (subst clone_loop.simps) simp
    next
      case (Ent t l p)
      note w = wf_page_slot [OF "0.prems"(1) Ent]
      then obtain g where g: "p = LeafPage g" by (auto elim: wf_page_Suc_cases)
      have "points_to_leaf (f j)" using Ent w(2) by (simp add: points_to_leaf_def)
      then show ?thesis using j len Ent g st by (subst clone_loop.simps) (simp add: split_beta)
    qed
  qed
next
  case (Suc n)
  show ?case
  proof (rule clone_loop_slots [OF _ Suc.prems(4)])
    fix j st assume j: "j < INDEX_CAPACITY"
    have len: "length rest < h - 1 - 1" "h - length rest = Suc (Suc (Suc n))" using Suc.prems(2) by auto
    let ?b = "b + j * capacity (Suc (Suc n))"
    show "clone_loop h v ((j, f, b) # rest) st =
      (case (case f j of E_None \<Rightarrow> (st, REND_SUCCESS) | Ent t l p \<Rightarrow> visit_page v (Suc (Suc n)) ?b p st) of
         (s, e) \<Rightarrow> if e = REND_SUCCESS then clone_loop h v ((Suc j, f, b) # rest) s else Some (s, e))"
    proof (cases "f j")
      case E_None
      then show ?thesis using j len by (subst clone_loop.simps) simp
    next
      case (Ent t l p)
      note w = wf_page_slot [OF Suc.prems(1) Ent]
      then obtain g where g: "p = IndexPage g" by (auto elim: wf_page_Suc_cases)
      have "points_to_index (f j)" using Ent w(2) Suc.prems(2,3) by (auto simp: points_to_index_def)
      moreover have "INDEX_SLOT_STRIDE (h - length rest) = capacity (Suc (Suc n))"
        using stride_capacity [of "Suc (Suc (Suc n))"] len(2) by simp
      ultimately have "clone_loop h v ((j, f, b) # rest) st = clone_loop h v ((0, g, ?b) # (j, f, b) # rest) st"
        using j len(1) Ent g by (subst clone_loop.simps) simp
      moreover have "clone_loop h v ((INDEX_CAPACITY, g, x) # (j, f, b) # rest) s = clone_loop h v ((Suc j, f, b) # rest) s" for x s
        by (subst clone_loop.simps) simp
      ultimately show ?thesis
        using Suc.IH [of g "(j, f, b) # rest" 0 ?b st] w(4) g Suc.prems(2,3) Ent by (simp add: split_beta)
    qed
  qed
qed

lemma visit_page_order:
  assumes v: "\<And>x e s. \<not> valid_entry e \<Longrightarrow> v x e s = (s, REND_SUCCESS)"
    and "wf_page n p"
  shows "visit_page v n b p s = fold_err (\<lambda>x. v (b + x) (page_get n p x)) [0..<capacity n] s"
  using assms(2)
proof (induction n p arbitrary: b s rule: wf_page.induct)
  case (1 g)
  have "LEAF_IDX x = x" if "x < 128" for x using that by (simp add: LEAF_IDX_def)
  then show ?case by (auto simp: ps_clone_copy_leaf_page_def capacity_def LEAF_CAPACITY_def intro!: fold_err_cong)
next
  case (2 m f)
  let ?C = "capacity (Suc m)"
  let ?F = "\<lambda>x. v (b + x) (page_get (Suc (Suc m)) (IndexPage f) x)"
  have blk: "(case f i of E_None \<Rightarrow> (s, REND_SUCCESS) | Ent h l p \<Rightarrow> visit_page v (Suc m) (b + i * ?C) p s)
      = fold_err (\<lambda>y. ?F (i * ?C + y)) [0..<?C] s" if i: "i < 512" for i s
  proof (cases "f i")
    case E_None
    have "fold_err (\<lambda>y. ?F (i * ?C + y)) [0..<?C] s = (s, REND_SUCCESS)"
      by (rule fold_err_skip, rule v) (simp add: INDEX_ENTRY_block [OF _ i] E_None)
    then show ?thesis using E_None by simp
  next
    case (Ent h l p)
    note w = wf_page_slot [OF 2(2) Ent]
    have "visit_page v (Suc m) (b + i * ?C) p s = fold_err (\<lambda>x. v (b + i * ?C + x) (page_get (Suc m) p x)) [0..<?C] s"
      using 2(1) [of i h l p] Ent w(4) by simp
    also have "\<dots> = fold_err (\<lambda>y. ?F (i * ?C + y)) [0..<?C] s"
      by (rule fold_err_cong) (simp add: INDEX_ENTRY_block [OF _ i] Ent page_get_shift add.assoc)
    finally show ?thesis using Ent by simp
  qed
  have c: "capacity (Suc (Suc m)) = 512 * ?C" by (simp add: capacity_Suc)
  have "visit_page v (Suc (Suc m)) b (IndexPage f) s = fold_err (\<lambda>i. fold_err (\<lambda>y. ?F (i * ?C + y)) [0..<?C]) [0..<512] s"
    unfolding visit_page.simps INDEX_CAPACITY_def by (rule fold_err_cong) (rule blk, simp)
  also have "\<dots> = fold_err ?F [0..<512 * ?C] s" by (rule fold_err_blocks)
  finally show ?case unfolding c .
qed auto

text \<open>The whole walk ends, and does what a loop over all page offsets of the tree would do.\<close>

lemma walk_mapped_fold:
  assumes "tree_ok (root src)" "\<And>x e s. \<not> valid_entry e \<Longrightarrow> v x e s = (s, REND_SUCCESS)"
  shows "ps_clone_walk_mapped v src st = Some (fold_err (\<lambda>x. v x (slice_map src x)) [0..<capacity (stored_height src)] st)"
proof (cases "root src")
  case E_None
  then have "slice_map src x = empty_entry" for x by (simp add: slice_map_def)
  then have "fold_err (\<lambda>x. v x (slice_map src x)) [0..<capacity (stored_height src)] st = (st, REND_SUCCESS)"
    by (intro fold_err_skip) (simp add: assms(2))
  then show ?thesis using E_None by (simp add: ps_clone_walk_mapped_def root_empty_def)
next
  case (Ent h l p)
  then have h: "1 \<le> h" "h \<le> 4" "wf_page h p" using assms(1) by auto
  have sh: "stored_height src = h" using Ent by (simp add: stored_height_def)
  have V: "visit_page v h 0 p st = fold_err (\<lambda>x. v x (slice_map src x)) [0..<capacity h] st"
    using visit_page_order [where b = 0 and s = st, OF assms(2) h(3)] Ent
    by (auto simp: slice_map_def intro!: fold_err_cong)
  show ?thesis using h(3)
  proof (cases rule: wf_page_Suc_cases)
    case (leaf g)
    then show ?thesis using V Ent sh
      by (simp add: ps_clone_walk_mapped_def root_empty_def root_is_leaf_def)
  next
    case (index m f)
    have fin: "clone_loop h v [(INDEX_CAPACITY, f, 0)] s = Some (s, REND_SUCCESS)" for s
      by (subst clone_loop.simps) simp
    obtain s e where "visit_page v h 0 p st = (s, e)" by fastforce
    then have "clone_loop h v [(0, f, 0)] st = Some (visit_page v h 0 p st)"
      using clone_loop_page [of m f "[]" h 0 v 0 st] h index fin by simp
    then show ?thesis using V Ent sh index h
      by (simp add: ps_clone_walk_mapped_def root_empty_def root_is_leaf_def root_is_index_def)
  qed
qed

text \<open>The allocation counter never goes back.\<close>

lemma allocs_mono_alloc: "allocs s \<le> allocs (fst (m_alloc mem s))"
  by (simp add: m_alloc_def)

lemma allocs_raise_loop: "allocs s \<le> allocs (fst (raise_loop mem target s))"
proof (induction mem target s rule: raise_loop.induct)
  case (1 mem target s)
  have "allocs (raise_once a) = allocs a" for a by (simp add: raise_once_def Let_def)
  then show ?case using 1 by (subst raise_loop.simps) (auto simp: m_alloc_def split: if_splits intro: Suc_leD)
qed

lemma allocs_get_child: "allocs s \<le> allocs (fst (get_child mem create q i e s))"
  by (simp add: get_child_def m_alloc_def new_child_def ps_entry_live_inc_def)

lemma allocs_descend_loop: "allocs s \<le> allocs (fst (descend_loop mem create want x L h q paths s))"
proof (induction L arbitrary: h q paths s)
  case (Suc L)
  let ?e = "Ent h 0 (IndexPage (\<lambda>_. E_None))"
  obtain a c where c: "get_child mem create q (INDEX_ENTRY x (Suc L)) ?e s = (a, c)" by fastforce
  then have "allocs s \<le> allocs a" using allocs_get_child [of s mem create q "INDEX_ENTRY x (Suc L)" ?e] by simp
  then show ?case using Suc [of a] c by (auto simp: Let_def split: option.split intro: order_trans)
qed simp

lemma allocs_descend: "allocs s \<le> allocs (fst (ps_descend_pgoff mem create want x s))"
proof -
  have b: "allocs a \<le> allocs (fst (descend_bottom mem create x h q paths a))" for a h q paths
    using allocs_get_child [of a mem create q "INDEX_ENTRY x 0" "Ent h 0 ps_alloc_leaf_page"]
    by (auto simp: descend_bottom_def Let_def split: option.split prod.split)
  obtain a c where c: "descend_loop mem create want x (stored_height s - 2) (stored_height s) [] (if want then [[]] else []) s = (a, c)"
    by fastforce
  then have "allocs s \<le> allocs a"
    using allocs_descend_loop [of s mem create want x "stored_height s - 2" "stored_height s" "[]" "if want then [[]] else []"] by simp
  then show ?thesis using b [of a] c
    by (auto simp: ps_descend_pgoff_def Let_def m_alloc_def split: sum.split prod.split intro: order_trans)
qed

lemma allocs_insert:
  assumes "page_slice_insert_page mem (Some s) x a fl = (Some t, err)"
  shows "allocs s \<le> allocs t"
proof -
  obtain b r where g: "ps_get_entry mem True x s = (b, r)" by fastforce
  obtain c e where c: "ps_raise_height mem (ps_required_height_for_pgoff x) s = (c, e)" by fastforce
  have "allocs s \<le> allocs c"
    using c allocs_raise_loop [of s mem "ps_required_height_for_pgoff x"]
    by (auto simp: ps_raise_height_def split: if_splits)
  then have "allocs s \<le> allocs b" using g c allocs_descend [of c mem True False x]
    by (auto simp: ps_get_entry_def split: if_splits)
  moreover have "allocs (bind_entry q x a fl b) = allocs b" for q
    by (simp add: bind_entry_def Let_def ps_entry_live_inc_def split: option.split)
  ultimately show ?thesis using assms g by (auto simp: Let_def split: if_splits sum.splits prod.splits)
qed

lemma slice_inv_frame [simp]:
  "slice_inv (s\<lparr>allocs := n\<rparr>) \<longleftrightarrow> slice_inv s" "slice_inv (s\<lparr>freed := fr\<rparr>) \<longleftrightarrow> slice_inv s"
  "page_count (s\<lparr>allocs := n\<rparr>) = page_count s" "page_count (s\<lparr>freed := fr\<rparr>) = page_count s"
  by (simp_all add: slice_inv_def page_count_def)

lemma lookup_frame:
  "slice_inv s \<Longrightarrow> page_slice_lookup (Some (s\<lparr>allocs := n\<rparr>)) = page_slice_lookup (Some s)"
  "slice_inv s \<Longrightarrow> page_slice_lookup (Some (s\<lparr>freed := fr\<rparr>)) = page_slice_lookup (Some s)"
  by (auto simp: lookup_map fun_eq_iff simp del: page_slice_lookup.simps)

section \<open>Correctness of the clone\<close>

definition in_page :: "u64 \<Rightarrow> u64 \<Rightarrow> bool" where
  "in_page p a \<longleftrightarrow> unat (a - p) < 4096"

text \<open>What the clone relies on of the allocator: the blocks it grants are not null, do not overlap each other, and do not
  overlap the pages of the source.\<close>

definition fresh_pages :: "(nat \<Rightarrow> bool) \<Rightarrow> (nat \<Rightarrow> u64) \<Rightarrow> page_slice \<Rightarrow> bool" where
  "fresh_pages mem pg src \<longleftrightarrow> (\<forall>i. mem i \<longrightarrow> pg i \<noteq> 0)
     \<and> (\<forall>i j a. mem i \<longrightarrow> mem j \<longrightarrow> in_page (pg i) a \<longrightarrow> in_page (pg j) a \<longrightarrow> i = j)
     \<and> (\<forall>x e i a. page_slice_lookup (Some src) x = Some e \<longrightarrow> mem i \<longrightarrow> in_page (kva e) a \<longrightarrow> \<not> in_page (pg i) a)"

definition clone_entry :: "(nat \<Rightarrow> bool) \<Rightarrow> bytes \<Rightarrow> (nat \<Rightarrow> u64) \<Rightarrow> page_slice_entry \<Rightarrow> page_slice \<Rightarrow> bytes \<Rightarrow> page_slice_entry \<Rightarrow> bool" where
  "clone_entry mem m0 pg e d m e' \<longleftrightarrow> (\<exists>i < allocs d. mem i \<and> e' = \<lparr>kva = pg i, flags = (flags e AND NOT FLAG_PIN) OR FLAG_VALID\<rparr>
     \<and> (\<forall>b < 4096. m (pg i + of_nat b) = m0 (kva e + of_nat b)))"

definition clone_at :: "(nat \<Rightarrow> bool) \<Rightarrow> page_slice \<Rightarrow> bytes \<Rightarrow> (nat \<Rightarrow> u64) \<Rightarrow> nat \<Rightarrow> page_slice \<Rightarrow> bytes \<Rightarrow> nat \<Rightarrow> bool" where
  "clone_at mem src m0 pg k d m x \<longleftrightarrow>
     (case page_slice_lookup (Some src) x of
        None \<Rightarrow> page_slice_lookup (Some d) x = None
      | Some e \<Rightarrow> if x < k then \<exists>e'. page_slice_lookup (Some d) x = Some e' \<and> clone_entry mem m0 pg e d m e'
                  else page_slice_lookup (Some d) x = None)"

definition clone_inv :: "(nat \<Rightarrow> bool) \<Rightarrow> page_slice \<Rightarrow> bytes \<Rightarrow> (nat \<Rightarrow> u64) \<Rightarrow> nat \<Rightarrow> page_slice \<times> bytes \<Rightarrow> bool" where
  "clone_inv mem src m0 pg k st \<longleftrightarrow> (case st of (d, m) \<Rightarrow> slice_inv d \<and> size d = size src
     \<and> (\<forall>x. clone_at mem src m0 pg k d m x)
     \<and> (\<forall>a. (\<forall>i < allocs d. mem i \<longrightarrow> \<not> in_page (pg i) a) \<longrightarrow> m a = m0 a))"

lemma in_page_offset: "b < 4096 \<Longrightarrow> in_page p (p + of_nat b)"
proof -
  assume "b < 4096"
  then have "unat (of_nat b :: u64) = b" by (intro unat_of_nat_small) simp
  then show ?thesis using \<open>b < 4096\<close> by (simp add: in_page_def)
qed

lemma memcpy_page: "apart d s 4096 \<Longrightarrow> b < 4096 \<Longrightarrow> snd (memcpy d s 4096 m) (d + of_nat b) = m (s + of_nat b)"
  using in_page_offset [of b d] memcpy_chunk [of d s 4096 m] by (simp add: copy_bytes_def in_page_def)

lemma memcpy_page_frame: "apart d s 4096 \<Longrightarrow> \<not> in_page d a \<Longrightarrow> snd (memcpy d s 4096 m) a = m a"
  using memcpy_chunk [of d s 4096 m] by (simp add: copy_bytes_def in_page_def)

lemma clone_entry_later:
  assumes "clone_entry mem m0 pg e d m e'" "allocs d \<le> allocs d'" "\<And>i b. i < allocs d \<Longrightarrow> mem i \<Longrightarrow> b < 4096 \<Longrightarrow> m' (pg i + of_nat b) = m (pg i + of_nat b)"
  shows "clone_entry mem m0 pg e d' m' e'"
  using assms unfolding clone_entry_def by (metis order_less_le_trans)

text \<open>Copying one page into a fresh block and binding it.\<close>

lemma clone_step_copied:
  assumes inv: "clone_inv mem src m0 pg k (d, m)" and fresh: "fresh_pages mem pg src"
    and e: "page_slice_lookup (Some src) k = Some e" and g: "mem (allocs d)"
    and L: "page_slice_lookup (Some t) = (page_slice_lookup (Some d))
        (k \<mapsto> \<lparr>kva = pg (allocs d), flags = (flags e AND NOT FLAG_PIN) OR FLAG_VALID\<rparr>)"
    and al: "Suc (allocs d) \<le> allocs t" and t: "slice_inv t" "size t = size src"
  shows "clone_inv mem src m0 pg (Suc k) (t, snd (memcpy (pg (allocs d)) (kva e) 4096 m))"
proof -
  let ?i = "allocs d" and ?m = "snd (memcpy (pg (allocs d)) (kva e) 4096 m)"
  have "pg ?i + of_nat x \<noteq> kva e + of_nat y" if "x < 4096" "y < 4096" for x y
    using fresh e g in_page_offset [OF that(1), of "pg ?i"] in_page_offset [OF that(2), of "kva e"]
    unfolding fresh_pages_def by metis
  then have ap: "apart (pg ?i) (kva e) 4096" by (simp add: apart_def)
  have frame: "m a = m0 a" if "\<And>i. i < ?i \<Longrightarrow> mem i \<Longrightarrow> \<not> in_page (pg i) a" for a
    using inv that by (auto simp: clone_inv_def)
  have srcm: "m (kva e + of_nat b) = m0 (kva e + of_nat b)" if "b < 4096" for b
    using frame fresh e in_page_offset [OF that, of "kva e"] unfolding fresh_pages_def by metis
  have old: "?m (pg i + of_nat b) = m (pg i + of_nat b)" if "i < ?i" "mem i" "b < 4096" for i b
  proof (rule memcpy_page_frame [OF ap])
    show "\<not> in_page (pg ?i) (pg i + of_nat b)"
      using fresh in_page_offset [OF that(3), of "pg i"] that(1,2) g unfolding fresh_pages_def by (metis less_irrefl)
  qed
  have new: "clone_entry mem m0 pg e t ?m \<lparr>kva = pg ?i, flags = (flags e AND NOT FLAG_PIN) OR FLAG_VALID\<rparr>"
    unfolding clone_entry_def using al g srcm memcpy_page [OF ap] by (intro exI [of _ ?i]) auto
  have "clone_at mem src m0 pg (Suc k) t ?m x" for x
  proof (cases "x = k")
    case True
    then show ?thesis using new L e by (simp add: clone_at_def del: page_slice_lookup.simps)
  next
    case False
    have "clone_at mem src m0 pg k d m x" using inv by (simp add: clone_inv_def)
    moreover have "clone_entry mem m0 pg v d m e' \<Longrightarrow> clone_entry mem m0 pg v t ?m e'" for v e'
      using clone_entry_later [of mem m0 pg v d m e' t ?m] al old by simp
    ultimately show ?thesis using False L
      by (auto simp: clone_at_def less_Suc_eq split: option.splits simp del: page_slice_lookup.simps)
  qed
  moreover have "?m a = m0 a" if "\<And>i. i < allocs t \<Longrightarrow> mem i \<Longrightarrow> \<not> in_page (pg i) a" for a
    using frame [of a] that al g memcpy_page_frame [OF ap, of a] by simp
  ultimately show ?thesis using t by (auto simp: clone_inv_def)
qed

lemma clone_step:
  assumes inv: "clone_inv mem src m0 pg k (d, m)" and fresh: "fresh_pages mem pg src" and src: "slice_inv src"
    and visit: "ps_clone_copy_leaf_entry mem pg k (slice_map src k) (d, m) = ((d', m'), err)"
  shows "allocs d \<le> allocs d' \<and> (err = REND_SUCCESS \<and> clone_inv mem src m0 pg (Suc k) (d', m')
      \<or> err = E_REND_NO_MEM \<and> slice_inv d' \<and> (\<exists>i \<ge> allocs d. \<not> mem i))"
proof (cases "page_slice_lookup (Some src) k")
  case None
  then have "\<not> valid_entry (slice_map src k)" using lookup_spec [OF src, of k] by (auto split: if_splits)
  then have "d' = d" "m' = m" "err = REND_SUCCESS" using visit by (auto simp: ps_clone_copy_leaf_entry_def)
  moreover have "clone_at mem src m0 pg k d m x \<Longrightarrow> clone_at mem src m0 pg (Suc k) d m x" for x
    using None by (cases "x = k") (auto simp: clone_at_def less_Suc_eq split: option.splits simp del: page_slice_lookup.simps)
  ultimately show ?thesis using inv by (auto simp: clone_inv_def)
next
  case (Some e)
  then have e: "slice_map src k = e" "valid_entry e" using lookup_spec [OF src, of k] by (auto split: if_splits)
  let ?i = "allocs d" and ?d = "d\<lparr>allocs := Suc (allocs d)\<rparr>"
  let ?m = "snd (memcpy (pg ?i) (kva e) 4096 m)" and ?fl = "flags e AND NOT FLAG_PIN"
  have d: "slice_inv d" "size d = size src" "page_slice_lookup (Some d) k = None"
    using inv Some by (auto simp: clone_inv_def clone_at_def dest!: spec [of _ k] simp del: page_slice_lookup.simps)
  show ?thesis
  proof (cases "mem ?i")
    case False
    then show ?thesis using visit e d(1) by (auto simp: ps_clone_copy_leaf_entry_def)
  next
    case True
    then have pg: "pg ?i \<noteq> 0" using fresh by (simp add: fresh_pages_def)
    obtain o' er where ins: "page_slice_insert_page mem (Some ?d) k (pg ?i) ?fl = (o', er)" by fastforce
    have "k < page_count src" using src e by (auto simp: slice_inv_def)
    then have k: "k < page_count ?d" using d(2) by (simp add: page_count_def)
    let ?new = "\<lparr>kva = pg ?i, flags = ?fl OR FLAG_VALID\<rparr>"
    obtain t where t: "o' = Some t" "slice_inv t" "size t = size ?d"
      "er = REND_SUCCESS \<and> page_slice_lookup (Some t) = (page_slice_lookup (Some d))(k \<mapsto> ?new)
       \<or> er = E_REND_NO_MEM \<and> (\<exists>i \<ge> Suc ?i. \<not> mem i)"
      using insert_cases [OF _ ins] d(1,3) k pg lookup_frame(1) [OF d(1), of "Suc ?i"]
      by (auto simp del: page_slice_lookup.simps page_slice_insert_page.simps)
    have al: "Suc ?i \<le> allocs t" using allocs_insert ins t(1) by fastforce
    show ?thesis
    proof (cases "er = REND_SUCCESS")
      case False
      then have "d' = t\<lparr>freed := freed t @ [pg ?i]\<rparr>" "err = er"
        using visit e True ins t(1) pg by (auto simp: ps_clone_copy_leaf_entry_def Let_def simp del: page_slice_insert_page.simps)
      then show ?thesis using False t(2,4) al by (auto dest: Suc_leD)
    next
      case er: True
      have res: "d' = t" "m' = ?m" "err = REND_SUCCESS"
        using visit e True ins t(1) pg er by (auto simp: ps_clone_copy_leaf_entry_def Let_def simp del: page_slice_insert_page.simps)
      have L: "page_slice_lookup (Some t) = (page_slice_lookup (Some d))(k \<mapsto> ?new)" using t(4) er by auto
      show ?thesis
        using clone_step_copied [OF inv fresh Some True L al t(2)] t(3) res al d(2) by simp
    qed
  qed
qed

lemma clone_fold:
  assumes "clone_inv mem src m0 pg k (d, m)" "fresh_pages mem pg src" "slice_inv src"
    and "fold_err (\<lambda>x. ps_clone_copy_leaf_entry mem pg x (slice_map src x)) [k..<k + n] (d, m) = ((d', m'), err)"
  shows "err = REND_SUCCESS \<and> clone_inv mem src m0 pg (k + n) (d', m')
      \<or> err = E_REND_NO_MEM \<and> slice_inv d' \<and> (\<exists>i \<ge> allocs d. \<not> mem i)"
  using assms(1,4)
proof (induction n arbitrary: k d m)
  case (Suc n)
  obtain d1 m1 e where v: "ps_clone_copy_leaf_entry mem pg k (slice_map src k) (d, m) = ((d1, m1), e)"
    by (metis prod.collapse)
  note S = clone_step [OF Suc.prems(1) assms(2,3) v]
  have u: "[k..<k + Suc n] = k # [Suc k..<Suc k + n]" by (simp add: upt_conv_Cons)
  show ?case
  proof (cases "e = REND_SUCCESS")
    case True
    then show ?thesis using Suc.IH [of "Suc k" d1 m1] S Suc.prems(2) v unfolding u by (auto intro: order_trans)
  next
    case False
    then show ?thesis using S Suc.prems(2) v unfolding u by auto
  qed
qed simp

lemma clone_visit_skip: "\<not> valid_entry e \<Longrightarrow> ps_clone_copy_leaf_entry mem pg x e s = (s, REND_SUCCESS)"
  by (simp add: ps_clone_copy_leaf_entry_def split: prod.split)

lemma lookup_capacity:
  assumes "slice_inv src" "page_slice_lookup (Some src) x = Some e"
  shows "x < capacity (stored_height src)"
proof -
  have "slice_map src x \<noteq> empty_entry" using lookup_spec [OF assms(1), of x] assms(2) by (auto split: if_splits)
  then show ?thesis by (auto simp: slice_map_def stored_height_def split: ps_ient.splits if_splits)
qed

lemma clone_filled:
  assumes "clone_inv mem src m pg (capacity (stored_height src)) (d, m')" "slice_inv src"
  shows "slice_inv d \<and> size d = size src
     \<and> (\<forall>x. page_slice_lookup (Some src) x = None \<longrightarrow> page_slice_lookup (Some d) x = None)
     \<and> (\<forall>x e. page_slice_lookup (Some src) x = Some e \<longrightarrow>
          (\<exists>i. mem i \<and> page_slice_lookup (Some d) x = Some \<lparr>kva = pg i, flags = (flags e AND NOT FLAG_PIN) OR FLAG_VALID\<rparr>
             \<and> (\<forall>b < 4096. m' (pg i + of_nat b) = m (kva e + of_nat b))))
     \<and> (\<forall>a. (\<forall>i. mem i \<longrightarrow> \<not> in_page (pg i) a) \<longrightarrow> m' a = m a)"
proof -
  let ?n = "capacity (stored_height src)"
  have I: "slice_inv d" "size d = size src" "clone_at mem src m pg ?n d m' x"
    "(\<forall>i < allocs d. mem i \<longrightarrow> \<not> in_page (pg i) a) \<Longrightarrow> m' a = m a" for x a
    using assms(1) by (auto simp: clone_inv_def)
  have "\<exists>i. mem i \<and> page_slice_lookup (Some d) x = Some \<lparr>kva = pg i, flags = (flags e AND NOT FLAG_PIN) OR FLAG_VALID\<rparr>
      \<and> (\<forall>b < 4096. m' (pg i + of_nat b) = m (kva e + of_nat b))" if "page_slice_lookup (Some src) x = Some e" for x e
    using I(3) [of x] lookup_capacity [OF assms(2) that] that
    by (auto simp: clone_at_def clone_entry_def simp del: page_slice_lookup.simps)
  moreover have "page_slice_lookup (Some src) x = None \<Longrightarrow> page_slice_lookup (Some d) x = None" for x
    using I(3) [of x] by (simp add: clone_at_def del: page_slice_lookup.simps)
  ultimately show ?thesis using I(1,2,4) by blast
qed


section \<open>Examples\<close>

lemma addr_sum: "a + i < 2 ^ 64 \<Longrightarrow> unat ((of_nat a :: u64) + of_nat i) = a + i"
  using unat_of_nat_small [of "a + i", where 'a = 64] by simp

lemma copiedD: "copied ms m da sa p m' \<Longrightarrow> i < p \<Longrightarrow> m' (da i) = ms (sa i)"
  by (simp add: copied_def)

lemma slice1_addr: "i < 4096 \<Longrightarrow> slice_addr (Some slice1) (532480 + i) = 4096 + of_nat i"
  using slice_addr_chunk [of 532480 i "Some slice1"]
  by (simp add: slice_addr_def BYTE_TO_PGOFF_def IN_PAGE_OFF_def slice1_facts del: page_slice_lookup.simps)

lemma slice1_mapped: "off + len \<le> 4096 \<Longrightarrow> mapped_range (Some slice1) (532480 + off) len"
  using same_page(1) [of 532480]
  by (simp add: mapped_range_def BYTE_TO_PGOFF_def IN_PAGE_OFF_def slice1_facts add.assoc del: page_slice_lookup.simps)

lemma slice1_size: "size slice1 = 600000"
  using insert_cases [OF slice0_inv slice1_facts(1)] by (auto simp: slice0_def)

lemma offset_apart: "a + i < 2 ^ 64 \<Longrightarrow> b + j < 2 ^ 64 \<Longrightarrow> a + i \<noteq> b + j \<Longrightarrow> (of_nat a :: u64) + of_nat i \<noteq> of_nat b + of_nat j"
  using addr_sum by metis

theorem page_slice_copy_to_buffer_exact_witness:
  "fst (page_slice_copy_to_buffer (Some slice1) 532480 65536 16 (\<lambda>a. ucast a)) 65539 = 3
   \<and> snd (page_slice_copy_to_buffer (Some slice1) 532480 65536 16 (\<lambda>a. ucast a)) = REND_SUCCESS"
proof -
  have "slice_addr (Some slice1) (532480 + i) \<noteq> 65536 + of_nat j" if "i < 16" "j < 16" for i j
    using offset_apart [of 4096 i 65536 j] slice1_addr [of i] that by simp
  from page_slice_copy_to_buffer_exact [where len = 16 and m = "\<lambda>a. ucast a", OF _ _ _ this]
  obtain m' where m': "page_slice_copy_to_buffer (Some slice1) 532480 65536 16 (\<lambda>a. ucast a) = (m', REND_SUCCESS)"
    "copied (\<lambda>a. ucast a) (\<lambda>a. ucast a) (\<lambda>i. 65536 + of_nat i) (\<lambda>i. slice_addr (Some slice1) (532480 + i)) 16 m'"
    using slice1_mapped [of 0 16] by (auto simp: slice1_size)
  then have "m' (65536 + of_nat 3) = ucast (4096 + of_nat 3 :: u64)"
    using slice1_addr [of 3] copiedD [OF m'(2), of 3] by simp
  then show ?thesis using m'(1) by simp
qed

theorem page_slice_copy_to_slice_exact_witness:
  "fst (page_slice_copy_to_slice True (Some slice1) 532496 (Some slice1) 532480 16 (\<lambda>a. ucast a)) 4115 = 3
   \<and> snd (page_slice_copy_to_slice True (Some slice1) 532488 (Some slice1) 532480 16 (\<lambda>a. ucast a)) = E_IN_PARAM"
proof -
  have d: "slice_addr (Some slice1) (532496 + j) = of_nat 4112 + of_nat j" if "j < 16" for j
    using slice1_addr [of "16 + j"] that by simp
  have e: "slice_addr (Some slice1) (532488 + j) = of_nat 4104 + of_nat j" if "j < 16" for j
    using slice1_addr [of "8 + j"] that by simp
  have inj: "inj_on (\<lambda>i. slice_addr (Some slice1) (532496 + i)) {..<16}"
    using inj_offsets [of 16 "of_nat 4112"] d by (auto simp: inj_on_def)
  have "slice_addr (Some slice1) (532480 + i) \<noteq> slice_addr (Some slice1) (532496 + j)" if "i < 16" "j < 16" for i j
    using offset_apart [of 4096 i 4112 j] slice1_addr [of i] d [of j] that by simp
  from page_slice_copy_to_slice_exact [where len = 16 and same = True and m = "\<lambda>a. ucast a", OF _ inj this]
  obtain m' where m': "page_slice_copy_to_slice True (Some slice1) 532496 (Some slice1) 532480 16 (\<lambda>a. ucast a) = (m', REND_SUCCESS)"
    "copied (\<lambda>a. ucast a) (\<lambda>a. ucast a) (\<lambda>i. slice_addr (Some slice1) (532496 + i)) (\<lambda>i. slice_addr (Some slice1) (532480 + i)) 16 m'"
    using slice1_mapped [of 0 16] slice1_mapped [of 16 16] by (auto simp: slice1_size page_slice_byte_ranges_overlap_def)
  then have "m' (of_nat 4112 + of_nat 3) = ucast (4096 + of_nat 3 :: u64)"
    using slice1_addr [of 3] d [of 3] copiedD [OF m'(2), of 3] by simp
  moreover have "snd (page_slice_copy_to_slice True (Some slice1) 532488 (Some slice1) 532480 16 (\<lambda>a. ucast a)) = E_IN_PARAM"
    by (simp add: page_slice_copy_to_slice_def page_slice_byte_ranges_overlap_def)
  ultimately show ?thesis using m'(1) by simp
qed

definition plain_user_copy :: "bytes \<times> bytes \<Rightarrow> u64 \<Rightarrow> u64 \<Rightarrow> nat \<Rightarrow> (bytes \<times> bytes) \<times> error_t" where
  "plain_user_copy = (\<lambda>(m, um) va src n. ((m, \<lambda>a. if unat (a - va) < n then m (src + (a - va)) else um a), REND_SUCCESS))"

theorem page_slice_copy_to_user_exact_witness:
  "(case page_slice_copy_to_user plain_user_copy True 8 (Some slice1) 532480 16 (\<lambda>a. ucast a, \<lambda>_. 0) of
    ((m, um), err) \<Rightarrow> um 11 = 3 \<and> um 7 = 0 \<and> err = REND_SUCCESS)"
proof -
  have "copies_to_user plain_user_copy" by (simp add: copies_to_user_def plain_user_copy_def)
  from page_slice_copy_to_user_exact [OF this, of 16 8 slice1 532480 "\<lambda>a. ucast a" "\<lambda>_. 0"]
  obtain um where um: "page_slice_copy_to_user plain_user_copy True 8 (Some slice1) 532480 16 (\<lambda>a. ucast a, \<lambda>_. 0) = ((\<lambda>a. ucast a, um), REND_SUCCESS)"
    "copied (\<lambda>a. ucast a) (\<lambda>_. 0) (\<lambda>i. 8 + of_nat i) (\<lambda>i. slice_addr (Some slice1) (532480 + i)) 16 um"
    using slice1_mapped [of 0 16] by (auto simp: slice1_size)
  then have "um (8 + of_nat 3) = ucast (4096 + of_nat 3 :: u64)"
    using slice1_addr [of 3] copiedD [OF um(2), of 3] by simp
  moreover have "(7::u64) \<noteq> 8 + of_nat i" if "i < 16" for i using offset_apart [of 7 0 8 i] that by simp
  then have "um 7 = 0" using um(2) by (simp add: copied_def)
  ultimately show ?thesis using um(1) by simp
qed

lemma page_apart:
  assumes "in_page (of_nat p) a" "in_page (of_nat q) a" "p < 2 ^ 32" "q < 2 ^ 32"
  shows "p < q + 4096"
proof -
  have *: "\<exists>x < 4096. unat a = n + x" if n: "in_page (of_nat n) a" "n < 2 ^ 32" for n
  proof -
    define x where "x = unat (a - of_nat n)"
    have x: "x < 4096" using n(1) by (simp add: x_def in_page_def)
    moreover have "a = of_nat n + of_nat x" by (simp add: x_def)
    ultimately show ?thesis using addr_sum [of n x] n(2) by auto
  qed
  from * [OF assms(1,3)] * [OF assms(2,4)] show ?thesis by auto
qed

definition ten_blocks :: "nat \<Rightarrow> bool" where "ten_blocks i \<longleftrightarrow> i < 10"

definition block_addr :: "nat \<Rightarrow> u64" where "block_addr i = of_nat (65536 * Suc i)"

lemma slice1_fresh: "fresh_pages ten_blocks block_addr slice1"
proof -
  have nz: "block_addr i \<noteq> 0" if "i < 10" for i
  proof
    assume "block_addr i = 0"
    then have "unat (block_addr i) = 0" by (simp only: unat_0)
    moreover have "unat (block_addr i) = 65536 * Suc i"
      unfolding block_addr_def by (rule unat_of_nat_small) (use that in simp)
    ultimately show False by simp
  qed
  have one: "i = j" if "i < 10" "j < 10" "in_page (block_addr i) a" "in_page (block_addr j) a" for i j a
    using page_apart [of "65536 * Suc i" a "65536 * Suc j"] page_apart [of "65536 * Suc j" a "65536 * Suc i"] that
    unfolding block_addr_def by simp
  have two: False if "i < 10" "in_page 4096 a" "in_page (block_addr i) a" for i a
    using page_apart [of "65536 * Suc i" a 4096] that unfolding block_addr_def by simp
  show ?thesis unfolding fresh_pages_def slice1_facts(3) ten_blocks_def using nz one two by (auto split: if_splits)
qed


end
