(* ===== verification/Ebr.thy ===== *)
theory Ebr
  imports Rendezvos_Prelude
begin

text \<open>
  Epoch-based reclamation, \<^verbatim>\<open>kernel/task/ebr.c\<close>: readers bracket their accesses with \<^verbatim>\<open>ebr_enter\<close> and
  \<^verbatim>\<open>ebr_exit\<close>, and an object that was unlinked is retired into a table of its CPU and freed once no reader can
  still hold it.

  Every access to a variable that another CPU can see is one step, and the steps of all CPUs interleave freely,
  in a sequentially consistent memory; code between two such accesses touches only data of its own CPU. A function
  of this file runs on its CPU without being preempted by another caller of these functions. The clients are the
  actions \<open>Acquire\<close> (a reader finds a linked object), \<open>Unlink\<close> and the calls; they keep the contract that a reader
  drops its pointers with the outermost exit and that an object is unlinked before it is retired. The epoch is a
  64-bit counter. The watermark code is compiled out, and the log lines are left out.
\<close>

section \<open>State\<close>

type_synonym obj = nat

record ebr_retired_rec =
  ref :: obj
  retire_epoch :: nat
  used :: bool

datatype call = Enter | Retire obj

text \<open>What follows a call of \<^verbatim>\<open>ebr_try_reclaim\<close>: the return to the client, or the first or second search of a slot
  in \<^verbatim>\<open>ebr_retire_ref\<close>.\<close>

datatype after = Return | First obj nat | Second obj nat

datatype pc =
    Idle
  | EnsLoad call | EnsCas call | EnsStoreEpoch call | EnsStoreReady call | EnsSpin call
  | EnterInc | EnterLoad | EnterStoreEpoch nat | EnterStoreActive
  | ExitDec | ExitStore | ExitEpoch
  | ScanGlobal after | ScanFlag nat nat after | ScanEpoch nat nat after
  | Live nat after | Sweep nat nat after
  | RetireLoad obj | PlaceFirst obj nat | PlaceSecond obj nat

record cpu =
  pc :: pc
  active :: bool
  local_epoch :: nat
  depth :: int
  recs :: "ebr_retired_rec list"
  count :: int
  retire_ops :: nat
  reclaim_ops :: nat
  overflow_ops :: nat
  held :: "obj set"
  mine :: "obj set"

record ebr =
  inited :: nat
  global_epoch :: nat
  cpus :: "nat \<Rightarrow> cpu"
  linked :: "obj set"
  freed :: "obj list"
  leaked :: "obj list"

definition setc :: "nat \<Rightarrow> cpu \<Rightarrow> ebr \<Rightarrow> ebr" where
  "setc c x s = s\<lparr>cpus := (cpus s)(c := x)\<rparr>"

definition free_rec :: ebr_retired_rec where
  "free_rec = \<lparr>ref = 0, retire_epoch = 0, used = False\<rparr>"

definition EBR_RETIRE_SLOTS :: nat where "EBR_RETIRE_SLOTS = 512"

section \<open>The code\<close>

fun resume_call :: "call \<Rightarrow> pc" where
  "resume_call Enter = EnterInc"
| "resume_call (Retire r) = RetireLoad r"

fun resume :: "after \<Rightarrow> pc" where
  "resume Return = Idle"
| "resume (First r e) = PlaceFirst r e"
| "resume (Second r e) = PlaceSecond r e"

definition ebr_ensure_init :: "nat \<Rightarrow> ebr \<Rightarrow> ebr" where
  "ebr_ensure_init c s =
     (let me = cpus s c in
      case pc me of
        EnsLoad k \<Rightarrow> setc c (me\<lparr>pc := (if inited s = 2 then resume_call k else if inited s = 0 then EnsCas k else EnsSpin k)\<rparr>) s
      | EnsCas k \<Rightarrow>
          if inited s = 0 then (setc c (me\<lparr>pc := EnsStoreEpoch k\<rparr>) s)\<lparr>inited := 1\<rparr>
          else setc c (me\<lparr>pc := EnsSpin k\<rparr>) s
      | EnsStoreEpoch k \<Rightarrow> (setc c (me\<lparr>pc := EnsStoreReady k\<rparr>) s)\<lparr>global_epoch := 1\<rparr>
      | EnsStoreReady k \<Rightarrow> (setc c (me\<lparr>pc := resume_call k\<rparr>) s)\<lparr>inited := 2\<rparr>
      | EnsSpin k \<Rightarrow> if inited s = 2 then setc c (me\<lparr>pc := resume_call k\<rparr>) s else s
      | _ \<Rightarrow> s)"

definition ebr_enter :: "nat \<Rightarrow> ebr \<Rightarrow> ebr" where
  "ebr_enter c s =
     (let me = cpus s c in
      case pc me of
        EnterInc \<Rightarrow> setc c (me\<lparr>depth := depth me + 1, pc := (if depth me = 0 then EnterLoad else Idle)\<rparr>) s
      | EnterLoad \<Rightarrow> setc c (me\<lparr>pc := EnterStoreEpoch (global_epoch s)\<rparr>) s
      | EnterStoreEpoch ge \<Rightarrow> setc c (me\<lparr>local_epoch := ge, pc := EnterStoreActive\<rparr>) s
      | EnterStoreActive \<Rightarrow> setc c (me\<lparr>active := True, pc := Idle\<rparr>) s
      | _ \<Rightarrow> s)"

text \<open>The reader gives up its pointers when it starts to leave its outermost section.\<close>

definition ebr_exit :: "nat \<Rightarrow> ebr \<Rightarrow> ebr" where
  "ebr_exit c s =
     (let me = cpus s c in
      case pc me of
        ExitDec \<Rightarrow>
          if depth me = 1 then setc c (me\<lparr>depth := 0, held := {}, pc := ExitStore\<rparr>) s
          else setc c (me\<lparr>depth := depth me - 1, pc := Idle\<rparr>) s
      | ExitStore \<Rightarrow> setc c (me\<lparr>active := False, pc := ExitEpoch\<rparr>) s
      | ExitEpoch \<Rightarrow> (setc c (me\<lparr>pc := ScanGlobal Return\<rparr>) s)\<lparr>global_epoch := (global_epoch s + 1) mod 2 ^ 64\<rparr>
      | _ \<Rightarrow> s)"

definition ebr_compute_safe_epoch :: "nat \<Rightarrow> nat \<Rightarrow> ebr \<Rightarrow> ebr" where
  "ebr_compute_safe_epoch ncpu c s =
     (let me = cpus s c in
      case pc me of
        ScanGlobal k \<Rightarrow> setc c (me\<lparr>pc := ScanFlag 0 (global_epoch s) k\<rparr>) s
      | ScanFlag i safe k \<Rightarrow>
          if i < ncpu
          then setc c (me\<lparr>pc := (if \<not> active (cpus s i) then ScanFlag (Suc i) safe k else ScanEpoch i safe k)\<rparr>) s
          else setc c (me\<lparr>pc := Live safe k\<rparr>) s
      | ScanEpoch i safe k \<Rightarrow>
          (let le = local_epoch (cpus s i) in
           setc c (me\<lparr>pc := ScanFlag (Suc i) (if le < safe then le else safe) k\<rparr>) s)
      | _ \<Rightarrow> s)"

text \<open>The body of the loop for slot \<open>i\<close>.\<close>

definition reclaim_slot :: "nat \<Rightarrow> nat \<Rightarrow> cpu \<Rightarrow> cpu \<times> obj list" where
  "reclaim_slot safe_epoch i me =
     (let r = recs me ! i in
      if \<not> used r then (me, [])
      else if retire_epoch r \<ge> safe_epoch then (me, [])
      else (me\<lparr>recs := (recs me)[i := free_rec], count := count me - 1, reclaim_ops := reclaim_ops me + 1\<rparr>, [ref r]))"

definition ebr_try_reclaim :: "nat \<Rightarrow> ebr \<Rightarrow> ebr" where
  "ebr_try_reclaim c s =
     (let me = cpus s c in
      case pc me of
        Live safe k \<Rightarrow> setc c (me\<lparr>pc := (if count me \<le> 0 then resume k else Sweep 0 safe k)\<rparr>) s
      | Sweep i safe k \<Rightarrow>
          if i < length (recs me)
          then (let (me, fs) = reclaim_slot safe i me in
                (setc c (me\<lparr>pc := Sweep (Suc i) safe k\<rparr>) s)\<lparr>freed := freed s @ fs\<rparr>)
          else setc c (me\<lparr>pc := resume k\<rparr>) s
      | _ \<Rightarrow> s)"

text \<open>The search of a slot that is not used.\<close>

fun find_slot :: "ebr_retired_rec list \<Rightarrow> nat option" where
  "find_slot [] = None"
| "find_slot (r # rs) = (if \<not> used r then Some 0 else map_option Suc (find_slot rs))"

definition occupy :: "nat \<Rightarrow> obj \<Rightarrow> nat \<Rightarrow> cpu \<Rightarrow> cpu" where
  "occupy i r e me = me\<lparr>recs := (recs me)[i := \<lparr>ref = r, retire_epoch = e, used = True\<rparr>],
     count := count me + 1, retire_ops := retire_ops me + 1\<rparr>"

definition ebr_retire_ref :: "nat \<Rightarrow> ebr \<Rightarrow> ebr" where
  "ebr_retire_ref c s =
     (let me = cpus s c in
      case pc me of
        RetireLoad r \<Rightarrow> setc c (me\<lparr>pc := ScanGlobal (First r (global_epoch s))\<rparr>) s
      | PlaceFirst r e \<Rightarrow>
          (case find_slot (recs me) of
             Some i \<Rightarrow> setc c ((occupy i r e me)\<lparr>pc := ScanGlobal Return\<rparr>) s
           | None \<Rightarrow> setc c (me\<lparr>pc := ScanGlobal (Second r e)\<rparr>) s)
      | PlaceSecond r e \<Rightarrow>
          (case find_slot (recs me) of
             Some i \<Rightarrow> setc c ((occupy i r e me)\<lparr>pc := ScanGlobal Return\<rparr>) s
           | None \<Rightarrow> (setc c (me\<lparr>overflow_ops := overflow_ops me + 1, pc := ScanGlobal Return\<rparr>) s)\<lparr>leaked := leaked s @ [r]\<rparr>)
      | _ \<Rightarrow> s)"

text \<open>One step of the code that CPU \<open>c\<close> runs.\<close>

definition code_step :: "nat \<Rightarrow> nat \<Rightarrow> ebr \<Rightarrow> ebr" where
  "code_step ncpu c s =
     (case pc (cpus s c) of
        Idle \<Rightarrow> s
      | EnsLoad _ \<Rightarrow> ebr_ensure_init c s | EnsCas _ \<Rightarrow> ebr_ensure_init c s | EnsStoreEpoch _ \<Rightarrow> ebr_ensure_init c s
      | EnsStoreReady _ \<Rightarrow> ebr_ensure_init c s | EnsSpin _ \<Rightarrow> ebr_ensure_init c s
      | EnterInc \<Rightarrow> ebr_enter c s | EnterLoad \<Rightarrow> ebr_enter c s | EnterStoreEpoch _ \<Rightarrow> ebr_enter c s | EnterStoreActive \<Rightarrow> ebr_enter c s
      | ExitDec \<Rightarrow> ebr_exit c s | ExitStore \<Rightarrow> ebr_exit c s | ExitEpoch \<Rightarrow> ebr_exit c s
      | ScanGlobal _ \<Rightarrow> ebr_compute_safe_epoch ncpu c s | ScanFlag _ _ _ \<Rightarrow> ebr_compute_safe_epoch ncpu c s
      | ScanEpoch _ _ _ \<Rightarrow> ebr_compute_safe_epoch ncpu c s
      | Live _ _ \<Rightarrow> ebr_try_reclaim c s | Sweep _ _ _ \<Rightarrow> ebr_try_reclaim c s
      | RetireLoad _ \<Rightarrow> ebr_retire_ref c s | PlaceFirst _ _ \<Rightarrow> ebr_retire_ref c s | PlaceSecond _ _ \<Rightarrow> ebr_retire_ref c s)"

section \<open>Clients\<close>

datatype action = Code | CallEnter | CallExit | CallReclaim | CallRetire "obj option" | Acquire obj | Unlink obj

text \<open>An action of CPU \<open>c\<close>, \<open>None\<close> where the contract does not allow it. \<open>CallRetire None\<close> is a call with a null
  argument, which returns an error at once.\<close>

definition act :: "nat \<Rightarrow> nat \<Rightarrow> action \<Rightarrow> ebr \<Rightarrow> ebr option" where
  "act ncpu c a s =
     (let me = cpus s c in
      if \<not> c < ncpu then None
      else case a of
        Code \<Rightarrow> Some (code_step ncpu c s)
      | CallEnter \<Rightarrow> if pc me = Idle then Some (setc c (me\<lparr>pc := EnsLoad Enter\<rparr>) s) else None
      | CallExit \<Rightarrow> if pc me = Idle \<and> depth me > 0 then Some (setc c (me\<lparr>pc := ExitDec\<rparr>) s) else None
      | CallReclaim \<Rightarrow> if pc me = Idle then Some (setc c (me\<lparr>pc := ScanGlobal Return\<rparr>) s) else None
      | CallRetire None \<Rightarrow> if pc me = Idle then Some s else None
      | CallRetire (Some r) \<Rightarrow>
          if pc me = Idle \<and> r \<in> mine me then Some (setc c (me\<lparr>mine := mine me - {r}, pc := EnsLoad (Retire r)\<rparr>) s) else None
      | Acquire r \<Rightarrow>
          if pc me = Idle \<and> depth me > 0 \<and> r \<in> linked s then Some (setc c (me\<lparr>held := insert r (held me)\<rparr>) s) else None
      | Unlink r \<Rightarrow>
          if pc me = Idle \<and> r \<in> linked s
          then Some ((setc c (me\<lparr>mine := insert r (mine me)\<rparr>) s)\<lparr>linked := linked s - {r}\<rparr>) else None)"

definition ebr_init :: "nat \<Rightarrow> obj set \<Rightarrow> ebr" where
  "ebr_init slots objs =
     \<lparr>inited = 0, global_epoch = 0,
      cpus = (\<lambda>_. \<lparr>pc = Idle, active = False, local_epoch = 0, depth = 0, recs = replicate slots free_rec,
                   count = 0, retire_ops = 0, reclaim_ops = 0, overflow_ops = 0, held = {}, mine = {}\<rparr>),
      linked = objs, freed = [], leaked = []\<rparr>"

fun run :: "nat \<Rightarrow> (nat \<times> action) list \<Rightarrow> ebr \<Rightarrow> ebr option" where
  "run ncpu [] s = Some s"
| "run ncpu ((c, a) # as) s = (case act ncpu c a s of None \<Rightarrow> None | Some s \<Rightarrow> run ncpu as s)"


section \<open>Where an object is\<close>

fun call_obj :: "call \<Rightarrow> obj option" where
  "call_obj Enter = None"
| "call_obj (Retire r) = Some r"

fun after_tag :: "after \<Rightarrow> (obj \<times> nat) option" where
  "after_tag Return = None"
| "after_tag (First r e) = Some (r, e)"
| "after_tag (Second r e) = Some (r, e)"

text \<open>The object a call is about to retire, with its epoch once that is loaded.\<close>

fun pc_tag :: "pc \<Rightarrow> (obj \<times> nat) option" where
  "pc_tag (ScanGlobal k) = after_tag k"
| "pc_tag (ScanFlag _ _ k) = after_tag k"
| "pc_tag (ScanEpoch _ _ k) = after_tag k"
| "pc_tag (Live _ k) = after_tag k"
| "pc_tag (Sweep _ _ k) = after_tag k"
| "pc_tag (PlaceFirst r e) = Some (r, e)"
| "pc_tag (PlaceSecond r e) = Some (r, e)"
| "pc_tag _ = None"

fun pc_obj :: "pc \<Rightarrow> obj option" where
  "pc_obj (EnsLoad k) = call_obj k"
| "pc_obj (EnsCas k) = call_obj k"
| "pc_obj (EnsStoreEpoch k) = call_obj k"
| "pc_obj (EnsStoreReady k) = call_obj k"
| "pc_obj (EnsSpin k) = call_obj k"
| "pc_obj (RetireLoad r) = Some r"
| "pc_obj p = map_option fst (pc_tag p)"

datatype place = Linked | Mine nat | Pc nat | Slot nat nat | Freed nat | Leaked nat

definition places :: "ebr \<Rightarrow> obj \<Rightarrow> place set" where
  "places s r =
     {Linked |x. x \<in> linked s \<and> x = r} \<union> {Mine c |c. r \<in> mine (cpus s c)} \<union> {Pc c |c. pc_obj (pc (cpus s c)) = Some r}
     \<union> {Slot c i |c i. i < length (recs (cpus s c)) \<and> used (recs (cpus s c) ! i) \<and> ref (recs (cpus s c) ! i) = r}
     \<union> {Freed i |i. i < length (freed s) \<and> freed s ! i = r} \<union> {Leaked i |i. i < length (leaked s) \<and> leaked s ! i = r}"

lemma places_iff [simp]:
  "Linked \<in> places s r \<longleftrightarrow> r \<in> linked s"
  "Mine c \<in> places s r \<longleftrightarrow> r \<in> mine (cpus s c)"
  "Pc c \<in> places s r \<longleftrightarrow> pc_obj (pc (cpus s c)) = Some r"
  "Slot c i \<in> places s r \<longleftrightarrow> i < length (recs (cpus s c)) \<and> used (recs (cpus s c) ! i) \<and> ref (recs (cpus s c) ! i) = r"
  "Freed i \<in> places s r \<longleftrightarrow> i < length (freed s) \<and> freed s ! i = r"
  "Leaked i \<in> places s r \<longleftrightarrow> i < length (leaked s) \<and> leaked s ! i = r"
  by (auto simp: places_def)

definition once :: "ebr \<Rightarrow> bool" where
  "once s \<longleftrightarrow> (\<forall>r p q. p \<in> places s r \<longrightarrow> q \<in> places s r \<longrightarrow> p = q)"

text \<open>A step keeps every object where it is, or moves one object.\<close>

lemma once_keep:
  assumes "once s" "\<And>r p. p \<in> places s' r \<Longrightarrow> p \<in> places s r"
  shows "once s'"
  using assms unfolding once_def by blast

lemma once_move:
  assumes "once s" "p \<in> places s r" "p \<notin> places s' r"
    and "\<And>x z. z \<in> places s' x \<Longrightarrow> z \<in> places s x \<or> z = q \<and> x = r"
  shows "once s'"
  unfolding once_def
proof (intro allI impI)
  fix x y z assume y: "y \<in> places s' x" and z: "z \<in> places s' x"
  show "y = z"
  proof (cases "x = r")
    case True
    have "w = q" if "w \<in> places s' r" for w
      using assms that unfolding once_def by metis
    then show ?thesis using y z True by blast
  next
    case False
    then show ?thesis using y z assms unfolding once_def by metis
  qed
qed

lemma pc_obj_tag: "pc_tag p = Some (r, e) \<Longrightarrow> pc_obj p = Some r"
  by (cases p) auto

lemma pc_tag_resume [simp]: "pc_tag (resume k) = after_tag k"
  by (cases k) auto

lemma pc_obj_resume [simp]: "pc_obj (resume k) = map_option fst (after_tag k)"
  by (cases k) auto

lemma pc_obj_call [simp]: "pc_obj (resume_call k) = call_obj k"
  by (cases k) auto

lemma pc_tag_call [simp]: "pc_tag (resume_call k) = None"
  by (cases k) auto

lemma setc_sel [simp]:
  "cpus (setc c x s) = (cpus s)(c := x)" "inited (setc c x s) = inited s" "global_epoch (setc c x s) = global_epoch s"
  "linked (setc c x s) = linked s" "freed (setc c x s) = freed s" "leaked (setc c x s) = leaked s"
  by (simp_all add: setc_def)

lemma find_slot_Some: "find_slot rs = Some i \<Longrightarrow> i < length rs \<and> \<not> used (rs ! i)"
  by (induction rs arbitrary: i) (auto split: if_splits)

lemma find_slot_None: "find_slot rs = None \<longleftrightarrow> (\<forall>r \<in> set rs. used r)"
  by (induction rs) auto

section \<open>The steps one by one\<close>

lemmas fun_defs = code_step_def ebr_ensure_init_def ebr_enter_def ebr_exit_def ebr_compute_safe_epoch_def
  ebr_try_reclaim_def ebr_retire_ref_def Let_def

lemma code_ensure:
  "pc (cpus s c) = EnsLoad k \<Longrightarrow> code_step n c s =
     setc c ((cpus s c)\<lparr>pc := (if inited s = 2 then resume_call k else if inited s = 0 then EnsCas k else EnsSpin k)\<rparr>) s"
  "pc (cpus s c) = EnsCas k \<Longrightarrow> code_step n c s =
     (if inited s = 0 then (setc c ((cpus s c)\<lparr>pc := EnsStoreEpoch k\<rparr>) s)\<lparr>inited := 1\<rparr>
      else setc c ((cpus s c)\<lparr>pc := EnsSpin k\<rparr>) s)"
  "pc (cpus s c) = EnsStoreEpoch k \<Longrightarrow> code_step n c s = (setc c ((cpus s c)\<lparr>pc := EnsStoreReady k\<rparr>) s)\<lparr>global_epoch := 1\<rparr>"
  "pc (cpus s c) = EnsStoreReady k \<Longrightarrow> code_step n c s = (setc c ((cpus s c)\<lparr>pc := resume_call k\<rparr>) s)\<lparr>inited := 2\<rparr>"
  "pc (cpus s c) = EnsSpin k \<Longrightarrow> code_step n c s = (if inited s = 2 then setc c ((cpus s c)\<lparr>pc := resume_call k\<rparr>) s else s)"
  by (simp_all add: fun_defs)

lemma code_enter:
  "pc (cpus s c) = EnterInc \<Longrightarrow> code_step n c s =
     setc c ((cpus s c)\<lparr>depth := depth (cpus s c) + 1, pc := (if depth (cpus s c) = 0 then EnterLoad else Idle)\<rparr>) s"
  "pc (cpus s c) = EnterLoad \<Longrightarrow> code_step n c s = setc c ((cpus s c)\<lparr>pc := EnterStoreEpoch (global_epoch s)\<rparr>) s"
  "pc (cpus s c) = EnterStoreEpoch ge \<Longrightarrow> code_step n c s = setc c ((cpus s c)\<lparr>local_epoch := ge, pc := EnterStoreActive\<rparr>) s"
  "pc (cpus s c) = EnterStoreActive \<Longrightarrow> code_step n c s = setc c ((cpus s c)\<lparr>active := True, pc := Idle\<rparr>) s"
  by (simp_all add: fun_defs)

lemma code_exit:
  "pc (cpus s c) = ExitDec \<Longrightarrow> code_step n c s =
     (if depth (cpus s c) = 1 then setc c ((cpus s c)\<lparr>depth := 0, held := {}, pc := ExitStore\<rparr>) s
      else setc c ((cpus s c)\<lparr>depth := depth (cpus s c) - 1, pc := Idle\<rparr>) s)"
  "pc (cpus s c) = ExitStore \<Longrightarrow> code_step n c s = setc c ((cpus s c)\<lparr>active := False, pc := ExitEpoch\<rparr>) s"
  "pc (cpus s c) = ExitEpoch \<Longrightarrow> code_step n c s =
     (setc c ((cpus s c)\<lparr>pc := ScanGlobal Return\<rparr>) s)\<lparr>global_epoch := (global_epoch s + 1) mod 2 ^ 64\<rparr>"
  by (simp_all add: fun_defs)

lemma code_scan:
  "pc (cpus s c) = ScanGlobal k \<Longrightarrow> code_step n c s = setc c ((cpus s c)\<lparr>pc := ScanFlag 0 (global_epoch s) k\<rparr>) s"
  "pc (cpus s c) = ScanFlag i safe k \<Longrightarrow> code_step n c s =
     (if i < n
      then setc c ((cpus s c)\<lparr>pc := (if \<not> active (cpus s i) then ScanFlag (Suc i) safe k else ScanEpoch i safe k)\<rparr>) s
      else setc c ((cpus s c)\<lparr>pc := Live safe k\<rparr>) s)"
  "pc (cpus s c) = ScanEpoch i safe k \<Longrightarrow> code_step n c s =
     setc c ((cpus s c)\<lparr>pc := ScanFlag (Suc i) (min (local_epoch (cpus s i)) safe) k\<rparr>) s"
  by (simp_all add: fun_defs min_def)

lemma code_reclaim:
  "pc (cpus s c) = Live safe k \<Longrightarrow> code_step n c s =
     setc c ((cpus s c)\<lparr>pc := (if count (cpus s c) \<le> 0 then resume k else Sweep 0 safe k)\<rparr>) s"
  "pc (cpus s c) = Sweep i safe k \<Longrightarrow> code_step n c s =
     (if i < length (recs (cpus s c))
      then if used (recs (cpus s c) ! i) \<and> retire_epoch (recs (cpus s c) ! i) < safe
        then (setc c ((cpus s c)\<lparr>recs := (recs (cpus s c))[i := free_rec], count := count (cpus s c) - 1,
                reclaim_ops := reclaim_ops (cpus s c) + 1, pc := Sweep (Suc i) safe k\<rparr>) s)
              \<lparr>freed := freed s @ [ref (recs (cpus s c) ! i)]\<rparr>
        else setc c ((cpus s c)\<lparr>pc := Sweep (Suc i) safe k\<rparr>) s
      else setc c ((cpus s c)\<lparr>pc := resume k\<rparr>) s)"
  by (simp_all add: fun_defs reclaim_slot_def setc_def)

lemma code_retire:
  "pc (cpus s c) = RetireLoad r \<Longrightarrow> code_step n c s = setc c ((cpus s c)\<lparr>pc := ScanGlobal (First r (global_epoch s))\<rparr>) s"
  "pc (cpus s c) = PlaceFirst r e \<Longrightarrow> find_slot (recs (cpus s c)) = Some i \<Longrightarrow> code_step n c s =
     setc c ((occupy i r e (cpus s c))\<lparr>pc := ScanGlobal Return\<rparr>) s"
  "pc (cpus s c) = PlaceFirst r e \<Longrightarrow> find_slot (recs (cpus s c)) = None \<Longrightarrow> code_step n c s =
     setc c ((cpus s c)\<lparr>pc := ScanGlobal (Second r e)\<rparr>) s"
  "pc (cpus s c) = PlaceSecond r e \<Longrightarrow> find_slot (recs (cpus s c)) = Some i \<Longrightarrow> code_step n c s =
     setc c ((occupy i r e (cpus s c))\<lparr>pc := ScanGlobal Return\<rparr>) s"
  "pc (cpus s c) = PlaceSecond r e \<Longrightarrow> find_slot (recs (cpus s c)) = None \<Longrightarrow> code_step n c s =
     (setc c ((cpus s c)\<lparr>overflow_ops := overflow_ops (cpus s c) + 1, pc := ScanGlobal Return\<rparr>) s)\<lparr>leaked := leaked s @ [r]\<rparr>"
  by (simp_all add: fun_defs)

lemma code_idle: "pc (cpus s c) = Idle \<Longrightarrow> code_step n c s = s"
  by (simp add: fun_defs)

lemmas code_simps = code_ensure code_enter code_exit code_scan code_reclaim code_retire code_idle

lemma occupy_sel [simp]:
  "pc (occupy i r e x) = pc x" "active (occupy i r e x) = active x" "local_epoch (occupy i r e x) = local_epoch x"
  "depth (occupy i r e x) = depth x" "held (occupy i r e x) = held x" "mine (occupy i r e x) = mine x"
  "recs (occupy i r e x) = (recs x)[i := \<lparr>ref = r, retire_epoch = e, used = True\<rparr>]" "count (occupy i r e x) = count x + 1"
  by (simp_all add: occupy_def)

lemma free_rec_sel [simp]: "\<not> used free_rec"
  by (simp add: free_rec_def)


lemma act_code: "act n c Code s = Some s' \<longleftrightarrow> c < n \<and> s' = code_step n c s"
  by (auto simp: act_def Let_def)

lemma act_call:
  "act n c CallEnter s = Some s' \<longleftrightarrow> c < n \<and> pc (cpus s c) = Idle \<and> s' = setc c ((cpus s c)\<lparr>pc := EnsLoad Enter\<rparr>) s"
  "act n c CallExit s = Some s' \<longleftrightarrow> c < n \<and> pc (cpus s c) = Idle \<and> depth (cpus s c) > 0 \<and> s' = setc c ((cpus s c)\<lparr>pc := ExitDec\<rparr>) s"
  "act n c CallReclaim s = Some s' \<longleftrightarrow> c < n \<and> pc (cpus s c) = Idle \<and> s' = setc c ((cpus s c)\<lparr>pc := ScanGlobal Return\<rparr>) s"
  "act n c (CallRetire None) s = Some s' \<longleftrightarrow> c < n \<and> pc (cpus s c) = Idle \<and> s' = s"
  "act n c (CallRetire (Some r)) s = Some s' \<longleftrightarrow> c < n \<and> pc (cpus s c) = Idle \<and> r \<in> mine (cpus s c) \<and>
     s' = setc c ((cpus s c)\<lparr>mine := mine (cpus s c) - {r}, pc := EnsLoad (Retire r)\<rparr>) s"
  "act n c (Acquire r) s = Some s' \<longleftrightarrow> c < n \<and> pc (cpus s c) = Idle \<and> depth (cpus s c) > 0 \<and> r \<in> linked s \<and>
     s' = setc c ((cpus s c)\<lparr>held := insert r (held (cpus s c))\<rparr>) s"
  "act n c (Unlink r) s = Some s' \<longleftrightarrow> c < n \<and> pc (cpus s c) = Idle \<and> r \<in> linked s \<and>
     s' = (setc c ((cpus s c)\<lparr>mine := insert r (mine (cpus s c))\<rparr>) s)\<lparr>linked := linked s - {r}\<rparr>"
  by (auto simp: act_def Let_def)

lemmas act_simps = act_code act_call

text \<open>Steps that leave the object of the program counter alone.\<close>

lemma once_pc:
  assumes "once s" "pc_obj (pc x) = pc_obj (pc (cpus s c))" "recs x = recs (cpus s c)" "mine x = mine (cpus s c)"
  shows "once (setc c x s)" "once ((setc c x s)\<lparr>inited := i\<rparr>)" "once ((setc c x s)\<lparr>global_epoch := g\<rparr>)"
proof -
  have "p \<in> places (setc c x s) r \<Longrightarrow> p \<in> places s r"
    "p \<in> places ((setc c x s)\<lparr>inited := i\<rparr>) r \<Longrightarrow> p \<in> places s r"
    "p \<in> places ((setc c x s)\<lparr>global_epoch := g\<rparr>) r \<Longrightarrow> p \<in> places s r" for p r
    using assms(2-) by (cases p; auto split: if_splits)+
  then show "once (setc c x s)" "once ((setc c x s)\<lparr>inited := i\<rparr>)" "once ((setc c x s)\<lparr>global_epoch := g\<rparr>)"
    using assms(1) once_keep by metis+
qed

lemma once_occupy:
  assumes "once s" "pc_obj (pc (cpus s c)) = Some r" "find_slot (recs (cpus s c)) = Some i" "pc_obj p = None"
  shows "once (setc c ((occupy i r e (cpus s c))\<lparr>pc := p\<rparr>) s)"
proof (rule once_move [OF assms(1), of "Pc c" r])
  fix x z assume "z \<in> places (setc c ((occupy i r e (cpus s c))\<lparr>pc := p\<rparr>) s) x"
  then show "z \<in> places s x \<or> z = Slot c i \<and> x = r"
    using assms(2-) find_slot_Some [OF assms(3)] by (cases z) (auto simp: nth_list_update split: if_splits)
qed (use assms in simp_all)

lemma once_leak:
  assumes "once s" "pc_obj (pc (cpus s c)) = Some r" "pc_obj (pc x) = None" "recs x = recs (cpus s c)" "mine x = mine (cpus s c)"
  shows "once ((setc c x s)\<lparr>leaked := leaked s @ [r]\<rparr>)"
proof (rule once_move [OF assms(1), of "Pc c" r])
  fix y z assume "z \<in> places ((setc c x s)\<lparr>leaked := leaked s @ [r]\<rparr>) y"
  then show "z \<in> places s y \<or> z = Leaked (length (leaked s)) \<and> y = r"
    using assms(2-) by (cases z) (auto simp: nth_append less_Suc_eq split: if_splits)
qed (use assms in simp_all)

lemma once_free:
  assumes "once s" "i < length (recs (cpus s c))" "used (recs (cpus s c) ! i)"
    and "pc_obj (pc x) = pc_obj (pc (cpus s c))" "recs x = (recs (cpus s c))[i := free_rec]" "mine x = mine (cpus s c)"
  shows "once ((setc c x s)\<lparr>freed := freed s @ [ref (recs (cpus s c) ! i)]\<rparr>)"
proof (rule once_move [OF assms(1), of "Slot c i" "ref (recs (cpus s c) ! i)"])
  fix y z assume "z \<in> places ((setc c x s)\<lparr>freed := freed s @ [ref (recs (cpus s c) ! i)]\<rparr>) y"
  then show "z \<in> places s y \<or> z = Freed (length (freed s)) \<and> y = ref (recs (cpus s c) ! i)"
    using assms(2-) by (cases z) (auto simp: nth_append nth_list_update less_Suc_eq split: if_splits)
qed (use assms in simp_all)

lemma code_once:
  assumes "once s"
  shows "once (code_step n c s)"
proof (cases "pc (cpus s c)")
  case (PlaceFirst r e)
  then show ?thesis using assms
    by (cases "find_slot (recs (cpus s c))") (auto simp: code_simps intro!: once_pc once_occupy)
next
  case (PlaceSecond r e)
  then show ?thesis using assms
    by (cases "find_slot (recs (cpus s c))") (auto simp: code_simps intro!: once_pc once_occupy once_leak)
qed (use assms in \<open>auto simp: code_simps intro!: once_pc once_free\<close>)

lemma act_once:
  assumes "act n c a s = Some s'" "once s"
  shows "once s'"
proof -
  consider "a = Code" | "a = CallEnter \<or> a = CallExit \<or> a = CallReclaim \<or> a = CallRetire None \<or> (\<exists>r. a = Acquire r)"
    | r where "a = CallRetire (Some r)" | r where "a = Unlink r" by (cases a; fastforce)
  then show ?thesis
  proof cases
    case 1
    then show ?thesis using assms code_once by (simp add: act_simps)
  next
    case 2
    then show ?thesis using assms by (auto simp: act_simps intro!: once_pc)
  next
    case (3 r)
    show ?thesis
    proof (rule once_move [OF assms(2), of "Mine c" r])
      fix x z assume "z \<in> places s' x"
      then show "z \<in> places s x \<or> z = Pc c \<and> x = r" using assms 3 by (cases z) (auto simp: act_simps split: if_splits)
    qed (use assms 3 in \<open>auto simp: act_simps\<close>)
  next
    case (4 r)
    show ?thesis
    proof (rule once_move [OF assms(2), of Linked r])
      fix x z assume "z \<in> places s' x"
      then show "z \<in> places s x \<or> z = Mine c \<and> x = r" using assms 4 by (cases z) (auto simp: act_simps split: if_splits)
    qed (use assms 4 in \<open>auto simp: act_simps\<close>)
  qed
qed


section \<open>The invariant of one CPU\<close>

fun entering :: "pc \<Rightarrow> bool" where
  "entering EnterLoad = True"
| "entering (EnterStoreEpoch _) = True"
| "entering EnterStoreActive = True"
| "entering _ = False"

fun storing :: "pc \<Rightarrow> bool" where
  "storing (EnsStoreEpoch _) = True"
| "storing (EnsStoreReady _) = True"
| "storing _ = False"

text \<open>The program counters a CPU can have before the initialisation is complete.\<close>

fun early :: "pc \<Rightarrow> bool" where
  "early Idle = True"
| "early (EnsLoad _) = True"
| "early (EnsCas _) = True"
| "early (EnsStoreEpoch _) = True"
| "early (EnsStoreReady _) = True"
| "early (EnsSpin _) = True"
| "early (ScanGlobal k) = (k = Return)"
| "early (ScanFlag _ _ k) = (k = Return)"
| "early (ScanEpoch _ _ k) = (k = Return)"
| "early (Live _ k) = (k = Return)"
| "early (Sweep _ _ k) = (k = Return)"
| "early _ = False"

definition used_slots :: "cpu \<Rightarrow> nat" where
  "used_slots x = length (filter used (recs x))"

definition cpu_ok :: "nat \<Rightarrow> nat \<Rightarrow> cpu \<Rightarrow> bool" where
  "cpu_ok ini g x \<longleftrightarrow>
     depth x \<ge> 0 \<and> (entering (pc x) \<longrightarrow> depth x = 1 \<and> held x = {}) \<and> (pc x = ExitDec \<longrightarrow> depth x > 0) \<and>
     (pc x = ExitStore \<or> pc x = ExitEpoch \<longrightarrow> depth x = 0) \<and>
     (depth x > 0 \<and> \<not> entering (pc x) \<longrightarrow> active x) \<and> (depth x = 0 \<longrightarrow> held x = {}) \<and>
     (ini \<noteq> 2 \<longrightarrow> \<not> active x \<and> depth x = 0 \<and> early (pc x) \<and> used_slots x = 0 \<and> local_epoch x = 0) \<and>
     local_epoch x \<le> g \<and> (\<forall>ge. pc x = EnterStoreEpoch ge \<longrightarrow> ge \<le> g) \<and> count x = int (used_slots x) \<and>
     (storing (pc x) \<longrightarrow> ini = 1)"

definition sole :: "ebr \<Rightarrow> bool" where
  "sole s \<longleftrightarrow> (\<forall>c d. storing (pc (cpus s c)) \<longrightarrow> storing (pc (cpus s d)) \<longrightarrow> c = d)"

definition cpus_ok :: "ebr \<Rightarrow> bool" where
  "cpus_ok s \<longleftrightarrow> inited s \<le> 2 \<and> sole s \<and> (\<forall>c. cpu_ok (inited s) (global_epoch s) (cpus s c))"

lemma entering_call [simp]: "\<not> entering (resume_call k)" "\<not> entering (resume a)"
  by (cases k; simp) (cases a; simp)

lemma storing_call [simp]: "\<not> storing (resume_call k)" "\<not> storing (resume a)"
  by (cases k; simp) (cases a; simp)

lemma resume_neq [simp]:
  "resume_call k \<noteq> ExitDec" "resume_call k \<noteq> ExitStore" "resume_call k \<noteq> ExitEpoch" "resume_call k \<noteq> EnterStoreEpoch g"
  "resume a \<noteq> ExitDec" "resume a \<noteq> ExitStore" "resume a \<noteq> ExitEpoch" "resume a \<noteq> EnterStoreEpoch g"
  by (cases k; simp)+ (cases a; simp)+

lemma early_resume [simp]: "early (resume k) \<longleftrightarrow> k = Return"
  by (cases k) simp_all

lemma used_slots_update:
  assumes "i < length rs"
  shows "length (filter used (rs[i := r])) + (if used (rs ! i) then 1 else 0) = length (filter used rs) + (if used r then 1 else 0)"
  using assms
proof (induction rs arbitrary: i)
  case (Cons a rs)
  then show ?case by (cases i) auto
qed simp

lemma used_slots_occupy: "find_slot (recs x) = Some i \<Longrightarrow> used_slots ((occupy i r e x)\<lparr>pc := p\<rparr>) = Suc (used_slots x)"
  using used_slots_update [of i "recs x" "\<lparr>ref = r, retire_epoch = e, used = True\<rparr>"] find_slot_Some [of "recs x" i]
  by (simp add: used_slots_def)

lemma used_slots_free:
  "i < length (recs x) \<Longrightarrow> used (recs x ! i) \<Longrightarrow> Suc (length (filter used ((recs x)[i := free_rec]))) = used_slots x"
  using used_slots_update [of i "recs x" free_rec] by (simp add: used_slots_def)

lemma cpus_ok_setc:
  assumes "cpus_ok s" "cpu_ok (inited s) (global_epoch s) x" "storing (pc x) \<longrightarrow> storing (pc (cpus s c))"
  shows "cpus_ok (setc c x s)"
  using assms unfolding cpus_ok_def sole_def by (auto split: if_splits)

lemma cpus_ok_frame [simp]:
  "cpus_ok (s\<lparr>freed := f\<rparr>) = cpus_ok s" "cpus_ok (s\<lparr>leaked := l\<rparr>) = cpus_ok s" "cpus_ok (s\<lparr>linked := k\<rparr>) = cpus_ok s"
  by (simp_all add: cpus_ok_def sole_def)

lemma cpus_okD: "cpus_ok s \<Longrightarrow> cpu_ok (inited s) (global_epoch s) (cpus s c)"
  by (simp add: cpus_ok_def)

text \<open>The steps of the initialisation and the advance of the epoch.\<close>

lemma cpus_ok_cas:
  assumes "cpus_ok s" "pc (cpus s c) = EnsCas k" "inited s = 0"
  shows "cpus_ok ((setc c ((cpus s c)\<lparr>pc := EnsStoreEpoch k\<rparr>) s)\<lparr>inited := 1\<rparr>)"
proof -
  have "\<not> storing (pc (cpus s d))" for d using cpus_okD [OF assms(1), of d] assms(3) by (auto simp: cpu_ok_def)
  moreover have "cpu_ok 1 (global_epoch s) (cpus s d)" for d
    using cpus_okD [OF assms(1), of d] assms(3) by (auto simp: cpu_ok_def)
  ultimately show ?thesis using assms unfolding cpus_ok_def sole_def
    by (auto simp: cpu_ok_def used_slots_def)
qed

lemma cpus_ok_epoch:
  assumes "cpus_ok s" "cpu_ok (inited s) g x" "global_epoch s \<le> g \<or> inited s \<noteq> 2" "storing (pc x) \<longrightarrow> storing (pc (cpus s c))"
  shows "cpus_ok ((setc c x s)\<lparr>global_epoch := g\<rparr>)"
proof -
  have "cpu_ok (inited s) g (cpus s d)" for d
    using cpus_okD [OF assms(1), of d] assms(3)
    by (cases "inited s = 2") (fastforce simp: cpu_ok_def)+
  then show ?thesis using assms unfolding cpus_ok_def sole_def by auto
qed

lemma cpus_ok_ready:
  assumes "cpus_ok s" "pc (cpus s c) = EnsStoreReady k"
  shows "cpus_ok ((setc c ((cpus s c)\<lparr>pc := resume_call k\<rparr>) s)\<lparr>inited := 2\<rparr>)"
proof -
  have i: "inited s = 1" using cpus_okD [OF assms(1), of c] assms(2) by (auto simp: cpu_ok_def)
  have "\<not> storing (pc (cpus s d))" if "d \<noteq> c" for d using assms that unfolding cpus_ok_def sole_def
    by (metis storing.simps(2))
  then have "cpu_ok 2 (global_epoch s) (cpus s d)" if "d \<noteq> c" for d
    using cpus_okD [OF assms(1), of d] that i by (auto simp: cpu_ok_def)
  moreover have "cpu_ok 2 (global_epoch s) ((cpus s c)\<lparr>pc := resume_call k\<rparr>)"
    using cpus_okD [OF assms(1), of c] i assms(2) by (auto simp: cpu_ok_def used_slots_def)
  ultimately show ?thesis using assms unfolding cpus_ok_def sole_def by auto
qed

lemma code_cpus_ok:
  assumes "cpus_ok s" "global_epoch s + 1 < 2 ^ 64"
  shows "cpus_ok (code_step n c s)"
proof (cases "pc (cpus s c)")
  case (EnsCas k)
  then show ?thesis using assms(1) cpus_okD [OF assms(1), of c] cpus_ok_cas
    by (auto simp: code_simps cpu_ok_def used_slots_def intro!: cpus_ok_setc)
next
  case (EnsStoreEpoch k)
  then show ?thesis using assms(1) cpus_okD [OF assms(1), of c]
    by (auto simp: code_simps cpu_ok_def used_slots_def intro!: cpus_ok_epoch)
next
  case (EnsStoreReady k)
  then show ?thesis using assms(1) by (simp add: code_simps cpus_ok_ready)
next
  case ExitEpoch
  then show ?thesis using assms cpus_okD [OF assms(1), of c]
    by (auto simp: code_simps cpu_ok_def used_slots_def intro!: cpus_ok_epoch)
next
  case (PlaceFirst r e)
  then show ?thesis using assms(1) cpus_okD [OF assms(1), of c] used_slots_occupy [of "cpus s c"]
    by (cases "find_slot (recs (cpus s c))") (auto simp: code_simps cpu_ok_def used_slots_def intro!: cpus_ok_setc)
next
  case (PlaceSecond r e)
  then show ?thesis using assms(1) cpus_okD [OF assms(1), of c] used_slots_occupy [of "cpus s c"]
    by (cases "find_slot (recs (cpus s c))") (auto simp: code_simps cpu_ok_def used_slots_def intro!: cpus_ok_setc)
next
  case (Sweep i safe k)
  then show ?thesis using assms(1) cpus_okD [OF assms(1), of c] used_slots_free [of i "cpus s c"]
    by (auto simp: code_simps cpu_ok_def used_slots_def intro!: cpus_ok_setc)
qed (use assms(1) cpus_okD [OF assms(1), of c] in
  \<open>(simp_all add: code_simps, (auto intro!: cpus_ok_setc simp: cpu_ok_def used_slots_def split: if_splits))\<close>)

lemma act_cpus_ok:
  assumes "act n c a s = Some s'" "cpus_ok s" "global_epoch s + 1 < 2 ^ 64"
  shows "cpus_ok s'"
proof (cases a)
  case Code
  then show ?thesis using assms code_cpus_ok by (simp add: act_simps)
next
  case (CallRetire r)
  then show ?thesis using assms(1,2) cpus_okD [OF assms(2), of c]
    by (cases r) (auto simp: act_simps cpu_ok_def used_slots_def intro!: cpus_ok_setc)
qed (use assms(1,2) cpus_okD [OF assms(2), of c] in
  \<open>(auto simp: act_simps cpu_ok_def used_slots_def intro!: cpus_ok_setc)\<close>)


section \<open>Readers and retired objects\<close>

definition slots :: "cpu \<Rightarrow> (obj \<times> nat) set" where
  "slots x = {(ref r, retire_epoch r) |r. r \<in> set (recs x) \<and> used r}"

definition tags :: "cpu \<Rightarrow> (obj \<times> nat) set" where
  "tags x = slots x \<union> set_option (pc_tag (pc x))"

text \<open>The bound that a CPU which computes the safe epoch, or sweeps its table with it, has established for CPU \<open>j\<close>.\<close>

fun scan_bound :: "pc \<Rightarrow> nat \<Rightarrow> nat option" where
  "scan_bound (ScanFlag i safe k) j = (if j < i then Some safe else None)"
| "scan_bound (ScanEpoch i safe k) j = (if j < i then Some safe else None)"
| "scan_bound (Live safe k) j = Some safe"
| "scan_bound (Sweep i safe k) j = Some safe"
| "scan_bound _ j = None"

definition pairs_ok :: "nat \<Rightarrow> ebr \<Rightarrow> bool" where
  "pairs_ok n s \<longleftrightarrow>
     (\<forall>c j r e. (r, e) \<in> tags (cpus s c) \<longrightarrow> r \<in> held (cpus s j) \<longrightarrow> local_epoch (cpus s j) \<le> e) \<and>
     (\<forall>c j r e b. (r, e) \<in> slots (cpus s c) \<longrightarrow> r \<in> held (cpus s j) \<longrightarrow> scan_bound (pc (cpus s c)) j = Some b \<longrightarrow>
        b \<le> local_epoch (cpus s j)) \<and>
     (\<forall>j \<ge> n. held (cpus s j) = {}) \<and> (\<forall>j. held (cpus s j) \<inter> set (freed s) = {})"

lemma pairs_frame [simp]:
  "pairs_ok n (s\<lparr>inited := i\<rparr>) = pairs_ok n s" "pairs_ok n (s\<lparr>global_epoch := g\<rparr>) = pairs_ok n s"
  "pairs_ok n (s\<lparr>leaked := l\<rparr>) = pairs_ok n s" "pairs_ok n (s\<lparr>linked := k\<rparr>) = pairs_ok n s"
  by (simp_all add: pairs_ok_def)

lemma pairsD:
  assumes "pairs_ok n s"
  shows "(r, e) \<in> tags (cpus s c) \<Longrightarrow> r \<in> held (cpus s j) \<Longrightarrow> local_epoch (cpus s j) \<le> e"
    and "(r, e) \<in> slots (cpus s c) \<Longrightarrow> r \<in> held (cpus s j) \<Longrightarrow> scan_bound (pc (cpus s c)) j = Some b \<Longrightarrow> b \<le> local_epoch (cpus s j)"
    and "n \<le> j \<Longrightarrow> held (cpus s j) = {}" and "r \<in> held (cpus s j) \<Longrightarrow> r \<notin> set (freed s)"
  using assms unfolding pairs_ok_def by blast+

lemma pairs_setc:
  assumes "pairs_ok n s"
    and hold: "held x = {} \<or> held x \<subseteq> held (cpus s c) \<and> local_epoch x = local_epoch (cpus s c)"
    and tag: "\<And>r e j. (r, e) \<in> tags x \<Longrightarrow> (r, e) \<notin> tags (cpus s c) \<Longrightarrow> r \<in> held (cpus s j) \<Longrightarrow> local_epoch (cpus s j) \<le> e"
    and scan: "\<And>r e j b. (r, e) \<in> slots x \<Longrightarrow> scan_bound (pc x) j = Some b \<Longrightarrow> r \<in> held (cpus s j) \<Longrightarrow> b \<le> local_epoch (cpus s j)"
  shows "pairs_ok n (setc c x s)"
proof -
  have h: "r \<in> held (cpus s j) \<and> local_epoch (cpus (setc c x s) j) = local_epoch (cpus s j)"
    if "r \<in> held (cpus (setc c x s) j)" for r j
    using that hold by (cases "j = c") auto
  have t: "local_epoch (cpus s j) \<le> e" if "(r, e) \<in> tags (cpus (setc c x s) d)" "r \<in> held (cpus s j)" for r e d j
    using that tag [of r e j] pairsD(1) [OF assms(1) _ that(2), of e]
    by (cases "d = c"; cases "(r, e) \<in> tags (cpus s c)") auto
  have b: "b \<le> local_epoch (cpus s j)"
    if "(r, e) \<in> slots (cpus (setc c x s) d)" "scan_bound (pc (cpus (setc c x s) d)) j = Some b" "r \<in> held (cpus s j)" for r e d j b
    using that scan [of r e j b] pairsD(2) [OF assms(1) _ that(3), of e d b] by (cases "d = c") auto
  show ?thesis unfolding pairs_ok_def
  proof (intro conjI allI impI)
    fix c' j r e assume "(r, e) \<in> tags (cpus (setc c x s) c')" "r \<in> held (cpus (setc c x s) j)"
    then show "local_epoch (cpus (setc c x s) j) \<le> e" using h t by metis
  next
    fix c' j r e b' assume "(r, e) \<in> slots (cpus (setc c x s) c')" "r \<in> held (cpus (setc c x s) j)"
      "scan_bound (pc (cpus (setc c x s) c')) j = Some b'"
    then show "b' \<le> local_epoch (cpus (setc c x s) j)" using h b by metis
  next
    fix j assume "n \<le> j"
    then show "held (cpus (setc c x s) j) = {}" using h assms(1) unfolding pairs_ok_def by blast
  next
    fix j show "held (cpus (setc c x s) j) \<inter> set (freed (setc c x s)) = {}"
      using h pairsD(4) [OF assms(1)] by (auto simp del: setc_sel(1))
  qed
qed

lemma slots_pc: "recs x = recs y \<Longrightarrow> slots x = slots y"
  by (simp add: slots_def)

lemma tags_pc: "recs x = recs y \<Longrightarrow> tags x = slots y \<union> set_option (pc_tag (pc x))"
  by (simp add: tags_def slots_def)

lemma slots_occupy: "slots (occupy i r e x) \<subseteq> insert (r, e) (slots x)"
  unfolding slots_def by (auto dest!: set_update_subset_insert [THEN subsetD])

lemma slots_free: "recs y = (recs x)[i := free_rec] \<Longrightarrow> slots y \<subseteq> slots x"
  unfolding slots_def by (auto dest!: set_update_subset_insert [THEN subsetD])

text \<open>A step that only changes the program counter, within the same retired object.\<close>

lemma pairs_pc:
  assumes "pairs_ok n s" "recs x = recs (cpus s c)" "pc_tag (pc x) = pc_tag (pc (cpus s c)) \<or> pc_tag (pc x) = None"
    and "held x = {} \<or> held x \<subseteq> held (cpus s c) \<and> local_epoch x = local_epoch (cpus s c)"
    and "\<And>r e j b. (r, e) \<in> slots (cpus s c) \<Longrightarrow> scan_bound (pc x) j = Some b \<Longrightarrow> r \<in> held (cpus s j) \<Longrightarrow> b \<le> local_epoch (cpus s j)"
  shows "pairs_ok n (setc c x s)"
proof (rule pairs_setc [OF assms(1,4)])
  fix r e j assume "(r, e) \<in> tags x" "(r, e) \<notin> tags (cpus s c)"
  then show "local_epoch (cpus s j) \<le> e" using assms(2,3) by (auto simp: tags_def slots_def)
qed (use assms(5) slots_pc [OF assms(2)] in auto)

lemma pairs_quiet:
  assumes "pairs_ok n s" "recs x = recs (cpus s c)" "pc_tag (pc x) = pc_tag (pc (cpus s c)) \<or> pc_tag (pc x) = None"
    and "held x = {} \<or> held x = held (cpus s c) \<and> local_epoch x = local_epoch (cpus s c)"
    and "scan_bound (pc x) = (\<lambda>_. None)"
  shows "pairs_ok n (setc c x s)"
  using assms by (intro pairs_pc) auto

lemma scan_bound_resume [simp]: "scan_bound (resume k) j = None" "scan_bound (resume_call q) j = None"
  by (cases k; simp) (cases q; simp)

lemma scan_none [simp]: "scan_bound Idle = (\<lambda>_. None)" "scan_bound (ScanGlobal k) = (\<lambda>_. None)" "scan_bound (ScanFlag 0 safe k) = (\<lambda>_. None)"
  "scan_bound (EnsLoad q) = (\<lambda>_. None)" "scan_bound (EnsCas q) = (\<lambda>_. None)" "scan_bound (EnsStoreEpoch q) = (\<lambda>_. None)"
  "scan_bound (EnsStoreReady q) = (\<lambda>_. None)" "scan_bound (EnsSpin q) = (\<lambda>_. None)" "scan_bound EnterLoad = (\<lambda>_. None)"
  "scan_bound (EnterStoreEpoch g) = (\<lambda>_. None)" "scan_bound EnterStoreActive = (\<lambda>_. None)" "scan_bound ExitDec = (\<lambda>_. None)"
  "scan_bound ExitStore = (\<lambda>_. None)" "scan_bound ExitEpoch = (\<lambda>_. None)"
  "scan_bound (resume k) = (\<lambda>_. None)" "scan_bound (resume_call q) = (\<lambda>_. None)"
  by (auto simp: fun_eq_iff)

lemma held_active:
  assumes "cpus_ok s" "r \<in> held (cpus s j)"
  shows "active (cpus s j)" "local_epoch (cpus s j) \<le> global_epoch s"
  using cpus_okD [OF assms(1), of j] assms(2) by (auto simp: cpu_ok_def)

lemma pairs_occupy:
  assumes "pairs_ok n s" "pc_tag (pc (cpus s c)) = Some (r, e)" "pc_tag p = None" "\<And>j. scan_bound p j = None"
  shows "pairs_ok n (setc c ((occupy i r e (cpus s c))\<lparr>pc := p\<rparr>) s)"
proof (rule pairs_setc [OF assms(1)])
  fix r' e' j assume "(r', e') \<in> tags ((occupy i r e (cpus s c))\<lparr>pc := p\<rparr>)" "(r', e') \<notin> tags (cpus s c)"
  then show "local_epoch (cpus s j) \<le> e'"
    using assms(2,3) slots_occupy [of i r e "cpus s c"] by (auto simp: tags_def slots_def)
qed (use assms(4) in auto)

lemma pairs_free:
  assumes P: "pairs_ok n s" and i: "i < length (recs (cpus s c))" "used (recs (cpus s c) ! i)"
    "retire_epoch (recs (cpus s c) ! i) < safe"
    and pc: "pc (cpus s c) = Sweep i safe k" "pc x = Sweep (Suc i) safe k"
    and x: "recs x = (recs (cpus s c))[i := free_rec]" "held x = held (cpus s c)" "local_epoch x = local_epoch (cpus s c)"
  shows "pairs_ok n ((setc c x s)\<lparr>freed := freed s @ [ref (recs (cpus s c) ! i)]\<rparr>)"
proof -
  let ?r = "recs (cpus s c) ! i"
  have sl: "(ref ?r, retire_epoch ?r) \<in> slots (cpus s c)" using i by (auto simp: slots_def)
  have nh: "ref ?r \<notin> held (cpus s j)" for j
  proof
    assume h: "ref ?r \<in> held (cpus s j)"
    have "safe \<le> local_epoch (cpus s j)" using pairsD(2) [OF P sl h] pc by simp
    moreover have "local_epoch (cpus s j) \<le> retire_epoch ?r" using pairsD(1) [OF P _ h, of _ c] sl by (simp add: tags_def)
    ultimately show False using i(3) by simp
  qed
  have "pairs_ok n (setc c x s)"
  proof (rule pairs_setc [OF P])
    fix r e j assume "(r, e) \<in> tags x" "(r, e) \<notin> tags (cpus s c)"
    then show "local_epoch (cpus s j) \<le> e" using slots_free [OF x(1)] pc by (auto simp: tags_def)
  next
    fix r e j b assume "(r, e) \<in> slots x" "scan_bound (pc x) j = Some b" "r \<in> held (cpus s j)"
    then show "b \<le> local_epoch (cpus s j)" using pairsD(2) [OF P, of r e c j b] slots_free [OF x(1)] pc by auto
  qed (use x in auto)
  then show ?thesis using nh x(2) by (auto simp: pairs_ok_def)
qed

lemma code_pairs:
  assumes "pairs_ok n s" "cpus_ok s"
  shows "pairs_ok n (code_step n c s)"
proof (cases "pc (cpus s c)")
  case (ScanFlag i safe k)
  have idle: "held (cpus s i) = {}" if "\<not> active (cpus s i)" using held_active [OF assms(2)] that by blast
  have old: "safe \<le> local_epoch (cpus s j)" if "(r, e) \<in> slots (cpus s c)" "r \<in> held (cpus s j)" "j < i" for r e j
    using pairsD(2) [OF assms(1) that(1,2)] ScanFlag that(3) by simp
  have out: "j < n" if "r \<in> held (cpus s j)" for r j using pairsD(3) [OF assms(1), of j] that by fastforce
  have "safe \<le> local_epoch (cpus s j)"
    if "(r, e) \<in> slots (cpus s c)" "r \<in> held (cpus s j)" "\<not> i < n \<or> \<not> active (cpus s i) \<and> j < Suc i" for r e j
    using that old [OF that(1,2)] out [OF that(2)] idle by (auto simp: less_Suc_eq)
  then show ?thesis using assms(1) ScanFlag old by (auto simp: code_simps intro!: pairs_pc split: if_splits)
next
  case (ScanEpoch i safe k)
  have "safe \<le> local_epoch (cpus s j)" if "(r, e) \<in> slots (cpus s c)" "r \<in> held (cpus s j)" "j < i" for r e j
    using pairsD(2) [OF assms(1) that(1,2)] ScanEpoch that(3) by simp
  then show ?thesis using assms(1) ScanEpoch
    by (auto simp: code_simps less_Suc_eq min.coboundedI1 min.coboundedI2 intro!: pairs_pc split: if_splits)
next
  case (Sweep i safe k)
  have "safe \<le> local_epoch (cpus s j)" if "(r, e) \<in> slots (cpus s c)" "r \<in> held (cpus s j)" for r e j
    using pairsD(2) [OF assms(1) that] Sweep by simp
  then show ?thesis using assms(1) Sweep by (auto simp: code_simps intro!: pairs_pc pairs_free)
next
  case (RetireLoad r)
  then have "pairs_ok n (setc c ((cpus s c)\<lparr>pc := ScanGlobal (First r (global_epoch s))\<rparr>) s)"
    using held_active(2) [OF assms(2)] by (intro pairs_setc [OF assms(1)]) (auto simp: tags_def slots_def)
  then show ?thesis using RetireLoad by (simp add: code_simps)
next
  case (PlaceFirst r e)
  then show ?thesis using assms(1)
    by (cases "find_slot (recs (cpus s c))") (auto simp: code_simps intro!: pairs_pc pairs_occupy)
next
  case (PlaceSecond r e)
  then show ?thesis using assms(1)
    by (cases "find_slot (recs (cpus s c))") (auto simp: code_simps intro!: pairs_pc pairs_occupy)
next
  case (Live safe k)
  have "safe \<le> local_epoch (cpus s j)" if "(r, e) \<in> slots (cpus s c)" "r \<in> held (cpus s j)" for r e j
    using pairsD(2) [OF assms(1) that] Live by simp
  then show ?thesis using assms(1) Live by (auto simp: code_simps intro!: pairs_pc)
next
  case (EnterStoreEpoch ge)
  then show ?thesis using assms(1) cpus_okD [OF assms(2), of c] by (auto simp: code_simps cpu_ok_def intro!: pairs_quiet)
qed (use assms(1) in \<open>auto simp: code_simps intro!: pairs_quiet\<close>)

lemma act_pairs:
  assumes "act n c a s = Some s'" "pairs_ok n s" "cpus_ok s" "once s"
  shows "pairs_ok n s'"
proof (cases a)
  case Code
  then show ?thesis using assms code_pairs by (simp add: act_simps)
next
  case (CallRetire r)
  then show ?thesis using assms(1,2) by (cases r) (auto simp: act_simps intro!: pairs_quiet)
next
  case (Acquire r)
  then have s': "c < n" "r \<in> linked s" "s' = setc c ((cpus s c)\<lparr>held := insert r (held (cpus s c))\<rparr>) s"
    using assms(1) by (auto simp: act_simps)
  have nt: "(r, e) \<notin> tags (cpus s d)" for d e
  proof
    assume "(r, e) \<in> tags (cpus s d)"
    then consider i where "i < length (recs (cpus s d))" "used (recs (cpus s d) ! i)" "ref (recs (cpus s d) ! i) = r"
      | "pc_obj (pc (cpus s d)) = Some r"
      by (auto simp: tags_def slots_def in_set_conv_nth dest: pc_obj_tag)
    then obtain p where "p \<in> places s r" "p \<noteq> Linked"
    proof cases
      case (1 i)
      then show ?thesis using that [of "Slot d i"] by simp
    next
      case 2
      then show ?thesis using that [of "Pc d"] by simp
    qed
    then show False using assms(4) s'(2) unfolding once_def by (metis places_iff(1))
  qed
  have ns: "(r, e) \<notin> slots (cpus s d)" for d e using nt [of e d] by (simp add: tags_def)
  have nf: "r \<notin> set (freed s)"
  proof
    assume "r \<in> set (freed s)"
    then obtain i where "Freed i \<in> places s r" by (auto simp: in_set_conv_nth)
    then show False using assms(4) s'(2) unfolding once_def by (metis places_iff(1) place.distinct)
  qed
  have tp: "tags ((cpus s c)\<lparr>held := X\<rparr>) = tags (cpus s c)" "slots ((cpus s c)\<lparr>held := X\<rparr>) = slots (cpus s c)" for X
    by (simp_all add: tags_def slots_def)
  show ?thesis unfolding pairs_ok_def s'(3)
    using assms(2) nt ns nf s'(1) by (auto simp: pairs_ok_def tp split: if_splits)
qed (use assms(1,2) in \<open>auto simp: act_simps intro!: pairs_pc\<close>)

section \<open>Runs\<close>

definition ebr_inv :: "nat \<Rightarrow> ebr \<Rightarrow> bool" where
  "ebr_inv n s \<longleftrightarrow> once s \<and> cpus_ok s \<and> pairs_ok n s"

lemma ebr_init_inv: "ebr_inv n (ebr_init m objs)"
proof -
  have "once (ebr_init m objs)" unfolding once_def
  proof (intro allI impI)
    fix r p q assume "p \<in> places (ebr_init m objs) r" "q \<in> places (ebr_init m objs) r"
    then show "p = q" by (cases p; cases q) (auto simp: ebr_init_def)
  qed
  then show ?thesis
    by (auto simp: ebr_inv_def ebr_init_def cpus_ok_def sole_def cpu_ok_def used_slots_def pairs_ok_def)
qed

lemma act_epoch: "act n c a s = Some s' \<Longrightarrow> global_epoch s' \<le> Suc (global_epoch s)"
proof (cases a)
  case Code
  moreover assume "act n c a s = Some s'"
  ultimately have s': "s' = code_step n c s" by (simp add: act_simps)
  show ?thesis
  proof (cases "pc (cpus s c)")
    case (PlaceFirst r e)
    then show ?thesis unfolding s' by (cases "find_slot (recs (cpus s c))") (simp_all add: code_simps)
  next
    case (PlaceSecond r e)
    then show ?thesis unfolding s' by (cases "find_slot (recs (cpus s c))") (simp_all add: code_simps)
  next
    case ExitEpoch
    then show ?thesis unfolding s' using mod_less_eq_dividend [of "global_epoch s + 1" "2 ^ 64"] by (simp add: code_simps)
  qed (simp_all add: s' code_simps)
next
  case (CallRetire r)
  moreover assume "act n c a s = Some s'"
  ultimately show ?thesis by (cases r) (auto simp: act_simps)
qed (auto simp: act_simps)

lemma run_inv:
  assumes "run n as s = Some s'" "ebr_inv n s" "global_epoch s + length as < 2 ^ 64"
  shows "ebr_inv n s'"
  using assms
proof (induction as arbitrary: s)
  case (Cons x as)
  obtain c a where x: "x = (c, a)" by (cases x)
  then obtain t where t: "act n c a s = Some t" "run n as t = Some s'" using Cons.prems(1) by (auto split: option.splits)
  have "ebr_inv n t" using t(1) Cons.prems act_once act_cpus_ok act_pairs unfolding ebr_inv_def by auto
  then show ?case using Cons.IH [OF t(2)] act_epoch [OF t(1)] Cons.prems(3) by simp
qed simp


section \<open>Properties\<close>

text \<open>C4. No reader uses freed memory: in every run of fewer than \<open>2^64 - 1\<close> actions of any number of CPUs, whatever
  the interleaving, an object that some reader has found and not yet given up has not been freed. This covers the
  race of an entering reader with a CPU that has already read its flag, nested sections, overflowing tables and
  the concurrent first initialisation.\<close>

theorem ebr_no_use_after_free:
  assumes "run ncpu as (ebr_init nslots objs) = Some s" "length as < 2 ^ 64"
  shows "held (cpus s c) \<inter> set (freed s) = {}"
  using run_inv [OF assms(1) ebr_init_inv] assms(2) unfolding ebr_inv_def pairs_ok_def by (simp add: ebr_init_def)

text \<open>An object is freed at most once and never both freed and leaked, nothing that is freed or leaked is still linked,
  and the counter of live records of a CPU is the number of its used slots.\<close>

theorem ebr_free_once:
  assumes "run ncpu as (ebr_init nslots objs) = Some s" "length as < 2 ^ 64"
  shows "distinct (freed s) \<and> distinct (leaked s) \<and> set (freed s) \<inter> set (leaked s) = {} \<and>
    (set (freed s) \<union> set (leaked s)) \<inter> linked s = {} \<and> count (cpus s c) = int (length (filter used (recs (cpus s c))))"
proof -
  have i: "once s" "cpus_ok s"
    using run_inv [OF assms(1) ebr_init_inv] assms(2) unfolding ebr_inv_def by (simp_all add: ebr_init_def)
  have o: "p = q" if "p \<in> places s r" "q \<in> places s r" for p q r using i(1) that unfolding once_def by blast
  have "distinct (freed s)" unfolding distinct_conv_nth
    using o [of "Freed _" _ "Freed _"] by auto
  moreover have "distinct (leaked s)" unfolding distinct_conv_nth
    using o [of "Leaked _" _ "Leaked _"] by auto
  moreover have "set (freed s) \<inter> set (leaked s) = {}" using o [of "Freed _" _ "Leaked _"] by (fastforce simp: in_set_conv_nth)
  moreover have "(set (freed s) \<union> set (leaked s)) \<inter> linked s = {}"
    using o [of "Freed _" _ Linked] o [of "Leaked _" _ Linked] by (fastforce simp: in_set_conv_nth)
  moreover have "count (cpus s c) = int (length (filter used (recs (cpus s c))))"
    using cpus_okD [OF i(2), of c] by (simp add: cpu_ok_def used_slots_def)
  ultimately show ?thesis by blast
qed

text \<open>A reader on CPU 0 holds object 7 while CPU 1 unlinks, retires and tries to reclaim it; after the reader has left, the
  next reclamation of CPU 1 frees it.\<close>

definition reader :: "(nat \<times> action) list" where
  "reader = [(0, CallEnter), (0, Code), (0, Code), (0, Code), (0, Code), (0, Code), (0, Code), (0, Code), (0, Code), (0, Acquire 7)]"

definition retirer :: "(nat \<times> action) list" where
  "retirer = [(1, Unlink 7), (1, CallRetire (Some 7)), (1, Code), (1, Code), (1, Code), (1, Code), (1, Code), (1, Code), (1, Code), (1, Code), (1, Code), (1, Code), (1, Code), (1, Code), (1, Code), (1, Code), (1, Code), (1, Code), (1, Code), (1, Code)]"

definition leave :: "(nat \<times> action) list" where
  "leave = [(0, CallExit), (0, Code), (0, Code), (0, Code), (0, Code), (0, Code), (0, Code), (0, Code), (0, Code), (0, Code), (0, Code), (0, Code), (0, Code), (0, Code), (0, Code),
     (1, CallReclaim), (1, Code), (1, Code), (1, Code), (1, Code), (1, Code), (1, Code), (1, Code), (1, Code), (1, Code)]"

lemmas run_defs = act_def code_simps setc_def occupy_def free_rec_def ebr_init_def Let_def

theorem ebr_no_use_after_free_witness:
  "\<exists>s. run 2 (reader @ retirer) (ebr_init (Suc (Suc 0)) {7}) = Some s \<and> held (cpus s 0) = {7} \<and> ref (recs (cpus s 1) ! 0) = 7 \<and>
    held (cpus s 0) \<inter> set (freed s) = {}"
proof -
  have l: "length (reader @ retirer) < 2 ^ 64" by (simp add: reader_def retirer_def)
  have "map_option (\<lambda>s. (held (cpus s 0), ref (recs (cpus s 1) ! 0))) (run 2 (reader @ retirer) (ebr_init (Suc (Suc 0)) {7})) = Some ({7}, 7)"
    by (simp add: reader_def retirer_def run_defs)
  then obtain s where s: "run 2 (reader @ retirer) (ebr_init (Suc (Suc 0)) {7}) = Some s" "held (cpus s 0) = {7}"
    "ref (recs (cpus s 1) ! 0) = 7" by auto
  then show ?thesis using ebr_no_use_after_free [OF s(1) l, of 0] by blast
qed

theorem ebr_free_once_witness:
  "\<exists>s. run 2 (reader @ retirer @ leave) (ebr_init (Suc (Suc 0)) {7}) = Some s \<and> freed s = [7] \<and> distinct (freed s)"
proof -
  have l: "length (reader @ retirer @ leave) < 2 ^ 64" by (simp add: reader_def retirer_def leave_def)
  have "map_option (\<lambda>s. (freed s)) (run 2 (reader @ retirer @ leave) (ebr_init (Suc (Suc 0)) {7})) = Some [7]"
    by (simp add: reader_def retirer_def leave_def run_defs)
  then obtain s where s: "run 2 (reader @ retirer @ leave) (ebr_init (Suc (Suc 0)) {7}) = Some s" "freed s = [7]" by auto
  then show ?thesis using ebr_free_once [OF s(1) l] by blast
qed


end
