(* ===== verification/Buddy.thy ===== *)
theory Buddy
  imports Rendezvos_Prelude Link_List
begin

text \<open>
  The physical page allocator: zones, sections and page cursors of \<^verbatim>\<open>include/rendezvos/mm/pmm.h\<close> and the buddy
  allocator of \<^verbatim>\<open>kernel/mm/buddy_pmm.c\<close>.

  A page is known by its index in the zone, its page number or a cursor that walks the sections. The free lists
  are rings of \<open>Link_List\<close> through the bucket heads \<open>Bucket k\<close> and the page descriptors \<open>Frame i\<close>. The zone lock makes
  each operation atomic. An access outside the array of descriptors, or through a null link, is the result \<open>None\<close>.
  Page numbers are signed, as \<^verbatim>\<open>ppn_t\<close>; the error results, negative page numbers in the code, are values of a sum.
\<close>

section \<open>Zones and cursors\<close>

record mem_section =
  lower_addr :: nat
  upper_addr :: nat
  ref_counts :: "int list"  \<comment> \<open>\<^verbatim>\<open>ref_count\<close> of each page\<close>

record mem_zone =
  zone_lower :: nat
  zone_upper :: nat
  sections :: "mem_section list"

abbreviation sec_page_count :: "mem_section \<Rightarrow> nat" where
  "sec_page_count sec \<equiv> length (ref_counts sec)"

definition invalid_ppn :: "int \<Rightarrow> bool" where "invalid_ppn ppn \<longleftrightarrow> ppn < 0"

definition paddr_of :: "int \<Rightarrow> nat" where "paddr_of ppn = nat (ppn * 4096 mod 2 ^ 64)"

definition ppn_of :: "nat \<Rightarrow> int" where "ppn_of addr = int (addr div 4096)"

definition ppn_in_Sec :: "mem_section \<Rightarrow> int \<Rightarrow> bool" where
  "ppn_in_Sec sec ppn \<longleftrightarrow> \<not> invalid_ppn ppn \<and> paddr_of ppn \<ge> lower_addr sec \<and> paddr_of ppn < upper_addr sec"

definition ppn_in_Zone :: "mem_zone \<Rightarrow> int \<Rightarrow> bool" where
  "ppn_in_Zone zone ppn \<longleftrightarrow> \<not> invalid_ppn ppn \<and> paddr_of ppn \<ge> zone_lower zone \<and> paddr_of ppn < zone_upper zone"

text \<open>A cursor whose section is set: the position of the section in the list, the index within it, and the zone index
  of its first page.\<close>

record cursor =
  cur_sec :: nat
  sec_index :: nat
  sec_base_index :: nat

fun cursor_find :: "mem_section list \<Rightarrow> nat \<Rightarrow> nat \<Rightarrow> int \<Rightarrow> cursor option" where
  "cursor_find [] k base_index ppn = None"
| "cursor_find (sec # secs) k base_index ppn =
     (if \<not> ppn_in_Sec sec ppn then cursor_find secs (Suc k) (base_index + sec_page_count sec) ppn
      else
        (let i = nat (ppn - ppn_of (lower_addr sec)) in
         if i \<ge> sec_page_count sec then None
         else Some \<lparr>cur_sec = k, sec_index = i, sec_base_index = base_index\<rparr>))"

definition zone_page_cursor_init :: "mem_zone \<Rightarrow> int \<Rightarrow> cursor option" where
  "zone_page_cursor_init zone start_ppn =
     (if invalid_ppn start_ppn \<or> \<not> ppn_in_Zone zone start_ppn then None
      else cursor_find (sections zone) 0 0 start_ppn)"

text \<open>The page a cursor is on, as the section and the index in it.\<close>

definition zone_page_cursor_page :: "mem_zone \<Rightarrow> cursor \<Rightarrow> (nat \<times> nat) option" where
  "zone_page_cursor_page zone cur =
     (if sec_index cur \<ge> sec_page_count (sections zone ! cur_sec cur) then None else Some (cur_sec cur, sec_index cur))"

definition zone_page_cursor_index :: "cursor \<Rightarrow> nat" where
  "zone_page_cursor_index cur = sec_base_index cur + sec_index cur"

definition zone_page_cursor_next :: "mem_zone \<Rightarrow> cursor \<Rightarrow> cursor option" where
  "zone_page_cursor_next zone cur =
     (let cur = cur\<lparr>sec_index := Suc (sec_index cur)\<rparr> in
      if sec_index cur < sec_page_count (sections zone ! cur_sec cur) then Some cur
      else if Suc (cur_sec cur) = length (sections zone) then None
      else Some \<lparr>cur_sec = Suc (cur_sec cur), sec_index = 0,
                 sec_base_index = sec_base_index cur + sec_page_count (sections zone ! cur_sec cur)\<rparr>)"

definition page_ref :: "mem_zone \<Rightarrow> nat \<times> nat \<Rightarrow> int" where
  "page_ref zone pg = ref_counts (sections zone ! fst pg) ! snd pg"

definition set_page_ref :: "nat \<times> nat \<Rightarrow> int \<Rightarrow> mem_zone \<Rightarrow> mem_zone" where
  "set_page_ref pg r zone =
     (let sec = sections zone ! fst pg in
      zone\<lparr>sections := (sections zone)[fst pg := sec\<lparr>ref_counts := (ref_counts sec)[snd pg := r]\<rparr>]\<rparr>)"

text \<open>The operations on a reference count, with the page \<open>None\<close> for \<open>NULL\<close>.\<close>

definition phy_Page_ref_claim :: "(nat \<times> nat) option \<Rightarrow> mem_zone \<Rightarrow> mem_zone option" where
  "phy_Page_ref_claim page zone =
     (case page of None \<Rightarrow> None
      | Some pg \<Rightarrow> if page_ref zone pg \<noteq> 0 then None else Some (set_page_ref pg 1 zone))"

definition phy_Page_ref_get :: "(nat \<times> nat) option \<Rightarrow> mem_zone \<Rightarrow> mem_zone option" where
  "phy_Page_ref_get page zone =
     (case page of None \<Rightarrow> None
      | Some pg \<Rightarrow> if page_ref zone pg \<le> 0 then None else Some (set_page_ref pg (page_ref zone pg + 1) zone))"

definition phy_Page_ref_put :: "(nat \<times> nat) option \<Rightarrow> mem_zone \<Rightarrow> mem_zone" where
  "phy_Page_ref_put page zone =
     (case page of None \<Rightarrow> zone | Some pg \<Rightarrow> set_page_ref pg (page_ref zone pg - 1) zone)"

definition phy_Page_refed :: "(nat \<times> nat) option \<Rightarrow> mem_zone \<Rightarrow> bool" where
  "phy_Page_refed page zone \<longleftrightarrow> (case page of None \<Rightarrow> False | Some pg \<Rightarrow> page_ref zone pg > 0)"

section \<open>The allocator\<close>

definition BUDDY_MAXORDER :: nat where "BUDDY_MAXORDER = 10"

datatype node = Bucket nat | Frame nat

record buddy_page =
  ppn :: int
  order :: int

record buddy =
  zone :: mem_zone
  pages :: "buddy_page list"
  aval_pages :: "nat \<Rightarrow> u64"  \<comment> \<open>by bucket\<close>
  links :: "node list_heap"
  total_avaliable_pages :: u64

definition calculate_manage_space :: "u64 \<Rightarrow> u64" where
  "calculate_manage_space zone_page_number = ROUND_UP (zone_page_number * 32) PAGE_SIZE div PAGE_SIZE"

definition set_order :: "nat \<Rightarrow> int \<Rightarrow> buddy \<Rightarrow> buddy option" where
  "set_order i k bp =
     (if i < length (pages bp) then Some (bp\<lparr>pages := (pages bp)[i := (pages bp ! i)\<lparr>order := k\<rparr>]\<rparr>) else None)"

definition add_aval :: "nat \<Rightarrow> u64 \<Rightarrow> buddy \<Rightarrow> buddy" where
  "add_aval k d bp = bp\<lparr>aval_pages := (aval_pages bp)(k := aval_pages bp k + d)\<rparr>"

definition del_frame :: "nat \<Rightarrow> buddy \<Rightarrow> buddy option" where
  "del_frame i bp = do { h \<leftarrow> list_del (Frame i) (links bp); Some (bp\<lparr>links := h\<rparr>) }"

definition add_frame :: "nat \<Rightarrow> nat \<Rightarrow> buddy \<Rightarrow> buddy option" where
  "add_frame i k bp = do { h \<leftarrow> list_add_head (Frame i) (Bucket k) (links bp); Some (bp\<lparr>links := h\<rparr>) }"

text \<open>The search of the first bucket that is not empty: \<open>Some None\<close> if there is none.\<close>

fun find_block :: "node list_heap \<Rightarrow> nat list \<Rightarrow> (nat \<times> nat) option option" where
  "find_block h [] = Some None"
| "find_block h (tmp_order # os) =
     (case l_next h (Bucket tmp_order) of
        None \<Rightarrow> None
      | Some n \<Rightarrow>
          if n = Bucket tmp_order then find_block h os
          else (case n of Frame i \<Rightarrow> Some (Some (tmp_order, i)) | Bucket _ \<Rightarrow> None))"

text \<open>The claim of the references of \<open>remaining\<close> pages from the cursor: the zone, the number of claims and
  whether all were made.\<close>

fun claim_loop :: "nat \<Rightarrow> nat \<Rightarrow> cursor \<Rightarrow> mem_zone \<Rightarrow> mem_zone \<times> nat \<times> bool" where
  "claim_loop 0 progress cur z = (z, progress, True)"
| "claim_loop (Suc remaining) progress cur z =
     (case phy_Page_ref_claim (zone_page_cursor_page z cur) z of
        None \<Rightarrow> (z, progress, False)
      | Some z \<Rightarrow>
          if remaining = 0 then (z, Suc progress, True)
          else (case zone_page_cursor_next z cur of
                  None \<Rightarrow> (z, Suc progress, False)
                | Some cur \<Rightarrow> claim_loop remaining (Suc progress) cur z))"

fun undo_loop :: "nat \<Rightarrow> cursor \<Rightarrow> mem_zone \<Rightarrow> mem_zone" where
  "undo_loop 0 cur z = z"
| "undo_loop (Suc n) cur z =
     (let z = phy_Page_ref_put (zone_page_cursor_page z cur) z in
      if n = 0 then z
      else (case zone_page_cursor_next z cur of None \<Rightarrow> z | Some cur \<Rightarrow> undo_loop n cur z))"

text \<open>The split loop, from order \<open>alloc_order + d\<close> down.\<close>

fun split_loop :: "nat \<Rightarrow> nat \<Rightarrow> nat \<Rightarrow> buddy \<Rightarrow> buddy option" where
  "split_loop alloc_order i 0 bp = Some bp"
| "split_loop alloc_order i (Suc d) bp = do {
     let k = alloc_order + d;
     bp \<leftarrow> set_order (i + 2 ^ k) (int k) bp;
     bp \<leftarrow> set_order i (int k) bp;
     let bp = add_aval k 2 (add_aval (Suc k) (- 1) bp);
     bp \<leftarrow> del_frame i bp;
     bp \<leftarrow> add_frame i k bp;
     bp \<leftarrow> add_frame (i + 2 ^ k) k bp;
     split_loop alloc_order i d bp
   }"

fun mark_loop :: "nat \<Rightarrow> nat list \<Rightarrow> buddy \<Rightarrow> buddy option" where
  "mark_loop i [] bp = Some bp"
| "mark_loop i (j # js) bp = do { bp \<leftarrow> set_order (i + j) (- 1) bp; mark_loop i js bp }"

text \<open>The result: the state, the page number or the error, and \<^verbatim>\<open>*alloced_page_number\<close>.\<close>

definition pmm_alloc_zone :: "nat \<Rightarrow> buddy \<Rightarrow> (buddy \<times> (error_t + int) \<times> nat) option" where
  "pmm_alloc_zone alloc_order bp = do {
     found \<leftarrow> find_block (links bp) [alloc_order..<Suc BUDDY_MAXORDER];
     (case found of
        None \<Rightarrow> Some (bp, Inl E_REND_NO_MEM, 0)
      | Some (tmp_order, i) \<Rightarrow>
          if \<not> i < length (pages bp) then None
          else if order (pages bp ! i) < 0 then Some (bp, Inl E_RENDEZVOS, 0)
          else (case zone_page_cursor_init (zone bp) (ppn (pages bp ! i)) of
              None \<Rightarrow> Some (bp, Inl E_RENDEZVOS, 0)
            | Some cur \<Rightarrow>
                (case claim_loop (2 ^ alloc_order) 0 cur (zone bp) of
                   (z, progress, False) \<Rightarrow>
                     (let z = (if progress \<noteq> 0
                               then (case zone_page_cursor_init z (ppn (pages bp ! i)) of
                                       None \<Rightarrow> z | Some cur \<Rightarrow> undo_loop progress cur z)
                               else z) in
                      Some (bp\<lparr>zone := z\<rparr>, Inl E_RENDEZVOS, 0))
                 | (z, progress, True) \<Rightarrow> do {
                     bp \<leftarrow> split_loop alloc_order i (tmp_order - alloc_order) (bp\<lparr>zone := z\<rparr>);
                     bp \<leftarrow> mark_loop i [0..<2 ^ alloc_order] bp;
                     bp \<leftarrow> del_frame i bp;
                     let bp = add_aval alloc_order (- 1) bp;
                     let bp = bp\<lparr>total_avaliable_pages := total_avaliable_pages bp - 2 ^ alloc_order\<rparr>;
                     Some (bp, Inr (ppn (pages bp ! i)), 2 ^ alloc_order)
                   })))
   }"

definition PMM_RECLAIM_MAX_ATTEMPTS :: nat where "PMM_RECLAIM_MAX_ATTEMPTS = 64"

text \<open>\<open>reclaim_fn\<close> is the hook that another component may install: it changes the state (it frees pages) and
  says whether to try again.\<close>

type_synonym reclaim = "nat \<Rightarrow> nat \<Rightarrow> buddy \<Rightarrow> buddy \<times> bool"

function alloc_retry :: "reclaim option \<Rightarrow> nat \<Rightarrow> nat \<Rightarrow> buddy \<Rightarrow> (buddy \<times> (error_t + int) \<times> nat) option" where
  "alloc_retry reclaim_fn page_number tried bp =
     (let try_reclaim = (\<lambda>bp.
            case reclaim_fn of
              None \<Rightarrow> Some (bp, Inl E_REND_AGAIN, 0)
            | Some f \<Rightarrow>
                if tried \<ge> PMM_RECLAIM_MAX_ATTEMPTS then Some (bp, Inl E_REND_AGAIN, 0)
                else (case f page_number tried bp of
                        (bp, False) \<Rightarrow> Some (bp, Inl E_REND_NO_MEM, 0)
                      | (bp, True) \<Rightarrow> alloc_retry reclaim_fn page_number (Suc tried) bp)) in
      if unat (total_avaliable_pages bp) < page_number then try_reclaim bp
      else if page_number > 2 ^ BUDDY_MAXORDER then Some (bp, Inl E_RENDEZVOS, 0)
      else
        (case pmm_alloc_zone (unat (log2_of_next_power_of_two (of_nat page_number))) bp of
           None \<Rightarrow> None
         | Some (bp, Inr p, n) \<Rightarrow> if \<not> invalid_ppn p then Some (bp, Inr p, n) else try_reclaim bp
         | Some (bp, Inl e, n) \<Rightarrow> if e = E_RENDEZVOS then Some (bp, Inl e, n) else try_reclaim bp))"
  by pat_completeness auto
termination
  by (relation "measure (\<lambda>(r, n, tried, bp). PMM_RECLAIM_MAX_ATTEMPTS - tried)") auto

declare alloc_retry.simps [simp del]

definition pmm_alloc :: "reclaim option \<Rightarrow> nat \<Rightarrow> buddy \<Rightarrow> (buddy \<times> (error_t + int) \<times> nat) option" where
  "pmm_alloc reclaim_fn page_number bp =
     (if page_number = 0 then Some (bp, Inl E_IN_PARAM, 0) else alloc_retry reclaim_fn page_number 0 bp)"

text \<open>The merge loop, with \<open>d\<close> levels left below the highest order; it returns the index and the order reached.\<close>

fun merge_loop :: "nat \<Rightarrow> nat \<Rightarrow> buddy \<Rightarrow> (buddy \<times> nat \<times> nat) option" where
  "merge_loop 0 index bp = Some (bp, index, BUDDY_MAXORDER)"
| "merge_loop (Suc d) index bp =
     (let k = BUDDY_MAXORDER - Suc d;
          buddy_index = index XOR 2 ^ k in
      if buddy_index \<ge> length (pages bp) then Some (bp, index, k)
      else
        (let buddy_node = pages bp ! buddy_index; insert_node = pages bp ! index in
         if buddy_index > index \<and> ppn buddy_node - ppn insert_node \<noteq> 2 ^ k
            \<or> buddy_index < index \<and> ppn insert_node - ppn buddy_node \<noteq> 2 ^ k then Some (bp, index, k)
         else if order buddy_node \<noteq> int k then Some (bp, index, k)
         else do {
           bp \<leftarrow> del_frame index bp;
           bp \<leftarrow> del_frame buddy_index bp;
           merge_loop d (min index buddy_index) (add_aval k (- 1) bp)
         }))"

definition pmm_free_one_index :: "int \<Rightarrow> buddy \<Rightarrow> (buddy \<times> error_t) option" where
  "pmm_free_one_index index bp =
     (if index < 0 \<or> index \<ge> int (length (pages bp)) then Some (bp, E_RENDEZVOS)
      else if order (pages bp ! nat index) \<ge> 0 then Some (bp, E_RENDEZVOS)
      else do {
        (bp, i, k) \<leftarrow> merge_loop BUDDY_MAXORDER (nat index) bp;
        bp \<leftarrow> set_order i (int k) bp;
        bp \<leftarrow> add_frame i k (add_aval k 1 bp);
        Some (bp\<lparr>total_avaliable_pages := total_avaliable_pages bp + 1\<rparr>, REND_SUCCESS)
      })"

text \<open>The loop over the pages, \<open>Suc n\<close> of them left.\<close>

fun free_loop :: "nat \<Rightarrow> cursor \<Rightarrow> buddy \<Rightarrow> (buddy \<times> error_t) option" where
  "free_loop 0 cur bp = Some (bp, REND_SUCCESS)"
| "free_loop (Suc n) cur bp =
     (let page = zone_page_cursor_page (zone bp) cur;
          next_page = (\<lambda>bp.
            if n = 0 then Some (bp, REND_SUCCESS)
            else (case zone_page_cursor_next (zone bp) cur of
                    None \<Rightarrow> Some (bp, E_RENDEZVOS)
                  | Some cur \<Rightarrow> free_loop n cur bp)) in
      if page = None then next_page bp
      else
        (let bp = bp\<lparr>zone := phy_Page_ref_put page (zone bp)\<rparr> in
         if phy_Page_refed page (zone bp) then next_page bp
         else do {
           (bp, e) \<leftarrow> pmm_free_one_index (int (zone_page_cursor_index cur)) bp;
           (if e \<noteq> REND_SUCCESS then Some (bp, e) else next_page bp)
         }))"

definition pmm_free :: "int \<Rightarrow> nat \<Rightarrow> buddy \<Rightarrow> (buddy \<times> error_t) option" where
  "pmm_free p page_number bp =
     (if p = error_code E_RENDEZVOS then Some (bp, E_RENDEZVOS)
      else if \<not> ppn_in_Zone (zone bp) p then Some (bp, E_RENDEZVOS)
      else if page_number > 1 \<and> \<not> ppn_in_Zone (zone bp) (p + int page_number - 1) then Some (bp, E_RENDEZVOS)
      else (case zone_page_cursor_init (zone bp) p of
              None \<Rightarrow> Some (bp, E_RENDEZVOS)
            | Some cur \<Rightarrow> free_loop page_number cur bp))"

section \<open>Shared references\<close>

text \<open>One page of \<^verbatim>\<open>pmm_change_pages_ref\<close>; \<open>None\<close> is the jump to the roll back.\<close>

definition change_ref :: "bool \<Rightarrow> (nat \<times> nat) option \<Rightarrow> mem_zone \<Rightarrow> mem_zone option" where
  "change_ref increment page z =
     (if page = None then None
      else if increment then phy_Page_ref_get page z
      else if \<not> phy_Page_refed page z then None
      else Some (phy_Page_ref_put page z))"

text \<open>The loop, with \<open>Suc m\<close> pages left: the zone, the value of \<open>i\<close> and whether it went through.\<close>

fun change_loop :: "bool \<Rightarrow> nat \<Rightarrow> nat \<Rightarrow> cursor \<Rightarrow> mem_zone \<Rightarrow> mem_zone \<times> nat \<times> bool" where
  "change_loop increment 0 i cur z = (z, i, True)"
| "change_loop increment (Suc m) i cur z =
     (case change_ref increment (zone_page_cursor_page z cur) z of
        None \<Rightarrow> (z, i, False)
      | Some z \<Rightarrow>
          if m = 0 then (z, Suc i, True)
          else (case zone_page_cursor_next z cur of
                  None \<Rightarrow> (z, i, False)
                | Some cur \<Rightarrow> change_loop increment m (Suc i) cur z))"

text \<open>The roll back of \<open>n\<close> pages; the result of \<^verbatim>\<open>phy_Page_ref_get\<close> is ignored. A cursor at the end of the zone
  stays there, where it has no page.\<close>

fun unroll_loop :: "bool \<Rightarrow> nat \<Rightarrow> cursor \<Rightarrow> mem_zone \<Rightarrow> mem_zone" where
  "unroll_loop increment 0 cur z = z"
| "unroll_loop increment (Suc n) cur z =
     (let page = zone_page_cursor_page z cur;
          z = (if page = None then z
               else if increment then phy_Page_ref_put page z
               else (case phy_Page_ref_get page z of None \<Rightarrow> z | Some z \<Rightarrow> z)) in
      if n = 0 then z
      else (case zone_page_cursor_next z cur of None \<Rightarrow> z | Some cur \<Rightarrow> unroll_loop increment n cur z))"

definition pmm_change_pages_ref :: "int \<Rightarrow> nat \<Rightarrow> bool \<Rightarrow> buddy \<Rightarrow> buddy \<times> error_t" where
  "pmm_change_pages_ref start_ppn page_number increment bp =
     (if page_number = 0 then (bp, E_IN_PARAM)
      else if \<not> ppn_in_Zone (zone bp) start_ppn then (bp, E_IN_PARAM)
      else (case zone_page_cursor_init (zone bp) start_ppn of
              None \<Rightarrow> (bp, E_IN_PARAM)
            | Some cur \<Rightarrow>
                (case change_loop increment page_number 0 cur (zone bp) of
                   (z, i, True) \<Rightarrow> (bp\<lparr>zone := z\<rparr>, REND_SUCCESS)
                 | (z, i, False) \<Rightarrow>
                     (let z = (case zone_page_cursor_init z start_ppn of
                                 None \<Rightarrow> z | Some cur \<Rightarrow> unroll_loop increment i cur z) in
                      (bp\<lparr>zone := z\<rparr>, E_RENDEZVOS)))))"

section \<open>Initialisation\<close>

text \<open>
  The descriptors of the pages of the sections, in order. The loop of \<^verbatim>\<open>pmm_init\<close> does not write \<open>order\<close>: the
  value here is overwritten by \<open>add_pages\<close>, which puts every page on the list of order 0, before it is read.
\<close>

definition sec_ppns :: "mem_section \<Rightarrow> int list" where
  "sec_ppns sec = map (\<lambda>j. ppn_of (lower_addr sec + j * 4096)) [0..<sec_page_count sec]"

definition init_pages :: "buddy \<Rightarrow> buddy" where
  "init_pages bp =
     (let ppns = concat (map sec_ppns (sections (zone bp))) in
      bp\<lparr>pages := map (\<lambda>p. \<lparr>ppn = p, order = 0\<rparr>) ppns,
         links := foldl (\<lambda>h i. INIT_LIST_HEAD (Frame i) h) (links bp) [0..<length ppns]\<rparr>)"

fun add_pages :: "nat list \<Rightarrow> buddy \<Rightarrow> buddy option" where
  "add_pages [] bp = Some bp"
| "add_pages (i # is) bp = do {
     h \<leftarrow> list_add_tail (Frame i) (Bucket 0) (links bp);
     bp \<leftarrow> set_order i 0 (bp\<lparr>links := h\<rparr>);
     let bp = add_aval 0 1 bp;
     add_pages is (bp\<lparr>total_avaliable_pages := total_avaliable_pages bp + 1\<rparr>)
   }"

text \<open>The body of the loop over the pages for an order \<open>Suc k\<close>.\<close>

definition init_merge :: "nat \<Rightarrow> nat \<Rightarrow> buddy \<Rightarrow> buddy option" where
  "init_merge k i bp =
     (if ppn (pages bp ! i) mod 2 ^ Suc k = 0 \<and> i + 2 ^ k < length (pages bp)
         \<and> ppn (pages bp ! (i + 2 ^ k)) = ppn (pages bp ! i) + 2 ^ k
      then do {
        bp \<leftarrow> del_frame i bp;
        bp \<leftarrow> set_order (i + 2 ^ k) (- 1) bp;
        bp \<leftarrow> del_frame (i + 2 ^ k) bp;
        bp \<leftarrow> set_order i (order (pages bp ! i) + 1) bp;
        let bp = add_aval k (- 2) bp;
        h \<leftarrow> list_add_tail (Frame i) (Bucket (Suc k)) (links bp);
        Some (add_aval (Suc k) 1 (bp\<lparr>links := h\<rparr>))
      }
      else Some bp)"

fun merge_pages :: "nat \<Rightarrow> nat list \<Rightarrow> buddy \<Rightarrow> buddy option" where
  "merge_pages k [] bp = Some bp"
| "merge_pages k (i # is) bp = do { bp \<leftarrow> init_merge k i bp; merge_pages k is bp }"

fun merge_orders :: "nat list \<Rightarrow> buddy \<Rightarrow> buddy option" where
  "merge_orders [] bp = Some bp"
| "merge_orders (k # ks) bp = do { bp \<leftarrow> merge_pages k [0..<length (pages bp)] bp; merge_orders ks bp }"

text \<open>\<open>space\<close> is \<^verbatim>\<open>pmm_phy_end_addr - pmm_phy_start_addr\<close>, \<open>n\<close> is \<^verbatim>\<open>zone_total_pages\<close>.\<close>

definition pmm_init :: "nat \<Rightarrow> nat \<Rightarrow> buddy \<Rightarrow> buddy option" where
  "pmm_init space n bp =
     (let bp = bp\<lparr>aval_pages := (\<lambda>_. 0),
                  links := foldl (\<lambda>h k. INIT_LIST_HEAD (Bucket k) h) (links bp) [0..<Suc BUDDY_MAXORDER],
                  total_avaliable_pages := 0\<rparr> in
      if space < n * 32 then Some bp
      else
        (let bp = init_pages bp in
         if length (pages bp) \<noteq> n then Some bp
         else do {
           bp \<leftarrow> add_pages [0..<n] bp;
           merge_orders [0..<BUDDY_MAXORDER] bp
         }))"

end
