(* ===== verification/Buddy_Lists.thy ===== *)
theory Buddy_Lists
  imports Buddy
begin

text \<open>
  The three layers under the allocator's invariant: page cursors and zone indices (\<open>cur_at\<close>, \<open>flat_refs\<close>), the free
  lists as families of rings (\<open>rings\<close>, over the locale \<open>list_heads\<close> of \<open>Link_List\<close>), and the blocks the page
  descriptors describe (\<open>blocks\<close>), each with one lemma per primitive step of the code.
\<close>

section \<open>Cursors and zone indices\<close>

definition flat_refs :: "mem_zone \<Rightarrow> int list" where
  "flat_refs z = concat (map ref_counts (sections z))"

definition zone_ppns :: "mem_zone \<Rightarrow> int list" where
  "zone_ppns z = concat (map sec_ppns (sections z))"

definition sec_ok :: "mem_zone \<Rightarrow> mem_section \<Rightarrow> bool" where
  "sec_ok z sec \<longleftrightarrow> 4096 dvd lower_addr sec \<and> upper_addr sec = lower_addr sec + 4096 * sec_page_count sec \<and> 0 < sec_page_count sec \<and>
     upper_addr sec < 2 ^ 63 \<and> zone_lower z \<le> lower_addr sec \<and> upper_addr sec \<le> zone_upper z"

definition zone_ok :: "mem_zone \<Rightarrow> bool" where
  "zone_ok z \<longleftrightarrow> (\<forall>sec \<in> set (sections z). sec_ok z sec) \<and> distinct (zone_ppns z)"

text \<open>The zones that differ in reference counts only.\<close>

definition shape :: "mem_zone \<Rightarrow> (nat \<times> nat \<times> nat) list \<times> nat \<times> nat" where
  "shape z = (map (\<lambda>sec. (lower_addr sec, upper_addr sec, sec_page_count sec)) (sections z), zone_lower z, zone_upper z)"

lemma ppn_step: "4096 dvd a \<Longrightarrow> ppn_of (a + j * 4096) = ppn_of a + int j"
  by (auto simp: ppn_of_def)

lemma sec_ppns_eq: "4096 dvd lower_addr sec \<Longrightarrow> sec_ppns sec = map (\<lambda>j. ppn_of (lower_addr sec) + int j) [0..<sec_page_count sec]"
  by (simp add: sec_ppns_def ppn_step)

lemma length_sec_ppns [simp]: "length (sec_ppns sec) = sec_page_count sec"
  by (simp add: sec_ppns_def)

lemma length_flat: "length (flat_refs z) = length (zone_ppns z)"
  by (simp add: flat_refs_def zone_ppns_def length_concat comp_def)

lemma paddr_ppn:
  assumes "4096 dvd a" "a + 4096 * j < 2 ^ 63"
  shows "paddr_of (ppn_of a + int j) = a + 4096 * j"
proof -
  obtain q where q: "a = 4096 * q" using assms(1) by blast
  have "(int q + int j) * 4096 mod 2 ^ 64 = (int q + int j) * 4096" using assms(2) q by (intro mod_pos_pos_trivial) auto
  then have "nat ((int q + int j) * 4096 mod 2 ^ 64) = 4096 * q + 4096 * j" by (simp only:) simp
  then show ?thesis using q by (simp add: paddr_of_def ppn_of_def)
qed

lemma in_sec_iff:
  assumes "sec_ok z sec" "p \<in> set (sec_ppns sec') \<and> sec_ok z sec'"
  shows "ppn_in_Sec sec p \<longleftrightarrow> p \<in> set (sec_ppns sec)"
proof -
  from assms(2) obtain j where j: "j < sec_page_count sec'" "p = ppn_of (lower_addr sec') + int j"
    by (auto simp: sec_ok_def sec_ppns_eq)
  have pa: "paddr_of p = lower_addr sec' + 4096 * j" unfolding j(2)
    using assms(2) j(1) by (intro paddr_ppn) (auto simp: sec_ok_def)
  have "4096 dvd lower_addr sec" "4096 dvd lower_addr sec'" using assms by (simp_all add: sec_ok_def)
  then obtain q q' where q: "lower_addr sec = 4096 * q" "lower_addr sec' = 4096 * q'" by (elim dvdE)
  have p: "p = int (q' + j)" using j(2) q by (simp add: ppn_of_def)
  have "ppn_in_Sec sec p \<longleftrightarrow> q \<le> q' + j \<and> q' + j < q + sec_page_count sec"
    using assms(1) pa q p by (auto simp: ppn_in_Sec_def invalid_ppn_def sec_ok_def)
  also have "\<dots> \<longleftrightarrow> p \<in> set (sec_ppns sec)"
  proof
    assume h: "q \<le> q' + j \<and> q' + j < q + sec_page_count sec"
    then have "p = ppn_of (lower_addr sec) + int (q' + j - q)" "q' + j - q < sec_page_count sec"
      using p q by (auto simp: ppn_of_def)
    then show "p \<in> set (sec_ppns sec)" using assms(1) by (auto simp: sec_ok_def sec_ppns_eq)
  next
    assume "p \<in> set (sec_ppns sec)"
    then show "q \<le> q' + j \<and> q' + j < q + sec_page_count sec"
      using assms(1) p q by (auto simp: sec_ok_def sec_ppns_eq ppn_of_def)
  qed
  finally show ?thesis .
qed

lemma cursor_find_ok:
  assumes "\<forall>sec \<in> set ss. sec_ok z sec" "distinct (concat (map sec_ppns ss))" "i < length (concat (map sec_ppns ss))"
  shows "\<exists>k' j. cursor_find ss k base (concat (map sec_ppns ss) ! i) =
     Some \<lparr>cur_sec = k + k', sec_index = j, sec_base_index = base + length (concat (map sec_ppns (take k' ss)))\<rparr> \<and>
     k' < length ss \<and> j < sec_page_count (ss ! k') \<and> i = length (concat (map sec_ppns (take k' ss))) + j"
  using assms
proof (induction ss arbitrary: k base i)
  case (Cons sec ss)
  let ?p = "concat (map sec_ppns (sec # ss)) ! i"
  have mem: "?p \<in> set (concat (map sec_ppns (sec # ss)))" using Cons.prems(3) by (rule nth_mem)
  then obtain sec' where sec': "?p \<in> set (sec_ppns sec')" "sec' \<in> set (sec # ss)" by (auto simp only: set_concat set_map)
  then have ins: "ppn_in_Sec sec ?p \<longleftrightarrow> ?p \<in> set (sec_ppns sec)"
    using Cons.prems(1) by (intro in_sec_iff [of z sec _ sec']) auto
  show ?case
  proof (cases "i < sec_page_count sec")
    case True
    then have p: "?p = sec_ppns sec ! i" by (simp add: nth_append)
    then have "ppn_in_Sec sec ?p" using ins True by (metis length_sec_ppns nth_mem)
    moreover have "?p = ppn_of (lower_addr sec) + int i" using p True Cons.prems(1) by (simp add: sec_ok_def sec_ppns_eq)
    ultimately have "cursor_find (sec # ss) k base ?p = Some \<lparr>cur_sec = k, sec_index = i, sec_base_index = base\<rparr>"
      using True by (simp add: Let_def)
    then show ?thesis using True by (intro exI [of _ 0] exI [of _ i]) simp
  next
    case False
    let ?i = "i - sec_page_count sec"
    have i: "?i < length (concat (map sec_ppns ss))" using False Cons.prems(3) by simp
    have p: "?p = concat (map sec_ppns ss) ! ?i" using False by (simp add: nth_append)
    then have "?p \<in> set (concat (map sec_ppns ss))" using i by (metis nth_mem)
    then have "\<not> ppn_in_Sec sec ?p" using ins Cons.prems(2) by auto
    moreover from Cons.IH [of ?i "Suc k" "base + sec_page_count sec"] obtain k' j where
      "cursor_find ss (Suc k) (base + sec_page_count sec) ?p = Some \<lparr>cur_sec = Suc k + k', sec_index = j,
         sec_base_index = base + sec_page_count sec + length (concat (map sec_ppns (take k' ss)))\<rparr>"
      "k' < length ss" "j < sec_page_count (ss ! k')" "?i = length (concat (map sec_ppns (take k' ss))) + j"
      using Cons.prems i unfolding p by auto
    ultimately show ?thesis using False by (intro exI [of _ "Suc k'"] exI [of _ j]) simp
  qed
qed simp

definition cur_at :: "mem_zone \<Rightarrow> cursor \<Rightarrow> nat \<Rightarrow> bool" where
  "cur_at z cur i \<longleftrightarrow> cur_sec cur < length (sections z) \<and> sec_index cur < sec_page_count (sections z ! cur_sec cur) \<and>
     sec_base_index cur = length (concat (map ref_counts (take (cur_sec cur) (sections z)))) \<and> i = sec_base_index cur + sec_index cur"

lemma length_take_ppns: "length (concat (map sec_ppns (take k ss))) = length (concat (map ref_counts (take k ss)))"
  by (simp add: length_concat comp_def)

lemma zone_ppn_in_zone:
  assumes "zone_ok z" "p \<in> set (zone_ppns z)"
  shows "ppn_in_Zone z p" "0 \<le> p"
proof -
  from assms obtain sec where sec: "sec \<in> set (sections z)" "p \<in> set (sec_ppns sec)" "sec_ok z sec"
    by (auto simp: zone_ok_def zone_ppns_def)
  then obtain j where j: "j < sec_page_count sec" "p = ppn_of (lower_addr sec) + int j" by (auto simp: sec_ok_def sec_ppns_eq)
  then show "0 \<le> p" by (simp add: ppn_of_def)
  have "paddr_of p = lower_addr sec + 4096 * j" unfolding j(2) using sec(3) j(1) by (intro paddr_ppn) (auto simp: sec_ok_def)
  then show "ppn_in_Zone z p" using sec(3) j \<open>0 \<le> p\<close> by (auto simp: ppn_in_Zone_def invalid_ppn_def sec_ok_def)
qed

lemma cursor_init_ok:
  assumes "zone_ok z" "i < length (zone_ppns z)"
  shows "\<exists>cur. zone_page_cursor_init z (zone_ppns z ! i) = Some cur \<and> cur_at z cur i"
proof -
  have p: "zone_ppns z ! i \<in> set (zone_ppns z)" using assms(2) by simp
  have "zone_page_cursor_init z (zone_ppns z ! i) = cursor_find (sections z) 0 0 (zone_ppns z ! i)"
    using zone_ppn_in_zone [OF assms(1) p] by (simp add: zone_page_cursor_init_def invalid_ppn_def)
  moreover obtain k' j where "cursor_find (sections z) 0 0 (zone_ppns z ! i) =
     Some \<lparr>cur_sec = 0 + k', sec_index = j, sec_base_index = 0 + length (concat (map sec_ppns (take k' (sections z))))\<rparr>"
     "k' < length (sections z)" "j < sec_page_count (sections z ! k')" "i = length (concat (map sec_ppns (take k' (sections z)))) + j"
    using cursor_find_ok [of "sections z" z i 0 0] assms unfolding zone_ok_def zone_ppns_def by blast
  ultimately show ?thesis by (simp add: cur_at_def length_take_ppns)
qed

lemma cursor_next_ok:
  assumes "cur_at z cur i" "Suc i < length (flat_refs z)" "zone_ok z"
  shows "\<exists>cur'. zone_page_cursor_next z cur = Some cur' \<and> cur_at z cur' (Suc i)"
proof (cases "Suc (sec_index cur) < sec_page_count (sections z ! cur_sec cur)")
  case True
  then show ?thesis using assms(1) by (auto simp: zone_page_cursor_next_def Let_def cur_at_def)
next
  case False
  let ?k = "cur_sec cur" and ?ss = "sections z"
  have k: "?k < length ?ss" using assms(1) by (simp add: cur_at_def)
  have e: "Suc (sec_index cur) = sec_page_count (?ss ! ?k)" using False assms(1) by (simp add: cur_at_def)
  have t: "take (Suc ?k) ?ss = take ?k ?ss @ [?ss ! ?k]" using k by (simp add: take_Suc_conv_app_nth)
  have nl: "Suc ?k < length ?ss"
  proof (rule ccontr)
    assume "\<not> Suc ?k < length ?ss"
    then have "take (Suc ?k) ?ss = ?ss" using k by simp
    then have "length (flat_refs z) = Suc i" using t e assms(1) unfolding flat_refs_def cur_at_def
      by (metis (no_types, lifting) add_Suc_right append_Nil2 concat.simps(1) concat.simps(2) concat_append length_append list.simps(8) list.simps(9) map_append)
    then show False using assms(2) by simp
  qed
  have "0 < sec_page_count (?ss ! Suc ?k)" using assms(3) nl by (auto simp: zone_ok_def sec_ok_def)
  then show ?thesis using False nl e t assms(1) by (auto simp: zone_page_cursor_next_def Let_def cur_at_def)
qed

lemma concat_update:
  assumes "k < length xss" "j < length (xss ! k)"
  shows "concat (xss[k := (xss ! k)[j := v]]) = (concat xss)[length (concat (take k xss)) + j := v]"
proof -
  have x: "xss = take k xss @ xss ! k # drop (Suc k) xss" using assms(1) by (rule id_take_nth_drop)
  have "concat (xss[k := (xss ! k)[j := v]]) = concat (take k xss) @ (xss ! k)[j := v] @ concat (drop (Suc k) xss)"
    using assms(1) by (simp add: upd_conv_take_nth_drop)
  also have "\<dots> = (concat (take k xss) @ xss ! k @ concat (drop (Suc k) xss))[length (concat (take k xss)) + j := v]"
    using assms(2) by (simp add: list_update_append)
  also have "concat (take k xss) @ xss ! k @ concat (drop (Suc k) xss) = concat xss"
    by (metis x concat.simps(2) concat_append)
  finally show ?thesis .
qed

lemma cursor_page_ok:
  assumes "cur_at z cur i"
  defines "pg \<equiv> (cur_sec cur, sec_index cur)"
  shows "zone_page_cursor_page z cur = Some pg" "page_ref z pg = flat_refs z ! i" "i < length (flat_refs z)"
    "flat_refs (set_page_ref pg r z) = (flat_refs z)[i := r]" "shape (set_page_ref pg r z) = shape z"
    "zone_page_cursor_index cur = i"
proof -
  let ?k = "cur_sec cur" and ?ss = "sections z" and ?j = "sec_index cur"
  let ?xss = "map ref_counts ?ss"
  have k: "?k < length ?xss" "?j < length (?xss ! ?k)" and i: "i = length (concat (take ?k ?xss)) + ?j"
    using assms(1) by (auto simp: cur_at_def take_map)
  show "zone_page_cursor_page z cur = Some pg" using assms(1) by (simp add: zone_page_cursor_page_def pg_def cur_at_def)
  show "zone_page_cursor_index cur = i" using assms(1) by (simp add: zone_page_cursor_index_def cur_at_def)
  have x: "concat ?xss = concat (take ?k ?xss) @ ?xss ! ?k @ concat (drop (Suc ?k) ?xss)"
    by (metis id_take_nth_drop [OF k(1)] concat.simps(2) concat_append)
  then have "i < length (concat ?xss)" using i k(2) by simp
  then show "i < length (flat_refs z)" by (simp add: flat_refs_def)
  have "concat ?xss ! i = ?xss ! ?k ! ?j" unfolding x i using k(2) by (simp add: nth_append)
  then show "page_ref z pg = flat_refs z ! i" using k by (simp add: page_ref_def pg_def flat_refs_def)
  have "map ref_counts (sections (set_page_ref pg r z)) = ?xss[?k := (?xss ! ?k)[?j := r]]"
    using k(1) by (simp add: set_page_ref_def pg_def Let_def map_update)
  then show "flat_refs (set_page_ref pg r z) = (flat_refs z)[i := r]"
    using concat_update [OF k, of r] i by (simp add: flat_refs_def)
  show "shape (set_page_ref pg r z) = shape z"
    using k(1) by (auto simp: shape_def set_page_ref_def pg_def Let_def map_update list_update_same_conv)
qed

lemma shape_sections: "fst (shape z) = map (\<lambda>sec. (lower_addr sec, upper_addr sec, sec_page_count sec)) (sections z)"
  by (simp add: shape_def)

lemma shape_ppns: "zone_ppns z = concat (map (\<lambda>(l, u, c). map (\<lambda>j. ppn_of (l + j * 4096)) [0..<c]) (fst (shape z)))"
  unfolding zone_ppns_def shape_sections by (simp add: comp_def sec_ppns_def [abs_def])

lemma shape_ok: "zone_ok z \<longleftrightarrow> (\<forall>(l, u, c) \<in> set (fst (shape z)). 4096 dvd l \<and> u = l + 4096 * c \<and> 0 < c \<and> u < 2 ^ 63 \<and>
     fst (snd (shape z)) \<le> l \<and> u \<le> snd (snd (shape z))) \<and> distinct (zone_ppns z)"
  by (auto simp: zone_ok_def sec_ok_def shape_def)

lemma shape_cur: "cur_at z cur i \<longleftrightarrow> cur_sec cur < length (fst (shape z)) \<and> sec_index cur < snd (snd (fst (shape z) ! cur_sec cur)) \<and>
     sec_base_index cur = sum_list (map (\<lambda>t. snd (snd t)) (take (cur_sec cur) (fst (shape z)))) \<and> i = sec_base_index cur + sec_index cur"
  by (auto simp: cur_at_def shape_sections length_concat take_map comp_def)

lemma shapeD:
  assumes "shape z' = shape z"
  shows "zone_ppns z' = zone_ppns z" "zone_ok z' = zone_ok z" "cur_at z' = cur_at z" "length (flat_refs z') = length (flat_refs z)"
    "ppn_in_Zone z' = ppn_in_Zone z"
proof -
  show p: "zone_ppns z' = zone_ppns z" by (simp add: shape_ppns assms)
  show "zone_ok z' = zone_ok z" by (simp add: shape_ok p assms)
  show "cur_at z' = cur_at z" by (intro ext) (simp add: shape_cur assms)
  show "length (flat_refs z') = length (flat_refs z)" by (simp add: length_flat p)
  show "ppn_in_Zone z' = ppn_in_Zone z" using assms by (intro ext) (simp add: ppn_in_Zone_def shape_def)
qed

lemma claim_loop_ok:
  assumes "zone_ok z" "cur_at z cur i" "i + m \<le> length (flat_refs z)" "\<forall>j \<in> {i..<i + m}. flat_refs z ! j = 0"
  shows "\<exists>z'. claim_loop m p cur z = (z', p + m, True) \<and> shape z' = shape z \<and>
    (\<forall>j < length (flat_refs z). flat_refs z' ! j = (if j \<in> {i..<i + m} then 1 else flat_refs z ! j))"
  using assms
proof (induction m arbitrary: p cur z i)
  case (Suc m)
  let ?pg = "(cur_sec cur, sec_index cur)"
  note pg = cursor_page_ok [OF Suc.prems(2)]
  have "flat_refs z ! i = 0" using Suc.prems(4) by simp
  then have c: "phy_Page_ref_claim (zone_page_cursor_page z cur) z = Some (set_page_ref ?pg 1 z)"
    by (simp add: pg(1,2) phy_Page_ref_claim_def)
  let ?z = "set_page_ref ?pg 1 z"
  have sh: "shape ?z = shape z" by (rule pg(5))
  have fl: "flat_refs ?z = (flat_refs z)[i := 1]" by (rule pg(4))
  show ?case
  proof (cases "m = 0")
    case True
    then show ?thesis using c sh fl by (auto simp: nth_list_update)
  next
    case False
    obtain cur' where cur': "zone_page_cursor_next ?z cur = Some cur'" "cur_at ?z cur' (Suc i)"
      using cursor_next_ok [of ?z cur i] Suc.prems(1,2,3) False fl by (auto simp: shapeD [OF sh])
    have "\<exists>z'. claim_loop m (Suc p) cur' ?z = (z', Suc p + m, True) \<and> shape z' = shape ?z \<and>
      (\<forall>j < length (flat_refs ?z). flat_refs z' ! j = (if j \<in> {Suc i..<Suc i + m} then 1 else flat_refs ?z ! j))"
      using Suc.prems cur'(2) fl by (intro Suc.IH) (auto simp: shapeD [OF sh])
    then obtain z' where z': "claim_loop m (Suc p) cur' ?z = (z', Suc p + m, True)" "shape z' = shape ?z"
      "\<And>j. j < length (flat_refs z) \<Longrightarrow> flat_refs z' ! j = (if j \<in> {Suc i..<Suc i + m} then 1 else (flat_refs z)[i := 1] ! j)"
      unfolding fl by auto
    have "claim_loop (Suc m) p cur z = (z', p + Suc m, True)" using c False cur'(1) z'(1) by simp
    moreover have "flat_refs z' ! j = (if j \<in> {i..<i + Suc m} then 1 else flat_refs z ! j)" if "j < length (flat_refs z)" for j
      using z'(3) [OF that] that by (auto simp: nth_list_update)
    ultimately show ?thesis using z'(2) sh by auto
  qed
qed simp

section \<open>The free lists\<close>

definition blk :: "nat \<Rightarrow> nat \<Rightarrow> nat set" where "blk i k = {i..<i + 2 ^ k}"

definition lists_of :: "(nat \<Rightarrow> nat list) \<Rightarrow> node \<Rightarrow> node list" where
  "lists_of fl nd = (case nd of Bucket k \<Rightarrow> map Frame (fl k) | Frame _ \<Rightarrow> [])"

text \<open>The rings at the buckets hold the frames \<open>fl k\<close>; the frames in none are detached.\<close>

definition rings :: "node list_heap \<Rightarrow> nat \<Rightarrow> (nat \<Rightarrow> nat list) \<Rightarrow> bool" where
  "rings h n fl \<longleftrightarrow> dl.family h (Bucket ` {..BUDDY_MAXORDER}) (lists_of fl) \<and>
     (\<forall>j < n. (\<forall>k \<le> BUDDY_MAXORDER. j \<notin> set (fl k)) \<longrightarrow> list_node_is_detached (Some (Frame j)) h)"

lemma lists_of_upd: "(lists_of fl)(Bucket k := map Frame xs) = lists_of (fl(k := xs))"
  by (auto simp: lists_of_def fun_eq_iff split: node.splits)

lemma remove1_Frame: "remove1 (Frame i) (map Frame xs) = map Frame (remove1 i xs)"
  by (induction xs) auto

lemma rings_distinct:
  assumes "rings h n fl" "k \<le> BUDDY_MAXORDER"
  shows "distinct (fl k)"
proof -
  have "ring h (Bucket k) (lists_of fl (Bucket k))"
    using assms by (intro dl.familyD(1)) (auto simp: rings_def)
  then show ?thesis by (simp add: ring_def lists_of_def distinct_map)
qed

lemma rings_once:
  assumes "rings h n fl" "k \<le> BUDDY_MAXORDER" "k' \<le> BUDDY_MAXORDER" "i \<in> set (fl k)" "i \<in> set (fl k')"
  shows "k' = k"
  using assms dl.familyD(3) [of h "Bucket ` {..BUDDY_MAXORDER}" "lists_of fl" "Bucket k" "Frame i" "Bucket k'"]
  by (auto simp: rings_def lists_of_def)

lemma rings_keep:
  assumes "rings h n fl" "dl.family h' (Bucket ` {..BUDDY_MAXORDER}) (lists_of fl')"
    and "\<And>j. j < n \<Longrightarrow> (\<forall>k \<le> BUDDY_MAXORDER. j \<notin> set (fl' k)) \<Longrightarrow>
      list_node_is_detached (Some (Frame j)) h' \<or>
      (\<forall>k \<le> BUDDY_MAXORDER. j \<notin> set (fl k)) \<and> l_next h' (Frame j) = l_next h (Frame j) \<and> l_prev h' (Frame j) = l_prev h (Frame j)"
  shows "rings h' n fl'"
  using assms unfolding rings_def list_node_is_detached_def by fastforce

lemma rings_del:
  assumes "rings h n fl" "k \<le> BUDDY_MAXORDER" "i \<in> set (fl k)"
  shows "\<exists>h'. list_del (Frame i) h = Some h' \<and> rings h' n (fl(k := remove1 i (fl k)))"
proof -
  have fam: "dl.family h (Bucket ` {..BUDDY_MAXORDER}) (lists_of fl)" "Bucket k \<in> Bucket ` {..BUDDY_MAXORDER}"
    "Frame i \<in> set (lists_of fl (Bucket k))"
    using assms by (auto simp: lists_of_def rings_def)
  have l: "lists_of fl (Bucket k) = map Frame (fl k)" by (simp add: lists_of_def)
  obtain h' where h': "list_del (Frame i) h = Some h'"
    "dl.family h' (Bucket ` {..BUDDY_MAXORDER}) (lists_of (fl(k := remove1 i (fl k))))"
    "list_node_is_detached (Some (Frame i)) h'"
    "\<forall>x. x \<notin> set (Bucket k # map Frame (fl k)) \<longrightarrow> l_next h' x = l_next h x \<and> l_prev h' x = l_prev h x"
    using dl.family_del [OF fam] unfolding l remove1_Frame lists_of_upd by blast
  have "rings h' n (fl(k := remove1 i (fl k)))"
  proof (rule rings_keep [OF assms(1) h'(2)])
    fix j assume j: "\<forall>k' \<le> BUDDY_MAXORDER. j \<notin> set ((fl(k := remove1 i (fl k))) k')"
    show "list_node_is_detached (Some (Frame j)) h' \<or> (\<forall>k \<le> BUDDY_MAXORDER. j \<notin> set (fl k)) \<and>
        l_next h' (Frame j) = l_next h (Frame j) \<and> l_prev h' (Frame j) = l_prev h (Frame j)"
    proof (cases "j = i")
      case False
      then have "j \<notin> set (fl k)" using j assms(2) by (auto dest: spec [of _ k])
      moreover have "\<forall>k' \<le> BUDDY_MAXORDER. j \<notin> set (fl k')" using j calculation by (auto split: if_splits)
      ultimately show ?thesis using h'(4) by auto
    qed (simp add: h')
  qed
  with h'(1) show ?thesis by blast
qed

lemma rings_grow:
  assumes "rings h n fl" "k \<le> BUDDY_MAXORDER" "dl.family h' (Bucket ` {..BUDDY_MAXORDER}) (lists_of (fl(k := xs)))"
    and "set xs = insert i (set (fl k))"
    and "\<forall>x. x \<notin> set (Frame i # Bucket k # map Frame (fl k)) \<longrightarrow> l_next h' x = l_next h x \<and> l_prev h' x = l_prev h x"
  shows "rings h' n (fl(k := xs))"
proof (rule rings_keep [OF assms(1,3)])
  fix j assume j: "\<forall>k' \<le> BUDDY_MAXORDER. j \<notin> set ((fl(k := xs)) k')"
  then have "j \<noteq> i" "j \<notin> set (fl k)" using assms(2,4) by (auto dest: spec [of _ k])
  moreover have "\<forall>k' \<le> BUDDY_MAXORDER. j \<notin> set (fl k')" using j calculation by (auto split: if_splits)
  ultimately show "list_node_is_detached (Some (Frame j)) h' \<or> (\<forall>k \<le> BUDDY_MAXORDER. j \<notin> set (fl k)) \<and>
      l_next h' (Frame j) = l_next h (Frame j) \<and> l_prev h' (Frame j) = l_prev h (Frame j)"
    using assms(5) by auto
qed

lemma family_fresh:
  assumes "rings h n fl" "k \<le> BUDDY_MAXORDER" "\<forall>k' \<le> BUDDY_MAXORDER. i \<notin> set (fl k')"
  shows "dl.family h (Bucket ` {..BUDDY_MAXORDER}) (lists_of fl)" "Bucket k \<in> Bucket ` {..BUDDY_MAXORDER}"
    "Frame i \<notin> Bucket ` {..BUDDY_MAXORDER}" "\<And>a. a \<in> Bucket ` {..BUDDY_MAXORDER} \<Longrightarrow> Frame i \<notin> set (lists_of fl a)"
  using assms by (auto simp: lists_of_def rings_def)

lemma rings_add:
  assumes "rings h n fl" "k \<le> BUDDY_MAXORDER" "\<forall>k' \<le> BUDDY_MAXORDER. i \<notin> set (fl k')"
  shows "\<exists>h'. list_add_head (Frame i) (Bucket k) h = Some h' \<and> rings h' n (fl(k := i # fl k))"
proof -
  have l: "lists_of fl (Bucket k) = map Frame (fl k)" "Frame i # map Frame (fl k) = map Frame (i # fl k)" by (simp_all add: lists_of_def)
  from dl.family_add_head [OF family_fresh [OF assms]] obtain h' where h': "list_add_head (Frame i) (Bucket k) h = Some h'"
    "dl.family h' (Bucket ` {..BUDDY_MAXORDER}) (lists_of (fl(k := i # fl k)))"
    "\<forall>x. x \<notin> set (Frame i # Bucket k # map Frame (fl k)) \<longrightarrow> l_next h' x = l_next h x \<and> l_prev h' x = l_prev h x"
    unfolding l lists_of_upd by blast
  from rings_grow [OF assms(1,2) h'(2) _ h'(3)] h'(1) show ?thesis by auto
qed

lemma rings_add_tail:
  assumes "rings h n fl" "k \<le> BUDDY_MAXORDER" "\<forall>k' \<le> BUDDY_MAXORDER. i \<notin> set (fl k')"
  shows "\<exists>h'. list_add_tail (Frame i) (Bucket k) h = Some h' \<and> rings h' n (fl(k := fl k @ [i]))"
proof -
  have l: "lists_of fl (Bucket k) = map Frame (fl k)" "map Frame (fl k) @ [Frame i] = map Frame (fl k @ [i])" by (simp_all add: lists_of_def)
  from dl.family_add_tail [OF family_fresh [OF assms]] obtain h' where h': "list_add_tail (Frame i) (Bucket k) h = Some h'"
    "dl.family h' (Bucket ` {..BUDDY_MAXORDER}) (lists_of (fl(k := fl k @ [i])))"
    "\<forall>x. x \<notin> set (Frame i # Bucket k # map Frame (fl k)) \<longrightarrow> l_next h' x = l_next h x \<and> l_prev h' x = l_prev h x"
    unfolding l lists_of_upd by blast
  from rings_grow [OF assms(1,2) h'(2) _ h'(3)] h'(1) show ?thesis by auto
qed

lemma rings_del_free:
  assumes "rings h n fl" "i < n" "\<forall>k' \<le> BUDDY_MAXORDER. i \<notin> set (fl k')"
  shows "list_del (Frame i) h = Some h"
  using assms by (intro dl.del_detached) (auto simp: rings_def)

lemma rings_find:
  assumes "rings h n fl" "\<forall>k \<in> set ks. k \<le> BUDDY_MAXORDER"
  shows "find_block h ks = Some (case filter (\<lambda>k. fl k \<noteq> []) ks of [] \<Rightarrow> None | k # _ \<Rightarrow> Some (k, hd (fl k)))"
  using assms(2)
proof (induction ks)
  case (Cons k ks)
  have "ring h (Bucket k) (lists_of fl (Bucket k))"
    using assms(1) Cons.prems by (intro dl.familyD(1)) (auto simp: rings_def)
  from ring_next [OF this] have "l_next h (Bucket k) = Some (hd (map Frame (fl k) @ [Bucket k]))"
    by (simp add: lists_of_def)
  then show ?case using Cons by (cases "fl k") auto
qed simp

definition upd_order :: "buddy_page list \<Rightarrow> nat \<Rightarrow> int \<Rightarrow> buddy_page list" where
  "upd_order ps i k = ps[i := (ps ! i)\<lparr>order := k\<rparr>]"

lemma upd_order_simps [simp]:
  "length (upd_order ps i k) = length ps"
  "ppn (upd_order ps i k ! j) = ppn (ps ! j)"
  "i < length ps \<Longrightarrow> order (upd_order ps i k ! j) = (if j = i then k else order (ps ! j))"
  by (simp_all add: upd_order_def nth_list_update) (cases "i < length ps", simp_all add: nth_list_update list_update_beyond)

lemma map_ppn_upd [simp]: "map ppn (upd_order ps i k) = map ppn ps"
  by (intro nth_equalityI) auto

definition freeset :: "(nat \<Rightarrow> nat set) \<Rightarrow> nat set" where
  "freeset F = (\<Union>k \<in> {..BUDDY_MAXORDER}. \<Union>i \<in> F k. blk i k)"

definition contig :: "buddy_page list \<Rightarrow> nat \<Rightarrow> nat \<Rightarrow> bool" where
  "contig ps i k \<longleftrightarrow> (\<forall>j < 2 ^ k. ppn (ps ! (i + j)) = ppn (ps ! i) + int j)"

text \<open>The order a page keeps from an earlier free block that begins with it.\<close>

definition old_order :: "buddy_page list \<Rightarrow> nat \<Rightarrow> nat \<Rightarrow> bool" where
  "old_order ps k j \<longleftrightarrow> order (ps ! j) = - 1 \<or> (\<exists>s < k. order (ps ! j) = int s \<and> 2 ^ s dvd j)"

definition block_ok :: "buddy_page list \<Rightarrow> nat \<Rightarrow> nat \<Rightarrow> bool" where
  "block_ok ps i k \<longleftrightarrow> i + 2 ^ k \<le> length ps \<and> order (ps ! i) = int k \<and> contig ps i k \<and>
     (\<forall>j \<in> blk i k. j \<noteq> i \<longrightarrow> order (ps ! j) = - 1 \<or> 2 ^ k dvd i \<and> old_order ps k j)"

definition blocks :: "buddy_page list \<Rightarrow> (nat \<Rightarrow> nat set) \<Rightarrow> nat set \<Rightarrow> bool" where
  "blocks ps F H \<longleftrightarrow> (\<forall>k \<le> BUDDY_MAXORDER. \<forall>i \<in> F k. block_ok ps i k) \<and>
     (\<forall>k \<le> BUDDY_MAXORDER. \<forall>k' \<le> BUDDY_MAXORDER. \<forall>i \<in> F k. \<forall>i' \<in> F k'. (k, i) \<noteq> (k', i') \<longrightarrow> blk i k \<inter> blk i' k' = {}) \<and>
     (\<forall>j < length ps. j \<notin> freeset F \<longrightarrow> j \<notin> H \<longrightarrow> order (ps ! j) = - 1) \<and> H \<inter> freeset F = {}"

lemma blk_head [simp]: "i \<in> blk i k" by (simp add: blk_def)

lemma blocksD:
  assumes "blocks ps F H"
  shows "k \<le> BUDDY_MAXORDER \<Longrightarrow> i \<in> F k \<Longrightarrow> block_ok ps i k"
    and "k \<le> BUDDY_MAXORDER \<Longrightarrow> i \<in> F k \<Longrightarrow> blk i k \<subseteq> freeset F"
    and "k \<le> BUDDY_MAXORDER \<Longrightarrow> i \<in> F k \<Longrightarrow> k' \<le> BUDDY_MAXORDER \<Longrightarrow> i' \<in> F k' \<Longrightarrow> (k, i) \<noteq> (k', i') \<Longrightarrow> blk i k \<inter> blk i' k' = {}"
    and "j < length ps \<Longrightarrow> j \<notin> freeset F \<Longrightarrow> j \<notin> H \<Longrightarrow> order (ps ! j) = - 1"
    and "H \<inter> freeset F = {}"
proof -
  show "k \<le> BUDDY_MAXORDER \<Longrightarrow> i \<in> F k \<Longrightarrow> blk i k \<subseteq> freeset F" unfolding freeset_def by blast
qed (use assms in \<open>simp_all add: blocks_def\<close>)

lemma freeset_upd:
  assumes "k \<le> BUDDY_MAXORDER"
  shows "freeset (F(k := X)) = freeset (F(k := {})) \<union> (\<Union>i \<in> X. blk i k)"
  using assms by (auto simp: freeset_def split: if_splits) fastforce+

lemma freeset_insert: "k \<le> BUDDY_MAXORDER \<Longrightarrow> freeset (F(k := insert i (F k))) = blk i k \<union> freeset F"
  using freeset_upd [of k F "insert i (F k)"] freeset_upd [of k F "F k"] by auto

lemma freeset_take:
  assumes "blocks ps F H" "k \<le> BUDDY_MAXORDER" "i \<in> F k"
  shows "freeset (F(k := F k - {i})) = freeset F - blk i k"
proof -
  have "blk i k \<inter> blk i' k' = {}" if "i' \<in> (F(k := F k - {i})) k'" "k' \<le> BUDDY_MAXORDER" for i' k'
    using that assms(2,3) by (intro blocksD(3) [OF assms(1)]) (auto split: if_splits)
  then have "blk i k \<inter> freeset (F(k := F k - {i})) = {}" unfolding freeset_def by blast
  moreover have "freeset F = blk i k \<union> freeset (F(k := F k - {i}))"
    using freeset_insert [OF assms(2), of "F(k := F k - {i})" i] assms(3) by (simp add: insert_absorb)
  ultimately show ?thesis by blast
qed

lemma blocks_take:
  assumes "blocks ps F H" "k \<le> BUDDY_MAXORDER" "i \<in> F k"
  shows "blocks ps (F(k := F k - {i})) (H \<union> blk i k)"
proof -
  have s: "i' \<in> (F(k := F k - {i})) k' \<Longrightarrow> i' \<in> F k'" for i' k' by (auto split: if_splits)
  show ?thesis unfolding blocks_def freeset_take [OF assms]
  proof (intro conjI allI ballI impI)
    fix k1 i1 assume "k1 \<le> BUDDY_MAXORDER" "i1 \<in> (F(k := F k - {i})) k1"
    then show "block_ok ps i1 k1" using blocksD(1) [OF assms(1)] s by blast
    fix k2 i2 assume "k2 \<le> BUDDY_MAXORDER" "i2 \<in> (F(k := F k - {i})) k2" "(k1, i1) \<noteq> (k2, i2)"
    then show "blk i1 k1 \<inter> blk i2 k2 = {}"
      using \<open>k1 \<le> _\<close> \<open>i1 \<in> _\<close> s by (intro blocksD(3) [OF assms(1)]) blast+
  next
    fix j assume "j < length ps" "j \<notin> freeset F - blk i k" "j \<notin> H \<union> blk i k"
    then show "order (ps ! j) = - 1" by (intro blocksD(4) [OF assms(1)]) auto
  next
    show "(H \<union> blk i k) \<inter> (freeset F - blk i k) = {}" using blocksD(5) [OF assms(1)] by blast
  qed
qed

lemma block_ok_upd:
  assumes "block_ok ps i k" "j \<notin> blk i k"
  shows "block_ok (upd_order ps j o') i k"
proof (cases "j < length ps")
  case True
  then show ?thesis using assms by (auto simp: block_ok_def contig_def old_order_def)
next
  case False
  then show ?thesis using assms(1) by (simp add: upd_order_def list_update_beyond)
qed

lemma blocks_upd:
  assumes "blocks ps F H" "j \<in> H"
  shows "blocks (upd_order ps j o') F H"
proof -
  have "block_ok (upd_order ps j o') i k" if "k \<le> BUDDY_MAXORDER" "i \<in> F k" for i k
    using blocksD(2) [OF assms(1) that] blocksD(5) [OF assms(1)] assms(2)
    by (intro block_ok_upd blocksD(1) [OF assms(1) that]) blast
  moreover have "order (upd_order ps j o' ! j') = - 1" if "j' < length ps" "j' \<notin> freeset F" "j' \<notin> H" for j'
    using blocksD(4) [OF assms(1) that] that assms(2) by (cases "j = j'") (auto simp: upd_order_def)
  ultimately show ?thesis using assms(1) unfolding blocks_def by simp
qed

lemma blocks_put:
  assumes "blocks ps F H" "k \<le> BUDDY_MAXORDER" "blk q k \<subseteq> H" "block_ok ps q k"
  shows "blocks ps (F(k := insert q (F k))) (H - blk q k)"
proof -
  have d: "blk q k \<inter> blk i' k' = {}" if "k' \<le> BUDDY_MAXORDER" "i' \<in> F k'" for i' k'
    using blocksD(2) [OF assms(1) that] blocksD(5) [OF assms(1)] assms(3) by blast
  have s: "i' \<in> (F(k := insert q (F k))) k' \<longleftrightarrow> i' \<in> F k' \<or> (i' = q \<and> k' = k)" for i' k' by auto
  show ?thesis unfolding blocks_def freeset_insert [OF assms(2)]
  proof (intro conjI allI ballI impI)
    fix k1 i1 assume 1: "k1 \<le> BUDDY_MAXORDER" "i1 \<in> (F(k := insert q (F k))) k1"
    then show "block_ok ps i1 k1" using blocksD(1) [OF assms(1)] assms(4) unfolding s by blast
    fix k2 i2 assume 2: "k2 \<le> BUDDY_MAXORDER" "i2 \<in> (F(k := insert q (F k))) k2" "(k1, i1) \<noteq> (k2, i2)"
    then show "blk i1 k1 \<inter> blk i2 k2 = {}"
      using 1 d [of k1 i1] d [of k2 i2] blocksD(3) [OF assms(1) 1(1) _ 2(1) _ 2(3)] unfolding s by blast
  next
    fix j assume "j < length ps" "j \<notin> blk q k \<union> freeset F" "j \<notin> H - blk q k"
    then show "order (ps ! j) = - 1" by (intro blocksD(4) [OF assms(1)]) auto
  next
    show "(H - blk q k) \<inter> (blk q k \<union> freeset F) = {}" using blocksD(5) [OF assms(1)] by blast
  qed
qed

lemma blocks_release:
  assumes "blocks ps F H" "\<forall>j \<in> X. order (ps ! j) = - 1"
  shows "blocks ps F (H - X)"
  using assms unfolding blocks_def by blast

lemma blocks_grab:
  assumes "blocks ps F H" "X \<inter> freeset F = {}"
  shows "blocks ps F (H \<union> X)"
  using assms unfolding blocks_def by blast

section \<open>Splitting\<close>

lemma blk_halves: "blk i (Suc k) = blk i k \<union> blk (i + 2 ^ k) k" "blk i k \<inter> blk (i + 2 ^ k) k = {}"
  by (auto simp: blk_def)

lemma dvd_gap: "(d::nat) dvd i \<Longrightarrow> d dvd j \<Longrightarrow> i < j \<Longrightarrow> i + d \<le> j"
  by (metis add.commute dvd_diff_nat dvd_imp_le le_diff_conv2 less_imp_le_nat zero_less_diff)

lemma contig_sub: "contig ps i k \<Longrightarrow> a + 2 ^ k' \<le> 2 ^ k \<Longrightarrow> contig ps (i + a) k'"
  unfolding contig_def
proof (intro allI impI)
  fix j :: nat assume h: "\<forall>j < 2 ^ k. ppn (ps ! (i + j)) = ppn (ps ! i) + int j" "a + 2 ^ k' \<le> 2 ^ k" "j < 2 ^ k'"
  from h(1) [rule_format, of "a + j"] h(1) [rule_format, of a] h(2,3)
  show "ppn (ps ! (i + a + j)) = ppn (ps ! (i + a)) + int j" by (simp add: add.assoc)
qed

lemma half_old:
  assumes "block_ok ps i (Suc k)" "j \<in> blk q k" "j \<noteq> q" "q = i \<or> q = i + 2 ^ k"
  shows "order (ps ! j) = - 1 \<or> 2 ^ k dvd q \<and> old_order ps k j"
proof -
  have "j \<in> blk i (Suc k)" "j \<noteq> i" using assms(2-4) by (auto simp: blk_def)
  then consider "order (ps ! j) = - 1" | "2 ^ Suc k dvd i" "old_order ps (Suc k) j"
    using assms(1) by (auto simp: block_ok_def)
  then show ?thesis
  proof cases
    case 2
    then have d: "2 ^ k dvd i" "2 ^ k dvd q" using assms(4) by (auto elim: dvd_mult_right simp: mult.commute [of 2])
    have "s \<noteq> k" if "2 ^ s dvd j" for s
      using dvd_gap [OF d(2), of j] that assms(2,3) by (auto simp: blk_def)
    then show ?thesis using 2(2) d(2) unfolding old_order_def by (metis less_SucE)
  qed simp
qed

lemma halves_ok:
  assumes "block_ok ps i (Suc k)"
  defines "ps' \<equiv> upd_order (upd_order ps (i + 2 ^ k) (int k)) i (int k)"
  shows "block_ok ps' i k" "block_ok ps' (i + 2 ^ k) k"
proof -
  have n: "i + 2 * 2 ^ k \<le> length ps" using assms(1) by (simp add: block_ok_def)
  have p: "0 < (2::nat) ^ k" by simp
  have n': "i < length ps" "i + 2 ^ k < length ps" using n p by linarith+
  have c: "contig ps i (Suc k)" using assms(1) by (simp add: block_ok_def)
  have ok: "block_ok ps' q k" if q: "q = i \<or> q = i + 2 ^ k" "contig ps q k" for q
  proof -
    have "q + 2 ^ k \<le> length ps" "order (ps' ! q) = int k" using q n n' by (auto simp: ps'_def)
    moreover have "order (ps' ! j) = - 1 \<or> 2 ^ k dvd q \<and> old_order ps' k j" if j: "j \<in> blk q k" "j \<noteq> q" for j
    proof -
      have "order (ps' ! j) = order (ps ! j)" using j q n' by (auto simp: ps'_def blk_def)
      then show ?thesis using half_old [OF assms(1) j q(1)] by (simp add: old_order_def)
    qed
    ultimately show ?thesis using q by (simp add: block_ok_def contig_def ps'_def)
  qed
  show "block_ok ps' i k" "block_ok ps' (i + 2 ^ k) k"
    using ok contig_sub [OF c, of 0 k] contig_sub [OF c, of "2 ^ k" k] by auto
qed

lemma blocks_split:
  assumes "blocks ps F H" "Suc k \<le> BUDDY_MAXORDER" "i \<in> F (Suc k)"
  defines "F1 \<equiv> F(Suc k := F (Suc k) - {i})"
  shows "blocks (upd_order (upd_order ps (i + 2 ^ k) (int k)) i (int k)) (F1(k := insert (i + 2 ^ k) (insert i (F k)))) H"
    "freeset (F1(k := insert (i + 2 ^ k) (insert i (F k)))) = freeset F"
proof -
  let ?ps = "upd_order (upd_order ps (i + 2 ^ k) (int k)) i (int k)"
  have k: "k \<le> BUDDY_MAXORDER" using assms(2) by simp
  have h: "block_ok ?ps i k" "block_ok ?ps (i + 2 ^ k) k" using halves_ok blocksD(1) [OF assms(1-3)] by blast+
  have ex: "H \<inter> blk i (Suc k) = {}" using blocksD(2) [OF assms(1-3)] blocksD(5) [OF assms(1)] by blast
  have "blocks ?ps F1 (H \<union> blk i (Suc k))" unfolding F1_def
    by (intro blocks_upd blocks_take assms) (auto simp: blk_halves)
  from blocks_put [OF this k _ h(1)] have "blocks ?ps (F1(k := insert i (F1 k))) (H \<union> blk i (Suc k) - blk i k)"
    by (auto simp: blk_halves)
  moreover have "blk (i + 2 ^ k) k \<subseteq> H \<union> blk i (Suc k) - blk i k" using blk_halves [of i k] by blast
  ultimately
  have "blocks ?ps (F1(k := insert i (F1 k), k := insert (i + 2 ^ k) ((F1(k := insert i (F1 k))) k)))
     (H \<union> blk i (Suc k) - blk i k - blk (i + 2 ^ k) k)" by (rule blocks_put [OF _ k _ h(2)])
  moreover have "H \<union> blk i (Suc k) - blk i k - blk (i + 2 ^ k) k = H" using ex by (auto simp: blk_halves)
  moreover have "F1(k := insert i (F1 k), k := insert (i + 2 ^ k) ((F1(k := insert i (F1 k))) k)) =
     F1(k := insert (i + 2 ^ k) (insert i (F k)))" by (simp add: F1_def)
  ultimately show "blocks ?ps (F1(k := insert (i + 2 ^ k) (insert i (F k)))) H" by simp
  have "F1(k := insert (i + 2 ^ k) (insert i (F k))) = F1(k := insert i (F1 k), k := insert (i + 2 ^ k) ((F1(k := insert i (F1 k))) k))"
    by (simp add: F1_def)
  then have "freeset (F1(k := insert (i + 2 ^ k) (insert i (F k)))) = blk (i + 2 ^ k) k \<union> (blk i k \<union> freeset F1)"
    by (simp only: freeset_insert [OF k])
  then show "freeset (F1(k := insert (i + 2 ^ k) (insert i (F k)))) = freeset F"
    using freeset_take [OF assms(1-3)] blocksD(2) [OF assms(1-3)] unfolding F1_def by (auto simp: blk_halves)
qed

section \<open>Buddies\<close>

lemma xor_buddy:
  assumes "2 ^ k dvd (q::nat)"
  shows "q XOR 2 ^ k = (if 2 ^ Suc k dvd q then q + 2 ^ k else q - 2 ^ k)"
proof -
  obtain m where m: "q = push_bit k m" using assms by (auto simp: push_bit_eq_mult mult.commute)
  have "q XOR 2 ^ k = push_bit k m XOR push_bit k 1" by (simp only: m push_bit_eq_mult mult_1)
  also have "\<dots> = push_bit k (m XOR 1)" by (simp only: push_bit_xor)
  also have "m XOR 1 = (if even m then m + 1 else m - 1)" by (cases "even m") (auto elim!: evenE oddE simp: xor_Suc_0_eq)
  finally have x: "q XOR 2 ^ k = push_bit k (if even m then m + 1 else m - 1)" .
  have "2 ^ Suc k dvd q \<longleftrightarrow> even m" by (simp add: m push_bit_eq_mult mult.commute [of m])
  then have "q XOR 2 ^ k = push_bit k (if 2 ^ Suc k dvd q then m + 1 else m - 1)" using x by simp
  moreover have "push_bit k (m + 1) = q + 2 ^ k" "push_bit k (m - 1) = q - 2 ^ k"
    by (simp_all add: m push_bit_eq_mult diff_mult_distrib)
  ultimately show ?thesis by (simp only: if_distrib [of "push_bit k"] split: if_split)
qed

end
