(* ===== verification/Buddy_Spec.thy ===== *)
theory Buddy_Spec
  imports Buddy_Lists
begin

text \<open>
  The invariant of the buddy allocator and what its operations do to it: the split loop, the claim of references,
  the merge loop, allocation with the reclaim hook, and freeing. The free blocks cover exactly the pages
  whose reference count is zero; the abstract state of the allocator is the list of reference counts.
\<close>

section \<open>Lists and blocks together\<close>

definition heads :: "(nat \<Rightarrow> nat list) \<Rightarrow> nat \<Rightarrow> nat set" where
  "heads fl = (\<lambda>k. set (fl k))"

lemma heads_upd: "heads (fl(k := xs)) = (heads fl)(k := set xs)"
  by (rule ext) (simp add: heads_def)

lemma heads_at: "heads fl k = set (fl k)"
  by (simp add: heads_def)

definition heap_ok :: "buddy \<Rightarrow> (nat \<Rightarrow> nat list) \<Rightarrow> nat set \<Rightarrow> bool" where
  "heap_ok b fl H \<longleftrightarrow> rings (links b) (length (pages b)) fl \<and> blocks (pages b) (heads fl) H \<and>
     (\<forall>k \<le> BUDDY_MAXORDER. aval_pages b k = of_nat (length (fl k)))"

text \<open>What the list operations leave alone.\<close>

definition frame_of :: "buddy \<Rightarrow> mem_zone \<times> int list \<times> u64" where
  "frame_of b = (zone b, map ppn (pages b), total_avaliable_pages b)"

lemma frame_length: "frame_of b' = frame_of b \<Longrightarrow> length (pages b') = length (pages b)"
  by (auto simp: frame_of_def dest: map_eq_imp_length_eq)

lemma block_head_unique:
  assumes "blocks ps F H" "k \<le> BUDDY_MAXORDER" "i \<in> F k" "j \<in> blk i k" "k' \<le> BUDDY_MAXORDER" "j \<in> F k'"
  shows "j = i \<and> k' = k"
  using blocksD(3) [OF assms(1,2,3,5,6)] assms(4) blk_head [of j k'] by blast

lemma hand_no_head:
  assumes "blocks ps F H" "j \<in> H" "k \<le> BUDDY_MAXORDER"
  shows "j \<notin> F k"
  using blocksD(2) [OF assms(1,3), of j] blocksD(5) [OF assms(1)] assms(2) blk_head [of j k] by blast

lemma set_order_eq: "i < length (pages b) \<Longrightarrow> set_order i k b = Some (b\<lparr>pages := upd_order (pages b) i k\<rparr>)"
  by (simp add: set_order_def upd_order_def)

lemma length_remove1_word: "i \<in> set xs \<Longrightarrow> (of_nat (length (remove1 i xs)) :: u64) = of_nat (length xs) - 1"
  using length_pos_if_in_set [of i xs] by (simp add: length_remove1 of_nat_diff Suc_leI)

lemma split_step:
  assumes ok: "heap_ok b fl {}" and k: "Suc k \<le> BUDDY_MAXORDER" and i: "i \<in> set (fl (Suc k))"
  shows "\<exists>b'. do {
     bp \<leftarrow> set_order (i + 2 ^ k) (int k) b;
     bp \<leftarrow> set_order i (int k) bp;
     let bp = add_aval k 2 (add_aval (Suc k) (- 1) bp);
     bp \<leftarrow> del_frame i bp;
     bp \<leftarrow> add_frame i k bp;
     add_frame (i + 2 ^ k) k bp } = Some b' \<and>
     heap_ok b' (fl(Suc k := remove1 i (fl (Suc k)), k := (i + 2 ^ k) # i # fl k)) {} \<and> frame_of b' = frame_of b"
proof -
  let ?fl1 = "fl(Suc k := remove1 i (fl (Suc k)))" and ?n = "length (pages b)"
  let ?fl2 = "?fl1(k := (i + 2 ^ k) # i # fl k)"
  let ?ps = "upd_order (upd_order (pages b) (i + 2 ^ k) (int k)) i (int k)"
  have r: "rings (links b) ?n fl" and bl: "blocks (pages b) (heads fl) {}"
    and av: "\<And>j. j \<le> BUDDY_MAXORDER \<Longrightarrow> aval_pages b j = of_nat (length (fl j))"
    using ok by (auto simp: heap_ok_def)
  have bi: "block_ok (pages b) i (Suc k)" using blocksD(1) [OF bl k] i by (simp add: heads_at)
  have p: "0 < (2::nat) ^ k" by simp
  have n: "i < ?n" "i + 2 ^ k < ?n" using bi p unfolding block_ok_def power_Suc by linarith+
  have d: "distinct (fl (Suc k))" by (rule rings_distinct [OF r k])
  have kk: "k \<le> BUDDY_MAXORDER" using k by simp
  have f1: "\<forall>k' \<le> BUDDY_MAXORDER. i \<notin> set (?fl1 k')" using rings_once [OF r k _ i] d by auto
  have "i + 2 ^ k \<in> blk i (Suc k)" "i + 2 ^ k \<noteq> i" by (auto simp: blk_def)
  then have "\<forall>k' \<le> BUDDY_MAXORDER. i + 2 ^ k \<notin> set (fl k')"
    using block_head_unique [OF bl k, of i "i + 2 ^ k"] i by (auto simp: heads_at)
  then have f2: "\<forall>k' \<le> BUDDY_MAXORDER. i + 2 ^ k \<notin> set ((?fl1(k := i # ?fl1 k)) k')"
    using set_remove1_subset [of i "fl (Suc k)"] k by auto
  from rings_del [OF r k i] obtain h1 where h1: "list_del (Frame i) (links b) = Some h1" "rings h1 ?n ?fl1" by blast
  have e: "?fl1(k := i # ?fl1 k, k := (i + 2 ^ k) # (?fl1(k := i # ?fl1 k)) k) = ?fl2" by auto
  from rings_add [OF h1(2) kk f1] obtain h2 where
    h2: "list_add_head (Frame i) (Bucket k) h1 = Some h2" "rings h2 ?n (?fl1(k := i # ?fl1 k))" by blast
  from rings_add [OF h2(2) kk f2] obtain h3 where
    h3: "list_add_head (Frame (i + 2 ^ k)) (Bucket k) h2 = Some h3" "rings h3 ?n ?fl2"
    unfolding e by blast
  let ?b = "add_aval k 2 (add_aval (Suc k) (- 1) b)\<lparr>pages := ?ps, links := h3\<rparr>"
  have run: "do {
     bp \<leftarrow> set_order (i + 2 ^ k) (int k) b;
     bp \<leftarrow> set_order i (int k) bp;
     let bp = add_aval k 2 (add_aval (Suc k) (- 1) bp);
     bp \<leftarrow> del_frame i bp;
     bp \<leftarrow> add_frame i k bp;
     add_frame (i + 2 ^ k) k bp } = Some ?b"
    using n h1(1) h2(1) h3(1) by (simp add: set_order_eq add_aval_def del_frame_def add_frame_def)
  have "blocks ?ps (heads ?fl2) {}" using blocks_split(1) [OF bl k, of i] i d by (simp add: heads_upd heads_at)
  moreover have "aval_pages ?b j = of_nat (length (?fl2 j))" if "j \<le> BUDDY_MAXORDER" for j
    using av [OF that] i by (auto simp: add_aval_def length_remove1_word)
  ultimately have "heap_ok ?b ?fl2 {}" using h3(2) by (simp add: heap_ok_def)
  moreover have "frame_of ?b = frame_of b" by (simp add: frame_of_def add_aval_def)
  ultimately show ?thesis using run by blast
qed

lemma split_loop_ok:
  assumes "heap_ok b fl {}" "k + d \<le> BUDDY_MAXORDER" "i \<in> set (fl (k + d))"
  shows "\<exists>b' fl'. split_loop k i d b = Some b' \<and> heap_ok b' fl' {} \<and> i \<in> set (fl' k) \<and>
     freeset (heads fl') = freeset (heads fl) \<and> frame_of b' = frame_of b"
  using assms
proof (induction d arbitrary: b fl)
  case (Suc d)
  let ?k = "k + d"
  have k: "Suc ?k \<le> BUDDY_MAXORDER" and i: "i \<in> set (fl (Suc ?k))" using Suc.prems by simp_all
  let ?fl = "fl(Suc ?k := remove1 i (fl (Suc ?k)), ?k := (i + 2 ^ ?k) # i # fl ?k)"
  from split_step [OF Suc.prems(1) k i] obtain b1 where b1: "do {
     bp \<leftarrow> set_order (i + 2 ^ ?k) (int ?k) b;
     bp \<leftarrow> set_order i (int ?k) bp;
     let bp = add_aval ?k 2 (add_aval (Suc ?k) (- 1) bp);
     bp \<leftarrow> del_frame i bp;
     bp \<leftarrow> add_frame i ?k bp;
     add_frame (i + 2 ^ ?k) ?k bp } = Some b1" "heap_ok b1 ?fl {}" "frame_of b1 = frame_of b" by blast
  have run: "split_loop k i (Suc d) b = split_loop k i d b1"
    using b1(1) by (auto simp: Let_def split: bind_splits)
  have "blocks (pages b) (heads fl) {}" using Suc.prems(1) by (simp add: heap_ok_def)
  moreover have "distinct (fl (Suc ?k))"
    using Suc.prems(1) k by (intro rings_distinct [of "links b" "length (pages b)"]) (auto simp: heap_ok_def)
  ultimately have "freeset (heads ?fl) = freeset (heads fl)"
    using blocks_split(2) [of "pages b" "heads fl" "{}" ?k i] k i by (simp add: heads_upd heads_at)
  moreover have "?k \<le> BUDDY_MAXORDER" "i \<in> set (?fl ?k)" using k by simp_all
  from Suc.IH [OF b1(2) this] obtain b' fl' where "split_loop k i d b1 = Some b'" "heap_ok b' fl' {}" "i \<in> set (fl' k)"
     "freeset (heads fl') = freeset (heads ?fl)" "frame_of b' = frame_of b1" by blast
  ultimately show ?case using run b1(3) by auto
qed auto

lemma mark_loop_ok:
  assumes "\<forall>j \<in> set js. i + j < length (pages b)"
  shows "\<exists>ps. mark_loop i js b = Some (b\<lparr>pages := ps\<rparr>) \<and> map ppn ps = map ppn (pages b) \<and>
     (\<forall>j. order (ps ! j) = (if j \<in> (+) i ` set js then - 1 else order (pages b ! j))) \<and>
     (\<forall>F H. blocks (pages b) F H \<longrightarrow> (+) i ` set js \<subseteq> H \<longrightarrow> blocks ps F H)"
  using assms
proof (induction js arbitrary: b)
  case (Cons j js)
  let ?b = "b\<lparr>pages := upd_order (pages b) (i + j) (- 1)\<rparr>"
  obtain ps where ps: "mark_loop i js ?b = Some (?b\<lparr>pages := ps\<rparr>)" "map ppn ps = map ppn (pages ?b)"
     "\<And>j'. order (ps ! j') = (if j' \<in> (+) i ` set js then - 1 else order (pages ?b ! j'))"
     "\<And>F H. blocks (pages ?b) F H \<Longrightarrow> (+) i ` set js \<subseteq> H \<Longrightarrow> blocks ps F H"
    using Cons.IH [of ?b] Cons.prems by auto
  have "mark_loop i (j # js) b = Some (b\<lparr>pages := ps\<rparr>)" using ps(1) Cons.prems by (simp add: set_order_eq)
  moreover have "blocks ps F H" if "blocks (pages b) F H" "(+) i ` set (j # js) \<subseteq> H" for F H
    using that by (intro ps(4)) (auto intro: blocks_upd)
  ultimately show ?case using ps(2,3) Cons.prems by (intro exI [of _ ps]) auto
next
  case Nil
  then show ?case by (intro exI [of _ "pages b"]) simp
qed

section \<open>The invariant\<close>

definition free_pages :: "buddy \<Rightarrow> nat set" where
  "free_pages b = {i. i < length (pages b) \<and> flat_refs (zone b) ! i = 0}"

text \<open>The free blocks cover exactly the pages without a reference.\<close>

definition buddy_ok :: "buddy \<Rightarrow> (nat \<Rightarrow> nat list) \<Rightarrow> bool" where
  "buddy_ok b fl \<longleftrightarrow> heap_ok b fl {} \<and> freeset (heads fl) = free_pages b \<and>
     total_avaliable_pages b = of_nat (card (free_pages b)) \<and>
     zone_ok (zone b) \<and> map ppn (pages b) = zone_ppns (zone b) \<and>
     (\<forall>i < length (pages b). 0 \<le> flat_refs (zone b) ! i) \<and> length (pages b) < 2 ^ 64"

definition buddy_inv :: "buddy \<Rightarrow> bool" where
  "buddy_inv b \<longleftrightarrow> (\<exists>fl. buddy_ok b fl)"

lemma buddy_okD:
  assumes "buddy_ok b fl"
  shows "rings (links b) (length (pages b)) fl" "blocks (pages b) (heads fl) {}"
    "freeset (heads fl) = free_pages b" "zone_ok (zone b)" "length (flat_refs (zone b)) = length (pages b)"
    "length (zone_ppns (zone b)) = length (pages b)"
    "i < length (pages b) \<Longrightarrow> ppn (pages b ! i) = zone_ppns (zone b) ! i"
proof -
  have m: "map ppn (pages b) = zone_ppns (zone b)" using assms by (simp add: buddy_ok_def)
  then show l: "length (zone_ppns (zone b)) = length (pages b)" by (metis length_map)
  then show "length (flat_refs (zone b)) = length (pages b)" by (simp add: length_flat)
  show "i < length (pages b) \<Longrightarrow> ppn (pages b ! i) = zone_ppns (zone b) ! i" using m by (metis nth_map)
qed (use assms in \<open>auto simp: buddy_ok_def heap_ok_def\<close>)

lemma finite_free [simp]: "finite (free_pages b)"
  by (simp add: free_pages_def)

lemma blk_card [simp]: "card (blk i k) = 2 ^ k" "finite (blk i k)"
  by (simp_all add: blk_def)

text \<open>The last steps of an allocation, from the state after the split.\<close>

lemma alloc_take:
  assumes ok: "heap_ok b fl {}" and k: "k \<le> BUDDY_MAXORDER" and i: "i \<in> set (fl k)"
  shows "\<exists>b'. do {
     bp \<leftarrow> mark_loop i [0..<2 ^ k] b;
     bp \<leftarrow> del_frame i bp;
     let bp = add_aval k (- 1) bp;
     Some (bp\<lparr>total_avaliable_pages := total_avaliable_pages bp - 2 ^ k\<rparr>) } = Some b' \<and>
     heap_ok b' (fl(k := remove1 i (fl k))) {} \<and> freeset (heads (fl(k := remove1 i (fl k)))) = freeset (heads fl) - blk i k \<and>
     frame_of b' = (zone b, map ppn (pages b), total_avaliable_pages b - 2 ^ k)"
proof -
  let ?fl = "fl(k := remove1 i (fl k))" and ?n = "length (pages b)"
  have r: "rings (links b) ?n fl" and bl: "blocks (pages b) (heads fl) {}"
    and av: "\<And>j. j \<le> BUDDY_MAXORDER \<Longrightarrow> aval_pages b j = of_nat (length (fl j))"
    using ok by (auto simp: heap_ok_def)
  have ih: "i \<in> heads fl k" using i by (simp add: heads_at)
  have hd: "heads ?fl = (heads fl)(k := heads fl k - {i})"
    using rings_distinct [OF r k] by (simp add: heads_upd heads_at)
  have bi: "i + 2 ^ k \<le> ?n" using blocksD(1) [OF bl k ih] by (simp add: block_ok_def)
  have im: "(+) i ` set [0..<2 ^ k] = blk i k" by (simp add: blk_def add.commute)
  obtain ps where ps: "mark_loop i [0..<2 ^ k] b = Some (b\<lparr>pages := ps\<rparr>)" "map ppn ps = map ppn (pages b)"
     "\<forall>j. order (ps ! j) = (if j \<in> blk i k then - 1 else order (pages b ! j))"
     "\<forall>F H. blocks (pages b) F H \<longrightarrow> blk i k \<subseteq> H \<longrightarrow> blocks ps F H"
    using mark_loop_ok [of "[0..<2 ^ k]" i b] bi unfolding im by auto
  have "blocks ps (heads ?fl) (blk i k)"
    using ps(4) blocks_take [OF bl k ih] unfolding hd by auto
  then have "blocks ps (heads ?fl) (blk i k - blk i k)" by (rule blocks_release) (simp add: ps(3))
  then have bl': "blocks ps (heads ?fl) {}" by simp
  from rings_del [OF r k i] obtain h where h: "list_del (Frame i) (links b) = Some h" "rings h ?n ?fl" by blast
  let ?b = "add_aval k (- 1) b\<lparr>pages := ps, links := h, total_avaliable_pages := total_avaliable_pages b - 2 ^ k\<rparr>"
  have run: "do {
     bp \<leftarrow> mark_loop i [0..<2 ^ k] b;
     bp \<leftarrow> del_frame i bp;
     let bp = add_aval k (- 1) bp;
     Some (bp\<lparr>total_avaliable_pages := total_avaliable_pages bp - 2 ^ k\<rparr>) } = Some ?b"
    using ps(1) h(1) by (simp add: del_frame_def add_aval_def)
  have "aval_pages ?b j = of_nat (length (?fl j))" if "j \<le> BUDDY_MAXORDER" for j
    using av [OF that] i by (auto simp: add_aval_def length_remove1_word)
  moreover have "length ps = ?n" using ps(2) by (metis length_map)
  ultimately have "heap_ok ?b ?fl {}" using h(2) bl' by (simp add: heap_ok_def)
  moreover have "freeset (heads ?fl) = freeset (heads fl) - blk i k" unfolding hd by (rule freeset_take [OF bl k ih])
  moreover have "frame_of ?b = (zone b, map ppn (pages b), total_avaliable_pages b - 2 ^ k)"
    using ps(2) by (simp add: frame_of_def add_aval_def)
  ultimately show ?thesis using run by blast
qed

lemma alloc_zone_take:
  assumes ok: "buddy_ok b fl" and o: "alloc_order \<le> k" "k \<le> BUDDY_MAXORDER" and i: "i \<in> set (fl k)"
    and found: "find_block (links b) [alloc_order..<Suc BUDDY_MAXORDER] = Some (Some (k, i))"
  shows "\<exists>b' fl'. pmm_alloc_zone alloc_order b = Some (b', Inr (ppn (pages b ! i)), 2 ^ alloc_order) \<and> buddy_ok b' fl' \<and>
     i + 2 ^ alloc_order \<le> length (pages b) \<and> contig (pages b) i alloc_order \<and> blk i alloc_order \<subseteq> free_pages b \<and>
     map ppn (pages b') = map ppn (pages b) \<and> shape (zone b') = shape (zone b) \<and>
     (\<forall>j < length (pages b). flat_refs (zone b') ! j = (if j \<in> blk i alloc_order then 1 else flat_refs (zone b) ! j))"
proof -
  note D = buddy_okD [OF ok]
  have bi: "block_ok (pages b) i k" using blocksD(1) [OF D(2) o(2)] i by (simp add: heads_at)
  have le: "(2::nat) ^ alloc_order \<le> 2 ^ k" using o(1) by simp
  have p: "0 < (2::nat) ^ alloc_order" by simp
  have n: "i + 2 ^ alloc_order \<le> length (pages b)" using bi le unfolding block_ok_def by linarith
  then have n': "i < length (pages b)" using p by linarith
  have cg: "contig (pages b) i alloc_order" using bi contig_sub [of "pages b" i k 0 alloc_order] le by (simp add: block_ok_def)
  have sub: "blk i alloc_order \<subseteq> free_pages b"
  proof
    fix j assume "j \<in> blk i alloc_order"
    then have "j \<in> blk i k" using le unfolding blk_def atLeastLessThan_iff by linarith
    then show "j \<in> free_pages b" using blocksD(2) [OF D(2) o(2), of i] i D(3) by (auto simp: heads_at)
  qed
  have pp: "ppn (pages b ! i) = zone_ppns (zone b) ! i" by (rule D(7) [OF n'])
  obtain cur where cur: "zone_page_cursor_init (zone b) (ppn (pages b ! i)) = Some cur" "cur_at (zone b) cur i"
    using cursor_init_ok [OF D(4), of i] n' D(6) pp by auto
  have "\<forall>j \<in> {i..<i + 2 ^ alloc_order}. flat_refs (zone b) ! j = 0"
    using sub by (auto simp: blk_def free_pages_def subset_iff)
  from claim_loop_ok [OF D(4) cur(2) _ this, of 0] obtain z where
    z: "claim_loop (2 ^ alloc_order) 0 cur (zone b) = (z, 2 ^ alloc_order, True)" "shape z = shape (zone b)"
     "\<And>j. j < length (pages b) \<Longrightarrow> flat_refs z ! j = (if j \<in> blk i alloc_order then 1 else flat_refs (zone b) ! j)"
    using n D(5) by (auto simp: blk_def)
  have "heap_ok (b\<lparr>zone := z\<rparr>) fl {}" using ok by (simp add: buddy_ok_def heap_ok_def)
  from split_loop_ok [OF this, of alloc_order "k - alloc_order" i] o i obtain b1 fl1 where
    b1: "split_loop alloc_order i (k - alloc_order) (b\<lparr>zone := z\<rparr>) = Some b1" "heap_ok b1 fl1 {}" "i \<in> set (fl1 alloc_order)"
     "freeset (heads fl1) = freeset (heads fl)" "frame_of b1 = frame_of (b\<lparr>zone := z\<rparr>)" by auto
  have o': "alloc_order \<le> BUDDY_MAXORDER" using o by simp
  from alloc_take [OF b1(2) o' b1(3)] obtain b2 where b2: "do {
     bp \<leftarrow> mark_loop i [0..<2 ^ alloc_order] b1;
     bp \<leftarrow> del_frame i bp;
     let bp = add_aval alloc_order (- 1) bp;
     Some (bp\<lparr>total_avaliable_pages := total_avaliable_pages bp - 2 ^ alloc_order\<rparr>) } = Some b2"
     "heap_ok b2 (fl1(alloc_order := remove1 i (fl1 alloc_order))) {}"
     "freeset (heads (fl1(alloc_order := remove1 i (fl1 alloc_order)))) = freeset (heads fl1) - blk i alloc_order"
     "frame_of b2 = (zone b1, map ppn (pages b1), total_avaliable_pages b1 - 2 ^ alloc_order)" by blast
  let ?fl = "fl1(alloc_order := remove1 i (fl1 alloc_order))"
  have fr: "zone b2 = z" "map ppn (pages b2) = map ppn (pages b)" "total_avaliable_pages b2 = total_avaliable_pages b - 2 ^ alloc_order"
    using b2(4) b1(5) by (auto simp: frame_of_def)
  have len: "length (pages b2) = length (pages b)" using fr(2) by (metis length_map)
  have pi: "ppn (pages b2 ! i) = ppn (pages b ! i)" using fr(2) n' len by (metis nth_map)
  have "order (pages b ! i) = int k" using bi by (simp add: block_ok_def)
  then have run: "pmm_alloc_zone alloc_order b = Some (b2, Inr (ppn (pages b ! i)), 2 ^ alloc_order)"
    unfolding pmm_alloc_zone_def using found n' cur(1) z(1) b1(1) b2(1) pi
    by (auto simp: Let_def split: bind_splits)
  have fp: "free_pages b2 = free_pages b - blk i alloc_order"
    using z(3) len fr(1) by (auto simp: free_pages_def split: if_splits)
  have "card (free_pages b2) = card (free_pages b) - 2 ^ alloc_order" "2 ^ alloc_order \<le> card (free_pages b)"
    unfolding fp using sub card_mono [OF finite_free sub] by (simp_all add: card_Diff_subset)
  then have "total_avaliable_pages b2 = of_nat (card (free_pages b2))"
    using fr(3) ok by (simp add: buddy_ok_def of_nat_diff)
  then have "buddy_ok b2 ?fl"
    using ok b2(2,3) b1(4) fr(1,2) len z(2,3) fp D(3) unfolding buddy_ok_def by (auto simp: shapeD [OF z(2)])
  then show ?thesis using run n cg sub fr z(2,3) by blast
qed

lemma alloc_zone_cases:
  assumes "buddy_ok b fl"
  obtains (none) "find_block (links b) [alloc_order..<Suc BUDDY_MAXORDER] = Some None"
      "\<And>k. alloc_order \<le> k \<Longrightarrow> k \<le> BUDDY_MAXORDER \<Longrightarrow> fl k = []"
    | (some) k i where "find_block (links b) [alloc_order..<Suc BUDDY_MAXORDER] = Some (Some (k, i))"
      "alloc_order \<le> k" "k \<le> BUDDY_MAXORDER" "i \<in> set (fl k)"
proof -
  have f: "find_block (links b) [alloc_order..<Suc BUDDY_MAXORDER] =
     Some (case filter (\<lambda>k. fl k \<noteq> []) [alloc_order..<Suc BUDDY_MAXORDER] of [] \<Rightarrow> None | k # _ \<Rightarrow> Some (k, hd (fl k)))"
    using buddy_okD(1) [OF assms] by (intro rings_find) auto
  show ?thesis
  proof (cases "filter (\<lambda>k. fl k \<noteq> []) [alloc_order..<Suc BUDDY_MAXORDER]")
    case Nil
    then have "\<forall>k \<in> set [alloc_order..<Suc BUDDY_MAXORDER]. fl k = []" by (simp add: filter_empty_conv)
    then show ?thesis using f Nil by (intro none) auto
  next
    case (Cons k ks)
    then have "k \<in> set (filter (\<lambda>k. fl k \<noteq> []) [alloc_order..<Suc BUDDY_MAXORDER])" by simp
    then show ?thesis using f Cons by (intro some [of k "hd (fl k)"]) auto
  qed
qed

text \<open>A block of order \<open>k\<close> at \<open>q\<close> that is in no list while pages are merged.\<close>

definition in_hand :: "buddy \<Rightarrow> (nat \<Rightarrow> nat list) \<Rightarrow> nat \<Rightarrow> nat \<Rightarrow> bool" where
  "in_hand b fl q k \<longleftrightarrow> heap_ok b fl (blk q k) \<and> k \<le> BUDDY_MAXORDER \<and> 2 ^ k dvd q \<and> q + 2 ^ k \<le> length (pages b) \<and>
     contig (pages b) q k \<and> (\<forall>j \<in> blk q k. old_order (pages b) k j)"

lemma contig_join: "contig ps l k \<Longrightarrow> contig ps (l + 2 ^ k) k \<Longrightarrow> ppn (ps ! (l + 2 ^ k)) = ppn (ps ! l) + 2 ^ k \<Longrightarrow> contig ps l (Suc k)"
  unfolding contig_def
proof (intro allI impI)
  fix j :: nat
  assume h: "\<forall>j < 2 ^ k. ppn (ps ! (l + j)) = ppn (ps ! l) + int j" "ppn (ps ! (l + 2 ^ k)) = ppn (ps ! l) + 2 ^ k"
    "\<forall>j < 2 ^ k. ppn (ps ! (l + 2 ^ k + j)) = ppn (ps ! (l + 2 ^ k)) + int j" "j < 2 ^ Suc k"
  show "ppn (ps ! (l + j)) = ppn (ps ! l) + int j"
  proof (cases "j < 2 ^ k")
    case False
    then have "j - 2 ^ k < 2 ^ k" "l + 2 ^ k + (j - 2 ^ k) = l + j" "int (j - 2 ^ k) = int j - 2 ^ k" using h(4) by (simp_all add: of_nat_diff)
    then show ?thesis using h(2) h(3) [rule_format, of "j - 2 ^ k"] by simp
  qed (use h(1) in simp)
qed

text \<open>A page with order \<open>k\<close> next to a block in hand begins a free block.\<close>

lemma buddy_is_head:
  assumes bl: "blocks ps F (blk q k)" and d: "2 ^ k dvd q" and k: "k \<le> BUDDY_MAXORDER"
    and u: "u = q XOR 2 ^ k" "u < length ps" "order (ps ! u) = int k"
  shows "u \<in> F k"
proof -
  have u': "u = (if 2 ^ Suc k dvd q then q + 2 ^ k else q - 2 ^ k)" using xor_buddy [OF d] u(1) by simp
  have q0: "2 ^ k \<le> q" if "\<not> 2 ^ Suc k dvd q" using that d by (cases "q = 0") (auto dest: dvd_imp_le)
  have "u \<notin> blk q k" using u' q0 by (auto simp: blk_def split: if_splits)
  then have "u \<in> freeset F" using blocksD(4) [OF bl u(2)] u(3) by auto
  then obtain K i where K: "K \<le> BUDDY_MAXORDER" "i \<in> F K" "u \<in> blk i K" by (auto simp: freeset_def)
  note ok = blocksD(1) [OF bl K(1,2)]
  show ?thesis
  proof (cases "u = i")
    case True
    then show ?thesis using ok u(3) K(2) by (simp add: block_ok_def)
  next
    case False
    then have al: "2 ^ K dvd i" "k < K" using ok K(3) u(3) by (auto simp: block_ok_def old_order_def)
    have dS: "2 ^ Suc k dvd i" using al by (metis Suc_leI dvd_trans le_imp_power_dvd)
    have S: "(2::nat) ^ Suc k dvd 2 ^ K" using al(2) by (intro le_imp_power_dvd) simp
    have lt: "i \<le> u" "u < i + 2 ^ K" using K(3) by (auto simp: blk_def)
    have "q \<in> blk i K"
    proof (cases "2 ^ Suc k dvd q")
      case True
      have "i \<le> q"
      proof (rule ccontr)
        assume "\<not> i \<le> q"
        then have "q + 2 ^ Suc k \<le> i" using dvd_gap [OF True dS] by simp
        moreover have "u = q + 2 ^ k" using u' True by argo
        ultimately show False using lt(1) zero_less_power [of "2::nat" k] unfolding power_Suc by linarith
      qed
      then show ?thesis using lt u' True by (simp add: blk_def)
    next
      case False
      then have q: "q = u + 2 ^ k" using u' q0 by simp
      obtain c where c: "q = 2 ^ k * c" using d by blast
      then have "odd c" using False by (auto elim!: evenE)
      then have "2 ^ Suc k dvd u" using c q by (auto elim!: oddE simp: algebra_simps)
      then have "u + 2 ^ Suc k \<le> i + 2 ^ K" using dvd_gap [of "2 ^ Suc k" u "i + 2 ^ K"] dS S lt by (simp add: dvd_add)
      then show ?thesis using lt q by (simp add: blk_def)
    qed
    then show ?thesis using blocksD(2) [OF bl K(1,2)] blocksD(5) [OF bl] blk_head [of q k] by blast
  qed
qed

lemma buddy_join:
  assumes d: "2 ^ k dvd (q::nat)" and u: "u = q XOR 2 ^ k"
  shows "u \<noteq> q" "2 ^ k dvd u" "2 ^ Suc k dvd min q u" "max q u = min q u + 2 ^ k" "blk (min q u) (Suc k) = blk q k \<union> blk u k"
proof -
  have u': "u = (if 2 ^ Suc k dvd q then q + 2 ^ k else q - 2 ^ k)" using xor_buddy [OF d] u by simp
  have q0: "2 ^ k \<le> q" if "\<not> 2 ^ Suc k dvd q" using that d by (cases "q = 0") (auto dest: dvd_imp_le)
  have p: "0 < (2::nat) ^ k" by simp
  show "u \<noteq> q"
  proof (cases "2 ^ Suc k dvd q")
    case False
    have "u = q - 2 ^ k" using u' False by argo
    then show ?thesis using q0 [OF False] p by linarith
  qed (use u' in simp)
  show "2 ^ k dvd u" using u' d by (auto simp: dvd_diff_nat)
  show m: "max q u = min q u + 2 ^ k" using u' q0 by auto
  show "2 ^ Suc k dvd min q u"
  proof (cases "2 ^ Suc k dvd q")
    case False
    obtain c where c: "q = 2 ^ k * c" using d by blast
    then have "odd c" using False by (auto elim!: evenE)
    then have "2 ^ Suc k dvd q - 2 ^ k" using c by (auto elim!: oddE simp: algebra_simps)
    then show ?thesis using u' False by simp
  qed (simp add: u')
  show "blk (min q u) (Suc k) = blk q k \<union> blk u k" using m by (auto simp: blk_def min_def max_def split: if_splits)
qed

lemma merge_step:
  assumes hand: "in_hand b fl q k" and k: "Suc k \<le> BUDDY_MAXORDER" and u: "u = q XOR 2 ^ k" "u < length (pages b)"
    and o: "order (pages b ! u) = int k" and p: "ppn (pages b ! max q u) - ppn (pages b ! min q u) = 2 ^ k"
  shows "\<exists>b'. do { bp \<leftarrow> del_frame q b; bp \<leftarrow> del_frame u bp; Some (add_aval k (- 1) bp) } = Some b' \<and>
     in_hand b' (fl(k := remove1 u (fl k))) (min q u) (Suc k) \<and>
     freeset (heads (fl(k := remove1 u (fl k)))) \<union> blk (min q u) (Suc k) = freeset (heads fl) \<union> blk q k \<and>
     frame_of b' = frame_of b \<and> pages b' = pages b"
proof -
  let ?fl = "fl(k := remove1 u (fl k))" and ?n = "length (pages b)" and ?l = "min q u"
  have r: "rings (links b) ?n fl" and bl: "blocks (pages b) (heads fl) (blk q k)"
    and av: "\<And>j. j \<le> BUDDY_MAXORDER \<Longrightarrow> aval_pages b j = of_nat (length (fl j))"
    and d: "2 ^ k dvd q" and kk: "k \<le> BUDDY_MAXORDER" and qn: "q + 2 ^ k \<le> ?n" and cq: "contig (pages b) q k"
    and old: "\<And>j. j \<in> blk q k \<Longrightarrow> old_order (pages b) k j"
    using hand by (auto simp: in_hand_def heap_ok_def)
  note J = buddy_join [OF d u(1)]
  have uF: "u \<in> heads fl k" by (rule buddy_is_head [OF bl d kk u o])
  then have uf: "u \<in> set (fl k)" by (simp add: heads_at)
  have bu: "block_ok (pages b) u k" by (rule blocksD(1) [OF bl kk uF])
  have hd: "heads ?fl = (heads fl)(k := heads fl k - {u})"
    using rings_distinct [OF r kk] by (simp add: heads_upd heads_at)
  have "\<forall>k' \<le> BUDDY_MAXORDER. q \<notin> set (fl k')" using hand_no_head [OF bl blk_head] by (simp add: heads_at)
  moreover have "q < ?n" using qn zero_less_power [of "2::nat" k] by linarith
  ultimately have d1: "list_del (Frame q) (links b) = Some (links b)" by (intro rings_del_free [OF r]) auto
  from rings_del [OF r kk uf] obtain h where h: "list_del (Frame u) (links b) = Some h" "rings h ?n ?fl" by blast
  let ?b = "add_aval k (- 1) b\<lparr>links := h\<rparr>"
  have run: "do { bp \<leftarrow> del_frame q b; bp \<leftarrow> del_frame u bp; Some (add_aval k (- 1) bp) } = Some ?b"
    using d1 h(1) by (simp add: del_frame_def add_aval_def)
  have bl': "blocks (pages b) (heads ?fl) (blk ?l (Suc k))"
    using blocks_take [OF bl kk uF] unfolding hd J(5) .
  have "aval_pages ?b j = of_nat (length (?fl j))" if "j \<le> BUDDY_MAXORDER" for j
    using av [OF that] uf by (auto simp: add_aval_def length_remove1_word)
  then have hp: "heap_ok ?b ?fl (blk ?l (Suc k))" using h(2) bl' by (simp add: heap_ok_def add_aval_def)
  have un: "u + 2 ^ k \<le> ?n" "contig (pages b) u k" using bu by (simp_all add: block_ok_def)
  have "old_order (pages b) (Suc k) j" if "j \<in> blk ?l (Suc k)" for j
  proof -
    have "old_order (pages b) k j \<or> j = u \<or> order (pages b ! j) = - 1"
      using that old [of j] bu unfolding J(5) block_ok_def by blast
    then show ?thesis using o J(2) unfolding old_order_def by (auto intro: less_SucI)
  qed
  moreover have "contig (pages b) ?l (Suc k)"
    using cq un(2) p J(4) by (intro contig_join) (auto simp: min_def max_def split: if_splits)
  moreover have "?l + 2 ^ Suc k \<le> ?n" using qn un(1) J(4) by (auto simp: min_def max_def split: if_splits)
  ultimately have "in_hand ?b ?fl ?l (Suc k)" using hp k J(3) by (simp add: in_hand_def add_aval_def)
  moreover have "freeset (heads ?fl) \<union> blk ?l (Suc k) = freeset (heads fl) \<union> blk q k"
    using freeset_take [OF bl kk uF] blocksD(2) [OF bl kk uF] unfolding hd J(5) by blast
  ultimately show ?thesis using run by (auto simp: frame_of_def add_aval_def)
qed

lemma merge_loop_ok:
  assumes "in_hand b fl q (BUDDY_MAXORDER - d)" "d \<le> BUDDY_MAXORDER"
  shows "\<exists>b' fl' q' k'. merge_loop d q b = Some (b', q', k') \<and> in_hand b' fl' q' k' \<and>
     freeset (heads fl') \<union> blk q' k' = freeset (heads fl) \<union> blk q (BUDDY_MAXORDER - d) \<and> frame_of b' = frame_of b"
  using assms
proof (induction d arbitrary: b fl q)
  case (Suc d)
  let ?k = "BUDDY_MAXORDER - Suc d" and ?u = "q XOR 2 ^ (BUDDY_MAXORDER - Suc d)"
  have k: "Suc ?k = BUDDY_MAXORDER - d" using Suc.prems(2) by simp
  have dv: "2 ^ ?k dvd q" using Suc.prems(1) by (simp add: in_hand_def)
  note J = buddy_join [OF dv refl]
  show ?case
  proof (cases "?u < length (pages b) \<and> order (pages b ! ?u) = int ?k \<and> ppn (pages b ! max q ?u) - ppn (pages b ! min q ?u) = 2 ^ ?k")
    case True
    then obtain b1 where b1: "do { bp \<leftarrow> del_frame q b; bp \<leftarrow> del_frame ?u bp; Some (add_aval ?k (- 1) bp) } = Some b1"
      "in_hand b1 (fl(?k := remove1 ?u (fl ?k))) (min q ?u) (Suc ?k)"
      "freeset (heads (fl(?k := remove1 ?u (fl ?k)))) \<union> blk (min q ?u) (Suc ?k) = freeset (heads fl) \<union> blk q ?k"
      "frame_of b1 = frame_of b"
      using merge_step [OF Suc.prems(1) _ refl] k by auto
    have "merge_loop (Suc d) q b = merge_loop d (min q ?u) b1"
      using True b1(1) J(1) by (auto simp: Let_def max_def min_def split: bind_splits if_splits)
    moreover have "d \<le> BUDDY_MAXORDER" using Suc.prems(2) by simp
    from Suc.IH [OF b1(2) [unfolded k] this] obtain b' fl' q' k' where
      "merge_loop d (min q ?u) b1 = Some (b', q', k')" "in_hand b' fl' q' k'"
      "freeset (heads fl') \<union> blk q' k' = freeset (heads (fl(?k := remove1 ?u (fl ?k)))) \<union> blk (min q ?u) (BUDDY_MAXORDER - d)"
      "frame_of b' = frame_of b1" by blast
    ultimately show ?thesis using b1(3,4) unfolding k by metis
  next
    case False
    then have "merge_loop (Suc d) q b = Some (b, q, ?k)"
      using J(1) by (auto simp: Let_def max_def min_def split: if_splits)
    then show ?thesis using Suc.prems(1) by blast
  qed
qed auto

lemma free_one_ok:
  assumes ok: "heap_ok b fl {}" and i: "i < length (pages b)" "i \<notin> freeset (heads fl)"
  shows "\<exists>b' fl'. pmm_free_one_index (int i) b = Some (b', REND_SUCCESS) \<and> heap_ok b' fl' {} \<and>
     freeset (heads fl') = insert i (freeset (heads fl)) \<and>
     frame_of b' = (zone b, map ppn (pages b), total_avaliable_pages b + 1)"
proof -
  have bl: "blocks (pages b) (heads fl) {}" using ok by (simp add: heap_ok_def)
  have o: "order (pages b ! i) = - 1" using blocksD(4) [OF bl i] by simp
  have b0: "blk i 0 = {i}" by (auto simp: blk_def)
  have "blocks (pages b) (heads fl) (blk i 0)" using blocks_grab [OF bl, of "{i}"] i(2) unfolding b0 by simp
  then have "in_hand b fl i (BUDDY_MAXORDER - BUDDY_MAXORDER)"
    using ok i o by (simp add: in_hand_def heap_ok_def contig_def old_order_def b0)
  from merge_loop_ok [OF this] obtain b1 fl1 q k where
    b1: "merge_loop BUDDY_MAXORDER i b = Some (b1, q, k)" "in_hand b1 fl1 q k"
     "freeset (heads fl1) \<union> blk q k = insert i (freeset (heads fl))" "frame_of b1 = frame_of b"
    by (auto simp: b0)
  let ?fl = "fl1(k := q # fl1 k)" and ?n = "length (pages b1)" and ?ps = "upd_order (pages b1) q (int k)"
  have r: "rings (links b1) ?n fl1" and bl1: "blocks (pages b1) (heads fl1) (blk q k)"
    and av: "\<And>j. j \<le> BUDDY_MAXORDER \<Longrightarrow> aval_pages b1 j = of_nat (length (fl1 j))"
    and d: "2 ^ k dvd q" and k: "k \<le> BUDDY_MAXORDER" and qn: "q + 2 ^ k \<le> ?n" and cq: "contig (pages b1) q k"
    and old: "\<And>j. j \<in> blk q k \<Longrightarrow> old_order (pages b1) k j"
    using b1(2) by (auto simp: in_hand_def heap_ok_def)
  have "0 < (2::nat) ^ k" by simp
  then have q: "q < ?n" using qn by linarith
  have "\<forall>k' \<le> BUDDY_MAXORDER. q \<notin> set (fl1 k')" using hand_no_head [OF bl1 blk_head] by (simp add: heads_at)
  from rings_add [OF r k this] obtain h where
    h: "list_add_head (Frame q) (Bucket k) (links b1) = Some h" "rings h ?n ?fl" by blast
  have "block_ok ?ps q k" using qn q cq d old by (auto simp: block_ok_def contig_def old_order_def)
  then have "blocks ?ps ((heads fl1)(k := insert q (heads fl1 k))) (blk q k - blk q k)"
    using blocks_upd [OF bl1 blk_head] by (intro blocks_put k) auto
  then have "blocks ?ps (heads ?fl) {}" by (simp add: heads_upd heads_at)
  moreover let ?b = "add_aval k 1 b1\<lparr>pages := ?ps, links := h, total_avaliable_pages := total_avaliable_pages b1 + 1\<rparr>"
  have "aval_pages ?b j = of_nat (length (?fl j))" if "j \<le> BUDDY_MAXORDER" for j
    using av [OF that] by (auto simp: add_aval_def)
  ultimately have "heap_ok ?b ?fl {}" using h(2) by (simp add: heap_ok_def)
  moreover have "pmm_free_one_index (int i) b = Some (?b, REND_SUCCESS)"
    using i(1) o b1(1) q h(1) by (simp add: pmm_free_one_index_def set_order_eq add_frame_def add_aval_def)
  moreover have "freeset (heads ?fl) = insert i (freeset (heads fl))"
    using freeset_insert [OF k, of "heads fl1" q] b1(3) by (simp add: heads_upd heads_at Un_commute)
  moreover have "frame_of ?b = (zone b, map ppn (pages b), total_avaliable_pages b + 1)"
    using b1(4) by (simp add: frame_of_def add_aval_def)
  ultimately show ?thesis by blast
qed

lemma put_page_ok:
  assumes ok: "buddy_ok b fl" and cur: "cur_at (zone b) cur i" and r: "1 \<le> flat_refs (zone b) ! i"
  defines "pg \<equiv> zone_page_cursor_page (zone b) cur"
  defines "b1 \<equiv> b\<lparr>zone := phy_Page_ref_put pg (zone b)\<rparr>"
  shows "\<exists>b' fl'. (if phy_Page_refed pg (zone b1) then Some (b1, REND_SUCCESS) else pmm_free_one_index (int i) b1) =
       Some (b', REND_SUCCESS) \<and> buddy_ok b' fl' \<and> shape (zone b') = shape (zone b) \<and>
       flat_refs (zone b') = (flat_refs (zone b))[i := flat_refs (zone b) ! i - 1] \<and> map ppn (pages b') = map ppn (pages b)"
proof -
  note D = buddy_okD [OF ok]
  note C = cursor_page_ok [OF cur]
  let ?r = "flat_refs (zone b) ! i" and ?pg = "(cur_sec cur, sec_index cur)"
  have i: "i < length (pages b)" using C(3) D(5) by simp
  have z1: "zone b1 = set_page_ref ?pg (?r - 1) (zone b)" by (simp add: b1_def pg_def C(1,2) phy_Page_ref_put_def)
  have f1: "flat_refs (zone b1) = (flat_refs (zone b))[i := ?r - 1]" "shape (zone b1) = shape (zone b)"
    unfolding z1 by (rule C(4), rule C(5))
  have c1: "cur_at (zone b1) cur i" using cur by (simp add: shapeD [OF f1(2)])
  have ref: "phy_Page_refed pg (zone b1) \<longleftrightarrow> 0 < ?r - 1"
    using cursor_page_ok(2) [OF c1] C(3) by (simp add: pg_def C(1) phy_Page_refed_def f1(1))
  have h1: "heap_ok b1 fl {}" using ok by (simp add: buddy_ok_def heap_ok_def b1_def)
  have pp: "pages b1 = pages b" "total_avaliable_pages b1 = total_avaliable_pages b" by (simp_all add: b1_def)
  have ni: "i \<notin> free_pages b" using r by (simp add: free_pages_def)
  have fp: "free_pages b' = (if ?r = 1 then insert i (free_pages b) else free_pages b)"
    if "zone b' = zone b1" "length (pages b') = length (pages b)" for b'
    using that i r D(5) f1(1) by (auto simp: free_pages_def nth_list_update split: if_splits)
  have nn: "0 \<le> flat_refs (zone b1) ! j" if "j < length (pages b)" for j
    using that ok r D(5) i by (auto simp: f1(1) nth_list_update buddy_ok_def)
  show ?thesis
  proof (cases "?r = 1")
    case False
    then have "buddy_ok b1 fl"
      using ok h1 pp fp [of b1] nn by (simp add: buddy_ok_def shapeD [OF f1(2)])
    then show ?thesis using False r ref f1 pp by auto
  next
    case True
    from free_one_ok [OF h1, of i] i ni D(3) pp obtain b' fl' where
      b': "pmm_free_one_index (int i) b1 = Some (b', REND_SUCCESS)" "heap_ok b' fl' {}"
       "freeset (heads fl') = insert i (freeset (heads fl))"
       "zone b' = zone b1" "map ppn (pages b') = map ppn (pages b)" "total_avaliable_pages b' = total_avaliable_pages b + 1"
      by (auto simp: frame_of_def)
    have len: "length (pages b') = length (pages b)" using b'(5) by (metis length_map)
    have "buddy_ok b' fl'"
      using ok b' len fp [OF b'(4) len] True ni nn D(3) by (simp add: buddy_ok_def shapeD [OF f1(2)])
    then show ?thesis using True ref b' f1 by auto
  qed
qed

lemma free_loop_ok:
  assumes "buddy_ok b fl" "cur_at (zone b) cur i" "i + m \<le> length (pages b)" "\<forall>j \<in> {i..<i + m}. 1 \<le> flat_refs (zone b) ! j"
  shows "\<exists>b' fl'. free_loop m cur b = Some (b', REND_SUCCESS) \<and> buddy_ok b' fl' \<and> shape (zone b') = shape (zone b) \<and>
       (\<forall>j < length (pages b). flat_refs (zone b') ! j = flat_refs (zone b) ! j - (if j \<in> {i..<i + m} then 1 else 0)) \<and>
       map ppn (pages b') = map ppn (pages b)"
  using assms
proof (induction m arbitrary: b fl cur i)
  case (Suc m)
  let ?pg = "zone_page_cursor_page (zone b) cur"
  let ?b1 = "b\<lparr>zone := phy_Page_ref_put ?pg (zone b)\<rparr>"
  note C = cursor_page_ok [OF Suc.prems(2)]
  have "1 \<le> flat_refs (zone b) ! i" using Suc.prems(4) by simp
  from put_page_ok [OF Suc.prems(1,2) this] obtain b1 fl1 where
    b1: "(if phy_Page_refed ?pg (zone ?b1) then Some (?b1, REND_SUCCESS) else pmm_free_one_index (int i) ?b1) =
       Some (b1, REND_SUCCESS)" "buddy_ok b1 fl1" "shape (zone b1) = shape (zone b)"
       "flat_refs (zone b1) = (flat_refs (zone b))[i := flat_refs (zone b) ! i - 1]" "map ppn (pages b1) = map ppn (pages b)" by blast
  have len: "length (pages b1) = length (pages b)" using b1(5) by (metis length_map)
  have l: "length (flat_refs (zone b)) = length (pages b)" by (rule buddy_okD(5) [OF Suc.prems(1)])
  define next_page where "next_page bp = (if m = 0 then Some (bp, REND_SUCCESS)
            else (case zone_page_cursor_next (zone bp) cur of
                    None \<Rightarrow> Some (bp, E_RENDEZVOS)
                  | Some cur \<Rightarrow> free_loop m cur bp))" for bp
  have run: "free_loop (Suc m) cur b = next_page b1"
    using b1(1) C(1,6) unfolding next_page_def [abs_def] by (auto simp: Let_def split: if_splits)
  show ?case
  proof (cases "m = 0")
    case True
    then show ?thesis using run b1 l by (auto simp: next_page_def nth_list_update)
  next
    case False
    have c1: "cur_at (zone b1) cur i" using Suc.prems(2) by (simp add: shapeD [OF b1(3)])
    have "Suc i < length (flat_refs (zone b1))" using False Suc.prems(3) l b1(4) by simp
    from cursor_next_ok [OF c1 this buddy_okD(4) [OF b1(2)]] obtain cur' where
      cur': "zone_page_cursor_next (zone b1) cur = Some cur'" "cur_at (zone b1) cur' (Suc i)" by blast
    have "\<exists>b' fl'. free_loop m cur' b1 = Some (b', REND_SUCCESS) \<and> buddy_ok b' fl' \<and> shape (zone b') = shape (zone b1) \<and>
       (\<forall>j < length (pages b1). flat_refs (zone b') ! j = flat_refs (zone b1) ! j - (if j \<in> {Suc i..<Suc i + m} then 1 else 0)) \<and>
       map ppn (pages b') = map ppn (pages b1)"
      using Suc.prems(3,4) len b1(4) by (intro Suc.IH [OF b1(2) cur'(2)]) auto
    then obtain b' fl' where b': "free_loop m cur' b1 = Some (b', REND_SUCCESS)" "buddy_ok b' fl'" "shape (zone b') = shape (zone b)"
       "\<And>j. j < length (pages b) \<Longrightarrow> flat_refs (zone b') ! j = flat_refs (zone b1) ! j - (if j \<in> {Suc i..<Suc i + m} then 1 else 0)"
       "map ppn (pages b') = map ppn (pages b)"
      unfolding len b1(3,5) by blast
    have "flat_refs (zone b') ! j = flat_refs (zone b) ! j - (if j \<in> {i..<i + Suc m} then 1 else 0)" if "j < length (pages b)" for j
      using b'(4) [OF that] that l by (cases "j = i") (auto simp: b1(4))
    then show ?thesis using run False cur'(1) b' by (auto simp: next_page_def)
  qed
qed auto

lemma pmm_free_ok:
  assumes ok: "buddy_ok b fl" and i: "i < length (pages b)" "i + m \<le> length (pages b)"
    and c: "\<forall>j < m. ppn (pages b ! (i + j)) = ppn (pages b ! i) + int j" and r: "\<forall>j \<in> {i..<i + m}. 1 \<le> flat_refs (zone b) ! j"
  shows "\<exists>b' fl'. pmm_free (ppn (pages b ! i)) m b = Some (b', REND_SUCCESS) \<and> buddy_ok b' fl' \<and> shape (zone b') = shape (zone b) \<and>
       (\<forall>j < length (pages b). flat_refs (zone b') ! j = flat_refs (zone b) ! j - (if j \<in> {i..<i + m} then 1 else 0)) \<and>
       map ppn (pages b') = map ppn (pages b)"
proof -
  note D = buddy_okD [OF ok]
  have inz: "ppn_in_Zone (zone b) (ppn (pages b ! j))" "0 \<le> ppn (pages b ! j)" if "j < length (pages b)" for j
    using zone_ppn_in_zone [OF D(4), of "ppn (pages b ! j)"] that D(6,7) by (metis nth_mem)+
  have tl: "ppn_in_Zone (zone b) (ppn (pages b ! i) + int m - 1)" if "1 < m"
  proof -
    have "ppn (pages b ! (i + (m - 1))) = ppn (pages b ! i) + int m - 1"
      using c [rule_format, of "m - 1"] that by linarith
    then show ?thesis using inz(1) [of "i + (m - 1)"] that i(2) by simp
  qed
  obtain cur where cur: "zone_page_cursor_init (zone b) (ppn (pages b ! i)) = Some cur" "cur_at (zone b) cur i"
    using cursor_init_ok [OF D(4), of i] i(1) D(6,7) by auto
  have "pmm_free (ppn (pages b ! i)) m b = free_loop m cur b"
    using inz [OF i(1)] tl cur(1) by (auto simp: pmm_free_def)
  then show ?thesis using free_loop_ok [OF ok cur(2) i(2) r] by simp
qed

lemma alloc_zone_ok:
  assumes "buddy_ok b fl" "alloc_order \<le> BUDDY_MAXORDER"
  shows "(\<exists>b' i. pmm_alloc_zone alloc_order b = Some (b', Inr (ppn (pages b ! i)), 2 ^ alloc_order) \<and> buddy_inv b' \<and>
     i + 2 ^ alloc_order \<le> length (pages b) \<and> contig (pages b) i alloc_order \<and> blk i alloc_order \<subseteq> free_pages b \<and>
     map ppn (pages b') = map ppn (pages b) \<and> shape (zone b') = shape (zone b) \<and>
     (\<forall>j < length (pages b). flat_refs (zone b') ! j = (if j \<in> blk i alloc_order then 1 else flat_refs (zone b) ! j))) \<or>
   pmm_alloc_zone alloc_order b = Some (b, Inl E_REND_NO_MEM, 0) \<and>
     (\<forall>k. alloc_order \<le> k \<longrightarrow> k \<le> BUDDY_MAXORDER \<longrightarrow> list_empty (Bucket k) (links b))"
  using assms(1)
proof (cases rule: alloc_zone_cases [where alloc_order = alloc_order])
  case none
  have "list_empty (Bucket k) (links b)" if "alloc_order \<le> k" "k \<le> BUDDY_MAXORDER" for k
  proof -
    have "ring (links b) (Bucket k) (lists_of fl (Bucket k))"
      using buddy_okD(1) [OF assms(1)] that by (intro dl.familyD(1)) (auto simp: rings_def)
    then show ?thesis using none(2) [OF that] ring_empty by (fastforce simp: lists_of_def)
  qed
  then show ?thesis using none(1) by (simp add: pmm_alloc_zone_def)
next
  case (some k i)
  from alloc_zone_take [OF assms(1) some(2,3,4,1)] show ?thesis unfolding buddy_inv_def by blast
qed

lemma order_for:
  assumes "0 < m" "m \<le> 2 ^ BUDDY_MAXORDER"
  defines "r \<equiv> unat (log2_of_next_power_of_two (of_nat m))"
  shows "m \<le> 2 ^ r" "2 ^ r < 2 * m" "r \<le> BUDDY_MAXORDER"
proof -
  have u: "unat (of_nat m :: u32) = m" using assms(2) by (intro unat_of_nat_small) (simp add: BUDDY_MAXORDER_def)
  then have nz: "(of_nat m :: u32) \<noteq> 0" using assms(1) by auto
  note L = log2_of_next_power_of_two_least [OF nz, unfolded u, folded r_def]
  show "m \<le> 2 ^ r" by (rule L(1))
  show "r \<le> BUDDY_MAXORDER" using L(2) [of BUDDY_MAXORDER] assms(2) by simp
  show "2 ^ r < 2 * m"
  proof (cases r)
    case (Suc r')
    then have "\<not> m \<le> 2 ^ r'" using L(2) [of r'] by auto
    then show ?thesis using Suc by simp
  qed (use assms(1) in simp)
qed

lemma buddy_total: "buddy_ok b fl \<Longrightarrow> unat (total_avaliable_pages b) = card (free_pages b)"
proof -
  assume ok: "buddy_ok b fl"
  have "card (free_pages b) \<le> card {..<length (pages b)}" by (intro card_mono) (auto simp: free_pages_def)
  then have "card (free_pages b) < 2 ^ 64" using ok by (simp add: buddy_ok_def)
  then have "unat (of_nat (card (free_pages b)) :: u64) = card (free_pages b)"
    by (intro unat_of_nat_small) simp
  then show ?thesis using ok by (simp add: buddy_ok_def)
qed

text \<open>A reclaim hook changes the state only in ways that keep the invariant (it frees pages of its own).\<close>

definition hook_ok :: "reclaim option \<Rightarrow> bool" where
  "hook_ok f \<longleftrightarrow> (\<forall>g n t b. f = Some g \<longrightarrow> buddy_inv b \<longrightarrow> buddy_inv (fst (g n t b)))"

definition taken :: "buddy \<Rightarrow> nat \<Rightarrow> buddy \<Rightarrow> int \<Rightarrow> nat \<Rightarrow> bool" where
  "taken b m b' p n \<longleftrightarrow> (\<exists>i r. n = 2 ^ r \<and> m \<le> n \<and> n < 2 * m \<and> i + n \<le> length (pages b) \<and>
     (\<forall>j < n. ppn (pages b ! (i + j)) = p + int j) \<and> {i..<i + n} \<subseteq> free_pages b \<and>
     map ppn (pages b') = map ppn (pages b) \<and>
     flat_refs (zone b') = map (\<lambda>j. if j \<in> {i..<i + n} then 1 else flat_refs (zone b) ! j) [0..<length (pages b)])"

lemma ppn_valid: "buddy_ok b fl \<Longrightarrow> i < length (pages b) \<Longrightarrow> \<not> invalid_ppn (ppn (pages b ! i))"
  using zone_ppn_in_zone(2) [OF buddy_okD(4)] buddy_okD(6,7) by (metis invalid_ppn_def not_less nth_mem)

lemma takenI:
  assumes "buddy_ok b fl" "i + 2 ^ r \<le> length (pages b)" "contig (pages b) i r" "blk i r \<subseteq> free_pages b"
    "map ppn (pages b') = map ppn (pages b)" "shape (zone b') = shape (zone b)"
    "\<forall>j < length (pages b). flat_refs (zone b') ! j = (if j \<in> blk i r then 1 else flat_refs (zone b) ! j)"
    "m \<le> 2 ^ r" "2 ^ r < 2 * m"
  shows "taken b m b' (ppn (pages b ! i)) (2 ^ r)"
proof -
  have "flat_refs (zone b') = map (\<lambda>j. if j \<in> {i..<i + 2 ^ r} then 1 else flat_refs (zone b) ! j) [0..<length (pages b)]"
    using assms(7) buddy_okD(5) [OF assms(1)] shapeD(4) [OF assms(6)] by (intro nth_equalityI) (simp_all add: blk_def)
  then show ?thesis unfolding taken_def using assms(2-5,8,9)
    by (intro exI [of _ i] exI [of _ r]) (simp add: contig_def blk_def)
qed

lemma alloc_retry_ok:
  assumes "buddy_inv b" "hook_ok f" "0 < m"
  shows "\<exists>b' r n. alloc_retry f m tried b = Some (b', r, n) \<and> buddy_inv b' \<and>
     (case r of Inl e \<Rightarrow> n = 0 \<and> e \<in> {E_RENDEZVOS, E_REND_AGAIN, E_REND_NO_MEM} \<and> (e = E_RENDEZVOS \<longrightarrow> 2 ^ BUDDY_MAXORDER < m)
      | Inr p \<Rightarrow> \<exists>b0. buddy_inv b0 \<and> taken b0 m b' p n)"
  using assms(1)
proof (induction "PMM_RECLAIM_MAX_ATTEMPTS - tried" arbitrary: tried b rule: less_induct)
  case less
  let ?again = "\<lambda>bp.
            case f of
              None \<Rightarrow> Some (bp, Inl E_REND_AGAIN, 0)
            | Some f' \<Rightarrow>
                if tried \<ge> PMM_RECLAIM_MAX_ATTEMPTS then Some (bp, Inl E_REND_AGAIN, 0)
                else (case f' m tried bp of
                        (bp, False) \<Rightarrow> Some (bp, Inl E_REND_NO_MEM, 0)
                      | (bp, True) \<Rightarrow> alloc_retry f m (Suc tried) bp)"
  let ?P = "\<lambda>res. \<exists>b' r n. res = Some (b', r, n) \<and> buddy_inv b' \<and>
     (case r of Inl e \<Rightarrow> n = 0 \<and> e \<in> {E_RENDEZVOS, E_REND_AGAIN, E_REND_NO_MEM} \<and> (e = E_RENDEZVOS \<longrightarrow> 2 ^ BUDDY_MAXORDER < m)
      | Inr p \<Rightarrow> \<exists>b0. buddy_inv b0 \<and> taken b0 m b' p n)"
  obtain fl where ok: "buddy_ok b fl" using less.prems by (auto simp: buddy_inv_def)
  have retry: "?P (?again b)"
  proof (cases "f = None \<or> tried \<ge> PMM_RECLAIM_MAX_ATTEMPTS")
    case True
    then show ?thesis using less.prems by (auto split: option.splits)
  next
    case False
    then obtain g where g: "f = Some g" "tried < PMM_RECLAIM_MAX_ATTEMPTS" by auto
    obtain b1 c where b1: "g m tried b = (b1, c)" by fastforce
    have inv: "buddy_inv b1" using assms(2) g(1) less.prems b1 unfolding hook_ok_def by (metis fst_conv)
    have "?P (alloc_retry f m (Suc tried) b1)" using g(2) inv by (intro less.hyps) auto
    then show ?thesis using g b1 inv by (cases c) simp_all
  qed
  show ?case
  proof (cases "unat (total_avaliable_pages b) < m")
    case True
    then show ?thesis using retry by (subst alloc_retry.simps) (simp add: Let_def)
  next
    case enough: False
    show ?thesis
    proof (cases "2 ^ BUDDY_MAXORDER < m")
      case True
      then show ?thesis using enough less.prems by (subst alloc_retry.simps) (simp add: Let_def)
    next
      case False
      let ?r = "unat (log2_of_next_power_of_two (of_nat m))"
      have r: "m \<le> 2 ^ ?r" "2 ^ ?r < 2 * m" "?r \<le> BUDDY_MAXORDER" using order_for [of m] assms(3) False by simp_all
      consider (some) b' i where "pmm_alloc_zone ?r b = Some (b', Inr (ppn (pages b ! i)), 2 ^ ?r)" "buddy_inv b'"
         "i + 2 ^ ?r \<le> length (pages b)" "contig (pages b) i ?r" "blk i ?r \<subseteq> free_pages b"
         "map ppn (pages b') = map ppn (pages b)" "shape (zone b') = shape (zone b)"
         "\<forall>j < length (pages b). flat_refs (zone b') ! j = (if j \<in> blk i ?r then 1 else flat_refs (zone b) ! j)"
       | (none) "pmm_alloc_zone ?r b = Some (b, Inl E_REND_NO_MEM, 0)"
        using alloc_zone_ok [OF ok r(3)] by blast
      then show ?thesis
      proof cases
        case none
        then show ?thesis using retry enough False by (subst alloc_retry.simps) (simp add: Let_def)
      next
        case some
        have i: "i < length (pages b)" using some(3) zero_less_power [of "2::nat" ?r] by linarith
        have "alloc_retry f m tried b = Some (b', Inr (ppn (pages b ! i)), 2 ^ ?r)"
          using some(1) enough False ppn_valid [OF ok i] by (subst alloc_retry.simps) (simp add: Let_def)
        moreover have "taken b m b' (ppn (pages b ! i)) (2 ^ ?r)" by (rule takenI [OF ok some(3-8) r(1,2)])
        ultimately show ?thesis using some(2) less.prems by auto
      qed
    qed
  qed
qed

section \<open>Shared references\<close>

lemma refs_step:
  fixes xs :: "int list"
  shows "map (\<lambda>j. xs[i := xs ! i + d] ! j + (if j \<in> {Suc i..<Suc i + k} then d else 0)) [0..<length (xs[i := xs ! i + d])] =
     map (\<lambda>j. xs ! j + (if j \<in> {i..<i + Suc k} then d else 0)) [0..<length xs]"
proof (rule map_cong)
  fix j assume "j \<in> set [0..<length xs]"
  then show "xs[i := xs ! i + d] ! j + (if j \<in> {Suc i..<Suc i + k} then d else 0) = xs ! j + (if j \<in> {i..<i + Suc k} then d else 0)"
    by (cases "j = i") auto
qed simp

lemma change_loop_get:
  assumes "zone_ok z" "cur_at z cur i" "i + m \<le> length (flat_refs z)" "0 < m"
  shows "\<exists>z' k ok. change_loop True m p cur z = (z', p + k, ok) \<and> k \<le> m \<and> shape z' = shape z \<and>
     flat_refs z' = map (\<lambda>j. flat_refs z ! j + (if j \<in> {i..<i + k} then 1 else 0)) [0..<length (flat_refs z)] \<and>
     (ok \<longleftrightarrow> (\<forall>j \<in> {i..<i + m}. 1 \<le> flat_refs z ! j)) \<and> (ok \<longrightarrow> k = m) \<and> (\<forall>j \<in> {i..<i + k}. 1 \<le> flat_refs z ! j)"
  using assms
proof (induction m arbitrary: p cur z i)
  case (Suc m)
  note C = cursor_page_ok [OF Suc.prems(2)]
  let ?n = "length (flat_refs z)"
  have z0: "flat_refs z = map (\<lambda>j. flat_refs z ! j + (if j \<in> {i..<i + 0} then 1 else 0)) [0..<?n]"
    by (intro nth_equalityI) simp_all
  show ?case
  proof (cases "1 \<le> flat_refs z ! i")
    case False
    then have "change_ref True (zone_page_cursor_page z cur) z = None"
      by (simp add: change_ref_def C(1,2) phy_Page_ref_get_def)
    then have "change_loop True (Suc m) p cur z = (z, p + 0, False)" by simp
    moreover have "\<not> (\<forall>j \<in> {i..<i + Suc m}. 1 \<le> flat_refs z ! j)" using False by auto
    ultimately show ?thesis using z0 by (intro exI [of _ z] exI [of _ 0] exI [of _ False]) simp
  next
    case True
    let ?z = "set_page_ref (cur_sec cur, sec_index cur) (flat_refs z ! i + 1) z"
    have c: "change_ref True (zone_page_cursor_page z cur) z = Some ?z"
      using True by (simp add: change_ref_def C(1,2) phy_Page_ref_get_def)
    have sh: "shape ?z = shape z" and fl: "flat_refs ?z = (flat_refs z)[i := flat_refs z ! i + 1]" by (rule C(5), rule C(4))
    show ?thesis
    proof (cases "m = 0")
      case m0: True
      then have "change_loop True (Suc m) p cur z = (?z, p + 1, True)" using c by simp
      moreover have "flat_refs ?z = map (\<lambda>j. flat_refs z ! j + (if j \<in> {i..<i + 1} then 1 else 0)) [0..<?n]"
        unfolding fl by (intro nth_equalityI) (auto simp: nth_list_update)
      ultimately show ?thesis using m0 True sh by (intro exI [of _ ?z] exI [of _ 1] exI [of _ True]) auto
    next
      case False
      have cz: "cur_at ?z cur i" using Suc.prems(2) by (simp add: shapeD(3) [OF sh])
      have zk: "zone_ok ?z" using Suc.prems(1) by (simp add: shapeD(2) [OF sh])
      have "Suc i < length (flat_refs ?z)" using Suc.prems(3) False by (simp add: fl)
      from cursor_next_ok [OF cz this zk] obtain cur' where cur': "zone_page_cursor_next ?z cur = Some cur'" "cur_at ?z cur' (Suc i)" by blast
      have "Suc i + m \<le> length (flat_refs ?z)" "0 < m" using Suc.prems(3) False by (simp_all add: fl)
      from Suc.IH [OF zk cur'(2) this, of "Suc p"] obtain z' k ok where z': "change_loop True m (Suc p) cur' ?z = (z', Suc p + k, ok)" "k \<le> m"
        "shape z' = shape ?z" "flat_refs z' = map (\<lambda>j. flat_refs ?z ! j + (if j \<in> {Suc i..<Suc i + k} then 1 else 0)) [0..<length (flat_refs ?z)]"
        "ok \<longleftrightarrow> (\<forall>j \<in> {Suc i..<Suc i + m}. 1 \<le> flat_refs ?z ! j)" "ok \<longrightarrow> k = m" "\<forall>j \<in> {Suc i..<Suc i + k}. 1 \<le> flat_refs ?z ! j" by blast
      have run: "change_loop True (Suc m) p cur z = (z', p + Suc k, ok)" using c cur'(1) z'(1) False by simp
      have refs: "flat_refs z' = map (\<lambda>j. flat_refs z ! j + (if j \<in> {i..<i + Suc k} then 1 else 0)) [0..<?n]"
        unfolding z'(4) fl by (rule refs_step)
      have sp: "{i..<i + Suc l} = insert i {Suc i..<Suc i + l}" for l by auto
      have same: "flat_refs ?z ! j = flat_refs z ! j" if "j \<in> {Suc i..<Suc i + l}" for j l using that by (simp add: fl)
      have a: "ok \<longleftrightarrow> (\<forall>j \<in> {i..<i + Suc m}. 1 \<le> flat_refs z ! j)" unfolding sp z'(5) using True same [of _ m] by auto
      have b: "\<forall>j \<in> {i..<i + Suc k}. 1 \<le> flat_refs z ! j" unfolding sp using True z'(7) same [of _ k] by auto
      have "ok \<longrightarrow> Suc k = Suc m" "Suc k \<le> Suc m" "shape z' = shape z" using z'(2,3,6) sh by simp_all
      then show ?thesis using run refs a b by (intro exI [of _ z'] exI [of _ "Suc k"] exI [of _ ok]) blast
    qed
  qed
qed simp

lemma unroll_loop_put:
  assumes "zone_ok z" "cur_at z cur i" "i + m \<le> length (flat_refs z)"
  shows "shape (unroll_loop True m cur z) = shape z \<and>
     flat_refs (unroll_loop True m cur z) = map (\<lambda>j. flat_refs z ! j + (if j \<in> {i..<i + m} then - 1 else 0)) [0..<length (flat_refs z)]"
  using assms
proof (induction m arbitrary: cur z i)
  case 0
  then show ?case by (auto intro: nth_equalityI)
next
  case (Suc m)
  note C = cursor_page_ok [OF Suc.prems(2)]
  let ?z = "set_page_ref (cur_sec cur, sec_index cur) (flat_refs z ! i + - 1) z"
  have sh: "shape ?z = shape z" and fl: "flat_refs ?z = (flat_refs z)[i := flat_refs z ! i + - 1]" by (rule C(5), rule C(4))
  show ?case
  proof (cases "m = 0")
    case True
    then have "unroll_loop True (Suc m) cur z = ?z" by (simp add: C(1,2) phy_Page_ref_put_def)
    moreover have "flat_refs ?z = map (\<lambda>j. flat_refs z ! j + (if j \<in> {i..<i + Suc m} then - 1 else 0)) [0..<length (flat_refs z)]"
      unfolding fl using True by (intro nth_equalityI) (auto simp: nth_list_update)
    ultimately show ?thesis using sh by simp
  next
    case False
    have cz: "cur_at ?z cur i" "zone_ok ?z" using Suc.prems(1,2) unfolding shapeD(2,3) [OF sh] by blast+
    have "Suc i < length (flat_refs ?z)" using Suc.prems(3) False unfolding fl by simp
    from cursor_next_ok [OF cz(1) this cz(2)] obtain cur' where cur': "zone_page_cursor_next ?z cur = Some cur'" "cur_at ?z cur' (Suc i)" by blast
    have run: "unroll_loop True (Suc m) cur z = unroll_loop True m cur' ?z"
      using False cur'(1) by (simp add: C(1,2) phy_Page_ref_put_def)
    have "Suc i + m \<le> length (flat_refs ?z)" using Suc.prems(3) unfolding fl by simp
    note IH = Suc.IH [OF cz(2) cur'(2) this]
    have "flat_refs (unroll_loop True m cur' ?z) = map (\<lambda>j. flat_refs z ! j + (if j \<in> {i..<i + Suc m} then - 1 else 0)) [0..<length (flat_refs z)]"
      unfolding conjunct2 [OF IH] fl by (rule refs_step)
    then show ?thesis using IH sh run by simp
  qed
qed

lemma share_ok:
  assumes ok: "buddy_ok b fl" and i: "i + m \<le> length (pages b)" "0 < m"
  shows "\<exists>b' e. pmm_change_pages_ref (ppn (pages b ! i)) m True b = (b', e) \<and> buddy_ok b' fl \<and> pages b' = pages b \<and>
     (if \<forall>j \<in> {i..<i + m}. 1 \<le> flat_refs (zone b) ! j
      then e = REND_SUCCESS \<and> flat_refs (zone b') = map (\<lambda>j. flat_refs (zone b) ! j + (if j \<in> {i..<i + m} then 1 else 0)) [0..<length (pages b)]
      else e = E_RENDEZVOS \<and> flat_refs (zone b') = flat_refs (zone b))"
proof -
  note D = buddy_okD [OF ok]
  let ?p = "ppn (pages b ! i)"
  have i': "i < length (pages b)" using i by simp
  have pz: "?p = zone_ppns (zone b) ! i" "ppn_in_Zone (zone b) ?p"
    using D(7) [OF i'] zone_ppn_in_zone(1) [OF D(4), of ?p] i' D(6) by (simp_all add: D(7))
  obtain cur where cur: "zone_page_cursor_init (zone b) ?p = Some cur" "cur_at (zone b) cur i"
    using cursor_init_ok [OF D(4), of i] i' D(6) pz(1) by auto
  have im: "i + m \<le> length (flat_refs (zone b))" using i D(5) by simp
  from change_loop_get [OF D(4) cur(2) im i(2), of 0] obtain z k s where z: "change_loop True m 0 cur (zone b) = (z, 0 + k, s)" "k \<le> m"
    "shape z = shape (zone b)" "flat_refs z = map (\<lambda>j. flat_refs (zone b) ! j + (if j \<in> {i..<i + k} then 1 else 0)) [0..<length (flat_refs (zone b))]"
    "s \<longleftrightarrow> (\<forall>j \<in> {i..<i + m}. 1 \<le> flat_refs (zone b) ! j)" "s \<longrightarrow> k = m" "\<forall>j \<in> {i..<i + k}. 1 \<le> flat_refs (zone b) ! j" by blast
  have keep: "buddy_ok (b\<lparr>zone := z'\<rparr>) fl" if "shape z' = shape (zone b)" "length (flat_refs z') = length (pages b)"
    "\<And>j. j < length (pages b) \<Longrightarrow> flat_refs z' ! j = flat_refs (zone b) ! j \<or> 1 \<le> flat_refs (zone b) ! j \<and> 1 \<le> flat_refs z' ! j"
    for z'
  proof -
    note c = that(3)
    note sh = that(1)
    have "0 \<le> flat_refs z' ! j" "flat_refs z' ! j = 0 \<longleftrightarrow> flat_refs (zone b) ! j = 0" if j: "j < length (pages b)" for j
      using c [OF j] ok j unfolding buddy_ok_def by force+
    then show ?thesis using ok by (simp add: buddy_ok_def heap_ok_def free_pages_def shapeD [OF sh] cong: conj_cong)
  qed
  show ?thesis
  proof (cases s)
    case True
    then have k: "k = m" using z(6) by simp
    have "pmm_change_pages_ref ?p m True b = (b\<lparr>zone := z\<rparr>, REND_SUCCESS)"
      using i(2) pz(2) cur(1) z(1) True by (simp add: pmm_change_pages_ref_def)
    moreover have "buddy_ok (b\<lparr>zone := z\<rparr>) fl"
    proof (rule keep [OF z(3)])
      show "length (flat_refs z) = length (pages b)" using D(5) by (simp add: z(4))
      show "flat_refs z ! j = flat_refs (zone b) ! j \<or> 1 \<le> flat_refs (zone b) ! j \<and> 1 \<le> flat_refs z ! j" if "j < length (pages b)" for j
        using that z(7) [THEN bspec, of j] D(5) by (auto simp: z(4))
    qed
    ultimately show ?thesis using True z(4,5) D(5) by (simp add: k)
  next
    case False
    obtain cur' where cur': "zone_page_cursor_init z ?p = Some cur'" "cur_at z cur' i"
      using cursor_init_ok [of z i] shapeD [OF z(3)] D(4,6) i' pz(1) by auto
    have zk: "zone_ok z" using D(4) by (simp add: shapeD [OF z(3)])
    have ik: "i + k \<le> length (flat_refs z)" using im z(2) by (simp add: z(4))
    note U = unroll_loop_put [OF zk cur'(2) ik]
    let ?z = "unroll_loop True k cur' z"
    have f: "flat_refs ?z = flat_refs (zone b)"
      unfolding conjunct2 [OF U] z(4) by (intro nth_equalityI) auto
    have "pmm_change_pages_ref ?p m True b = (b\<lparr>zone := ?z\<rparr>, E_RENDEZVOS)"
      using i(2) pz(2) cur(1) z(1) False cur'(1) by (simp add: pmm_change_pages_ref_def)
    moreover have "buddy_ok (b\<lparr>zone := ?z\<rparr>) fl"
      using U z(3) f D(5) by (intro keep) simp_all
    ultimately show ?thesis using False z(5) f by auto
  qed
qed

lemma drop_not_undone:
  assumes ok: "buddy_ok b fl" and i: "Suc i < length (pages b)" and r: "flat_refs (zone b) ! i = 1" "flat_refs (zone b) ! Suc i = 0"
  shows "\<exists>z. pmm_change_pages_ref (ppn (pages b ! i)) 2 False b = (b\<lparr>zone := z\<rparr>, E_RENDEZVOS) \<and>
     flat_refs z = (flat_refs (zone b))[i := 0]"
proof -
  note D = buddy_okD [OF ok]
  let ?p = "ppn (pages b ! i)"
  have i': "i < length (pages b)" using i by simp
  have pz: "?p = zone_ppns (zone b) ! i" "ppn_in_Zone (zone b) ?p"
    using D(7) [OF i'] zone_ppn_in_zone(1) [OF D(4), of ?p] i' D(6) by (simp_all add: D(7))
  obtain cur where cur: "zone_page_cursor_init (zone b) ?p = Some cur" "cur_at (zone b) cur i"
    using cursor_init_ok [OF D(4), of i] i' D(6) pz(1) by auto
  note C = cursor_page_ok [OF cur(2)]
  let ?z = "set_page_ref (cur_sec cur, sec_index cur) 0 (zone b)"
  have sh: "shape ?z = shape (zone b)" and f: "flat_refs ?z = (flat_refs (zone b))[i := 0]" by (rule C(5), rule C(4))
  have cz: "cur_at ?z cur i" "zone_ok ?z" using cur(2) D(4) by (simp_all add: shapeD(2,3) [OF sh])
  have c1: "change_ref False (zone_page_cursor_page (zone b) cur) (zone b) = Some ?z"
    using r(1) by (simp add: change_ref_def C(1,2) phy_Page_refed_def phy_Page_ref_put_def)
  have "Suc i < length (flat_refs ?z)" using i D(5) by (simp add: f)
  from cursor_next_ok [OF cz(1) this cz(2)] obtain cur' where cur': "zone_page_cursor_next ?z cur = Some cur'" "cur_at ?z cur' (Suc i)" by blast
  have "change_ref False (zone_page_cursor_page ?z cur') ?z = None"
    using r(2) cursor_page_ok [OF cur'(2)] by (simp add: change_ref_def phy_Page_refed_def f)
  then have loop: "change_loop False 2 0 cur (zone b) = (?z, 1, False)" using c1 cur'(1) by (simp add: numeral_2_eq_2)
  obtain cur2 where cur2: "zone_page_cursor_init ?z ?p = Some cur2" "cur_at ?z cur2 i"
    using cursor_init_ok [OF cz(2), of i] shapeD(1) [OF sh] D(6) i' pz(1) by auto
  have "unroll_loop False 1 cur2 ?z = ?z"
    using cursor_page_ok [OF cur2(2)] i' D(5) by (simp add: phy_Page_ref_get_def f)
  then have "pmm_change_pages_ref ?p 2 False b = (b\<lparr>zone := ?z\<rparr>, E_RENDEZVOS)"
    using pz(2) cur(1) loop cur2(1) by (simp add: pmm_change_pages_ref_def)
  then show ?thesis using f by blast
qed

end
