(* ===== verification/Buddy_Init.thy ===== *)
theory Buddy_Init
  imports Buddy_Spec
begin

text \<open>
  Initialisation of the buddy allocator, and the properties of the component: \<open>pmm_init\<close> establishes the invariant on
  zones made of whole chunks of the highest order, and builds a block that reaches past the zone when the end of
  a section is not so aligned.
\<close>

section \<open>Initialisation\<close>

lemma blocks_join:
  assumes bl: "blocks ps F H" and k: "Suc k \<le> BUDDY_MAXORDER" and i: "i \<in> F k" "i + 2 ^ k \<in> F k" and d: "2 ^ Suc k dvd i"
    and p: "ppn (ps ! (i + 2 ^ k)) = ppn (ps ! i) + 2 ^ k"
  defines "F1 \<equiv> F(k := F k - {i} - {i + 2 ^ k})"
  shows "blocks (upd_order (upd_order ps (i + 2 ^ k) (- 1)) i (int (Suc k))) (F1(Suc k := insert i (F (Suc k)))) H"
    "freeset (F1(Suc k := insert i (F (Suc k)))) = freeset F"
proof -
  let ?ps = "upd_order (upd_order ps (i + 2 ^ k) (- 1)) i (int (Suc k))"
  have kk: "k \<le> BUDDY_MAXORDER" using k by simp
  have ok: "block_ok ps i k" "block_ok ps (i + 2 ^ k) k" using blocksD(1) [OF bl kk] i by blast+
  have u2: "i + 2 ^ k \<in> (F(k := F k - {i})) k" using i(2) by simp
  note t1 = blocks_take [OF bl kk i(1)]
  have f1: "F(k := F k - {i}, k := (F(k := F k - {i})) k - {i + 2 ^ k}) = F1" by (auto simp: F1_def)
  have t2: "blocks ps F1 (H \<union> blk i (Suc k))"
    using blocks_take [OF t1 kk u2] unfolding f1 blk_halves(1) [of i k] by (simp add: Un_assoc)
  have fr1: "freeset F1 = freeset F - blk i (Suc k)"
    using freeset_take [OF t1 kk u2] freeset_take [OF bl kk i(1)] unfolding f1 blk_halves(1) [of i k] by blast
  have ex: "H \<inter> blk i (Suc k) = {}" "blk i (Suc k) \<subseteq> freeset F"
    using blocksD(2) [OF bl kk] i blocksD(5) [OF bl] unfolding blk_halves(1) [of i k] by blast+
  have n: "i + 2 ^ Suc k \<le> length ps" using ok(2) by (simp add: block_ok_def)
  then have n': "i < length ps" "i + 2 ^ k < length ps" using zero_less_power [of "2::nat" k] unfolding power_Suc by linarith+
  have "contig ps i (Suc k)" using ok p by (intro contig_join) (auto simp: block_ok_def)
  moreover have "old_order ?ps (Suc k) j" if "j \<in> blk i (Suc k)" "j \<noteq> i" for j
  proof (cases "j = i + 2 ^ k")
    case True
    then show ?thesis using n' by (simp add: old_order_def)
  next
    case False
    then have "order (ps ! j) = - 1 \<or> old_order ps k j"
      using that ok unfolding blk_halves(1) [of i k] block_ok_def by blast
    then show ?thesis using False that(2) n' by (auto simp: old_order_def intro: less_SucI)
  qed
  ultimately have "block_ok ?ps i (Suc k)" using n n' d by (auto simp: block_ok_def contig_def)
  moreover have "blocks ?ps F1 (H \<union> blk i (Suc k))"
    by (intro blocks_upd t2) (auto simp: blk_halves)
  ultimately have "blocks ?ps (F1(Suc k := insert i (F1 (Suc k)))) (H \<union> blk i (Suc k) - blk i (Suc k))"
    by (intro blocks_put k) auto
  moreover have "H \<union> blk i (Suc k) - blk i (Suc k) = H" using ex by blast
  ultimately show "blocks ?ps (F1(Suc k := insert i (F (Suc k)))) H" by (simp add: F1_def)
  have "freeset (F1(Suc k := insert i (F1 (Suc k)))) = blk i (Suc k) \<union> freeset F1" by (rule freeset_insert [OF k])
  then show "freeset (F1(Suc k := insert i (F (Suc k)))) = freeset F" using fr1 ex(2) by (auto simp: F1_def)
qed

lemma init_join:
  assumes ok: "heap_ok b fl {}" and k: "Suc k \<le> BUDDY_MAXORDER" and i: "i \<in> set (fl k)" "i + 2 ^ k \<in> set (fl k)"
    and d: "2 ^ Suc k dvd i" and c: "ppn (pages b ! i) mod 2 ^ Suc k = 0" "ppn (pages b ! (i + 2 ^ k)) = ppn (pages b ! i) + 2 ^ k"
  shows "\<exists>b'. init_merge k i b = Some b' \<and>
     heap_ok b' (fl(k := remove1 (i + 2 ^ k) (remove1 i (fl k)), Suc k := fl (Suc k) @ [i])) {} \<and>
     freeset (heads (fl(k := remove1 (i + 2 ^ k) (remove1 i (fl k)), Suc k := fl (Suc k) @ [i]))) = freeset (heads fl) \<and>
     frame_of b' = frame_of b"
proof -
  let ?n = "length (pages b)" and ?u = "i + 2 ^ k"
  let ?fl1 = "fl(k := remove1 i (fl k))"
  let ?fl2 = "fl(k := remove1 ?u (remove1 i (fl k)))"
  let ?fl3 = "?fl2(Suc k := fl (Suc k) @ [i])"
  let ?ps = "upd_order (upd_order (pages b) ?u (- 1)) i (int (Suc k))"
  have r: "rings (links b) ?n fl" and bl: "blocks (pages b) (heads fl) {}"
    and av: "\<And>j. j \<le> BUDDY_MAXORDER \<Longrightarrow> aval_pages b j = of_nat (length (fl j))"
    using ok by (auto simp: heap_ok_def)
  have kk: "k \<le> BUDDY_MAXORDER" using k by simp
  have ds: "distinct (fl k)" by (rule rings_distinct [OF r kk])
  have u1: "?u \<in> set (remove1 i (fl k))" using i(2) ds by simp
  have bk: "block_ok (pages b) i k" "block_ok (pages b) ?u k" using blocksD(1) [OF bl kk] i by (simp_all add: heads_at)
  have n: "i < ?n" "?u < ?n" using bk zero_less_power [of "2::nat" k] unfolding block_ok_def by linarith+
  from rings_del [OF r kk i(1)] obtain h1 where h1: "list_del (Frame i) (links b) = Some h1" "rings h1 ?n ?fl1" by blast
  have uu: "?u \<in> set (?fl1 k)" and e: "?fl1(k := remove1 ?u (?fl1 k)) = ?fl2" using u1 by simp_all
  from rings_del [OF h1(2) kk uu] obtain h2 where
    h2: "list_del (Frame ?u) h1 = Some h2" "rings h2 ?n ?fl2" unfolding e by blast
  have "\<forall>k' \<le> BUDDY_MAXORDER. i \<notin> set (?fl2 k')" using rings_once [OF r kk _ i(1)] ds by auto
  moreover have e3: "?fl2(Suc k := ?fl2 (Suc k) @ [i]) = ?fl3" by simp
  ultimately obtain h3 where h3: "list_add_tail (Frame i) (Bucket (Suc k)) h2 = Some h3" "rings h3 ?n ?fl3"
    using rings_add_tail [OF h2(2) k, of i] unfolding e3 by blast
  let ?b = "add_aval (Suc k) 1 (add_aval k (- 2) b)\<lparr>pages := ?ps, links := h3\<rparr>"
  have oi: "order (pages b ! i) = int k" using bk(1) by (simp add: block_ok_def)
  have run: "init_merge k i b = Some ?b"
    using c n h1(1) h2(1) h3(1) oi by (simp add: init_merge_def set_order_eq add_aval_def del_frame_def add.commute)
  have hd: "heads ?fl3 = (heads fl)(k := heads fl k - {i} - {?u}, Suc k := insert i (heads fl (Suc k)))"
    using ds by (simp add: heads_upd heads_at distinct_remove1)
  have m: "i \<in> heads fl k" "?u \<in> heads fl k" using i by (simp_all add: heads_at)
  have J: "blocks ?ps (heads ?fl3) {}" "freeset (heads ?fl3) = freeset (heads fl)"
    unfolding hd using blocks_join [OF bl k m d c(2)] by simp_all
  have "aval_pages ?b j = of_nat (length (?fl3 j))" if "j \<le> BUDDY_MAXORDER" for j
    using av [OF that] i(1) u1 by (auto simp: add_aval_def length_remove1_word)
  then have "heap_ok ?b ?fl3 {}" using h3(2) J(1) by (simp add: heap_ok_def)
  moreover have "frame_of ?b = frame_of b" by (simp add: frame_of_def add_aval_def)
  ultimately show ?thesis using run J(2) by blast
qed

text \<open>The pages in chunks of the highest order: every chunk is contiguous and aligned.\<close>

definition chunked :: "int list \<Rightarrow> bool" where
  "chunked ps \<longleftrightarrow> 2 ^ BUDDY_MAXORDER dvd length ps \<and> (\<forall>i < length ps. ps ! i mod 2 ^ BUDDY_MAXORDER = int (i mod 2 ^ BUDDY_MAXORDER) \<and>
     (\<forall>j. i mod 2 ^ BUDDY_MAXORDER + j < 2 ^ BUDDY_MAXORDER \<longrightarrow> ps ! (i + j) = ps ! i + int j))"

lemma chunk_room:
  assumes "(d::nat) dvd n" "i < n" "i mod d + j < d"
  shows "i + j < n"
proof -
  obtain c where c: "n = d * c" using assms(1) by blast
  have "i div d < c" using assms(2) c by (metis less_mult_imp_div_less mult.commute)
  then have "d * (i div d) + d \<le> d * c" by (metis Suc_leI mult_Suc_right mult_le_mono2 add.commute)
  moreover have "i = d * (i div d) + i mod d" by simp
  ultimately show ?thesis using assms(3) c by linarith
qed

lemma chunked_append: assumes "chunked ps" "chunked qs" shows "chunked (ps @ qs)"
proof -
  let ?d = "2 ^ BUDDY_MAXORDER :: nat"
  have l: "?d dvd length ps" "?d dvd length qs" using assms by (simp_all add: chunked_def)
  have "(ps @ qs) ! i mod 2 ^ BUDDY_MAXORDER = int (i mod ?d) \<and>
     (\<forall>j. i mod ?d + j < ?d \<longrightarrow> (ps @ qs) ! (i + j) = (ps @ qs) ! i + int j)" if i: "i < length (ps @ qs)" for i
  proof (cases "i < length ps")
    case True
    have "i + j < length ps" if "i mod ?d + j < ?d" for j using chunk_room [OF l(1) True that] .
    then show ?thesis using assms(1) True by (simp add: chunked_def nth_append)
  next
    case False
    then obtain i' where i': "i = length ps + i'" by (metis le_iff_add not_less)
    obtain c where "length ps = ?d * c" using l(1) by blast
    then have "i mod ?d = i' mod ?d" using i' by simp
    then show ?thesis using assms(2) i i' by (simp add: chunked_def nth_append)
  qed
  then show ?thesis using l unfolding chunked_def by (simp add: dvd_add)
qed

lemma chunked_concat: "\<forall>ps \<in> set pss. chunked ps \<Longrightarrow> chunked (concat pss)"
  by (induction pss) (simp_all add: chunked_append, simp add: chunked_def)

lemma chunked_sec:
  assumes "2 ^ BUDDY_MAXORDER * 4096 dvd lower_addr sec" "2 ^ BUDDY_MAXORDER dvd sec_page_count sec"
  shows "chunked (sec_ppns sec)"
proof -
  let ?d = "2 ^ BUDDY_MAXORDER :: nat"
  obtain c where c: "lower_addr sec = ?d * 4096 * c" using assms(1) by blast
  then have "4096 dvd lower_addr sec" by simp
  then have e: "sec_ppns sec = map (\<lambda>j. int (?d * c) + int j) [0..<sec_page_count sec]"
    using c by (simp add: sec_ppns_eq ppn_of_def)
  have "(int (?d * c) + int i) mod 2 ^ BUDDY_MAXORDER = int (i mod ?d)" for i
    by (simp add: zmod_int)
  then show ?thesis unfolding chunked_def e using assms(2) chunk_room [OF assms(2)] by auto
qed

text \<open>The free lists while the pages are joined into blocks of order \<open>Suc k\<close>, at page \<open>i\<close>.\<close>

definition stage :: "nat \<Rightarrow> nat \<Rightarrow> nat \<Rightarrow> nat \<Rightarrow> nat list" where
  "stage n k i j = (if j = k then filter (\<lambda>x. 2 ^ k dvd x \<and> i \<le> 2 ^ Suc k * (x div 2 ^ Suc k)) [0..<n]
     else if j = Suc k then filter (\<lambda>x. 2 ^ Suc k dvd x) [0..<i] else [])"

lemma pair_cell:
  assumes "2 ^ k dvd x" "2 ^ Suc k dvd (i::nat)"
  shows "2 ^ Suc k * (x div 2 ^ Suc k) = i \<longleftrightarrow> x = i \<or> x = i + 2 ^ k"
proof -
  obtain a where a: "x = 2 ^ k * a" using assms(1) by blast
  obtain c where c: "i = 2 ^ Suc k * c" using assms(2) by blast
  have "x div 2 ^ Suc k = a div 2" unfolding a power_Suc2 using div_mult_mult1 [of "2 ^ k" a 2] by simp
  then have "2 ^ Suc k * (x div 2 ^ Suc k) = i \<longleftrightarrow> a div 2 = c" unfolding c by simp
  also have "\<dots> \<longleftrightarrow> a = 2 * c \<or> a = 2 * c + 1" by presburger
  also have "\<dots> \<longleftrightarrow> x = i \<or> x = i + 2 ^ k"
  proof -
    have "x = i \<longleftrightarrow> 2 ^ k * a = 2 ^ k * (2 * c)" "x = i + 2 ^ k \<longleftrightarrow> 2 ^ k * a = 2 ^ k * (2 * c + 1)" unfolding a c by (simp_all add: algebra_simps)
    then show ?thesis by (simp only: mult_cancel1) simp
  qed
  finally show ?thesis .
qed

lemma stage_next:
  assumes "2 ^ Suc k dvd i" "i < n"
  shows "(stage n k i)(k := remove1 (i + 2 ^ k) (remove1 i (stage n k i k)), Suc k := stage n k i (Suc k) @ [i]) = stage n k (Suc i)"
proof
  fix j
  have "filter (\<lambda>x. 2 ^ k dvd x \<and> Suc i \<le> 2 ^ Suc k * (x div 2 ^ Suc k)) [0..<n] =
     filter (\<lambda>x. i + 2 ^ k \<noteq> x \<and> i \<noteq> x \<and> 2 ^ k dvd x \<and> i \<le> 2 ^ Suc k * (x div 2 ^ Suc k)) [0..<n]"
  proof (rule filter_cong [OF refl])
    fix x :: nat
    obtain y where y: "y = 2 ^ Suc k * (x div 2 ^ Suc k)" by simp
    have "2 ^ k dvd x \<Longrightarrow> y = i \<longleftrightarrow> x = i \<or> x = i + 2 ^ k" unfolding y by (rule pair_cell [OF _ assms(1)])
    moreover have "Suc i \<le> y \<longleftrightarrow> i \<le> y \<and> y \<noteq> i" by auto
    ultimately show "(2 ^ k dvd x \<and> Suc i \<le> 2 ^ Suc k * (x div 2 ^ Suc k)) =
        (i + 2 ^ k \<noteq> x \<and> i \<noteq> x \<and> 2 ^ k dvd x \<and> i \<le> 2 ^ Suc k * (x div 2 ^ Suc k))"
      unfolding y [symmetric] by metis
  qed
  then have "remove1 (i + 2 ^ k) (remove1 i (stage n k i k)) = stage n k (Suc i) k"
    by (simp add: stage_def distinct_remove1_removeAll removeAll_filter_not_eq conj_ac del: power_Suc)
  moreover have "stage n k i (Suc k) @ [i] = stage n k (Suc i) (Suc k)" using assms(1) by (simp add: stage_def del: power_Suc)
  moreover have "stage n k (Suc i) j = stage n k i j" if "j \<noteq> k" "j \<noteq> Suc k" using that by (simp add: stage_def)
  ultimately show "((stage n k i)(k := remove1 (i + 2 ^ k) (remove1 i (stage n k i k)), Suc k := stage n k i (Suc k) @ [i])) j = stage n k (Suc i) j"
    by simp
qed

lemma stage_skip:
  assumes "\<not> 2 ^ Suc k dvd i"
  shows "stage n k (Suc i) = stage n k i"
proof
  fix j
  have "filter (\<lambda>x. 2 ^ k dvd x \<and> Suc i \<le> 2 ^ Suc k * (x div 2 ^ Suc k)) [0..<n] =
     filter (\<lambda>x. 2 ^ k dvd x \<and> i \<le> 2 ^ Suc k * (x div 2 ^ Suc k)) [0..<n]"
    using assms by (intro filter_cong) (auto simp: Suc_le_eq order.order_iff_strict simp del: power_Suc)
  then show "stage n k (Suc i) j = stage n k i j" using assms by (simp add: stage_def del: power_Suc)
qed

lemma stage_end: "stage n k n = stage n (Suc k) 0"
proof
  fix j
  have "\<not> n \<le> 2 ^ Suc k * (x div 2 ^ Suc k)" if "x < n" for x
    using that times_div_less_eq_dividend [of "2 ^ Suc k" x] by linarith
  then show "stage n k n j = stage n (Suc k) 0 j" by (auto simp: stage_def simp del: power_Suc)
qed

lemma merge_pages_ok:
  assumes "heap_ok b (stage n k i) {}" "length (pages b) = n" "Suc k \<le> BUDDY_MAXORDER" "i \<le> n"
    and ch: "chunked (map ppn (pages b))"
  shows "\<exists>b'. merge_pages k [i..<n] b = Some b' \<and> heap_ok b' (stage n k n) {} \<and>
     freeset (heads (stage n k n)) = freeset (heads (stage n k i)) \<and> frame_of b' = frame_of b"
  using assms
proof (induction "n - i" arbitrary: i b)
  case (Suc m)
  have i: "i < n" and m: "m = n - Suc i" using Suc.hyps(2) by simp_all
  let ?d = "2 ^ BUDDY_MAXORDER :: nat"
  have dv: "(2::nat) ^ Suc k dvd ?d" using Suc.prems(3) by (rule le_imp_power_dvd)
  have dvn: "?d dvd n" "2 ^ Suc k dvd n" using Suc.prems(2,5) dv by (auto simp: chunked_def intro: dvd_trans)
  have cell: "ppn (pages b ! i) mod 2 ^ BUDDY_MAXORDER = int (i mod ?d)"
    "\<And>j. i mod ?d + j < ?d \<Longrightarrow> ppn (pages b ! (i + j)) = ppn (pages b ! i) + int j"
    using Suc.prems(2,5) i chunk_room [OF dvn(1) i] by (auto simp: chunked_def)
  have al: "ppn (pages b ! i) mod 2 ^ Suc k = 0 \<longleftrightarrow> 2 ^ Suc k dvd i"
  proof -
    have "(2::int) ^ Suc k dvd 2 ^ BUDDY_MAXORDER" using Suc.prems(3) by (rule le_imp_power_dvd)
    then have "ppn (pages b ! i) mod 2 ^ Suc k = int (i mod ?d) mod 2 ^ Suc k" 
      unfolding cell(1) [symmetric] by (rule mod_mod_cancel [symmetric])
    also have "\<dots> = int (i mod ?d mod 2 ^ Suc k)" by (simp only: of_nat_mod of_nat_power of_nat_numeral)
    also have "i mod ?d mod 2 ^ Suc k = i mod 2 ^ Suc k" using dv by (rule mod_mod_cancel)
    finally show ?thesis by (simp add: dvd_eq_mod_eq_0 del: power_Suc)
  qed
  have up: "[i..<n] = i # [Suc i..<n]" using i by (rule upt_conv_Cons)
  obtain b1 where b1: "init_merge k i b = Some b1" "heap_ok b1 (stage n k (Suc i)) {}"
    "freeset (heads (stage n k (Suc i))) = freeset (heads (stage n k i))" "frame_of b1 = frame_of b"
  proof (cases "2 ^ Suc k dvd i")
    case False
    then have "init_merge k i b = Some b" using al unfolding init_merge_def by auto
    then show ?thesis using that Suc.prems(1) stage_skip [OF False] by simp
  next
    case True
    have "i + 2 ^ Suc k \<le> n" using dvd_gap [OF True dvn(2) i] .
    then have u: "i + 2 ^ k < n" using zero_less_power [of "2::nat" k] unfolding power_Suc by linarith
    have "i mod ?d + 2 ^ k < ?d"
    proof -
      have "2 ^ Suc k dvd i mod ?d" using True dv by (simp add: dvd_mod)
      then have "i mod ?d + 2 ^ Suc k \<le> ?d" using dv by (intro dvd_gap) simp_all
      then show ?thesis using zero_less_power [of "2::nat" k] unfolding power_Suc by linarith
    qed
    then have pp: "ppn (pages b ! (i + 2 ^ k)) = ppn (pages b ! i) + 2 ^ k" using cell(2) [of "2 ^ k"] by simp
    have kd: "2 ^ k dvd i" using True by (rule power_le_dvd) simp
    then have "i \<in> set (stage n k i k)" "i + 2 ^ k \<in> set (stage n k i k)"
      using i u pair_cell [OF kd True] pair_cell [of k "i + 2 ^ k" i] True by (simp_all add: stage_def del: power_Suc)
    from init_join [OF Suc.prems(1,3) this True _ pp] al True show ?thesis
      using that unfolding stage_next [OF True i] by auto
  qed
  have "length (pages b1) = n" "chunked (map ppn (pages b1))" using b1(4) Suc.prems(2,5) frame_length [OF b1(4)] by (simp_all add: frame_of_def)
  then obtain b' where "merge_pages k [Suc i..<n] b1 = Some b'" "heap_ok b' (stage n k n) {}"
     "freeset (heads (stage n k n)) = freeset (heads (stage n k (Suc i)))" "frame_of b' = frame_of b1"
    using Suc.hyps(1) [OF m b1(2) _ Suc.prems(3)] i by auto
  then show ?case using b1 unfolding up by auto
qed auto

lemma merge_orders_ok:
  assumes "heap_ok b (stage n k 0) {}" "length (pages b) = n" "k \<le> BUDDY_MAXORDER" "chunked (map ppn (pages b))"
  shows "\<exists>b'. merge_orders [k..<BUDDY_MAXORDER] b = Some b' \<and> heap_ok b' (stage n BUDDY_MAXORDER 0) {} \<and>
     freeset (heads (stage n BUDDY_MAXORDER 0)) = freeset (heads (stage n k 0)) \<and> frame_of b' = frame_of b"
  using assms
proof (induction "BUDDY_MAXORDER - k" arbitrary: k b)
  case (Suc m)
  have k: "k < BUDDY_MAXORDER" and m: "m = BUDDY_MAXORDER - Suc k" using Suc.hyps(2) by simp_all
  have up: "[k..<BUDDY_MAXORDER] = k # [Suc k..<BUDDY_MAXORDER]" using k by (rule upt_conv_Cons)
  from merge_pages_ok [OF Suc.prems(1,2)] k Suc.prems(4) obtain b1 where b1:
    "merge_pages k [0..<n] b = Some b1" "heap_ok b1 (stage n (Suc k) 0) {}"
    "freeset (heads (stage n (Suc k) 0)) = freeset (heads (stage n k 0))" "frame_of b1 = frame_of b"
    unfolding stage_end by auto
  have "length (pages b1) = n" "chunked (map ppn (pages b1))" using b1(4) Suc.prems(2,4) frame_length [OF b1(4)] by (simp_all add: frame_of_def)
  then obtain b' where "merge_orders [Suc k..<BUDDY_MAXORDER] b1 = Some b'" "heap_ok b' (stage n BUDDY_MAXORDER 0) {}"
     "freeset (heads (stage n BUDDY_MAXORDER 0)) = freeset (heads (stage n (Suc k) 0))" "frame_of b' = frame_of b1"
    using Suc.hyps(1) [OF m b1(2)] k by auto
  then show ?case using b1 Suc.prems(2) unfolding up by auto
qed auto

lemma foldl_init:
  "l_next (foldl (\<lambda>h x. INIT_LIST_HEAD (f x) h) h xs) y = (if y \<in> f ` set xs then Some y else l_next h y)"
  "l_prev (foldl (\<lambda>h x. INIT_LIST_HEAD (f x) h) h xs) y = (if y \<in> f ` set xs then Some y else l_prev h y)"
  by (induction xs arbitrary: h) (auto simp: list_write_defs)

lemma rings_start:
  assumes "\<And>x. x \<in> Bucket ` {..BUDDY_MAXORDER} \<union> Frame ` {..<n} \<Longrightarrow> l_next h x = Some x \<and> l_prev h x = Some x"
  shows "rings h n (\<lambda>_. [])"
  using assms by (auto simp: rings_def dl.family_def lists_of_def ring_def list_node_is_detached_def)

lemma add_pages_ok:
  assumes "rings (links b) n ((\<lambda>_. [])(0 := [0..<i]))" "length (pages b) = n" "i \<le> n" "\<forall>j < i. order (pages b ! j) = 0"
    and "\<forall>k. aval_pages b k = of_nat (if k = 0 then i else 0)" "total_avaliable_pages b = of_nat i"
  shows "\<exists>b'. add_pages [i..<n] b = Some b' \<and> rings (links b') n ((\<lambda>_. [])(0 := [0..<n])) \<and> (\<forall>j < n. order (pages b' ! j) = 0) \<and>
     (\<forall>k. aval_pages b' k = of_nat (if k = 0 then n else 0)) \<and> frame_of b' = (zone b, map ppn (pages b), of_nat n)"
  using assms
proof (induction "n - i" arbitrary: i b)
  case (Suc m)
  have i: "i < n" and m: "m = n - Suc i" using Suc.hyps(2) by simp_all
  have up: "[i..<n] = i # [Suc i..<n]" using i by (rule upt_conv_Cons)
  have e: "((\<lambda>_. [])(0 := [0..<i], 0 := ((\<lambda>_. [])(0 := [0..<i])) 0 @ [i])) = (\<lambda>_. [])(0 := [0..<Suc i])" by auto
  have "\<forall>k' \<le> BUDDY_MAXORDER. i \<notin> set (((\<lambda>_. [])(0 := [0..<i])) k')" by simp
  from rings_add_tail [OF Suc.prems(1) _ this, of 0] obtain h where
    h: "list_add_tail (Frame i) (Bucket 0) (links b) = Some h" "rings h n ((\<lambda>_. [])(0 := [0..<Suc i]))"
    unfolding e by blast
  let ?b = "(add_aval 0 1 (b\<lparr>links := h, pages := upd_order (pages b) i 0\<rparr>))\<lparr>total_avaliable_pages := total_avaliable_pages b + 1\<rparr>"
  have run: "add_pages (i # [Suc i..<n]) b = add_pages [Suc i..<n] ?b"
    using h(1) i Suc.prems(2) by (simp add: set_order_eq add_aval_def)
  have "\<exists>b'. add_pages [Suc i..<n] ?b = Some b' \<and> rings (links b') n ((\<lambda>_. [])(0 := [0..<n])) \<and> (\<forall>j < n. order (pages b' ! j) = 0) \<and>
     (\<forall>k. aval_pages b' k = of_nat (if k = 0 then n else 0)) \<and> frame_of b' = (zone ?b, map ppn (pages ?b), of_nat n)"
    using h(2) i Suc.prems by (intro Suc.hyps(1) m) (auto simp: add_aval_def less_Suc_eq)
  then show ?case unfolding up run by (simp add: add_aval_def)
qed (auto simp: frame_of_def)

lemma pmm_init_start:
  assumes n: "n = length (zone_ppns (zone b))" and sp: "n * 32 \<le> space"
  shows "\<exists>b'. pmm_init space n b = merge_orders [0..<BUDDY_MAXORDER] b' \<and> heap_ok b' (stage n 0 0) {} \<and>
     freeset (heads (stage n 0 0)) = {..<n} \<and> frame_of b' = (zone b, zone_ppns (zone b), of_nat n) \<and> length (pages b') = n"
proof -
  define b1 where "b1 = init_pages (b\<lparr>aval_pages := (\<lambda>_. 0),
    links := foldl (\<lambda>h k. INIT_LIST_HEAD (Bucket k) h) (links b) [0..<Suc BUDDY_MAXORDER], total_avaliable_pages := 0\<rparr>)"
  have p1: "map ppn (pages b1) = zone_ppns (zone b)" "zone b1 = zone b" "aval_pages b1 = (\<lambda>_. 0)" "total_avaliable_pages b1 = 0"
    by (simp_all add: b1_def init_pages_def Let_def zone_ppns_def comp_def)
  then have l1: "length (pages b1) = n" using n by (metis length_map)
  have "rings (links b1) n (\<lambda>_. [])"
    using n by (intro rings_start) (auto simp: b1_def init_pages_def Let_def foldl_init zone_ppns_def simp del: upt_Suc)
  then have r1: "rings (links b1) n ((\<lambda>_. [])(0 := [0..<0]))" by (simp add: fun_upd_idem)
  have "\<exists>b'. add_pages [0..<n] b1 = Some b' \<and> rings (links b') n ((\<lambda>_. [])(0 := [0..<n])) \<and> (\<forall>j < n. order (pages b' ! j) = 0) \<and>
     (\<forall>k. aval_pages b' k = of_nat (if k = 0 then n else 0)) \<and> frame_of b' = (zone b1, map ppn (pages b1), of_nat n)"
    using l1 p1 by (intro add_pages_ok r1) auto
  then obtain b2 where b2: "add_pages [0..<n] b1 = Some b2" "rings (links b2) n ((\<lambda>_. [])(0 := [0..<n]))" "\<forall>j < n. order (pages b2 ! j) = 0"
     "\<forall>k. aval_pages b2 k = of_nat (if k = 0 then n else 0)" "frame_of b2 = (zone b, zone_ppns (zone b), of_nat n)"
    unfolding p1 by blast
  have l2: "length (pages b2) = n" using b2(5) n by (metis frame_of_def length_map prod.inject)
  have st: "(\<lambda>_. [])(0 := [0..<n]) = stage n 0 0" by (auto simp: stage_def)
  have F: "heads (stage n 0 0) = (\<lambda>_. {})(0 := {..<n})" unfolding st [symmetric] heads_def by (rule ext) auto
  have b0: "blk i 0 = {i}" for i by (auto simp: blk_def)
  have fs: "freeset (heads (stage n 0 0)) = {..<n}" by (auto simp: F freeset_def b0 split: if_splits)
  have "blocks (pages b2) (heads (stage n 0 0)) {}"
    unfolding blocks_def fs using l2 b2(3) by (auto simp: F b0 block_ok_def contig_def Suc_le_eq)
  moreover have "aval_pages b2 k = of_nat (length (stage n 0 0 k))" for k using b2(4) by (simp add: st [symmetric])
  ultimately have "heap_ok b2 (stage n 0 0) {}" using b2(2) l2 by (simp add: heap_ok_def st)
  moreover have "pmm_init space n b = merge_orders [0..<BUDDY_MAXORDER] b2"
    using sp l1 b2(1) unfolding pmm_init_def Let_def b1_def [symmetric] by simp
  ultimately show ?thesis using fs b2(5) l2 by blast
qed

lemma pmm_init_run:
  assumes z: "zone_ok (zone b)" and n: "n = length (zone_ppns (zone b))" "n < 2 ^ 64" and sp: "n * 32 \<le> space"
    and al: "\<forall>sec \<in> set (sections (zone b)). 2 ^ BUDDY_MAXORDER * 4096 dvd lower_addr sec \<and> 2 ^ BUDDY_MAXORDER dvd sec_page_count sec"
    and fr: "\<forall>i < n. flat_refs (zone b) ! i = 0"
  shows "\<exists>b'. pmm_init space n b = Some b' \<and> buddy_ok b' (stage n BUDDY_MAXORDER 0) \<and> zone b' = zone b"
proof -
  from pmm_init_start [OF n(1) sp] obtain b2 where b2: "pmm_init space n b = merge_orders [0..<BUDDY_MAXORDER] b2"
    "heap_ok b2 (stage n 0 0) {}" "freeset (heads (stage n 0 0)) = {..<n}" "frame_of b2 = (zone b, zone_ppns (zone b), of_nat n)"
    "length (pages b2) = n" by blast
  have "chunked (zone_ppns (zone b))" unfolding zone_ppns_def using al by (intro chunked_concat) (auto intro: chunked_sec)
  then have "chunked (map ppn (pages b2))" using b2(4) by (simp add: frame_of_def)
  from merge_orders_ok [OF b2(2,5) _ this] obtain b3 where b3: "merge_orders [0..<BUDDY_MAXORDER] b2 = Some b3"
    "heap_ok b3 (stage n BUDDY_MAXORDER 0) {}" "freeset (heads (stage n BUDDY_MAXORDER 0)) = {..<n}" "frame_of b3 = frame_of b2"
    unfolding b2(3) by auto
  have fp: "zone b3 = zone b" "map ppn (pages b3) = zone_ppns (zone b)" "total_avaliable_pages b3 = of_nat n"
    using b3(4) b2(4) by (simp_all add: frame_of_def)
  have l3: "length (pages b3) = n" using frame_length [OF b3(4)] b2(5) by simp
  have "free_pages b3 = {..<n}" using fr l3 fp(1) by (auto simp: free_pages_def)
  then have "buddy_ok b3 (stage n BUDDY_MAXORDER 0)" using b3(2,3) fp l3 z n fr by (simp add: buddy_ok_def)
  then show ?thesis using b2(1) b3(1) fp(1) by auto
qed

definition short_zone :: buddy where
  "short_zone = \<lparr>zone = \<lparr>zone_lower = 16384, zone_upper = 28672,
       sections = [\<lparr>lower_addr = 16384, upper_addr = 28672, ref_counts = [0, 0, 0]\<rparr>]\<rparr>,
     pages = [], aval_pages = (\<lambda>_. 0), links = \<lparr>l_prev = (\<lambda>_. None), l_next = (\<lambda>_. None)\<rparr>, total_avaliable_pages = 0\<rparr>"

lemma short_ppns: "zone_ppns (zone short_zone) = [4, 5, 6]" "zone_ok (zone short_zone)" "flat_refs (zone short_zone) = [0, 0, 0]"
proof -
  have u: "[0..<3::nat] = [0, 1, 2]" by (simp add: upt_rec)
  show p: "zone_ppns (zone short_zone) = [4, 5, 6]" by (simp add: short_zone_def zone_ppns_def sec_ppns_def ppn_of_def u)
  show "flat_refs (zone short_zone) = [0, 0, 0]" by (simp add: short_zone_def flat_refs_def)
  have "16384 = 4096 * (4::nat)" by simp
  then have "4096 dvd (16384::nat)" by (rule dvdI)
  then show "zone_ok (zone short_zone)" unfolding zone_ok_def p by (simp add: short_zone_def sec_ok_def)
qed

lemma merge_pages_skip:
  assumes "\<forall>i \<in> set is. \<not> (ppn (pages b ! i) mod 2 ^ Suc k = 0 \<and> i + 2 ^ k < length (pages b))"
  shows "merge_pages k is b = Some b"
  using assms by (induction "is") (auto simp: init_merge_def)

lemma short_join:
  assumes ok: "heap_ok b fl {}" "fl 1 = [0]" "fl 0 = [2]" "\<And>k. 1 < k \<Longrightarrow> fl k = []" and n: "map ppn (pages b) = [4, 5, 6]"
  shows "\<exists>b'. init_merge 1 0 b = Some b' \<and> rings (links b') 3 ((\<lambda>_. [])(2 := [0])) \<and> order (pages b' ! 0) = 2 \<and>
     aval_pages b' 1 = - 1 \<and> frame_of b' = frame_of b"
proof -
  have len: "length (pages b) = 3" using n by (metis length_map list.size(3) length_Cons numeral_3_eq_3)
  have pp: "ppn (pages b ! 0) = 4" "ppn (pages b ! 2) = 6" using n len nth_map [of 0 "pages b" ppn] nth_map [of 2 "pages b" ppn] by simp_all
  have r: "rings (links b) 3 fl" and bl: "blocks (pages b) (heads fl) {}" using ok(1) len by (auto simp: heap_ok_def)
  have "block_ok (pages b) 0 1" using blocksD(1) [OF bl, of 1 0] ok(2) by (simp add: heads_at BUDDY_MAXORDER_def)
  then have o: "order (pages b ! 0) = 1" by (simp add: block_ok_def)
  have av: "aval_pages b 1 = 1" using ok(1,2) by (simp add: heap_ok_def BUDDY_MAXORDER_def)
  have M: "1 \<le> BUDDY_MAXORDER" "0 \<le> BUDDY_MAXORDER" "2 \<le> BUDDY_MAXORDER" by (simp_all add: BUDDY_MAXORDER_def)
  from rings_del [OF r M(1), of 0] ok(2) obtain h1 where h1: "list_del (Frame 0) (links b) = Some h1" "rings h1 3 (fl(1 := []))" by auto
  from rings_del [OF h1(2) M(2), of 2] ok(3) obtain h2 where h2: "list_del (Frame 2) h1 = Some h2" "rings h2 3 (fl(1 := [], 0 := []))" by auto
  have e: "fl(1 := [], 0 := []) = (\<lambda>_. [])" using ok(4) by (auto simp: fun_eq_iff)
  from rings_add_tail [OF h2(2) M(3), of 0] obtain h3 where
    h3: "list_add_tail (Frame 0) (Bucket 2) h2 = Some h3" "rings h3 3 ((\<lambda>_. [])(2 := [0]))" unfolding e by auto
  let ?b = "add_aval 2 1 (add_aval 1 (- 2) b)\<lparr>pages := upd_order (upd_order (pages b) 2 (- 1)) 0 2, links := h3\<rparr>"
  have "init_merge 1 0 b = Some ?b"
    using pp len h1(1) h2(1) h3(1) o
    by (simp add: init_merge_def set_order_eq add_aval_def del_frame_def numeral_2_eq_2 [symmetric])
  moreover have "frame_of ?b = frame_of b" by (simp add: frame_of_def add_aval_def)
  moreover have "order (pages ?b ! 0) = 2" "aval_pages ?b 1 = - 1" using len av by (simp_all add: add_aval_def)
  moreover have "rings (links ?b) 3 ((\<lambda>_. [])(2 := [0]))" using h3(2) by simp
  ultimately show ?thesis by blast
qed

lemma short_init:
  "\<exists>b. pmm_init 4096 3 short_zone = Some b \<and> rings (links b) 3 ((\<lambda>_. [])(2 := [0])) \<and> order (pages b ! 0) = 2 \<and>
     aval_pages b 1 = - 1 \<and> frame_of b = (zone short_zone, [4, 5, 6], 3)"
proof -
  have "3 = length (zone_ppns (zone short_zone))" by (simp add: short_ppns)
  from pmm_init_start [OF this, of 4096] obtain b1 where b1: "pmm_init 4096 3 short_zone = merge_orders [0..<BUDDY_MAXORDER] b1"
    "heap_ok b1 (stage 3 0 0) {}" "frame_of b1 = (zone short_zone, [4, 5, 6], 3)" "length (pages b1) = 3"
    by (auto simp: short_ppns)
  have p1: "map ppn (pages b1) = [4, 5, 6]" using b1(3) by (simp add: frame_of_def)
  have pp: "ppn (pages b1 ! 0) = 4" "ppn (pages b1 ! 1) = 5" "ppn (pages b1 ! 2) = 6"
    using p1 b1(4) nth_map [of 0 "pages b1" ppn] nth_map [of 1 "pages b1" ppn] nth_map [of 2 "pages b1" ppn] by simp_all
  have u: "[0..<3::nat] = [0, 1, 2]" by (simp add: upt_rec)
  have st: "stage 3 0 0 = (\<lambda>_. [])(0 := [0, 1, 2])" by (auto simp: stage_def u)
  from init_join [OF b1(2), of 0 0] pp obtain b2 where b2: "init_merge 0 0 b1 = Some b2"
    "heap_ok b2 ((\<lambda>_. [])(0 := [2], Suc 0 := [0])) {}" "frame_of b2 = frame_of b1"
    by (auto simp: st BUDDY_MAXORDER_def)
  have l2: "length (pages b2) = 3" and p2: "map ppn (pages b2) = [4, 5, 6]" using frame_length [OF b2(3)] b2(3) b1(3,4) by (simp_all add: frame_of_def)
  have pp2: "ppn (pages b2 ! 1) = 5" using p2 l2 nth_map [of 1 "pages b2" ppn] by simp
  have "merge_pages 0 [1, 2] b2 = Some b2" using l2 pp2 by (intro merge_pages_skip) simp
  then have m0: "merge_pages 0 [0..<length (pages b1)] b1 = Some b2" using b1(4) b2(1) by (simp add: u)
  from short_join [OF b2(2) _ _ _ p2] obtain b3 where b3: "init_merge 1 0 b2 = Some b3" "rings (links b3) 3 ((\<lambda>_. [])(2 := [0]))"
    "order (pages b3 ! 0) = 2" "aval_pages b3 1 = - 1" "frame_of b3 = frame_of b2" by auto
  have l3: "length (pages b3) = 3" using frame_length [OF b3(5)] l2 by simp
  have "merge_pages 1 [1, 2] b3 = Some b3" using l3 by (intro merge_pages_skip) simp
  then have m1: "merge_pages 1 [0..<length (pages b2)] b2 = Some b3" using l2 b3(1) by (simp add: u)
  have sk: "merge_pages k [0..<length (pages b3)] b3 = Some b3" if "2 \<le> k" for k
  proof (rule merge_pages_skip)
    have "(2::nat) ^ 2 \<le> 2 ^ k" using that by (intro power_increasing) simp_all
    then show "\<forall>i \<in> set [0..<length (pages b3)]. \<not> (ppn (pages b3 ! i) mod 2 ^ Suc k = 0 \<and> i + 2 ^ k < length (pages b3))"
      using l3 by auto
  qed
  have "merge_orders ks b3 = Some b3" if "\<forall>k \<in> set ks. 2 \<le> k" for ks
    using that sk by (induction ks) auto
  then have "merge_orders [2..<BUDDY_MAXORDER] b3 = Some b3" by simp
  moreover have "[0..<BUDDY_MAXORDER] = 0 # 1 # [2..<BUDDY_MAXORDER]" by (simp add: BUDDY_MAXORDER_def upt_rec)
  ultimately have "pmm_init 4096 3 short_zone = Some b3" using b1(1) m0 m1 by simp
  then show ?thesis using b3 b2(3) b1(3) by auto
qed

lemma short_alloc_two:
  assumes r: "rings (links b) 3 ((\<lambda>_. [])(2 := [0]))" and o: "order (pages b ! 0) = 2" and f: "frame_of b = (zone short_zone, [4, 5, 6], 3)"
  shows "\<exists>b'. pmm_alloc None 2 b = Some (b', Inr 4, 2) \<and> rings (links b') 3 ((\<lambda>_. [])(1 := [2])) \<and> order (pages b' ! 2) = 1 \<and>
     shape (zone b') = shape (zone short_zone) \<and> flat_refs (zone b') ! 2 = 0 \<and> map ppn (pages b') = [4, 5, 6] \<and> total_avaliable_pages b' = 1"
proof -
  have z: "zone b = zone short_zone" and p: "map ppn (pages b) = [4, 5, 6]" and t: "total_avaliable_pages b = 3"
    using f by (simp_all add: frame_of_def)
  have len: "length (pages b) = 3" using p by (metis length_map list.size(3) length_Cons numeral_3_eq_3)
  have pp: "ppn (pages b ! 0) = 4" using p len nth_map [of 0 "pages b" ppn] by simp
  have M: "1 \<le> BUDDY_MAXORDER" "2 \<le> BUDDY_MAXORDER" by (simp_all add: BUDDY_MAXORDER_def)
  have up: "[1..<Suc BUDDY_MAXORDER] = 1 # 2 # [3..<Suc BUDDY_MAXORDER]" by (simp add: BUDDY_MAXORDER_def upt_rec)
  have fb: "find_block (links b) [1..<Suc BUDDY_MAXORDER] = Some (Some (2, 0))"
    unfolding up by (subst rings_find [OF r]) (auto simp: BUDDY_MAXORDER_def)
  obtain cur where cur: "zone_page_cursor_init (zone b) 4 = Some cur" "cur_at (zone b) cur 0"
    using cursor_init_ok [OF short_ppns(2), of 0] by (auto simp: short_ppns z)
  have "\<exists>z'. claim_loop 2 0 cur (zone b) = (z', 0 + 2, True) \<and> shape z' = shape (zone b) \<and>
    (\<forall>j < length (flat_refs (zone b)). flat_refs z' ! j = (if j \<in> {0..<0 + 2} then 1 else flat_refs (zone b) ! j))"
    using cur(2) by (intro claim_loop_ok) (auto simp: z short_ppns nth_Cons split: nat.splits)
  then obtain z' where z': "claim_loop 2 0 cur (zone b) = (z', 2, True)" "shape z' = shape (zone short_zone)" "flat_refs z' ! 2 = 0"
    by (auto simp: z short_ppns)
  from rings_del [OF r M(2), of 0] obtain h1 where h1: "list_del (Frame 0) (links b) = Some h1" "rings h1 3 (\<lambda>_. [])"
    by (auto simp: fun_upd_idem)
  from rings_add [OF h1(2) M(1), of 0] obtain h2 where h2: "list_add_head (Frame 0) (Bucket 1) h1 = Some h2" "rings h2 3 ((\<lambda>_. [])(1 := [0]))" by auto
  from rings_add [OF h2(2) M(1), of 2] obtain h3 where h3: "list_add_head (Frame 2) (Bucket 1) h2 = Some h3" "rings h3 3 ((\<lambda>_. [])(1 := [2, 0]))" by auto
  from rings_del [OF h3(2) M(1), of 0] obtain h4 where h4: "list_del (Frame 0) h3 = Some h4" "rings h4 3 ((\<lambda>_. [])(1 := [2]))" by auto
  let ?b1 = "add_aval 1 2 (add_aval 2 (- 1) (b\<lparr>zone := z', pages := upd_order (upd_order (pages b) 2 1) 0 1\<rparr>))\<lparr>links := h3\<rparr>"
  have "split_loop 1 0 (Suc 0) (b\<lparr>zone := z'\<rparr>) = Some ?b1"
    using len h1(1) h2(1) h3(1) by (simp add: set_order_eq add_aval_def del_frame_def add_frame_def numeral_2_eq_2 [symmetric])
  then obtain b1 where sp: "split_loop 1 0 (Suc 0) (b\<lparr>zone := z'\<rparr>) = Some b1" and b1: "links b1 = h3" "zone b1 = z'"
    "pages b1 = upd_order (upd_order (pages b) 2 1) 0 1" "total_avaliable_pages b1 = 3" using t by (simp add: add_aval_def)
  have "\<forall>j \<in> set [0..<2]. 0 + j < length (pages b1)" using len by (simp add: b1)
  from mark_loop_ok [OF this] obtain ps where ps: "mark_loop 0 [0..<2] b1 = Some (b1\<lparr>pages := ps\<rparr>)"
    "map ppn ps = map ppn (pages b1)" "\<forall>j. order (ps ! j) = (if j \<in> (+) 0 ` set [0..<2] then - 1 else order (pages b1 ! j))" by blast
  let ?b2 = "(add_aval 1 (- 1) (b1\<lparr>pages := ps, links := h4\<rparr>))\<lparr>total_avaliable_pages := 1\<rparr>"
  have lp: "length ps = 3" "map ppn ps = [4, 5, 6]" using ps(2) p len map_eq_imp_length_eq [OF ps(2)] by (simp_all add: b1)
  have "ppn (ps ! 0) = 4" using lp nth_map [of 0 ps ppn] by simp
  then have az: "pmm_alloc_zone 1 b = Some (?b2, Inr 4, 2)"
    unfolding pmm_alloc_zone_def fb using len o pp cur(1) z'(1) sp ps(1) h4(1)
    by (simp add: b1 del_frame_def add_aval_def del: split_loop.simps claim_loop.simps upt_Suc One_nat_def)
  have "log2_of_next_power_of_two 2 = 1" by code_simp
  then have "pmm_alloc None 2 b = Some (?b2, Inr 4, 2)"
    using az t by (simp add: pmm_alloc_def alloc_retry.simps [of None 2 0 b] BUDDY_MAXORDER_def invalid_ppn_def)
  moreover have "order (pages ?b2 ! 2) = 1" using ps(3) len by (simp add: add_aval_def b1)
  moreover have "total_avaliable_pages ?b2 = 1" by simp
  moreover have "rings (links ?b2) 3 ((\<lambda>_. [])(1 := [2]))" "shape (zone ?b2) = shape (zone short_zone)" "flat_refs (zone ?b2) ! 2 = 0"
    "map ppn (pages ?b2) = [4, 5, 6]" using h4(2) z' lp by (simp_all add: add_aval_def b1)
  ultimately show ?thesis by (intro exI [of _ ?b2] conjI)
qed

lemma short_alloc_one:
  assumes r: "rings (links b) 3 ((\<lambda>_. [])(1 := [2]))" and o: "order (pages b ! 2) = 1" and sh: "shape (zone b) = shape (zone short_zone)"
    and f: "flat_refs (zone b) ! 2 = 0" and p: "map ppn (pages b) = [4, 5, 6]" and t: "total_avaliable_pages b = 1"
  shows "pmm_alloc None 1 b = None"
proof -
  have len: "length (pages b) = 3" using p by (metis length_map list.size(3) length_Cons numeral_3_eq_3)
  have pp: "ppn (pages b ! 2) = 6" using p len nth_map [of 2 "pages b" ppn] by simp
  have up: "[0..<Suc BUDDY_MAXORDER] = 0 # 1 # [2..<Suc BUDDY_MAXORDER]" by (simp add: BUDDY_MAXORDER_def upt_rec)
  have fb: "find_block (links b) [0..<Suc BUDDY_MAXORDER] = Some (Some (1, 2))"
    unfolding up by (subst rings_find [OF r]) (auto simp: BUDDY_MAXORDER_def)
  have zok: "zone_ok (zone b)" "zone_ppns (zone b) = [4, 5, 6]" "length (flat_refs (zone b)) = 3"
    using short_ppns shapeD [OF sh] by simp_all
  obtain cur where cur: "zone_page_cursor_init (zone b) 6 = Some cur" "cur_at (zone b) cur 2"
    using cursor_init_ok [OF zok(1), of 2] by (auto simp: zok(2))
  have "\<forall>j \<in> {2..<2 + 1}. flat_refs (zone b) ! j = 0"
  proof
    fix j :: nat assume "j \<in> {2..<2 + 1}"
    then have "j = 2" by auto
    then show "flat_refs (zone b) ! j = 0" using f by simp
  qed
  from claim_loop_ok [OF zok(1) cur(2) _ this, of 0] zok(3) obtain z' where
    z': "claim_loop 1 0 cur (zone b) = (z', 0 + 1, True)" by (auto simp del: claim_loop.simps)
  have "set_order (Suc (Suc (Suc 0))) 0 (b\<lparr>zone := z'\<rparr>) = None" using len by (simp add: set_order_def)
  then have "pmm_alloc_zone 0 b = None"
    using fb len o pp cur(1) z' by (simp add: pmm_alloc_zone_def Let_def del: claim_loop.simps)
  moreover have "log2_of_next_power_of_two 1 = 0" by code_simp
  ultimately show ?thesis using t by (simp add: pmm_alloc_def alloc_retry.simps [of None "Suc 0" 0 b] BUDDY_MAXORDER_def)
qed

lemma alloc_none_cases:
  assumes inv: "buddy_inv b" and m: "0 < m"
  shows "\<exists>b' r n. pmm_alloc None m b = Some (b', r, n) \<and> buddy_inv b' \<and>
     (case r of
        Inr p \<Rightarrow> taken b m b' p n
      | Inl e \<Rightarrow> b' = b \<and> n = 0 \<and>
          (e = E_RENDEZVOS \<and> m \<le> card (free_pages b) \<and> 2 ^ BUDDY_MAXORDER < m \<or>
           e = E_REND_AGAIN \<and> (card (free_pages b) < m \<or>
             (\<forall>k \<le> BUDDY_MAXORDER. m \<le> 2 ^ k \<longrightarrow> list_empty (Bucket k) (links b)))))"
proof -
  obtain fl where ok: "buddy_ok b fl" using inv by (auto simp: buddy_inv_def)
  note t = buddy_total [OF ok]
  let ?r = "unat (log2_of_next_power_of_two (of_nat m))"
  have eq: "pmm_alloc None m b = alloc_retry None m 0 b" using m by (simp add: pmm_alloc_def)
  consider (few) "card (free_pages b) < m" | (big) "m \<le> card (free_pages b)" "2 ^ BUDDY_MAXORDER < m"
    | (fit) "m \<le> card (free_pages b)" "m \<le> 2 ^ BUDDY_MAXORDER" by linarith
  then show ?thesis
  proof cases
    case few
    then show ?thesis unfolding eq using t inv by (subst alloc_retry.simps) (simp add: Let_def)
  next
    case big
    then show ?thesis unfolding eq using t inv by (subst alloc_retry.simps) (simp add: Let_def)
  next
    case fit
    have r: "m \<le> 2 ^ ?r" "2 ^ ?r < 2 * m" "?r \<le> BUDDY_MAXORDER" using order_for [OF m fit(2)] by simp_all
    show ?thesis
    proof (cases "pmm_alloc_zone ?r b = Some (b, Inl E_REND_NO_MEM, 0)")
      case True
      have "list_empty (Bucket k) (links b)" if "k \<le> BUDDY_MAXORDER" "m \<le> 2 ^ k" for k
      proof -
        have "(2::nat) ^ ?r < 2 * 2 ^ k" using r(2) that(2) by linarith
        then have "?r \<le> k" by (metis less_Suc_eq_le power_Suc power_strict_increasing_iff one_less_numeral_iff semiring_norm(76))
        then show ?thesis using alloc_zone_ok [OF ok r(3)] True that(1) by auto
      qed
      then show ?thesis unfolding eq using True fit t inv by (subst alloc_retry.simps) (simp add: Let_def)
    next
      case False
      then obtain b' i where some: "pmm_alloc_zone ?r b = Some (b', Inr (ppn (pages b ! i)), 2 ^ ?r)" "buddy_inv b'"
         "i + 2 ^ ?r \<le> length (pages b)" "contig (pages b) i ?r" "blk i ?r \<subseteq> free_pages b"
         "map ppn (pages b') = map ppn (pages b)" "shape (zone b') = shape (zone b)"
         "\<forall>j < length (pages b). flat_refs (zone b') ! j = (if j \<in> blk i ?r then 1 else flat_refs (zone b) ! j)"
        using alloc_zone_ok [OF ok r(3)] by blast
      have i: "i < length (pages b)" using some(3) zero_less_power [of "2::nat" ?r] by linarith
      have "taken b m b' (ppn (pages b ! i)) (2 ^ ?r)" by (rule takenI [OF ok some(3-8) r(1,2)])
      moreover have "alloc_retry None m 0 b = Some (b', Inr (ppn (pages b ! i)), 2 ^ ?r)"
        using some(1) fit t ppn_valid [OF ok i] by (subst alloc_retry.simps) (simp add: Let_def)
      ultimately show ?thesis unfolding eq using some(2) by auto
    qed
  qed
qed

lemma taken_free:
  assumes inv0: "buddy_inv b" and inv: "buddy_inv b'" and t: "taken b m b' p n"
  shows "\<exists>b''. pmm_free p n b' = Some (b'', REND_SUCCESS) \<and> buddy_inv b'' \<and> flat_refs (zone b'') = flat_refs (zone b) \<and>
     free_pages b'' = free_pages b"
proof -
  obtain i r where i: "n = 2 ^ r" "i + n \<le> length (pages b)" "\<forall>j < n. ppn (pages b ! (i + j)) = p + int j"
    "{i..<i + n} \<subseteq> free_pages b" "map ppn (pages b') = map ppn (pages b)"
    "flat_refs (zone b') = map (\<lambda>j. if j \<in> {i..<i + n} then 1 else flat_refs (zone b) ! j) [0..<length (pages b)]"
    using t unfolding taken_def by blast
  obtain fl where ok: "buddy_ok b' fl" using inv by (auto simp: buddy_inv_def)
  have len: "length (pages b') = length (pages b)" using i(5) by (metis length_map)
  have n: "0 < n" using i(1) by simp
  have pp: "ppn (pages b' ! j) = ppn (pages b ! j)" if "j < length (pages b)" for j using i(5) that len by (metis nth_map)
  have p: "p = ppn (pages b' ! i)" using i(2) i(3) [rule_format, OF n] pp [of i] n by simp
  have "\<exists>b'' fl'. pmm_free (ppn (pages b' ! i)) n b' = Some (b'', REND_SUCCESS) \<and> buddy_ok b'' fl' \<and> shape (zone b'') = shape (zone b') \<and>
       (\<forall>j < length (pages b'). flat_refs (zone b'') ! j = flat_refs (zone b') ! j - (if j \<in> {i..<i + n} then 1 else 0)) \<and>
       map ppn (pages b'') = map ppn (pages b')"
    using i(2,3) len n pp p by (intro pmm_free_ok [OF ok]) (auto simp: i(6))
  then obtain b'' fl' where b'': "pmm_free p n b' = Some (b'', REND_SUCCESS)" "buddy_ok b'' fl'"
     "\<And>j. j < length (pages b) \<Longrightarrow> flat_refs (zone b'') ! j = flat_refs (zone b') ! j - (if j \<in> {i..<i + n} then 1 else 0)"
     "length (pages b'') = length (pages b)"
    unfolding p len by (metis length_map len)
  have refs: "flat_refs (zone b'') ! j = flat_refs (zone b) ! j" if "j < length (pages b)" for j
    using b''(3) [OF that] that i(4) by (auto simp: i(6) free_pages_def)
  then have "free_pages b'' = free_pages b" using b''(4) by (auto simp: free_pages_def)
  moreover have "flat_refs (zone b'') = flat_refs (zone b)"
    using inv0 buddy_okD(5) [OF b''(2)] b''(4) refs by (auto simp: buddy_inv_def buddy_okD(5) intro: nth_equalityI)
  ultimately show ?thesis using b''(1,2) unfolding buddy_inv_def by blast
qed

text \<open>A zone of one chunk of the highest order, for the witnesses.\<close>

definition one_chunk :: buddy where
  "one_chunk = \<lparr>zone = \<lparr>zone_lower = 4194304, zone_upper = 8388608,
       sections = [\<lparr>lower_addr = 4194304, upper_addr = 8388608, ref_counts = replicate 1024 0\<rparr>]\<rparr>,
     pages = [], aval_pages = (\<lambda>_. 0), links = \<lparr>l_prev = (\<lambda>_. None), l_next = (\<lambda>_. None)\<rparr>, total_avaliable_pages = 0\<rparr>"

lemma one_chunk_zone:
  "zone_ok (zone one_chunk)" "length (zone_ppns (zone one_chunk)) = 1024" "\<forall>i < 1024. flat_refs (zone one_chunk) ! i = 0"
  "\<forall>sec \<in> set (sections (zone one_chunk)). 2 ^ BUDDY_MAXORDER * 4096 dvd lower_addr sec \<and> 2 ^ BUDDY_MAXORDER dvd sec_page_count sec"
proof -
  have d: "4096 dvd (4194304::nat)" by (rule dvdI [of _ _ 1024]) simp
  have "zone_ppns (zone one_chunk) = sec_ppns \<lparr>lower_addr = 4194304, upper_addr = 8388608, ref_counts = replicate 1024 0\<rparr>"
    by (simp add: zone_ppns_def one_chunk_def)
  then have e: "zone_ppns (zone one_chunk) = map (\<lambda>j. 1024 + int j) [0..<1024]" using d by (simp add: sec_ppns_eq ppn_of_def)
  then show "length (zone_ppns (zone one_chunk)) = 1024" by simp
  have "distinct (zone_ppns (zone one_chunk))" unfolding e distinct_map by (simp add: inj_on_def)
  then show "zone_ok (zone one_chunk)" using d by (simp add: zone_ok_def one_chunk_def sec_ok_def)
  show "\<forall>i < 1024. flat_refs (zone one_chunk) ! i = 0" by (simp add: one_chunk_def flat_refs_def)
  show "\<forall>sec \<in> set (sections (zone one_chunk)). 2 ^ BUDDY_MAXORDER * 4096 dvd lower_addr sec \<and> 2 ^ BUDDY_MAXORDER dvd sec_page_count sec"
    by (simp add: one_chunk_def BUDDY_MAXORDER_def)
qed

lemma one_chunk_ready: "\<exists>b. pmm_init 32768 1024 one_chunk = Some b \<and> buddy_inv b \<and> zone b = zone one_chunk"
  using pmm_init_run [OF one_chunk_zone(1) _ _ _ one_chunk_zone(4), of 1024 32768] one_chunk_zone(2,3) unfolding buddy_inv_def by auto

lemma one_chunk_alloc: "\<exists>b b' p n. buddy_inv b \<and> buddy_inv b' \<and> pmm_alloc None 1 b = Some (b', Inr p, n) \<and> taken b 1 b' p n"
proof -
  from pmm_init_run [OF one_chunk_zone(1) _ _ _ one_chunk_zone(4), of 1024 32768] one_chunk_zone(2,3) obtain b where
    ok: "buddy_ok b (stage 1024 BUDDY_MAXORDER 0)" "zone b = zone one_chunk" by auto
  then have inv: "buddy_inv b" by (auto simp: buddy_inv_def)
  have len: "length (pages b) = 1024" using buddy_okD(6) [OF ok(1)] ok(2) one_chunk_zone(2) by simp
  have fp: "free_pages b = {..<1024}" using ok(2) len one_chunk_zone(3) by (auto simp: free_pages_def)
  have "0 \<in> set (stage 1024 BUDDY_MAXORDER 0 BUDDY_MAXORDER)" by (simp add: stage_def)
  moreover have "ring (links b) (Bucket BUDDY_MAXORDER) (lists_of (stage 1024 BUDDY_MAXORDER 0) (Bucket BUDDY_MAXORDER))"
    using buddy_okD(1) [OF ok(1)] by (intro dl.familyD(1)) (auto simp: rings_def)
  ultimately have "\<not> list_empty (Bucket BUDDY_MAXORDER) (links b)" using ring_empty by (fastforce simp: lists_of_def)
  moreover have "(1::nat) \<le> 2 ^ BUDDY_MAXORDER" by simp
  moreover obtain b' r n where r: "pmm_alloc None 1 b = Some (b', r, n)" "buddy_inv b'"
     "case r of
        Inr p \<Rightarrow> taken b 1 b' p n
      | Inl e \<Rightarrow> b' = b \<and> n = 0 \<and>
          (e = E_RENDEZVOS \<and> 1 \<le> card (free_pages b) \<and> 2 ^ BUDDY_MAXORDER < (1::nat) \<or>
           e = E_REND_AGAIN \<and> (card (free_pages b) < 1 \<or>
             (\<forall>k \<le> BUDDY_MAXORDER. 1 \<le> (2::nat) ^ k \<longrightarrow> list_empty (Bucket k) (links b))))"
    using alloc_none_cases [OF inv, of 1] by auto
  ultimately have "\<exists>p. r = Inr p \<and> taken b 1 b' p n" using fp by (cases r) auto
  then show ?thesis using inv r by blast
qed

lemma one_chunk_first: "\<exists>b. buddy_inv b \<and> length (pages b) = 1024 \<and> flat_refs (zone b) ! 0 = 1 \<and> flat_refs (zone b) ! 1 = 0"
proof -
  from pmm_init_run [OF one_chunk_zone(1) _ _ _ one_chunk_zone(4), of 1024 32768] one_chunk_zone(2,3) obtain b where
    ok: "buddy_ok b (stage 1024 BUDDY_MAXORDER 0)" "zone b = zone one_chunk" by auto
  have len: "length (pages b) = 1024" using buddy_okD(6) [OF ok(1)] ok(2) one_chunk_zone(2) by simp
  have "0 \<in> set (stage 1024 BUDDY_MAXORDER 0 BUDDY_MAXORDER)" by (simp add: stage_def)
  then have ne: "stage 1024 BUDDY_MAXORDER 0 BUDDY_MAXORDER \<noteq> []" by auto
  from ok(1) show ?thesis
  proof (cases rule: alloc_zone_cases [where alloc_order = 0])
    case none
    then show ?thesis using none(2) [of BUDDY_MAXORDER] ne by simp
  next
    case (some k i)
    have "1024 dvd i" "i < 1024" using some(4) by (auto simp: stage_def BUDDY_MAXORDER_def split: if_splits)
    then have i: "i = 0" by (cases "i = 0") (auto dest: dvd_imp_le)
    from alloc_zone_take [OF ok(1) some(2,3,4,1)] obtain b' fl' where b': "buddy_ok b' fl'" "map ppn (pages b') = map ppn (pages b)"
      "\<forall>j < length (pages b). flat_refs (zone b') ! j = (if j \<in> blk i 0 then 1 else flat_refs (zone b) ! j)" by blast
    then have "flat_refs (zone b') ! 0 = 1" "flat_refs (zone b') ! 1 = 0" using len ok(2) one_chunk_zone(3) by (simp_all add: i blk_def)
    moreover have "length (pages b') = 1024" using map_eq_imp_length_eq [OF b'(2)] len by simp
    ultimately show ?thesis using b'(1) unfolding buddy_inv_def by blast
  qed
qed

section \<open>Properties\<close>

text \<open>C5. Refinement of a set of free pages. A request for \<open>m\<close> pages that succeeds takes the smallest power of two
  that holds them, as a run of free pages with consecutive page numbers, and sets exactly their reference counts
  to one; a request that fails changes nothing, and fails only if it exceeds the largest block, if fewer than \<open>m\<close>
  pages are free, or if every free list of blocks large enough is empty. It always returns.\<close>

theorem pmm_alloc_exact:
  assumes "buddy_inv b" "0 < m"
  shows "\<exists>b' r n. pmm_alloc None m b = Some (b', r, n) \<and> buddy_inv b' \<and>
     (case r of
        Inr p \<Rightarrow> taken b m b' p n
      | Inl e \<Rightarrow> b' = b \<and> n = 0 \<and>
          (e = E_RENDEZVOS \<and> m \<le> card (free_pages b) \<and> 2 ^ BUDDY_MAXORDER < m \<or>
           e = E_REND_AGAIN \<and> (card (free_pages b) < m \<or>
             (\<forall>k \<le> BUDDY_MAXORDER. m \<le> 2 ^ k \<longrightarrow> list_empty (Bucket k) (links b)))))"
  by (rule alloc_none_cases [OF assms])

theorem pmm_alloc_exact_witness:
  "\<exists>b b' r n. buddy_inv b \<and> pmm_alloc None 3 b = Some (b', r, n) \<and> buddy_inv b'"
  using one_chunk_ready pmm_alloc_exact [of _ 3] by fastforce

text \<open>C6. Freeing a run of allocated pages succeeds: it takes one reference from each page of the run and from no other,
  a page whose last reference goes is free again (merged with its buddies), and the invariant is kept.\<close>

theorem pmm_free_exact:
  assumes "buddy_inv b" "i < length (pages b)" "i + m \<le> length (pages b)"
    and "\<forall>j < m. ppn (pages b ! (i + j)) = ppn (pages b ! i) + int j" "\<forall>j \<in> {i..<i + m}. 1 \<le> flat_refs (zone b) ! j"
  shows "\<exists>b'. pmm_free (ppn (pages b ! i)) m b = Some (b', REND_SUCCESS) \<and> buddy_inv b' \<and>
     (\<forall>j < length (pages b). flat_refs (zone b') ! j = flat_refs (zone b) ! j - (if j \<in> {i..<i + m} then 1 else 0)) \<and>
     free_pages b' = free_pages b \<union> {j \<in> {i..<i + m}. flat_refs (zone b) ! j = 1}"
proof -
  obtain fl where ok: "buddy_ok b fl" using assms(1) by (auto simp: buddy_inv_def)
  from pmm_free_ok [OF ok assms(2-5)] obtain b' fl' where b': "pmm_free (ppn (pages b ! i)) m b = Some (b', REND_SUCCESS)" "buddy_ok b' fl'"
     "\<forall>j < length (pages b). flat_refs (zone b') ! j = flat_refs (zone b) ! j - (if j \<in> {i..<i + m} then 1 else 0)"
     "length (pages b') = length (pages b)" by (metis length_map)
  have "j \<in> free_pages b' \<longleftrightarrow> j \<in> free_pages b \<or> j \<in> {i..<i + m} \<and> flat_refs (zone b) ! j = 1" for j
  proof (cases "j \<in> {i..<i + m}")
    case True
    then have "j < length (pages b)" "1 \<le> flat_refs (zone b) ! j" using assms(3,5) by auto
    then show ?thesis using b'(3,4) True by (auto simp: free_pages_def)
  next
    case False
    then show ?thesis using b'(3,4) by (simp only: free_pages_def mem_Collect_eq) auto
  qed
  then have "free_pages b' = free_pages b \<union> {j \<in> {i..<i + m}. flat_refs (zone b) ! j = 1}" by blast
  then show ?thesis using b' unfolding buddy_inv_def by blast
qed

theorem pmm_free_exact_witness:
  "\<exists>b i b'. buddy_inv b \<and> i \<notin> free_pages b \<and> pmm_free (ppn (pages b ! i)) 1 b = Some (b', REND_SUCCESS) \<and> i \<in> free_pages b'"
proof -
  obtain b where "buddy_inv b" "length (pages b) = 1024" "flat_refs (zone b) ! 0 = 1" using one_chunk_first by blast
  moreover obtain i :: nat where "i = 0" by simp
  ultimately have b: "buddy_inv b" "i < length (pages b)" "flat_refs (zone b) ! i = 1" by simp_all
  then have "i + 1 \<le> length (pages b)" "\<forall>j < 1. ppn (pages b ! (i + j)) = ppn (pages b ! i) + int j"
    "\<forall>j \<in> {i..<i + 1}. 1 \<le> flat_refs (zone b) ! j" by auto
  from pmm_free_exact [OF b(1,2) this] obtain b' where "pmm_free (ppn (pages b ! i)) 1 b = Some (b', REND_SUCCESS)"
    "free_pages b' = free_pages b \<union> {j \<in> {i..<i + 1}. flat_refs (zone b) ! j = 1}" by blast
  moreover have "i \<notin> free_pages b" using b(3) by (simp add: free_pages_def)
  ultimately show ?thesis using b by auto
qed

text \<open>Round trip: freeing what an allocation returned, with the count it returned, gives back the reference counts
  and the free pages there were before the allocation.\<close>

theorem pmm_alloc_free_roundtrip:
  assumes "buddy_inv b" "0 < m" "pmm_alloc None m b = Some (b', Inr p, n)"
  shows "\<exists>b''. pmm_free p n b' = Some (b'', REND_SUCCESS) \<and> buddy_inv b'' \<and> flat_refs (zone b'') = flat_refs (zone b) \<and>
     free_pages b'' = free_pages b"
proof -
  have "buddy_inv b'" "taken b m b' p n" using alloc_none_cases [OF assms(1,2)] assms(3) by auto
  then show ?thesis by (rule taken_free [OF assms(1)])
qed

theorem pmm_alloc_free_roundtrip_witness:
  "\<exists>b b' p n b''. pmm_alloc None 1 b = Some (b', Inr p, n) \<and> pmm_free p n b' = Some (b'', REND_SUCCESS) \<and> free_pages b'' = free_pages b"
proof -
  obtain b b' p n where "buddy_inv b" "pmm_alloc None 1 b = Some (b', Inr p, n)" using one_chunk_alloc by blast
  moreover from this pmm_alloc_free_roundtrip [of b 1 b' p n] obtain b'' where
    "pmm_free p n b' = Some (b'', REND_SUCCESS)" "free_pages b'' = free_pages b" by auto
  ultimately show ?thesis by blast
qed



text \<open>C32. On a zone whose sections are whole chunks of the highest order, with no page referenced, \<open>pmm_init\<close>
  establishes the invariant with every page free.\<close>

theorem pmm_init_ready:
  assumes "zone_ok (zone b)" "n = length (zone_ppns (zone b))" "n < 2 ^ 64" "n * 32 \<le> space"
    and "\<forall>sec \<in> set (sections (zone b)). 2 ^ BUDDY_MAXORDER * 4096 dvd lower_addr sec \<and> 2 ^ BUDDY_MAXORDER dvd sec_page_count sec"
    and "\<forall>i < n. flat_refs (zone b) ! i = 0"
  shows "\<exists>b'. pmm_init space n b = Some b' \<and> buddy_inv b' \<and> free_pages b' = {..<n} \<and> zone b' = zone b"
proof -
  from pmm_init_run [OF assms] obtain b' where b': "pmm_init space n b = Some b'" "buddy_ok b' (stage n BUDDY_MAXORDER 0)" "zone b' = zone b" by blast
  have "length (pages b') = n" using buddy_okD(6) [OF b'(2)] b'(3) assms(2) by simp
  then show ?thesis using b' assms(6) unfolding buddy_inv_def by (auto simp: free_pages_def)
qed

theorem pmm_init_ready_witness:
  "\<exists>b'. pmm_init 32768 1024 one_chunk = Some b' \<and> buddy_inv b' \<and> free_pages b' = {..<1024}"
  using pmm_init_ready [OF one_chunk_zone(1) _ _ _ one_chunk_zone(4), of 1024 32768] one_chunk_zone(2,3) by auto

text \<open>C33. A zone of three pages, with page numbers 4, 5 and 6: the test in \<open>pmm_init\<close> looks only at the first page of the
  upper half, so that it joins all of it into a block of order two that reaches past the array of descriptors, and the
  counter of order one wraps below zero. After an allocation of two pages the next allocation of one
  page writes outside the array (\<open>None\<close>).\<close>

theorem pmm_init_short_zone:
  "\<exists>b1 b2. pmm_init 4096 3 short_zone = Some b1 \<and> order (pages b1 ! 0) = 2 \<and> aval_pages b1 1 = - 1 \<and>
     pmm_alloc None 2 b1 = Some (b2, Inr 4, 2) \<and> pmm_alloc None 1 b2 = None"
proof -
  obtain b1 where b1: "pmm_init 4096 3 short_zone = Some b1" "rings (links b1) 3 ((\<lambda>_. [])(2 := [0]))" "order (pages b1 ! 0) = 2"
     "aval_pages b1 1 = - 1" "frame_of b1 = (zone short_zone, [4, 5, 6], 3)" using short_init by blast
  from short_alloc_two [OF b1(2,3,5)] obtain b2 where b2: "pmm_alloc None 2 b1 = Some (b2, Inr 4, 2)"
     "rings (links b2) 3 ((\<lambda>_. [])(1 := [2]))" "order (pages b2 ! 2) = 1" "shape (zone b2) = shape (zone short_zone)"
     "flat_refs (zone b2) ! 2 = 0" "map ppn (pages b2) = [4, 5, 6]" "total_avaliable_pages b2 = 1" by (elim exE conjE)
  have "pmm_alloc None 1 b2 = None" by (rule short_alloc_one [OF b2(2-7)])
  then show ?thesis using b1(1,3,4) b2(1) by (intro exI [of _ b1] exI [of _ b2] conjI)
qed

text \<open>Sharing a run of pages adds a reference to each of its pages if all are allocated; if one is not, the call
  reports the error and every count is as before. A free page is never revived.\<close>

theorem pmm_share_exact:
  assumes "buddy_inv b" "i + m \<le> length (pages b)" "0 < m"
  shows "\<exists>b' e. pmm_change_pages_ref (ppn (pages b ! i)) m True b = (b', e) \<and> buddy_inv b' \<and>
     (if \<forall>j \<in> {i..<i + m}. 1 \<le> flat_refs (zone b) ! j
      then e = REND_SUCCESS \<and> flat_refs (zone b') = map (\<lambda>j. flat_refs (zone b) ! j + (if j \<in> {i..<i + m} then 1 else 0)) [0..<length (pages b)]
      else e = E_RENDEZVOS \<and> flat_refs (zone b') = flat_refs (zone b))"
  using assms(1) share_ok [OF _ assms(2,3)] unfolding buddy_inv_def by blast

theorem pmm_share_exact_witness:
  "\<exists>b b'. buddy_inv b \<and> pmm_change_pages_ref (ppn (pages b ! 0)) 2 True b = (b', E_RENDEZVOS) \<and> flat_refs (zone b') = flat_refs (zone b)"
proof -
  obtain b where b: "buddy_inv b" "length (pages b) = 1024" "flat_refs (zone b) ! 1 = 0" using one_chunk_first by blast
  have "(\<forall>j \<in> {0..<0 + 2}. 1 \<le> flat_refs (zone b) ! j) \<longleftrightarrow> False" using b(3) by (auto intro!: bexI [of _ 1])
  then obtain b' where "pmm_change_pages_ref (ppn (pages b ! 0)) 2 True b = (b', E_RENDEZVOS)" "flat_refs (zone b') = flat_refs (zone b)"
    using pmm_share_exact [OF b(1), of 0 2] b(2) by (simp only: if_False) auto
  then show ?thesis using b(1) by blast
qed

text \<open>Dropping a reference from each page of a run is not undone when a later page has none: the roll back uses
  the operation that refuses to revive a page, so that a page whose only reference was dropped keeps the count zero
  and is in no free list, although the call reports failure.\<close>

theorem pmm_drop_not_undone:
  assumes "buddy_inv b" "Suc i < length (pages b)" "flat_refs (zone b) ! i = 1" "flat_refs (zone b) ! Suc i = 0"
  shows "\<exists>z. pmm_change_pages_ref (ppn (pages b ! i)) 2 False b = (b\<lparr>zone := z\<rparr>, E_RENDEZVOS) \<and>
     flat_refs z = (flat_refs (zone b))[i := 0]"
  using assms(1) drop_not_undone [OF _ assms(2-4)] unfolding buddy_inv_def by blast

theorem pmm_drop_not_undone_witness:
  "\<exists>b z. buddy_inv b \<and> flat_refs (zone b) ! 0 = 1 \<and>
     pmm_change_pages_ref (ppn (pages b ! 0)) 2 False b = (b\<lparr>zone := z\<rparr>, E_RENDEZVOS) \<and> flat_refs z = (flat_refs (zone b))[0 := 0]"
proof -
  obtain b where b: "buddy_inv b" "length (pages b) = 1024" "flat_refs (zone b) ! 0 = 1" "flat_refs (zone b) ! 1 = 0" using one_chunk_first by blast
  from pmm_drop_not_undone [OF b(1), of 0] b obtain z where
    "pmm_change_pages_ref (ppn (pages b ! 0)) 2 False b = (b\<lparr>zone := z\<rparr>, E_RENDEZVOS)" "flat_refs z = (flat_refs (zone b))[0 := 0]" by auto
  then show ?thesis using b(1,3) by blast
qed

end
