(* ===== verification/Ms_Queue.thy ===== *)
theory Ms_Queue
  imports Tagged_Ptr Message "HOL-Library.Monad_Syntax"
begin

text \<open>
  The lock-free queue of \<^verbatim>\<open>include/common/dsa/ms_queue.h\<close>, a Michael-Scott queue of reference-counted nodes whose
  tagged pointers also carry a state of the queue (the append bits). Any number of threads run \<open>msq_enqueue\<close>,
  \<open>msq_enqueue_check_tail\<close>, \<open>msq_dequeue\<close> and \<open>msq_dequeue_check_head\<close>; each read, compare-and-swap and change of a
  reference count is one step, and the steps interleave freely in sequentially consistent memory.

  A node whose count reaches zero is freed at once, where the code defers it through \<open>Ebr\<close>: an access to a freed
  node is the result \<open>None\<close>, and the absence of such accesses here implies it for the deferred free.
\<close>

section \<open>Queue and nodes\<close>

record msq_node =
  refcount :: int
  next_tp :: tagged_ptr_t

record msq =
  mq_head :: tagged_ptr_t
  mq_tail :: tagged_ptr_t
  append_info_bits :: nat
  mq_nodes :: "u64 \<rightharpoonup> msq_node"

definition msq_init :: "(u64 \<rightharpoonup> msq_node) \<Rightarrow> u64 \<Rightarrow> nat \<Rightarrow> msq" where
  "msq_init heap new_node bits =
     \<lparr>mq_head = tp_new new_node 0, mq_tail = tp_new new_node 0,
      append_info_bits = (if bits \<ge> 16 then 15 else bits),
      mq_nodes = heap(new_node \<mapsto> \<lparr>refcount = ref_init, next_tp = tp_new_none\<rparr>)\<rparr>"

definition node_get :: "u64 \<Rightarrow> msq \<Rightarrow> (msq \<times> bool) option" where
  "node_get p q = do {
     nd \<leftarrow> mq_nodes q p;
     (case ref_get_not_zero (refcount nd) of
        None \<Rightarrow> Some (q, False)
      | Some r \<Rightarrow> Some (q\<lparr>mq_nodes := (mq_nodes q)(p \<mapsto> nd\<lparr>refcount := r\<rparr>)\<rparr>, True))
   }"

definition node_put :: "u64 \<Rightarrow> bool \<Rightarrow> msq \<Rightarrow> msq option" where
  "node_put p has_free q = do {
     nd \<leftarrow> mq_nodes q p;
     let (r, freed) = ref_put (refcount nd) has_free;
     Some (q\<lparr>mq_nodes := (mq_nodes q)(p := (if freed then None else Some (nd\<lparr>refcount := r\<rparr>)))\<rparr>)
   }"

definition store_next :: "u64 \<Rightarrow> tagged_ptr_t \<Rightarrow> msq \<Rightarrow> msq option" where
  "store_next p w q = do {
     nd \<leftarrow> mq_nodes q p;
     Some (q\<lparr>mq_nodes := (mq_nodes q)(p \<mapsto> nd\<lparr>next_tp := w\<rparr>)\<rparr>)
   }"

definition cas_tail :: "tagged_ptr_t \<Rightarrow> tagged_ptr_t \<Rightarrow> msq \<Rightarrow> msq" where
  "cas_tail old new q = (if mq_tail q = old then q\<lparr>mq_tail := new\<rparr> else q)"

definition tag_step :: "msq \<Rightarrow> u16" where "tag_step q = push_bit (append_info_bits q) 1"

definition append_info_mask :: "msq \<Rightarrow> u16" where "append_info_mask q = tag_step q - 1"

definition append_tag :: "msq \<Rightarrow> tagged_ptr_t \<Rightarrow> u16 \<Rightarrow> u16" where
  "append_tag q tail info =
     ((tp_get_tag tail + tag_step q) AND NOT (append_info_mask q)) OR (info AND append_info_mask q)"

definition MSQ_CHECK_FIELD_PTR :: u64 where "MSQ_CHECK_FIELD_PTR = 1"

definition MSQ_CHECK_FIELD_APPEND :: u64 where "MSQ_CHECK_FIELD_APPEND = 2"

definition msq_queue_check_tp :: "tagged_ptr_t \<Rightarrow> u64 \<Rightarrow> tagged_ptr_t \<Rightarrow> u16 \<Rightarrow> bool" where
  "msq_queue_check_tp need_check_tp check_field_mask expect_tp info_mask =
     (if check_field_mask AND MSQ_CHECK_FIELD_PTR \<noteq> 0 \<and> tp_get_ptr need_check_tp \<noteq> tp_get_ptr expect_tp then False
      else if check_field_mask AND MSQ_CHECK_FIELD_APPEND \<noteq> 0
         \<and> (tp_get_tag need_check_tp AND info_mask) \<noteq> (tp_get_tag expect_tp AND info_mask) then False
      else True)"

section \<open>The operations, one access at a time\<close>

text \<open>The arguments of an enqueue: the node, \<open>append_info\<close> and \<open>expect_tp\<close>, whether \<open>free_func\<close> is given, and whether
  it is \<^verbatim>\<open>msq_enqueue_check_tail\<close>. Those of a dequeue likewise.\<close>

record enq =
  e_node :: u64
  e_info :: u64
  e_expect :: tagged_ptr_t
  e_free :: bool
  e_chk :: bool

record deq =
  d_mask :: u64
  d_expect :: tagged_ptr_t
  d_free :: bool
  d_chk :: bool

text \<open>What follows the release of the old head.\<close>

datatype deq_after = Retry | Give tagged_ptr_t | Clear tagged_ptr_t tagged_ptr_t

text \<open>The next access of a thread, with the values it has read.\<close>

datatype msq_pc =
    Idle
  | EStore enq  \<comment> \<open>\<open>new_node->next\<close> is set to zero\<close>
  | ELoad enq  \<comment> \<open>\<open>tail = q->tail\<close>\<close>
  | EGet enq tagged_ptr_t  \<comment> \<open>\<open>ref_get_not_zero(&tail_node->refcount)\<close>\<close>
  | ENext enq tagged_ptr_t  \<comment> \<open>\<open>next = tail_node->next\<close>\<close>
  | ECheck enq tagged_ptr_t tagged_ptr_t  \<comment> \<open>\<open>q->tail\<close> is still \<open>tail\<close>\<close>
  | EGetNew enq tagged_ptr_t tagged_ptr_t
  | ELink enq tagged_ptr_t tagged_ptr_t  \<comment> \<open>the compare-and-swap of \<open>tail_node->next\<close>\<close>
  | ESwing enq tagged_ptr_t tagged_ptr_t  \<comment> \<open>the compare-and-swap of \<open>q->tail\<close> after it\<close>
  | EHelp enq tagged_ptr_t tagged_ptr_t
  | EPutNew enq tagged_ptr_t
  | EPut enq tagged_ptr_t "error_t option"  \<comment> \<open>release of \<open>tail_node\<close>, then the loop or a return\<close>
  | EDone enq error_t  \<comment> \<open>returned; the caller gives up its reference\<close>
  | DLoad deq
  | DGet deq tagged_ptr_t
  | DTail1 deq tagged_ptr_t
  | DNext2 deq tagged_ptr_t tagged_ptr_t
  | DNext1 deq tagged_ptr_t
  | DTail2 deq tagged_ptr_t tagged_ptr_t
  | DCheck deq tagged_ptr_t tagged_ptr_t tagged_ptr_t  \<comment> \<open>\<open>q->head\<close> is still \<open>head\<close>; then \<open>tail\<close>, \<open>next\<close>\<close>
  | DHelp deq tagged_ptr_t tagged_ptr_t tagged_ptr_t
  | DGetNext deq tagged_ptr_t tagged_ptr_t tagged_ptr_t
  | DSwing deq tagged_ptr_t tagged_ptr_t tagged_ptr_t  \<comment> \<open>the compare-and-swap of \<open>q->head\<close>\<close>
  | DPutNext deq tagged_ptr_t tagged_ptr_t
  | DPut deq tagged_ptr_t deq_after
  | DClear deq tagged_ptr_t tagged_ptr_t  \<comment> \<open>the tail loses its state if the queue became empty\<close>
  | DDone deq tagged_ptr_t

definition enq_tag :: "enq \<Rightarrow> msq \<Rightarrow> tagged_ptr_t \<Rightarrow> u16" where
  "enq_tag e q tail = (if e_chk e then append_tag q tail (ucast (e_info e)) else tp_get_tag tail + 1)"

definition help_tag :: "bool \<Rightarrow> msq \<Rightarrow> tagged_ptr_t \<Rightarrow> tagged_ptr_t \<Rightarrow> u16" where
  "help_tag chk q tail next = (if chk then append_tag q tail (tp_get_tag next) else tp_get_tag tail + 1)"

text \<open>What the checked operations add to the plain ones: the tests of the append bits, and the tail a dequeue leaves when it
  took the last node.\<close>

definition enq_refused :: "enq \<Rightarrow> msq \<Rightarrow> tagged_ptr_t \<Rightarrow> bool" where
  "enq_refused e q tail \<longleftrightarrow>
     e_chk e \<and> \<not> msq_queue_check_tp tail MSQ_CHECK_FIELD_APPEND (e_expect e) (append_info_mask q)"

definition deq_refused :: "deq \<Rightarrow> msq \<Rightarrow> tagged_ptr_t \<Rightarrow> bool" where
  "deq_refused d q next \<longleftrightarrow> d_chk d \<and> \<not> msq_queue_check_tp next (d_mask d) (d_expect d) (append_info_mask q)"

definition deq_result :: "deq \<Rightarrow> tagged_ptr_t \<Rightarrow> tagged_ptr_t \<Rightarrow> deq_after" where
  "deq_result d tail next = (if d_chk d \<and> tp_get_ptr next = tp_get_ptr tail then Clear tail next else Give next)"

definition cleared_tail :: "msq \<Rightarrow> tagged_ptr_t \<Rightarrow> tagged_ptr_t" where
  "cleared_tail q tail = tp_new (tp_get_ptr tail) (append_tag q tail 0)"

fun msq_exec :: "msq_pc \<Rightarrow> msq \<Rightarrow> (msq_pc \<times> msq) option" where
  "msq_exec Idle q = None"
| "msq_exec (EStore e) q = do { q \<leftarrow> store_next (e_node e) 0 q; Some (ELoad e, q) }"
| "msq_exec (ELoad e) q = Some (EGet e (mq_tail q), q)"
| "msq_exec (EGet e tail) q =
     (if tp_get_ptr tail = 0 then Some (ELoad e, q)
      else do { (q, got) \<leftarrow> node_get (tp_get_ptr tail) q; Some (if got then ENext e tail else ELoad e, q) })"
| "msq_exec (ENext e tail) q = do { nd \<leftarrow> mq_nodes q (tp_get_ptr tail); Some (ECheck e tail (next_tp nd), q) }"
| "msq_exec (ECheck e tail next) q =
     Some (if mq_tail q \<noteq> tail then EPut e tail None
           else if enq_refused e q tail then EPut e tail (Some E_REND_AGAIN)
           else if tp_get_ptr next = 0 then EGetNew e tail next
           else EHelp e tail (tp_new (tp_get_ptr next) (help_tag (e_chk e) q tail next)), q)"
| "msq_exec (EGetNew e tail next) q = do {
     (q, got) \<leftarrow> node_get (e_node e) q;
     Some (if got then ELink e tail next else EPut e tail (if e_chk e then Some E_REND_AGAIN else None), q)
   }"
| "msq_exec (ELink e tail next) q = do {
     nd \<leftarrow> mq_nodes q (tp_get_ptr tail);
     let tmp = tp_new (e_node e) (enq_tag e q tail);
     (if next_tp nd = next then do { q \<leftarrow> store_next (tp_get_ptr tail) tmp q; Some (ESwing e tail tmp, q) }
      else Some (EPutNew e tail, q))
   }"
| "msq_exec (ESwing e tail tmp) q = Some (EPut e tail (Some REND_SUCCESS), cas_tail tail tmp q)"
| "msq_exec (EHelp e tail tmp) q = Some (EPut e tail None, cas_tail tail tmp q)"
| "msq_exec (EPutNew e tail) q = do { q \<leftarrow> node_put (e_node e) False q; Some (EPut e tail None, q) }"
| "msq_exec (EPut e tail r) q = do {
     q \<leftarrow> node_put (tp_get_ptr tail) (e_free e) q;
     Some (case r of None \<Rightarrow> ELoad e | Some r \<Rightarrow> EDone e r, q)
   }"
| "msq_exec (EDone e r) q = do { q \<leftarrow> node_put (e_node e) True q; Some (Idle, q) }"
| "msq_exec (DLoad d) q = Some (DGet d (mq_head q), q)"
| "msq_exec (DGet d head) q =
     (if tp_get_ptr head = 0 then Some (DLoad d, q)
      else do {
        (q, got) \<leftarrow> node_get (tp_get_ptr head) q;
        Some (if \<not> got then DLoad d else if d_chk d then DNext1 d head else DTail1 d head, q)
      })"
| "msq_exec (DTail1 d head) q = Some (DNext2 d head (mq_tail q), q)"
| "msq_exec (DNext2 d head tail) q = do { nd \<leftarrow> mq_nodes q (tp_get_ptr head); Some (DCheck d head tail (next_tp nd), q) }"
| "msq_exec (DNext1 d head) q = do { nd \<leftarrow> mq_nodes q (tp_get_ptr head); Some (DTail2 d head (next_tp nd), q) }"
| "msq_exec (DTail2 d head next) q = Some (DCheck d head (mq_tail q) next, q)"
| "msq_exec (DCheck d head tail next) q =
     Some (if mq_head q \<noteq> head then DPut d head Retry
           else if tp_get_ptr head = tp_get_ptr tail then
             (if tp_get_ptr next = 0 then DPut d head (Give tp_new_none)
              else DHelp d head tail (tp_new (tp_get_ptr next) (help_tag (d_chk d) q tail next)))
           else if deq_refused d q next then DPut d head (Give tp_new_none)
           else if tp_get_ptr next = 0 then DPut d head Retry
           else DGetNext d head tail next, q)"
| "msq_exec (DHelp d head tail tmp) q = Some (DPut d head Retry, cas_tail tail tmp q)"
| "msq_exec (DGetNext d head tail next) q = do {
     (q, got) \<leftarrow> node_get (tp_get_ptr next) q;
     Some (if got then DSwing d head tail next else DPut d head Retry, q)
   }"
| "msq_exec (DSwing d head tail next) q =
     (if mq_head q = head
      then Some (DPut d head (deq_result d tail next),
                 q\<lparr>mq_head := tp_new (tp_get_ptr next) (help_tag (d_chk d) q tail next)\<rparr>)
      else Some (DPutNext d head next, q))"
| "msq_exec (DPutNext d head next) q = do { q \<leftarrow> node_put (tp_get_ptr next) (d_free d) q; Some (DPut d head Retry, q) }"
| "msq_exec (DPut d head after) q = do {
     q \<leftarrow> node_put (tp_get_ptr head) (d_free d) q;
     Some (case after of Retry \<Rightarrow> DLoad d | Give tp \<Rightarrow> DDone d tp | Clear tail next \<Rightarrow> DClear d tail next, q)
   }"
| "msq_exec (DClear d tail next) q =
     Some (DDone d next, cas_tail tail (cleared_tail q tail) q)"
| "msq_exec (DDone d tp) q =
     (if tp_is_none tp then Some (Idle, q)
      else do { q \<leftarrow> node_put (tp_get_ptr tp) True q; Some (Idle, q) })"

text \<open>
  The threads. The ghost fields are \<open>enqd\<close>, the nodes linked so far, the dummy first, in order and with their
  state; \<open>deqd\<close>, the nodes that became the head, each with the thread that dequeued it; and \<open>missed\<close>: during the current dequeue of the thread the queue
  was once empty, or its first node failed the check.
\<close>

record msq_sys =
  queue :: msq
  pcs :: "nat \<Rightarrow> msq_pc"
  enqd :: "(u64 \<times> u16) list"
  deqd :: "(nat \<times> u64) list"
  missed :: "nat \<Rightarrow> bool"

definition no_match :: "msq \<Rightarrow> deq \<Rightarrow> bool" where
  "no_match q d =
     (case mq_nodes q (tp_get_ptr (mq_head q)) of
        None \<Rightarrow> False
      | Some nd \<Rightarrow> tp_get_ptr (next_tp nd) = 0 \<or> deq_refused d q (next_tp nd))"

fun deq_of :: "msq_pc \<Rightarrow> deq option" where
  "deq_of (DLoad d) = Some d"
| "deq_of (DGet d _) = Some d"
| "deq_of (DTail1 d _) = Some d"
| "deq_of (DNext2 d _ _) = Some d"
| "deq_of (DNext1 d _) = Some d"
| "deq_of (DTail2 d _ _) = Some d"
| "deq_of (DCheck d _ _ _) = Some d"
| "deq_of (DHelp d _ _ _) = Some d"
| "deq_of (DGetNext d _ _ _) = Some d"
| "deq_of (DSwing d _ _ _) = Some d"
| "deq_of (DPutNext d _ _) = Some d"
| "deq_of (DPut d _ _) = Some d"
| "deq_of (DClear d _ _) = Some d"
| "deq_of (DDone d _) = Some d"
| "deq_of _ = None"

definition now_missed :: "msq_sys \<Rightarrow> nat \<Rightarrow> bool" where
  "now_missed s t \<longleftrightarrow> missed s t \<or> (case deq_of (pcs s t) of None \<Rightarrow> False | Some d \<Rightarrow> no_match (queue s) d)"

definition log_enq :: "msq \<Rightarrow> msq_pc \<Rightarrow> msq_pc \<Rightarrow> (u64 \<times> u16) list" where
  "log_enq q p p' = (case (p, p') of
       (ELink e tail next, ESwing _ _ tmp) \<Rightarrow> [(e_node e, tp_get_tag tmp AND append_info_mask q)] | _ \<Rightarrow> [])"

definition log_deq :: "nat \<Rightarrow> msq_pc \<Rightarrow> msq_pc \<Rightarrow> (nat \<times> u64) list" where
  "log_deq t p p' = (case (p, p') of (DSwing d head tail next, DPut _ _ _) \<Rightarrow> [(t, tp_get_ptr next)] | _ \<Rightarrow> [])"

definition msq_post :: "msq_sys \<Rightarrow> nat \<Rightarrow> msq_pc \<Rightarrow> msq \<Rightarrow> msq_sys" where
  "msq_post s t p' q' =
     s\<lparr>queue := q', pcs := (pcs s)(t := p'), enqd := enqd s @ log_enq (queue s) (pcs s t) p',
       deqd := deqd s @ log_deq t (pcs s t) p', missed := now_missed s\<rparr>"

text \<open>
  The requests the kernel makes: on a queue without append bits the plain operations; on a queue with them the
  checked ones, where a node is added to an empty queue or to nodes of its own state, as
  \<^verbatim>\<open>ipc_port_enqueue_wait\<close> does.
\<close>

definition enq_request :: "msq \<Rightarrow> enq \<Rightarrow> bool" where
  "enq_request q e \<longleftrightarrow> canonical (e_node e) \<and> e_node e \<noteq> 0 \<and> mq_nodes q (e_node e) = None \<and>
     (e_chk e \<longleftrightarrow> append_info_bits q \<noteq> 0) \<and>
     (e_chk e \<longrightarrow> ucast (e_info e) AND append_info_mask q \<noteq> 0 \<and>
       tp_get_tag (e_expect e) AND append_info_mask q \<in> {0, ucast (e_info e) AND append_info_mask q})"

definition deq_request :: "msq \<Rightarrow> deq \<Rightarrow> bool" where
  "deq_request q d \<longleftrightarrow> (append_info_bits q \<noteq> 0 \<longrightarrow> d_chk d)"

inductive msq_step :: "nat \<Rightarrow> msq_sys \<Rightarrow> msq_sys \<Rightarrow> bool" for n where
  run: "\<lbrakk>t < n; msq_exec (pcs s t) (queue s) = Some (p', q')\<rbrakk> \<Longrightarrow>
    msq_step n s (msq_post s t p' q')"
| start_enq: "\<lbrakk>t < n; pcs s t = Idle; enq_request (queue s) e\<rbrakk> \<Longrightarrow>
    msq_step n s (s\<lparr>queue := (queue s)\<lparr>mq_nodes := (mq_nodes (queue s))(e_node e \<mapsto> \<lparr>refcount = ref_init, next_tp = w\<rparr>)\<rparr>,
      pcs := (pcs s)(t := EStore e), missed := now_missed s\<rparr>)"
| start_deq: "\<lbrakk>t < n; pcs s t = Idle; deq_request (queue s) d\<rbrakk> \<Longrightarrow>
    msq_step n s (s\<lparr>pcs := (pcs s)(t := DLoad d), missed := (now_missed s)(t := False)\<rparr>)"

definition msq_start :: "u64 \<Rightarrow> nat \<Rightarrow> msq_sys" where
  "msq_start dummy bits =
     \<lparr>queue = msq_init Map.empty dummy bits, pcs = (\<lambda>_. Idle), enqd = [(dummy, 0)], deqd = [], missed = (\<lambda>_. False)\<rparr>"

definition msq_reach :: "nat \<Rightarrow> u64 \<Rightarrow> nat \<Rightarrow> msq_sys \<Rightarrow> bool" where
  "msq_reach n dummy bits s \<longleftrightarrow> (msq_step n)\<^sup>*\<^sup>* (msq_start dummy bits) s"

lemmas checked_simps [simp] = enq_refused_def deq_refused_def deq_result_def cleared_tail_def

end
