(* ===== verification/Ms_Queue_Inv.thy ===== *)
theory Ms_Queue_Inv
  imports Ms_Queue
begin

text \<open>
  The invariant of the lock-free queue and its preservation by every step of every thread.

  The nodes ever linked form one log, \<open>enqd\<close>; the head is its entry number \<open>length deqd\<close>, the tail one of its last
  two entries. What a thread has read stays true because the log only grows: a pointer it holds is an entry of the
  log at or before the current head or tail.
\<close>

section \<open>Words\<close>

definition app :: "u16 \<Rightarrow> tagged_ptr_t \<Rightarrow> u16" where "app m w = tp_get_tag w AND m"

lemma append_tag_info: "append_tag q tail info AND append_info_mask q = info AND append_info_mask q"
  unfolding append_tag_def by (rule bit_word_eqI) (auto simp: bit_simps)

lemma plain_mask: "append_info_bits q = 0 \<Longrightarrow> append_info_mask q = 0"
  by (simp add: append_info_mask_def tag_step_def)

lemma app_help: "c \<or> append_info_mask q = 0 \<Longrightarrow>
    app (append_info_mask q) (tp_new p (help_tag c q tail next)) = app (append_info_mask q) next"
  by (auto simp: app_def help_tag_def append_tag_info)

lemma app_enq: "e_chk e \<or> append_info_mask q = 0 \<Longrightarrow>
    app (append_info_mask q) (tp_new p (enq_tag e q tail)) = ucast (e_info e) AND append_info_mask q"
  by (auto simp: app_def enq_tag_def append_tag_info)

lemma app_cleared: "app (append_info_mask q) (tp_new p (append_tag q tail 0)) = 0"
  by (simp add: app_def append_tag_info)

lemma tp_get_ptr_0 [simp]: "tp_get_ptr 0 = 0"
  by (simp add: tp_get_ptr_def)

lemma app_0 [simp]: "app m 0 = 0"
  by (simp add: app_def tp_get_tag_def)

section \<open>The log\<close>

record msq_view =
  v_log :: "(u64 \<times> u16) list"
  v_deq :: "(nat \<times> u64) list"
  v_ti :: nat
  v_mask :: u16

abbreviation v_hi :: "msq_view \<Rightarrow> nat" where "v_hi v \<equiv> length (v_deq v)"

abbreviation ptrs :: "msq_view \<Rightarrow> u64 set" where "ptrs v \<equiv> fst ` set (v_log v)"

definition word_at :: "msq_view \<Rightarrow> nat \<Rightarrow> tagged_ptr_t \<Rightarrow> bool" where
  "word_at v i w \<longleftrightarrow> i < length (v_log v) \<and> tp_get_ptr w = fst (v_log v ! i)"

definition node_at :: "msq_view \<Rightarrow> nat \<Rightarrow> tagged_ptr_t \<Rightarrow> bool" where
  "node_at v i w \<longleftrightarrow> word_at v i w \<and> app (v_mask v) w = snd (v_log v ! i)"

text \<open>A word of the tail: the state it shows is that of its node, or none once the node has been dequeued.\<close>

definition tail_at :: "msq_view \<Rightarrow> nat \<Rightarrow> tagged_ptr_t \<Rightarrow> bool" where
  "tail_at v i w \<longleftrightarrow> i \<le> v_ti v \<and> word_at v i w \<and>
     (app (v_mask v) w = snd (v_log v ! i) \<or> app (v_mask v) w = 0 \<and> i \<le> v_hi v)"

definition head_at :: "msq_view \<Rightarrow> nat \<Rightarrow> tagged_ptr_t \<Rightarrow> bool" where
  "head_at v i w \<longleftrightarrow> i \<le> v_hi v \<and> word_at v i w"

definition next_of :: "msq_view \<Rightarrow> nat \<Rightarrow> tagged_ptr_t \<Rightarrow> bool" where
  "next_of v i w \<longleftrightarrow> (if tp_get_ptr w = 0 then w = 0 else node_at v (Suc i) w)"

definition won :: "msq_view \<Rightarrow> nat \<Rightarrow> tagged_ptr_t \<Rightarrow> bool" where
  "won v t w \<longleftrightarrow> (t, tp_get_ptr w) \<in> set (v_deq v)"

definition view_le :: "msq_view \<Rightarrow> msq_view \<Rightarrow> bool" where
  "view_le v v' \<longleftrightarrow> (\<exists>x. v_log v' = v_log v @ x) \<and> (\<exists>y. v_deq v' = v_deq v @ y) \<and> v_ti v \<le> v_ti v' \<and> v_mask v' = v_mask v"

lemma view_le_refl [simp]: "view_le v v"
  by (simp add: view_le_def)

lemma word_at_mono: "view_le v v' \<Longrightarrow> word_at v i w \<Longrightarrow> word_at v' i w"
  by (auto simp: view_le_def word_at_def nth_append)

lemma node_at_mono: "view_le v v' \<Longrightarrow> node_at v i w \<Longrightarrow> node_at v' i w"
  by (auto simp: view_le_def node_at_def word_at_def nth_append)

lemma tail_at_mono: "view_le v v' \<Longrightarrow> tail_at v i w \<Longrightarrow> tail_at v' i w"
  by (auto simp: view_le_def tail_at_def word_at_def nth_append)

lemma head_at_mono: "view_le v v' \<Longrightarrow> head_at v i w \<Longrightarrow> head_at v' i w"
  by (auto simp: view_le_def head_at_def word_at_def nth_append)

lemma next_of_mono: "view_le v v' \<Longrightarrow> next_of v i w \<Longrightarrow> next_of v' i w"
  by (auto simp: next_of_def node_at_mono split: if_splits)

lemma won_mono: "view_le v v' \<Longrightarrow> won v t w \<Longrightarrow> won v' t w"
  by (auto simp: view_le_def won_def)

lemma hi_mono: "view_le v v' \<Longrightarrow> v_hi v \<le> v_hi v'"
  by (auto simp: view_le_def)

lemma mask_mono: "view_le v v' \<Longrightarrow> v_mask v' = v_mask v"
  by (auto simp: view_le_def)

lemmas view_mono = word_at_mono node_at_mono tail_at_mono head_at_mono next_of_mono won_mono

lemma word_at_ptrs: "word_at v i w \<Longrightarrow> tp_get_ptr w \<in> ptrs v"
  by (auto simp: word_at_def)

lemma tail_at_word: "tail_at v i w \<Longrightarrow> word_at v i w"
  by (simp add: tail_at_def)

lemma head_at_word: "head_at v i w \<Longrightarrow> word_at v i w"
  by (simp add: head_at_def)

lemma node_at_word: "node_at v i w \<Longrightarrow> word_at v i w"
  by (simp add: node_at_def)

lemma word_at_inj: "distinct (map fst (v_log v)) \<Longrightarrow> word_at v i w \<Longrightarrow> word_at v j w' \<Longrightarrow> tp_get_ptr w = tp_get_ptr w' \<Longrightarrow> i = j"
  by (auto simp: word_at_def distinct_conv_nth)

section \<open>What a thread knows\<close>

definition bad :: "msq_view \<Rightarrow> deq \<Rightarrow> tagged_ptr_t \<Rightarrow> bool" where
  "bad v d w \<longleftrightarrow> tp_get_ptr w = 0 \<or> d_chk d \<and> \<not> msq_queue_check_tp w (d_mask d) (d_expect d) (v_mask v)"

definition enq_ok :: "msq_view \<Rightarrow> enq \<Rightarrow> bool" where
  "enq_ok v e \<longleftrightarrow> canonical (e_node e) \<and> e_node e \<noteq> 0 \<and> (e_chk e \<or> v_mask v = 0) \<and>
     (e_chk e \<longrightarrow> ucast (e_info e) AND v_mask v \<noteq> 0 \<and> app (v_mask v) (e_expect e) \<in> {0, ucast (e_info e) AND v_mask v})"

definition deq_ok :: "msq_view \<Rightarrow> deq \<Rightarrow> bool" where
  "deq_ok v d \<longleftrightarrow> d_chk d \<or> v_mask v = 0"

fun holds :: "msq_pc \<Rightarrow> u64 list" where
  "holds Idle = []"
| "holds (EStore e) = [e_node e]"
| "holds (ELoad e) = [e_node e]"
| "holds (EGet e tail) = [e_node e]"
| "holds (ENext e tail) = [e_node e, tp_get_ptr tail]"
| "holds (ECheck e tail next) = [e_node e, tp_get_ptr tail]"
| "holds (EGetNew e tail next) = [e_node e, tp_get_ptr tail]"
| "holds (ELink e tail next) = [e_node e, e_node e, tp_get_ptr tail]"
| "holds (ESwing e tail tmp) = [e_node e, tp_get_ptr tail]"
| "holds (EHelp e tail tmp) = [e_node e, tp_get_ptr tail]"
| "holds (EPutNew e tail) = [e_node e, e_node e, tp_get_ptr tail]"
| "holds (EPut e tail r) = [e_node e, tp_get_ptr tail]"
| "holds (EDone e r) = [e_node e]"
| "holds (DLoad d) = []"
| "holds (DGet d head) = []"
| "holds (DTail1 d head) = [tp_get_ptr head]"
| "holds (DNext2 d head tail) = [tp_get_ptr head]"
| "holds (DNext1 d head) = [tp_get_ptr head]"
| "holds (DTail2 d head next) = [tp_get_ptr head]"
| "holds (DCheck d head tail next) = [tp_get_ptr head]"
| "holds (DHelp d head tail tmp) = [tp_get_ptr head]"
| "holds (DGetNext d head tail next) = [tp_get_ptr head]"
| "holds (DSwing d head tail next) = [tp_get_ptr head, tp_get_ptr next]"
| "holds (DPutNext d head next) = [tp_get_ptr head, tp_get_ptr next]"
| "holds (DPut d head Retry) = [tp_get_ptr head]"
| "holds (DPut d head (Give tp)) = (if tp_is_none tp then [tp_get_ptr head] else [tp_get_ptr head, tp_get_ptr tp])"
| "holds (DPut d head (Clear tail next)) = [tp_get_ptr head, tp_get_ptr next]"
| "holds (DClear d tail next) = [tp_get_ptr next]"
| "holds (DDone d tp) = (if tp_is_none tp then [] else [tp_get_ptr tp])"

text \<open>The node of an enqueue that has not linked it.\<close>

fun new_of :: "msq_pc \<Rightarrow> enq option" where
  "new_of (EStore e) = Some e"
| "new_of (ELoad e) = Some e"
| "new_of (EGet e tail) = Some e"
| "new_of (ENext e tail) = Some e"
| "new_of (ECheck e tail next) = Some e"
| "new_of (EGetNew e tail next) = Some e"
| "new_of (ELink e tail next) = Some e"
| "new_of (EHelp e tail tmp) = Some e"
| "new_of (EPutNew e tail) = Some e"
| "new_of (EPut e tail r) = (if r = Some REND_SUCCESS then None else Some e)"
| "new_of (EDone e r) = (if r = REND_SUCCESS then None else Some e)"
| "new_of _ = None"

definition next_in :: "msq \<Rightarrow> u64 \<Rightarrow> tagged_ptr_t option" where
  "next_in q p = map_option next_tp (mq_nodes q p)"

definition new_ok :: "msq_view \<Rightarrow> msq \<Rightarrow> msq_pc \<Rightarrow> bool" where
  "new_ok v q pc \<longleftrightarrow> (case new_of pc of None \<Rightarrow> True | Some e \<Rightarrow>
     enq_ok v e \<and> e_node e \<notin> ptrs v \<and> (pc \<noteq> EStore e \<longrightarrow> next_in q (e_node e) = Some 0))"

definition swing_ok :: "msq_view \<Rightarrow> tagged_ptr_t \<Rightarrow> tagged_ptr_t \<Rightarrow> bool" where
  "swing_ok v tail tmp \<longleftrightarrow> (\<exists>i. tail_at v i tail \<and> node_at v (Suc i) tmp)"

definition miss_ok :: "msq_view \<Rightarrow> bool \<Rightarrow> deq \<Rightarrow> nat \<Rightarrow> tagged_ptr_t \<Rightarrow> bool" where
  "miss_ok v miss d i next \<longleftrightarrow> (bad v d next \<longrightarrow> miss \<or> i < v_hi v)"

fun after_ok :: "msq_view \<Rightarrow> nat \<Rightarrow> bool \<Rightarrow> deq_after \<Rightarrow> bool" where
  "after_ok v t miss Retry = True"
| "after_ok v t miss (Give tp) = (if tp_is_none tp then miss else won v t tp)"
| "after_ok v t miss (Clear tail next) = (won v t next \<and> (\<exists>j \<le> v_hi v. tail_at v j tail))"

fun reads_ok :: "msq_view \<Rightarrow> nat \<Rightarrow> bool \<Rightarrow> msq_pc \<Rightarrow> bool" where
  "reads_ok v t miss Idle = True"
| "reads_ok v t miss (EStore e) = True"
| "reads_ok v t miss (ELoad e) = True"
| "reads_ok v t miss (EGet e tail) = (\<exists>i. tail_at v i tail)"
| "reads_ok v t miss (ENext e tail) = (\<exists>i. tail_at v i tail)"
| "reads_ok v t miss (ECheck e tail next) = (\<exists>i. tail_at v i tail \<and> next_of v i next)"
| "reads_ok v t miss (EGetNew e tail next) = ((\<exists>i. tail_at v i tail) \<and> next = 0 \<and> (e_chk e \<longrightarrow> app (v_mask v) tail = app (v_mask v) (e_expect e)))"
| "reads_ok v t miss (ELink e tail next) = ((\<exists>i. tail_at v i tail) \<and> next = 0 \<and> (e_chk e \<longrightarrow> app (v_mask v) tail = app (v_mask v) (e_expect e)))"
| "reads_ok v t miss (ESwing e tail tmp) = (swing_ok v tail tmp \<and> e_node e \<in> ptrs v)"
| "reads_ok v t miss (EHelp e tail tmp) = swing_ok v tail tmp"
| "reads_ok v t miss (EPutNew e tail) = (\<exists>i. tail_at v i tail)"
| "reads_ok v t miss (EPut e tail r) = ((\<exists>i. tail_at v i tail) \<and> (r = Some REND_SUCCESS \<longrightarrow> e_node e \<in> ptrs v))"
| "reads_ok v t miss (EDone e r) = (r = REND_SUCCESS \<longrightarrow> e_node e \<in> ptrs v)"
| "reads_ok v t miss (DLoad d) = deq_ok v d"
| "reads_ok v t miss (DGet d head) = (deq_ok v d \<and> (\<exists>i. head_at v i head))"
| "reads_ok v t miss (DTail1 d head) = (deq_ok v d \<and> (\<exists>i. head_at v i head))"
| "reads_ok v t miss (DNext2 d head tail) = (deq_ok v d \<and> (\<exists>i j. head_at v i head \<and> tail_at v j tail \<and> i \<le> j))"
| "reads_ok v t miss (DNext1 d head) = (deq_ok v d \<and> (\<exists>i. head_at v i head))"
| "reads_ok v t miss (DTail2 d head next) = (deq_ok v d \<and> (\<exists>i. head_at v i head \<and> next_of v i next \<and> miss_ok v miss d i next))"
| "reads_ok v t miss (DCheck d head tail next) = (deq_ok v d \<and>
     (\<exists>i j. head_at v i head \<and> tail_at v j tail \<and> i \<le> j \<and> next_of v i next \<and> miss_ok v miss d i next))"
| "reads_ok v t miss (DHelp d head tail tmp) = (deq_ok v d \<and> (\<exists>i. head_at v i head) \<and> swing_ok v tail tmp)"
| "reads_ok v t miss (DGetNext d head tail next) = (deq_ok v d \<and>
     (\<exists>i j. head_at v i head \<and> tail_at v j tail \<and> i < j \<and> node_at v (Suc i) next))"
| "reads_ok v t miss (DSwing d head tail next) = (deq_ok v d \<and>
     (\<exists>i j. head_at v i head \<and> tail_at v j tail \<and> i < j \<and> node_at v (Suc i) next))"
| "reads_ok v t miss (DPutNext d head next) = (deq_ok v d \<and> (\<exists>i. head_at v i head) \<and> (\<exists>i. node_at v i next))"
| "reads_ok v t miss (DPut d head after) = (deq_ok v d \<and> (\<exists>i. head_at v i head) \<and> after_ok v t miss after)"
| "reads_ok v t miss (DClear d tail next) = (won v t next \<and> (\<exists>j \<le> v_hi v. tail_at v j tail))"
| "reads_ok v t miss (DDone d tp) = (if tp_is_none tp then miss else won v t tp)"

lemma swing_ok_mono: "view_le v v' \<Longrightarrow> swing_ok v tail tmp \<Longrightarrow> swing_ok v' tail tmp"
  unfolding swing_ok_def using view_mono by blast

lemma miss_ok_mono: "view_le v v' \<Longrightarrow> (m \<Longrightarrow> m') \<Longrightarrow> miss_ok v m d i w \<Longrightarrow> miss_ok v' m' d i w"
  using hi_mono [of v v'] by (auto simp: miss_ok_def bad_def mask_mono)

lemma enq_ok_mono: "view_le v v' \<Longrightarrow> enq_ok v' e = enq_ok v e"
  by (simp add: enq_ok_def mask_mono)

lemma deq_ok_mono: "view_le v v' \<Longrightarrow> deq_ok v' d = deq_ok v d"
  by (simp add: deq_ok_def mask_mono)

lemma ptrs_mono: "view_le v v' \<Longrightarrow> p \<in> ptrs v \<Longrightarrow> p \<in> ptrs v'"
  by (auto simp: view_le_def)

lemma tail_le_mono: "view_le v v' \<Longrightarrow> \<exists>j \<le> v_hi v. tail_at v j w \<Longrightarrow> \<exists>j \<le> v_hi v'. tail_at v' j w"
  using hi_mono tail_at_mono le_trans by blast

lemma after_ok_mono: "view_le v v' \<Longrightarrow> (m \<Longrightarrow> m') \<Longrightarrow> after_ok v t m a \<Longrightarrow> after_ok v' t m' a"
  by (cases a) (auto simp: won_mono intro: tail_le_mono split: if_splits)

lemma reads_ok_mono:
  assumes "view_le v v'" "m \<Longrightarrow> m'" "reads_ok v t m pc"
  shows "reads_ok v' t m' pc"
proof -
  note mono = view_mono [OF assms(1)] swing_ok_mono [OF assms(1)] miss_ok_mono [OF assms(1,2)] ptrs_mono [OF assms(1)]
    tail_le_mono [OF assms(1)] after_ok_mono [OF assms(1,2)]
  show ?thesis
    by (insert assms(3); cases pc; simp add: deq_ok_mono [OF assms(1)] mask_mono [OF assms(1)] split: if_splits; (elim exE conjE)?;
        (intro exI conjI impI)?; (assumption | erule mono | erule assms(2) | simp add: mono
          | (use hi_mono [OF assms(1)] in linarith) | blast intro: mono))
qed

section \<open>The invariant\<close>

definition view :: "msq_sys \<Rightarrow> nat \<Rightarrow> msq_view" where
  "view s ti = \<lparr>v_log = enqd s, v_deq = deqd s, v_ti = ti, v_mask = append_info_mask (queue s)\<rparr>"

definition log_ok :: "msq_view \<Rightarrow> bool" where
  "log_ok v \<longleftrightarrow> distinct (map fst (v_log v)) \<and> (\<forall>x \<in> set (v_log v). canonical (fst x) \<and> fst x \<noteq> 0 \<and> snd x AND v_mask v = snd x) \<and>
     v_hi v \<le> v_ti v \<and> v_ti v < length (v_log v) \<and> length (v_log v) \<le> v_ti v + 2 \<and>
     map snd (v_deq v) = map fst (take (v_hi v) (tl (v_log v)))"

text \<open>The nodes that wait carry one state, and on a queue with append bits it is not the empty one.\<close>

definition states_ok :: "msq_view \<Rightarrow> bool" where
  "states_ok v \<longleftrightarrow> (\<forall>i. 0 < i \<and> i < length (v_log v) \<longrightarrow> v_mask v = 0 \<or> snd (v_log v ! i) \<noteq> 0) \<and>
     (\<forall>i. v_hi v < i \<and> i < length (v_log v) \<longrightarrow> snd (v_log v ! i) = snd (last (v_log v)))"

definition chain_ok :: "msq_view \<Rightarrow> msq \<Rightarrow> bool" where
  "chain_ok v q \<longleftrightarrow> (\<forall>i < length (v_log v). \<exists>w. next_in q (fst (v_log v ! i)) = Some w \<and>
     (if Suc i < length (v_log v) then node_at v (Suc i) w else w = 0))"

definition queue_ok :: "msq_view \<Rightarrow> msq \<Rightarrow> bool" where
  "queue_ok v q \<longleftrightarrow> log_ok v \<and> states_ok v \<and> chain_ok v q \<and> head_at v (v_hi v) (mq_head q) \<and>
     tail_at v (v_ti v) (mq_tail q) \<and> v_mask v = append_info_mask q"

definition cnt :: "msq \<Rightarrow> u64 \<Rightarrow> int" where
  "cnt q p = (case mq_nodes q p of None \<Rightarrow> 0 | Some nd \<Rightarrow> refcount nd)"

definition counts_pos :: "msq \<Rightarrow> bool" where
  "counts_pos q \<longleftrightarrow> (\<forall>p nd. mq_nodes q p = Some nd \<longrightarrow> 0 < refcount nd)"

definition held :: "msq_pc \<Rightarrow> u64 \<Rightarrow> int" where
  "held pc p = int (count_list (holds pc) p)"

definition refs :: "nat \<Rightarrow> (nat \<Rightarrow> msq_pc) \<Rightarrow> u64 \<Rightarrow> int" where
  "refs n pc p = (\<Sum>t < n. held (pc t) p)"

text \<open>Every node is counted once for the log and once for each reference a thread holds.\<close>

definition counts_ok :: "nat \<Rightarrow> msq_view \<Rightarrow> (nat \<Rightarrow> msq_pc) \<Rightarrow> msq \<Rightarrow> bool" where
  "counts_ok n v pc q \<longleftrightarrow> counts_pos q \<and> (\<forall>p. cnt q p = of_bool (p \<in> ptrs v) + refs n pc p)"

definition owners_ok :: "nat \<Rightarrow> (nat \<Rightarrow> msq_pc) \<Rightarrow> bool" where
  "owners_ok n pc \<longleftrightarrow> (\<forall>t < n. \<forall>u < n. \<forall>e f. t \<noteq> u \<and> new_of (pc t) = Some e \<and> new_of (pc u) = Some f \<longrightarrow> e_node e \<noteq> e_node f)"

definition threads_ok :: "nat \<Rightarrow> msq_view \<Rightarrow> msq_sys \<Rightarrow> bool" where
  "threads_ok n v s \<longleftrightarrow> (\<forall>t < n. reads_ok v t (missed s t) (pcs s t) \<and> new_ok v (queue s) (pcs s t))"

definition msq_inv :: "nat \<Rightarrow> nat \<Rightarrow> msq_sys \<Rightarrow> bool" where
  "msq_inv n ti s \<longleftrightarrow> queue_ok (view s ti) (queue s) \<and> counts_ok n (view s ti) (pcs s) (queue s) \<and> owners_ok n (pcs s) \<and>
     threads_ok n (view s ti) s"

lemma view_simps [simp]:
  "v_log (view s ti) = enqd s" "v_deq (view s ti) = deqd s" "v_ti (view s ti) = ti"
  "v_mask (view s ti) = append_info_mask (queue s)"
  by (simp_all add: view_def)

section \<open>Counts\<close>

lemma held_nonneg [simp]: "0 \<le> held pc p"
  by (simp add: held_def)

lemma refs_nonneg [simp]: "0 \<le> refs n pc p"
  by (simp add: refs_def sum_nonneg)

lemma refs_upd: "t < n \<Longrightarrow> refs n (pc(t := x)) p = refs n pc p - held (pc t) p + held x p"
  unfolding refs_def by (subst (1 2) sum.remove [of _ t]) (auto intro!: sum.cong)

lemma refs_ge: "t < n \<Longrightarrow> held (pc t) p \<le> refs n pc p"
  unfolding refs_def by (rule member_le_sum [where f = "\<lambda>t. held (pc t) p"]) auto

lemma counts_held:
  assumes "counts_ok n v pc q" "t < n"
  shows "of_bool (p \<in> ptrs v) + held (pc t) p \<le> cnt q p"
  using assms refs_ge [of t n pc p] by (auto simp: counts_ok_def)

lemma cnt_node: "counts_pos q \<Longrightarrow> 0 < cnt q p \<Longrightarrow> \<exists>nd. mq_nodes q p = Some nd \<and> refcount nd = cnt q p"
  by (auto simp: cnt_def split: option.splits)

lemma node_get_ok:
  assumes "counts_pos q" "0 < cnt q p"
  obtains q' where "node_get p q = Some (q', True)" "\<And>x. cnt q' x = cnt q x + of_bool (x = p)" "counts_pos q'"
    "\<And>x. next_in q' x = next_in q x" "mq_head q' = mq_head q" "mq_tail q' = mq_tail q" "append_info_bits q' = append_info_bits q"
proof -
  obtain nd where nd: "mq_nodes q p = Some nd" "refcount nd = cnt q p" using cnt_node [OF assms] by blast
  let ?q = "q\<lparr>mq_nodes := (mq_nodes q)(p \<mapsto> nd\<lparr>refcount := refcount nd + 1\<rparr>)\<rparr>"
  have "node_get p q = Some (?q, True)" using nd assms by (simp add: node_get_def ref_get_not_zero_def)
  moreover have "cnt ?q x = cnt q x + of_bool (x = p)" for x
    using nd by (simp add: cnt_def)
  moreover have "counts_pos ?q" using assms nd by (simp add: counts_pos_def)
  moreover have "next_in ?q x = next_in q x" for x
    using nd by (simp add: next_in_def)
  ultimately show thesis by (rule that) simp_all
qed

lemma node_put_ok:
  assumes "counts_pos q" "0 < cnt q p" "hf \<or> 1 < cnt q p"
  obtains q' where "node_put p hf q = Some q'" "\<And>x. cnt q' x = cnt q x - of_bool (x = p)" "counts_pos q'"
    "\<And>x. x \<noteq> p \<or> 1 < cnt q x \<Longrightarrow> next_in q' x = next_in q x" "mq_head q' = mq_head q" "mq_tail q' = mq_tail q"
    "append_info_bits q' = append_info_bits q"
proof -
  obtain nd where nd: "mq_nodes q p = Some nd" "refcount nd = cnt q p" using cnt_node [OF assms(1,2)] by blast
  let ?q = "q\<lparr>mq_nodes := (mq_nodes q)(p := (if refcount nd = 1 \<and> hf then None else Some (nd\<lparr>refcount := refcount nd - 1\<rparr>)))\<rparr>"
  have "node_put p hf q = Some ?q" using nd by (simp add: node_put_def ref_put_def)
  moreover have "cnt ?q x = cnt q x - of_bool (x = p)" for x
    using nd by (simp add: cnt_def)
  moreover have "counts_pos ?q" using assms nd by (auto simp: counts_pos_def)
  moreover have "next_in ?q x = next_in q x" if "x \<noteq> p \<or> 1 < cnt q x" for x
    using that nd by (auto simp: next_in_def)
  ultimately show thesis by (rule that) simp_all
qed

section \<open>Frames\<close>

lemma append_info_mask_cong: "append_info_bits q' = append_info_bits q \<Longrightarrow> append_info_mask q' = append_info_mask q"
  by (simp add: append_info_mask_def tag_step_def)

lemma missed_mono: "missed s t \<Longrightarrow> now_missed s t"
  by (simp add: now_missed_def)

lemma new_held: "new_of p = Some e \<Longrightarrow> 0 < held p (e_node e)"
  by (cases p) (auto simp: held_def split: if_splits)

text \<open>A step of thread \<open>t\<close> keeps the invariant when it keeps the queue's, its counts balance, and it leaves the nodes
  of the others alone.\<close>

lemma step_inv:
  assumes inv: "msq_inv n ti s" and t: "t < n"
    and le: "view_le (view s ti) (view (msq_post s t p' q') ti')"
    and q: "queue_ok (view (msq_post s t p' q') ti') q'"
    and c: "counts_pos q'" "\<And>x. cnt q' x + held (pcs s t) x + of_bool (x \<in> ptrs (view s ti))
         = cnt q x + held p' x + of_bool (x \<in> ptrs (view (msq_post s t p' q') ti'))"
    and o: "\<And>e. new_of p' = Some e \<Longrightarrow> new_of (pcs s t) = Some e \<or> cnt q (e_node e) = 0"
    and fr: "\<And>x. x \<notin> ptrs (view s ti) \<Longrightarrow> 0 < cnt q x \<Longrightarrow> \<forall>e. new_of (pcs s t) = Some e \<longrightarrow> x \<noteq> e_node e \<Longrightarrow>
        next_in q' x = next_in q x \<and> x \<notin> ptrs (view (msq_post s t p' q') ti')"
    and l: "reads_ok (view (msq_post s t p' q') ti') t (now_missed s t) p'" "new_ok (view (msq_post s t p' q') ti') q' p'"
    and qs: "queue s = q"
  shows "msq_inv n ti' (msq_post s t p' q')"
proof -
  let ?s = "msq_post s t p' q'" and ?v = "view (msq_post s t p' q') ti'"
  have inv': "counts_ok n (view s ti) (pcs s) q" "owners_ok n (pcs s)" "threads_ok n (view s ti) s"
    using inv qs by (simp_all add: msq_inv_def)
  have s': "pcs ?s = (pcs s)(t := p')" "queue ?s = q'" "missed ?s = now_missed s" by (simp_all add: msq_post_def)
  have cnt': "counts_ok n ?v (pcs ?s) q'"
    using inv'(1) c(1) unfolding counts_ok_def s' refs_upd [OF t] by (smt (verit) c(2))
  have alive: "0 < cnt q (e_node f)" if "u < n" "new_of (pcs s u) = Some f" for u f
    using counts_held [OF inv'(1) that(1), of "e_node f"] new_held [OF that(2)]
    by (cases "e_node f \<in> ptrs (view s ti)") simp_all
  moreover have "owners_ok n (pcs ?s)"
    using inv'(2) o t alive unfolding owners_ok_def s' by (metis fun_upd_apply less_irrefl)
  moreover have "reads_ok ?v u (now_missed s u) (pcs s u) \<and> new_ok ?v q' (pcs s u)" if u: "u < n" "u \<noteq> t" for u
  proof
    have u': "reads_ok (view s ti) u (missed s u) (pcs s u)" "new_ok (view s ti) q (pcs s u)"
      using inv'(3) u(1) qs by (simp_all add: threads_ok_def)
    show "reads_ok ?v u (now_missed s u) (pcs s u)" by (rule reads_ok_mono [OF le missed_mono u'(1)])
    show "new_ok ?v q' (pcs s u)"
    proof (cases "new_of (pcs s u)")
      case (Some f)
      have "e_node f \<noteq> e_node e" if "new_of (pcs s t) = Some e" for e
        using inv'(2) u t Some that unfolding owners_ok_def by metis
      then show ?thesis using fr [of "e_node f"] u'(2) Some enq_ok_mono [OF le] alive [OF u(1) Some] by (auto simp: new_ok_def)
    qed (simp add: new_ok_def)
  qed
  ultimately show ?thesis using q l cnt' by (auto simp: msq_inv_def threads_ok_def s')
qed

lemma view_post:
  "log_enq (queue s) (pcs s t) p' = [] \<Longrightarrow> log_deq t (pcs s t) p' = [] \<Longrightarrow> append_info_bits q' = append_info_bits (queue s)
    \<Longrightarrow> view (msq_post s t p' q') ti' = (view s ti)\<lparr>v_ti := ti'\<rparr>"
  by (simp add: view_def msq_post_def append_info_mask_def tag_step_def)

lemma queue_ok_frame:
  assumes "queue_ok v q" "mq_head q' = mq_head q" "mq_tail q' = mq_tail q" "append_info_bits q' = append_info_bits q"
    "\<And>p. p \<in> ptrs v \<Longrightarrow> next_in q' p = next_in q p"
  shows "queue_ok v q'"
proof -
  have "chain_ok v q'" using assms(1,5) by (simp add: queue_ok_def chain_ok_def)
  then show ?thesis using assms by (simp add: queue_ok_def append_info_mask_cong [OF assms(4)])
qed

lemma new_ok_keep:
  assumes "new_ok v q p" "new_of p' \<in> {None, new_of p}" "\<And>e. p \<noteq> EStore e"
    "\<And>e. new_of p' = Some e \<Longrightarrow> next_in q' (e_node e) = next_in q (e_node e)"
  shows "new_ok v q' p'"
proof (cases "new_of p'")
  case (Some e)
  then have "new_of p = Some e" using assms(2) by auto
  then show ?thesis using Some assms(1,3,4) by (simp add: new_ok_def)
qed (simp add: new_ok_def)

definition quiet :: "msq_sys \<Rightarrow> nat \<Rightarrow> msq_pc \<Rightarrow> bool" where
  "quiet s t p' \<longleftrightarrow> log_enq (queue s) (pcs s t) p' = [] \<and> log_deq t (pcs s t) p' = [] \<and> new_of p' \<in> {None, new_of (pcs s t)} \<and>
     (\<forall>e. pcs s t \<noteq> EStore e)"

lemma frame_step:
  assumes inv: "msq_inv n ti s" and t: "t < n" and qt: "quiet s t p'"
    and q: "mq_head q' = mq_head (queue s)" "mq_tail q' = mq_tail (queue s)" "append_info_bits q' = append_info_bits (queue s)"
    and nx: "\<And>x. x \<in> ptrs (view s ti) \<or> 0 < held p' x \<or> cnt q' x = cnt (queue s) x \<Longrightarrow> next_in q' x = next_in (queue s) x"
    and c: "counts_pos q'" "\<And>x. cnt q' x + held (pcs s t) x = cnt (queue s) x + held p' x"
    and fr: "\<And>x. held p' x \<noteq> held (pcs s t) x \<Longrightarrow> x \<in> ptrs (view s ti) \<or> (\<exists>e. new_of (pcs s t) = Some e \<and> x = e_node e)"
    and r: "reads_ok (view s ti) t (now_missed s t) p'"
  shows "msq_inv n ti (msq_post s t p' q')"
proof -
  have v: "view (msq_post s t p' q') ti = view s ti" using view_post [of s t p' q' ti ti] qt q(3) by (simp add: quiet_def)
  have i: "queue_ok (view s ti) (queue s)" "new_ok (view s ti) (queue s) (pcs s t)"
    using inv t by (simp_all add: msq_inv_def threads_ok_def)
  have "queue_ok (view s ti) q'" using queue_ok_frame [OF i(1) q] nx by blast
  moreover have "new_ok (view s ti) q' p'" using new_ok_keep [OF i(2)] nx new_held qt unfolding quiet_def by metis
  moreover have "next_in q' x = next_in (queue s) x"
    if "x \<notin> ptrs (view s ti)" "\<forall>e. new_of (pcs s t) = Some e \<longrightarrow> x \<noteq> e_node e" for x
  proof -
    have "held p' x = held (pcs s t) x" using fr [of x] that by metis
    then show ?thesis using c(2) [of x] nx [of x] by simp
  qed
  ultimately show ?thesis using c r qt
    by (intro step_inv [OF inv t]) (simp_all add: v quiet_def)
qed

definition goes :: "nat \<Rightarrow> msq_sys \<Rightarrow> nat \<Rightarrow> bool" where
  "goes n s t \<longleftrightarrow> (\<exists>p' q' ti'. msq_exec (pcs s t) (queue s) = Some (p', q') \<and> msq_inv n ti' (msq_post s t p' q'))"

lemma inv_parts:
  assumes "msq_inv n ti s" "t < n"
  shows "queue_ok (view s ti) (queue s)" "counts_pos (queue s)" "reads_ok (view s ti) t (missed s t) (pcs s t)"
    "new_ok (view s ti) (queue s) (pcs s t)" "of_bool (p \<in> ptrs (view s ti)) + held (pcs s t) p \<le> cnt (queue s) p"
  using assms counts_held [of n "view s ti" "pcs s" "queue s" t p]
  by (simp_all add: msq_inv_def threads_ok_def counts_ok_def)

lemma local_step:
  assumes "msq_inv n ti s" "t < n" "msq_exec (pcs s t) (queue s) = Some (p', queue s)" "quiet s t p'" "held p' = held (pcs s t)"
    "reads_ok (view s ti) t (now_missed s t) p'"
  shows "goes n s t"
proof -
  have "msq_inv n ti (msq_post s t p' (queue s))"
    using inv_parts(2) [OF assms(1,2)] assms(5,6) by (intro frame_step [OF assms(1,2,4)]) simp_all
  then show ?thesis unfolding goes_def using assms(3) by blast
qed

lemma get_step:
  assumes inv: "msq_inv n ti s" "t < n"
    and x: "x \<in> ptrs (view s ti) \<or> (\<exists>e. new_of (pcs s t) = Some e \<and> x = e_node e)"
    and ex: "\<And>q'. node_get x (queue s) = Some (q', True) \<Longrightarrow> msq_exec (pcs s t) (queue s) = Some (p', q')"
    and qt: "quiet s t p'" and h: "\<And>y. held p' y = held (pcs s t) y + of_bool (y = x)"
    and r: "reads_ok (view s ti) t (now_missed s t) p'"
  shows "goes n s t"
proof -
  have "0 < cnt (queue s) x"
    using inv_parts(5) [OF inv, of x] x new_held [of "pcs s t"] by (smt (verit) held_nonneg of_bool_eq(2) of_bool_eq(1))
  from node_get_ok [OF inv_parts(2) [OF inv] this] obtain q' where q': "node_get x (queue s) = Some (q', True)"
    "\<And>y. cnt q' y = cnt (queue s) y + of_bool (y = x)" "counts_pos q'" "\<And>y. next_in q' y = next_in (queue s) y"
    "mq_head q' = mq_head (queue s)" "mq_tail q' = mq_tail (queue s)" "append_info_bits q' = append_info_bits (queue s)"
    by blast
  have "msq_inv n ti (msq_post s t p' q')"
    by (rule frame_step [OF inv qt q'(5-7)]) (use q' h r x in \<open>auto split: if_splits\<close>)
  then show ?thesis unfolding goes_def using ex [OF q'(1)] by blast
qed

lemma put_step:
  assumes inv: "msq_inv n ti s" "t < n"
    and x: "x \<in> ptrs (view s ti) \<or> (\<exists>e. new_of (pcs s t) = Some e \<and> x = e_node e)"
    and hf: "hf \<or> x \<in> ptrs (view s ti) \<or> 0 < held p' x"
    and ex: "\<And>q'. node_put x hf (queue s) = Some q' \<Longrightarrow> msq_exec (pcs s t) (queue s) = Some (p', q')"
    and qt: "quiet s t p'" and h: "\<And>y. held p' y = held (pcs s t) y - of_bool (y = x)"
    and r: "reads_ok (view s ti) t (now_missed s t) p'"
  shows "goes n s t"
proof -
  have le: "(if y \<in> ptrs (view s ti) then 1 else 0) + held p' y + (if y = x then 1 else 0) \<le> cnt (queue s) y" for y
    using inv_parts(5) [OF inv, of y] h [of y] by (cases "y \<in> ptrs (view s ti)"; cases "y = x") auto
  have "0 < cnt (queue s) x" "hf \<or> 1 < cnt (queue s) x" using le [of x] hf held_nonneg [of p' x] by (simp_all del: held_nonneg split: if_splits) linarith+
  from node_put_ok [OF inv_parts(2) [OF inv] this] obtain q' where q': "node_put x hf (queue s) = Some q'"
    "\<And>y. cnt q' y = cnt (queue s) y - of_bool (y = x)" "counts_pos q'"
    "\<And>y. y \<noteq> x \<or> 1 < cnt (queue s) y \<Longrightarrow> next_in q' y = next_in (queue s) y"
    "mq_head q' = mq_head (queue s)" "mq_tail q' = mq_tail (queue s)" "append_info_bits q' = append_info_bits (queue s)"
    by blast
  have "next_in q' y = next_in (queue s) y"
    if "y \<in> ptrs (view s ti) \<or> 0 < held p' y \<or> cnt q' y = cnt (queue s) y" for y
    using that le [of y] held_nonneg [of p' y] q'(2) [of y] by (intro q'(4)) (simp del: held_nonneg split: if_splits; linarith)
  then have "msq_inv n ti (msq_post s t p' q')"
    by (intro frame_step [OF inv qt q'(5-7)]) (use q' h r x in \<open>auto split: if_splits\<close>)
  then show ?thesis unfolding goes_def using ex [OF q'(1)] by blast
qed

lemma ti_irrelevant [simp]:
  "new_ok (v\<lparr>v_ti := i\<rparr>) = new_ok v" "node_at (v\<lparr>v_ti := i\<rparr>) = node_at v" "word_at (v\<lparr>v_ti := i\<rparr>) = word_at v" "head_at (v\<lparr>v_ti := i\<rparr>) = head_at v"
  by (simp_all add: new_ok_def enq_ok_def node_at_def word_at_def head_at_def fun_eq_iff split: option.splits)

lemma tail_step:
  assumes inv: "msq_inv n ti s" "t < n"
    and ex: "msq_exec (pcs s t) (queue s) = Some (p', cas_tail tail tmp (queue s))"
    and tmp: "mq_tail (queue s) = tail \<Longrightarrow> \<exists>i. ti \<le> i \<and> i < length (enqd s) \<and> tail_at ((view s ti)\<lparr>v_ti := i\<rparr>) i tmp"
    and qt: "quiet s t p'" and h: "held p' = held (pcs s t)" and r: "reads_ok (view s ti) t (now_missed s t) p'"
  shows "goes n s t"
proof (cases "mq_tail (queue s) = tail")
  case False
  then show ?thesis using local_step [OF inv _ qt h r] ex by (simp add: cas_tail_def)
next
  case True
  let ?q = "(queue s)\<lparr>mq_tail := tmp\<rparr>"
  obtain i where i: "ti \<le> i" "i < length (enqd s)" "tail_at ((view s ti)\<lparr>v_ti := i\<rparr>) i tmp" using tmp [OF True] by blast
  let ?v = "(view s ti)\<lparr>v_ti := i\<rparr>"
  have v: "view (msq_post s t p' ?q) i = ?v" using view_post [of s t p' ?q i ti] qt by (simp add: quiet_def)
  have le: "view_le (view s ti) ?v" using i(1) by (simp add: view_le_def)
  have q: "queue_ok (view s ti) (queue s)" "new_ok (view s ti) (queue s) (pcs s t)" using inv_parts [OF inv] by blast+
  have nx: "next_in ?q = next_in (queue s)" "cnt ?q = cnt (queue s)" "append_info_mask ?q = append_info_mask (queue s)"
    by (simp_all add: next_in_def cnt_def append_info_mask_def tag_step_def fun_eq_iff)
  have "chain_ok ?v ?q" using q(1) unfolding queue_ok_def chain_ok_def nx(1) ti_irrelevant by (simp split del: if_split)
  then have "queue_ok ?v ?q" using q(1) i by (simp add: queue_ok_def log_ok_def states_ok_def nx)
  moreover have "new_ok ?v ?q p'" using new_ok_keep [OF q(2), of p' ?q] qt nx
    by (simp add: quiet_def)
  moreover have "counts_pos ?q" using inv_parts(2) [OF inv] by (simp add: counts_pos_def)
  moreover have "reads_ok ?v t (now_missed s t) p'" by (rule reads_ok_mono [OF le _ r])
  ultimately have "msq_inv n i (msq_post s t p' ?q)"
    using qt h by (intro step_inv [OF inv]) (simp_all add: v le nx quiet_def)
  then show ?thesis unfolding goes_def using ex True by (auto simp: cas_tail_def)
qed

section \<open>Enqueue\<close>

lemma queue_okD:
  assumes "queue_ok v q"
  shows "head_at v (v_hi v) (mq_head q)" "tail_at v (v_ti v) (mq_tail q)" "v_mask v = append_info_mask q" "v_hi v \<le> v_ti v"
    "distinct (map fst (v_log v))" "v_ti v < length (v_log v)" "length (v_log v) \<le> v_ti v + 2"
  using assms by (simp_all add: queue_ok_def log_ok_def)

lemma word_at_nonzero: "queue_ok v q \<Longrightarrow> word_at v i w \<Longrightarrow> tp_get_ptr w \<noteq> 0"
  by (auto simp: queue_ok_def log_ok_def word_at_def)

lemma chain_next:
  assumes "queue_ok v q" "word_at v i w"
  obtains nd where "mq_nodes q (tp_get_ptr w) = Some nd" "next_of v i (next_tp nd)"
    "tp_get_ptr (next_tp nd) = 0 \<longleftrightarrow> Suc i = length (v_log v)"
proof -
  obtain nd where nd: "mq_nodes q (tp_get_ptr w) = Some nd" "if Suc i < length (v_log v) then node_at v (Suc i) (next_tp nd) else next_tp nd = 0"
    using assms by (auto simp: queue_ok_def chain_ok_def word_at_def next_in_def split del: if_split)
  then have "tp_get_ptr (next_tp nd) = 0 \<longleftrightarrow> Suc i = length (v_log v)"
    using assms(2) word_at_nonzero [OF assms(1) node_at_word, of "Suc i" "next_tp nd"] by (auto simp: word_at_def split: if_splits)
  with nd assms(2) show thesis by (intro that) (auto simp: next_of_def word_at_def)
qed

lemma word_at_tag: "word_at v i w \<Longrightarrow> word_at v i (tp_new (tp_get_ptr w) tag)"
  using tp_get_ptr_new [OF canonical_get_ptr, of w tag] unfolding word_at_def by metis

lemma node_at_tag:
  assumes "node_at v i w" "app (v_mask v) (tp_new (tp_get_ptr w) tag) = app (v_mask v) w"
  shows "node_at v i (tp_new (tp_get_ptr w) tag)"
  using assms word_at_tag [of v i w tag] by (simp only: node_at_def)

lemma swing_okI:
  assumes "queue_ok v q" "tail_at v i tail" "next_of v i next" "tp_get_ptr next \<noteq> 0" "c \<or> v_mask v = 0"
  shows "swing_ok v tail (tp_new (tp_get_ptr next) (help_tag c q tail next))"
  unfolding swing_ok_def using assms app_help [of c q] queue_okD(3) [OF assms(1)]
  by (auto simp: next_of_def intro!: exI [of _ i] node_at_tag)

lemma swing_tail:
  assumes "queue_ok (view s ti) (queue s)" "swing_ok (view s ti) tail tmp" "mq_tail (queue s) = tail"
  shows "\<exists>i. ti \<le> i \<and> i < length (enqd s) \<and> tail_at ((view s ti)\<lparr>v_ti := i\<rparr>) i tmp"
proof -
  obtain j where j: "tail_at (view s ti) j tail" "node_at (view s ti) (Suc j) tmp" using assms(2) by (auto simp: swing_ok_def)
  have "j = ti" using word_at_inj [OF queue_okD(5) [OF assms(1)] tail_at_word [OF j(1)] tail_at_word [OF queue_okD(2) [OF assms(1)]]] assms(3)
    by simp
  then show ?thesis using j(2) by (intro exI [of _ "Suc j"]) (simp add: tail_at_def node_at_def word_at_def)
qed

lemma tail_read: "queue_ok (view s ti) q \<Longrightarrow> \<exists>i. tail_at (view s ti) i (mq_tail q)"
  using queue_okD(2) by blast

lemma new_enq_ok: "new_ok v q p \<Longrightarrow> new_of p = Some e \<Longrightarrow> enq_ok v e"
  by (simp add: new_ok_def)

lemmas step_simps = quiet_def log_enq_def log_deq_def held_def fun_eq_iff

lemma goes_ELoad:
  assumes "msq_inv n ti s" "t < n" "pcs s t = ELoad e"
  shows "goes n s t"
  by (rule local_step [OF assms(1,2), of "EGet e (mq_tail (queue s))"]) (use assms(3) tail_read [OF inv_parts(1) [OF assms(1,2)]] in \<open>simp_all add: step_simps\<close>)

lemma goes_EGet:
  assumes "msq_inv n ti s" "t < n" "pcs s t = EGet e tail"
  shows "goes n s t"
proof -
  obtain i where i: "tail_at (view s ti) i tail" using inv_parts(3) [OF assms(1,2)] assms(3) by auto
  note nz = word_at_nonzero [OF inv_parts(1) [OF assms(1,2)] tail_at_word [OF i]]
  show ?thesis
    by (rule get_step [OF assms(1,2), where x = "tp_get_ptr tail" and p' = "ENext e tail"])
      (use assms(3) nz i word_at_ptrs [OF tail_at_word [OF i]] in \<open>auto simp: step_simps\<close>)
qed

lemma goes_ENext:
  assumes "msq_inv n ti s" "t < n" "pcs s t = ENext e tail"
  shows "goes n s t"
proof -
  obtain i where i: "tail_at (view s ti) i tail" using inv_parts(3) [OF assms(1,2)] assms(3) by auto
  obtain nd where nd: "mq_nodes (queue s) (tp_get_ptr tail) = Some nd" "next_of (view s ti) i (next_tp nd)"
    by (rule chain_next [OF inv_parts(1) [OF assms(1,2)] tail_at_word [OF i]])
  show ?thesis
    by (rule local_step [OF assms(1,2), of "ECheck e tail (next_tp nd)"]) (use assms(3) i nd in \<open>auto simp: step_simps\<close>)
qed

lemma check_append: "msq_queue_check_tp a MSQ_CHECK_FIELD_APPEND b m \<longleftrightarrow> app m a = app m b"
  by (simp add: msq_queue_check_tp_def MSQ_CHECK_FIELD_APPEND_def MSQ_CHECK_FIELD_PTR_def app_def)

lemma goes_ECheck:
  assumes "msq_inv n ti s" "t < n" "pcs s t = ECheck e tail next"
  shows "goes n s t"
proof -
  note q = inv_parts(1) [OF assms(1,2)]
  obtain i where i: "tail_at (view s ti) i tail" "next_of (view s ti) i next" using inv_parts(3) [OF assms(1,2)] assms(3) by auto
  have "enq_ok (view s ti) e" using new_enq_ok [OF inv_parts(4) [OF assms(1,2)]] assms(3) by simp
  then have sw: "tp_get_ptr next \<noteq> 0 \<Longrightarrow> swing_ok (view s ti) tail (tp_new (tp_get_ptr next) (help_tag (e_chk e) (queue s) tail next))"
    using swing_okI [OF q i] by (simp add: enq_ok_def)
  show ?thesis
    by (rule local_step [OF assms(1,2), of "fst (the (msq_exec (pcs s t) (queue s)))"])
      (use assms(3) i sw in \<open>auto simp: step_simps check_append next_of_def\<close>)
qed

lemma goes_EGetNew:
  assumes "msq_inv n ti s" "t < n" "pcs s t = EGetNew e tail next"
  shows "goes n s t"
  by (rule get_step [OF assms(1,2), where x = "e_node e" and p' = "ELink e tail next"])
    (use assms(3) inv_parts(3) [OF assms(1,2)] in \<open>auto simp: step_simps\<close>)

lemma goes_ESwing:
  assumes "msq_inv n ti s" "t < n" "pcs s t = ESwing e tail tmp"
  shows "goes n s t"
proof -
  have sw: "swing_ok (view s ti) tail tmp" "e_node e \<in> ptrs (view s ti)" using inv_parts(3) [OF assms(1,2)] assms(3) by auto
  show ?thesis
    by (rule tail_step [OF assms(1,2) _ swing_tail [OF inv_parts(1) [OF assms(1,2)] sw(1)], of "EPut e tail (Some REND_SUCCESS)"])
      (use sw assms(3) in \<open>auto simp: step_simps swing_ok_def\<close>)
qed

lemma goes_EHelp:
  assumes "msq_inv n ti s" "t < n" "pcs s t = EHelp e tail tmp"
  shows "goes n s t"
proof -
  have sw: "swing_ok (view s ti) tail tmp" using inv_parts(3) [OF assms(1,2)] assms(3) by auto
  show ?thesis
    by (rule tail_step [OF assms(1,2) _ swing_tail [OF inv_parts(1) [OF assms(1,2)] sw], of "EPut e tail None"])
      (use sw assms(3) in \<open>auto simp: step_simps swing_ok_def\<close>)
qed

lemma goes_EPutNew:
  assumes "msq_inv n ti s" "t < n" "pcs s t = EPutNew e tail"
  shows "goes n s t"
  by (rule put_step [OF assms(1,2), where x = "e_node e" and hf = False and p' = "EPut e tail None"])
    (use assms(3) inv_parts(3) [OF assms(1,2)] in \<open>auto simp: step_simps\<close>)

lemma goes_EPut:
  assumes "msq_inv n ti s" "t < n" "pcs s t = EPut e tail r"
  shows "goes n s t"
proof -
  obtain i where i: "tail_at (view s ti) i tail" using inv_parts(3) [OF assms(1,2)] assms(3) by auto
  show ?thesis
    by (rule put_step [OF assms(1,2), where x = "tp_get_ptr tail" and hf = "e_free e" and p' = "case r of None \<Rightarrow> ELoad e | Some r \<Rightarrow> EDone e r"])
      (use assms(3) inv_parts(3) [OF assms(1,2)] word_at_ptrs [OF tail_at_word [OF i]] in \<open>auto simp: step_simps split: option.splits\<close>)
qed

lemma goes_EDone:
  assumes "msq_inv n ti s" "t < n" "pcs s t = EDone e r"
  shows "goes n s t"
  by (rule put_step [OF assms(1,2), where x = "e_node e" and hf = True and p' = Idle])
    (use assms(3) inv_parts(3) [OF assms(1,2)] in \<open>auto simp: step_simps\<close>)

lemma store_next_ok:
  assumes "mq_nodes q p = Some nd"
  obtains q' where "store_next p w q = Some q'" "\<And>x. cnt q' x = cnt q x" "counts_pos q \<longrightarrow> counts_pos q'"
    "next_in q' = (next_in q)(p := Some w)" "mq_head q' = mq_head q" "mq_tail q' = mq_tail q"
    "append_info_bits q' = append_info_bits q"
proof -
  let ?q = "q\<lparr>mq_nodes := (mq_nodes q)(p \<mapsto> nd\<lparr>next_tp := w\<rparr>)\<rparr>"
  have "store_next p w q = Some ?q" using assms by (simp add: store_next_def)
  moreover have "cnt ?q x = cnt q x" for x using assms by (simp add: cnt_def)
  moreover have "counts_pos q \<longrightarrow> counts_pos ?q" using assms by (auto simp: counts_pos_def)
  moreover have "next_in ?q = (next_in q)(p := Some w)" by (simp add: next_in_def fun_eq_iff)
  ultimately show thesis by (rule that) simp_all
qed

lemma goes_EStore:
  assumes "msq_inv n ti s" "t < n" "pcs s t = EStore e"
  shows "goes n s t"
proof -
  note inv = assms(1,2)
  have e: "enq_ok (view s ti) e" "e_node e \<notin> ptrs (view s ti)" using inv_parts(4) [OF inv] assms(3) by (simp_all add: new_ok_def)
  have "0 < cnt (queue s) (e_node e)" using inv_parts(5) [OF inv, of "e_node e"] e(2) assms(3) by (simp add: held_def)
  then obtain nd where "mq_nodes (queue s) (e_node e) = Some nd" using cnt_node [OF inv_parts(2) [OF inv]] by blast
  then obtain q' where q': "store_next (e_node e) 0 (queue s) = Some q'" "\<And>x. cnt q' x = cnt (queue s) x"
    "counts_pos (queue s) \<longrightarrow> counts_pos q'" "next_in q' = (next_in (queue s))(e_node e := Some 0)"
    "mq_head q' = mq_head (queue s)" "mq_tail q' = mq_tail (queue s)" "append_info_bits q' = append_info_bits (queue s)"
    by (rule store_next_ok [where w = 0]) blast
  have v: "view (msq_post s t (ELoad e) q') ti = view s ti"
    using view_post [of s t "ELoad e" q' ti ti] q'(7) by (simp add: assms(3) log_enq_def log_deq_def)
  have "queue_ok (view s ti) q'"
    by (rule queue_ok_frame [OF inv_parts(1) [OF inv] q'(5-7)]) (use e(2) q'(4) in \<open>metis fun_upd_other\<close>)
  moreover have "new_ok (view s ti) q' (ELoad e)" using e q'(4) by (simp add: new_ok_def)
  ultimately have "msq_inv n ti (msq_post s t (ELoad e) q')"
    using q' inv_parts(2) [OF inv] by (intro step_inv [OF inv]) (simp_all add: v assms(3) held_def)
  then show ?thesis unfolding goes_def using q'(1) assms(3) by auto
qed

text \<open>Linking a node at the end of the log.\<close>

lemma link_states:
  assumes q: "log_ok v" "states_ok v" and len: "length (v_log v) = Suc (v_ti v)" and tl: "tail_at v (v_ti v) tail"
    and e: "enq_ok v e" "e_chk e \<longrightarrow> app (v_mask v) tail = app (v_mask v) (e_expect e)"
  shows "states_ok (v\<lparr>v_log := v_log v @ [(e_node e, ucast (e_info e) AND v_mask v)]\<rparr>)"
proof -
  let ?st = "ucast (e_info e) AND v_mask v"
  have l: "last (v_log v) = v_log v ! v_ti v" using len by (simp add: last_conv_nth flip: length_greater_0_conv)
  have 1: "v_mask v = 0 \<or> ?st \<noteq> 0" using e(1) by (auto simp: enq_ok_def)
  have 2: "snd (v_log v ! v_ti v) = ?st" if hi: "v_hi v < v_ti v"
  proof (cases "v_mask v = 0")
    case True
    then show ?thesis using q(1) len by (auto simp: log_ok_def dest!: bspec [OF _ nth_mem [of "v_ti v" "v_log v"]])
  next
    case False
    then have "snd (v_log v ! v_ti v) \<noteq> 0" using q(2) hi len by (auto simp: states_ok_def)
    then show ?thesis using False tl e hi by (auto simp: tail_at_def enq_ok_def)
  qed
  have 3: "snd (v_log v ! i) = ?st" if "v_hi v < i" "i < length (v_log v)" for i
    using that q(2) 2 l len by (auto simp: states_ok_def)
  show ?thesis using q(2) 1 3 by (auto simp: states_ok_def nth_append less_Suc_eq)
qed

lemma link_log:
  assumes "log_ok v" "length (v_log v) = Suc (v_ti v)" "enq_ok v e" "e_node e \<notin> ptrs v"
  shows "log_ok (v\<lparr>v_log := v_log v @ [(e_node e, ucast (e_info e) AND v_mask v)]\<rparr>)"
proof -
  have "v_hi v \<le> length (tl (v_log v))" "v_log v \<noteq> []" using assms(1,2) by (auto simp: log_ok_def)
  then show ?thesis using assms by (auto simp: log_ok_def enq_ok_def ac_simps)
qed

lemma link_queue:
  assumes q: "queue_ok v q" and len: "length (v_log v) = Suc (v_ti v)" and tl: "tail_at v (v_ti v) tail"
    and e: "enq_ok v e" "e_chk e \<longrightarrow> app (v_mask v) tail = app (v_mask v) (e_expect e)" "e_node e \<notin> ptrs v"
    and nx: "next_in q (e_node e) = Some 0" "next_in q' = (next_in q)(tp_get_ptr tail := Some tmp)"
    and q': "mq_head q' = mq_head q" "mq_tail q' = mq_tail q" "append_info_bits q' = append_info_bits q"
    and tmp: "tmp = tp_new (e_node e) (enq_tag e q tail)"
  shows "queue_ok (v\<lparr>v_log := v_log v @ [(e_node e, ucast (e_info e) AND v_mask v)]\<rparr>) q'"
    and "node_at (v\<lparr>v_log := v_log v @ [(e_node e, ucast (e_info e) AND v_mask v)]\<rparr>) (Suc (v_ti v)) tmp"
proof -
  let ?v = "v\<lparr>v_log := v_log v @ [(e_node e, ucast (e_info e) AND v_mask v)]\<rparr>"
  have le: "view_le v ?v" by (simp add: view_le_def)
  have tptr: "tp_get_ptr tail = fst (v_log v ! v_ti v)" using tl by (simp add: tail_at_def word_at_def)
  show tmp_at: "node_at ?v (Suc (v_ti v)) tmp"
    using tmp len e(1) app_enq [of e q "e_node e" tail] queue_okD(3) [OF q]
    by (simp add: node_at_def word_at_def tp_get_ptr_new enq_ok_def nth_append)
  have chain: "\<forall>i < length (v_log v). \<exists>w. next_in q (fst (v_log v ! i)) = Some w \<and>
      (if Suc i < length (v_log v) then node_at v (Suc i) w else w = 0)"
    using q unfolding queue_ok_def chain_ok_def by blast
  have "\<exists>w. next_in q' (fst (v_log ?v ! i)) = Some w \<and> (if Suc i < length (v_log ?v) then node_at ?v (Suc i) w else w = 0)"
    if i: "i < length (v_log ?v)" for i
  proof -
    consider "i < v_ti v" | "i = v_ti v" | "i = Suc (v_ti v)" using i len by (auto simp: less_Suc_eq)
    then show ?thesis
    proof cases
      case 1
      have "fst (v_log v ! i) \<noteq> tp_get_ptr tail"
        using queue_okD(5) [OF q] 1 len unfolding tptr by (simp add: distinct_conv_nth)
      moreover obtain w where "next_in q (fst (v_log v ! i)) = Some w" "node_at v (Suc i) w"
        using chain 1 len by (auto dest!: spec [of _ i])
      ultimately show ?thesis using 1 len nx(2) node_at_mono [OF le] by (simp add: nth_append)
    next
      case 2
      then show ?thesis using tmp_at len nx(2) tptr by (simp add: nth_append)
    next
      case 3
      have "e_node e \<noteq> tp_get_ptr tail" using e(3) word_at_ptrs [OF tail_at_word [OF tl]] by metis
      then show ?thesis using 3 len nx by (simp add: nth_append)
    qed
  qed
  then have "chain_ok ?v q'" by (simp add: chain_ok_def)
  then show "queue_ok ?v q'"
    using q link_log [OF _ len e(1,3)] link_states [OF _ _ len tl e(1,2)] head_at_mono [OF le] tail_at_mono [OF le]
    by (simp add: queue_ok_def q' append_info_mask_cong [OF q'(3)])
qed

lemma goes_ELink:
  assumes "msq_inv n ti s" "t < n" "pcs s t = ELink e tail next"
  shows "goes n s t"
proof -
  note inv = assms(1,2)
  note q = inv_parts(1) [OF inv]
  obtain i where i: "tail_at (view s ti) i tail" "next = 0" "e_chk e \<longrightarrow> app (v_mask (view s ti)) tail = app (v_mask (view s ti)) (e_expect e)"
    using inv_parts(3) [OF inv] assms(3) by auto
  obtain nd where nd: "mq_nodes (queue s) (tp_get_ptr tail) = Some nd" "tp_get_ptr (next_tp nd) = 0 \<longleftrightarrow> Suc i = length (enqd s)"
    by (rule chain_next [OF q tail_at_word [OF i(1)]]) simp
  show ?thesis
  proof (cases "next_tp nd = 0")
    case False
    show ?thesis by (rule local_step [OF inv, of "EPutNew e tail"])
      (use assms(3) False nd(1) i in \<open>auto simp: step_simps Let_def\<close>)
  next
    case True
    let ?tmp = "tp_new (e_node e) (enq_tag e (queue s) tail)" and ?p = "ESwing e tail (tp_new (e_node e) (enq_tag e (queue s) tail))"
    let ?v = "(view s ti)\<lparr>v_log := enqd s @ [(e_node e, ucast (e_info e) AND v_mask (view s ti))]\<rparr>"
    have len: "length (v_log (view s ti)) = Suc (v_ti (view s ti))" "i = ti"
      using nd(2) True i(1) queue_okD(6) [OF q] by (auto simp: tail_at_def)
    have e: "enq_ok (view s ti) e" "e_node e \<notin> ptrs (view s ti)" "next_in (queue s) (e_node e) = Some 0"
      using inv_parts(4) [OF inv] assms(3) by (simp_all add: new_ok_def)
    obtain q' where q': "store_next (tp_get_ptr tail) ?tmp (queue s) = Some q'" "\<And>x. cnt q' x = cnt (queue s) x"
      "counts_pos (queue s) \<longrightarrow> counts_pos q'" "next_in q' = (next_in (queue s))(tp_get_ptr tail := Some ?tmp)"
      "mq_head q' = mq_head (queue s)" "mq_tail q' = mq_tail (queue s)" "append_info_bits q' = append_info_bits (queue s)"
      by (rule store_next_ok [OF nd(1), where w = ?tmp]) blast
    have chk: "e_chk e \<or> append_info_mask (queue s) = 0" using e(1) by (simp add: enq_ok_def)
    have v: "view (msq_post s t ?p q') ti = ?v"
      using app_enq [OF chk, of "e_node e" tail] append_info_mask_cong [OF q'(7)]
      by (simp add: view_def msq_post_def assms(3) log_enq_def log_deq_def app_def)
    note tl = i(1) [unfolded len(2)]
    have "queue_ok ?v q'" "node_at ?v (Suc ti) ?tmp"
      using link_queue [OF q len(1), of tail e q' ?tmp] tl e i(3) q'(4-7) by simp_all
    moreover have le: "view_le (view s ti) ?v" by (simp add: view_le_def)
    moreover have "tail_at ?v ti tail" by (rule tail_at_mono [OF le tl])
    moreover have "tp_get_ptr tail \<in> ptrs (view s ti)" by (rule word_at_ptrs [OF tail_at_word [OF tl]])
    ultimately have "msq_inv n ti (msq_post s t ?p q')" using e q' inv_parts(2) [OF inv]
      by (intro step_inv [OF inv]) (auto simp: v assms(3) held_def new_ok_def swing_ok_def)
    then show ?thesis unfolding goes_def using q'(1) assms(3) nd(1) True i(2) by (auto simp: Let_def)
  qed
qed

section \<open>Dequeue\<close>

lemma head_read: "queue_ok v q \<Longrightarrow> \<exists>i. head_at v i (mq_head q)"
  using queue_okD(1) by blast

lemma won_ptrs: "queue_ok v q \<Longrightarrow> won v t w \<Longrightarrow> tp_get_ptr w \<in> ptrs v"
proof -
  assume "queue_ok v q" "won v t w"
  then have "tp_get_ptr w \<in> set (map fst (take (v_hi v) (tl (v_log v))))"
    by (simp only: queue_ok_def log_ok_def won_def) (metis image_eqI list.set_map snd_conv)
  then show ?thesis by (auto dest!: in_set_takeD) (metis image_eqI fst_conv list.set_sel(2) list.sel(2))
qed

text \<open>A thread that reads the link of the head while the head is current records a miss if it cannot use it.\<close>

lemma miss_read:
  assumes "queue_ok (view s ti) (queue s)" "head_at (view s ti) i head" "mq_nodes (queue s) (tp_get_ptr head) = Some nd"
    "deq_of (pcs s t) = Some d"
  shows "miss_ok (view s ti) (now_missed s t) d i (next_tp nd)"
proof (cases "i < length (deqd s)")
  case False
  then have "tp_get_ptr (mq_head (queue s)) = tp_get_ptr head"
    using assms(2) queue_okD(1) [OF assms(1)] by (simp add: head_at_def word_at_def)
  then show ?thesis using assms(3,4) by (auto simp: miss_ok_def bad_def now_missed_def no_match_def)
qed (simp add: miss_ok_def)

lemma goes_DLoad:
  assumes "msq_inv n ti s" "t < n" "pcs s t = DLoad d"
  shows "goes n s t"
  by (rule local_step [OF assms(1,2), of "DGet d (mq_head (queue s))"])
    (use assms(3) head_read [OF inv_parts(1) [OF assms(1,2)]] inv_parts(3) [OF assms(1,2)] in \<open>auto simp: step_simps\<close>)

lemma goes_DGet:
  assumes "msq_inv n ti s" "t < n" "pcs s t = DGet d head"
  shows "goes n s t"
proof -
  obtain i where i: "head_at (view s ti) i head" "deq_ok (view s ti) d" using inv_parts(3) [OF assms(1,2)] assms(3) by auto
  note nz = word_at_nonzero [OF inv_parts(1) [OF assms(1,2)] head_at_word [OF i(1)]]
  show ?thesis
    by (rule get_step [OF assms(1,2), where x = "tp_get_ptr head" and p' = "if d_chk d then DNext1 d head else DTail1 d head"])
      (use assms(3) nz i word_at_ptrs [OF head_at_word [OF i(1)]] in \<open>auto simp: step_simps\<close>)
qed

lemma goes_DTail1:
  assumes "msq_inv n ti s" "t < n" "pcs s t = DTail1 d head"
  shows "goes n s t"
proof -
  note q = inv_parts(1) [OF assms(1,2)]
  obtain i where i: "head_at (view s ti) i head" "deq_ok (view s ti) d" using inv_parts(3) [OF assms(1,2)] assms(3) by auto
  have "i \<le> ti" using i(1) queue_okD(4) [OF q] by (simp add: head_at_def)
  with i queue_okD(2) [OF q] have "reads_ok (view s ti) t (now_missed s t) (DNext2 d head (mq_tail (queue s)))" by auto
  then show ?thesis by (intro local_step [OF assms(1,2), of "DNext2 d head (mq_tail (queue s))"])
    (use assms(3) in \<open>simp_all add: step_simps\<close>)
qed

lemma goes_DNext2:
  assumes "msq_inv n ti s" "t < n" "pcs s t = DNext2 d head tail"
  shows "goes n s t"
proof -
  note q = inv_parts(1) [OF assms(1,2)]
  obtain i j where i: "head_at (view s ti) i head" "tail_at (view s ti) j tail" "i \<le> j" "deq_ok (view s ti) d"
    using inv_parts(3) [OF assms(1,2)] assms(3) by auto
  obtain nd where nd: "mq_nodes (queue s) (tp_get_ptr head) = Some nd" "next_of (view s ti) i (next_tp nd)"
    by (rule chain_next [OF q head_at_word [OF i(1)]])
  have "reads_ok (view s ti) t (now_missed s t) (DCheck d head tail (next_tp nd))"
    using i nd miss_read [OF q i(1) nd(1), of t d] assms(3) by auto
  then show ?thesis by (intro local_step [OF assms(1,2), of "DCheck d head tail (next_tp nd)"])
    (use assms(3) nd in \<open>simp_all add: step_simps\<close>)
qed

lemma goes_DNext1:
  assumes "msq_inv n ti s" "t < n" "pcs s t = DNext1 d head"
  shows "goes n s t"
proof -
  note q = inv_parts(1) [OF assms(1,2)]
  obtain i where i: "head_at (view s ti) i head" "deq_ok (view s ti) d" using inv_parts(3) [OF assms(1,2)] assms(3) by auto
  obtain nd where nd: "mq_nodes (queue s) (tp_get_ptr head) = Some nd" "next_of (view s ti) i (next_tp nd)"
    by (rule chain_next [OF q head_at_word [OF i(1)]])
  have "reads_ok (view s ti) t (now_missed s t) (DTail2 d head (next_tp nd))"
    using i nd miss_read [OF q i(1) nd(1), of t d] assms(3) by auto
  then show ?thesis by (intro local_step [OF assms(1,2), of "DTail2 d head (next_tp nd)"])
    (use assms(3) nd in \<open>simp_all add: step_simps\<close>)
qed

lemma goes_DTail2:
  assumes "msq_inv n ti s" "t < n" "pcs s t = DTail2 d head next"
  shows "goes n s t"
proof -
  note q = inv_parts(1) [OF assms(1,2)]
  obtain i where i: "head_at (view s ti) i head" "next_of (view s ti) i next" "miss_ok (view s ti) (missed s t) d i next"
    "deq_ok (view s ti) d" using inv_parts(3) [OF assms(1,2)] assms(3) by auto
  have "i \<le> ti" using i(1) queue_okD(4) [OF q] by (simp add: head_at_def)
  then have "reads_ok (view s ti) t (now_missed s t) (DCheck d head (mq_tail (queue s)) next)"
    using i queue_okD(2) [OF q] miss_ok_mono [OF view_le_refl missed_mono i(3)] by auto
  then show ?thesis by (intro local_step [OF assms(1,2), of "DCheck d head (mq_tail (queue s)) next"])
    (use assms(3) in \<open>simp_all add: step_simps\<close>)
qed

lemma goes_DCheck:
  assumes "msq_inv n ti s" "t < n" "pcs s t = DCheck d head tail next"
  shows "goes n s t"
proof -
  note q = inv_parts(1) [OF assms(1,2)]
  let ?v = "view s ti" and ?p = "fst (the (msq_exec (pcs s t) (queue s)))"
  obtain i j where i: "head_at ?v i head" "tail_at ?v j tail" "i \<le> j" "next_of ?v i next" "miss_ok ?v (missed s t) d i next"
    "deq_ok ?v d" using inv_parts(3) [OF assms(1,2)] assms(3) by auto
  have hd: "i = length (deqd s)" if "mq_head (queue s) = head"
    using word_at_inj [OF queue_okD(5) [OF q] head_at_word [OF i(1)] head_at_word [OF queue_okD(1) [OF q]]] that by simp
  have ij: "i = j \<longleftrightarrow> tp_get_ptr head = tp_get_ptr tail"
    using word_at_inj [OF queue_okD(5) [OF q] head_at_word [OF i(1)] tail_at_word [OF i(2)]] i(1,2)
    by (auto simp: head_at_def tail_at_def word_at_def)
  have miss: "now_missed s t" if "mq_head (queue s) = head" "bad ?v d next"
    using that hd i(5) missed_mono by (auto simp: miss_ok_def)
  have sw: "swing_ok ?v tail (tp_new (tp_get_ptr next) (help_tag (d_chk d) (queue s) tail next))" if "i = j" "tp_get_ptr next \<noteq> 0"
    using swing_okI [OF q i(2), of "next" "d_chk d"] i that by (simp add: deq_ok_def)
  have nx: "\<exists>j. tail_at ?v j tail \<and> i < j \<and> node_at ?v (Suc i) next" if "i \<noteq> j" "tp_get_ptr next \<noteq> 0"
    using i that by (auto simp: next_of_def)
  have "reads_ok ?v t (now_missed s t) ?p"
    using i(1,6) miss sw nx ij by (auto simp: assms(3) tp_is_none_def tp_new_none_def bad_def)
  then show ?thesis by (intro local_step [OF assms(1,2), of ?p]) (auto simp: assms(3) step_simps tp_is_none_def tp_new_none_def)
qed

lemma goes_DHelp:
  assumes "msq_inv n ti s" "t < n" "pcs s t = DHelp d head tail tmp"
  shows "goes n s t"
proof -
  have sw: "swing_ok (view s ti) tail tmp" using inv_parts(3) [OF assms(1,2)] assms(3) by auto
  show ?thesis
    by (rule tail_step [OF assms(1,2) _ swing_tail [OF inv_parts(1) [OF assms(1,2)] sw], of "DPut d head Retry"])
      (use inv_parts(3) [OF assms(1,2)] assms(3) in \<open>auto simp: step_simps\<close>)
qed

lemma goes_DGetNext:
  assumes "msq_inv n ti s" "t < n" "pcs s t = DGetNext d head tail next"
  shows "goes n s t"
proof -
  have "tp_get_ptr next \<in> ptrs (view s ti)"
    using inv_parts(3) [OF assms(1,2)] assms(3) word_at_ptrs [OF node_at_word, of "view s ti" _ "next"] by auto
  then show ?thesis
    by (intro get_step [OF assms(1,2), where x = "tp_get_ptr next" and p' = "DSwing d head tail next"])
      (use assms(3) inv_parts(3) [OF assms(1,2)] in \<open>auto simp: step_simps\<close>)
qed

text \<open>The head moves to the next entry of the log.\<close>

lemma head_queue:
  assumes q: "queue_ok v q" and nx: "node_at v (Suc (v_hi v)) next" and hi: "Suc (v_hi v) \<le> v_ti v"
  shows "queue_ok (v\<lparr>v_deq := v_deq v @ [(t, tp_get_ptr next)]\<rparr>) (q\<lparr>mq_head := tp_new (tp_get_ptr next) tag\<rparr>)"
    (is "queue_ok ?v ?q")
proof -
  have le: "view_le v ?v" by (simp add: view_le_def)
  have same: "append_info_mask ?q = append_info_mask q" "next_in ?q = next_in q"
    by (simp_all add: append_info_mask_def tag_step_def next_in_def fun_eq_iff)
  have "tl (v_log v) ! v_hi v = v_log v ! Suc (v_hi v)" "v_hi v < length (tl (v_log v))"
    using nx by (auto simp: node_at_def word_at_def nth_tl)
  then have "log_ok ?v" using q hi nx
    by (auto simp: queue_ok_def log_ok_def take_Suc_conv_app_nth node_at_def word_at_def)
  moreover have "states_ok ?v" using q by (auto simp: queue_ok_def states_ok_def)
  moreover have "chain_ok ?v ?q" using q node_at_mono [OF le] unfolding queue_ok_def chain_ok_def same(2)
    by (simp split: if_splits) blast
  moreover have "head_at ?v (v_hi ?v) (mq_head ?q)"
    using word_at_mono [OF le word_at_tag [OF node_at_word [OF nx], of tag]] by (simp add: head_at_def)
  ultimately show ?thesis using q tail_at_mono [OF le] by (simp add: queue_ok_def same)
qed

lemma goes_DSwing:
  assumes "msq_inv n ti s" "t < n" "pcs s t = DSwing d head tail next"
  shows "goes n s t"
proof (cases "mq_head (queue s) = head")
  case False
  show ?thesis by (rule local_step [OF assms(1,2), of "DPutNext d head next"])
    (use False inv_parts(3) [OF assms(1,2)] assms(3) in \<open>auto simp: step_simps\<close>)
next
  case True
  note q = inv_parts(1) [OF assms(1,2)]
  let ?v = "(view s ti)\<lparr>v_deq := deqd s @ [(t, tp_get_ptr next)]\<rparr>"
  let ?q = "(queue s)\<lparr>mq_head := tp_new (tp_get_ptr next) (help_tag (d_chk d) (queue s) tail next)\<rparr>"
  let ?p = "DPut d head (if d_chk d \<and> tp_get_ptr next = tp_get_ptr tail then Clear tail next else Give next)"
  obtain i j where i: "head_at (view s ti) i head" "tail_at (view s ti) j tail" "i < j" "node_at (view s ti) (Suc i) next"
    "deq_ok (view s ti) d" using inv_parts(3) [OF assms(1,2)] assms(3) by auto
  have hi: "i = length (deqd s)"
    using word_at_inj [OF queue_okD(5) [OF q] head_at_word [OF i(1)] head_at_word [OF queue_okD(1) [OF q]]] True by simp
  have le: "view_le (view s ti) ?v" by (simp add: view_le_def)
  have v: "view (msq_post s t ?p ?q) ti = ?v"
    by (simp add: view_def msq_post_def assms(3) log_enq_def log_deq_def append_info_mask_def tag_step_def)
  have "queue_ok ?v ?q" using head_queue [OF q, of "next"] i hi by (simp add: tail_at_def)
  moreover have "\<not> tp_is_none next" using word_at_nonzero [OF q node_at_word [OF i(4)]] by (auto simp: tp_is_none_def)
  moreover have "tp_get_ptr next = tp_get_ptr tail \<Longrightarrow> j = Suc i"
    using word_at_inj [OF queue_okD(5) [OF q] tail_at_word [OF i(2)] node_at_word [OF i(4)]] by simp
  moreover have "tail_at ?v j tail" "head_at ?v i head" by (rule tail_at_mono [OF le i(2)] head_at_mono [OF le i(1)])+
  ultimately have "msq_inv n ti (msq_post s t ?p ?q)"
    using inv_parts(2) [OF assms(1,2)] i(5) hi
    by (intro step_inv [OF assms(1,2)])
      (auto simp: v le assms(3) step_simps new_ok_def won_def deq_ok_def counts_pos_def cnt_def next_in_def)
  then show ?thesis unfolding goes_def using assms(3) True by auto
qed

lemma goes_DPutNext:
  assumes "msq_inv n ti s" "t < n" "pcs s t = DPutNext d head next"
  shows "goes n s t"
proof -
  have "tp_get_ptr next \<in> ptrs (view s ti)"
    using inv_parts(3) [OF assms(1,2)] assms(3) word_at_ptrs [OF node_at_word, of "view s ti" _ "next"] by auto
  then show ?thesis
    by (intro put_step [OF assms(1,2), where x = "tp_get_ptr next" and hf = "d_free d" and p' = "DPut d head Retry"])
      (use assms(3) inv_parts(3) [OF assms(1,2)] in \<open>auto simp: step_simps\<close>)
qed

lemma goes_DPut:
  assumes "msq_inv n ti s" "t < n" "pcs s t = DPut d head after"
  shows "goes n s t"
proof -
  let ?p = "case after of Retry \<Rightarrow> DLoad d | Give tp \<Rightarrow> DDone d tp | Clear tail next \<Rightarrow> DClear d tail next"
  obtain i where i: "head_at (view s ti) i head" "deq_ok (view s ti) d" "after_ok (view s ti) t (now_missed s t) after"
    using inv_parts(3) [OF assms(1,2)] assms(3) after_ok_mono [OF view_le_refl missed_mono] by auto
  note ptr = word_at_ptrs [OF head_at_word [OF i(1)]]
  have "quiet s t ?p" using assms(3) by (cases after) (simp_all add: step_simps)
  moreover have "held ?p y = held (pcs s t) y - of_bool (y = tp_get_ptr head)" for y
    using assms(3) by (cases after) (simp_all add: held_def)
  moreover have "reads_ok (view s ti) t (now_missed s t) ?p" using i by (cases after) simp_all
  ultimately show ?thesis
    by (intro put_step [OF assms(1,2), where x = "tp_get_ptr head" and hf = "d_free d" and p' = ?p])
      (simp_all add: ptr [simplified] assms(3))
qed

lemma goes_DClear:
  assumes "msq_inv n ti s" "t < n" "pcs s t = DClear d tail next"
  shows "goes n s t"
proof -
  note q = inv_parts(1) [OF assms(1,2)]
  obtain j where j: "won (view s ti) t next" "j \<le> length (deqd s)" "tail_at (view s ti) j tail"
    using inv_parts(3) [OF assms(1,2)] assms(3) by auto
  have nn: "\<not> tp_is_none next"
    using won_ptrs [OF q j(1)] q by (auto simp: tp_is_none_def queue_ok_def log_ok_def)
  have tl: "\<exists>i. ti \<le> i \<and> i < length (enqd s) \<and>
      tail_at ((view s ti)\<lparr>v_ti := i\<rparr>) i (tp_new (tp_get_ptr tail) (append_tag (queue s) tail 0))" if "mq_tail (queue s) = tail"
  proof -
    have "j = ti"
      using word_at_inj [OF queue_okD(5) [OF q] tail_at_word [OF j(3)] tail_at_word [OF queue_okD(2) [OF q]]] that by simp
    moreover note word_at_tag [OF tail_at_word [OF j(3)], of "append_tag (queue s) tail 0"]
    ultimately show ?thesis using j(2,3) app_cleared [of "queue s" "tp_get_ptr tail" tail]
      by (intro exI [of _ ti]) (auto simp: tail_at_def word_at_def)
  qed
  show ?thesis
    by (rule tail_step [OF assms(1,2) _ tl, of "DDone d next"]) (use j(1) nn assms(3) in \<open>simp_all add: step_simps\<close>)
qed

lemma goes_DDone:
  assumes "msq_inv n ti s" "t < n" "pcs s t = DDone d tp"
  shows "goes n s t"
proof (cases "tp_is_none tp")
  case True
  show ?thesis by (rule local_step [OF assms(1,2), of Idle]) (use True assms(3) in \<open>simp_all add: step_simps\<close>)
next
  case False
  then have "tp_get_ptr tp \<in> ptrs (view s ti)"
    using won_ptrs [OF inv_parts(1) [OF assms(1,2)]] inv_parts(3) [OF assms(1,2)] assms(3) by auto
  then show ?thesis
    by (intro put_step [OF assms(1,2), where x = "tp_get_ptr tp" and hf = True and p' = Idle])
      (use False assms(3) in \<open>auto simp: step_simps\<close>)
qed

lemmas goes_intros = goes_EStore goes_ELoad goes_EGet goes_ENext goes_ECheck goes_EGetNew goes_ELink goes_ESwing goes_EHelp
  goes_EPutNew goes_EPut goes_EDone goes_DLoad goes_DGet goes_DTail1 goes_DNext2 goes_DNext1 goes_DTail2 goes_DCheck goes_DHelp
  goes_DGetNext goes_DSwing goes_DPutNext goes_DPut goes_DClear goes_DDone

lemma msq_exec_inv:
  assumes "msq_inv n ti s" "t < n" "pcs s t \<noteq> Idle"
  shows "goes n s t"
  using assms(3) by (cases "pcs s t") (auto intro: goes_intros [OF assms(1,2)])

section \<open>Every reachable state\<close>

lemma msq_run_inv:
  assumes "msq_inv n ti s" "t < n" "msq_exec (pcs s t) (queue s) = Some (p', q')"
  shows "\<exists>ti'. msq_inv n ti' (msq_post s t p' q')"
proof -
  have "pcs s t \<noteq> Idle" using assms(3) by auto
  then have "goes n s t" by (rule msq_exec_inv [OF assms(1,2)])
  then show ?thesis using assms(3) by (auto simp: goes_def)
qed

lemma start_enq_inv:
  assumes "msq_inv n ti s" "t < n" "pcs s t = Idle" "enq_request (queue s) e"
  shows "msq_inv n ti (msq_post s t (EStore e)
    ((queue s)\<lparr>mq_nodes := (mq_nodes (queue s))(e_node e \<mapsto> \<lparr>refcount = ref_init, next_tp = w\<rparr>)\<rparr>))"
    (is "msq_inv n ti (msq_post s t ?p ?q)")
proof -
  have fresh: "cnt (queue s) (e_node e) = 0" using assms(4) by (simp add: cnt_def enq_request_def)
  have e: "e_node e \<notin> ptrs (view s ti)"
    using inv_parts(5) [OF assms(1,2), of "e_node e"] fresh held_nonneg [of "pcs s t" "e_node e"]
    by (cases "e_node e \<in> ptrs (view s ti)") (simp_all del: held_nonneg)
  have v: "view (msq_post s t ?p ?q) ti = view s ti" using view_post [of s t ?p ?q ti ti] by (simp add: assms(3) log_enq_def log_deq_def)
  have "queue_ok (view s ti) ?q"
  proof (rule queue_ok_frame [OF inv_parts(1) [OF assms(1,2)]])
    show "next_in ?q p = next_in (queue s) p" if "p \<in> ptrs (view s ti)" for p
    proof -
      have "p \<noteq> e_node e" using that e by metis
      then show ?thesis by (simp add: next_in_def)
    qed
  qed simp_all
  moreover have "cnt ?q x = cnt (queue s) x + of_bool (x = e_node e)" for x
    using fresh by (simp add: cnt_def ref_init_def)
  moreover have "counts_pos ?q" using inv_parts(2) [OF assms(1,2)] by (simp add: counts_pos_def ref_init_def)
  moreover have "enq_ok (view s ti) e" using assms(4) plain_mask [of "queue s"] by (auto simp: enq_request_def enq_ok_def app_def)
  moreover have "next_in ?q x = next_in (queue s) x" if "0 < cnt (queue s) x" for x
    using that fresh by (auto simp: next_in_def)
  ultimately show ?thesis using e fresh
    by (intro step_inv [OF assms(1,2)]) (simp_all add: v assms(3) held_def new_ok_def)
qed

lemma start_deq_inv:
  assumes "msq_inv n ti s" "t < n" "pcs s t = Idle" "deq_request (queue s) d"
  shows "msq_inv n ti (s\<lparr>pcs := (pcs s)(t := DLoad d), missed := (now_missed s)(t := False)\<rparr>)" (is "msq_inv n ti ?s")
proof -
  let ?s' = "msq_post s t (DLoad d) (queue s)"
  have "deq_ok (view s ti) d" using assms(4) plain_mask [of "queue s"] by (auto simp: deq_request_def deq_ok_def)
  moreover have v: "view ?s' ti = view s ti" using view_post [of s t "DLoad d" "queue s" ti ti] by (simp add: assms(3) log_enq_def log_deq_def)
  ultimately have "msq_inv n ti ?s'"
    using inv_parts(1,2) [OF assms(1,2)] by (intro step_inv [OF assms(1,2)]) (simp_all add: v assms(3) held_def new_ok_def)
  moreover have v': "view ?s ti = view s ti" by (simp add: view_def)
  ultimately show ?thesis unfolding msq_inv_def threads_ok_def v v' by (auto simp: msq_post_def split: if_splits)
qed

lemma step_keeps: "msq_step n s s' \<Longrightarrow> msq_inv n ti s \<Longrightarrow> \<exists>ti'. msq_inv n ti' s'"
proof (induction rule: msq_step.induct)
  case (run t s p' q')
  then show ?case by (intro msq_run_inv)
next
  case (start_enq t s e w)
  have "s\<lparr>queue := (queue s)\<lparr>mq_nodes := (mq_nodes (queue s))(e_node e \<mapsto> \<lparr>refcount = ref_init, next_tp = w\<rparr>)\<rparr>,
      pcs := (pcs s)(t := EStore e), missed := now_missed s\<rparr>
    = msq_post s t (EStore e) ((queue s)\<lparr>mq_nodes := (mq_nodes (queue s))(e_node e \<mapsto> \<lparr>refcount = ref_init, next_tp = w\<rparr>)\<rparr>)"
    using start_enq(2) by (simp add: msq_post_def log_enq_def log_deq_def)
  then show ?case using start_enq_inv [OF start_enq(4,1,2,3)] by metis
next
  case (start_deq t s d)
  then show ?case using start_deq_inv by blast
qed

lemma start_inv:
  assumes "canonical dummy" "dummy \<noteq> 0"
  shows "msq_inv n 0 (msq_start dummy bits)"
proof -
  let ?q = "msq_init Map.empty dummy bits" and ?v = "view (msq_start dummy bits) 0"
  have w: "word_at ?v 0 (tp_new dummy 0)" using assms by (simp add: word_at_def msq_start_def tp_get_ptr_new)
  have "chain_ok ?v ?q"
    by (simp add: chain_ok_def msq_start_def msq_init_def next_in_def tp_new_none_def)
  moreover have "head_at ?v 0 (tp_new dummy 0)" "tail_at ?v 0 (tp_new dummy 0)"
    using w by (simp_all add: head_at_def tail_at_def app_def msq_start_def)
  ultimately have "queue_ok ?v ?q"
    using assms by (simp add: queue_ok_def log_ok_def states_ok_def msq_start_def msq_init_def view_def)
  moreover have "counts_ok n ?v (\<lambda>_. Idle) ?q"
    by (auto simp: counts_ok_def counts_pos_def cnt_def refs_def held_def msq_start_def msq_init_def ref_init_def)
  ultimately show ?thesis by (simp add: msq_inv_def threads_ok_def owners_ok_def msq_start_def new_ok_def)
qed

lemma reach_inv:
  assumes "msq_reach n dummy bits s" "canonical dummy" "dummy \<noteq> 0"
  shows "\<exists>ti. msq_inv n ti s"
  using assms(1) unfolding msq_reach_def
proof (induction rule: rtranclp_induct)
  case base
  then show ?case using start_inv [OF assms(2,3)] by blast
next
  case (step s s')
  then show ?case using step_keeps by blast
qed

end
