(* ===== verification/Ms_Queue_Spec.thy ===== *)
theory Ms_Queue_Spec
  imports Ms_Queue_Inv
begin

text \<open>
  What the lock-free queue of \<open>Ms_Queue\<close> promises its clients, in every reachable state and for any number of
  threads: it is a first-in first-out queue, it never touches a freed node, the nodes that wait share one state, and
  its nodes are never freed.
\<close>

section \<open>The queue as a list\<close>

text \<open>The nodes that follow \<open>p\<close> in memory, with the state in the link that leads to them; \<open>k\<close> bounds the walk.\<close>

fun msq_walk :: "nat \<Rightarrow> msq \<Rightarrow> u64 \<Rightarrow> (u64 \<times> u16) list" where
  "msq_walk 0 q p = []"
| "msq_walk (Suc k) q p =
     (case mq_nodes q p of
        None \<Rightarrow> []
      | Some nd \<Rightarrow>
          if tp_get_ptr (next_tp nd) = 0 then []
          else (tp_get_ptr (next_tp nd), tp_get_tag (next_tp nd) AND append_info_mask q)
             # msq_walk k q (tp_get_ptr (next_tp nd)))"

definition waiting :: "msq_sys \<Rightarrow> (u64 \<times> u16) list" where
  "waiting s = msq_walk (length (enqd s)) (queue s) (tp_get_ptr (mq_head (queue s)))"

lemma msq_walk_log:
  assumes q: "queue_ok v q"
  shows "word_at v i w \<Longrightarrow> length (v_log v) \<le> k + i \<Longrightarrow> msq_walk k q (tp_get_ptr w) = drop (Suc i) (v_log v)"
proof (induction k arbitrary: i w)
  case 0
  then show ?case by (simp add: word_at_def)
next
  case (Suc k)
  obtain nd where nd: "mq_nodes q (tp_get_ptr w) = Some nd" "next_of v i (next_tp nd)"
    "tp_get_ptr (next_tp nd) = 0 \<longleftrightarrow> Suc i = length (v_log v)"
    by (rule chain_next [OF q Suc.prems(1)])
  show ?case
  proof (cases "Suc i = length (v_log v)")
    case True
    then show ?thesis using nd by simp
  next
    case False
    then have n: "node_at v (Suc i) (next_tp nd)" using nd by (simp add: next_of_def)
    then have "v_log v ! Suc i = (tp_get_ptr (next_tp nd), tp_get_tag (next_tp nd) AND append_info_mask q)" "Suc i < length (v_log v)"
      using queue_okD(3) [OF q] by (simp_all add: node_at_def word_at_def app_def prod_eq_iff)
    moreover have "msq_walk k q (tp_get_ptr (next_tp nd)) = drop (Suc (Suc i)) (v_log v)"
      by (rule Suc.IH [OF node_at_word [OF n]]) (use Suc.prems(2) in simp)
    ultimately show ?thesis using nd False by (simp add: Cons_nth_drop_Suc [symmetric])
  qed
qed

lemma waiting_drop:
  assumes "msq_inv n ti s"
  shows "waiting s = drop (Suc (length (deqd s))) (enqd s)"
proof -
  have q: "queue_ok (view s ti) (queue s)" using assms by (simp add: msq_inv_def)
  show ?thesis unfolding waiting_def using msq_walk_log [OF q head_at_word [OF queue_okD(1) [OF q]]] by simp
qed

lemma log_split:
  assumes "msq_inv n ti s"
  shows "map fst (enqd s) = fst (hd (enqd s)) # map snd (deqd s) @ map fst (waiting s)"
proof -
  have l: "log_ok (view s ti)" using assms by (simp add: msq_inv_def queue_ok_def)
  then obtain x xs where x: "enqd s = x # xs" by (cases "enqd s") (auto simp: log_ok_def)
  have "map fst xs = map fst (take (length (deqd s)) xs) @ map fst (drop (length (deqd s)) xs)" by (simp flip: map_append)
  then show ?thesis using l x waiting_drop [OF assms] by (simp add: log_ok_def)
qed

section \<open>Runs\<close>

text \<open>Thread by thread, the steps of a schedule.\<close>

fun msq_run :: "nat list \<Rightarrow> msq_sys \<Rightarrow> msq_sys option" where
  "msq_run [] s = Some s"
| "msq_run (t # ts) s = do { (p', q') \<leftarrow> msq_exec (pcs s t) (queue s); msq_run ts (msq_post s t p' q') }"

definition msq_put :: "nat \<Rightarrow> enq \<Rightarrow> msq_sys \<Rightarrow> msq_sys" where
  "msq_put t e s = s\<lparr>queue := (queue s)\<lparr>mq_nodes := (mq_nodes (queue s))(e_node e \<mapsto> \<lparr>refcount = ref_init, next_tp = 0\<rparr>)\<rparr>,
      pcs := (pcs s)(t := EStore e), missed := now_missed s\<rparr>"

lemma msq_run_reach:
  "msq_run ts s = Some s' \<Longrightarrow> list_all (\<lambda>t. t < n) ts \<Longrightarrow> msq_reach n dummy bits s \<Longrightarrow> msq_reach n dummy bits s'"
proof (induction ts arbitrary: s)
  case (Cons t ts)
  then obtain p' q' where e: "msq_exec (pcs s t) (queue s) = Some (p', q')" "msq_run ts (msq_post s t p' q') = Some s'"
    by (auto split: Option.bind_splits)
  have "msq_reach n dummy bits (msq_post s t p' q')"
    using Cons.prems(2,3) msq_step.run [OF _ e(1), of n] unfolding msq_reach_def by (auto intro: rtranclp.rtrancl_into_rtrancl)
  then show ?case using Cons.IH [OF e(2)] Cons.prems(2) by simp
qed simp

lemma msq_run_append: "msq_run (xs @ ys) s = Option.bind (msq_run xs s) (msq_run ys)"
  by (induction xs arbitrary: s) (auto split: Option.bind_splits)

text \<open>The same for one thread alone, without the ghost record of misses.\<close>

fun solo :: "nat \<Rightarrow> nat \<Rightarrow> msq_pc \<times> msq \<times> (u64 \<times> u16) list \<times> (nat \<times> u64) list \<Rightarrow>
    (msq_pc \<times> msq \<times> (u64 \<times> u16) list \<times> (nat \<times> u64) list) option" where
  "solo 0 t x = Some x"
| "solo (Suc k) t (p, q, en, de) = do {
     (p', q') \<leftarrow> msq_exec p q;
     solo k t (p', q', en @ log_enq q p p', de @ log_deq t p p')
   }"

lemma solo_run:
  "solo k t (pcs s t, queue s, enqd s, deqd s) = Some (p, q, en, de) \<Longrightarrow>
    \<exists>s'. msq_run (replicate k t) s = Some s' \<and> pcs s' t = p \<and> queue s' = q \<and> enqd s' = en \<and> deqd s' = de"
proof (induction k arbitrary: s)
  case (Suc k)
  then obtain p' q' where e: "msq_exec (pcs s t) (queue s) = Some (p', q')"
    "solo k t (p', q', enqd s @ log_enq (queue s) (pcs s t) p', deqd s @ log_deq t (pcs s t) p') = Some (p, q, en, de)"
    by (auto split: Option.bind_splits)
  then show ?case using Suc.IH [of "msq_post s t p' q'"] by (simp add: msq_post_def)
qed simp

lemma msq_put_reach:
  "msq_reach n dummy bits s \<Longrightarrow> t < n \<Longrightarrow> pcs s t = Idle \<Longrightarrow> enq_request (queue s) e \<Longrightarrow> msq_reach n dummy bits (msq_put t e s)"
  using msq_step.start_enq [of t n s e 0] unfolding msq_reach_def msq_put_def by (auto intro: rtranclp.rtrancl_into_rtrancl)

lemma log_enq_link: "log_enq q p p' \<noteq> [] \<Longrightarrow> \<exists>e tail next. p = ELink e tail next \<and> (\<exists>e' tail' tmp. p' = ESwing e' tail' tmp)"
  by (auto simp: log_enq_def split: msq_pc.splits)

lemma log_deq_swing:
  "log_deq t p p' \<noteq> [] \<Longrightarrow> \<exists>d head tail next. p = DSwing d head tail next \<and> log_deq t p p' = [(t, tp_get_ptr next)]"
  by (auto simp: log_deq_def split: msq_pc.splits)

lemma link_state:
  assumes "msq_inv n ti s" "t < n" "pcs s t = ELink e tail next" "msq_exec (pcs s t) (queue s) = Some (ESwing e' tail' tmp, q')"
  shows "log_enq (queue s) (pcs s t) (ESwing e' tail' tmp) = [(e_node e, ucast (e_info e) AND append_info_mask (queue s))]"
proof -
  have "enq_ok (view s ti) e" using new_enq_ok [OF inv_parts(4) [OF assms(1,2)]] assms(3) by simp
  then have "e_chk e \<or> append_info_mask (queue s) = 0" by (simp add: enq_ok_def)
  moreover have "tmp = tp_new (e_node e) (enq_tag e (queue s) tail)"
    using assms(3,4) by (auto simp: Let_def split: Option.bind_splits if_splits)
  ultimately show ?thesis using app_enq [of e "queue s" "e_node e" tail] by (simp add: log_enq_def assms(3) app_def)
qed

lemma run_fifo:
  assumes inv: "msq_inv n ti s" "t < n" and ex: "msq_exec (pcs s t) (queue s) = Some (p', q')"
  shows "waiting (msq_post s t p' q') = waiting s \<and> deqd (msq_post s t p' q') = deqd s
    \<or> (\<exists>e tail next. pcs s t = ELink e tail next \<and> deqd (msq_post s t p' q') = deqd s
        \<and> waiting (msq_post s t p' q') = waiting s @ [(e_node e, ucast (e_info e) AND append_info_mask (queue s))])
    \<or> (\<exists>d head tail next st. pcs s t = DSwing d head tail next \<and> waiting s = (tp_get_ptr next, st) # waiting (msq_post s t p' q')
        \<and> deqd (msq_post s t p' q') = deqd s @ [(t, tp_get_ptr next)])"
proof -
  let ?s = "msq_post s t p' q'"
  obtain ti' where inv': "msq_inv n ti' ?s" using msq_run_inv [OF inv ex] by blast
  note w = waiting_drop [OF inv(1)] waiting_drop [OF inv']
  have len: "length (deqd s) < length (enqd s)" "length (deqd ?s) < length (enqd ?s)"
    using queue_okD(4,6) [OF inv_parts(1) [OF inv]] inv' queue_okD(4,6) [of "view ?s ti'" q'] by (simp_all add: msq_inv_def msq_post_def)
  have s': "enqd ?s = enqd s @ log_enq (queue s) (pcs s t) p'" "deqd ?s = deqd s @ log_deq t (pcs s t) p'" by (simp_all add: msq_post_def)
  consider "log_enq (queue s) (pcs s t) p' = []" "log_deq t (pcs s t) p' = []"
    | e tail "next" e' tail' tmp where "pcs s t = ELink e tail next" "p' = ESwing e' tail' tmp"
    | d head tail "next" where "pcs s t = DSwing d head tail next" "log_deq t (pcs s t) p' = [(t, tp_get_ptr next)]"
    using log_enq_link [of "queue s" "pcs s t" p'] log_deq_swing [of t "pcs s t" p'] by blast
  then show ?thesis
  proof cases
    case 1
    then show ?thesis using w s' by simp
  next
    case 2
    then have "log_deq t (pcs s t) p' = []" by (simp add: log_deq_def)
    then show ?thesis using 2 w s' len link_state [OF inv 2(1), of e' tail' tmp q'] ex by simp
  next
    case 3
    then have e: "log_enq (queue s) (pcs s t) p' = []" by (simp add: log_enq_def)
    let ?k = "Suc (length (deqd s))"
    have k: "?k < length (enqd s)" using len(2) e s' 3(2) by simp
    have "map snd (deqd ?s) = map fst (take ?k (tl (enqd s)))"
      using inv' e s' 3(2) by (simp add: msq_inv_def queue_ok_def log_ok_def)
    moreover have "take ?k (tl (enqd s)) = take (length (deqd s)) (tl (enqd s)) @ [enqd s ! ?k]"
      using k by (subst take_Suc_conv_app_nth) (auto simp: nth_tl)
    ultimately have "tp_get_ptr next = fst (enqd s ! ?k)" using 3(2) s' by simp
    then have "waiting s = (tp_get_ptr next, snd (enqd s ! ?k)) # waiting ?s"
      using w e s' 3(2) Cons_nth_drop_Suc [OF k, symmetric] by simp
    then show ?thesis using 3 s' by auto
  qed
qed

lemma start_waiting:
  assumes "msq_inv n ti s" "msq_inv n ti' s'" "enqd s' = enqd s" "deqd s' = deqd s"
  shows "waiting s' = waiting s"
  using waiting_drop [OF assms(1)] waiting_drop [OF assms(2)] assms(3,4) by simp

text \<open>C2. The lock-free queue refines a first-in first-out list under every interleaving: a step of any thread leaves the
  list of waiting nodes and the record of dequeued ones alone, or is the link of an enqueue and appends its node
  with its state, or is the head swing of a dequeue and takes the first node for the thread that made it.\<close>

theorem msq_fifo:
  assumes "msq_reach n dummy bits s" "canonical dummy" "dummy \<noteq> 0" "msq_step n s s'"
  shows "waiting s' = waiting s \<and> deqd s' = deqd s
    \<or> (\<exists>t e tail next. pcs s t = ELink e tail next \<and> deqd s' = deqd s
        \<and> waiting s' = waiting s @ [(e_node e, ucast (e_info e) AND append_info_mask (queue s))])
    \<or> (\<exists>t d head tail next st. pcs s t = DSwing d head tail next \<and> waiting s = (tp_get_ptr next, st) # waiting s'
        \<and> deqd s' = deqd s @ [(t, tp_get_ptr next)])"
proof -
  obtain ti where inv: "msq_inv n ti s" using reach_inv [OF assms(1-3)] by blast
  obtain ti' where inv': "msq_inv n ti' s'" using step_keeps [OF assms(4) inv] by blast
  show ?thesis using assms(4) inv inv'
  proof (cases rule: msq_step.cases)
    case (run t p' q')
    then show ?thesis using run_fifo [OF inv run(2,3)] by blast
  next
    case (start_enq t e w)
    then show ?thesis using start_waiting [OF inv inv'] by simp
  next
    case (start_deq t d)
    then show ?thesis using start_waiting [OF inv inv'] by simp
  qed
qed

section \<open>Results, safety, states, lifetime\<close>

lemma exec_bits: "msq_exec p q = Some (p', q') \<Longrightarrow> append_info_bits q' = append_info_bits q"
  by (cases p) (auto simp: node_get_def node_put_def ref_put_def store_next_def cas_tail_def Let_def
      split: Option.bind_splits if_splits option.splits)

lemma reach_fixed:
  assumes "msq_reach n dummy bits s"
  shows "append_info_bits (queue s) = (if bits \<ge> 16 then 15 else bits) \<and> enqd s \<noteq> [] \<and> hd (enqd s) = (dummy, 0)"
  using assms unfolding msq_reach_def
proof (induction rule: rtranclp_induct)
  case base
  then show ?case by (simp add: msq_start_def msq_init_def)
next
  case (step s s')
  from step(2) show ?case using step(3)
    by (cases rule: msq_step.cases) (auto simp: msq_post_def exec_bits split: if_splits)
qed

lemma info_mask_nonzero:
  assumes "0 < append_info_bits q" "append_info_bits q < 16"
  shows "append_info_mask q \<noteq> 0"
proof -
  have "bit (append_info_mask q) 0"
    using assms by (simp add: append_info_mask_def tag_step_def mask_eq_exp_minus_1 [symmetric] bit_mask_iff)
  then show ?thesis by auto
qed

text \<open>C18. What the queue operations return, under every interleaving: an enqueue reports success exactly when its node is in
  the log of linked nodes; a dequeue that returns a node returns one it took itself, and one that returns none did so
  because at some moment during the call the queue was empty or its first node failed the check. Linked nodes are
  distinct, and the log is the dummy, the dequeued nodes and the waiting nodes in this order.\<close>

theorem msq_results:
  assumes "msq_reach n dummy bits s" "canonical dummy" "dummy \<noteq> 0" "t < n"
  shows "(\<forall>e r. pcs s t = EDone e r \<longrightarrow> (r = REND_SUCCESS \<longleftrightarrow> e_node e \<in> set (map fst (enqd s))))
    \<and> (\<forall>d tp. pcs s t = DDone d tp \<longrightarrow> (if tp_is_none tp then missed s t else (t, tp_get_ptr tp) \<in> set (deqd s)))
    \<and> distinct (map fst (enqd s)) \<and> map fst (enqd s) = dummy # map snd (deqd s) @ map fst (waiting s)"
proof -
  obtain ti where inv: "msq_inv n ti s" using reach_inv [OF assms(1-3)] by blast
  note p = inv_parts [OF inv assms(4)]
  have "distinct (map fst (enqd s))" using queue_okD(5) [OF p(1)] by simp
  moreover have "r = REND_SUCCESS \<longleftrightarrow> e_node e \<in> set (map fst (enqd s))" if "pcs s t = EDone e r" for e r
    using p(3,4) that by (auto simp: new_ok_def split: if_splits)
  moreover have "if tp_is_none tp then missed s t else (t, tp_get_ptr tp) \<in> set (deqd s)" if "pcs s t = DDone d tp" for d tp
    using p(3) that by (auto simp: won_def)
  ultimately show ?thesis using log_split [OF inv] reach_fixed [OF assms(1)] by simp
qed

text \<open>C17. No thread inside the lock-free queue ever touches a node that has been freed: whatever the other threads do and
  whether or not a destructor is given, its next access succeeds.\<close>

theorem msq_no_use_after_free:
  assumes "msq_reach n dummy bits s" "canonical dummy" "dummy \<noteq> 0" "t < n" "pcs s t \<noteq> Idle"
  shows "\<exists>p' q'. msq_exec (pcs s t) (queue s) = Some (p', q')"
  using reach_inv [OF assms(1-3)] msq_exec_inv [OF _ assms(4,5)] unfolding goes_def by blast

text \<open>The nodes that wait in a queue with append bits all carry the same nonempty state, so that a port never
  holds waiting senders and waiting receivers at once.\<close>

theorem msq_single_state:
  assumes "msq_reach n dummy bits s" "canonical dummy" "dummy \<noteq> 0" "bits \<noteq> 0"
  shows "\<exists>st. st \<noteq> 0 \<and> (\<forall>x \<in> set (waiting s). snd x = st)"
proof -
  obtain ti where inv: "msq_inv n ti s" using reach_inv [OF assms(1-3)] by blast
  have m: "append_info_mask (queue s) \<noteq> 0" using reach_fixed [OF assms(1)] assms(4) by (intro info_mask_nonzero) auto
  have st: "states_ok (view s ti)" using inv by (simp add: msq_inv_def queue_ok_def)
  have x: "snd x = snd (last (enqd s)) \<and> snd x \<noteq> 0" if mem: "x \<in> set (waiting s)" for x
  proof -
    obtain k where "k < length (waiting s)" "x = waiting s ! k" using mem unfolding in_set_conv_nth by blast
    then have "x = enqd s ! (Suc (length (deqd s)) + k)" "Suc (length (deqd s)) + k < length (enqd s)"
      using waiting_drop [OF inv] by simp_all
    then show ?thesis using st m unfolding states_ok_def by (auto dest!: spec [of _ "Suc (length (deqd s) + k)"])
  qed
  show ?thesis
  proof (cases "waiting s = []")
    case True
    then show ?thesis by (intro exI [of _ 1]) simp
  next
    case False
    then have "snd (last (enqd s)) \<noteq> 0" using x [OF hd_in_set [OF False]] by auto
    then show ?thesis using x by (intro exI [of _ "snd (last (enqd s))"]) blast
  qed
qed

text \<open>C36. A node that was ever linked is never freed: the reference that the enqueue takes for the queue is not given
  back when the node is dequeued, nor when it stops being the dummy, so its count stays at least one, and is
  exactly one when no operation is under way.\<close>

theorem msq_linked_never_freed:
  assumes "msq_reach n dummy bits s" "canonical dummy" "dummy \<noteq> 0" "p \<in> set (map fst (enqd s))"
  shows "\<exists>nd. mq_nodes (queue s) p = Some nd \<and> 1 \<le> refcount nd \<and> ((\<forall>t < n. pcs s t = Idle) \<longrightarrow> refcount nd = 1)"
proof -
  obtain ti where "msq_inv n ti s" using reach_inv [OF assms(1-3)] by blast
  then have c: "counts_pos (queue s)" "cnt (queue s) p = 1 + refs n (pcs s) p"
    using assms(4) by (simp_all add: msq_inv_def counts_ok_def)
  then obtain nd where "mq_nodes (queue s) p = Some nd" "refcount nd = cnt (queue s) p"
    using cnt_node [OF c(1), of p] refs_nonneg [of n "pcs s" p] by auto
  moreover have "refs n (pcs s) p = 0" if "\<forall>t < n. pcs s t = Idle" using that by (simp add: refs_def held_def)
  ultimately show ?thesis using c(2) by auto
qed

section \<open>A run\<close>

text \<open>One thread enqueues a node and dequeues it again.\<close>

definition demo_enq :: enq where
  "demo_enq = \<lparr>e_node = 8192, e_info = 0, e_expect = 0, e_free = False, e_chk = False\<rparr>"

definition demo_deq :: deq where
  "demo_deq = \<lparr>d_mask = 0, d_expect = 0, d_free = True, d_chk = False\<rparr>"

definition demo_put :: "nat \<Rightarrow> msq_sys option" where
  "demo_put k = msq_run (replicate k 0) (msq_put 0 demo_enq (msq_start 4096 0))"

definition msq_take :: "nat \<Rightarrow> deq \<Rightarrow> msq_sys \<Rightarrow> msq_sys" where
  "msq_take t d s = s\<lparr>pcs := (pcs s)(t := DLoad d), missed := (now_missed s)(t := False)\<rparr>"

lemma demo_canonical: "canonical 4096" "canonical 8192"
proof -
  have "tp_get_ptr 4096 = 4096" "tp_get_ptr 8192 = 8192" by code_simp+
  then show "canonical 4096" "canonical 8192" using canonical_get_ptr [of 4096] canonical_get_ptr [of 8192] by simp_all
qed

lemma demo_put_reach: "demo_put k = Some s \<Longrightarrow> msq_reach 1 4096 0 s"
proof -
  have "msq_reach 1 4096 0 (msq_start 4096 0)" by (simp add: msq_reach_def)
  then have "msq_reach 1 4096 0 (msq_put 0 demo_enq (msq_start 4096 0))"
    by (rule msq_put_reach) (simp_all add: msq_start_def msq_init_def demo_enq_def enq_request_def demo_canonical)
  then show "demo_put k = Some s \<Longrightarrow> msq_reach 1 4096 0 s"
    unfolding demo_put_def by (elim msq_run_reach) (simp_all add: list_all_iff)
qed

lemma demo_put_Suc: "demo_put (Suc k) = Option.bind (demo_put k) (msq_run [0])"
  unfolding demo_put_def replicate_Suc replicate_append_same [symmetric] msq_run_append ..

definition show_queue :: "msq_pc \<times> msq \<times> (u64 \<times> u16) list \<times> (nat \<times> u64) list \<Rightarrow> (u64 \<times> u16) list \<times> (nat \<times> u64) list" where
  "show_queue x = (case x of (p, q, en, de) \<Rightarrow> (msq_walk (length en) q (tp_get_ptr (mq_head q)), de))"

definition demo_solo :: "nat \<Rightarrow> (msq_pc \<times> msq \<times> (u64 \<times> u16) list \<times> (nat \<times> u64) list) option" where
  "demo_solo k = solo k 0 (EStore demo_enq, queue (msq_put 0 demo_enq (msq_start 4096 0)), [(4096, 0)], [])"

lemma solo_numeral: "solo (numeral k) t (p, q, en, de) = do {
     (p', q') \<leftarrow> msq_exec p q;
     solo (pred_numeral k) t (p', q', en @ log_enq q p p', de @ log_deq t p p') }"
  by (simp add: numeral_eq_Suc)

lemmas demo_simps = demo_solo_def show_queue_def demo_enq_def demo_deq_def msq_put_def msq_start_def msq_init_def solo_numeral
  node_get_def node_put_def store_next_def cas_tail_def ref_get_not_zero_def ref_put_def ref_init_def tp_new_none_def tp_is_none_def
  enq_tag_def help_tag_def Let_def log_enq_def log_deq_def tp_get_ptr_new demo_canonical append_info_mask_def tag_step_def

lemma tp_new_inj: "canonical p \<Longrightarrow> canonical p' \<Longrightarrow> tp_new p t = tp_new p' t' \<longleftrightarrow> p = p' \<and> t = t'"
  by (metis tp_get_ptr_new tp_get_tag_new)

lemma demo_put_10: "map_option (\<lambda>x. (fst x, show_queue x)) (demo_solo 10) = Some (Idle, [(8192, 0)], [])"
  by (simp add: demo_simps tp_new_inj)

lemma demo_put_6: "map_option show_queue (demo_solo 6) = Some ([], [])"
  by (simp add: demo_simps tp_new_inj)

lemma demo_put_7: "map_option show_queue (demo_solo 7) = Some ([(8192, 0)], [])"
  by (simp add: demo_simps tp_new_inj)

lemma demo_take: "map_option (\<lambda>x. (fst x, show_queue x)) (do { (p, q, en, de) \<leftarrow> demo_solo 10; solo 9 0 (DLoad demo_deq, q, en, de) })
    = Some (Idle, [], [(0, 8192)])"
  by (simp add: demo_simps tp_new_inj)

lemma demo_put_solo:
  assumes "demo_solo k = Some x"
  obtains s where "demo_put k = Some s" "x = (pcs s 0, queue s, enqd s, deqd s)" "show_queue x = (waiting s, deqd s)"
  using solo_run [of k 0 "msq_put 0 demo_enq (msq_start 4096 0)"] assms
  by (cases x) (auto simp: demo_put_def demo_solo_def msq_put_def msq_start_def show_queue_def waiting_def)

lemma demo_taken:
  obtains s where "msq_reach 1 4096 0 s" "waiting s = []" "deqd s = [(0, 8192)]" "pcs s 0 = Idle"
proof -
  obtain p q en de where x: "demo_solo 10 = Some (p, q, en, de)" "p = Idle" using demo_put_10 by auto
  obtain s where "demo_put 10 = Some s" "(p, q, en, de) = (pcs s 0, queue s, enqd s, deqd s)" by (rule demo_put_solo [OF x(1)])
  then have s: "demo_put 10 = Some s" "pcs s 0 = Idle" "queue s = q" "enqd s = en" "deqd s = de" using x(2) by simp_all
  have "msq_reach 1 4096 0 (msq_take 0 demo_deq s)"
    using demo_put_reach [OF s(1)] reach_fixed [OF demo_put_reach [OF s(1)]] s(2) msq_step.start_deq [of 0 1 s demo_deq]
    unfolding msq_reach_def msq_take_def by (auto simp: deq_request_def intro: rtranclp.rtrancl_into_rtrancl)
  moreover obtain y where y: "solo 9 0 (DLoad demo_deq, q, en, de) = Some y" "fst y = Idle" "show_queue y = ([], [(0, 8192)])"
    using demo_take x(1) by auto
  moreover obtain s' where "msq_run (replicate 9 0) (msq_take 0 demo_deq s) = Some s'" "y = (pcs s' 0, queue s', enqd s', deqd s')"
    using solo_run [of 9 0 "msq_take 0 demo_deq s"] y(1) s(3-5) by (cases y) (auto simp: msq_take_def)
  ultimately show thesis using msq_run_reach [of "replicate 9 0" "msq_take 0 demo_deq s" s' 1 4096 0]
    by (intro that [of s']) (simp_all add: list_all_iff show_queue_def waiting_def)
qed

theorem msq_fifo_witness:
  "\<exists>s s'. msq_reach 1 4096 0 s \<and> msq_step 1 s s' \<and> waiting s' = [(8192, 0)] \<and>
     (\<exists>t e tail next. pcs s t = ELink e tail next \<and> waiting s' = waiting s @ [(e_node e, ucast (e_info e) AND append_info_mask (queue s))])"
proof -
  obtain x where "demo_solo 6 = Some x" "show_queue x = ([], [])" using demo_put_6 by auto
  then obtain s where s: "demo_put 6 = Some s" "waiting s = []" using demo_put_solo by (metis prod.inject)
  obtain y where "demo_solo 7 = Some y" "show_queue y = ([(8192, 0)], [])" using demo_put_7 by auto
  then obtain s' where s': "demo_put 7 = Some s'" "waiting s' = [(8192, 0)]" using demo_put_solo by (metis prod.inject)
  have "msq_run [0] s = Some s'" using s(1) s'(1) demo_put_Suc [of 6] by simp
  then obtain p' q' where ex: "msq_exec (pcs s 0) (queue s) = Some (p', q')" "s' = msq_post s 0 p' q'"
    by (auto split: Option.bind_splits)
  have st: "msq_step 1 s s'" unfolding ex(2) by (rule msq_step.run [OF _ ex(1)]) simp
  from msq_fifo [OF demo_put_reach [OF s(1)] demo_canonical(1) _ st] s(2) s'(2)
  obtain t e tail "next" where "pcs s t = ELink e tail next"
    "waiting s' = waiting s @ [(e_node e, ucast (e_info e) AND append_info_mask (queue s))]" by auto
  then show ?thesis using st s'(2) demo_put_reach [OF s(1)] by blast
qed

theorem msq_results_witness:
  "\<exists>s. msq_reach 1 4096 0 s \<and> deqd s = [(0, 8192)] \<and> map fst (enqd s) = 4096 # map snd (deqd s) @ map fst (waiting s)"
proof -
  obtain s where s: "msq_reach 1 4096 0 s" "deqd s = [(0, 8192)]" by (rule demo_taken)
  show ?thesis using msq_results [OF s(1) demo_canonical(1), of 0] s by (intro exI [of _ s]) simp
qed

theorem msq_no_use_after_free_witness:
  "\<exists>s p' q'. msq_reach 1 4096 0 s \<and> msq_exec (pcs s 0) (queue s) = Some (p', q') \<and> pcs s 0 \<noteq> Idle"
proof -
  obtain s where s: "demo_put 0 = Some s" "pcs s 0 \<noteq> Idle" by (simp add: demo_put_def msq_put_def)
  then show ?thesis using msq_no_use_after_free [OF demo_put_reach [OF s(1)] demo_canonical(1), of 0] demo_put_reach [OF s(1)]
    by (intro exI [of _ s]) auto
qed

theorem msq_linked_never_freed_witness:
  "\<exists>s nd. msq_reach 1 4096 0 s \<and> deqd s = [(0, 8192)] \<and> mq_nodes (queue s) 4096 = Some nd \<and> refcount nd = 1"
proof -
  obtain s where s: "msq_reach 1 4096 0 s" "deqd s = [(0, 8192)]" "pcs s 0 = Idle" by (rule demo_taken)
  have "4096 \<in> set (map fst (enqd s))" using reach_fixed [OF s(1)] by (cases "enqd s") auto
  from msq_linked_never_freed [OF s(1) demo_canonical(1) _ this] s show ?thesis by (intro exI [of _ s]) auto
qed

text \<open>A queue with two append bits, as ports have.\<close>

definition checked_enq :: enq where
  "checked_enq = demo_enq\<lparr>e_info := 1, e_chk := True\<rparr>"

lemma checked_put: "map_option show_queue (solo 10 0 (EStore checked_enq, queue (msq_put 0 checked_enq (msq_start 4096 2)), [(4096, 0)], []))
    = Some ([(8192, 1)], [])"
proof -
  have "tp_get_tag 0 = 0" by (simp add: tp_get_tag_def)
  then show ?thesis by (simp add: demo_simps tp_new_inj checked_enq_def append_tag_def check_append app_def)
qed

theorem msq_single_state_witness:
  "\<exists>s st. msq_reach 1 4096 2 s \<and> waiting s = [(8192, 1)] \<and> st \<noteq> 0 \<and> (\<forall>x \<in> set (waiting s). snd x = st)"
proof -
  let ?s = "msq_put 0 checked_enq (msq_start 4096 2)"
  obtain x where x: "solo 10 0 (EStore checked_enq, queue ?s, [(4096, 0)], []) = Some x" "show_queue x = ([(8192, 1)], [])"
    using checked_put by auto
  obtain s where s: "msq_run (replicate 10 0) ?s = Some s" "x = (pcs s 0, queue s, enqd s, deqd s)"
    using solo_run [of 10 0 ?s] x(1) by (cases x) (auto simp: msq_put_def msq_start_def)
  have "enq_request (queue (msq_start 4096 2)) checked_enq"
    by (simp add: enq_request_def demo_canonical checked_enq_def demo_enq_def msq_start_def msq_init_def tp_get_tag_def
        append_info_mask_def tag_step_def)
  then have "msq_reach 1 4096 2 ?s" by (intro msq_put_reach) (simp_all add: msq_start_def msq_reach_def)
  then have r: "msq_reach 1 4096 2 s" using msq_run_reach [OF s(1)] by (simp add: list_all_iff)
  have "waiting s = [(8192, 1)]" using x(2) s(2) by (simp add: show_queue_def waiting_def)
  with msq_single_state [OF r demo_canonical(1)] r show ?thesis by (intro exI [of _ s]) simp
qed

end
