(* ===== verification/Ipc.thy ===== *)
theory Ipc
  imports Kmsg Port
begin

text \<open>
  The send and receive paths of \<^verbatim>\<open>kernel/ipc/ipc.c\<close> and the wake-up of the threads that wait on a closing port
  (\<^verbatim>\<open>port_clean_thread_queue\<close> of \<^verbatim>\<open>kernel/ipc/port.c\<close>).

  Threads, wait requests and ports are records in maps; messages live in the heap of \<open>Message\<close>. The lock-free queues
  are lists with the reference counts of their nodes, and the wait queue of a port keeps the state in its tail; that the
  lock-free code implements such lists is shown in \<open>Ms_Queue_Spec\<close>. A call runs without interruption, except that other
  threads may exit where the code looks for it: \<open>quits\<close> says which threads exit at the next such point. \<open>mem_supply\<close> is
  what \<^verbatim>\<open>m_alloc\<close> answers to the next requests. The result \<open>None\<close> is the use of a freed object, or a queue operation that
  cannot return because the count of its node is zero.
\<close>

section \<open>Threads, requests, ports\<close>

datatype thread_status =
    thread_status_error | thread_status_init | thread_status_running | thread_status_ready | thread_status_zombie
  | thread_status_block_on_send | thread_status_block_on_receive | thread_status_exit

record thread_base =
  t_ref :: int
  t_status :: thread_status
  port_ptr :: "nat option"
  send_msg_queue :: "nat list"
  recv_msg_queue :: "nat list"
  send_pending_msg :: "nat option"
  recv_pending_cnt :: int
  flag_port_closed :: bool  \<comment> \<open>\<open>THREAD_FLAG_IPC_PORT_CLOSED\<close>\<close>

record ipc_request =
  rq_ref :: int
  rq_thread :: nat
  rq_queue :: "nat option"

record msg_port = port +
  wait_q :: "(nat \<times> u16) list"
  tail_state :: u16

record ipc =
  msgs :: msg_heap
  threads :: "nat \<rightharpoonup> thread_base"
  requests :: "nat \<rightharpoonup> ipc_request"
  mports :: "nat \<rightharpoonup> msg_port"
  retired_rq :: "nat list"
  mem_supply :: "nat option list"
  quits :: "nat set list"

definition IPC_PORT_STATE_EMPTY :: u16 where "IPC_PORT_STATE_EMPTY = 0"

definition IPC_PORT_STATE_SEND :: u16 where "IPC_PORT_STATE_SEND = 1"

definition IPC_PORT_STATE_RECV :: u16 where "IPC_PORT_STATE_RECV = 2"

definition ipc_alloc :: "ipc \<Rightarrow> nat option \<times> ipc" where
  "ipc_alloc s = (case mem_supply s of [] \<Rightarrow> (None, s) | a # as \<Rightarrow> (a, s\<lparr>mem_supply := as\<rparr>))"

definition others_run :: "ipc \<Rightarrow> ipc" where
  "others_run s = (case quits s of
       [] \<Rightarrow> s
     | X # qs \<Rightarrow> s\<lparr>quits := qs, threads := (\<lambda>t. map_option (\<lambda>th. if t \<in> X then th\<lparr>t_status := thread_status_exit\<rparr> else th) (threads s t))\<rparr>)"

definition upd_thread :: "nat \<Rightarrow> (thread_base \<Rightarrow> thread_base) \<Rightarrow> ipc \<Rightarrow> ipc option" where
  "upd_thread t f s = do { th \<leftarrow> threads s t; Some (s\<lparr>threads := (threads s)(t \<mapsto> f th)\<rparr>) }"

definition upd_port :: "nat \<Rightarrow> (msg_port \<Rightarrow> msg_port) \<Rightarrow> ipc \<Rightarrow> ipc option" where
  "upd_port p f s = do { mp \<leftarrow> mports s p; Some (s\<lparr>mports := (mports s)(p \<mapsto> f mp)\<rparr>) }"

definition thread_get_status :: "nat \<Rightarrow> ipc \<Rightarrow> thread_status option" where
  "thread_get_status t s = map_option t_status (threads s t)"

definition thread_set_status :: "nat \<Rightarrow> thread_status \<Rightarrow> ipc \<Rightarrow> (thread_status \<times> ipc) option" where
  "thread_set_status t st s = do {
     th \<leftarrow> threads s t;
     s \<leftarrow> upd_thread t (\<lambda>th. th\<lparr>t_status := st\<rparr>) s;
     Some (t_status th, s)
   }"

definition thread_set_status_with_expect :: "nat \<Rightarrow> thread_status \<Rightarrow> thread_status \<Rightarrow> ipc \<Rightarrow> ipc option" where
  "thread_set_status_with_expect t expect_status target_status s =
     upd_thread t (\<lambda>th. if t_status th = expect_status then th\<lparr>t_status := target_status\<rparr> else th) s"

definition cas_port_ptr :: "nat \<Rightarrow> nat option \<Rightarrow> nat option \<Rightarrow> ipc \<Rightarrow> (nat option \<times> ipc) option" where
  "cas_port_ptr t old new s = do {
     th \<leftarrow> threads s t;
     s \<leftarrow> upd_thread t (\<lambda>th. if port_ptr th = old then th\<lparr>port_ptr := new\<rparr> else th) s;
     Some (port_ptr th, s)
   }"

section \<open>Reference counts and queues\<close>

definition message_get :: "nat \<Rightarrow> ipc \<Rightarrow> ipc option" where
  "message_get m s = do {
     ms \<leftarrow> messages (msgs s) m;
     r \<leftarrow> ref_get_not_zero (ms_ref ms);
     Some (s\<lparr>msgs := (msgs s)\<lparr>messages := (messages (msgs s))(m \<mapsto> ms\<lparr>ms_ref := r\<rparr>)\<rparr>\<rparr>)
   }"

definition message_put :: "nat \<Rightarrow> ipc \<Rightarrow> ipc option" where
  "message_put m s = do { h \<leftarrow> put_message (msgs s) m; Some (s\<lparr>msgs := h\<rparr>) }"

definition delete_message :: "nat \<Rightarrow> ipc \<Rightarrow> ipc option" where
  "delete_message m s = do { h \<leftarrow> delete_message_structure (msgs s) (Some m); Some (s\<lparr>msgs := h\<rparr>) }"

text \<open>\<open>msq_enqueue\<close> and \<open>msq_dequeue\<close> on the two message queues of a thread.\<close>

definition enqueue_send :: "nat \<Rightarrow> nat \<Rightarrow> ipc \<Rightarrow> ipc option" where
  "enqueue_send t m s = do {
     s \<leftarrow> message_get m s;
     upd_thread t (\<lambda>th. th\<lparr>send_msg_queue := send_msg_queue th @ [m]\<rparr>) s
   }"

definition enqueue_recv :: "nat \<Rightarrow> nat \<Rightarrow> ipc \<Rightarrow> ipc option" where
  "enqueue_recv t m s = do {
     s \<leftarrow> message_get m s;
     upd_thread t (\<lambda>th. th\<lparr>recv_msg_queue := recv_msg_queue th @ [m]\<rparr>) s
   }"

definition dequeue_send :: "nat \<Rightarrow> ipc \<Rightarrow> (nat option \<times> ipc) option" where
  "dequeue_send t s = do {
     th \<leftarrow> threads s t;
     (case send_msg_queue th of
        [] \<Rightarrow> Some (None, s)
      | m # ms \<Rightarrow> do {
          s \<leftarrow> message_get m s;
          s \<leftarrow> upd_thread t (\<lambda>th. th\<lparr>send_msg_queue := ms\<rparr>) s;
          Some (Some m, s)
        })
   }"

definition dequeue_recv :: "nat \<Rightarrow> ipc \<Rightarrow> (nat option \<times> ipc) option" where
  "dequeue_recv t s = do {
     th \<leftarrow> threads s t;
     (case recv_msg_queue th of
        [] \<Rightarrow> Some (None, s)
      | m # ms \<Rightarrow> do {
          s \<leftarrow> message_get m s;
          s \<leftarrow> upd_thread t (\<lambda>th. th\<lparr>recv_msg_queue := ms\<rparr>) s;
          Some (Some m, s)
        })
   }"

definition exchange_pending :: "nat \<Rightarrow> nat option \<Rightarrow> ipc \<Rightarrow> (nat option \<times> ipc) option" where
  "exchange_pending t new s = do {
     th \<leftarrow> threads s t;
     s \<leftarrow> upd_thread t (\<lambda>th. th\<lparr>send_pending_msg := new\<rparr>) s;
     Some (send_pending_msg th, s)
   }"

text \<open>\<open>atomic64_cas\<close> of \<open>send_pending_msg\<close> from \<open>NULL\<close>, and the value it saw.\<close>

definition cas_pending :: "nat \<Rightarrow> nat \<Rightarrow> ipc \<Rightarrow> (nat option \<times> ipc) option" where
  "cas_pending t m s = do {
     th \<leftarrow> threads s t;
     s \<leftarrow> upd_thread t (\<lambda>th. if send_pending_msg th = None then th\<lparr>send_pending_msg := Some m\<rparr> else th) s;
     Some (send_pending_msg th, s)
   }"

definition drop_pending :: "nat \<Rightarrow> ipc \<Rightarrow> ipc option" where
  "drop_pending sender s = do {
     (pending, s) \<leftarrow> exchange_pending sender None s;
     (case pending of None \<Rightarrow> Some s | Some m \<Rightarrow> message_put m s)
   }"

definition ipc_drop_one_orphan_send_msg :: "nat \<Rightarrow> ipc \<Rightarrow> ipc option" where
  "ipc_drop_one_orphan_send_msg sender s = do {
     (msg, s) \<leftarrow> exchange_pending sender None s;
     (case msg of
        Some m \<Rightarrow> message_put m s
      | None \<Rightarrow> do {
          (deq, s) \<leftarrow> dequeue_send sender s;
          (case deq of None \<Rightarrow> Some s | Some m \<Rightarrow> message_put m s)
        })
   }"

section \<open>Wait requests\<close>

definition request_get :: "nat \<Rightarrow> ipc \<Rightarrow> ipc option" where
  "request_get r s = do {
     rq \<leftarrow> requests s r;
     c \<leftarrow> ref_get_not_zero (rq_ref rq);
     Some (s\<lparr>requests := (requests s)(r \<mapsto> rq\<lparr>rq_ref := c\<rparr>)\<rparr>)
   }"

text \<open>\<open>ref_put\<close> with \<open>free_ipc_request\<close>, which hands the request to the deferred reclamation.\<close>

definition request_put :: "nat \<Rightarrow> ipc \<Rightarrow> ipc option" where
  "request_put r s = do {
     rq \<leftarrow> requests s r;
     let (c, freed) = ref_put (rq_ref rq) True;
     let s = s\<lparr>requests := (requests s)(r \<mapsto> rq\<lparr>rq_ref := c\<rparr>)\<rparr>;
     Some (if freed then s\<lparr>retired_rq := retired_rq s @ [r]\<rparr> else s)
   }"

definition create_ipc_request :: "nat \<Rightarrow> ipc \<Rightarrow> (nat option \<times> ipc) option" where
  "create_ipc_request t s =
     (case ipc_alloc s of
        (None, s) \<Rightarrow> Some (None, s)
      | (Some r, s) \<Rightarrow> do {
          th \<leftarrow> threads s t;
          (case ref_get_not_zero (t_ref th) of
             None \<Rightarrow> Some (None, s)
           | Some c \<Rightarrow>
               Some (Some r, s\<lparr>threads := (threads s)(t \<mapsto> th\<lparr>t_ref := c\<rparr>),
                 requests := (requests s)(r \<mapsto> \<lparr>rq_ref = ref_init, rq_thread = t, rq_queue = None\<rparr>)\<rparr>))
        })"

text \<open>
  The last reference to a thread: \<open>free_thread_ref\<close> releases the messages the thread has and frees the structure. The
  loops are \<open>msq_clean_queue\<close>, with the messages that were queued when it began as a bound.
\<close>

fun clean_send_queue :: "nat list \<Rightarrow> nat \<Rightarrow> ipc \<Rightarrow> ipc option" where
  "clean_send_queue [] t s = do {
     (deq, s) \<leftarrow> dequeue_send t s;
     (case deq of None \<Rightarrow> Some s | Some _ \<Rightarrow> None)
   }"
| "clean_send_queue (_ # ms) t s = do {
     (deq, s) \<leftarrow> dequeue_send t s;
     (case deq of None \<Rightarrow> Some s | Some m \<Rightarrow> do { s \<leftarrow> message_put m s; clean_send_queue ms t s })
   }"

fun clean_recv_queue :: "nat list \<Rightarrow> nat \<Rightarrow> ipc \<Rightarrow> ipc option" where
  "clean_recv_queue [] t s = do {
     (deq, s) \<leftarrow> dequeue_recv t s;
     (case deq of None \<Rightarrow> Some s | Some _ \<Rightarrow> None)
   }"
| "clean_recv_queue (_ # ms) t s = do {
     (deq, s) \<leftarrow> dequeue_recv t s;
     (case deq of None \<Rightarrow> Some s | Some m \<Rightarrow> do { s \<leftarrow> message_put m s; clean_recv_queue ms t s })
   }"

definition thread_release_owned_resources :: "nat \<Rightarrow> ipc \<Rightarrow> ipc option" where
  "thread_release_owned_resources t s = do {
     s \<leftarrow> drop_pending t s;
     th \<leftarrow> threads s t;
     s \<leftarrow> clean_send_queue (send_msg_queue th) t s;
     th \<leftarrow> threads s t;
     s \<leftarrow> clean_recv_queue (recv_msg_queue th) t s;
     upd_thread t (\<lambda>th. th\<lparr>port_ptr := None\<rparr>) s
   }"

definition thread_put :: "nat \<Rightarrow> ipc \<Rightarrow> ipc option" where
  "thread_put t s = do {
     th \<leftarrow> threads s t;
     let (c, freed) = ref_put (t_ref th) True;
     s \<leftarrow> upd_thread t (\<lambda>th. th\<lparr>t_ref := c\<rparr>) s;
     if freed then do {
       s \<leftarrow> thread_release_owned_resources t s;
       Some (s\<lparr>threads := (threads s)(t := None)\<rparr>)
     }
     else Some s
   }"

definition delete_ipc_request :: "nat \<Rightarrow> ipc \<Rightarrow> ipc option" where
  "delete_ipc_request r s = do {
     rq \<leftarrow> requests s r;
     s \<leftarrow> thread_put (rq_thread rq) s;
     Some (s\<lparr>requests := (requests s)(r := None)\<rparr>)
   }"

text \<open>The deferred call of \<open>free_ipc_request_real\<close>.\<close>

definition reclaim_request :: "ipc \<Rightarrow> ipc option" where
  "reclaim_request s =
     (case retired_rq s of [] \<Rightarrow> Some s | r # rs \<Rightarrow> delete_ipc_request r (s\<lparr>retired_rq := rs\<rparr>))"

text \<open>\<open>msq_dequeue_check_head\<close> on the wait queue: only a head of the state asked for is taken, and the tail of a queue that
  becomes empty loses its state. \<open>msq_dequeue\<close> takes any head and leaves the tail alone.\<close>

definition wait_dequeue_check :: "nat \<Rightarrow> u16 \<Rightarrow> ipc \<Rightarrow> (nat option \<times> ipc) option" where
  "wait_dequeue_check p want s = do {
     mp \<leftarrow> mports s p;
     (case wait_q mp of
        [] \<Rightarrow> Some (None, s)
      | (r, st) # ws \<Rightarrow>
          if st \<noteq> want then Some (None, s)
          else do {
            s \<leftarrow> request_get r s;
            s \<leftarrow> upd_port p (\<lambda>mp. mp\<lparr>wait_q := ws, tail_state := (if ws = [] then IPC_PORT_STATE_EMPTY else tail_state mp)\<rparr>) s;
            Some (Some r, s)
          })
   }"

definition wait_dequeue :: "nat \<Rightarrow> ipc \<Rightarrow> (nat option \<times> ipc) option" where
  "wait_dequeue p s = do {
     mp \<leftarrow> mports s p;
     (case wait_q mp of
        [] \<Rightarrow> Some (None, s)
      | (r, st) # ws \<Rightarrow> do {
          s \<leftarrow> request_get r s;
          s \<leftarrow> upd_port p (\<lambda>mp. mp\<lparr>wait_q := ws\<rparr>) s;
          Some (Some r, s)
        })
   }"

definition wait_enqueue_check :: "nat \<Rightarrow> nat \<Rightarrow> u16 \<Rightarrow> u16 \<Rightarrow> ipc \<Rightarrow> (error_t \<times> ipc) option" where
  "wait_enqueue_check p r st expected s = do {
     mp \<leftarrow> mports s p;
     if tail_state mp \<noteq> expected then Some (E_REND_AGAIN, s)
     else do {
       s \<leftarrow> request_get r s;
       s \<leftarrow> upd_port p (\<lambda>mp. mp\<lparr>wait_q := wait_q mp @ [(r, st)], tail_state := st\<rparr>) s;
       Some (REND_SUCCESS, s)
     }
   }"

section \<open>Matching and waiting\<close>

text \<open>The loop of \<open>ipc_port_try_match\<close>; \<open>ws\<close> are the requests that waited when it began, so no more can be taken.\<close>

fun match_loop :: "(nat \<times> u16) list \<Rightarrow> nat \<Rightarrow> u16 \<Rightarrow> thread_status \<Rightarrow> ipc \<Rightarrow> (nat option \<times> ipc) option" where
  "match_loop [] p want want_status s = do {
     (deq, s) \<leftarrow> wait_dequeue_check p want s;
     (case deq of None \<Rightarrow> Some (None, s) | Some _ \<Rightarrow> None)
   }"
| "match_loop (_ # ws) p want want_status s = do {
     (deq, s) \<leftarrow> wait_dequeue_check p want s;
     (case deq of
        None \<Rightarrow> Some (None, s)
      | Some r \<Rightarrow> do {
          rq \<leftarrow> requests s r;
          st \<leftarrow> thread_get_status (rq_thread rq) s;
          (seen, s) \<leftarrow> cas_port_ptr (rq_thread rq) (Some p) None s;
          if st \<noteq> want_status \<or> seen \<noteq> Some p
          then do { s \<leftarrow> request_put r s; match_loop ws p want want_status s }
          else Some (Some r, s)
        })
   }"

definition ipc_port_try_match :: "nat \<Rightarrow> u16 \<Rightarrow> ipc \<Rightarrow> (nat option \<times> ipc) option" where
  "ipc_port_try_match p my_ipc_state s = do {
     mp \<leftarrow> mports s p;
     let sending = (my_ipc_state = IPC_PORT_STATE_SEND);
     match_loop (wait_q mp) p (if sending then IPC_PORT_STATE_RECV else IPC_PORT_STATE_SEND)
       (if sending then thread_status_block_on_receive else thread_status_block_on_send) s
   }"

definition ipc_get_queue_state :: "nat \<Rightarrow> ipc \<Rightarrow> u16 option" where
  "ipc_get_queue_state p s = map_option tail_state (mports s p)"

definition ipc_port_enqueue_wait :: "nat \<Rightarrow> u16 \<Rightarrow> nat \<Rightarrow> ipc \<Rightarrow> (error_t \<times> ipc) option" where
  "ipc_port_enqueue_wait p my_ipc_state my_thread s = do {
     tail_ipc_state \<leftarrow> ipc_get_queue_state p s;
     let queue_ipc_state = take_bit 8 tail_ipc_state;  \<comment> \<open>held in a \<open>u8\<close>\<close>
     if queue_ipc_state \<noteq> IPC_PORT_STATE_EMPTY \<and> queue_ipc_state \<noteq> my_ipc_state then Some (E_REND_AGAIN, s)
     else do {
       (req, s) \<leftarrow> create_ipc_request my_thread s;
       (case req of
          None \<Rightarrow> Some (E_REND_IPC, s)
        | Some r \<Rightarrow> do {
            rq \<leftarrow> requests s r;
            let s = s\<lparr>requests := (requests s)(r \<mapsto> rq\<lparr>rq_queue := Some p\<rparr>)\<rparr>;
            (seen, s) \<leftarrow> cas_port_ptr my_thread None (Some p) s;
            (ret, s) \<leftarrow>
              (if seen \<noteq> None then Some (E_REND_AGAIN, s)
               else do {
                 (ret, s) \<leftarrow> wait_enqueue_check p r my_ipc_state queue_ipc_state s;
                 if ret \<noteq> REND_SUCCESS
                 then do { s \<leftarrow> upd_thread my_thread (\<lambda>th. th\<lparr>port_ptr := None\<rparr>) s; Some (ret, s) }
                 else Some (ret, s)
               });
            s \<leftarrow> request_put r s;
            Some (ret, s)
          })
     }
   }"

section \<open>Transfer\<close>

definition ipc_transfer_message :: "nat \<Rightarrow> nat \<Rightarrow> ipc \<Rightarrow> (error_t \<times> ipc) option" where
  "ipc_transfer_message sender rcv s = do {
     st \<leftarrow> thread_get_status rcv s;
     if st = thread_status_exit then Some (E_REND_AGAIN, s)
     else (case ipc_alloc s of
       (None, s) \<Rightarrow> Some (E_RENDEZVOS, s)
     | (Some recv_msg, s) \<Rightarrow> do {
         let s = s\<lparr>msgs := fst (create_message_structure (Some recv_msg) (msgs s))\<rparr>;
         (pending, s) \<leftarrow> exchange_pending sender None s;
         (send_msg, s) \<leftarrow>
           (case pending of
              Some m \<Rightarrow> Some (Some m, s)
            | None \<Rightarrow> do {
                (deq, s) \<leftarrow> dequeue_send sender s;
                (case deq of
                   None \<Rightarrow> do { s \<leftarrow> delete_message recv_msg s; Some (None, s) }
                 | Some m \<Rightarrow> do {
                     let s = others_run s;
                     st \<leftarrow> thread_get_status sender s;
                     if st = thread_status_exit
                     then do { s \<leftarrow> message_put m s; s \<leftarrow> delete_message recv_msg s; Some (None, s) }
                     else Some (Some m, s)
                   })
              });
         (case send_msg of
            None \<Rightarrow> Some (E_REND_NO_MSG, s)
          | Some m \<Rightarrow> do {
              ms \<leftarrow> messages (msgs s) m;
              (h, e) \<leftarrow> fill_message_data (msgs s) (Some recv_msg) (m_data ms);
              let s = s\<lparr>msgs := h\<rparr>;
              if e \<noteq> REND_SUCCESS
              then do { s \<leftarrow> message_put m s; s \<leftarrow> delete_message recv_msg s; Some (E_REND_NO_MSG, s) }
              else do {
                s \<leftarrow> enqueue_recv rcv recv_msg s;
                s \<leftarrow> message_put recv_msg s;
                s \<leftarrow> upd_thread rcv (\<lambda>th. th\<lparr>recv_pending_cnt := recv_pending_cnt th + 1\<rparr>) s;
                let s = others_run s;
                st \<leftarrow> thread_get_status rcv s;
                if st = thread_status_exit
                then do {
                  (seen, s) \<leftarrow> cas_pending sender m s;
                  if seen \<noteq> None then do { s \<leftarrow> message_put m s; Some (E_RENDEZVOS, s) }
                  else Some (E_REND_AGAIN, s)
                }
                else do { s \<leftarrow> message_put m s; Some (REND_SUCCESS, s) }
              }
            })
       })
   }"

section \<open>Send and receive\<close>

text \<open>What a call has done when it stops running: it returned, it sleeps in the wait queue, or it is still in its loop after
  the number of rounds given.\<close>

datatype ipc_out = Returned error_t | Sleeps | Looping

definition port_ops_begin :: "(nat \<Rightarrow> port_ops_type \<Rightarrow> error_t) \<Rightarrow> nat \<Rightarrow> port_ops_type \<Rightarrow> ipc \<Rightarrow> (bool \<times> ipc) option" where
  "port_ops_begin allow p op_type s = do {
     mp \<leftarrow> mports s p;
     if op_type \<notin> {PORT_OPS_SEND, PORT_OPS_RECV} \<or> ops_life mp \<noteq> LIFE_REGISTERED \<or> allow p op_type \<noteq> REND_SUCCESS then Some (False, s)
     else do { s \<leftarrow> upd_port p (\<lambda>mp. mp\<lparr>ops_count := ops_count mp + 1\<rparr>) s; Some (True, s) }
   }"

definition port_ops_end :: "nat \<Rightarrow> ipc \<Rightarrow> ipc option" where
  "port_ops_end p s = upd_port p (\<lambda>mp. mp\<lparr>ops_count := ops_count mp - 1\<rparr>) s"

text \<open>The branch of a send or receive that found no partner; \<open>None\<close> in the result asks for another round.\<close>

definition block_on_port :: "nat \<Rightarrow> u16 \<Rightarrow> nat \<Rightarrow> thread_status \<Rightarrow> ipc \<Rightarrow> (ipc_out option \<times> ipc) option" where
  "block_on_port p my_ipc_state me blocked s = do {
     (old_status, s) \<leftarrow> thread_set_status me blocked s;
     (enqueue_result, s) \<leftarrow> ipc_port_enqueue_wait p my_ipc_state me s;
     if enqueue_result = REND_SUCCESS then do { s \<leftarrow> port_ops_end p s; Some (Some Sleeps, s) }
     else do {
       s \<leftarrow> thread_set_status_with_expect me blocked old_status s;
       if enqueue_result = E_REND_AGAIN then Some (None, s)
       else do { s \<leftarrow> port_ops_end p s; Some (Some (Returned E_RENDEZVOS), s) }
     }
   }"

definition finish_match :: "nat \<Rightarrow> nat \<Rightarrow> ipc \<Rightarrow> ipc option" where
  "finish_match p r s = do { s \<leftarrow> request_put r s; port_ops_end p s }"

fun send_loop :: "nat \<Rightarrow> bool \<Rightarrow> nat \<Rightarrow> nat \<Rightarrow> ipc \<Rightarrow> (ipc_out \<times> ipc) option" where
  "send_loop 0 blocking p sender s = Some (Looping, s)"
| "send_loop (Suc k) blocking p sender s = do {
     (req, s) \<leftarrow> ipc_port_try_match p IPC_PORT_STATE_SEND s;
     (case req of
        Some r \<Rightarrow> do {
          rq \<leftarrow> requests s r;
          (res, s) \<leftarrow> ipc_transfer_message sender (rq_thread rq) s;
          if res = REND_SUCCESS then do {
            s \<leftarrow> thread_set_status_with_expect (rq_thread rq) thread_status_block_on_receive thread_status_ready s;
            s \<leftarrow> finish_match p r s;
            Some (Returned REND_SUCCESS, s)
          }
          else if res = E_REND_AGAIN then do { s \<leftarrow> request_put r s; send_loop k blocking p sender s }
          else do { s \<leftarrow> finish_match p r s; Some (Returned res, s) }
        }
      | None \<Rightarrow>
          if \<not> blocking then do { s \<leftarrow> port_ops_end p s; Some (Returned E_REND_AGAIN, s) }
          else do {
            (out, s) \<leftarrow> block_on_port p IPC_PORT_STATE_SEND sender thread_status_block_on_send s;
            (case out of Some out \<Rightarrow> Some (out, s) | None \<Rightarrow> send_loop k blocking p sender s)
          })
   }"

text \<open>In the receive loop \<open>held\<close> is \<open>sender_request\<close>: after \<open>E_REND_NO_MSG\<close> the next round still has it.\<close>

fun recv_loop :: "nat \<Rightarrow> bool \<Rightarrow> nat option \<Rightarrow> nat \<Rightarrow> nat \<Rightarrow> ipc \<Rightarrow> (ipc_out \<times> ipc) option" where
  "recv_loop 0 blocking held p rcv s = Some (Looping, s)"
| "recv_loop (Suc k) blocking held p rcv s = do {
     (req, s) \<leftarrow> (case held of Some r \<Rightarrow> Some (Some r, s) | None \<Rightarrow> ipc_port_try_match p IPC_PORT_STATE_RECV s);
     (case req of
        Some r \<Rightarrow> do {
          rq \<leftarrow> requests s r;
          (res, s) \<leftarrow> ipc_transfer_message (rq_thread rq) rcv s;
          if res = REND_SUCCESS then do {
            s \<leftarrow> thread_set_status_with_expect (rq_thread rq) thread_status_block_on_send thread_status_ready s;
            s \<leftarrow> finish_match p r s;
            Some (Returned REND_SUCCESS, s)
          }
          else if res = E_REND_NO_MSG then recv_loop k blocking (Some r) p rcv s
          else if res = E_REND_AGAIN then do { s \<leftarrow> finish_match p r s; Some (Returned E_RENDEZVOS, s) }
          else do { s \<leftarrow> finish_match p r s; Some (Returned res, s) }
        }
      | None \<Rightarrow>
          if \<not> blocking then do { s \<leftarrow> port_ops_end p s; Some (Returned E_REND_AGAIN, s) }
          else do {
            (out, s) \<leftarrow> block_on_port p IPC_PORT_STATE_RECV rcv thread_status_block_on_receive s;
            (case out of Some out \<Rightarrow> Some (out, s) | None \<Rightarrow> recv_loop k blocking None p rcv s)
          })
   }"

text \<open>The calls up to their return or their \<open>schedule\<close>, with at most \<open>k\<close> rounds; \<open>me\<close> is the current thread.\<close>

definition send_msg :: "nat \<Rightarrow> (nat \<Rightarrow> port_ops_type \<Rightarrow> error_t) \<Rightarrow> nat \<Rightarrow> nat \<Rightarrow> ipc \<Rightarrow> (ipc_out \<times> ipc) option" where
  "send_msg k allow p me s = do {
     (ok, s) \<leftarrow> port_ops_begin allow p PORT_OPS_SEND s;
     if \<not> ok then do { s \<leftarrow> ipc_drop_one_orphan_send_msg me s; Some (Returned E_REND_PORT_CLOSED, s) }
     else send_loop k True p me s
   }"

definition recv_msg :: "nat \<Rightarrow> (nat \<Rightarrow> port_ops_type \<Rightarrow> error_t) \<Rightarrow> nat \<Rightarrow> nat \<Rightarrow> ipc \<Rightarrow> (ipc_out \<times> ipc) option" where
  "recv_msg k allow p me s = do {
     (ok, s) \<leftarrow> port_ops_begin allow p PORT_OPS_RECV s;
     if \<not> ok then Some (Returned E_REND_PORT_CLOSED, s) else recv_loop k True None p me s
   }"

definition ipc_try_send_msg :: "nat \<Rightarrow> (nat \<Rightarrow> port_ops_type \<Rightarrow> error_t) \<Rightarrow> nat \<Rightarrow> nat \<Rightarrow> ipc \<Rightarrow> (ipc_out \<times> ipc) option" where
  "ipc_try_send_msg k allow p me s = do {
     (ok, s) \<leftarrow> port_ops_begin allow p PORT_OPS_SEND s;
     if \<not> ok then do { s \<leftarrow> ipc_drop_one_orphan_send_msg me s; Some (Returned E_REND_PORT_CLOSED, s) }
     else send_loop k False p me s
   }"

definition ipc_try_recv_msg :: "nat \<Rightarrow> (nat \<Rightarrow> port_ops_type \<Rightarrow> error_t) \<Rightarrow> nat \<Rightarrow> nat \<Rightarrow> ipc \<Rightarrow> (ipc_out \<times> ipc) option" where
  "ipc_try_recv_msg k allow p me s = do {
     (ok, s) \<leftarrow> port_ops_begin allow p PORT_OPS_RECV s;
     if \<not> ok then Some (Returned E_REND_PORT_CLOSED, s) else recv_loop k False None p me s
   }"

text \<open>What follows the \<open>schedule\<close> of a blocked send and of a blocked receive.\<close>

definition send_woken :: "nat \<Rightarrow> ipc \<Rightarrow> (error_t \<times> ipc) option" where
  "send_woken me s = do {
     th \<leftarrow> threads s me;
     if flag_port_closed th then do {
       s \<leftarrow> upd_thread me (\<lambda>th. th\<lparr>flag_port_closed := False\<rparr>) s;
       s \<leftarrow> ipc_drop_one_orphan_send_msg me s;
       Some (E_REND_PORT_CLOSED, s)
     }
     else Some (REND_SUCCESS, s)
   }"

definition recv_woken :: "nat \<Rightarrow> ipc \<Rightarrow> (error_t \<times> ipc) option" where
  "recv_woken me s = do {
     th \<leftarrow> threads s me;
     if flag_port_closed th then do {
       s \<leftarrow> upd_thread me (\<lambda>th. th\<lparr>flag_port_closed := False\<rparr>) s;
       Some (E_REND_PORT_CLOSED, s)
     }
     else Some (REND_SUCCESS, s)
   }"

section \<open>Messages in and out, system delivery\<close>

text \<open>The test that a message and its payload have live counts.\<close>

definition live_refs :: "nat \<Rightarrow> ipc \<Rightarrow> bool option" where
  "live_refs m s = do {
     ms \<leftarrow> messages (msgs s) m;
     if ms_ref ms = 0 then Some False
     else (case m_data ms of
        None \<Rightarrow> Some True
      | Some d \<Rightarrow> do { md \<leftarrow> datas (msgs s) d; Some (md_ref md \<noteq> 0) })
   }"

definition enqueue_msg_for_send :: "nat \<Rightarrow> nat \<Rightarrow> ipc \<Rightarrow> (error_t \<times> ipc) option" where
  "enqueue_msg_for_send m me s = do {
     live \<leftarrow> live_refs m s;
     if \<not> live then Some (E_REND_IPC, s)
     else do {
       s \<leftarrow> enqueue_send me m s;
       s \<leftarrow> message_put m s;
       Some (REND_SUCCESS, s)
     }
   }"

definition dequeue_recv_msg :: "nat \<Rightarrow> ipc \<Rightarrow> (nat option \<times> ipc) option" where
  "dequeue_recv_msg me s = do {
     (deq, s) \<leftarrow> dequeue_recv me s;
     (case deq of
        None \<Rightarrow> Some (None, s)
      | Some m \<Rightarrow> do {
          s \<leftarrow> upd_thread me (\<lambda>th. th\<lparr>recv_pending_cnt := recv_pending_cnt th - 1\<rparr>) s;
          Some (Some m, s)
        })
   }"

text \<open>\<open>sender\<close> is the idle thread of the CPU or the current thread, as \<open>use_system_proxy\<close> says.\<close>

definition ipc_system_try_deliver ::
    "nat \<Rightarrow> (nat \<Rightarrow> port_ops_type \<Rightarrow> error_t) \<Rightarrow> nat \<Rightarrow> nat \<Rightarrow> nat \<Rightarrow> ipc \<Rightarrow> (ipc_out \<times> ipc) option" where
  "ipc_system_try_deliver k allow p m sender s = do {
     live \<leftarrow> live_refs m s;
     if \<not> live then Some (Returned E_REND_IPC, s)
     else do {
       (seen, s) \<leftarrow> cas_pending sender m s;
       if seen \<noteq> None then Some (Returned E_REND_IPC, s)
       else do {
         (out, s) \<leftarrow> ipc_try_send_msg k allow p sender s;
         if out = Looping \<or> out = Returned REND_SUCCESS then Some (out, s)
         else do { s \<leftarrow> drop_pending sender s; Some (out, s) }
       }
     }
   }"

definition ipc_system_deliver_to :: "nat \<Rightarrow> nat \<Rightarrow> nat \<Rightarrow> ipc \<Rightarrow> (error_t \<times> ipc) option" where
  "ipc_system_deliver_to rcv m sender s = do {
     live \<leftarrow> live_refs m s;
     if \<not> live then Some (E_REND_IPC, s)
     else do {
       (seen, s) \<leftarrow> cas_pending sender m s;
       if seen \<noteq> None then Some (E_REND_IPC, s)
       else do {
         (err, s) \<leftarrow> ipc_transfer_message sender rcv s;
         if err \<noteq> REND_SUCCESS then do { s \<leftarrow> drop_pending sender s; Some (err, s) }
         else Some (err, s)
       }
     }
   }"

section \<open>Closing a port\<close>

definition KMSG_OP_SYSTEM_PORT_CLOSED :: u16 where "KMSG_OP_SYSTEM_PORT_CLOSED = 5"

definition KMSG_FMT_SYSTEM_PORT_CLOSED :: string where "KMSG_FMT_SYSTEM_PORT_CLOSED = ''q''"

text \<open>The message that tells a blocked receiver about the close; \<open>None\<close> where an allocation failed.\<close>

definition closed_message :: "nat \<Rightarrow> ipc \<Rightarrow> (nat option \<times> ipc) option" where
  "closed_message p s = do {
     mp \<leftarrow> mports s p;
     let (km, s) = ipc_alloc s;
     let (md, s) = ipc_alloc s;
     (case kmsg_create km md (msgs s) (service_id mp) KMSG_OP_SYSTEM_PORT_CLOSED (Some KMSG_FMT_SYSTEM_PORT_CLOSED, [VI64 0]) of
        Undef \<Rightarrow> None
      | Err _ \<Rightarrow> None
      | Ok (h, None) \<Rightarrow> Some (None, s\<lparr>msgs := h\<rparr>)
      | Ok (h, Some d) \<Rightarrow> do {
          let (a, s) = ipc_alloc s;
          (h, msg) \<leftarrow> create_message_with_msg a h (Some d);
          h \<leftarrow> put_msgdata h d FREE_DEFAULT;
          Some (msg, s\<lparr>msgs := h\<rparr>)
        })
   }"

definition wake_receiver :: "nat \<Rightarrow> nat \<Rightarrow> nat \<Rightarrow> ipc \<Rightarrow> ipc option" where
  "wake_receiver p t me s = do {
     (_, s) \<leftarrow> cas_port_ptr t (Some p) None s;
     (msg, s) \<leftarrow> closed_message p s;
     s \<leftarrow> (case msg of
            None \<Rightarrow> Some s
          | Some m \<Rightarrow> do {
              (err, s) \<leftarrow> ipc_system_deliver_to t m me s;
              if err \<noteq> REND_SUCCESS then message_put m s else Some s
            });
     s \<leftarrow> thread_set_status_with_expect t thread_status_block_on_receive thread_status_ready s;
     upd_thread t (\<lambda>th. if recv_pending_cnt th = 0 then th\<lparr>flag_port_closed := True\<rparr> else th) s
   }"

definition wake_sender :: "nat \<Rightarrow> nat \<Rightarrow> ipc \<Rightarrow> ipc option" where
  "wake_sender p t s = do {
     (_, s) \<leftarrow> cas_port_ptr t (Some p) None s;
     s \<leftarrow> upd_thread t (\<lambda>th. th\<lparr>flag_port_closed := True\<rparr>) s;
     thread_set_status_with_expect t thread_status_block_on_send thread_status_ready s
   }"

fun clean_loop :: "(nat \<times> u16) list \<Rightarrow> nat \<Rightarrow> nat \<Rightarrow> ipc \<Rightarrow> ipc option" where
  "clean_loop [] p me s = Some s"
| "clean_loop (_ # ws) p me s = do {
     (deq, s) \<leftarrow> wait_dequeue p s;
     (case deq of
        None \<Rightarrow> Some s
      | Some r \<Rightarrow> do {
          rq \<leftarrow> requests s r;
          st \<leftarrow> thread_get_status (rq_thread rq) s;
          s \<leftarrow> (if st = thread_status_block_on_receive then wake_receiver p (rq_thread rq) me s
                else if st = thread_status_block_on_send then wake_sender p (rq_thread rq) s
                else Some s);
          s \<leftarrow> request_put r s;
          clean_loop ws p me s
        })
   }"

definition port_clean_thread_queue :: "nat \<Rightarrow> nat \<Rightarrow> ipc \<Rightarrow> ipc option" where
  "port_clean_thread_queue p me s = do { mp \<leftarrow> mports s p; clean_loop (wait_q mp) p me s }"

end
