(* ===== verification/Ipc_Inv.thy ===== *)
theory Ipc_Inv
  imports Ipc "HOL-Library.Multiset"
begin

text \<open>
  The invariant of the send and receive paths: counts of messages, requests and threads cover the references that
  queues, threads and running calls hold, and the requests that wait on a registered port share one state. Every
  call of \<open>Ipc\<close> keeps it and touches no freed object.
\<close>

section \<open>Sums over maps\<close>

definition msum :: "('v \<Rightarrow> nat) \<Rightarrow> ('k \<rightharpoonup> 'v) \<Rightarrow> nat" where
  "msum f m = (\<Sum>k \<in> dom m. f (the (m k)))"

lemma msum_remove:
  assumes "finite (dom m)" "m k = Some v"
  shows "msum f m = f v + msum f (m(k := None))"
proof -
  have "dom m = insert k (dom m - {k})" using assms(2) by auto
  then have "sum g (dom m) = g k + sum g (dom m - {k})" for g :: "'a \<Rightarrow> nat"
    using assms(1) by (metis finite_insert insert_Diff_single sum.insert_remove)
  then have "msum f m = f (the (m k)) + (\<Sum>i \<in> dom (m(k := None)). f (the (m i)))"
    unfolding msum_def by simp
  moreover have "(\<Sum>i \<in> dom (m(k := None)). f (the (m i))) = msum f (m(k := None))"
    unfolding msum_def by (intro sum.cong) auto
  ultimately show ?thesis using assms(2) by simp
qed

lemma msum_upd:
  assumes "finite (dom m)" "m k = Some v"
  shows "msum f (m(k \<mapsto> v')) + f v = msum f m + f v'"
  using msum_remove [OF assms, of f] msum_remove [of "m(k \<mapsto> v')" k v' f] assms(1) by simp

lemma msum_new:
  assumes "finite (dom m)" "m k = None"
  shows "msum f (m(k \<mapsto> v)) = msum f m + f v"
proof -
  have "m(k := None) = m" using assms(2) by auto
  then show ?thesis using msum_remove [of "m(k \<mapsto> v)" k v f] assms(1) by simp
qed

lemma msum_ge: "finite (dom m) \<Longrightarrow> m k = Some v \<Longrightarrow> f v \<le> msum f m"
  using msum_remove [of m k v f] by simp

lemma msum_map_cong:
  assumes "\<And>k v. f (g k v) = f v"
  shows "msum f (\<lambda>k. map_option (g k) (m k)) = msum f m"
proof -
  have "dom (\<lambda>k. map_option (g k) (m k)) = dom m" by auto
  then show ?thesis unfolding msum_def using assms by (auto intro!: sum.cong)
qed

section \<open>Messages\<close>

lemma get_message_inv:
  assumes inv: "msg_inv ext mext h" and m: "0 < mext m"
  obtains ms where "messages h m = Some ms" "ref_get_not_zero (ms_ref ms) = Some (ms_ref ms + 1)"
    "msg_inv ext (mext(m := mext m + 1)) (h\<lparr>messages := (messages h)(m \<mapsto> ms\<lparr>ms_ref := ms_ref ms + 1\<rparr>)\<rparr>)"
proof -
  note i = msg_invD [OF inv]
  obtain ms where ms: "messages h m = Some ms" using live_message [OF inv m] by blast
  have r: "ms_ref ms = int (mext m)" "m \<notin> set (retired h)"
    using i(2) [of m] ms m by (simp_all add: message_ok_def)
  let ?h = "h\<lparr>messages := (messages h)(m \<mapsto> ms\<lparr>ms_ref := ms_ref ms + 1\<rparr>)\<rparr>"
  have "holders ?h d = holders h d" for d
    using holders_upd [OF i(5), of m "Some (ms\<lparr>ms_ref := ms_ref ms + 1\<rparr>)" d] ms
    by (simp add: points_def split: if_splits)
  then have "data_ok ext ?h d" for d
    using i(1) [of d] by (simp add: data_ok_def split: option.splits)
  moreover have "message_ok (mext(m := mext m + 1)) ?h m'" for m'
    using i(2) [of m'] r m by (auto simp: message_ok_def split: option.splits)
  ultimately have "msg_inv ext (mext(m := mext m + 1)) ?h"
    using i(3-5) by (intro msg_invI) (simp_all add: owners_distinct_def)
  moreover have "ref_get_not_zero (ms_ref ms) = Some (ms_ref ms + 1)" using r m by (simp add: ref_get_not_zero_def)
  ultimately show thesis using that ms by blast
qed

text \<open>A message that only its creator has and that carries no payload can be freed directly.\<close>

lemma delete_message_inv:
  assumes inv: "msg_inv ext mext h" and m: "messages h m = Some ms" "m_data ms = None" "mext m = 1"
  shows "delete_message_structure h (Some m) = Some (h\<lparr>messages := (messages h)(m := None)\<rparr>)"
    and "msg_inv ext (mext(m := 0)) (h\<lparr>messages := (messages h)(m := None)\<rparr>)"
proof -
  note i = msg_invD [OF inv]
  show "delete_message_structure h (Some m) = Some (h\<lparr>messages := (messages h)(m := None)\<rparr>)"
    using m by (auto simp: delete_message_structure_def)
  let ?h = "h\<lparr>messages := (messages h)(m := None)\<rparr>"
  have "m \<notin> set (retired h)" using i(2) [of m] m by (simp add: message_ok_def)
  moreover have "holders ?h d = holders h d" for d
    using holders_upd [OF i(5), of m None d] m by (simp add: points_def)
  then have "data_ok ext ?h d" for d
    using i(1) [of d] by (simp add: data_ok_def split: option.splits)
  moreover have "message_ok (mext(m := 0)) ?h m'" for m'
    using i(2) [of m'] calculation(1) by (auto simp: message_ok_def split: option.splits)
  ultimately show "msg_inv ext (mext(m := 0)) ?h"
    using i(3-5) by (intro msg_invI) (auto simp: owners_distinct_def)
qed

section \<open>The invariant\<close>

definition th_refs :: "nat \<Rightarrow> thread_base \<Rightarrow> nat" where
  "th_refs m th = count_list (send_msg_queue th) m + count_list (recv_msg_queue th) m
     + (if send_pending_msg th = Some m then 1 else 0)"

definition queued :: "ipc \<Rightarrow> nat \<Rightarrow> nat" where
  "queued s m = msum (th_refs m) (threads s)"

definition waiting_rq :: "ipc \<Rightarrow> nat \<Rightarrow> nat" where
  "waiting_rq s r = msum (\<lambda>mp. count_list (map fst (wait_q mp)) r) (mports s)"

definition reqs_of :: "ipc \<Rightarrow> nat \<Rightarrow> nat" where
  "reqs_of s t = msum (\<lambda>rq. if rq_thread rq = t then 1 else 0) (requests s)"

text \<open>
  \<open>hm\<close> and \<open>hr\<close> are the references to messages and requests that clients and running calls hold; \<open>A\<close> is a message that
  only the running call knows and that has no payload yet.
\<close>

definition msgs_ok :: "(nat \<Rightarrow> nat) \<Rightarrow> nat option \<Rightarrow> nat multiset \<Rightarrow> ipc \<Rightarrow> bool" where
  "msgs_ok mext A hm s \<longleftrightarrow> (\<exists>ext. msg_inv ext mext (msgs s)) \<and>
     (\<forall>m. queued s m + count hm m + (if A = Some m then 1 else 0) \<le> mext m) \<and>
     (\<forall>a. A = Some a \<longrightarrow> mext a = 1 \<and> (\<exists>ms. messages (msgs s) a = Some ms \<and> m_data ms = None))"

definition rq_count :: "ipc \<Rightarrow> nat \<Rightarrow> nat" where
  "rq_count s r = (case requests s r of None \<Rightarrow> 0 | Some rq \<Rightarrow> nat (rq_ref rq))"

definition rqs_ok :: "nat multiset \<Rightarrow> ipc \<Rightarrow> bool" where
  "rqs_ok hr s \<longleftrightarrow> (\<forall>r. waiting_rq s r + count hr r \<le> rq_count s r) \<and>
     (\<forall>r rq. requests s r = Some rq \<longrightarrow>
        0 \<le> rq_ref rq \<and> (r \<in> set (retired_rq s) \<longleftrightarrow> rq_ref rq = 0) \<and> rq_thread rq \<in> dom (threads s)) \<and>
     distinct (retired_rq s) \<and> set (retired_rq s) \<subseteq> dom (requests s)"

text \<open>The threads in \<open>K\<close> still have the reference of their creator.\<close>

definition ipc_threads_ok :: "nat set \<Rightarrow> ipc \<Rightarrow> bool" where
  "ipc_threads_ok K s \<longleftrightarrow> K \<subseteq> dom (threads s) \<and>
     (\<forall>t th. threads s t = Some th \<longrightarrow> int (reqs_of s t + (if t \<in> K then 1 else 0)) \<le> t_ref th)"

definition port_wait_ok :: "msg_port \<Rightarrow> bool" where
  "port_wait_ok mp \<longleftrightarrow> (wait_q mp = [] \<longrightarrow> tail_state mp = IPC_PORT_STATE_EMPTY) \<and>
     (\<forall>x \<in> set (wait_q mp). snd x = tail_state mp \<and> snd x \<in> {IPC_PORT_STATE_SEND, IPC_PORT_STATE_RECV})"

definition ports_ok :: "ipc \<Rightarrow> bool" where
  "ports_ok s \<longleftrightarrow> (\<forall>p mp. mports s p = Some mp \<longrightarrow> port_wait_ok mp)"

definition fresh_at :: "ipc \<Rightarrow> nat \<Rightarrow> bool" where
  "fresh_at s a \<longleftrightarrow> messages (msgs s) a = None \<and> requests s a = None"

definition supply_ok :: "ipc \<Rightarrow> bool" where
  "supply_ok s \<longleftrightarrow> distinct (filter (\<lambda>x. x \<noteq> None) (mem_supply s)) \<and> (\<forall>a. Some a \<in> set (mem_supply s) \<longrightarrow> fresh_at s a)"

definition finite_ok :: "ipc \<Rightarrow> bool" where
  "finite_ok s \<longleftrightarrow> finite (dom (threads s)) \<and> finite (dom (requests s)) \<and> finite (dom (mports s))"

definition port_waits :: "ipc \<Rightarrow> nat \<rightharpoonup> (nat \<times> u16) list" where
  "port_waits s p = map_option wait_q (mports s p)"

text \<open>\<open>T\<close> are the threads that exist, \<open>W\<close> the wait queues of the ports.\<close>

definition ipc_inv ::
    "nat set \<Rightarrow> nat option \<Rightarrow> nat multiset \<Rightarrow> nat multiset \<Rightarrow> nat set \<Rightarrow> (nat \<rightharpoonup> (nat \<times> u16) list) \<Rightarrow> ipc \<Rightarrow> bool" where
  "ipc_inv K A hm hr T W s \<longleftrightarrow> (\<exists>mext. msgs_ok mext A hm s) \<and> rqs_ok hr s \<and> ipc_threads_ok K s \<and>
     ports_ok s \<and> supply_ok s \<and> finite_ok s \<and> dom (threads s) = T \<and> port_waits s = W"

lemma ipc_invE:
  assumes "ipc_inv K A hm hr T W s"
  obtains mext where "msgs_ok mext A hm s" "rqs_ok hr s" "ipc_threads_ok K s" "ports_ok s" "supply_ok s"
    "finite (dom (threads s))" "finite (dom (requests s))" "finite (dom (mports s))" "dom (threads s) = T" "port_waits s = W"
  using assms unfolding ipc_inv_def finite_ok_def by blast

lemma ipc_invI:
  "msgs_ok mext A hm s \<Longrightarrow> rqs_ok hr s \<Longrightarrow> ipc_threads_ok K s \<Longrightarrow> ports_ok s \<Longrightarrow> supply_ok s \<Longrightarrow> finite_ok s \<Longrightarrow>
   dom (threads s) = T \<Longrightarrow> port_waits s = W \<Longrightarrow> ipc_inv K A hm hr T W s"
  unfolding ipc_inv_def by blast

lemma msgs_ok_le:
  assumes "msgs_ok mext A hm s" "msgs s' = msgs s" "\<And>m. queued s' m + count hm' m \<le> queued s m + count hm m"
  shows "msgs_ok mext A hm' s'"
proof -
  have "queued s' m + count hm' m + (if A = Some m then 1 else 0) \<le> mext m" for m
    using assms(1) assms(3) [of m] unfolding msgs_ok_def by (meson add_right_mono le_trans)
  then show ?thesis using assms(1,2) unfolding msgs_ok_def by simp
qed

lemma ipc_threads_ok_cong:
  assumes "ipc_threads_ok K s" "requests s' = requests s" "\<And>t. map_option t_ref (threads s' t) = map_option t_ref (threads s t)"
  shows "ipc_threads_ok K s'"
proof -
  have "t \<in> dom (threads s') \<longleftrightarrow> t \<in> dom (threads s)" for t using assms(3) [of t] by (cases "threads s t") auto
  moreover have "\<exists>th'. threads s t = Some th' \<and> t_ref th' = t_ref th" if "threads s' t = Some th" for t th
    using that assms(3) [of t] by (cases "threads s t") auto
  ultimately show ?thesis using assms(1) unfolding ipc_threads_ok_def reqs_of_def assms(2) by (fastforce simp: subset_iff)
qed

text \<open>What each part of the invariant reads.\<close>

lemma msgs_ok_frame [simp]:
  "msgs_ok mext A hm (s\<lparr>requests := x\<rparr>) = msgs_ok mext A hm s" "msgs_ok mext A hm (s\<lparr>mports := y\<rparr>) = msgs_ok mext A hm s"
  "msgs_ok mext A hm (s\<lparr>retired_rq := z\<rparr>) = msgs_ok mext A hm s" "msgs_ok mext A hm (s\<lparr>mem_supply := u\<rparr>) = msgs_ok mext A hm s"
  "msgs_ok mext A hm (s\<lparr>quits := v\<rparr>) = msgs_ok mext A hm s"
  by (simp_all add: msgs_ok_def queued_def)

lemma rqs_ok_frame [simp]:
  "rqs_ok hr (s\<lparr>msgs := x\<rparr>) = rqs_ok hr s" "rqs_ok hr (s\<lparr>mem_supply := u\<rparr>) = rqs_ok hr s" "rqs_ok hr (s\<lparr>quits := v\<rparr>) = rqs_ok hr s"
  by (simp_all add: rqs_ok_def waiting_rq_def rq_count_def)

lemma ipc_threads_ok_frame [simp]:
  "ipc_threads_ok K (s\<lparr>msgs := x\<rparr>) = ipc_threads_ok K s" "ipc_threads_ok K (s\<lparr>mports := y\<rparr>) = ipc_threads_ok K s"
  "ipc_threads_ok K (s\<lparr>retired_rq := z\<rparr>) = ipc_threads_ok K s" "ipc_threads_ok K (s\<lparr>mem_supply := u\<rparr>) = ipc_threads_ok K s"
  "ipc_threads_ok K (s\<lparr>quits := v\<rparr>) = ipc_threads_ok K s"
  by (simp_all add: ipc_threads_ok_def reqs_of_def)

lemma ports_ok_frame [simp]:
  "ports_ok (s\<lparr>msgs := x\<rparr>) = ports_ok s" "ports_ok (s\<lparr>threads := y\<rparr>) = ports_ok s" "ports_ok (s\<lparr>requests := z\<rparr>) = ports_ok s"
  "ports_ok (s\<lparr>retired_rq := w\<rparr>) = ports_ok s" "ports_ok (s\<lparr>mem_supply := u\<rparr>) = ports_ok s" "ports_ok (s\<lparr>quits := v\<rparr>) = ports_ok s"
  by (simp_all add: ports_ok_def)

lemma supply_ok_frame [simp]:
  "supply_ok (s\<lparr>threads := y\<rparr>) = supply_ok s" "supply_ok (s\<lparr>mports := z\<rparr>) = supply_ok s"
  "supply_ok (s\<lparr>retired_rq := w\<rparr>) = supply_ok s" "supply_ok (s\<lparr>quits := v\<rparr>) = supply_ok s"
  by (simp_all add: supply_ok_def fresh_at_def)

lemma port_waits_frame [simp]:
  "port_waits (s\<lparr>msgs := x\<rparr>) = port_waits s" "port_waits (s\<lparr>threads := y\<rparr>) = port_waits s" "port_waits (s\<lparr>requests := z\<rparr>) = port_waits s"
  "port_waits (s\<lparr>retired_rq := w\<rparr>) = port_waits s" "port_waits (s\<lparr>mem_supply := u\<rparr>) = port_waits s"
  "port_waits (s\<lparr>quits := v\<rparr>) = port_waits s"
  by (simp_all add: port_waits_def fun_eq_iff)

section \<open>Weakest preconditions in the option monad\<close>

definition wp :: "'a option \<Rightarrow> ('a \<Rightarrow> bool) \<Rightarrow> bool" where
  "wp c Q \<longleftrightarrow> (case c of None \<Rightarrow> False | Some x \<Rightarrow> Q x)"

lemma wp_Some [simp]: "wp (Some x) Q = Q x"
  by (simp add: wp_def)

lemma wp_None [simp]: "wp None Q = False"
  by (simp add: wp_def)

lemma wp_bind [simp]: "wp (Option.bind c f) Q = wp c (\<lambda>x. wp (f x) Q)"
  by (cases c) simp_all

lemma wp_mono: "wp c P \<Longrightarrow> (\<And>x. P x \<Longrightarrow> Q x) \<Longrightarrow> wp c Q"
  by (cases c) simp_all

lemma wpD: "wp c Q \<Longrightarrow> \<exists>x. c = Some x \<and> Q x"
  by (cases c) simp_all

lemma wp_conj: "wp c P \<Longrightarrow> wp c Q \<Longrightarrow> wp c (\<lambda>x. P x \<and> Q x)"
  by (cases c) simp_all

section \<open>Threads\<close>

lemma inv_thread: "ipc_inv K A hm hr T W s \<Longrightarrow> t \<in> T \<Longrightarrow> \<exists>th. threads s t = Some th"
  by (auto simp: ipc_inv_def)

lemma wp_threads: "ipc_inv K A hm hr T W s \<Longrightarrow> t \<in> T \<Longrightarrow> (\<And>th. threads s t = Some th \<Longrightarrow> Q th) \<Longrightarrow> wp (threads s t) Q"
  using inv_thread [of K A hm hr T W s t] by auto

text \<open>A change of one thread that moves references between its queues and the running call.\<close>

lemma inv_upd_thread:
  assumes inv: "ipc_inv K A hm hr T W s" and th: "threads s t = Some th"
    and f: "t_ref th' = t_ref th" "\<And>m. th_refs m th' + count hm' m \<le> th_refs m th + count hm m"
  shows "ipc_inv K A hm' hr T W (s\<lparr>threads := (threads s)(t \<mapsto> th')\<rparr>)"
  using inv
proof (rule ipc_invE)
  fix mext
  assume i: "msgs_ok mext A hm s" "rqs_ok hr s" "ipc_threads_ok K s" "ports_ok s" "supply_ok s" "finite (dom (threads s))"
    "finite (dom (requests s))" "finite (dom (mports s))" "dom (threads s) = T" "port_waits s = W"
  let ?s = "s\<lparr>threads := (threads s)(t \<mapsto> th')\<rparr>"
  have "queued ?s m + th_refs m th = queued s m + th_refs m th'" for m
    using msum_upd [OF i(6) th, of "th_refs m" th'] by (simp add: queued_def)
  then have "queued ?s m + count hm' m \<le> queued s m + count hm m" for m using f(2) [of m] by (smt (verit) add.assoc add.commute add_le_cancel_right add_left_mono)
  then have "msgs_ok mext A hm' ?s" using msgs_ok_le [OF i(1), of ?s hm'] by simp
  moreover have "rqs_ok hr ?s" using i(2) th by (auto simp: rqs_ok_def waiting_rq_def rq_count_def)
  moreover have "ipc_threads_ok K ?s" using i(3) by (rule ipc_threads_ok_cong) (simp_all add: th f(1))
  moreover have "dom (threads ?s) = T" using i(9) th by auto
  ultimately show ?thesis using i(4-8,10) by (intro ipc_invI) (auto simp: finite_ok_def)
qed

lemma wp_upd_thread:
  assumes "ipc_inv K A hm hr T W s" "t \<in> T"
    and "\<And>th. threads s t = Some th \<Longrightarrow> t_ref (f th) = t_ref th"
    and "\<And>th m. threads s t = Some th \<Longrightarrow> th_refs m (f th) + count hm' m \<le> th_refs m th + count hm m"
    and "\<And>s'. ipc_inv K A hm' hr T W s' \<Longrightarrow> Q s'"
  shows "wp (upd_thread t f s) Q"
  using inv_thread [OF assms(1,2)] assms(3-5) inv_upd_thread [OF assms(1)] by (auto simp: upd_thread_def)

named_theorems ipc_wp

lemma wp_SomeI: "Q x \<Longrightarrow> wp (Some x) Q"
  by simp

lemma wp_bindI: "wp c (\<lambda>x. wp (f x) Q) \<Longrightarrow> wp (Option.bind c f) Q"
  by simp

lemma wp_prodI: "wp (f a b) Q \<Longrightarrow> wp (case (a, b) of (x, y) \<Rightarrow> f x y) Q"
  by simp

lemma wp_case_None: "wp x Q \<Longrightarrow> wp (case None of None \<Rightarrow> x | Some a \<Rightarrow> f a) Q"
  by simp

lemma wp_case_Some: "wp (f a) Q \<Longrightarrow> wp (case Some a of None \<Rightarrow> x | Some a \<Rightarrow> f a) Q"
  by simp

lemma map_upd_same: "(m(k \<mapsto> v)) k = Some v"
  by simp

lemma wp_if_same: "wp y Q \<Longrightarrow> wp (if v \<noteq> v then x else y) Q" "wp x Q \<Longrightarrow> wp (if v = v then x else y) Q"
  by simp_all

lemmas wp_step = wp_SomeI wp_bindI wp_prodI wp_case_None wp_case_Some wp_if_same map_upd_same

lemma wp_if [ipc_wp]: "(b \<Longrightarrow> wp x Q) \<Longrightarrow> (\<not> b \<Longrightarrow> wp y Q) \<Longrightarrow> wp (if b then x else y) Q"
  by simp

lemma wp_case_option [ipc_wp]:
  "(v = None \<Longrightarrow> wp x Q) \<Longrightarrow> (\<And>a. v = Some a \<Longrightarrow> wp (f a) Q) \<Longrightarrow> wp (case v of None \<Rightarrow> x | Some a \<Rightarrow> f a) Q"
  by (cases v) simp_all

lemma wp_get_status [ipc_wp]: "ipc_inv K A hm hr T W s \<Longrightarrow> t \<in> T \<Longrightarrow> (\<And>st. Q st) \<Longrightarrow> wp (thread_get_status t s) Q"
  using inv_thread [of K A hm hr T W s t] by (auto simp: thread_get_status_def)

lemma wp_upd_thread_same:
  assumes "ipc_inv K A hm hr T W s" "t \<in> T" "\<And>th. t_ref (f th) = t_ref th" "\<And>th m. th_refs m (f th) = th_refs m th"
    and "\<And>s'. ipc_inv K A hm hr T W s' \<Longrightarrow> Q s'"
  shows "wp (upd_thread t f s) Q"
  by (rule wp_upd_thread [OF assms(1,2), where hm' = hm]) (simp_all add: assms(3-5))

lemma wp_thread_fields [ipc_wp]:
  assumes "ipc_inv K A hm hr T W s" "t \<in> T" "\<And>s'. ipc_inv K A hm hr T W s' \<Longrightarrow> Q s'"
  shows "wp (upd_thread t (\<lambda>th. th\<lparr>port_ptr := pp\<rparr>) s) Q" "wp (upd_thread t (\<lambda>th. th\<lparr>recv_pending_cnt := c th\<rparr>) s) Q"
    "wp (upd_thread t (\<lambda>th. th\<lparr>flag_port_closed := b\<rparr>) s) Q"
  using assms by (auto intro!: wp_upd_thread_same [OF assms(1)] simp: th_refs_def)

lemma wp_set_status [ipc_wp]:
  "ipc_inv K A hm hr T W s \<Longrightarrow> t \<in> T \<Longrightarrow> (\<And>o' s'. ipc_inv K A hm hr T W s' \<Longrightarrow> Q (o', s')) \<Longrightarrow> wp (thread_set_status t st s) Q"
  unfolding thread_set_status_def
  by (auto intro!: wp_threads wp_upd_thread_same [of K A hm hr T W s] simp: th_refs_def)

lemma wp_set_status_with_expect [ipc_wp]:
  "ipc_inv K A hm hr T W s \<Longrightarrow> t \<in> T \<Longrightarrow> (\<And>s'. ipc_inv K A hm hr T W s' \<Longrightarrow> Q s') \<Longrightarrow> wp (thread_set_status_with_expect t e st s) Q"
  unfolding thread_set_status_with_expect_def by (rule wp_upd_thread_same [of K A hm hr T W s]) (auto simp: th_refs_def)

lemma wp_cas_port_ptr [ipc_wp]:
  "ipc_inv K A hm hr T W s \<Longrightarrow> t \<in> T \<Longrightarrow> (\<And>v s'. ipc_inv K A hm hr T W s' \<Longrightarrow> Q (v, s')) \<Longrightarrow> wp (cas_port_ptr t old new s) Q"
  unfolding cas_port_ptr_def
  by (auto intro!: wp_threads wp_upd_thread_same [of K A hm hr T W s] simp: th_refs_def)

lemma wp_exchange_pending [ipc_wp]:
  assumes "ipc_inv K A hm hr T W s" "t \<in> T" "\<And>s'. ipc_inv K A hm hr T W s' \<Longrightarrow> Q (None, s')"
    and "\<And>m s'. ipc_inv K A (add_mset m hm) hr T W s' \<Longrightarrow> Q (Some m, s')"
  shows "wp (exchange_pending t None s) Q"
proof -
  obtain th where th: "threads s t = Some th" using inv_thread assms(1,2) by blast
  have "wp (upd_thread t (\<lambda>th. th\<lparr>send_pending_msg := None\<rparr>) s) (\<lambda>s. Q (send_pending_msg th, s))"
  proof (cases "send_pending_msg th")
    case None
    then show ?thesis using assms(1-3) th by (intro wp_upd_thread [of K A hm hr T W s t _ hm]) (auto simp: th_refs_def)
  next
    case (Some m)
    then show ?thesis using assms(1,2,4) th
      by (intro wp_upd_thread [of K A hm hr T W s t _ "add_mset m hm"]) (auto simp: th_refs_def)
  qed
  then show ?thesis by (simp add: exchange_pending_def th)
qed

lemma wp_cas_pending [ipc_wp]:
  assumes "ipc_inv K A (add_mset m hm) hr T W s" "t \<in> T" "\<And>s'. ipc_inv K A hm hr T W s' \<Longrightarrow> Q (None, s')"
    and "\<And>m' s'. ipc_inv K A (add_mset m hm) hr T W s' \<Longrightarrow> Q (Some m', s')"
  shows "wp (cas_pending t m s) Q"
proof -
  obtain th where th: "threads s t = Some th" using inv_thread assms(1,2) by blast
  have "wp (upd_thread t (\<lambda>th. if send_pending_msg th = None then th\<lparr>send_pending_msg := Some m\<rparr> else th) s)
     (\<lambda>s. Q (send_pending_msg th, s))"
  proof (cases "send_pending_msg th")
    case None
    then show ?thesis using assms(1-3) th
      by (intro wp_upd_thread [of K A "add_mset m hm" hr T W s t _ hm]) (auto simp: th_refs_def)
  next
    case (Some m')
    then show ?thesis using assms(1,2,4) th by (intro wp_upd_thread [OF assms(1,2), where hm' = "add_mset m hm"]) (auto simp: th_refs_def)
  qed
  then show ?thesis by (simp add: cas_pending_def th)
qed

lemma inv_others_run [ipc_wp]: "ipc_inv K A hm hr T W s \<Longrightarrow> ipc_inv K A hm hr T W (others_run s)"
proof (cases "quits s")
  case (Cons X qs)
  assume "ipc_inv K A hm hr T W s"
  then show ?thesis
  proof (rule ipc_invE)
    fix mext
    assume i: "msgs_ok mext A hm s" "rqs_ok hr s" "ipc_threads_ok K s" "ports_ok s" "supply_ok s" "finite (dom (threads s))"
      "finite (dom (requests s))" "finite (dom (mports s))" "dom (threads s) = T" "port_waits s = W"
    have th: "threads (others_run s) = (\<lambda>t. map_option (\<lambda>th. if t \<in> X then th\<lparr>t_status := thread_status_exit\<rparr> else th) (threads s t))"
      by (simp add: others_run_def Cons)
    then have d: "dom (threads (others_run s)) = dom (threads s)" by auto
    have o: "msgs (others_run s) = msgs s" "requests (others_run s) = requests s" "mports (others_run s) = mports s"
      "mem_supply (others_run s) = mem_supply s" "retired_rq (others_run s) = retired_rq s"
      by (simp_all add: others_run_def Cons)
    have "queued (others_run s) m = queued s m" for m
      unfolding queued_def th by (rule msum_map_cong) (simp add: th_refs_def)
    then have "msgs_ok mext A hm (others_run s)" using i(1) o by (simp add: msgs_ok_def)
    moreover have "rqs_ok hr (others_run s)" using i(2) o d by (simp add: rqs_ok_def waiting_rq_def rq_count_def)
    moreover have "ipc_threads_ok K (others_run s)"
      using i(3) o(2) by (rule ipc_threads_ok_cong) (auto simp: th option.map_comp comp_def intro: option.map_cong)
    moreover have "port_waits (others_run s) = port_waits s" by (rule ext) (simp add: port_waits_def o)
    ultimately show ?thesis using i(4-10) o d
      by (intro ipc_invI) (simp_all add: finite_ok_def ports_ok_def supply_ok_def fresh_at_def)
  qed
qed (simp add: others_run_def)

section \<open>References to messages\<close>

lemma inv_msgs:
  assumes "ipc_inv K A hm hr T W s"
    and "\<And>mext. msgs_ok mext A hm s \<Longrightarrow> \<exists>mext'. msgs_ok mext' A' hm' (s\<lparr>msgs := h\<rparr>)"
    and "dom (messages h) \<subseteq> dom (messages (msgs s))"
  shows "ipc_inv K A' hm' hr T W (s\<lparr>msgs := h\<rparr>)"
  using assms(1)
proof (rule ipc_invE)
  fix mext
  assume i: "msgs_ok mext A hm s" "rqs_ok hr s" "ipc_threads_ok K s" "ports_ok s" "supply_ok s" "finite (dom (threads s))"
    "finite (dom (requests s))" "finite (dom (mports s))" "dom (threads s) = T" "port_waits s = W"
  obtain mext' where "msgs_ok mext' A' hm' (s\<lparr>msgs := h\<rparr>)" using assms(2) i(1) by blast
  moreover have "messages h a = None" if "messages (msgs s) a = None" for a using assms(3) that by (auto simp: domIff subset_iff)
  then have "supply_ok (s\<lparr>msgs := h\<rparr>)" using i(5) by (auto simp: supply_ok_def fresh_at_def)
  ultimately show ?thesis using i by (intro ipc_invI) (auto simp: finite_ok_def)
qed

lemma msgs_ok_msgs:
  "msgs_ok mext A hm (s\<lparr>msgs := h\<rparr>) \<longleftrightarrow> (\<exists>ext. msg_inv ext mext h) \<and>
     (\<forall>m. queued s m + count hm m + (if A = Some m then 1 else 0) \<le> mext m) \<and>
     (\<forall>a. A = Some a \<longrightarrow> mext a = 1 \<and> (\<exists>ms. messages h a = Some ms \<and> m_data ms = None))"
  by (simp add: msgs_ok_def queued_def)

lemma msgs_okD:
  assumes "msgs_ok mext A hm s"
  obtains ext where "msg_inv ext mext (msgs s)" "\<And>m. queued s m + count hm m + (if A = Some m then 1 else 0) \<le> mext m"
    "\<And>a. A = Some a \<Longrightarrow> mext a = 1 \<and> (\<exists>ms. messages (msgs s) a = Some ms \<and> m_data ms = None)"
  using assms unfolding msgs_ok_def by blast

lemma private_not_held: "msgs_ok mext (Some a) hm s \<Longrightarrow> a \<notin># hm \<and> queued s a = 0"
  by (auto simp: msgs_ok_def count_eq_zero_iff [symmetric] dest!: spec [of _ a])

lemma wp_message_get:
  assumes inv: "ipc_inv K A hm hr T W s" and m: "\<And>mext. msgs_ok mext A hm s \<Longrightarrow> 0 < mext m \<and> A \<noteq> Some m"
    and Q: "\<And>s'. ipc_inv K A (add_mset m hm) hr T W s' \<Longrightarrow> threads s' = threads s \<Longrightarrow> Q s'"
  shows "wp (message_get m s) Q"
  using inv
proof (rule ipc_invE)
  fix mext
  assume ok: "msgs_ok mext A hm s"
  obtain ms where ms: "messages (msgs s) m = Some ms" "ref_get_not_zero (ms_ref ms) = Some (ms_ref ms + 1)"
    using ok m by (meson get_message_inv msgs_okD)
  let ?h = "(msgs s)\<lparr>messages := (messages (msgs s))(m \<mapsto> ms\<lparr>ms_ref := ms_ref ms + 1\<rparr>)\<rparr>"
  have "\<exists>mext'. msgs_ok mext' A (add_mset m hm) (s\<lparr>msgs := ?h\<rparr>)" if ok: "msgs_ok mext A hm s" for mext
  proof -
    obtain ext where i: "msg_inv ext mext (msgs s)" "\<And>m. queued s m + count hm m + (if A = Some m then 1 else 0) \<le> mext m"
      "\<And>a. A = Some a \<Longrightarrow> mext a = 1 \<and> (\<exists>ms. messages (msgs s) a = Some ms \<and> m_data ms = None)"
      using ok by (rule msgs_okD) blast
    have "msg_inv ext (mext(m := mext m + 1)) ?h"
      using get_message_inv [OF i(1), of m] m [OF ok] ms by (metis option.inject)
    then have "msgs_ok (mext(m := mext m + 1)) A (add_mset m hm) (s\<lparr>msgs := ?h\<rparr>)"
      using i(2) [of m] i(2,3) m [OF ok] unfolding msgs_ok_msgs by auto
    then show ?thesis by blast
  qed
  then have "ipc_inv K A (add_mset m hm) hr T W (s\<lparr>msgs := ?h\<rparr>)"
    by (rule inv_msgs [OF inv]) (use ms in auto)
  then show ?thesis using Q ms by (simp add: message_get_def)
qed

lemma held_message:
  assumes "msgs_ok mext A (add_mset m hm) s"
  shows "0 < mext m \<and> A \<noteq> Some m"
proof -
  have "queued s m + count (add_mset m hm) m + (if A = Some m then 1 else 0) \<le> mext m" using assms unfolding msgs_ok_def by blast
  moreover have "mext m = 1" if "A = Some m" using assms that unfolding msgs_ok_def by blast
  ultimately show ?thesis by fastforce
qed

lemma wp_message_put [ipc_wp]:
  assumes inv: "ipc_inv K A (add_mset m hm) hr T W s" and Q: "\<And>s'. ipc_inv K A hm hr T W s' \<Longrightarrow> threads s' = threads s \<Longrightarrow> Q s'"
  shows "wp (message_put m s) Q"
  using inv
proof (rule ipc_invE)
  fix mext
  assume ok: "msgs_ok mext A (add_mset m hm) s"
  obtain h where h: "put_message (msgs s) m = Some h" using ok by (meson held_message msgs_okD put_message_inv)
  have "\<exists>mext'. msgs_ok mext' A hm (s\<lparr>msgs := h\<rparr>)" if ok: "msgs_ok mext A (add_mset m hm) s" for mext
  proof -
    obtain ext where i: "msg_inv ext mext (msgs s)" "\<And>k. queued s k + count (add_mset m hm) k + (if A = Some k then 1 else 0) \<le> mext k"
      "\<And>a. A = Some a \<Longrightarrow> mext a = 1 \<and> (\<exists>ms. messages (msgs s) a = Some ms \<and> m_data ms = None)"
      using ok by (rule msgs_okD) blast
    have "msg_inv ext (mext(m := mext m - 1)) h" using put_message_inv [OF i(1), of m] held_message [OF ok] h by auto
    moreover have "queued s k + count hm k + (if A = Some k then 1 else 0) \<le> (mext(m := mext m - 1)) k" for k
      using i(2) [of k] by auto
    moreover have "messages h a = messages (msgs s) a" if "a \<noteq> m" for a
      using h that by (auto simp: put_message_def free_message_ref_def Let_def split: if_splits bind_splits prod.splits)
    ultimately have "msgs_ok (mext(m := mext m - 1)) A hm (s\<lparr>msgs := h\<rparr>)"
      using i(3) held_message [OF ok] unfolding msgs_ok_msgs by auto
    then show ?thesis by blast
  qed
  moreover have "dom (messages h) \<subseteq> dom (messages (msgs s))"
    using h by (auto simp: put_message_def free_message_ref_def Let_def split: if_splits bind_splits prod.splits)
  ultimately have "ipc_inv K A hm hr T W (s\<lparr>msgs := h\<rparr>)" by (rule inv_msgs [OF inv])
  then show ?thesis using Q h by (simp add: message_put_def)
qed

lemma queued_message:
  assumes "ipc_inv K A hm hr T W s" "msgs_ok mext A hm s" "threads s t = Some th" "0 < th_refs m th"
  shows "0 < mext m \<and> A \<noteq> Some m"
proof -
  have "finite (dom (threads s))" using assms(1) by (rule ipc_invE)
  then have "th_refs m th \<le> queued s m" unfolding queued_def using assms(3) by (rule msum_ge)
  moreover have "queued s m + count hm m + (if A = Some m then 1 else 0) \<le> mext m" using assms(2) unfolding msgs_ok_def by blast
  moreover have "mext m = 1" if "A = Some m" using assms(2) that unfolding msgs_ok_def by blast
  ultimately show ?thesis using assms(4) by (auto split: if_splits)
qed

lemma wp_enqueue_send [ipc_wp]:
  assumes "ipc_inv K A (add_mset m hm) hr T W s" "t \<in> T" "\<And>s'. ipc_inv K A (add_mset m hm) hr T W s' \<Longrightarrow> Q s'"
  shows "wp (enqueue_send t m s) Q"
  unfolding enqueue_send_def wp_bind
  by (rule wp_message_get [OF assms(1) held_message], assumption,
      erule wp_upd_thread [where hm' = "add_mset m hm", OF _ assms(2)]) (auto simp: th_refs_def assms(3))

lemma wp_enqueue_recv [ipc_wp]:
  assumes "ipc_inv K A (add_mset m hm) hr T W s" "t \<in> T" "\<And>s'. ipc_inv K A (add_mset m hm) hr T W s' \<Longrightarrow> Q s'"
  shows "wp (enqueue_recv t m s) Q"
  unfolding enqueue_recv_def wp_bind
  by (rule wp_message_get [OF assms(1) held_message], assumption,
      erule wp_upd_thread [where hm' = "add_mset m hm", OF _ assms(2)]) (auto simp: th_refs_def assms(3))

lemma wp_dequeue_send [ipc_wp]:
  assumes inv: "ipc_inv K A hm hr T W s" "t \<in> T"
    and Q: "\<And>th. threads s t = Some th \<Longrightarrow> send_msg_queue th = [] \<Longrightarrow> Q (None, s)"
      "\<And>m s' th ms. ipc_inv K A (add_mset m hm) hr T W s' \<Longrightarrow> threads s t = Some th \<Longrightarrow> send_msg_queue th = m # ms \<Longrightarrow>
         threads s' t = Some (th\<lparr>send_msg_queue := ms\<rparr>) \<Longrightarrow> Q (Some m, s')"
  shows "wp (dequeue_send t s) Q"
proof -
  obtain th where th: "threads s t = Some th" using inv_thread inv by blast
  show ?thesis
  proof (cases "send_msg_queue th")
    case (Cons m ms)
    let ?f = "\<lambda>th. th\<lparr>send_msg_queue := ms\<rparr>"
    have "wp (message_get m s) (\<lambda>s. wp (upd_thread t ?f s) (\<lambda>s. Q (Some m, s)))"
    proof (rule wp_message_get [OF inv(1) queued_message [OF inv(1) _ th]])
      fix s'
      assume s': "ipc_inv K A (add_mset m hm) hr T W s'" "threads s' = threads s"
      have "ipc_inv K A (add_mset m hm) hr T W (s'\<lparr>threads := (threads s')(t \<mapsto> ?f th)\<rparr>)"
        using th Cons s'(2) by (intro inv_upd_thread [OF s'(1), of t th]) (auto simp: th_refs_def)
      then show "wp (upd_thread t ?f s') (\<lambda>s. Q (Some m, s))" using th s'(2) Q(2) Cons by (simp add: upd_thread_def)
    qed (simp_all add: Cons th_refs_def)
    then show ?thesis by (simp add: dequeue_send_def th Cons)
  qed (simp add: dequeue_send_def th Q)
qed

lemma wp_dequeue_recv [ipc_wp]:
  assumes inv: "ipc_inv K A hm hr T W s" "t \<in> T"
    and Q: "\<And>th. threads s t = Some th \<Longrightarrow> recv_msg_queue th = [] \<Longrightarrow> Q (None, s)"
      "\<And>m s' th ms. ipc_inv K A (add_mset m hm) hr T W s' \<Longrightarrow> threads s t = Some th \<Longrightarrow> recv_msg_queue th = m # ms \<Longrightarrow>
         threads s' t = Some (th\<lparr>recv_msg_queue := ms\<rparr>) \<Longrightarrow> Q (Some m, s')"
  shows "wp (dequeue_recv t s) Q"
proof -
  obtain th where th: "threads s t = Some th" using inv_thread inv by blast
  show ?thesis
  proof (cases "recv_msg_queue th")
    case (Cons m ms)
    let ?f = "\<lambda>th. th\<lparr>recv_msg_queue := ms\<rparr>"
    have "wp (message_get m s) (\<lambda>s. wp (upd_thread t ?f s) (\<lambda>s. Q (Some m, s)))"
    proof (rule wp_message_get [OF inv(1) queued_message [OF inv(1) _ th]])
      fix s'
      assume s': "ipc_inv K A (add_mset m hm) hr T W s'" "threads s' = threads s"
      have "ipc_inv K A (add_mset m hm) hr T W (s'\<lparr>threads := (threads s')(t \<mapsto> ?f th)\<rparr>)"
        using th Cons s'(2) by (intro inv_upd_thread [OF s'(1), of t th]) (auto simp: th_refs_def)
      then show "wp (upd_thread t ?f s') (\<lambda>s. Q (Some m, s))" using th s'(2) Q(2) Cons by (simp add: upd_thread_def)
    qed (simp_all add: Cons th_refs_def)
    then show ?thesis by (simp add: dequeue_recv_def th Cons)
  qed (simp add: dequeue_recv_def th Q)
qed

text \<open>The message that a transfer creates.\<close>

lemma inv_alloc:
  assumes "ipc_inv K A hm hr T W s" "ipc_alloc s = (a, s')"
  shows "ipc_inv K A hm hr T W s'" "a = Some x \<Longrightarrow> fresh_at s' x \<and> Some x \<notin> set (mem_supply s')"
proof -
  obtain mext where i: "msgs_ok mext A hm s" "rqs_ok hr s" "ipc_threads_ok K s" "ports_ok s" "supply_ok s" "finite_ok s"
    "dom (threads s) = T" "port_waits s = W" using assms(1) unfolding ipc_inv_def by blast
  show "ipc_inv K A hm hr T W s'"
    using assms(2) i by (intro ipc_invI [of mext])
      (auto simp: ipc_alloc_def supply_ok_def fresh_at_def finite_ok_def split: list.splits if_splits)
  show "fresh_at s' x \<and> Some x \<notin> set (mem_supply s')" if "a = Some x"
    using assms(2) i(5) that by (auto simp: ipc_alloc_def supply_ok_def fresh_at_def split: list.splits)
qed

lemma inv_create_message:
  assumes inv: "ipc_inv K None hm hr T W s" and a: "fresh_at s a" "Some a \<notin> set (mem_supply s)"
  shows "ipc_inv K (Some a) hm hr T W (s\<lparr>msgs := fst (create_message_structure (Some a) (msgs s))\<rparr>)"
  using inv
proof (rule ipc_invE)
  fix mext
  assume i: "msgs_ok mext None hm s" "rqs_ok hr s" "ipc_threads_ok K s" "ports_ok s" "supply_ok s" "finite (dom (threads s))"
    "finite (dom (requests s))" "finite (dom (mports s))" "dom (threads s) = T" "port_waits s = W"
  let ?h = "fst (create_message_structure (Some a) (msgs s))"
  have h: "messages ?h = (messages (msgs s))(a \<mapsto> \<lparr>ms_ref = ref_init, m_data = None, receiver = None\<rparr>)"
    by (simp add: create_message_structure_def)
  obtain ext where e: "msg_inv ext mext (msgs s)" "\<And>m. queued s m + count hm m \<le> mext m"
    using i(1) by (auto simp: msgs_ok_def)
  have "mext a = 0" using msg_invD(2) [OF e(1), of a] a by (simp add: message_ok_def fresh_at_def)
  then have "queued s m + count hm m + (if Some a = Some m then 1 else 0) \<le> (mext(a := 1)) m" for m using e(2) [of m] by auto
  moreover have "msg_inv ext (mext(a := 1)) ?h"
    using create_message_structure_inv [OF e(1), of a ?h] a by (simp add: fresh_at_def create_message_structure_def)
  ultimately have "msgs_ok (mext(a := 1)) (Some a) hm (s\<lparr>msgs := ?h\<rparr>)" unfolding msgs_ok_msgs using h by auto
  moreover have "supply_ok (s\<lparr>msgs := ?h\<rparr>)" using i(5) a(2) by (auto simp: supply_ok_def fresh_at_def h)
  ultimately show ?thesis using i by (intro ipc_invI) (auto simp: finite_ok_def)
qed

lemma wp_delete_message [ipc_wp]:
  assumes inv: "ipc_inv K (Some a) hm hr T W s" and Q: "\<And>s'. ipc_inv K None hm hr T W s' \<Longrightarrow> Q s'"
  shows "wp (delete_message a s) Q"
proof -
  let ?h = "(msgs s)\<lparr>messages := (messages (msgs s))(a := None)\<rparr>"
  have *: "delete_message_structure (msgs s) (Some a) = Some ?h \<and> (\<exists>mext'. msgs_ok mext' None hm (s\<lparr>msgs := ?h\<rparr>))"
    if ok: "msgs_ok mext (Some a) hm s" for mext
  proof -
    obtain ext ms where i: "msg_inv ext mext (msgs s)" "mext a = 1" "messages (msgs s) a = Some ms" "m_data ms = None"
      "\<And>m. queued s m + count hm m + (if a = m then 1 else 0) \<le> mext m"
      using ok unfolding msgs_ok_def by auto
    have "queued s m + count hm m \<le> (mext(a := 0)) m" for m
      using i(5) [of m] private_not_held [OF ok] by (auto simp: not_in_iff)
    then have "msgs_ok (mext(a := 0)) None hm (s\<lparr>msgs := ?h\<rparr>)"
      unfolding msgs_ok_msgs using delete_message_inv(2) [OF i(1,3,4,2)] by auto
    then show ?thesis using delete_message_inv(1) [OF i(1,3,4,2)] by blast
  qed
  obtain mext where "msgs_ok mext (Some a) hm s" using inv by (rule ipc_invE)
  then have "delete_message_structure (msgs s) (Some a) = Some ?h" using * by blast
  moreover have "ipc_inv K None hm hr T W (s\<lparr>msgs := ?h\<rparr>)" by (rule inv_msgs [OF inv]) (use * in auto)
  ultimately show ?thesis using Q by (simp add: delete_message_def)
qed

lemma wp_messages [ipc_wp]:
  assumes "ipc_inv K A (add_mset m hm) hr T W s" "\<And>ms. messages (msgs s) m = Some ms \<Longrightarrow> Q ms"
  shows "wp (messages (msgs s) m) Q"
proof -
  obtain mext where "msgs_ok mext A (add_mset m hm) s" using assms(1) by (rule ipc_invE)
  then obtain ms where "messages (msgs s) m = Some ms" by (meson held_message live_message msgs_okD)
  then show ?thesis using assms(2) by simp
qed

lemma wp_fill [ipc_wp]:
  assumes inv: "ipc_inv K (Some a) (add_mset m hm) hr T W s" and m: "messages (msgs s) m = Some ms"
    and Q: "\<And>e. e \<noteq> REND_SUCCESS \<Longrightarrow> ipc_inv K (Some a) (add_mset m hm) hr T W (s\<lparr>msgs := msgs s\<rparr>) \<Longrightarrow> Q (msgs s, e)"
    "\<And>h. ipc_inv K None (add_mset a (add_mset m hm)) hr T W (s\<lparr>msgs := h\<rparr>) \<Longrightarrow> Q (h, REND_SUCCESS)"
  shows "wp (fill_message_data (msgs s) (Some a) (m_data ms)) Q"
proof (cases "m_data ms")
  case None
  have "s\<lparr>msgs := msgs s\<rparr> = s" by (cases s) simp
  then show ?thesis using None Q(1) inv by (simp add: fill_message_data_def)
next
  case (Some d)
  let ?f = "fill_message_data (msgs s) (Some a) (Some d)"
  have *: "\<exists>h mext'. ?f = Some (h, REND_SUCCESS) \<and> msgs_ok mext' None (add_mset a (add_mset m hm)) (s\<lparr>msgs := h\<rparr>)"
    if ok: "msgs_ok mext (Some a) (add_mset m hm) s" for mext
  proof -
    obtain ext ams where i: "msg_inv ext mext (msgs s)" "messages (msgs s) a = Some ams" "m_data ams = None"
      "\<And>k. queued s k + count (add_mset m hm) k + (if a = k then 1 else 0) \<le> mext k"
      using ok unfolding msgs_ok_def by auto
    have "0 < holders (msgs s) d"
    proof -
      have "holders ((msgs s)\<lparr>messages := (messages (msgs s))(m := None)\<rparr>) d + 1 = holders (msgs s) d"
        using holders_upd [OF msg_invD(5) [OF i(1)], of m None d] m Some by (simp add: points_def)
      then show ?thesis by simp
    qed
    then obtain h where h: "?f = Some (h, REND_SUCCESS)" "msg_inv ext mext h"
      using fill_message_data_inv [OF i(1-3), of d] by auto
    have "queued s k + count (add_mset a (add_mset m hm)) k \<le> mext k" for k using i(4) [of k] by auto
    then have "msgs_ok mext None (add_mset a (add_mset m hm)) (s\<lparr>msgs := h\<rparr>)" unfolding msgs_ok_msgs using h(2) by auto
    then show ?thesis using h(1) by blast
  qed
  obtain mext where "msgs_ok mext (Some a) (add_mset m hm) s" using inv by (rule ipc_invE)
  then obtain h where h: "?f = Some (h, REND_SUCCESS)" using * by blast
  have "dom (messages h) \<subseteq> dom (messages (msgs s))"
    using h by (auto simp: fill_message_data_def split: option.splits bind_splits if_splits)
  then have "ipc_inv K None (add_mset a (add_mset m hm)) hr T W (s\<lparr>msgs := h\<rparr>)"
    using * h by (intro inv_msgs [OF inv]) force+
  then show ?thesis using Q(2) h Some by simp
qed

section \<open>Requests and ports\<close>

lemma inv_upd_request:
  assumes inv: "ipc_inv K A hm hr T W s" and rq: "requests s r = Some rq"
    and rq': "rq_thread rq' = rq_thread rq" "0 \<le> rq_ref rq'" "0 < rq_ref rq"
    and hr': "waiting_rq s r + count hr' r \<le> nat (rq_ref rq')" "\<And>r'. r' \<noteq> r \<Longrightarrow> count hr' r' = count hr r'"
    and rs: "rs = (if rq_ref rq' = 0 then retired_rq s @ [r] else retired_rq s)"
  shows "ipc_inv K A hm hr' T W (s\<lparr>requests := (requests s)(r \<mapsto> rq'), retired_rq := rs\<rparr>)"
  using inv
proof (rule ipc_invE)
  fix mext
  assume i: "msgs_ok mext A hm s" "rqs_ok hr s" "ipc_threads_ok K s" "ports_ok s" "supply_ok s" "finite (dom (threads s))"
    "finite (dom (requests s))" "finite (dom (mports s))" "dom (threads s) = T" "port_waits s = W"
  let ?s = "s\<lparr>requests := (requests s)(r \<mapsto> rq'), retired_rq := rs\<rparr>"
  have "reqs_of ?s t = reqs_of s t" for t
    using msum_upd [OF i(7) rq, of "\<lambda>rq. if rq_thread rq = t then 1 else 0" rq'] rq'(1) by (simp add: reqs_of_def)
  then have "ipc_threads_ok K ?s" using i(3) by (simp add: ipc_threads_ok_def)
  moreover have "r \<notin> set (retired_rq s)" using i(2) rq rq'(3) by (auto simp: rqs_ok_def)
  then have "rqs_ok hr' ?s"
    using i(2) rq rq' hr' rs by (auto simp: rqs_ok_def waiting_rq_def rq_count_def split: if_splits)
  moreover have "supply_ok ?s" using i(5) rq by (auto simp: supply_ok_def fresh_at_def)
  ultimately show ?thesis using i by (intro ipc_invI) (auto simp: finite_ok_def)
qed

lemma inv_upd_port:
  assumes inv: "ipc_inv K A hm hr T W s" and p: "mports s p = Some mp" and ok: "port_wait_ok mp'"
    and hr': "\<And>r. count_list (map fst (wait_q mp')) r + count hr' r \<le> count_list (map fst (wait_q mp)) r + count hr r"
  shows "ipc_inv K A hm hr' T (W(p \<mapsto> wait_q mp')) (s\<lparr>mports := (mports s)(p \<mapsto> mp')\<rparr>)"
  using inv
proof (rule ipc_invE)
  fix mext
  assume i: "msgs_ok mext A hm s" "rqs_ok hr s" "ipc_threads_ok K s" "ports_ok s" "supply_ok s" "finite (dom (threads s))"
    "finite (dom (requests s))" "finite (dom (mports s))" "dom (threads s) = T" "port_waits s = W"
  let ?s = "s\<lparr>mports := (mports s)(p \<mapsto> mp')\<rparr>"
  have "waiting_rq ?s r + count_list (map fst (wait_q mp)) r = waiting_rq s r + count_list (map fst (wait_q mp')) r" for r
    using msum_upd [OF i(8) p, of "\<lambda>mp. count_list (map fst (wait_q mp)) r" mp'] by (simp add: waiting_rq_def)
  then have "waiting_rq ?s r + count hr' r \<le> waiting_rq s r + count hr r" for r
    using hr' [of r] by (smt (verit) add.assoc add.commute add_le_cancel_right add_left_mono)
  moreover have "waiting_rq s r + count hr r \<le> rq_count s r" for r using i(2) unfolding rqs_ok_def by blast
  ultimately have "waiting_rq ?s r + count hr' r \<le> rq_count s r" for r by (meson le_trans)
  then have "rqs_ok hr' ?s" using i(2) unfolding rqs_ok_def by (simp add: rq_count_def)
  moreover have "ports_ok ?s" using i(4) ok by (auto simp: ports_ok_def)
  moreover have "port_waits ?s = W(p \<mapsto> wait_q mp')" using i(10) by (auto simp: port_waits_def)
  ultimately show ?thesis using i by (intro ipc_invI) (auto simp: finite_ok_def)
qed

lemma inv_port:
  assumes "ipc_inv K A hm hr T W s" "W p = Some ws"
  obtains mp where "mports s p = Some mp" "wait_q mp = ws" "port_wait_ok mp"
  using assms by (auto simp: ipc_inv_def port_waits_def ports_ok_def)

lemma wp_mports [ipc_wp]:
  assumes "ipc_inv K A hm hr T W s" "W p = Some ws" "\<And>mp. mports s p = Some mp \<Longrightarrow> wait_q mp = ws \<Longrightarrow> Q mp"
  shows "wp (mports s p) Q"
  by (rule inv_port [OF assms(1,2)]) (simp add: assms(3))

lemma wp_requests [ipc_wp]:
  assumes inv: "ipc_inv K A hm (add_mset r hr) T W s"
    and Q: "\<And>rq. requests s r = Some rq \<Longrightarrow> 0 < rq_ref rq \<Longrightarrow> rq_thread rq \<in> T \<Longrightarrow> Q rq"
  shows "wp (requests s r) Q"
proof -
  have "rqs_ok (add_mset r hr) s" "dom (threads s) = T" using inv by (auto simp: ipc_inv_def)
  then have "waiting_rq s r + Suc (count hr r) \<le> rq_count s r" "\<And>rq. requests s r = Some rq \<Longrightarrow> rq_thread rq \<in> T"
    unfolding rqs_ok_def by (metis count_add_mset, blast)
  then show ?thesis using Q by (auto simp: rq_count_def split: option.splits)
qed

lemma waiting_bound: "ipc_inv K A hm hr T W s \<Longrightarrow> waiting_rq s r + count hr r \<le> rq_count s r"
  unfolding ipc_inv_def rqs_ok_def by blast

lemma wp_request_put [ipc_wp]:
  assumes inv: "ipc_inv K A hm (add_mset r hr) T W s" and Q: "\<And>s'. ipc_inv K A hm hr T W s' \<Longrightarrow> Q s'"
  shows "wp (request_put r s) Q"
  unfolding request_put_def wp_bind
proof (rule wp_requests [OF inv])
  fix rq
  assume rq: "requests s r = Some rq" "0 < rq_ref rq"
  have b: "waiting_rq s r + Suc (count hr r) \<le> nat (rq_ref rq)"
    using waiting_bound [OF inv, of r] rq by (simp add: rq_count_def)
  have "ipc_inv K A hm hr T W (s\<lparr>requests := (requests s)(r \<mapsto> rq\<lparr>rq_ref := rq_ref rq - 1\<rparr>),
      retired_rq := (if rq_ref rq - 1 = 0 then retired_rq s @ [r] else retired_rq s)\<rparr>)"
    using b rq by (intro inv_upd_request [OF inv]) auto
  then show "wp (let (c, freed) = ref_put (rq_ref rq) True; s = s\<lparr>requests := (requests s)(r \<mapsto> rq\<lparr>rq_ref := c\<rparr>)\<rparr>
       in Some (if freed then s\<lparr>retired_rq := retired_rq s @ [r]\<rparr> else s)) Q"
    using Q by (auto simp: ref_put_def Let_def split: if_splits)
qed

lemma wp_request_get:
  assumes inv: "ipc_inv K A hm hr T W s" and r: "0 < rq_count s r"
    and Q: "\<And>s'. ipc_inv K A hm (add_mset r hr) T W s' \<Longrightarrow> mports s' = mports s \<Longrightarrow> Q s'"
  shows "wp (request_get r s) Q"
proof -
  obtain rq where rq: "requests s r = Some rq" "0 < rq_ref rq" using r by (auto simp: rq_count_def split: option.splits)
  have "waiting_rq s r + count hr r \<le> nat (rq_ref rq)" using waiting_bound [OF inv, of r] rq by (simp add: rq_count_def)
  then have "ipc_inv K A hm (add_mset r hr) T W (s\<lparr>requests := (requests s)(r \<mapsto> rq\<lparr>rq_ref := rq_ref rq + 1\<rparr>), retired_rq := retired_rq s\<rparr>)"
    using rq by (intro inv_upd_request [OF inv]) auto
  then show ?thesis using Q rq by (simp add: request_get_def ref_get_not_zero_def)
qed

lemma inv_queue_ptr:
  assumes "ipc_inv K A hm (add_mset r hr) T W s" "requests s r = Some rq"
  shows "ipc_inv K A hm (add_mset r hr) T W (s\<lparr>requests := (requests s)(r \<mapsto> rq\<lparr>rq_queue := q\<rparr>)\<rparr>)"
proof -
  have "0 < rq_ref rq" using wp_requests [OF assms(1), of "\<lambda>rq. 0 < rq_ref rq"] assms(2) by simp
  then have "ipc_inv K A hm (add_mset r hr) T W (s\<lparr>requests := (requests s)(r \<mapsto> rq\<lparr>rq_queue := q\<rparr>), retired_rq := retired_rq s\<rparr>)"
    using waiting_bound [OF assms(1), of r] assms(2) by (intro inv_upd_request [OF assms]) (simp_all add: rq_count_def)
  then show ?thesis by simp
qed

lemma inv_create_request:
  assumes inv: "ipc_inv K A hm hr T W s" and r: "fresh_at s r" "Some r \<notin> set (mem_supply s)" and th: "threads s t = Some th"
  shows "ipc_inv K A hm (add_mset r hr) T W (s\<lparr>threads := (threads s)(t \<mapsto> th\<lparr>t_ref := t_ref th + 1\<rparr>),
           requests := (requests s)(r \<mapsto> \<lparr>rq_ref = 1, rq_thread = t, rq_queue = None\<rparr>)\<rparr>)"
  using inv
proof (rule ipc_invE)
  fix mext
  assume i: "msgs_ok mext A hm s" "rqs_ok hr s" "ipc_threads_ok K s" "ports_ok s" "supply_ok s" "finite (dom (threads s))"
    "finite (dom (requests s))" "finite (dom (mports s))" "dom (threads s) = T" "port_waits s = W"
  let ?rq = "\<lparr>rq_ref = 1, rq_thread = t, rq_queue = None\<rparr>"
  let ?s = "s\<lparr>threads := (threads s)(t \<mapsto> th\<lparr>t_ref := t_ref th + 1\<rparr>), requests := (requests s)(r \<mapsto> ?rq)\<rparr>"
  have new: "requests s r = None" using r(1) by (simp add: fresh_at_def)
  have "queued ?s m = queued s m" for m
    using msum_upd [OF i(6) th, of "th_refs m" "th\<lparr>t_ref := t_ref th + 1\<rparr>"] by (simp add: queued_def th_refs_def)
  then have "msgs_ok mext A hm ?s" using msgs_ok_le [OF i(1), of ?s hm] by simp
  moreover have q: "waiting_rq s r' + count hr r' \<le> rq_count s r'" for r' using i(2) unfolding rqs_ok_def by blast
  have "r \<notin> set (retired_rq s)" using i(2) new by (auto simp: rqs_ok_def domIff)
  moreover have "waiting_rq s r = 0 \<and> count hr r = 0" using q [of r] new by (simp add: rq_count_def)
  ultimately have "rqs_ok (add_mset r hr) ?s"
    using i(2) q th by (auto simp: rqs_ok_def waiting_rq_def rq_count_def split: if_splits)
  moreover have "reqs_of ?s t' = reqs_of s t' + (if t' = t then 1 else 0)" for t'
    using msum_new [OF i(7) new, of "\<lambda>rq. if rq_thread rq = t' then 1 else 0" ?rq] by (simp add: reqs_of_def)
  then have "ipc_threads_ok K ?s" using i(3) th by (force simp: ipc_threads_ok_def split: if_splits)
  moreover have "supply_ok ?s" using i(5) r(2) by (auto simp: supply_ok_def fresh_at_def)
  moreover have "dom (threads ?s) = T" using i(9) th by auto
  ultimately show ?thesis using i(4,6-8,10) \<open>msgs_ok mext A hm ?s\<close> by (intro ipc_invI) (auto simp: finite_ok_def)
qed

lemma wp_create_request [ipc_wp]:
  assumes inv: "ipc_inv K A hm hr T W s" "t \<in> T" and Q: "\<And>s'. ipc_inv K A hm hr T W s' \<Longrightarrow> Q (None, s')"
    "\<And>r s'. ipc_inv K A hm (add_mset r hr) T W s' \<Longrightarrow> Q (Some r, s')"
  shows "wp (create_ipc_request t s) Q"
proof -
  obtain a s' where a: "ipc_alloc s = (a, s')" by (cases "ipc_alloc s")
  note s' = inv_alloc(1) [OF inv(1) a]
  obtain th where th: "threads s' t = Some th" using inv_thread [OF s' inv(2)] by blast
  show ?thesis using s' a th Q inv_create_request [OF s' _ _ th] inv_alloc(2) [OF inv(1) a]
    by (auto simp: create_ipc_request_def ref_get_not_zero_def ref_init_def split: option.splits if_splits)
qed

lemma wp_wait_dequeue_check [ipc_wp]:
  assumes inv: "ipc_inv K A hm hr T W s" "W p = Some ws"
    and Q: "Q (None, s)" "\<And>r st ws' s'. ws = (r, st) # ws' \<Longrightarrow> ipc_inv K A hm (add_mset r hr) T (W(p \<mapsto> ws')) s' \<Longrightarrow> Q (Some r, s')"
  shows "wp (wait_dequeue_check p want s) Q"
proof -
  obtain mp where mp: "mports s p = Some mp" "wait_q mp = ws" "port_wait_ok mp" using inv_port [OF inv] by blast
  show ?thesis
  proof (cases ws)
    case (Cons x ws')
    obtain r st where x: "x = (r, st)" by (cases x)
    let ?f = "\<lambda>mp. mp\<lparr>wait_q := ws', tail_state := (if ws' = [] then IPC_PORT_STATE_EMPTY else tail_state mp)\<rparr>"
    have "finite (dom (mports s))" using inv(1) by (rule ipc_invE)
    then have "0 < waiting_rq s r"
      using msum_ge [of "mports s" p mp "\<lambda>mp. count_list (map fst (wait_q mp)) r"] mp Cons x by (simp add: waiting_rq_def)
    then have "0 < rq_count s r" using waiting_bound [OF inv(1), of r] by simp
    then have "wp (request_get r s) (\<lambda>s. wp (upd_port p ?f s) (\<lambda>s. Q (Some r, s)))"
    proof (rule wp_request_get [OF inv(1)])
      fix s'
      assume s': "ipc_inv K A hm (add_mset r hr) T W s'" "mports s' = mports s"
      have "port_wait_ok (?f mp)" using mp Cons by (auto simp: port_wait_ok_def)
      then have "ipc_inv K A hm (add_mset r hr) T (W(p \<mapsto> wait_q (?f mp))) (s'\<lparr>mports := (mports s')(p \<mapsto> ?f mp)\<rparr>)"
        using mp s'(2) Cons by (intro inv_upd_port [OF s'(1), of p mp]) auto
      then show "wp (upd_port p ?f s') (\<lambda>s. Q (Some r, s))" using mp s'(2) Q(2) [OF Cons [unfolded x]] by (simp add: upd_port_def)
    qed
    then show ?thesis using Q(1) by (simp add: wait_dequeue_check_def mp Cons x)
  qed (simp add: wait_dequeue_check_def mp Q)
qed

lemma wp_wait_enqueue_check [ipc_wp]:
  assumes inv: "ipc_inv K A hm (add_mset r hr) T W s" "W p = Some ws"
    and st: "st \<in> {IPC_PORT_STATE_SEND, IPC_PORT_STATE_RECV}" "expected \<in> {IPC_PORT_STATE_EMPTY, st}"
    and Q: "Q (E_REND_AGAIN, s)" "\<And>s'. ipc_inv K A hm (add_mset r hr) T (W(p \<mapsto> ws @ [(r, st)])) s' \<Longrightarrow> Q (REND_SUCCESS, s')"
  shows "wp (wait_enqueue_check p r st expected s) Q"
proof -
  obtain mp where mp: "mports s p = Some mp" "wait_q mp = ws" "port_wait_ok mp" using inv_port [OF inv] by blast
  have "0 < rq_count s r" using waiting_bound [OF inv(1), of r] by simp
  then have "wp (request_get r s) (\<lambda>s. wp (upd_port p (\<lambda>mp. mp\<lparr>wait_q := wait_q mp @ [(r, st)], tail_state := st\<rparr>) s) (\<lambda>s. Q (REND_SUCCESS, s)))"
    if e: "tail_state mp = expected"
  proof (rule wp_request_get [OF inv(1)])
    fix s'
    assume s': "ipc_inv K A hm (add_mset r (add_mset r hr)) T W s'" "mports s' = mports s"
    let ?f = "\<lambda>mp. mp\<lparr>wait_q := wait_q mp @ [(r, st)], tail_state := st\<rparr>"
    have "port_wait_ok (?f mp)" using mp st e
      by (auto simp: port_wait_ok_def IPC_PORT_STATE_EMPTY_def IPC_PORT_STATE_SEND_def IPC_PORT_STATE_RECV_def)
    then have "ipc_inv K A hm (add_mset r hr) T (W(p \<mapsto> wait_q (?f mp))) (s'\<lparr>mports := (mports s')(p \<mapsto> ?f mp)\<rparr>)"
      using mp s'(2) by (intro inv_upd_port [OF s'(1), of p mp]) auto
    then show "wp (upd_port p ?f s') (\<lambda>s. Q (REND_SUCCESS, s))" using mp s'(2) Q(2) by (simp add: upd_port_def)
  qed
  then show ?thesis using Q(1) by (simp add: wait_enqueue_check_def mp)
qed

lemma wp_upd_port_same:
  assumes inv: "ipc_inv K A hm hr T W s" "W p = Some ws" and f: "\<And>mp. wait_q (f mp) = wait_q mp" "\<And>mp. tail_state (f mp) = tail_state mp"
    and Q: "\<And>s'. ipc_inv K A hm hr T W s' \<Longrightarrow> Q s'"
  shows "wp (upd_port p f s) Q"
proof -
  obtain mp where mp: "mports s p = Some mp" "wait_q mp = ws" "port_wait_ok mp" using inv_port [OF inv] by blast
  have "ipc_inv K A hm hr T (W(p \<mapsto> wait_q (f mp))) (s\<lparr>mports := (mports s)(p \<mapsto> f mp)\<rparr>)"
    using mp f by (intro inv_upd_port [OF inv(1) mp(1)]) (auto simp: port_wait_ok_def)
  moreover have "W(p \<mapsto> wait_q (f mp)) = W" using inv(2) f mp by auto
  ultimately show ?thesis using mp Q by (simp add: upd_port_def)
qed

lemma wp_port_ops_begin [ipc_wp]:
  assumes "ipc_inv K A hm hr T W s" "W p = Some ws" "\<And>b s'. ipc_inv K A hm hr T W s' \<Longrightarrow> Q (b, s')"
  shows "wp (port_ops_begin allow p ty s) Q"
  unfolding port_ops_begin_def wp_bind
  by (rule wp_mports [OF assms(1,2)]) (auto intro!: wp_upd_port_same [OF assms(1,2)] assms(3) assms(1))

lemma wp_port_ops_end [ipc_wp]:
  assumes "ipc_inv K A hm hr T W s" "W p = Some ws" "\<And>s'. ipc_inv K A hm hr T W s' \<Longrightarrow> Q s'"
  shows "wp (port_ops_end p s) Q"
  unfolding port_ops_end_def by (rule wp_upd_port_same [OF assms(1,2)]) (simp_all add: assms(3))

end
