(* ===== verification/Ipc_Safe.thy ===== *)
theory Ipc_Safe
  imports Ipc_Inv
begin

text \<open>The calls of the send and receive paths keep the invariant.\<close>

lemma wp_drop_orphan [ipc_wp]:
  assumes "ipc_inv K A hm hr T W s" "t \<in> T" "\<And>s'. ipc_inv K A hm hr T W s' \<Longrightarrow> Q s'"
  shows "wp (ipc_drop_one_orphan_send_msg t s) Q"
  unfolding ipc_drop_one_orphan_send_msg_def wp_bind
  by (insert assms(1,2), (assumption | rule wp_step | rule assms(3) | rule ipc_wp)+)

lemma wp_match_loop [ipc_wp]:
  assumes "ipc_inv K A hm hr T W s" "W p = Some ws0" "length ws0 \<le> length ws"
    and "\<And>ws' s'. length ws' \<le> length ws0 \<Longrightarrow> ipc_inv K A hm hr T (W(p \<mapsto> ws')) s' \<Longrightarrow> Q (None, s')"
    and "\<And>r ws' s'. length ws' < length ws0 \<Longrightarrow> ipc_inv K A hm (add_mset r hr) T (W(p \<mapsto> ws')) s' \<Longrightarrow> Q (Some r, s')"
  shows "wp (match_loop ws p want want_status s) Q"
  using assms
proof (induction ws arbitrary: ws0 s W)
  case Nil
  have "W(p \<mapsto> ws0) = W" using Nil(2) by auto
  then have "Q (None, s)" using Nil(4) [of ws0 s] Nil(1) by simp
  then show ?case
    unfolding match_loop.simps wp_bind by (intro wp_wait_dequeue_check [OF Nil(1,2)]) (use Nil(3) in simp_all)
next
  case (Cons w ws)
  have W: "W(p \<mapsto> ws0) = W" using Cons.prems(2) by auto
  show ?case
    unfolding match_loop.simps wp_bind
  proof (rule wp_wait_dequeue_check [OF Cons.prems(1,2)], goal_cases)
    case 1
    then show ?case using Cons.prems(1) Cons.prems(4) [of ws0] W by simp
  next
    case (2 r st ws' s')
    have ih: "wp (match_loop ws p want want_status s) Q" if "ipc_inv K A hm hr T (W(p \<mapsto> ws')) s" for s
    proof (rule Cons.IH [OF that])
      show "(W(p \<mapsto> ws')) p = Some ws'" "length ws' \<le> length ws" using 2(1) Cons.prems(3) by auto
    next
      fix ws'' s'
      assume "length ws'' \<le> length ws'" "ipc_inv K A hm hr T (W(p \<mapsto> ws', p \<mapsto> ws'')) s'"
      then show "Q (None, s')" using Cons.prems(4) [of ws'' s'] 2(1) by (simp add: fun_upd_upd del: fun_upd_apply)
    next
      fix r ws'' s'
      assume "length ws'' < length ws'" "ipc_inv K A hm (add_mset r hr) T (W(p \<mapsto> ws', p \<mapsto> ws'')) s'"
      then show "Q (Some r, s')" using Cons.prems(5) [of ws'' r s'] 2(1) by (simp add: fun_upd_upd del: fun_upd_apply)
    qed
    show ?case
      unfolding prod.case option.case wp_bind
      by (rule wp_requests [OF 2(2)], rule wp_get_status [OF 2(2)], assumption, rule wp_cas_port_ptr [OF 2(2)], assumption,
          unfold prod.case, rule wp_if, unfold wp_bind, erule wp_request_put, erule ih)
        (use 2(1) in \<open>auto intro: Cons.prems(5) simp del: fun_upd_apply\<close>)
  qed
qed

lemma wp_try_match [ipc_wp]:
  assumes "ipc_inv K A hm hr T W s" "W p = Some ws"
    and "\<And>ws' s'. length ws' \<le> length ws \<Longrightarrow> ipc_inv K A hm hr T (W(p \<mapsto> ws')) s' \<Longrightarrow> Q (None, s')"
    and "\<And>r ws' s'. length ws' < length ws \<Longrightarrow> ipc_inv K A hm (add_mset r hr) T (W(p \<mapsto> ws')) s' \<Longrightarrow> Q (Some r, s')"
  shows "wp (ipc_port_try_match p st s) Q"
  unfolding ipc_port_try_match_def wp_bind Let_def
  by (rule wp_mports [OF assms(1,2)], rule wp_match_loop [OF assms(1,2)]) (simp_all add: assms(3,4))

lemma wp_enqueue_wait [ipc_wp]:
  assumes inv: "ipc_inv K A hm hr T W s" "W p = Some ws" "t \<in> T" and st: "st \<in> {IPC_PORT_STATE_SEND, IPC_PORT_STATE_RECV}"
    and Q: "\<And>e s'. e \<noteq> REND_SUCCESS \<Longrightarrow> ipc_inv K A hm hr T W s' \<Longrightarrow> Q (e, s')"
      "\<And>r s'. ipc_inv K A hm hr T (W(p \<mapsto> ws @ [(r, st)])) s' \<Longrightarrow> Q (REND_SUCCESS, s')"
  shows "wp (ipc_port_enqueue_wait p st t s) Q"
proof -
  obtain mp where mp: "mports s p = Some mp" using inv_port [OF inv(1,2)] by blast
  let ?q = "take_bit 8 (tail_state mp)"
  show ?thesis
    unfolding ipc_port_enqueue_wait_def ipc_get_queue_state_def mp wp_bind option.map wp_Some Let_def
    by (insert inv st, (assumption | rule wp_step | rule Q(2) Q(1) | rule ipc_wp inv_queue_ptr | simp)+)
qed

lemma wp_transfer [ipc_wp]:
  assumes inv: "ipc_inv K None hm hr T W s" "a \<in> T" "b \<in> T" and Q: "\<And>e s'. ipc_inv K None hm hr T W s' \<Longrightarrow> e \<noteq> E_REND_IPC \<Longrightarrow> Q (e, s')"
  shows "wp (ipc_transfer_message a b s) Q"
proof -
  obtain x s' where x: "ipc_alloc s = (x, s')" by (cases "ipc_alloc s")
  note s' = inv_alloc(1) [OF inv(1) x]
  show ?thesis
  proof (cases x)
    case None
    show ?thesis
      unfolding ipc_transfer_message_def x None
      by (insert inv s', (assumption | rule wp_step | rule Q | rule ipc_wp | simp)+)
  next
    case (Some y)
    have y: "ipc_inv K (Some y) hm hr T W (s'\<lparr>msgs := fst (create_message_structure (Some y) (msgs s'))\<rparr>)"
      using inv_create_message [OF s'] inv_alloc(2) [OF inv(1) x Some] by blast
    show ?thesis
      unfolding ipc_transfer_message_def x Some Let_def prod.case option.case
      by (insert inv y, (assumption | erule (1) notE | rule wp_step | rule Q | rule ipc_wp | simp)+)
  qed
qed

lemma wp_finish_match [ipc_wp]:
  assumes "ipc_inv K A hm (add_mset r hr) T W s" "W p = Some ws" "\<And>s'. ipc_inv K A hm hr T W s' \<Longrightarrow> Q s'"
  shows "wp (finish_match p r s) Q"
  unfolding finish_match_def by (insert assms(1,2), (assumption | rule wp_step | rule assms(3) | rule ipc_wp)+)

lemma wp_block_on_port [ipc_wp]:
  assumes inv: "ipc_inv K A hm hr T W s" "W p = Some ws" "t \<in> T" "st \<in> {IPC_PORT_STATE_SEND, IPC_PORT_STATE_RECV}"
    and Q: "\<And>x ws' s'. ipc_inv K A hm hr T (W(p \<mapsto> ws')) s' \<Longrightarrow> x \<noteq> Some (Returned E_REND_IPC) \<Longrightarrow> Q (x, s')"
  shows "wp (block_on_port p st t blocked s) Q"
proof -
  have Q': "Q (x, s')" if "ipc_inv K A hm hr T W s'" "x \<noteq> Some (Returned E_REND_IPC)" for x s'
    using Q [of ws s' x] that inv(2) by (metis fun_upd_triv)
  show ?thesis
    unfolding block_on_port_def
    by (insert inv, (assumption | erule (1) notE | rule wp_step | erule Q' Q | rule ipc_wp | simp)+)
qed

lemma dom_upd: "W p = Some ws \<Longrightarrow> dom (W(p \<mapsto> ws')) = dom W"
  by auto

lemma wp_send_loop [ipc_wp]:
  assumes "ipc_inv K None hm hr T W s" "W p = Some ws" "t \<in> T"
    and "\<And>x W' s'. dom W' = dom W \<Longrightarrow> ipc_inv K None hm hr T W' s' \<Longrightarrow> x \<noteq> Returned E_REND_IPC \<Longrightarrow> Q (x, s')"
  shows "wp (send_loop k bl p t s) Q"
  using assms
proof (induction k arbitrary: s W ws)
  case (Suc k)
  have IH: "wp (send_loop k bl p t s) Q" if "ipc_inv K None hm hr T (W(p \<mapsto> ws')) s" for ws' s
    by (rule Suc.IH [OF that]) (use Suc.prems(2,3,4) in \<open>simp_all add: dom_upd del: fun_upd_apply dom_fun_upd add: fun_upd_same\<close>)
  have IH2: "wp (send_loop k bl p t s) Q" if "ipc_inv K None hm hr T (W(p \<mapsto> ws', p \<mapsto> ws'')) s" for ws' ws'' s
    using that by (intro IH [of ws'']) (simp add: fun_upd_upd del: fun_upd_apply)
  have Q: "Q (x, s')" if "ipc_inv K None hm hr T (W(p \<mapsto> ws')) s'" "x \<noteq> Returned E_REND_IPC" for x ws' s'
    by (rule Suc.prems(4) [OF _ that], rule dom_upd [of W p ws], rule Suc.prems(2))
  have Q2: "Q (x, s')" if "ipc_inv K None hm hr T (W(p \<mapsto> ws', p \<mapsto> ws'')) s'" "x \<noteq> Returned E_REND_IPC" for x ws' ws'' s'
    using that by (intro Q [of ws'']) (simp_all add: fun_upd_upd del: fun_upd_apply)
  show ?case
    unfolding send_loop.simps
    by (insert Suc.prems(1-3), (assumption | erule (1) notE | rule wp_step | erule Q Q2 | erule IH IH2 | rule ipc_wp | simp)+)
qed simp

lemma inv_release_rq: "ipc_inv K A hm (add_mset r hr) T W s \<Longrightarrow> ipc_inv K A hm hr T W s"
  unfolding ipc_inv_def rqs_ok_def by (metis add_leD1 add_mset_add_single count_union add.assoc)

lemma wp_recv_loop:
  assumes "ipc_inv K None hm (case held of None \<Rightarrow> hr | Some r \<Rightarrow> add_mset r hr) T W s" "W p = Some ws" "t \<in> T"
    and "\<And>x W' s'. dom W' = dom W \<Longrightarrow> ipc_inv K None hm hr T W' s' \<Longrightarrow> Q (x, s')"
  shows "wp (recv_loop k bl held p t s) Q"
  using assms
proof (induction k arbitrary: s W ws held)
  case 0
  then show ?case by (cases held) (auto intro: inv_release_rq)
next
  case (Suc k)
  have IH: "wp (recv_loop k bl held p t s) Q"
    if "ipc_inv K None hm (case held of None \<Rightarrow> hr | Some r \<Rightarrow> add_mset r hr) T (W(p \<mapsto> ws')) s" for held ws' s
    by (rule Suc.IH [OF that]) (use Suc.prems(2,3,4) in \<open>simp_all add: dom_upd del: fun_upd_apply dom_fun_upd add: fun_upd_same\<close>)
  have IH0: "wp (recv_loop k bl None p t s) Q" if "ipc_inv K None hm hr T (W(p \<mapsto> ws', p \<mapsto> ws'')) s" for ws' ws'' s
    using that by (intro IH [of _ ws'']) (simp add: fun_upd_upd del: fun_upd_apply)
  have IH1: "wp (recv_loop k bl (Some r) p t s) Q" if "ipc_inv K None hm (add_mset r hr) T (W(p \<mapsto> ws')) s" for r ws' s
    using that by (intro IH [of _ ws']) simp
  have Q: "Q (x, s')" if "ipc_inv K None hm hr T (W(p \<mapsto> ws')) s'" for x ws' s'
    by (rule Suc.prems(4) [OF _ that], rule dom_upd [of W p ws], rule Suc.prems(2))
  have Q2: "Q (x, s')" if "ipc_inv K None hm hr T (W(p \<mapsto> ws', p \<mapsto> ws'')) s'" for x ws' ws'' s'
    using that by (intro Q [of ws'']) (simp add: fun_upd_upd del: fun_upd_apply)
  show ?case
  proof (cases held)
    case None
    then have inv: "ipc_inv K None hm hr T W s" using Suc.prems(1) by simp
    show ?thesis
      unfolding recv_loop.simps None option.case
      by (insert inv Suc.prems(2,3), (assumption | erule (1) notE | rule wp_step | erule Q Q2 | erule IH0 IH1 | rule ipc_wp | simp)+)
  next
    case (Some r)
    have "W(p \<mapsto> ws) = W" using Suc.prems(2) by auto
    then have inv: "ipc_inv K None hm (add_mset r hr) T (W(p \<mapsto> ws)) s" using Suc.prems(1) Some by simp
    show ?thesis
      unfolding recv_loop.simps Some option.case
      by (insert inv Suc.prems(2,3), (assumption | erule (1) notE | rule wp_step | erule Q Q2 | erule IH0 IH1 | rule ipc_wp | simp)+)
  qed
qed

lemmas wp_recv_start [ipc_wp] = wp_recv_loop [where held = None, unfolded option.case]

section \<open>The calls\<close>

lemma wp_send [ipc_wp]:
  assumes "ipc_inv K None hm hr T W s" "W p = Some ws" "t \<in> T"
    and "\<And>x W' s'. dom W' = dom W \<Longrightarrow> ipc_inv K None hm hr T W' s' \<Longrightarrow> x \<noteq> Returned E_REND_IPC \<Longrightarrow> Q (x, s')"
  shows "wp (send_msg k allow p t s) Q" "wp (ipc_try_send_msg k allow p t s) Q"
  unfolding send_msg_def ipc_try_send_msg_def
  by (insert assms(1-3), (assumption | rule refl | rule wp_step | rule assms(4) | rule ipc_wp | simp)+)

lemma wp_recv [ipc_wp]:
  assumes "ipc_inv K None hm hr T W s" "W p = Some ws" "t \<in> T"
    and "\<And>x W' s'. dom W' = dom W \<Longrightarrow> ipc_inv K None hm hr T W' s' \<Longrightarrow> Q (x, s')"
  shows "wp (recv_msg k allow p t s) Q" "wp (ipc_try_recv_msg k allow p t s) Q"
  unfolding recv_msg_def ipc_try_recv_msg_def
  by (insert assms(1-3), (assumption | rule refl | rule wp_step | rule assms(4) | rule ipc_wp)+)

lemma wp_woken [ipc_wp]:
  assumes "ipc_inv K A hm hr T W s" "t \<in> T" "\<And>x s'. ipc_inv K A hm hr T W s' \<Longrightarrow> Q (x, s')"
  shows "wp (send_woken t s) Q" "wp (recv_woken t s) Q"
  unfolding send_woken_def recv_woken_def
  by (insert assms(1,2), (assumption | rule wp_step | rule assms(3) | rule ipc_wp wp_threads)+)

lemma wp_live_refs [ipc_wp]:
  assumes inv: "ipc_inv K A (add_mset m hm) hr T W s" and Q: "Q True"
  shows "wp (live_refs m s) Q"
proof -
  obtain mext where ok: "msgs_ok mext A (add_mset m hm) s" using inv by (rule ipc_invE)
  obtain ext where i: "msg_inv ext mext (msgs s)" using ok by (rule msgs_okD)
  have m: "0 < mext m" using held_message [OF ok] by simp
  obtain ms where ms: "messages (msgs s) m = Some ms" using live_message [OF i m] by blast
  have "ms_ref ms \<noteq> 0" using msg_invD(2) [OF i, of m] ms m by (simp add: message_ok_def)
  moreover have "\<exists>md. datas (msgs s) d = Some md \<and> md_ref md \<noteq> 0" if "m_data ms = Some d" for d
  proof -
    have "holders ((msgs s)\<lparr>messages := (messages (msgs s))(m := None)\<rparr>) d + 1 = holders (msgs s) d"
      using holders_upd [OF msg_invD(5) [OF i], of m None d] ms that by (simp add: points_def)
    then obtain md where md: "datas (msgs s) d = Some md" using live_data [OF i, of d] by auto
    then show ?thesis using data_ok_SomeD [OF msg_invD(1) [OF i] md] by auto
  qed
  ultimately show ?thesis using Q ms by (auto simp: live_refs_def split: option.split)
qed

lemma wp_enqueue_msg_for_send [ipc_wp]:
  assumes "ipc_inv K A (add_mset m hm) hr T W s" "t \<in> T" "\<And>s'. ipc_inv K A hm hr T W s' \<Longrightarrow> Q (REND_SUCCESS, s')"
  shows "wp (enqueue_msg_for_send m t s) Q"
  unfolding enqueue_msg_for_send_def
  by (insert assms(1,2), (assumption | rule wp_step | rule assms(3) | rule ipc_wp | simp)+)

lemma wp_dequeue_recv_msg [ipc_wp]:
  assumes "ipc_inv K A hm hr T W s" "t \<in> T" "\<And>s'. ipc_inv K A hm hr T W s' \<Longrightarrow> Q (None, s')"
    and "\<And>m s'. ipc_inv K A (add_mset m hm) hr T W s' \<Longrightarrow> Q (Some m, s')"
  shows "wp (dequeue_recv_msg t s) Q"
  unfolding dequeue_recv_msg_def
  by (insert assms(1,2), (assumption | rule wp_step | rule assms(3,4) | rule ipc_wp)+)

lemma wp_drop_pending [ipc_wp]:
  assumes "ipc_inv K A hm hr T W s" "t \<in> T" "\<And>s'. ipc_inv K A hm hr T W s' \<Longrightarrow> Q s'"
  shows "wp (drop_pending t s) Q"
  unfolding drop_pending_def
  by (insert assms(1,2), (assumption | rule wp_step | rule assms(3) | rule ipc_wp)+)

text \<open>System delivery takes the reference to the message, unless it answers \<open>E_REND_IPC\<close> because a message is pending.\<close>

lemma wp_system_try_deliver [ipc_wp]:
  assumes "ipc_inv K None (add_mset m hm) hr T W s" "W p = Some ws" "t \<in> T"
    and "\<And>s'. ipc_inv K None (add_mset m hm) hr T W s' \<Longrightarrow> Q (Returned E_REND_IPC, s')"
    and "\<And>x W' s'. dom W' = dom W \<Longrightarrow> ipc_inv K None hm hr T W' s' \<Longrightarrow> x \<noteq> Returned E_REND_IPC \<Longrightarrow> Q (x, s')"
  shows "wp (ipc_system_try_deliver k allow p m t s) Q"
  unfolding ipc_system_try_deliver_def
  by (insert assms(1-3), (assumption | rule wp_step | rule assms(4) | rule assms(5) | rule ipc_wp | simp)+)

lemma wp_system_deliver_to [ipc_wp]:
  assumes "ipc_inv K None (add_mset m hm) hr T W s" "rcv \<in> T" "t \<in> T"
    and "\<And>s'. ipc_inv K None (add_mset m hm) hr T W s' \<Longrightarrow> Q (E_REND_IPC, s')"
    and "\<And>x s'. ipc_inv K None hm hr T W s' \<Longrightarrow> x \<noteq> E_REND_IPC \<Longrightarrow> Q (x, s')"
  shows "wp (ipc_system_deliver_to rcv m t s) Q"
  unfolding ipc_system_deliver_to_def
  by (insert assms(1-3), (assumption | rule wp_step | erule assms(5) | rule assms(4) | rule ipc_wp | simp)+)

section \<open>Deferred calls\<close>

lemma wp_clean_send_queue:
  assumes "ipc_inv K A hm hr T W s" "threads s t = Some th" "send_msg_queue th = ms" "t \<in> T" "\<And>s'. ipc_inv K A hm hr T W s' \<Longrightarrow> Q s'"
  shows "wp (clean_send_queue ms t s) Q"
  using assms
proof (induction ms arbitrary: s th)
  case Nil
  then show ?case by (auto intro!: wp_dequeue_send [OF Nil(1,4)])
next
  case (Cons m ms)
  show ?case
    unfolding clean_send_queue.simps wp_bind
    by (rule wp_dequeue_send [OF Cons.prems(1,4)], use Cons.prems in simp)
      (use Cons.prems in \<open>auto intro!: wp_message_put Cons.IH\<close>)
qed

lemma wp_clean_recv_queue:
  assumes "ipc_inv K A hm hr T W s" "threads s t = Some th" "recv_msg_queue th = ms" "t \<in> T" "\<And>s'. ipc_inv K A hm hr T W s' \<Longrightarrow> Q s'"
  shows "wp (clean_recv_queue ms t s) Q"
  using assms
proof (induction ms arbitrary: s th)
  case Nil
  then show ?case by (auto intro!: wp_dequeue_recv [OF Nil(1,4)])
next
  case (Cons m ms)
  show ?case
    unfolding clean_recv_queue.simps wp_bind
    by (rule wp_dequeue_recv [OF Cons.prems(1,4)], use Cons.prems in simp)
      (use Cons.prems in \<open>auto intro!: wp_message_put Cons.IH\<close>)
qed

lemma wp_release:
  assumes "ipc_inv K A hm hr T W s" "t \<in> T" "\<And>s'. ipc_inv K A hm hr T W s' \<Longrightarrow> Q s'"
  shows "wp (thread_release_owned_resources t s) Q"
  unfolding thread_release_owned_resources_def
  by (insert assms(1,2), (assumption | rule refl | rule wp_step | rule assms(3)
      | rule ipc_wp wp_threads wp_clean_send_queue wp_clean_recv_queue)+)

text \<open>The release of a thread does not look at the requests.\<close>

definition rq_blind :: "(ipc \<Rightarrow> ipc option) \<Rightarrow> bool" where
  "rq_blind f \<longleftrightarrow> (\<forall>s R. f (s\<lparr>requests := R\<rparr>) = map_option (requests_update (\<lambda>_. R)) (f s))"

definition rq_blind_res :: "(ipc \<Rightarrow> ('a \<times> ipc) option) \<Rightarrow> bool" where
  "rq_blind_res f \<longleftrightarrow> (\<forall>s R. f (s\<lparr>requests := R\<rparr>) = map_option (apsnd (requests_update (\<lambda>_. R))) (f s))"

lemma rq_blind_bind: "rq_blind f \<Longrightarrow> rq_blind g \<Longrightarrow> rq_blind (\<lambda>s. Option.bind (f s) g)"
  by (auto simp: rq_blind_def map_option_bind bind_map_option comp_def intro!: bind_option_cong)

lemma rq_blind_bind_res:
  "rq_blind_res f \<Longrightarrow> (\<And>x. rq_blind (g x)) \<Longrightarrow> rq_blind (\<lambda>s. Option.bind (f s) (\<lambda>(x, s). g x s))"
  unfolding rq_blind_def rq_blind_res_def by (auto split: bind_split option.split prod.split)

lemma rq_blind_ops:
  "rq_blind (message_put m)" "rq_blind (message_get m)" "rq_blind (upd_thread t f)"
  by (auto simp: rq_blind_def message_put_def message_get_def upd_thread_def split: bind_split)

lemma rq_blind_reads:
  "rq_blind_res (dequeue_send t)" "rq_blind_res (dequeue_recv t)" "rq_blind_res (exchange_pending t v)"
  using rq_blind_ops
  by (auto simp: rq_blind_def rq_blind_res_def dequeue_send_def dequeue_recv_def exchange_pending_def split: bind_split list.split)

lemma rq_blind_option: "rq_blind f \<Longrightarrow> (\<And>m. rq_blind (g m)) \<Longrightarrow> rq_blind (\<lambda>s. case v of None \<Rightarrow> f s | Some m \<Rightarrow> g m s)"
  by (cases v) simp_all

lemma rq_blind_Some: "rq_blind Some" "rq_blind (\<lambda>s. None)"
  by (simp_all add: rq_blind_def)

lemma rq_blind_clean_send: "rq_blind (clean_send_queue ms t)"
  by (induction ms) (auto intro!: rq_blind_bind_res rq_blind_bind rq_blind_option rq_blind_Some rq_blind_ops rq_blind_reads)

lemma rq_blind_clean_recv: "rq_blind (clean_recv_queue ms t)"
  by (induction ms) (auto intro!: rq_blind_bind_res rq_blind_bind rq_blind_option rq_blind_Some rq_blind_ops rq_blind_reads)

lemma rq_blind_threads: "(\<And>th. rq_blind (g th)) \<Longrightarrow> rq_blind (\<lambda>s. Option.bind (threads s t) (\<lambda>th. g th s))"
  unfolding rq_blind_def by (auto split: bind_split)

lemma rq_blind_free: "rq_blind (\<lambda>s. Some (s\<lparr>threads := (threads s)(t := None)\<rparr>))"
  by (simp add: rq_blind_def)

lemma rq_blind_drop_pending: "rq_blind (drop_pending t)"
  unfolding drop_pending_def by (intro rq_blind_bind_res rq_blind_option rq_blind_Some rq_blind_ops rq_blind_reads)

lemma rq_blind_release: "rq_blind (thread_release_owned_resources t)"
  unfolding thread_release_owned_resources_def
  by (intro rq_blind_bind rq_blind_drop_pending rq_blind_threads rq_blind_ops rq_blind_clean_send rq_blind_clean_recv)

lemma rq_blind_thread_put: "rq_blind (thread_put t)"
proof -
  have "rq_blind (\<lambda>s. let (c, freed) = ref_put (t_ref th) True in Option.bind (upd_thread t (\<lambda>th. th\<lparr>t_ref := c\<rparr>) s)
     (\<lambda>s. if freed then Option.bind (thread_release_owned_resources t s) (\<lambda>s. Some (s\<lparr>threads := (threads s)(t := None)\<rparr>)) else Some s))" for th
    by (cases "ref_put (t_ref th) True"; cases "snd (ref_put (t_ref th) True)")
      (auto intro!: rq_blind_bind rq_blind_release rq_blind_Some rq_blind_ops rq_blind_free)
  then show ?thesis unfolding thread_put_def by (rule rq_blind_threads)
qed

lemma rq_blind_same: "rq_blind f \<Longrightarrow> f s = Some s' \<Longrightarrow> requests s' = requests s"
proof -
  assume f: "rq_blind f" "f s = Some s'"
  have "s\<lparr>requests := requests s\<rparr> = s" by (cases s) simp
  then have "map_option (requests_update (\<lambda>_. requests s)) (f s) = f s" using f(1) unfolding rq_blind_def by metis
  then have "requests_update (\<lambda>_. requests s) s' = s'" using f(2) by simp
  then show "requests s' = requests s" by (metis ipc.select_convs(3) ipc.surjective ipc.update_convs(3))
qed

lemma no_reqs: "finite (dom (requests s)) \<Longrightarrow> reqs_of s t = 0 \<Longrightarrow> requests s r = Some rq \<Longrightarrow> rq_thread rq \<noteq> t"
  using msum_ge [of "requests s" r rq "\<lambda>rq. if rq_thread rq = t then 1 else 0"] by (auto simp: reqs_of_def)

lemma inv_remove_thread:
  assumes inv: "ipc_inv K A hm hr T W s" and t: "t \<notin> K" "reqs_of s t = 0"
  shows "ipc_inv K A hm hr (T - {t}) W (s\<lparr>threads := (threads s)(t := None)\<rparr>)"
  using inv
proof (rule ipc_invE)
  fix mext
  assume i: "msgs_ok mext A hm s" "rqs_ok hr s" "ipc_threads_ok K s" "ports_ok s" "supply_ok s" "finite (dom (threads s))"
    "finite (dom (requests s))" "finite (dom (mports s))" "dom (threads s) = T" "port_waits s = W"
  let ?s = "s\<lparr>threads := (threads s)(t := None)\<rparr>"
  have "queued ?s m \<le> queued s m" for m
  proof (cases "threads s t")
    case None
    then have "(threads s)(t := None) = threads s" by auto
    then show ?thesis by (simp add: queued_def)
  qed (use msum_remove [OF i(6), of t] in \<open>simp add: queued_def\<close>)
  then have "msgs_ok mext A hm ?s" using msgs_ok_le [OF i(1), of ?s hm] by simp
  moreover have "rqs_ok hr ?s" using i(2) no_reqs [OF i(7) t(2)] by (auto simp: rqs_ok_def waiting_rq_def rq_count_def)
  moreover have "ipc_threads_ok K ?s" using i(3) t(1) by (auto simp: ipc_threads_ok_def reqs_of_def)
  moreover have "dom (threads ?s) = T - {t}" using i(9) by auto
  ultimately show ?thesis using i(4-10) by (intro ipc_invI) (auto simp: finite_ok_def)
qed

lemma inv_retire_request:
  assumes inv: "ipc_inv K A hm hr T W s" and r: "retired_rq s = r # rs" "requests s r = Some rq" and th: "threads s (rq_thread rq) = Some th"
  shows "ipc_inv K A hm hr T W (s\<lparr>retired_rq := rs, requests := (requests s)(r := None),
           threads := (threads s)(rq_thread rq \<mapsto> th\<lparr>t_ref := t_ref th - 1\<rparr>)\<rparr>)"
    and "reqs_of (s\<lparr>requests := (requests s)(r := None)\<rparr>) (rq_thread rq) + (if rq_thread rq \<in> K then 1 else 0) < nat (t_ref th)"
proof -
  obtain mext where i: "msgs_ok mext A hm s" "rqs_ok hr s" "ipc_threads_ok K s" "ports_ok s" "supply_ok s" "finite (dom (threads s))"
    "finite (dom (requests s))" "finite (dom (mports s))" "dom (threads s) = T" "port_waits s = W"
    using inv by (rule ipc_invE)
  let ?t = "rq_thread rq"
  let ?s = "s\<lparr>retired_rq := rs, requests := (requests s)(r := None), threads := (threads s)(?t \<mapsto> th\<lparr>t_ref := t_ref th - 1\<rparr>)\<rparr>"
  have q: "reqs_of s t = (if t = ?t then 1 else 0) + reqs_of (s\<lparr>requests := (requests s)(r := None)\<rparr>) t" for t
    using msum_remove [OF i(7) r(2), of "\<lambda>rq. if rq_thread rq = t then 1 else 0"] by (simp add: reqs_of_def)
  have k: "int (reqs_of s t + (if t \<in> K then 1 else 0)) \<le> t_ref th'" if "threads s t = Some th'" for t th'
    using i(3) that unfolding ipc_threads_ok_def by blast
  show "reqs_of (s\<lparr>requests := (requests s)(r := None)\<rparr>) ?t + (if ?t \<in> K then 1 else 0) < nat (t_ref th)"
    using k [OF th] q [of ?t] by auto
  have "reqs_of ?s t = reqs_of (s\<lparr>requests := (requests s)(r := None)\<rparr>) t" for t by (simp add: reqs_of_def)
  then have "int (reqs_of ?s t + (if t \<in> K then 1 else 0)) \<le> t_ref th'" if "threads ?s t = Some th'" for t th'
    using that k [OF th] k [of t th'] q [of t] by (auto split: if_splits)
  then have 1: "ipc_threads_ok K ?s" using i(3) th unfolding ipc_threads_ok_def by auto
  have "queued ?s m = queued s m" for m
    using msum_upd [OF i(6) th, of "th_refs m" "th\<lparr>t_ref := t_ref th - 1\<rparr>"] by (simp add: queued_def th_refs_def)
  then have 2: "msgs_ok mext A hm ?s" using msgs_ok_le [OF i(1), of ?s hm] by simp
  have c: "waiting_rq s k + count hr k \<le> rq_count s k" for k using i(2) unfolding rqs_ok_def by blast
  have "rq_ref rq = 0" using i(2) r by (auto simp: rqs_ok_def)
  then have "waiting_rq s r + count hr r = 0" using c [of r] r(2) by (simp add: rq_count_def)
  then have "waiting_rq ?s k + count hr k \<le> rq_count ?s k" for k using c [of k] by (auto simp: waiting_rq_def rq_count_def)
  then have "rqs_ok hr ?s" using i(2) r th unfolding rqs_ok_def by (auto split: if_splits)
  moreover have "supply_ok ?s" using i(5) by (auto simp: supply_ok_def fresh_at_def)
  moreover have "dom (threads ?s) = T" using i(9) th by auto
  ultimately show "ipc_inv K A hm hr T W ?s" using i(4,6-8,10) 1 2 by (intro ipc_invI) (auto simp: finite_ok_def)
qed

lemma wp_thread_put:
  assumes s: "ipc_inv K A hm hr T W (s\<lparr>threads := (threads s)(t \<mapsto> th\<lparr>t_ref := t_ref th - 1\<rparr>)\<rparr>)"
    and th: "threads s t = Some th" "reqs_of s t + (if t \<in> K then 1 else 0) < nat (t_ref th)" "t \<in> T"
    and Q: "\<And>T' s'. ipc_inv K A hm hr T' W s' \<Longrightarrow> Q s'"
  shows "wp (thread_put t s) Q"
proof (cases "t_ref th = 1")
  case True
  let ?s = "s\<lparr>threads := (threads s)(t \<mapsto> th\<lparr>t_ref := 0\<rparr>)\<rparr>"
  have inv: "ipc_inv K A hm hr T W ?s" using s True by simp
  have t: "t \<notin> K" "reqs_of ?s t = 0" using th(2) True by (auto simp: reqs_of_def split: if_splits)
  obtain s' where s': "thread_release_owned_resources t ?s = Some s'" "ipc_inv K A hm hr T W s'"
    using wpD [OF wp_release [OF inv th(3), of "\<lambda>s. ipc_inv K A hm hr T W s"]] by blast
  have "reqs_of s' t = 0" using t(2) rq_blind_same [OF rq_blind_release s'(1)] by (simp add: reqs_of_def)
  then have "ipc_inv K A hm hr (T - {t}) W (s'\<lparr>threads := (threads s')(t := None)\<rparr>)"
    using inv_remove_thread [OF s'(2) t(1)] by simp
  then show ?thesis using Q s'(1) th(1) True by (simp add: thread_put_def upd_thread_def ref_put_def)
next
  case False
  then show ?thesis using Q [OF s] th(1) by (simp add: thread_put_def upd_thread_def ref_put_def)
qed

lemma wp_reclaim_request [ipc_wp]:
  assumes inv: "ipc_inv K A hm hr T W s" and Q: "\<And>T' s'. ipc_inv K A hm hr T' W s' \<Longrightarrow> Q s'"
  shows "wp (reclaim_request s) Q"
proof (cases "retired_rq s")
  case Nil
  then show ?thesis using Q [OF inv] by (simp add: reclaim_request_def)
next
  case (Cons r rs)
  have ok: "rqs_ok hr s" "dom (threads s) = T" using inv by (auto simp: ipc_inv_def)
  then obtain rq where rq: "requests s r = Some rq" "rq_thread rq \<in> T" using Cons unfolding rqs_ok_def by fastforce
  obtain th where th: "threads s (rq_thread rq) = Some th" using inv_thread [OF inv rq(2)] by blast
  note 1 = inv_retire_request [OF inv Cons rq(1) th]
  let ?s = "s\<lparr>retired_rq := rs\<rparr>" and ?R = "(requests s)(r := None)"
  have "reqs_of (?s\<lparr>requests := ?R\<rparr>) (rq_thread rq) = reqs_of (s\<lparr>requests := ?R\<rparr>) (rq_thread rq)" by (simp add: reqs_of_def)
  then have "wp (thread_put (rq_thread rq) (?s\<lparr>requests := ?R\<rparr>)) Q"
    using 1 by (intro wp_thread_put [of K A hm hr T W _ _ th] Q) (simp_all add: th rq(2))
  then obtain s' where s': "thread_put (rq_thread rq) ?s = Some s'" "Q (s'\<lparr>requests := ?R\<rparr>)"
    using rq_blind_thread_put [of "rq_thread rq"] unfolding rq_blind_def by (auto dest!: wpD)
  moreover have "requests s' = requests s" using rq_blind_same [OF rq_blind_thread_put s'(1)] by simp
  ultimately show ?thesis using Cons rq(1) by (simp add: reclaim_request_def delete_ipc_request_def)
qed

definition reclaim_retired_message :: "ipc \<Rightarrow> ipc option" where
  "reclaim_retired_message s =
     (if retired (msgs s) = [] then Some s else do { (_, h) \<leftarrow> reclaim_message (msgs s); Some (s\<lparr>msgs := h\<rparr>) })"

lemma reclaim_message_dom: "reclaim_message h = Some (m, h') \<Longrightarrow> dom (messages h') \<subseteq> dom (messages h)"
  by (auto simp: reclaim_message_def free_message_ref_real_def put_msgdata_def delete_message_structure_def free_msgdata_ref_default_def
      m_free_payload_def delete_msgdata_structure_def Let_def
      split: list.splits bind_splits option.splits if_splits prod.splits)

lemma wp_reclaim_retired_message [ipc_wp]:
  assumes inv: "ipc_inv K None hm hr T W s" and Q: "\<And>s'. ipc_inv K None hm hr T W s' \<Longrightarrow> Q s'"
  shows "wp (reclaim_retired_message s) Q"
proof (cases "retired (msgs s)")
  case Nil
  then show ?thesis using Q [OF inv] by (simp add: reclaim_retired_message_def)
next
  case (Cons m ms)
  obtain mext where ok: "msgs_ok mext None hm s" using inv by (rule ipc_invE)
  obtain h where h: "reclaim_message (msgs s) = Some (m, h)" using ok Cons by (meson msgs_okD reclaim_message_inv)
  have "\<exists>mext'. msgs_ok mext' None hm (s\<lparr>msgs := h\<rparr>)" if ok': "msgs_ok mext None hm s" for mext
  proof -
    obtain ext where i: "msg_inv ext mext (msgs s)" using ok' unfolding msgs_ok_def by blast
    then have "msg_inv ext mext h" using reclaim_message_inv [OF i Cons] h by auto
    then show ?thesis using that by (intro exI [of _ mext]) (auto simp: msgs_ok_def queued_def)
  qed
  then have "ipc_inv K None hm hr T W (s\<lparr>msgs := h\<rparr>)" using reclaim_message_dom [OF h] by (intro inv_msgs [OF inv])
  then show ?thesis using Q h Cons by (simp add: reclaim_retired_message_def)
qed

end
