(* ===== verification/Ipc_Term.thy ===== *)
theory Ipc_Term
  imports Ipc_Safe
begin

text \<open>
  A send ends: each round of its loop takes a request from the wait queue of the port, or the sender goes to sleep or
  returns. The sender must not be on a port already; that no step of the loop changes this is shown first.
\<close>

section \<open>Steps that keep a predicate\<close>

definition keeps :: "('s \<Rightarrow> bool) \<Rightarrow> ('s \<Rightarrow> 's option) \<Rightarrow> bool" where
  "keeps P f \<longleftrightarrow> (\<forall>s s'. P s \<longrightarrow> f s = Some s' \<longrightarrow> P s')"

definition keeps_res :: "('s \<Rightarrow> bool) \<Rightarrow> ('s \<Rightarrow> ('a \<times> 's) option) \<Rightarrow> bool" where
  "keeps_res P f \<longleftrightarrow> (\<forall>s x s'. P s \<longrightarrow> f s = Some (x, s') \<longrightarrow> P s')"

lemma keeps_resD: "keeps_res P f \<Longrightarrow> P s \<Longrightarrow> f s = Some (x, s') \<Longrightarrow> P s'"
  by (simp add: keeps_res_def)

named_theorems keep

lemma keeps_Some [keep]: "keeps P Some" "keeps_res P (\<lambda>s. Some (x, s))" "keeps P (\<lambda>s. None)" "keeps_res P (\<lambda>s. None)"
  by (simp_all add: keeps_def keeps_res_def)

lemma keeps_bind [keep]:
  "keeps P f \<Longrightarrow> keeps P g \<Longrightarrow> keeps P (\<lambda>s. Option.bind (f s) g)"
  "keeps P f \<Longrightarrow> keeps_res P h \<Longrightarrow> keeps_res P (\<lambda>s. Option.bind (f s) h)"
  unfolding keeps_def keeps_res_def bind_eq_Some_conv by blast+

lemma keeps_bind_res [keep]:
  "keeps_res P f \<Longrightarrow> (\<And>x. keeps P (g x)) \<Longrightarrow> keeps P (\<lambda>s. Option.bind (f s) (\<lambda>(x, s). g x s))"
  "keeps_res P f \<Longrightarrow> (\<And>x. keeps_res P (h x)) \<Longrightarrow> keeps_res P (\<lambda>s. Option.bind (f s) (\<lambda>(x, s). h x s))"
  unfolding keeps_def keeps_res_def bind_eq_Some_conv split_paired_Ex prod.case by blast+

lemma keeps_read:
  "(\<And>x. keeps P (g x)) \<Longrightarrow> keeps P (\<lambda>s. Option.bind (rd s) (\<lambda>x. g x s))"
  "(\<And>x. keeps_res P (h x)) \<Longrightarrow> keeps_res P (\<lambda>s. Option.bind (rd s) (\<lambda>x. h x s))"
  unfolding keeps_def keeps_res_def bind_eq_Some_conv by blast+

lemma keeps_if [keep]:
  "keeps P f \<Longrightarrow> keeps P g \<Longrightarrow> keeps P (\<lambda>s. if b then f s else g s)"
  "keeps_res P f' \<Longrightarrow> keeps_res P g' \<Longrightarrow> keeps_res P (\<lambda>s. if b then f' s else g' s)"
  by (cases b; simp)+

lemma keeps_option [keep]:
  "keeps P f \<Longrightarrow> (\<And>x. keeps P (g x)) \<Longrightarrow> keeps P (\<lambda>s. case v of None \<Rightarrow> f s | Some x \<Rightarrow> g x s)"
  "keeps_res P f' \<Longrightarrow> (\<And>x. keeps_res P (g' x)) \<Longrightarrow> keeps_res P (\<lambda>s. case v of None \<Rightarrow> f' s | Some x \<Rightarrow> g' x s)"
  by (cases v; simp)+

lemma keeps_list: "keeps_res P f \<Longrightarrow> (\<And>x xs. keeps_res P (g x xs)) \<Longrightarrow> keeps_res P (\<lambda>s. case v of [] \<Rightarrow> f s | x # xs \<Rightarrow> g x xs s)"
  by (cases v) simp_all

lemma keeps_prod: "(\<And>a b. keeps_res P (g a b)) \<Longrightarrow> keeps_res P (\<lambda>s. case v of (a, b) \<Rightarrow> g a b s)"
  by (cases v) simp

section \<open>A thread that is on no port\<close>

definition off_port :: "nat \<Rightarrow> ipc \<Rightarrow> bool" where
  "off_port t s \<longleftrightarrow> map_option port_ptr (threads s t) = Some None"

lemma off_port_frame [simp]:
  "off_port t (s\<lparr>msgs := x\<rparr>) = off_port t s" "off_port t (s\<lparr>requests := y\<rparr>) = off_port t s" "off_port t (s\<lparr>mports := z\<rparr>) = off_port t s"
  "off_port t (s\<lparr>retired_rq := w\<rparr>) = off_port t s" "off_port t (s\<lparr>mem_supply := u\<rparr>) = off_port t s" "off_port t (others_run s) = off_port t s"
proof -
  have "map_option port_ptr (threads (others_run s) t) = map_option port_ptr (threads s t)"
    by (cases "threads s t") (auto simp: others_run_def split: list.split)
  then show "off_port t (others_run s) = off_port t s" by (simp add: off_port_def)
qed (simp_all add: off_port_def)

lemma keeps_upd_thread: "(\<And>th. port_ptr th = None \<Longrightarrow> port_ptr (f th) = None) \<Longrightarrow> keeps (off_port me) (upd_thread t f)"
  unfolding keeps_def off_port_def by (auto simp: upd_thread_def split: bind_splits)

lemma keeps_ops [keep]:
  "keeps (off_port me) (message_get m)" "keeps (off_port me) (message_put m)" "keeps (off_port me) (delete_message m)"
  "keeps (off_port me) (request_get r)" "keeps (off_port me) (request_put r)" "keeps (off_port me) (upd_port p f)"
  "keeps (off_port me) (thread_set_status_with_expect t e st)" "keeps (off_port me) (upd_thread t (\<lambda>th. th\<lparr>recv_pending_cnt := c th\<rparr>))"
  "keeps (off_port me) (upd_thread t (\<lambda>th. th\<lparr>send_msg_queue := ms\<rparr>))" "keeps (off_port me) (upd_thread t (\<lambda>th. th\<lparr>send_pending_msg := v\<rparr>))"
  "keeps (off_port me) (upd_thread t (\<lambda>th. th\<lparr>recv_msg_queue := q th\<rparr>))"
  unfolding thread_set_status_with_expect_def
  by ((rule keeps_upd_thread, simp) | (simp add: keeps_def message_get_def message_put_def delete_message_def request_get_def request_put_def
      upd_port_def Let_def split: bind_splits prod.splits))+

lemma keeps_others_run [keep]:
  "keeps (off_port me) f \<Longrightarrow> keeps (off_port me) (\<lambda>s. f (others_run s))"
  "keeps_res (off_port me) g \<Longrightarrow> keeps_res (off_port me) (\<lambda>s. g (others_run s))"
  unfolding keeps_def keeps_res_def by (metis off_port_frame(6))+

lemma keeps_cas_port_ptr [keep]: "keeps_res (off_port me) (cas_port_ptr t old None)"
  unfolding cas_port_ptr_def by (rule keeps_read, rule keeps_bind, rule keeps_upd_thread, simp, rule keep)

lemma keeps_dequeue [keep]: "keeps_res (off_port me) (dequeue_send t)"
  unfolding dequeue_send_def by (rule keeps_read, rule keeps_list) (intro keep)+

lemma keeps_pending [keep]: "keeps_res (off_port me) (exchange_pending t v)" "keeps_res (off_port me) (cas_pending t m)"
  unfolding exchange_pending_def cas_pending_def
  by (rule keeps_read, rule keeps_bind, rule keeps_upd_thread, simp, rule keep)+

lemma keeps_enqueue_recv [keep]: "keeps (off_port me) (enqueue_recv t m)"
  unfolding enqueue_recv_def by (intro keep)

lemma keeps_wait_dequeue [keep]: "keeps_res (off_port me) (wait_dequeue_check p st)"
  unfolding wait_dequeue_check_def by (rule keeps_read, rule keeps_list, rule keep, rule keeps_prod, (intro keep)+)

lemma keeps_match_loop [keep]: "keeps_res (off_port me) (match_loop ws p st tst)"
proof (induction ws)
  case Nil
  show ?case unfolding match_loop.simps by (intro keep)
next
  case (Cons w ws)
  show ?case unfolding match_loop.simps
    by (intro keeps_bind_res keeps_option keep) (rule keeps_read, rule keeps_read, intro keep Cons)
qed

lemma keeps_try_match [keep]: "keeps_res (off_port me) (ipc_port_try_match p st)"
  unfolding ipc_port_try_match_def Let_def by (rule keeps_read, rule keep)

lemma keeps_alloc:
  assumes "keeps_res (off_port me) f" "\<And>a. keeps_res (off_port me) (g a)"
  shows "keeps_res (off_port me) (\<lambda>s. case ipc_alloc s of (x, s) \<Rightarrow> (case x of None \<Rightarrow> f s | Some a \<Rightarrow> g a s))"
  unfolding keeps_res_def
proof (intro allI impI)
  fix s x s'
  assume s: "off_port me s" "(case ipc_alloc s of (x, s) \<Rightarrow> (case x of None \<Rightarrow> f s | Some a \<Rightarrow> g a s)) = Some (x, s')"
  obtain y s1 where a: "ipc_alloc s = (y, s1)" by (cases "ipc_alloc s")
  have "off_port me s1" using s(1) a by (auto simp: ipc_alloc_def split: list.splits)
  then show "off_port me s'" using s(2) a keeps_resD [OF assms(1), of s1 x s'] keeps_resD [OF assms(2), of s1 _ x s'] by (cases y) simp_all
qed

lemma keeps_msgs:
  assumes "keeps_res (off_port me) f"
  shows "keeps_res (off_port me) (\<lambda>s. f (s\<lparr>msgs := h s\<rparr>))"
  unfolding keeps_res_def
proof (intro allI impI)
  fix s x s'
  assume "off_port me s" "f (s\<lparr>msgs := h s\<rparr>) = Some (x, s')"
  then show "off_port me s'" using assms off_port_frame(1) unfolding keeps_res_def by blast
qed

lemma keeps_put_msgs:
  "keeps (off_port me) (\<lambda>s. message_put m (s\<lparr>msgs := h\<rparr>))" "keeps (off_port me) (\<lambda>s. enqueue_recv t m (s\<lparr>msgs := h\<rparr>))"
  using keeps_ops(2) [of me m] keeps_enqueue_recv [of me t m] off_port_frame(1) [where x = h] unfolding keeps_def by blast+

lemma keeps_transfer [keep]: "keeps_res (off_port me) (ipc_transfer_message a b)"
  unfolding ipc_transfer_message_def Let_def
  by (rule keeps_read, rule keeps_if, rule keep, rule keeps_alloc, rule keep, rule keeps_msgs)
    (rule keeps_put_msgs | rule keep | rule keeps_read | rule keeps_prod)+

section \<open>The rounds of a send\<close>

lemma wp_eqI: "wp c (\<lambda>x. c = Some x \<longrightarrow> Q x) \<Longrightarrow> wp c Q"
  by (cases c) simp_all

lemma wp_keepsI: "keeps_res P f \<Longrightarrow> P s \<Longrightarrow> wp (f s) (\<lambda>(x, s'). P s' \<longrightarrow> Q (x, s')) \<Longrightarrow> wp (f s) Q"
  by (cases "f s") (auto dest: keeps_resD)

lemma wp_keeps1: "keeps P f \<Longrightarrow> P s \<Longrightarrow> wp (f s) (\<lambda>s'. P s' \<longrightarrow> Q s') \<Longrightarrow> wp (f s) Q"
  by (cases "f s") (auto simp: keeps_def)

definition head_state :: "nat \<Rightarrow> ipc \<Rightarrow> u16 option" where
  "head_state p s = Option.bind (mports s p) (\<lambda>mp. if wait_q mp = [] then None else Some (snd (hd (wait_q mp))))"

lemma wait_dequeue_None: "wait_dequeue_check p want s = Some (None, s') \<Longrightarrow> s' = s \<and> head_state p s \<noteq> Some want"
  by (auto simp: wait_dequeue_check_def head_state_def split: bind_splits list.splits if_splits prod.splits)

lemma match_None: "match_loop ws p want wst s = Some (None, s') \<Longrightarrow> head_state p s' \<noteq> Some want"
  by (induction ws arbitrary: s) (auto split: bind_splits option.splits if_splits dest!: wait_dequeue_None)

lemma enqueue_wait_no_again:
  assumes "off_port me s" "mports s p = Some mp" "tail_state mp = IPC_PORT_STATE_EMPTY \<or> tail_state mp = st"
    and "st = IPC_PORT_STATE_SEND \<or> st = IPC_PORT_STATE_RECV" "ipc_port_enqueue_wait p st me s = Some (e, s')"
  shows "e \<noteq> E_REND_AGAIN"
proof -
  have q: "take_bit 8 (tail_state mp) = tail_state mp"
    using assms(3,4) by (auto simp: IPC_PORT_STATE_EMPTY_def IPC_PORT_STATE_SEND_def IPC_PORT_STATE_RECV_def)
  obtain th where th: "threads s me = Some th" "port_ptr th = None" using assms(1) by (auto simp: off_port_def)
  have ok: "\<not> (tail_state mp \<noteq> IPC_PORT_STATE_EMPTY \<and> tail_state mp \<noteq> st)" using assms(3) by blast
  show ?thesis
    using assms(2,5) th q ok
    by (auto simp: ipc_port_enqueue_wait_def ipc_get_queue_state_def create_ipc_request_def ipc_alloc_def cas_port_ptr_def upd_thread_def
        wait_enqueue_check_def request_get_def upd_port_def Let_def split: bind_splits option.splits if_splits list.splits prod.splits)
qed

lemma tail_from_head:
  assumes "ipc_inv K A hm hr T W s" "mports s p = Some mp" "head_state p s \<noteq> Some IPC_PORT_STATE_RECV"
  shows "tail_state mp = IPC_PORT_STATE_EMPTY \<or> tail_state mp = IPC_PORT_STATE_SEND"
proof -
  have "port_wait_ok mp" using assms(1,2) by (auto simp: ipc_inv_def ports_ok_def)
  then show ?thesis using assms(2,3) by (cases "wait_q mp") (auto simp: port_wait_ok_def head_state_def)
qed

lemma block_ends:
  assumes inv: "ipc_inv K None hm hr T W s" "W p = Some ws" "me \<in> T" and me: "off_port me s" and head: "head_state p s \<noteq> Some IPC_PORT_STATE_RECV"
  shows "wp (block_on_port p IPC_PORT_STATE_SEND me blocked s) (\<lambda>(out, s'). out \<noteq> None \<and> out \<noteq> Some Looping)"
proof -
  obtain th where th: "threads s me = Some th" "port_ptr th = None" using me by (auto simp: off_port_def)
  obtain mp where mp: "mports s p = Some mp" using inv_port [OF inv(1,2)] by blast
  let ?s = "s\<lparr>threads := (threads s)(me \<mapsto> th\<lparr>t_status := blocked\<rparr>)\<rparr>"
  have set: "thread_set_status me blocked s = Some (t_status th, ?s)" using th by (simp add: thread_set_status_def upd_thread_def)
  have inv': "ipc_inv K None hm hr T W ?s" by (rule inv_upd_thread [OF inv(1) th(1)]) (simp_all add: th_refs_def)
  have no: "e \<noteq> E_REND_AGAIN" if "ipc_port_enqueue_wait p IPC_PORT_STATE_SEND me ?s = Some (e, s')" for e s'
  proof (rule enqueue_wait_no_again [OF _ _ _ _ that])
    show "off_port me ?s" "mports ?s p = Some mp" using th mp by (simp_all add: off_port_def)
    show "tail_state mp = IPC_PORT_STATE_EMPTY \<or> tail_state mp = IPC_PORT_STATE_SEND" by (rule tail_from_head [OF inv(1) mp head])
  qed simp
  show ?thesis
    unfolding block_on_port_def set wp_bind wp_Some prod.case
    by (rule wp_eqI, rule wp_enqueue_wait [OF inv' inv(2,3)], simp)
      (insert inv(2,3), (assumption | rule impI wp_step | erule wp_port_ops_end wp_set_status_with_expect | drule no | simp)+)
qed

lemma send_loop_ends:
  assumes "ipc_inv K None hm hr T W s" "W p = Some ws" "length ws < k" "me \<in> T" "off_port me s"
  shows "wp (send_loop k bl p me s) (\<lambda>(out, s'). out \<noteq> Looping)"
  using assms
proof (induction k arbitrary: s W ws)
  case (Suc k)
  show ?case
    unfolding send_loop.simps wp_bind
  proof (rule wp_keepsI [OF keeps_try_match Suc.prems(5)], rule wp_eqI, rule wp_try_match [OF Suc.prems(1,2)], goal_cases)
    case (1 ws' s')
    show ?case
    proof (unfold prod.case option.case, intro impI)
      assume m: "ipc_port_try_match p IPC_PORT_STATE_SEND s = Some (None, s')" and off: "off_port me s'"
      have "head_state p s' \<noteq> Some IPC_PORT_STATE_RECV" using m by (auto simp: ipc_port_try_match_def Let_def split: bind_splits dest: match_None)
      note block = block_ends [OF 1(2) map_upd_same Suc.prems(4) off this]
      show "wp (if \<not> bl then do { s \<leftarrow> port_ops_end p s'; Some (Returned E_REND_AGAIN, s) }
          else do {
            (out, s) \<leftarrow> block_on_port p IPC_PORT_STATE_SEND me thread_status_block_on_send s';
            (case out of Some out \<Rightarrow> Some (out, s) | None \<Rightarrow> send_loop k bl p me s)
          }) (\<lambda>(out, s'). out \<noteq> Looping)"
        by (rule wp_if, rule wp_bindI, rule wp_port_ops_end [OF 1(2) map_upd_same], simp, rule wp_bindI, rule wp_mono [OF block])
          (auto split: option.split)
    qed
  next
    case (2 r ws' s')
    have IH: "wp (send_loop k bl p me s') (\<lambda>(out, s'). out \<noteq> Looping)"
      if "ipc_inv K None hm hr T (W(p \<mapsto> ws')) s'" "off_port me s'" for s'
      using 2(1) Suc.prems(3,4) that(2) by (intro Suc.IH [OF that(1), of ws']) simp_all
    show ?case
      by (unfold prod.case option.case wp_bind, intro impI, rule wp_requests [OF 2(2)], rule wp_keepsI [OF keeps_transfer],
          assumption, rule wp_transfer [OF 2(2) Suc.prems(4)], assumption)
        (assumption | rule impI conjI wp_step | rule wp_set_status_with_expect wp_finish_match
          | (rule wp_keeps1 [OF keeps_ops(5)], assumption, rule wp_request_put) | (rule IH) | simp)+
  qed
qed simp

end
