(* ===== verification/Ipc_Spec.thy ===== *)
theory Ipc_Spec
  imports Ipc_Term
begin

text \<open>
  What the send and receive paths promise: no sequence of calls uses a freed message, request or thread; a send to a
  waiting receiver delivers the first message and wakes it; a send returns or sleeps; and where the code does not do what
  it says.
\<close>

section \<open>Sequences of calls\<close>

text \<open>
  A call with the thread that makes it, and the two deferred reclamations. \<open>Release\<close> is a client that gives up a message.
\<close>

datatype ipc_call =
    Send nat nat | Recv nat nat | TrySend nat nat | TryRecv nat nat
  | SendWoken nat | RecvWoken nat
  | EnqueueForSend nat nat | DequeueRecv nat
  | SystemDeliver nat nat nat | SystemDeliverTo nat nat nat
  | Release nat | ReclaimRequest | ReclaimMessage

text \<open>
  The calls on a state with the messages \<open>hm\<close> that clients hold. A thread of \<open>K\<close> makes the call, on a port that exists,
  with a message that is held; any other call is not made. What a call takes or gives up leaves or enters \<open>hm\<close>.
\<close>

definition ipc_exec :: "nat \<Rightarrow> (nat \<Rightarrow> port_ops_type \<Rightarrow> error_t) \<Rightarrow> nat set \<Rightarrow> ipc_call \<Rightarrow> nat multiset \<times> ipc \<Rightarrow> (nat multiset \<times> ipc) option" where
  "ipc_exec k allow K c = (\<lambda>(hm, s).
     let on = (\<lambda>p t. p \<in> dom (mports s) \<and> t \<in> K);
         keep = map_option (\<lambda>(_, s). (hm, s)); woken = map_option (\<lambda>(_, s). (hm, s)) in
     (case c of
        Send p t \<Rightarrow> if on p t then keep (send_msg k allow p t s) else Some (hm, s)
      | Recv p t \<Rightarrow> if on p t then keep (recv_msg k allow p t s) else Some (hm, s)
      | TrySend p t \<Rightarrow> if on p t then keep (ipc_try_send_msg k allow p t s) else Some (hm, s)
      | TryRecv p t \<Rightarrow> if on p t then keep (ipc_try_recv_msg k allow p t s) else Some (hm, s)
      | SendWoken t \<Rightarrow> if t \<in> K then woken (send_woken t s) else Some (hm, s)
      | RecvWoken t \<Rightarrow> if t \<in> K then woken (recv_woken t s) else Some (hm, s)
      | EnqueueForSend m t \<Rightarrow>
          if m \<in># hm \<and> t \<in> K then map_option (\<lambda>(e, s). (if e = REND_SUCCESS then hm - {#m#} else hm, s)) (enqueue_msg_for_send m t s)
          else Some (hm, s)
      | DequeueRecv t \<Rightarrow>
          if t \<in> K then map_option (\<lambda>(r, s). (case r of None \<Rightarrow> hm | Some m \<Rightarrow> add_mset m hm, s)) (dequeue_recv_msg t s)
          else Some (hm, s)
      | SystemDeliver p m t \<Rightarrow>
          if m \<in># hm \<and> on p t
          then map_option (\<lambda>(e, s). (if e = Returned E_REND_IPC then hm else hm - {#m#}, s)) (ipc_system_try_deliver k allow p m t s)
          else Some (hm, s)
      | SystemDeliverTo rcv m t \<Rightarrow>
          if m \<in># hm \<and> rcv \<in> K \<and> t \<in> K
          then map_option (\<lambda>(e, s). (if e = E_REND_IPC then hm else hm - {#m#}, s)) (ipc_system_deliver_to rcv m t s)
          else Some (hm, s)
      | Release m \<Rightarrow> if m \<in># hm then map_option (\<lambda>s. (hm - {#m#}, s)) (message_put m s) else Some (hm, s)
      | ReclaimRequest \<Rightarrow> map_option (\<lambda>s. (hm, s)) (reclaim_request s)
      | ReclaimMessage \<Rightarrow> map_option (\<lambda>s. (hm, s)) (reclaim_retired_message s)))"

fun ipc_run :: "nat \<Rightarrow> (nat \<Rightarrow> port_ops_type \<Rightarrow> error_t) \<Rightarrow> nat set \<Rightarrow> ipc_call list \<Rightarrow> nat multiset \<times> ipc \<Rightarrow> (nat multiset \<times> ipc) option" where
  "ipc_run k allow K [] x = Some x"
| "ipc_run k allow K (c # cs) x = do { x \<leftarrow> ipc_exec k allow K c x; ipc_run k allow K cs x }"

definition ipc_ok :: "nat set \<Rightarrow> nat multiset \<times> ipc \<Rightarrow> bool" where
  "ipc_ok K = (\<lambda>(hm, s). \<exists>T W. ipc_inv K None hm {#} T W s)"

lemma wp_map: "wp c (\<lambda>r. Q (f r)) \<Longrightarrow> wp (map_option f c) Q"
  by (cases c) simp_all

lemma ipc_okI: "ipc_inv K None hm {#} T W s \<Longrightarrow> ipc_ok K (hm, s)"
  by (auto simp: ipc_ok_def)

lemma ipc_exec_ok:
  assumes "ipc_ok K x"
  shows "wp (ipc_exec k allow K c x) (ipc_ok K)"
proof -
  obtain hm s T W where x: "x = (hm, s)" and inv: "ipc_inv K None hm {#} T W s" using assms by (auto simp: ipc_ok_def)
  have T: "t \<in> T" if "t \<in> K" for t using inv that by (auto simp: ipc_inv_def ipc_threads_ok_def)
  have W: "W p = Some (the (W p))" if "p \<in> dom (mports s)" for p using inv that by (auto simp: ipc_inv_def port_waits_def)
  have hm: "ipc_inv K None (add_mset m (hm - {#m#})) {#} T W s" if "m \<in># hm" for m using inv that by simp
  note calls = wp_send [OF inv] wp_recv [OF inv] wp_woken [OF inv] wp_enqueue_msg_for_send [OF hm] wp_dequeue_recv_msg [OF inv]
    wp_system_try_deliver [OF hm] wp_system_deliver_to [OF hm] wp_message_put [OF hm] wp_reclaim_request [OF inv]
    wp_reclaim_retired_message [OF inv]
  show ?thesis
    unfolding ipc_exec_def x Let_def prod.case
    by (cases c; simp only: ipc_call.case;
        (assumption | erule conjE | rule wp_if wp_map wp_SomeI ipc_okI [OF inv] | erule ipc_okI | rule calls | rule T | rule W
         | (simp only: prod.case option.case simp_thms if_True if_False; rule ipc_okI; assumption)
         | (simp; rule ipc_okI; assumption))+)
qed

section \<open>Delivery\<close>

lemma ipc_ok_message:
  assumes "ipc_ok K (hm, s)" "threads s t = Some th" "m \<in> set (send_msg_queue th)" "messages (msgs s) m = Some ms"
  shows "0 < ms_ref ms" "m_data ms = Some d \<Longrightarrow> \<exists>md. datas (msgs s) d = Some md \<and> 0 < md_ref md"
proof -
  obtain T W where inv: "ipc_inv K None hm {#} T W s" using assms(1) by (auto simp: ipc_ok_def)
  obtain mext where ok: "msgs_ok mext None hm s" using inv by (rule ipc_invE)
  obtain ext where i: "msg_inv ext mext (msgs s)" using ok by (rule msgs_okD)
  have "0 < count_list (send_msg_queue th) m" using assms(3) by (metis count_list_0_iff gr0I)
  then have "0 < th_refs m th" by (simp add: th_refs_def)
  then have m: "0 < mext m" using queued_message [OF inv ok assms(2)] by blast
  show "0 < ms_ref ms" using msg_invD(2) [OF i, of m] assms(4) m by (simp add: message_ok_def)
  show "\<exists>md. datas (msgs s) d = Some md \<and> 0 < md_ref md" if d: "m_data ms = Some d"
  proof -
    have "holders ((msgs s)\<lparr>messages := (messages (msgs s))(m := None)\<rparr>) d + 1 = holders (msgs s) d"
      using holders_upd [OF msg_invD(5) [OF i], of m None d] assms(4) d by (simp add: points_def)
    then obtain md where md: "datas (msgs s) d = Some md" using live_data [OF i, of d] by auto
    then show ?thesis using data_ok_SomeD [OF msg_invD(1) [OF i] md] by auto
  qed
qed

lemma ipc_ok_waiting:
  assumes "ipc_ok K (hm, s)" "mports s p = Some mp" "(r, st) \<in> set (wait_q mp)" "requests s r = Some rq"
  shows "0 < rq_ref rq"
proof -
  obtain T W where inv: "ipc_inv K None hm {#} T W s" using assms(1) by (auto simp: ipc_ok_def)
  have "finite (dom (mports s))" using inv by (rule ipc_invE)
  then have "count_list (map fst (wait_q mp)) r \<le> waiting_rq s r" unfolding waiting_rq_def
    using msum_ge [of "mports s" p mp "\<lambda>mp. count_list (map fst (wait_q mp)) r"] assms(2) by simp
  moreover have "0 < count_list (map fst (wait_q mp)) r" using assms(3) by (metis count_list_0_iff gr0I image_eqI fst_conv set_map)
  ultimately have "0 < rq_count s r" using waiting_bound [OF inv, of r] by simp
  then show ?thesis using assms(4) by (simp add: rq_count_def)
qed

lemma try_match_first:
  assumes "mports s p = Some mp" "wait_q mp = (r, if my = IPC_PORT_STATE_SEND then IPC_PORT_STATE_RECV else IPC_PORT_STATE_SEND) # ws"
    and "requests s r = Some rq" "0 < rq_ref rq" "threads s (rq_thread rq) = Some th" "port_ptr th = Some p"
    and "t_status th = (if my = IPC_PORT_STATE_SEND then thread_status_block_on_receive else thread_status_block_on_send)"
  shows "ipc_port_try_match p my s =
      Some (Some r, s\<lparr>requests := (requests s)(r \<mapsto> rq\<lparr>rq_ref := rq_ref rq + 1\<rparr>),
        mports := (mports s)(p \<mapsto> mp\<lparr>wait_q := ws, tail_state := (if ws = [] then IPC_PORT_STATE_EMPTY else tail_state mp)\<rparr>),
        threads := (threads s)(rq_thread rq \<mapsto> th\<lparr>port_ptr := None\<rparr>)\<rparr>)"
  using assms
  by (simp add: ipc_port_try_match_def wait_dequeue_check_def request_get_def ref_get_not_zero_def upd_port_def thread_get_status_def
      cas_port_ptr_def upd_thread_def split del: if_split)

lemma transfer_first:
  assumes me: "threads s me = Some mt" "send_pending_msg mt = None" "send_msg_queue mt = m # msq" "t_status mt \<noteq> thread_status_exit"
    and t: "threads s t = Some th" "t_status th \<noteq> thread_status_exit" "t \<noteq> me"
    and m: "messages (msgs s) m = Some ms" "0 < ms_ref ms" "m_data ms = Some d" "datas (msgs s) d = Some md" "0 < md_ref md"
    and env: "mem_supply s = Some a # as" "a \<noteq> m" "quits s = []"
  shows "ipc_transfer_message me t s = Some (REND_SUCCESS, s\<lparr>mem_supply := as,
      threads := (threads s)(me \<mapsto> mt\<lparr>send_pending_msg := None, send_msg_queue := msq\<rparr>,
        t \<mapsto> th\<lparr>recv_msg_queue := recv_msg_queue th @ [a], recv_pending_cnt := recv_pending_cnt th + 1\<rparr>),
      msgs := (msgs s)\<lparr>datas := (datas (msgs s))(d \<mapsto> md\<lparr>md_ref := md_ref md + 1\<rparr>),
        messages := (messages (msgs s))(a \<mapsto> \<lparr>ms_ref = 1, m_data = Some d, receiver = None\<rparr>, m \<mapsto> ms)\<rparr>\<rparr>)"
  using assms
  by (simp add: ipc_transfer_message_def thread_get_status_def ipc_alloc_def create_message_structure_def exchange_pending_def
      upd_thread_def dequeue_send_def message_get_def ref_get_not_zero_def others_run_def fill_message_data_def enqueue_recv_def
      message_put_def put_message_def ref_put_def ref_init_def Let_def)

text \<open>The whole send to a waiting receiver.\<close>

lemma send_waiting:
  assumes ok: "ipc_ok K (hm, s)"
    and port: "mports s p = Some mp" "ops_life mp = LIFE_REGISTERED" "allow p PORT_OPS_SEND = REND_SUCCESS"
    and waits: "wait_q mp = (r, IPC_PORT_STATE_RECV) # ws" "requests s r = Some rq"
    and rcv: "threads s (rq_thread rq) = Some th" "t_status th = thread_status_block_on_receive" "port_ptr th = Some p"
    and me: "threads s me = Some mt" "me \<noteq> rq_thread rq" "send_pending_msg mt = None" "send_msg_queue mt = m # msq"
      "t_status mt \<noteq> thread_status_exit"
    and msg: "messages (msgs s) m = Some ms" "m_data ms = Some d"
    and env: "mem_supply s = Some a # as" "quits s = []"
  obtains s' md where "send_msg (Suc k) allow p me s = Some (Returned REND_SUCCESS, s')"
    "threads s' = (threads s)(me \<mapsto> mt\<lparr>send_msg_queue := msq\<rparr>,
       rq_thread rq \<mapsto> th\<lparr>port_ptr := None, recv_msg_queue := recv_msg_queue th @ [a],
         recv_pending_cnt := recv_pending_cnt th + 1, t_status := thread_status_ready\<rparr>)"
    "datas (msgs s) d = Some md"
    "msgs s' = (msgs s)\<lparr>datas := (datas (msgs s))(d \<mapsto> md\<lparr>md_ref := md_ref md + 1\<rparr>),
        messages := (messages (msgs s))(a \<mapsto> \<lparr>ms_ref = 1, m_data = Some d, receiver = None\<rparr>, m \<mapsto> ms)\<rparr>"
    "port_waits s' = (port_waits s)(p \<mapsto> ws)" "a \<noteq> m"
proof -
  have "m \<in> set (send_msg_queue mt)" using me(4) by simp
  note m = ipc_ok_message [OF ok me(1) this msg(1)]
  obtain md where md: "datas (msgs s) d = Some md" "0 < md_ref md" using m(2) [OF msg(2)] by blast
  have r: "0 < rq_ref rq" using ipc_ok_waiting [OF ok port(1) _ waits(2), of IPC_PORT_STATE_RECV] waits(1) by simp
  have a: "a \<noteq> m" using ok env(1) msg(1) by (auto simp: ipc_ok_def ipc_inv_def supply_ok_def fresh_at_def)
  let ?mp = "mp\<lparr>ops_count := ops_count mp + 1\<rparr>"
  let ?s = "s\<lparr>mports := (mports s)(p \<mapsto> ?mp)\<rparr>"
  have begin_ok: "port_ops_begin allow p PORT_OPS_SEND s = Some (True, ?s)" using port by (simp add: port_ops_begin_def upd_port_def)
  let ?mp' = "?mp\<lparr>wait_q := ws, tail_state := (if ws = [] then IPC_PORT_STATE_EMPTY else tail_state mp)\<rparr>"
  let ?s' = "s\<lparr>mports := (mports s)(p \<mapsto> ?mp'), requests := (requests s)(r \<mapsto> rq\<lparr>rq_ref := rq_ref rq + 1\<rparr>),
      threads := (threads s)(rq_thread rq \<mapsto> th\<lparr>port_ptr := None\<rparr>)\<rparr>"
  have match: "ipc_port_try_match p IPC_PORT_STATE_SEND ?s = Some (Some r, ?s')"
    using try_match_first [of ?s p ?mp r IPC_PORT_STATE_SEND ws rq th] waits rcv r by simp
  let ?t = "(threads ?s')(me \<mapsto> mt\<lparr>send_pending_msg := None, send_msg_queue := msq\<rparr>,
        rq_thread rq \<mapsto> th\<lparr>port_ptr := None, recv_msg_queue := recv_msg_queue th @ [a], recv_pending_cnt := recv_pending_cnt th + 1\<rparr>)"
  let ?h = "(msgs s)\<lparr>datas := (datas (msgs s))(d \<mapsto> md\<lparr>md_ref := md_ref md + 1\<rparr>),
        messages := (messages (msgs s))(a \<mapsto> \<lparr>ms_ref = 1, m_data = Some d, receiver = None\<rparr>, m \<mapsto> ms)\<rparr>"
  have transfer: "ipc_transfer_message me (rq_thread rq) ?s' = Some (REND_SUCCESS, ?s'\<lparr>mem_supply := as, threads := ?t, msgs := ?h\<rparr>)"
    using transfer_first [of ?s' me mt m msq "rq_thread rq" "th\<lparr>port_ptr := None\<rparr>" ms d md a as] me rcv msg m(1) md env a by simp
  have mt: "mt\<lparr>send_pending_msg := None\<rparr> = mt" using me(3) by (cases mt) simp
  have "\<exists>s'. send_msg (Suc k) allow p me s = Some (Returned REND_SUCCESS, s') \<and>
     threads s' = (threads s)(me \<mapsto> mt\<lparr>send_msg_queue := msq\<rparr>,
       rq_thread rq \<mapsto> th\<lparr>port_ptr := None, recv_msg_queue := recv_msg_queue th @ [a],
         recv_pending_cnt := recv_pending_cnt th + 1, t_status := thread_status_ready\<rparr>) \<and>
     msgs s' = ?h \<and> port_waits s' = (port_waits s)(p \<mapsto> ws)"
    using r a me port waits rcv md msg
    by (simp add: send_msg_def begin_ok match transfer thread_set_status_with_expect_def upd_thread_def finish_match_def request_put_def
        ref_put_def port_ops_end_def upd_port_def mt) (auto simp: port_waits_def fun_eq_iff)
  then show thesis using that md(1) a by blast
qed

section \<open>A sender without a message\<close>

lemma transfer_no_msg:
  assumes "threads s t = Some th" "send_pending_msg th = None" "send_msg_queue th = []"
    and "threads s me = Some mt" "t_status mt \<noteq> thread_status_exit" "mem_supply s = Some a # as"
  shows "ipc_transfer_message t me s = Some (E_REND_NO_MSG, s\<lparr>mem_supply := as,
      threads := (threads s)(t \<mapsto> th\<lparr>send_pending_msg := None\<rparr>), msgs := (msgs s)\<lparr>messages := (messages (msgs s))(a := None)\<rparr>\<rparr>)"
  using assms
  by (simp add: ipc_transfer_message_def thread_get_status_def ipc_alloc_def create_message_structure_def exchange_pending_def
      upd_thread_def dequeue_send_def delete_message_def delete_message_structure_def)

lemma recv_loop_spins:
  assumes "requests s r = Some rq" "threads s (rq_thread rq) = Some th" "send_pending_msg th = None" "send_msg_queue th = []"
    and "threads s me = Some mt" "t_status mt \<noteq> thread_status_exit" "mem_supply s = replicate k (Some a)"
  shows "\<exists>s'. recv_loop k bl (Some r) p me s = Some (Looping, s')"
  using assms
proof (induction k arbitrary: s th mt)
  case (Suc k)
  let ?t = "rq_thread rq"
  obtain h where h: "ipc_transfer_message ?t me s = Some (E_REND_NO_MSG,
      s\<lparr>mem_supply := replicate k (Some a), threads := (threads s)(?t \<mapsto> th\<lparr>send_pending_msg := None\<rparr>), msgs := h\<rparr>)"
    using transfer_no_msg [of s ?t th me mt a] Suc.prems that by auto
  obtain mt' where "((threads s)(?t \<mapsto> th\<lparr>send_pending_msg := None\<rparr>)) me = Some mt'" "t_status mt' \<noteq> thread_status_exit"
    using Suc.prems(2,5,6) by (cases "me = ?t") auto
  then show ?case
    using Suc.IH [of "s\<lparr>mem_supply := replicate k (Some a), threads := (threads s)(?t \<mapsto> th\<lparr>send_pending_msg := None\<rparr>), msgs := h\<rparr>"
        "th\<lparr>send_pending_msg := None\<rparr>" mt'] Suc.prems
    by (simp add: h)
qed simp

section \<open>The notice that a port closes\<close>

lemma closed_message_created:
  assumes "mports s p = Some mp" "mem_supply s = Some k # Some d # Some a # as"
  shows "\<exists>h md. closed_message p s = Some (Some a, s\<lparr>mem_supply := as, msgs := h\<rparr>) \<and> datas h d = Some md \<and> md_ref md = 1 \<and>
     messages h = (messages (msgs s))(a \<mapsto> \<lparr>ms_ref = 1, m_data = Some d, receiver = None\<rparr>) \<and> retired h = retired (msgs s)"
proof -
  obtain b where b: "body_wire KMSG_FMT_SYSTEM_PORT_CLOSED [VI64 0] = Some b" "length b = 13"
    by (simp add: KMSG_FMT_SYSTEM_PORT_CLOSED_def is_fmt_space_def val_wire_def record_wire_def)
  then have fit: "serial_fits (Some KMSG_FMT_SYSTEM_PORT_CLOSED, [VI64 0]) 17" by (simp add: serial_fits_def)
  obtain pl where pl: "ipc_serial_encode_into_va (Some (replicate 17 0)) (of_nat 17) (Some KMSG_FMT_SYSTEM_PORT_CLOSED) [VI64 0] = Ok pl"
    using serial.encoded [OF fit, of "replicate 17 0"] by auto
  have m: "ipc_serial_measure_va (Some KMSG_FMT_SYSTEM_PORT_CLOSED) [VI64 0] = Ok (of_nat 17)" using serial.measured [OF fit] by simp
  let ?h = "(msgs s)\<lparr>payloads := (payloads (msgs s))(k \<mapsto> kmsg_hdr_bytes (service_id mp) KMSG_OP_SYSTEM_PORT_CLOSED 17 @ pl),
      datas := (datas (msgs s))(d \<mapsto> \<lparr>md_ref = 1, msg_type = MSG_DATA_TAG_KMSG, data_len = of_nat km_hdr_sz + 17, data = Some k, free_data = FREE_DEFAULT\<rparr>)\<rparr>"
  have "kmsg_create (Some k) (Some d) (msgs s) (service_id mp) KMSG_OP_SYSTEM_PORT_CLOSED (Some KMSG_FMT_SYSTEM_PORT_CLOSED, [VI64 0]) = Ok (?h, Some d)"
    using m pl
    by (simp add: kmsg_create_def kmsg_build_def create_message_data_def Let_def KMSG_MAX_PAYLOAD_def PAGE_SIZE_def km_hdr_sz_def
        ref_init_def word_less_nat_alt)
  then have "closed_message p s = Some (Some a, s\<lparr>mem_supply := as,
      msgs := ?h\<lparr>messages := (messages (msgs s))(a \<mapsto> \<lparr>ms_ref = 1, m_data = Some d, receiver = None\<rparr>)\<rparr>\<rparr>)"
    using assms by (simp add: closed_message_def ipc_alloc_def create_message_with_msg_def ref_get_not_zero_def put_msgdata_def
        ref_put_def ref_init_def Let_def)
  then show ?thesis by (intro exI conjI, assumption, simp_all, simp)
qed

lemma deliver_no_memory:
  assumes "threads s me = Some mt" "send_pending_msg mt = None" "threads s t = Some th" "t_status th \<noteq> thread_status_exit"
    and "messages (msgs s) m = Some ms" "ms_ref ms = 1" "m_data ms = Some d" "datas (msgs s) d = Some md" "md_ref md = 1"
    and "mem_supply s = None # as"
  shows "\<exists>mt'. ipc_system_deliver_to t m me s = Some (E_RENDEZVOS, s\<lparr>threads := (threads s)(me \<mapsto> mt'), mem_supply := as,
      msgs := (msgs s)\<lparr>messages := (messages (msgs s))(m \<mapsto> ms\<lparr>ms_ref := 0\<rparr>), retired := retired (msgs s) @ [m]\<rparr>\<rparr>) \<and>
      t_status mt' = t_status mt"
proof -
  have "ipc_system_deliver_to t m me s = Some (E_RENDEZVOS, s\<lparr>threads := (threads s)(me \<mapsto> mt\<lparr>send_pending_msg := None\<rparr>), mem_supply := as,
      msgs := (msgs s)\<lparr>messages := (messages (msgs s))(m \<mapsto> ms\<lparr>ms_ref := 0\<rparr>), retired := retired (msgs s) @ [m]\<rparr>\<rparr>)"
    using assms
    by (cases "t = me") (simp_all add: ipc_system_deliver_to_def live_refs_def cas_pending_def upd_thread_def ipc_transfer_message_def
        thread_get_status_def ipc_alloc_def drop_pending_def exchange_pending_def message_put_def put_message_def ref_put_def
        free_message_ref_def Let_def)
  then show ?thesis by auto
qed

section \<open>Properties\<close>

text \<open>A state for the witnesses: thread 1 has message 10 to send, thread 2 waits on port 3 for a message.\<close>

definition sample_thread :: thread_base where
  "sample_thread = \<lparr>t_ref = 2, t_status = thread_status_running, port_ptr = None, send_msg_queue = [], recv_msg_queue = [],
     send_pending_msg = None, recv_pending_cnt = 0, flag_port_closed = False\<rparr>"

definition sample_port :: "u16 \<Rightarrow> msg_port" where
  "sample_port st = \<lparr>p_name = [], p_ref = 1, p_table = True, service_id = 1, ops_life = LIFE_REGISTERED, ops_count = 0,
     wait_q = [(5, st)], tail_state = st\<rparr>"

definition sample_ipc :: ipc where
  "sample_ipc = \<lparr>
     msgs = \<lparr>payloads = [30 \<mapsto> [7]],
       datas = [20 \<mapsto> \<lparr>md_ref = 1, msg_type = 1, data_len = 1, data = Some 30, free_data = FREE_DEFAULT\<rparr>],
       messages = [10 \<mapsto> \<lparr>ms_ref = 1, m_data = Some 20, receiver = None\<rparr>], retired = []\<rparr>,
     threads = [1 \<mapsto> sample_thread\<lparr>send_msg_queue := [10]\<rparr>,
       2 \<mapsto> sample_thread\<lparr>t_status := thread_status_block_on_receive, port_ptr := Some 3\<rparr>],
     requests = [5 \<mapsto> \<lparr>rq_ref = 1, rq_thread = 2, rq_queue = Some 3\<rparr>],
     mports = [3 \<mapsto> sample_port IPC_PORT_STATE_RECV], retired_rq = [], mem_supply = [Some 40], quits = []\<rparr>"

definition sample_allow :: "nat \<Rightarrow> port_ops_type \<Rightarrow> error_t" where
  "sample_allow p ty = REND_SUCCESS"

lemma sample_holders:
  "holders (msgs sample_ipc) d = (if d = 20 then 1 else 0)"
proof -
  have "{m. \<exists>ms. messages (msgs sample_ipc) m = Some ms \<and> m_data ms = Some d} = (if d = 20 then {10} else {})"
    by (auto simp: sample_ipc_def split: if_splits)
  then show ?thesis by (simp add: holders_def)
qed

lemma sample_ok: "ipc_ok {1, 2} ({#}, sample_ipc)"
proof -
  let ?mext = "\<lambda>m. if m = 10 then 1 else 0 :: nat"
  have "data_ok (\<lambda>_. 0) (msgs sample_ipc) d" for d
    using sample_holders [of d] by (auto simp: data_ok_def sample_ipc_def split: if_splits)
  then have "msg_inv (\<lambda>_. 0) ?mext (msgs sample_ipc)"
    by (rule msg_invI) (auto simp: message_ok_def owners_distinct_def sample_ipc_def split: if_splits)
  moreover have "queued sample_ipc m \<le> ?mext m" for m
    by (simp add: queued_def msum_def sample_ipc_def th_refs_def sample_thread_def)
  ultimately have "msgs_ok ?mext None {#} sample_ipc" unfolding msgs_ok_def by auto
  moreover have "rqs_ok {#} sample_ipc"
    by (auto simp: rqs_ok_def waiting_rq_def msum_def rq_count_def sample_ipc_def sample_port_def split: if_splits)
  moreover have "ipc_threads_ok {1, 2} sample_ipc"
    by (auto simp: ipc_threads_ok_def reqs_of_def msum_def sample_ipc_def sample_thread_def split: if_splits)
  moreover have "ports_ok sample_ipc" by (auto simp: ports_ok_def port_wait_ok_def sample_ipc_def sample_port_def split: if_splits)
  moreover have "supply_ok sample_ipc" by (auto simp: supply_ok_def fresh_at_def sample_ipc_def)
  moreover have "finite_ok sample_ipc" by (simp add: finite_ok_def sample_ipc_def)
  ultimately show ?thesis by (intro ipc_okI ipc_invI) simp_all
qed

text \<open>C7. Whatever calls the threads make, in any order, with any failing allocations, exits of other threads and deferred
  reclamations in between: no message, payload, wait request or thread is used after it was freed, no queue operation meets
  a node whose count is zero, and the reference counts keep covering all holders.\<close>

theorem ipc_no_use_after_free:
  assumes "ipc_ok K (hm, s)"
  shows "\<exists>hm' s'. ipc_run k allow K cs (hm, s) = Some (hm', s') \<and> ipc_ok K (hm', s')"
proof -
  have "wp (ipc_run k allow K cs x) (ipc_ok K)" if "ipc_ok K x" for x
    using that
  proof (induction cs arbitrary: x)
    case (Cons c cs)
    then show ?case by (auto intro: wp_mono [OF ipc_exec_ok])
  qed simp
  then show ?thesis using assms by (fastforce dest!: wpD)
qed

theorem ipc_no_use_after_free_witness:
  "\<exists>hm' s'. ipc_run 3 sample_allow {1, 2} [Send 3 1, DequeueRecv 2, Release 40, Recv 3 2, Send 3 1, ReclaimMessage, ReclaimRequest] ({#}, sample_ipc)
     = Some (hm', s') \<and> ipc_ok {1, 2} (hm', s')"
  by (rule ipc_no_use_after_free [OF sample_ok])



text \<open>C9. What a thread sends is what the receiver gets: after a send to a waiting receiver that has no other message, the
  receiver takes a message out of its queue that reads as the same kernel message, header and payload, as the one sent.\<close>

theorem send_received_roundtrip:
  assumes ok: "ipc_ok K (hm, s)"
    and port: "mports s p = Some mp" "ops_life mp = LIFE_REGISTERED" "allow p PORT_OPS_SEND = REND_SUCCESS"
    and waits: "wait_q mp = (r, IPC_PORT_STATE_RECV) # ws" "requests s r = Some rq"
    and rcv: "threads s (rq_thread rq) = Some th" "t_status th = thread_status_block_on_receive" "port_ptr th = Some p"
    and me: "threads s me = Some mt" "me \<noteq> rq_thread rq" "send_pending_msg mt = None" "send_msg_queue mt = m # msq"
      "t_status mt \<noteq> thread_status_exit"
    and msg: "messages (msgs s) m = Some ms" "m_data ms = Some d"
    and env: "mem_supply s = Some a # as" "quits s = []"
    and empty: "recv_msg_queue th = []"
  shows "\<exists>s' s''. send_msg (Suc k) allow p me s = Some (Returned REND_SUCCESS, s') \<and>
     dequeue_recv_msg (rq_thread rq) s' = Some (Some a, s'') \<and>
     kmsg_from_msg (msgs s'') (Some a) = kmsg_from_msg (msgs s) (Some m)"
proof (rule send_waiting [where allow = allow and p = p and k = k, OF ok port waits rcv me msg env])
  fix s' md
  assume s': "send_msg (Suc k) allow p me s = Some (Returned REND_SUCCESS, s')"
    "threads s' = (threads s)(me \<mapsto> mt\<lparr>send_msg_queue := msq\<rparr>,
       rq_thread rq \<mapsto> th\<lparr>port_ptr := None, recv_msg_queue := recv_msg_queue th @ [a],
         recv_pending_cnt := recv_pending_cnt th + 1, t_status := thread_status_ready\<rparr>)"
    "datas (msgs s) d = Some md"
    "msgs s' = (msgs s)\<lparr>datas := (datas (msgs s))(d \<mapsto> md\<lparr>md_ref := md_ref md + 1\<rparr>),
        messages := (messages (msgs s))(a \<mapsto> \<lparr>ms_ref = 1, m_data = Some d, receiver = None\<rparr>, m \<mapsto> ms)\<rparr>"
    and a: "a \<noteq> m"
  have "\<exists>s''. dequeue_recv_msg (rq_thread rq) s' = Some (Some a, s'') \<and>
      msgs s'' = (msgs s')\<lparr>messages := (messages (msgs s'))(a \<mapsto> \<lparr>ms_ref = 2, m_data = Some d, receiver = None\<rparr>)\<rparr>"
    using s'(2,4) a empty by (simp add: dequeue_recv_msg_def dequeue_recv_def message_get_def ref_get_not_zero_def upd_thread_def)
  moreover have "kmsg_from_msg ((msgs s')\<lparr>messages := (messages (msgs s'))(a \<mapsto> \<lparr>ms_ref = 2, m_data = Some d, receiver = None\<rparr>)\<rparr>) (Some a)
      = kmsg_from_msg (msgs s) (Some m)"
    using s'(3,4) msg by (simp add: kmsg_from_msg_def Let_def split: option.split cong: if_cong)
  ultimately show ?thesis using s'(1) by auto
qed

theorem send_received_roundtrip_witness:
  "\<exists>s' s''. send_msg (Suc 0) sample_allow 3 1 sample_ipc = Some (Returned REND_SUCCESS, s') \<and>
     dequeue_recv_msg (rq_thread \<lparr>rq_ref = 1, rq_thread = 2, rq_queue = Some 3\<rparr>) s' = Some (Some 40, s'') \<and>
     kmsg_from_msg (msgs s'') (Some 40) = kmsg_from_msg (msgs sample_ipc) (Some 10)"
  by (rule send_received_roundtrip [OF sample_ok, where mp = "sample_port IPC_PORT_STATE_RECV" and r = 5 and m = 10
        and ms = "\<lparr>ms_ref = 1, m_data = Some 20, receiver = None\<rparr>" and as = "[]"])
    (simp add: sample_ipc_def sample_port_def sample_thread_def sample_allow_def)+

text \<open>C10. A send ends. Within one more round than there are requests waiting on the port, both the blocking and the
  non-blocking send return, or the sender sleeps in the wait queue, whatever allocations fail and whichever threads exit on
  the way.\<close>

theorem send_msg_returns:
  assumes "ipc_ok K (hm, s)" "me \<in> K" "mports s p = Some mp" "length (wait_q mp) < k" "threads s me = Some mt" "port_ptr mt = None"
  shows "(\<exists>out s'. send_msg k allow p me s = Some (out, s') \<and> out \<noteq> Looping) \<and>
     (\<exists>out s'. ipc_try_send_msg k allow p me s = Some (out, s') \<and> out \<noteq> Looping)"
proof -
  obtain T W where inv: "ipc_inv K None hm {#} T W s" using assms(1) by (auto simp: ipc_ok_def)
  have me: "me \<in> T" "off_port me s" using inv assms(2,5,6) by (auto simp: ipc_inv_def ipc_threads_ok_def off_port_def)
  have W: "W p = Some (wait_q mp)" using inv assms(3) by (auto simp: ipc_inv_def port_waits_def)
  have keep: "keeps_res (off_port me) (port_ops_begin allow p PORT_OPS_SEND)"
    unfolding port_ops_begin_def by (rule keeps_read, intro keep)
  note loop = send_loop_ends [where W = W and p = p, OF _ W assms(4) me(1)]
  have "wp (Option.bind (port_ops_begin allow p PORT_OPS_SEND s) (\<lambda>(ok, s).
       if \<not> ok then Option.bind (ipc_drop_one_orphan_send_msg me s) (\<lambda>s. Some (Returned E_REND_PORT_CLOSED, s))
       else send_loop k bl p me s)) (\<lambda>(out, s'). out \<noteq> Looping)" for bl
    by (insert me(1), rule wp_bindI, rule wp_keepsI [OF keep me(2)], rule wp_port_ops_begin [OF inv W],
        (assumption | rule impI conjI wp_step wp_drop_orphan | rule loop | simp)+)
  then have "wp (send_msg k allow p me s) (\<lambda>(out, s'). out \<noteq> Looping)" "wp (ipc_try_send_msg k allow p me s) (\<lambda>(out, s'). out \<noteq> Looping)"
    unfolding send_msg_def ipc_try_send_msg_def by blast+
  then show ?thesis by (auto dest!: wpD)
qed

theorem send_msg_returns_witness:
  "(\<exists>out s'. send_msg 2 sample_allow 3 1 sample_ipc = Some (out, s') \<and> out \<noteq> Looping) \<and>
   (\<exists>out s'. ipc_try_send_msg 2 sample_allow 3 1 sample_ipc = Some (out, s') \<and> out \<noteq> Looping)"
  by (rule send_msg_returns [OF sample_ok]) (simp add: sample_ipc_def sample_port_def sample_thread_def)+

text \<open>C34. When the sender that a receive matches has no message to give, the receive never returns: it does not look for
  another sender, as the comment at \<open>E_REND_NO_MSG\<close> says, but asks the same one again in every round, whatever the number of
  rounds, and other senders that wait with messages are not served.\<close>

theorem recv_msg_never_returns:
  assumes port: "mports s p = Some mp" "ops_life mp = LIFE_REGISTERED" "allow p PORT_OPS_RECV = REND_SUCCESS"
    and waits: "wait_q mp = (r, IPC_PORT_STATE_SEND) # ws" "requests s r = Some rq" "0 < rq_ref rq"
    and snd: "threads s (rq_thread rq) = Some th" "t_status th = thread_status_block_on_send" "port_ptr th = Some p"
      "send_pending_msg th = None" "send_msg_queue th = []"
    and me: "threads s me = Some mt" "t_status mt \<noteq> thread_status_exit" and mem: "mem_supply s = replicate k (Some a)"
  shows "(\<exists>s'. recv_msg k allow p me s = Some (Looping, s')) \<and> (\<exists>s'. ipc_try_recv_msg k allow p me s = Some (Looping, s'))"
proof -
  let ?mp = "mp\<lparr>ops_count := ops_count mp + 1\<rparr>"
  let ?s = "s\<lparr>mports := (mports s)(p \<mapsto> ?mp)\<rparr>"
  have begin_ok: "port_ops_begin allow p PORT_OPS_RECV s = Some (True, ?s)" using port by (simp add: port_ops_begin_def upd_port_def)
  have ne: "IPC_PORT_STATE_RECV \<noteq> IPC_PORT_STATE_SEND" by (simp add: IPC_PORT_STATE_RECV_def IPC_PORT_STATE_SEND_def)
  let ?s' = "s\<lparr>mports := (mports s)(p \<mapsto> ?mp\<lparr>wait_q := ws, tail_state := (if ws = [] then IPC_PORT_STATE_EMPTY else tail_state mp)\<rparr>),
      requests := (requests s)(r \<mapsto> rq\<lparr>rq_ref := rq_ref rq + 1\<rparr>), threads := (threads s)(rq_thread rq \<mapsto> th\<lparr>port_ptr := None\<rparr>)\<rparr>"
  have match: "ipc_port_try_match p IPC_PORT_STATE_RECV ?s = Some (Some r, ?s')"
    using try_match_first [of ?s p ?mp r IPC_PORT_STATE_RECV ws rq th] waits snd ne by simp
  obtain mt' where mt': "((threads s)(rq_thread rq \<mapsto> th\<lparr>port_ptr := None\<rparr>)) me = Some mt'" "t_status mt' \<noteq> thread_status_exit"
    using snd(1) me by (cases "me = rq_thread rq") auto
  have "\<exists>s'. recv_loop k bl (Some r) p me ?s' = Some (Looping, s')" for bl
    using recv_loop_spins [of ?s' r "rq\<lparr>rq_ref := rq_ref rq + 1\<rparr>" "th\<lparr>port_ptr := None\<rparr>" me mt' k a] snd mt' mem by simp
  then have "\<exists>s'. recv_loop k bl None p me ?s = Some (Looping, s')" for bl by (cases k) (simp_all add: match)
  then show ?thesis
    by (simp add: recv_msg_def ipc_try_recv_msg_def begin_ok)
qed

definition sample_empty_sender :: ipc where
  "sample_empty_sender = sample_ipc\<lparr>
     threads := [1 \<mapsto> sample_thread\<lparr>t_status := thread_status_block_on_send, port_ptr := Some 3\<rparr>, 2 \<mapsto> sample_thread],
     requests := [5 \<mapsto> \<lparr>rq_ref = 1, rq_thread = 1, rq_queue = Some 3\<rparr>], mports := [3 \<mapsto> sample_port IPC_PORT_STATE_SEND],
     mem_supply := replicate 7 (Some 40)\<rparr>"

theorem recv_msg_never_returns_witness:
  "(\<exists>s'. recv_msg 7 sample_allow 3 2 sample_empty_sender = Some (Looping, s')) \<and>
   (\<exists>s'. ipc_try_recv_msg 7 sample_allow 3 2 sample_empty_sender = Some (Looping, s'))"
  by (rule recv_msg_never_returns [where mp = "sample_port IPC_PORT_STATE_SEND" and r = 5 and a = 40])
    (simp add: sample_empty_sender_def sample_ipc_def sample_port_def sample_thread_def sample_allow_def)+

text \<open>C35. Closing a port puts a message twice: when the notice for a blocked receiver is built but the delivery finds no memory
  for the receiver's copy, \<open>ipc_system_deliver_to\<close> has already given up the last reference (the message waits to be freed),
  and \<open>port_clean_thread_queue\<close> gives it up again: the count of the retired message ends at -1.\<close>

theorem port_close_double_put:
  assumes port: "mports s p = Some mp" "wait_q mp = [(r, st)]" "requests s r = Some rq" "0 < rq_ref rq"
    and rcv: "threads s (rq_thread rq) = Some th" "t_status th = thread_status_block_on_receive"
    and me: "threads s me = Some mt" "me \<noteq> rq_thread rq" "send_pending_msg mt = None"
    and mem: "mem_supply s = Some k # Some d # Some a # None # as"
  shows "\<exists>s'. port_clean_thread_queue p me s = Some s' \<and> a \<in> set (retired (msgs s')) \<and>
     map_option ms_ref (messages (msgs s') a) = Some (- 1)"
proof -
  let ?t = "rq_thread rq"
  define th1 where "th1 = (if port_ptr th = Some p then th\<lparr>port_ptr := None\<rparr> else th)"
  define s1 where "s1 = s\<lparr>requests := (requests s)(r \<mapsto> rq\<lparr>rq_ref := rq_ref rq + 1\<rparr>), mports := (mports s)(p \<mapsto> mp\<lparr>wait_q := []\<rparr>)\<rparr>"
  define s2 where "s2 = s1\<lparr>threads := (threads s)(?t \<mapsto> th1)\<rparr>"
  have th1: "t_status th1 = thread_status_block_on_receive" using rcv(2) by (simp add: th1_def)
  have s2: "threads s2 = (threads s)(?t \<mapsto> th1)" by (simp add: s2_def)
  have deq: "wait_dequeue p s = Some (Some r, s1)"
    using port by (simp add: wait_dequeue_def request_get_def ref_get_not_zero_def upd_port_def s1_def)
  have cas: "cas_port_ptr ?t (Some p) None s1 = Some (port_ptr th, s2)"
    using rcv by (simp add: cas_port_ptr_def upd_thread_def s2_def s1_def th1_def)
  obtain h md where msg: "closed_message p s2 = Some (Some a, s2\<lparr>mem_supply := None # as, msgs := h\<rparr>)" "datas h d = Some md" "md_ref md = 1"
     "messages h = (messages (msgs s))(a \<mapsto> \<lparr>ms_ref = 1, m_data = Some d, receiver = None\<rparr>)" "retired h = retired (msgs s)"
    using closed_message_created [of s2 p "mp\<lparr>wait_q := []\<rparr>" k d a "None # as"] mem by (auto simp: s2_def s1_def)
  obtain mt' where del: "ipc_system_deliver_to ?t a me (s2\<lparr>mem_supply := None # as, msgs := h\<rparr>) =
      Some (E_RENDEZVOS, s2\<lparr>threads := (threads s2)(me \<mapsto> mt'), mem_supply := as,
        msgs := h\<lparr>messages := (messages h)(a \<mapsto> \<lparr>ms_ref = 0, m_data = Some d, receiver = None\<rparr>), retired := retired h @ [a]\<rparr>\<rparr>)"
    using deliver_no_memory [of "s2\<lparr>mem_supply := None # as, msgs := h\<rparr>" me mt ?t th1 a "\<lparr>ms_ref = 1, m_data = Some d, receiver = None\<rparr>" d md as]
      me msg th1 by (auto simp: s2)
  have s1: "requests s1 r = Some (rq\<lparr>rq_ref := rq_ref rq + 1\<rparr>)" "threads s1 = threads s" "requests s2 = requests s1" by (simp_all add: s1_def s2_def)
  show ?thesis
    using port rcv me s1 msg(4,5) th1 s2
    by (simp add: port_clean_thread_queue_def deq cas msg(1) del thread_get_status_def wake_receiver_def message_put_def put_message_def
        ref_put_def Let_def thread_set_status_with_expect_def upd_thread_def request_put_def)
qed

theorem port_close_double_put_witness:
  "\<exists>s'. port_clean_thread_queue 3 1 (sample_ipc\<lparr>mem_supply := [Some 41, Some 42, Some 43, None]\<rparr>) = Some s' \<and>
     43 \<in> set (retired (msgs s')) \<and> map_option ms_ref (messages (msgs s') 43) = Some (- 1)"
  by (rule port_close_double_put [where mp = "sample_port IPC_PORT_STATE_RECV" and r = 5])
    (simp add: sample_ipc_def sample_port_def sample_thread_def)+

end
