(* ===== verification/Port_Cache.thy ===== *)
theory Port_Cache
  imports Port
begin

unbundle bit_operations_syntax

text \<open>
  The per-thread port cache, \<^verbatim>\<open>kernel/task/thread.c\<close> and \<^verbatim>\<open>include/rendezvos/task/thread.h\<close>.

  A thread remembers the tokens of the last ports it looked up, by the hash of their names. The cache
  does not hold a reference: every hit is checked again under the lock of the port table. The model
  has the cache as a record with words of the source's widths, and every operation on it. It is
  composed with the port table of theory \<open>Port\<close>: \<^verbatim>\<open>thread_lookup_port\<close> tries the cache, falls back on
  the table and records the token. The lemmas show that the cache cannot be observed in the results,
  that its count is exact, which entry a new token displaces, and that a recorded port is found.
\<close>

section \<open>Data\<close>

definition THREAD_MAX_KNOWN_PORTS :: nat where "THREAD_MAX_KNOWN_PORTS = 16"

definition NAME_INDEX_ROW_INDEX_INVALID :: u32 where "NAME_INDEX_ROW_INDEX_INVALID = - 1"

record thread_port_cache_entry =
  lru_counter :: u16
  cache_row_gen :: u16
  cache_row_index :: u32
  name_hash :: u64

record thread_port_cache =
  cache_entries :: "thread_port_cache_entry list"
  cache_count :: u64
  lru_clock :: u64

text \<open>What \<^verbatim>\<open>thread_port_cache_init\<close>, \<^verbatim>\<open>thread_port_cache_clear\<close> and \<^verbatim>\<open>thread_port_cache_evict\<close> write into an entry.\<close>

definition empty_cache_entry :: thread_port_cache_entry where
  "empty_cache_entry = \<lparr>lru_counter = 0, cache_row_gen = 0, cache_row_index = NAME_INDEX_ROW_INDEX_INVALID, name_hash = 0\<rparr>"

section \<open>Operations\<close>

definition thread_port_cache_init :: thread_port_cache where
  "thread_port_cache_init =
     \<lparr>cache_entries = replicate THREAD_MAX_KNOWN_PORTS empty_cache_entry, cache_count = 0, lru_clock = 1\<rparr>"

definition thread_port_cache_clear :: "thread_port_cache \<Rightarrow> thread_port_cache" where
  "thread_port_cache_clear c =
     c\<lparr>cache_entries := map (\<lambda>_. empty_cache_entry) (cache_entries c), cache_count := 0, lru_clock := 1\<rparr>"

definition thread_port_name_hash :: "u8 list option \<Rightarrow> u64" where
  "thread_port_name_hash name =
     (case name of
        None \<Rightarrow> 0
      | Some n \<Rightarrow> foldl (\<lambda>h b. (h XOR ucast b) * 1099511628211) 14695981039346656037 (take PORT_NAME_LEN_MAX (c_text n)))"

definition thread_port_cache_entry_in_use :: "thread_port_cache \<Rightarrow> nat \<Rightarrow> bool" where
  "thread_port_cache_entry_in_use c i \<longleftrightarrow>
     i < THREAD_MAX_KNOWN_PORTS \<and> cache_row_index (cache_entries c ! i) \<noteq> NAME_INDEX_ROW_INDEX_INVALID"

definition thread_port_cache_evict :: "thread_port_cache \<Rightarrow> nat \<Rightarrow> thread_port_cache" where
  "thread_port_cache_evict c i =
     (if \<not> thread_port_cache_entry_in_use c i then c
      else c\<lparr>cache_entries := (cache_entries c)[i := empty_cache_entry],
             cache_count := (if 0 < cache_count c then cache_count c - 1 else cache_count c)\<rparr>)"

definition thread_port_cache_fill_entry ::
    "thread_port_cache \<Rightarrow> nat \<Rightarrow> u8 list option \<Rightarrow> name_index_token option \<Rightarrow> thread_port_cache" where
  "thread_port_cache_fill_entry c i name tok =
     (let clock = lru_clock c + 1 in
      c\<lparr>lru_clock := clock,
        cache_entries := (cache_entries c)[i :=
          \<lparr>lru_counter = ucast clock,
           cache_row_gen = (case tok of Some t \<Rightarrow> of_nat (row_gen t) | None \<Rightarrow> 0),
           cache_row_index = (case tok of Some t \<Rightarrow> of_nat (row_index t) | None \<Rightarrow> NAME_INDEX_ROW_INDEX_INVALID),
           name_hash = thread_port_name_hash name\<rparr>]\<rparr>)"

definition thread_port_cache_touch_lru :: "thread_port_cache \<Rightarrow> nat \<Rightarrow> thread_port_cache" where
  "thread_port_cache_touch_lru c i =
     (if \<not> thread_port_cache_entry_in_use c i then c
      else
        let clock = lru_clock c + 1 in
        c\<lparr>lru_clock := clock, cache_entries := (cache_entries c)[i := (cache_entries c ! i)\<lparr>lru_counter := ucast clock\<rparr>]\<rparr>)"

text \<open>The token that an entry stands for.\<close>

definition entry_token :: "thread_port_cache_entry \<Rightarrow> name_index_token" where
  "entry_token e = \<lparr>row_index = unat (cache_row_index e), row_gen = unat (cache_row_gen e)\<rparr>"

fun lookup_loop ::
    "('s \<Rightarrow> name_index_token option \<Rightarrow> u8 list \<Rightarrow> 's \<times> nat option) \<Rightarrow> u8 list \<Rightarrow> u64 \<Rightarrow> nat list \<Rightarrow> thread_port_cache \<Rightarrow> 's \<Rightarrow>
     thread_port_cache \<times> 's \<times> nat option" where
  "lookup_loop resolve name target_hash [] c s = (c, s, None)"
| "lookup_loop resolve name target_hash (i # is) c s =
     (if \<not> thread_port_cache_entry_in_use c i then lookup_loop resolve name target_hash is c s
      else if name_hash (cache_entries c ! i) \<noteq> target_hash then lookup_loop resolve name target_hash is c s
      else (case resolve s (Some (entry_token (cache_entries c ! i))) name of
          (s, None) \<Rightarrow> lookup_loop resolve name target_hash is (thread_port_cache_evict c i) s
        | (s, Some p) \<Rightarrow> (thread_port_cache_touch_lru c i, s, Some p)))"

definition thread_port_cache_lookup ::
    "(nat \<Rightarrow> port_ops_type \<Rightarrow> error_t) \<Rightarrow> thread_port_cache \<Rightarrow> port_table \<Rightarrow> u8 list \<Rightarrow> thread_port_cache \<times> port_table \<times> nat option" where
  "thread_port_cache_lookup allow c s name =
     lookup_loop (port_table_resolve_token allow) name (thread_port_name_hash (Some name)) [0..<THREAD_MAX_KNOWN_PORTS] c s"

text \<open>The scan for the entry with the greatest age modulo \<open>2 ^ 16\<close>; the state is the best age and its index.\<close>

definition entry_age :: "thread_port_cache \<Rightarrow> nat \<Rightarrow> u16" where
  "entry_age c i = ucast (lru_clock c) - lru_counter (cache_entries c ! i)"

definition victim_step :: "thread_port_cache \<Rightarrow> (u16 \<times> nat) option \<Rightarrow> nat \<Rightarrow> (u16 \<times> nat) option" where
  "victim_step c best i =
     (if \<not> thread_port_cache_entry_in_use c i then best
      else (case best of
          None \<Rightarrow> Some (entry_age c i, i)
        | Some (best_age, lru_idx) \<Rightarrow> if entry_age c i > best_age then Some (entry_age c i, i) else best))"

definition lru_victim :: "thread_port_cache \<Rightarrow> nat option" where
  "lru_victim c = map_option snd (foldl (victim_step c) None [0..<THREAD_MAX_KNOWN_PORTS])"

definition same_token :: "thread_port_cache \<Rightarrow> name_index_token option \<Rightarrow> nat \<Rightarrow> bool" where
  "same_token c tok i \<longleftrightarrow>
     (case tok of
        None \<Rightarrow> False
      | Some t \<Rightarrow> thread_port_cache_entry_in_use c i \<and>
          cache_row_index (cache_entries c ! i) = of_nat (row_index t) \<and> cache_row_gen (cache_entries c ! i) = of_nat (row_gen t))"

definition thread_port_cache_record ::
    "thread_port_cache \<Rightarrow> u8 list option \<Rightarrow> name_index_token option \<Rightarrow> thread_port_cache" where
  "thread_port_cache_record c name tok =
     (let slots = [0..<THREAD_MAX_KNOWN_PORTS];
          replace = (case lru_victim c of None \<Rightarrow> c | Some i \<Rightarrow> thread_port_cache_fill_entry c i name tok)
      in case find (same_token c tok) slots of
           Some i \<Rightarrow>
             let c = thread_port_cache_touch_lru c i in
             c\<lparr>cache_entries := (cache_entries c)[i := (cache_entries c ! i)\<lparr>name_hash := thread_port_name_hash name\<rparr>]\<rparr>
         | None \<Rightarrow>
             if unat (cache_count c) < THREAD_MAX_KNOWN_PORTS then
               (case find (\<lambda>i. \<not> thread_port_cache_entry_in_use c i) slots of
                  Some i \<Rightarrow> let c = thread_port_cache_fill_entry c i name tok in c\<lparr>cache_count := cache_count c + 1\<rparr>
                | None \<Rightarrow> replace)
             else replace)"

definition name_index_token_invalidate :: name_index_token where
  "name_index_token_invalidate = \<lparr>row_index = unat NAME_INDEX_ROW_INDEX_INVALID, row_gen = 0\<rparr>"

text \<open>
  \<^verbatim>\<open>thread_lookup_port\<close>. The arguments are the cache of the current thread, the global port table
  and the name, each \<open>None\<close> where the source has \<open>NULL\<close>.
\<close>

definition thread_lookup_port ::
    "(nat \<Rightarrow> port_ops_type \<Rightarrow> error_t) \<Rightarrow> thread_port_cache option \<Rightarrow> port_table option \<Rightarrow> u8 list option \<Rightarrow>
     thread_port_cache option \<times> port_table option \<times> nat option" where
  "thread_lookup_port allow self tbl name =
     (case (self, tbl, name) of
        (Some c, Some s, Some n) \<Rightarrow>
          (case thread_port_cache_lookup allow c s n of
             (c, s, Some p) \<Rightarrow> (Some c, Some s, Some p)
           | (c, s, None) \<Rightarrow>
               let (s, port, tok) = port_table_lookup_with_token allow s n;
                   cold_tok = (case tok of Some t \<Rightarrow> t | None \<Rightarrow> name_index_token_invalidate)
               in case port of
                    None \<Rightarrow> (Some c, Some s, None)
                  | Some p \<Rightarrow> (Some (thread_port_cache_record c name (Some cold_tok)), Some s, Some p))
      | _ \<Rightarrow> (self, tbl, None))"

section \<open>Token tables\<close>

text \<open>
  What the cache relies on: a token either resolves to what the lookup of the name would give, with the
  same effect, or it gives nothing and has no effect.
\<close>

locale token_table =
  fixes inv :: "'s \<Rightarrow> bool" and ok_name :: "u8 list \<Rightarrow> bool"
    and lookup :: "'s \<Rightarrow> u8 list \<Rightarrow> 's \<times> nat option"
    and resolve :: "'s \<Rightarrow> name_index_token option \<Rightarrow> u8 list \<Rightarrow> 's \<times> nat option"
  assumes resolve_law: "inv s \<Longrightarrow> ok_name n \<Longrightarrow>
    resolve s (Some t) n = (s, None) \<or> (\<exists>s' p. resolve s (Some t) n = (s', Some p) \<and> lookup s n = (s', Some p))"
begin

lemma loop_cases:
  assumes "inv s" "ok_name n"
  shows "(\<exists>c'. lookup_loop resolve n h is c s = (c', s, None)) \<or>
     (\<exists>c' s' p. lookup_loop resolve n h is c s = (c', s', Some p) \<and> lookup s n = (s', Some p))"
proof (induction "is" arbitrary: c)
  case (Cons i "is")
  show ?case using resolve_law [OF assms, of "entry_token (cache_entries c ! i)"] Cons.IH
    by (elim disjE exE conjE) auto
qed simp

end

section \<open>The cache cannot be observed\<close>

text \<open>A hold that is given back at once leaves the table as it was.\<close>

lemma refused_hold_undone:
  assumes "ports s p = Some pt" "0 < p_ref pt" "allow p PORT_OPS_LOOKUP \<noteq> REND_SUCCESS"
  shows "port_lookup_finish allow (take_hold s (Some p)) (Some p) = (s, None)"
proof -
  have "(ports s)(p \<mapsto> pt) = ports s" using assms(1) by (simp add: fun_upd_idem)
  then show ?thesis using assms by (simp add: port_lookup_finish_def take_hold_def put_port_def ref_put_def)
qed

text \<open>A token either resolves as the lookup does, or gives nothing and changes nothing.\<close>

lemma resolve_token_cases:
  assumes inv: "port_inv ext s" and n: "name_ok PORT_NAME_LEN_MAX n"
  shows "port_table_resolve_token allow s (Some t) n = (s, None) \<or>
     (\<exists>s' p. port_table_resolve_token allow s (Some t) n = (s', Some p) \<and> port_table_lookup allow s n = (s', Some p))"
proof (cases "name_index_resolve (port_get_name (ports s)) (port_hold (ports s)) (by_name s) (Some t) (Some n)")
  case None
  then show ?thesis by (simp add: port_table_resolve_token_def port_lookup_finish_def take_hold_def)
next
  case (Some p)
  let ?gn = "port_get_name (ports s)"
  note i = port_invD [OF inv]
  have p: "entries (by_name s) (row_index t) = Some p" "?gn p = Some n"
    using name_index_resolve_sound [OF i(1) _ Some] n by (auto simp: name_ok_def)
  then have "registered s p" by (auto simp: registered_def ran_def)
  then obtain pt where pt: "ports s p = Some pt" "0 < p_ref pt" "p \<noteq> 0"
    using i(5) [of p] i(6) [of p] by (auto simp: port_ok_def)
  obtain q r where q: "name_index_search ?gn (by_name s) (Some n) = Some (q, r)"
    using search_in_table [OF inv n] \<open>registered s p\<close> p(2) by (auto split: option.splits)
  with search_in_table [OF inv n] have "entries (by_name s) r = Some q" "?gn q = Some n" by auto
  moreover from this p i(2) have "r = row_index t" by (auto simp: unique_ports_def)
  ultimately have qp: "q = p" "used (rows (by_name s) ! r)" using p by (auto simp: entries_def split: if_splits)
  have "name_index_lookup ?gn (port_hold (ports s)) (by_name s) (Some n)
      = (Some p, Some \<lparr>row_index = r mod 2 ^ 32, row_gen = gen (rows (by_name s) ! r) mod 2 ^ 16\<rparr>)"
    using q qp pt by (simp add: name_index_lookup_def port_hold_def ref_get_not_zero_def Let_def)
  then have "port_table_lookup allow s n = port_lookup_finish allow (take_hold s (Some p)) (Some p)"
    by (simp add: port_table_lookup_def)
  moreover have "port_table_resolve_token allow s (Some t) n = port_lookup_finish allow (take_hold s (Some p)) (Some p)"
    using Some by (simp add: port_table_resolve_token_def Let_def)
  ultimately show ?thesis
    using refused_hold_undone [of s p pt allow] pt
    by (cases "allow p PORT_OPS_LOOKUP = REND_SUCCESS") (auto simp: port_lookup_finish_def)
qed

interpretation port_tokens: token_table "port_inv ext" "name_ok PORT_NAME_LEN_MAX" "port_table_lookup allow" "port_table_resolve_token allow"
  for ext allow
  by unfold_locales (rule resolve_token_cases)

lemmas lookup_loop_cases = port_tokens.loop_cases

lemma lookup_with_token_fst:
  "port_table_lookup_with_token allow s n = (s', v, tok) \<Longrightarrow> port_table_lookup allow s n = (s', v)"
  by (auto simp: port_table_lookup_with_token_def port_table_lookup_def split: prod.splits)

lemma thread_lookup_transparent:
  assumes "port_inv ext s" and "name_ok PORT_NAME_LEN_MAX n"
  shows "\<exists>c'. thread_lookup_port allow (Some c) (Some s) (Some n)
     = (Some c', Some (fst (port_table_lookup allow s n)), snd (port_table_lookup allow s n))"
proof (cases "thread_port_cache_lookup allow c s n")
  case (fields c' s' res)
  obtain s'' v tok where l: "port_table_lookup_with_token allow s n = (s'', v, tok)" by (metis prod_cases3)
  from lookup_loop_cases [OF assms, of allow "thread_port_name_hash (Some n)" "[0..<THREAD_MAX_KNOWN_PORTS]" c] fields l
    lookup_with_token_fst [OF l]
  show ?thesis
    by (auto simp: thread_lookup_port_def thread_port_cache_lookup_def split: option.splits)
qed


section \<open>The cache invariant\<close>

definition cache_slots :: "thread_port_cache \<Rightarrow> nat set" where
  "cache_slots c = {i. thread_port_cache_entry_in_use c i}"

definition cache_ok :: "thread_port_cache \<Rightarrow> bool" where
  "cache_ok c \<longleftrightarrow> length (cache_entries c) = THREAD_MAX_KNOWN_PORTS \<and> unat (cache_count c) = card (cache_slots c)"

lemma cache_slots_sub: "cache_slots c \<subseteq> {..<THREAD_MAX_KNOWN_PORTS}"
  by (auto simp: cache_slots_def thread_port_cache_entry_in_use_def)

lemma cache_slots_bound: "finite (cache_slots c)" "card (cache_slots c) \<le> THREAD_MAX_KNOWN_PORTS"
  using finite_subset [OF cache_slots_sub finite_lessThan] card_mono [OF finite_lessThan cache_slots_sub] by auto

lemma init_cache_ok: "cache_ok thread_port_cache_init"
  by (auto simp: cache_ok_def thread_port_cache_init_def cache_slots_def thread_port_cache_entry_in_use_def empty_cache_entry_def)

lemma clear_cache_ok: "cache_ok c \<Longrightarrow> cache_ok (thread_port_cache_clear c)"
  by (auto simp: cache_ok_def thread_port_cache_clear_def cache_slots_def thread_port_cache_entry_in_use_def empty_cache_entry_def)

lemma clear_is_init: "cache_ok c \<Longrightarrow> thread_port_cache_clear c = thread_port_cache_init"
  by (simp add: cache_ok_def thread_port_cache_clear_def thread_port_cache_init_def map_replicate_const)

lemma evict_slots:
  assumes "length (cache_entries c) = THREAD_MAX_KNOWN_PORTS"
  shows "cache_slots (thread_port_cache_evict c i) = cache_slots c - {i}"
    "length (cache_entries (thread_port_cache_evict c i)) = THREAD_MAX_KNOWN_PORTS"
    "j \<noteq> i \<Longrightarrow> cache_entries (thread_port_cache_evict c i) ! j = cache_entries c ! j"
  using assms
  by (auto simp: thread_port_cache_evict_def cache_slots_def thread_port_cache_entry_in_use_def empty_cache_entry_def nth_list_update)

lemma evict_cache_ok:
  assumes "cache_ok c"
  shows "cache_ok (thread_port_cache_evict c i)"
proof (cases "i \<in> cache_slots c")
  case True
  have l: "length (cache_entries c) = THREAD_MAX_KNOWN_PORTS" using assms by (simp add: cache_ok_def)
  have "0 < card (cache_slots c)" using True cache_slots_bound(1) by (auto simp: card_gt_0_iff)
  then have "cache_count c \<noteq> 0" using assms by (auto simp: cache_ok_def)
  then have "unat (cache_count (thread_port_cache_evict c i)) = unat (cache_count c) - 1"
    using True by (simp add: thread_port_cache_evict_def cache_slots_def unat_minus_one word_gt_0)
  then show ?thesis using assms evict_slots [OF l] True cache_slots_bound(1) by (simp add: cache_ok_def)
next
  case False
  then have "thread_port_cache_evict c i = c" by (simp add: thread_port_cache_evict_def cache_slots_def)
  with assms show ?thesis by simp
qed

lemma touch_slots:
  assumes "length (cache_entries c) = THREAD_MAX_KNOWN_PORTS"
  shows "cache_slots (thread_port_cache_touch_lru c i) = cache_slots c"
    "length (cache_entries (thread_port_cache_touch_lru c i)) = THREAD_MAX_KNOWN_PORTS"
    "cache_count (thread_port_cache_touch_lru c i) = cache_count c"
    "j < THREAD_MAX_KNOWN_PORTS \<Longrightarrow> entry_token (cache_entries (thread_port_cache_touch_lru c i) ! j) = entry_token (cache_entries c ! j)"
    "j < THREAD_MAX_KNOWN_PORTS \<Longrightarrow> name_hash (cache_entries (thread_port_cache_touch_lru c i) ! j) = name_hash (cache_entries c ! j)"
  using assms
  by (auto simp: thread_port_cache_touch_lru_def cache_slots_def thread_port_cache_entry_in_use_def entry_token_def
      Let_def nth_list_update split: if_splits)

lemma touch_cache_ok: "cache_ok c \<Longrightarrow> cache_ok (thread_port_cache_touch_lru c i)"
  by (simp add: cache_ok_def touch_slots)

text \<open>A token that fits its fields and is not the invalid one.\<close>

definition good_token :: "name_index_token \<Rightarrow> bool" where
  "good_token t \<longleftrightarrow> row_index t < 2 ^ 32 - 1 \<and> row_gen t < 2 ^ 16"

lemma unat_invalid: "unat NAME_INDEX_ROW_INDEX_INVALID = 2 ^ 32 - 1"
  unfolding NAME_INDEX_ROW_INDEX_INVALID_def by (simp add: unsigned_minus_1_eq_mask mask_eq_exp_minus_1)

lemma good_token_index:
  assumes "good_token t"
  shows "unat (of_nat (row_index t) :: u32) = row_index t" "of_nat (row_index t) \<noteq> NAME_INDEX_ROW_INDEX_INVALID"
    "unat (of_nat (row_gen t) :: u16) = row_gen t"
proof -
  show a: "unat (of_nat (row_index t) :: u32) = row_index t" and "unat (of_nat (row_gen t) :: u16) = row_gen t"
    using assms by (simp_all add: good_token_def unat_of_nat take_bit_nat_eq_self)
  from a assms show "of_nat (row_index t) \<noteq> NAME_INDEX_ROW_INDEX_INVALID"
    using unat_invalid by (auto simp: good_token_def)
qed

lemma fill_slots:
  assumes "length (cache_entries c) = THREAD_MAX_KNOWN_PORTS" "i < THREAD_MAX_KNOWN_PORTS" "good_token t"
  shows "cache_slots (thread_port_cache_fill_entry c i name (Some t)) = insert i (cache_slots c)"
    "length (cache_entries (thread_port_cache_fill_entry c i name (Some t))) = THREAD_MAX_KNOWN_PORTS"
    "cache_count (thread_port_cache_fill_entry c i name (Some t)) = cache_count c"
    "entry_token (cache_entries (thread_port_cache_fill_entry c i name (Some t)) ! i) = t"
    "name_hash (cache_entries (thread_port_cache_fill_entry c i name (Some t)) ! i) = thread_port_name_hash name"
    "j \<noteq> i \<Longrightarrow> cache_entries (thread_port_cache_fill_entry c i name (Some t)) ! j = cache_entries c ! j"
  using assms good_token_index [OF assms(3)]
  by (auto simp: thread_port_cache_fill_entry_def cache_slots_def thread_port_cache_entry_in_use_def entry_token_def
      Let_def nth_list_update)

section \<open>Which entry is displaced\<close>

lemma victim_fold:
  "case foldl (victim_step c) None (rev is) of
     None \<Rightarrow> \<forall>j\<in>set is. \<not> thread_port_cache_entry_in_use c j
   | Some (a, i) \<Rightarrow> i \<in> set is \<and> thread_port_cache_entry_in_use c i \<and> a = entry_age c i \<and>
       (\<forall>j\<in>set is. thread_port_cache_entry_in_use c j \<longrightarrow> entry_age c j \<le> a)"
proof (induction "is")
  case (Cons j "is")
  then show ?case by (auto simp: victim_step_def not_less split: option.splits if_splits intro: order.trans less_imp_le)
qed simp

lemma lru_victim_max:
  "case lru_victim c of
     None \<Rightarrow> cache_slots c = {}
   | Some i \<Rightarrow> i \<in> cache_slots c \<and> (\<forall>j\<in>cache_slots c. entry_age c j \<le> entry_age c i)"
  using victim_fold [of "rev [0..<THREAD_MAX_KNOWN_PORTS]" c] cache_slots_sub [of c]
  by (auto simp: lru_victim_def cache_slots_def thread_port_cache_entry_in_use_def split: option.splits)

text \<open>The outcome of recording a token, case by case.\<close>

lemma record_cases:
  assumes ok: "cache_ok c" and t: "good_token t"
  obtains (known) i where "i \<in> cache_slots c" "entry_token (cache_entries c ! i) = t"
      "thread_port_cache_record c name (Some t) = (let d = thread_port_cache_touch_lru c i in
         d\<lparr>cache_entries := (cache_entries d)[i := (cache_entries d ! i)\<lparr>name_hash := thread_port_name_hash name\<rparr>]\<rparr>)"
  | (free) i where "i \<notin> cache_slots c" "i < THREAD_MAX_KNOWN_PORTS" "\<forall>j\<in>cache_slots c. entry_token (cache_entries c ! j) \<noteq> t"
      "thread_port_cache_record c name (Some t) = (thread_port_cache_fill_entry c i name (Some t))\<lparr>cache_count := cache_count c + 1\<rparr>"
  | (full) i where "i \<in> cache_slots c" "cache_slots c = {..<THREAD_MAX_KNOWN_PORTS}" "\<forall>j\<in>cache_slots c. entry_age c j \<le> entry_age c i"
      "\<forall>j\<in>cache_slots c. entry_token (cache_entries c ! j) \<noteq> t"
      "thread_port_cache_record c name (Some t) = thread_port_cache_fill_entry c i name (Some t)"
proof -
  let ?m = THREAD_MAX_KNOWN_PORTS
  note g = good_token_index [OF t]
  have same: "same_token c (Some t) i \<longleftrightarrow> i \<in> cache_slots c \<and> entry_token (cache_entries c ! i) = t" for i
    using g by (auto simp: same_token_def cache_slots_def entry_token_def)
  show ?thesis
  proof (cases "find (same_token c (Some t)) [0..<?m]")
    case (Some i)
    with same known [of i] show ?thesis by (auto simp: find_Some_iff thread_port_cache_record_def Let_def)
  next
    case None
    then have new: "\<forall>j\<in>cache_slots c. entry_token (cache_entries c ! j) \<noteq> t"
      using same cache_slots_sub [of c] by (auto simp: find_None_iff)
    show ?thesis
    proof (cases "card (cache_slots c) < ?m")
      case True
      then have "\<exists>i<?m. i \<notin> cache_slots c" using card_mono [OF cache_slots_bound(1), of "{..<?m}" c] by force
      then obtain i where i: "find (\<lambda>i. \<not> thread_port_cache_entry_in_use c i) [0..<?m] = Some i"
        by (cases "find (\<lambda>i. \<not> thread_port_cache_entry_in_use c i) [0..<?m]") (auto simp: find_None_iff cache_slots_def)
      then have "i < ?m" "i \<notin> cache_slots c" by (auto simp: find_Some_iff cache_slots_def)
      with new None i True ok free [of i] show ?thesis
        by (simp add: thread_port_cache_record_def cache_ok_def Let_def thread_port_cache_fill_entry_def)
    next
      case False
      then have all: "cache_slots c = {..<?m}"
        using card_subset_eq [OF finite_lessThan cache_slots_sub] cache_slots_bound(2) [of c] by simp
      then have "0 \<in> cache_slots c" by (simp add: THREAD_MAX_KNOWN_PORTS_def)
      then have "cache_slots c \<noteq> {}" by auto
      then obtain i where "lru_victim c = Some i" using lru_victim_max [of c] by (auto split: option.splits)
      with lru_victim_max [of c] all new None False ok full [of i] show ?thesis
        by (auto simp: thread_port_cache_record_def cache_ok_def Let_def)
    qed
  qed
qed

lemma record_ok:
  assumes ok: "cache_ok c" and t: "good_token t"
  shows "cache_ok (thread_port_cache_record c name (Some t)) \<and>
    (\<exists>i\<in>cache_slots (thread_port_cache_record c name (Some t)).
       entry_token (cache_entries (thread_port_cache_record c name (Some t)) ! i) = t \<and>
       name_hash (cache_entries (thread_port_cache_record c name (Some t)) ! i) = thread_port_name_hash name)"
proof -
  have l: "length (cache_entries c) = THREAD_MAX_KNOWN_PORTS" using ok by (simp add: cache_ok_def)
  from ok t show ?thesis
  proof (cases rule: record_cases [where name = name])
    case (known i)
    let ?d = "thread_port_cache_touch_lru c i"
    let ?r = "thread_port_cache_record c name (Some t)"
    have i: "i < THREAD_MAX_KNOWN_PORTS" using known(1) cache_slots_sub by blast
    have e: "cache_entries ?r = (cache_entries ?d)[i := (cache_entries ?d ! i)\<lparr>name_hash := thread_port_name_hash name\<rparr>]"
      "cache_count ?r = cache_count ?d" by (simp_all add: known(3) Let_def)
    have "cache_slots ?r = cache_slots ?d" using i touch_slots(2) [OF l, of i]
      by (auto simp: cache_slots_def thread_port_cache_entry_in_use_def e nth_list_update split: if_splits)
    moreover have "entry_token (cache_entries ?r ! i) = t" "name_hash (cache_entries ?r ! i) = thread_port_name_hash name"
      using i touch_slots(2,4) [OF l, of i] known(2) by (simp_all add: e entry_token_def)
    ultimately show ?thesis using touch_slots [OF l, of i] known(1) touch_cache_ok [OF ok, of i] e
      by (auto simp: cache_ok_def)
  next
    case (free i)
    note f = fill_slots [OF l free(2) t, where name = name]
    have "card (cache_slots c) < THREAD_MAX_KNOWN_PORTS"
      using free(1,2) cache_slots_sub psubset_card_mono [of "{..<THREAD_MAX_KNOWN_PORTS}" "cache_slots c"] by fastforce
    then have "unat (cache_count c + 1) = unat (cache_count c) + 1"
      using ok by (simp add: cache_ok_def unat_word_ariths THREAD_MAX_KNOWN_PORTS_def)
    then show ?thesis using f free(1) ok cache_slots_bound(1) [of c] unfolding free(4)
      by (auto simp: cache_ok_def cache_slots_def thread_port_cache_entry_in_use_def)
  next
    case (full i)
    have "i < THREAD_MAX_KNOWN_PORTS" using full(1) cache_slots_sub by blast
    from fill_slots [OF l this t, where name = name] full(1) ok show ?thesis unfolding full(5)
      by (auto simp: cache_ok_def insert_absorb)
  qed
qed


section \<open>Runs\<close>

text \<open>A token that the table gives out is good while the registry has fewer than \<open>2 ^ 32\<close> rows.\<close>

lemma lookup_token:
  assumes inv: "port_inv ext s" and n: "name_ok PORT_NAME_LEN_MAX n" and rows: "length (rows (by_name s)) < 2 ^ 32"
    and l: "port_table_lookup_with_token allow s n = (s', Some p, tok)"
  shows "\<exists>t. tok = Some t \<and> good_token t \<and> entries (by_name s) (row_index t) = Some p \<and>
     row_gen t = gen (rows (by_name s) ! row_index t) mod 2 ^ 16 \<and> port_get_name (ports s) p = Some n \<and>
     allow p PORT_OPS_LOOKUP = REND_SUCCESS \<and> s' = take_hold s (Some p)"
proof -
  let ?gn = "port_get_name (ports s)"
  from l obtain q r where q: "name_index_search ?gn (by_name s) (Some n) = Some (q, r)"
      and h: "(if port_hold (ports s) q then Some q else None) = Some p"
      and tok: "tok = Some \<lparr>row_index = r mod 2 ^ 32, row_gen = gen (rows (by_name s) ! r) mod 2 ^ 16\<rparr>"
      and a: "allow p PORT_OPS_LOOKUP = REND_SUCCESS" and s': "s' = take_hold s (Some p)"
    by (auto simp: port_table_lookup_with_token_def name_index_lookup_def port_lookup_finish_def Let_def
        split: option.splits if_splits prod.splits)
  then have qp: "q = p" by (auto split: if_splits)
  have e: "entries (by_name s) r = Some p" "?gn p = Some n"
    using search_in_table [OF inv n] q qp by (auto split: option.splits)
  then have "r < length (rows (by_name s))" by (auto simp: entries_def split: if_splits)
  with rows e a s' tok show ?thesis by (auto simp: good_token_def)
qed

lemma lookup_loop_cache_ok:
  "cache_ok c \<Longrightarrow> lookup_loop (port_table_resolve_token allow) n h is c s = (c', s', res) \<Longrightarrow> cache_ok c'"
proof (induction "is" arbitrary: c s)
  case (Cons i "is")
  from Cons.prems(2) show ?case
    by (auto split: if_splits prod.splits option.splits
        intro: Cons.IH [OF Cons.prems(1)] Cons.IH [OF evict_cache_ok [OF Cons.prems(1), of i]] touch_cache_ok [OF Cons.prems(1)])
qed simp

lemma thread_lookup_cache_ok:
  assumes "port_inv ext s" "name_ok PORT_NAME_LEN_MAX n" "length (rows (by_name s)) < 2 ^ 32" "cache_ok c"
    and "thread_lookup_port allow (Some c) (Some s) (Some n) = (Some c', Some s', res)"
  shows "cache_ok c'"
proof (cases "thread_port_cache_lookup allow c s n")
  case (fields d s1 v)
  have d: "cache_ok d" using lookup_loop_cache_ok [OF assms(4)] fields by (simp add: thread_port_cache_lookup_def)
  show ?thesis
  proof (cases v)
    case (Some p)
    with fields assms(5) d show ?thesis by (simp add: thread_lookup_port_def)
  next
    case None
    with lookup_loop_cases [OF assms(1,2), of allow "thread_port_name_hash (Some n)" "[0..<THREAD_MAX_KNOWN_PORTS]" c] fields
    have s1: "s1 = s" by (auto simp: thread_port_cache_lookup_def)
    obtain s2 w tok where l: "port_table_lookup_with_token allow s n = (s2, w, tok)" by (metis prod_cases3)
    show ?thesis
    proof (cases w)
      case (Some p)
      with lookup_token [OF assms(1-3), of allow s2 p tok] l obtain t where "tok = Some t" "good_token t" by auto
      with record_ok [OF d, of t "Some n"] assms(5) fields None l s1 Some show ?thesis
        by (simp add: thread_lookup_port_def)
    qed (use assms(5) fields None l s1 d in \<open>simp add: thread_lookup_port_def\<close>)
  qed
qed

text \<open>
  One thread's cache beside the port table: any thread takes a step on the table, the owner of the
  cache looks a name up, or the cache is cleared as its thread ends.
\<close>

inductive cache_run ::
    "(nat \<Rightarrow> port_ops_type \<Rightarrow> error_t) \<Rightarrow> (nat \<Rightarrow> bool) \<Rightarrow> (nat \<Rightarrow> nat) \<Rightarrow> port_table \<Rightarrow> thread_port_cache \<Rightarrow> bool"
  for allow mem where
  cache_start: "cache_run allow mem (\<lambda>_. 0) (port_table_init mem Map.empty) thread_port_cache_init"
| cache_other: "\<lbrakk>cache_run allow mem ext s c; port_step allow mem (ext, s) (ext', s')\<rbrakk> \<Longrightarrow> cache_run allow mem ext' s' c"
| cache_hit: "\<lbrakk>cache_run allow mem ext s c; name_ok PORT_NAME_LEN_MAX n; length (rows (by_name s)) < 2 ^ 32;
     thread_lookup_port allow (Some c) (Some s) (Some n) = (Some c', Some s', Some p)\<rbrakk> \<Longrightarrow>
     cache_run allow mem (ext(p := ext p + 1)) s' c'"
| cache_miss: "\<lbrakk>cache_run allow mem ext s c; name_ok PORT_NAME_LEN_MAX n; length (rows (by_name s)) < 2 ^ 32;
     thread_lookup_port allow (Some c) (Some s) (Some n) = (Some c', Some s', None)\<rbrakk> \<Longrightarrow>
     cache_run allow mem ext s' c'"
| cache_clear: "cache_run allow mem ext s c \<Longrightarrow> cache_run allow mem ext s (thread_port_cache_clear c)"

lemma cache_run_inv: "cache_run allow mem ext s c \<Longrightarrow> port_inv ext s \<and> cache_ok c"
proof (induction rule: cache_run.induct)
  case cache_start
  then show ?case using port_init_inv init_cache_ok by simp
next
  case (cache_other ext s c ext' s')
  then show ?case using port_step_inv [of allow mem "(ext, s)" "(ext', s')"] by simp
next
  case (cache_hit ext s c n c' s' p)
  then have "port_inv (ext(p := ext p + 1)) s'"
    using thread_lookup_transparent [of ext s n allow c] lookup_ok [of ext s n allow] by auto
  moreover have "cache_ok c'" using cache_hit thread_lookup_cache_ok [of ext s n c allow c' s' "Some p"] by simp
  ultimately show ?case by (rule conjI)
next
  case (cache_miss ext s c n c' s')
  then show ?case using thread_lookup_transparent [of ext s n allow c] lookup_ok [of ext s n allow]
      thread_lookup_cache_ok [of ext s n c allow c' s' None] by auto
qed (simp_all add: clear_cache_ok)

section \<open>A recorded port is found\<close>

text \<open>An entry whose token stands for the port asked for.\<close>

definition fresh_slot :: "port_table \<Rightarrow> u8 list \<Rightarrow> nat \<Rightarrow> thread_port_cache \<Rightarrow> nat \<Rightarrow> bool" where
  "fresh_slot s n p c i \<longleftrightarrow>
     i \<in> cache_slots c \<and> name_hash (cache_entries c ! i) = thread_port_name_hash (Some n) \<and>
     entries (by_name s) (row_index (entry_token (cache_entries c ! i))) = Some p \<and>
     row_gen (entry_token (cache_entries c ! i)) = gen (rows (by_name s) ! row_index (entry_token (cache_entries c ! i))) mod 2 ^ 16"

lemma fresh_slot_resolves:
  assumes inv: "port_inv ext s" and n: "name_ok PORT_NAME_LEN_MAX n" and f: "fresh_slot s n p c i"
    and p: "port_get_name (ports s) p = Some n" "allow p PORT_OPS_LOOKUP = REND_SUCCESS"
  shows "port_table_resolve_token allow s (Some (entry_token (cache_entries c ! i))) n = (take_hold s (Some p), Some p)"
proof -
  let ?t = "entry_token (cache_entries c ! i)"
  have r: "row_index ?t < length (rows (by_name s))" "used (rows (by_name s) ! row_index ?t)" "storage (rows (by_name s) ! row_index ?t) = p"
    using f by (auto simp: fresh_slot_def entries_def split: if_splits)
  have "cache_row_index (cache_entries c ! i) \<noteq> NAME_INDEX_ROW_INDEX_INVALID"
    using f by (simp add: fresh_slot_def cache_slots_def thread_port_cache_entry_in_use_def)
  then have ri: "row_index ?t \<noteq> 2 ^ 32 - 1" unfolding unat_invalid [symmetric] by (simp add: entry_token_def word_unat_eq_iff)
  have "registered s p" using f by (auto simp: fresh_slot_def registered_def ran_def)
  then obtain pt where pt: "ports s p = Some pt" "0 < p_ref pt" "p \<noteq> 0"
    using port_invD(5,6) [OF inv, of p] by (auto simp: port_ok_def)
  have "name_len_max (by_name s) = PORT_NAME_LEN_MAX" using port_invD(3) [OF inv] by (simp add: hooks_def)
  then have "strcmp_s n n (name_len_max (by_name s)) = 0" using n by (simp add: strcmp_s_eq name_ok_def)
  then have "name_index_resolve (port_get_name (ports s)) (port_hold (ports s)) (by_name s) (Some ?t) (Some n) = Some p"
    using r ri p pt f by (simp add: name_index_resolve_def row_live_def Let_def fresh_slot_def port_hold_def ref_get_not_zero_def)
  then show ?thesis using p(2) by (simp add: port_table_resolve_token_def Let_def port_lookup_finish_def)
qed

lemma evict_fresh:
  assumes "length (cache_entries c) = THREAD_MAX_KNOWN_PORTS" "fresh_slot s n p c i" "j \<noteq> i"
  shows "fresh_slot s n p (thread_port_cache_evict c j) i"
  using assms by (simp add: fresh_slot_def evict_slots)

lemma lookup_loop_finds:
  assumes inv: "port_inv ext s" and n: "name_ok PORT_NAME_LEN_MAX n"
    and p: "port_get_name (ports s) p = Some n" "allow p PORT_OPS_LOOKUP = REND_SUCCESS"
  shows "cache_ok c \<Longrightarrow> i \<in> set is \<Longrightarrow> fresh_slot s n p c i \<Longrightarrow>
    \<exists>c' s' q. lookup_loop (port_table_resolve_token allow) n (thread_port_name_hash (Some n)) is c s = (c', s', Some q)"
proof (induction "is" arbitrary: c)
  case (Cons j "is")
  show ?case
  proof (cases "j = i")
    case True
    with Cons.prems fresh_slot_resolves [OF inv n Cons.prems(3), of allow] p show ?thesis
      by (simp add: fresh_slot_def cache_slots_def)
  next
    case False
    then have i: "i \<in> set is" using Cons.prems(2) by simp
    have l: "length (cache_entries c) = THREAD_MAX_KNOWN_PORTS" using Cons.prems(1) by (simp add: cache_ok_def)
    from resolve_token_cases [OF inv n, of allow "entry_token (cache_entries c ! j)"]
      Cons.IH [OF Cons.prems(1) i Cons.prems(3)]
      Cons.IH [OF evict_cache_ok [OF Cons.prems(1), of j] i evict_fresh [OF l Cons.prems(3) False]]
    show ?thesis by auto
  qed
qed simp

text \<open>A hit leaves the entry that answered.\<close>

lemma lookup_loop_fresh:
  assumes inv: "port_inv ext s" and n: "name_ok PORT_NAME_LEN_MAX n"
  shows "cache_ok c \<Longrightarrow> set is \<subseteq> {..<THREAD_MAX_KNOWN_PORTS} \<Longrightarrow>
    lookup_loop (port_table_resolve_token allow) n (thread_port_name_hash (Some n)) is c s = (c', s', Some p) \<Longrightarrow>
    \<exists>i<THREAD_MAX_KNOWN_PORTS. fresh_slot s n p c' i"
proof (induction "is" arbitrary: c)
  case (Cons j "is")
  let ?t = "entry_token (cache_entries c ! j)"
  have l: "length (cache_entries c) = THREAD_MAX_KNOWN_PORTS" using Cons.prems(1) by (simp add: cache_ok_def)
  show ?case
  proof (cases "thread_port_cache_entry_in_use c j \<and> name_hash (cache_entries c ! j) = thread_port_name_hash (Some n)")
    case True
    obtain s1 v where r: "port_table_resolve_token allow s (Some ?t) n = (s1, v)" by fastforce
    show ?thesis
    proof (cases v)
      case None
      with r resolve_token_cases [OF inv n, of allow ?t] have "s1 = s" by auto
      with None r True Cons.prems Cons.IH [OF evict_cache_ok [OF Cons.prems(1), of j]] show ?thesis by simp
    next
      case (Some q)
      with r obtain w where w: "name_index_resolve (port_get_name (ports s)) (port_hold (ports s)) (by_name s) (Some ?t) (Some n) = Some w" "w = q"
        by (auto simp: port_table_resolve_token_def port_lookup_finish_def Let_def split: option.splits if_splits)
      have c': "c' = thread_port_cache_touch_lru c j" "q = p" using Cons.prems(3) r Some True by simp_all
      have "entries (by_name s) (row_index ?t) = Some p"
        using name_index_resolve_sound [OF port_invD(1) [OF inv] _ w(1)] n w(2) c'(2) by (simp add: name_ok_def)
      moreover have "row_gen ?t = gen (rows (by_name s) ! row_index ?t) mod 2 ^ 16"
        using w(1) by (auto simp: name_index_resolve_def Let_def split: if_splits)
      ultimately have "fresh_slot s n p c j" using True by (simp add: fresh_slot_def cache_slots_def)
      moreover have "j < THREAD_MAX_KNOWN_PORTS" using Cons.prems(2) by simp
      ultimately show ?thesis using touch_slots [OF l, of j] c'(1) by (auto simp: fresh_slot_def)
    qed
  next
    case False
    with Cons show ?thesis by (auto split: if_splits)
  qed
qed simp


lemma fresh_slot_by_name: "by_name s' = by_name s \<Longrightarrow> fresh_slot s' n p c i = fresh_slot s n p c i"
  by (simp add: fresh_slot_def)

lemma thread_lookup_fresh:
  assumes inv: "port_inv ext s" and n: "name_ok PORT_NAME_LEN_MAX n" and rows: "length (rows (by_name s)) < 2 ^ 32"
    and ok: "cache_ok c" and l: "thread_lookup_port allow (Some c) (Some s) (Some n) = (Some c', Some s', Some p)"
  shows "\<exists>i<THREAD_MAX_KNOWN_PORTS. fresh_slot s n p c' i"
proof (cases "thread_port_cache_lookup allow c s n")
  case (fields d s1 v)
  note loop = fields [unfolded thread_port_cache_lookup_def]
  show ?thesis
  proof (cases v)
    case (Some q)
    with fields l have "d = c'" "s1 = s'" "v = Some p" by (simp_all add: thread_lookup_port_def)
    moreover have "set [0..<THREAD_MAX_KNOWN_PORTS] \<subseteq> {..<THREAD_MAX_KNOWN_PORTS}" by auto
    ultimately show ?thesis using lookup_loop_fresh [OF inv n ok _ loop [unfolded \<open>v = Some p\<close>]] by blast
  next
    case None
    with lookup_loop_cases [OF inv n, of allow "thread_port_name_hash (Some n)" "[0..<THREAD_MAX_KNOWN_PORTS]" c] loop
    have s1: "s1 = s" by auto
    obtain s2 w tok where t: "port_table_lookup_with_token allow s n = (s2, w, tok)" by (metis prod_cases3)
    with l fields None s1 have "w = Some p" by (auto simp: thread_lookup_port_def split: option.splits)
    with lookup_token [OF inv n rows, of allow s2 p tok] t obtain u where u: "tok = Some u" "good_token u"
        "entries (by_name s) (row_index u) = Some p" "row_gen u = gen (rows (by_name s) ! row_index u) mod 2 ^ 16"
      by auto
    have "c' = thread_port_cache_record d (Some n) (Some u)"
      using l fields None s1 t u(1) \<open>w = Some p\<close> by (simp add: thread_lookup_port_def)
    with record_ok [OF lookup_loop_cache_ok [OF ok loop] u(2), of "Some n"] u(3,4) cache_slots_sub show ?thesis
      by (fastforce simp: fresh_slot_def)
  qed
qed

lemma lookup_someD:
  assumes "port_table_lookup allow s n = (s', Some p)"
  shows "allow p PORT_OPS_LOOKUP = REND_SUCCESS \<and> s' = take_hold s (Some p) \<and> port_get_name (ports s') = port_get_name (ports s)"
  using assms
  by (auto simp: port_table_lookup_def port_lookup_finish_def take_hold_def port_get_name_def fun_eq_iff
      split: prod.splits option.splits if_splits)

section \<open>Properties\<close>

text \<open>C14. The port cache cannot be observed: whatever the cache of the calling thread holds (stale tokens,
  colliding hashes, tokens of rows that were reused), looking a port up through it gives the same
  port and leaves the port table, reference counts included, exactly as the lookup without a cache.\<close>

theorem thread_lookup_port_transparent:
  assumes "port_inv ext s" and "name_ok PORT_NAME_LEN_MAX n"
  shows "\<exists>c'. thread_lookup_port allow (Some c) (Some s) (Some n)
     = (Some c', Some (fst (port_table_lookup allow s n)), snd (port_table_lookup allow s n))"
  using thread_lookup_transparent [OF assms] .

theorem thread_lookup_port_transparent_witness:
  "\<exists>c'. thread_lookup_port (\<lambda>_ _. REND_SUCCESS) (Some thread_port_cache_init) (Some tiny_table) (Some [65])
     = (Some c', Some (fst (port_table_lookup (\<lambda>_ _. REND_SUCCESS) tiny_table [65])),
        snd (port_table_lookup (\<lambda>_ _. REND_SUCCESS) tiny_table [65]))"
  by (rule thread_lookup_port_transparent [OF tiny_table_inv]) (simp add: name_ok_def PORT_NAME_LEN_MAX_def)

text \<open>C29. After any sequence of lookups, table steps of other threads and clearing, a thread's cache is well
  formed: it has its sixteen entries, and its count is exactly the number of entries in use, so the
  test of the count against the capacity decides whether an entry is free.\<close>

theorem port_cache_count_exact:
  assumes "cache_run allow mem ext s c"
  shows "length (cache_entries c) = THREAD_MAX_KNOWN_PORTS \<and>
     unat (cache_count c) = card {i. thread_port_cache_entry_in_use c i} \<and>
     (unat (cache_count c) < THREAD_MAX_KNOWN_PORTS \<longleftrightarrow> (\<exists>i<THREAD_MAX_KNOWN_PORTS. \<not> thread_port_cache_entry_in_use c i))"
proof -
  have ok: "cache_ok c" using cache_run_inv [OF assms] by simp
  have "cache_slots c = {..<THREAD_MAX_KNOWN_PORTS} \<longleftrightarrow> card (cache_slots c) = THREAD_MAX_KNOWN_PORTS"
    using card_subset_eq [OF finite_lessThan cache_slots_sub, of c] by (metis card_lessThan)
  moreover have "cache_slots c = {..<THREAD_MAX_KNOWN_PORTS} \<longleftrightarrow> (\<forall>i<THREAD_MAX_KNOWN_PORTS. thread_port_cache_entry_in_use c i)"
    using cache_slots_sub [of c] by (auto simp only: cache_slots_def mem_Collect_eq lessThan_iff)
  ultimately show ?thesis using ok cache_slots_bound(2) [of c] unfolding cache_ok_def cache_slots_def
    by (metis le_neq_implies_less less_irrefl)
qed

theorem port_cache_count_exact_witness:
  "unat (cache_count thread_port_cache_init) = card {i. thread_port_cache_entry_in_use thread_port_cache_init i}"
  using port_cache_count_exact [OF cache_start [of "\<lambda>_ _. REND_SUCCESS" "\<lambda>_. True"]] by simp

text \<open>A port that was looked up is found in the cache the next time: after a successful
  \<^verbatim>\<open>thread_lookup_port\<close>, also one that had to displace another entry, the lookup in the cache alone
  returns the same port, as long as the registry is unchanged and has fewer than \<open>2 ^ 32\<close> rows.\<close>

theorem port_cache_remembers:
  assumes inv: "port_inv ext s" and n: "name_ok PORT_NAME_LEN_MAX n" and rows: "length (rows (by_name s)) < 2 ^ 32"
    and ok: "cache_ok c" and l: "thread_lookup_port allow (Some c) (Some s) (Some n) = (Some c', Some s', Some p)"
  shows "\<exists>c'' s''. thread_port_cache_lookup allow c' s' n = (c'', s'', Some p)"
proof -
  obtain i where i: "i < THREAD_MAX_KNOWN_PORTS" "fresh_slot s n p c' i" using thread_lookup_fresh [OF assms] by blast
  have t: "port_table_lookup allow s n = (s', Some p)" using thread_lookup_transparent [OF inv n, of allow c] l by auto
  with lookup_ok [OF inv n, of allow] have s': "by_name s' = by_name s" "port_inv (ext(p := ext p + 1)) s'"
    and registered_name: "port_get_name (ports s) p = Some n" by auto
  have "registered s' p" using i(2) s'(1) by (auto simp: fresh_slot_def registered_def ran_def)
  have p: "port_get_name (ports s') p = Some n" "allow p PORT_OPS_LOOKUP = REND_SUCCESS"
    using lookup_someD [OF t] registered_name by auto
  have c': "cache_ok c'" using thread_lookup_cache_ok [OF inv n rows ok l] .
  obtain c'' s'' q where q: "thread_port_cache_lookup allow c' s' n = (c'', s'', Some q)"
    using lookup_loop_finds [OF s'(2) n p(1), of allow c' i "[0..<THREAD_MAX_KNOWN_PORTS]"] p(2) c' i fresh_slot_by_name [OF s'(1)]
    by (auto simp: thread_port_cache_lookup_def)
  then have "port_table_lookup allow s' n = (s'', Some q)"
    using lookup_loop_cases [OF s'(2) n, of allow "thread_port_name_hash (Some n)" "[0..<THREAD_MAX_KNOWN_PORTS]" c']
    by (auto simp: thread_port_cache_lookup_def)
  with lookup_ok [OF s'(2) n, of allow] have "registered s' q" "port_get_name (ports s') q = Some n" by auto
  with p(1) \<open>registered s' p\<close> port_invD(2) [OF s'(2)] have "q = p"
    unfolding unique_ports_def registered_def ran_def by (auto simp: ) (metis option.inject)
  with q show ?thesis by blast
qed


lemma tiny_search: "name_index_search (port_get_name (ports tiny_table)) tiny_index (Some [65]) = Some (7, 0)"
  using search_in_table [OF tiny_table_inv, of "[65]"] tiny_registered
  by (auto simp: name_ok_def PORT_NAME_LEN_MAX_def tiny_fields tiny_entries port_get_name_def split: option.splits if_splits)

lemma tiny_lookup: "snd (port_table_lookup (\<lambda>_ _. REND_SUCCESS) tiny_table [65]) = Some 7"
  by (simp add: port_table_lookup_def name_index_lookup_def tiny_fields(2) tiny_search)
     (simp add: tiny_index_def port_hold_def tiny_fields ref_get_not_zero_def port_lookup_finish_def Let_def)

theorem port_cache_remembers_witness:
  "\<exists>c' s' c'' s''. thread_lookup_port (\<lambda>_ _. REND_SUCCESS) (Some thread_port_cache_init) (Some tiny_table) (Some [65])
       = (Some c', Some s', Some 7) \<and>
     thread_port_cache_lookup (\<lambda>_ _. REND_SUCCESS) c' s' [65] = (c'', s'', Some 7)"
proof -
  have n: "name_ok PORT_NAME_LEN_MAX [65]" by (simp add: name_ok_def PORT_NAME_LEN_MAX_def)
  obtain c' s' where l: "thread_lookup_port (\<lambda>_ _. REND_SUCCESS) (Some thread_port_cache_init) (Some tiny_table) (Some [65])
      = (Some c', Some s', Some 7)"
    using thread_lookup_transparent [OF tiny_table_inv n, of "\<lambda>_ _. REND_SUCCESS" thread_port_cache_init] tiny_lookup by auto
  have "length (rows (by_name tiny_table)) < 2 ^ 32" by (simp add: tiny_fields tiny_index_def)
  from port_cache_remembers [OF tiny_table_inv n this init_cache_ok l] l show ?thesis by blast
qed

text \<open>The ages are taken modulo \<open>2 ^ 16\<close>: exact while no entry is idle for that many uses of the cache, and
  zero again for an entry that was idle for exactly that long.\<close>

lemma ucast_clock: "(ucast (of_nat T :: u64) :: u16) = of_nat T"
  by (simp add: word_unat_eq_iff unsigned_of_nat unat_of_nat unsigned_ucast_eq)

lemma entry_age_ticks:
  assumes "lru_clock c = of_nat T" "lru_counter (cache_entries c ! i) = of_nat (used_at i)" "used_at i \<le> T"
  shows "entry_age c i = of_nat (T - used_at i)"
  using assms by (simp add: entry_age_def ucast_clock of_nat_diff)

lemma entry_age_wraps:
  assumes "lru_clock c = of_nat (65536 + t)" "lru_counter (cache_entries c ! i) = of_nat t"
  shows "entry_age c i = 0"
  using ucast_clock [of "65536 + t"] assms by (simp add: entry_age_def)


definition full_cache :: thread_port_cache where
  "full_cache = \<lparr>cache_entries = map (\<lambda>i. \<lparr>lru_counter = of_nat (i + 1), cache_row_gen = 0, cache_row_index = of_nat i, name_hash = 0\<rparr>) [0..<16],
     cache_count = 16, lru_clock = 16\<rparr>"

lemma full_cache_entry:
  "i < 16 \<Longrightarrow> cache_entries full_cache ! i = \<lparr>lru_counter = of_nat (i + 1), cache_row_gen = 0, cache_row_index = of_nat i, name_hash = 0\<rparr>"
  by (simp add: full_cache_def)

lemma full_cache_slot:
  assumes "i < 16"
  shows "thread_port_cache_entry_in_use full_cache i \<and> entry_token (cache_entries full_cache ! i) = \<lparr>row_index = i, row_gen = 0\<rparr>"
proof -
  have "good_token \<lparr>row_index = i, row_gen = 0\<rparr>" using assms by (simp add: good_token_def)
  from good_token_index [OF this] assms show ?thesis
    by (simp add: thread_port_cache_entry_in_use_def full_cache_entry THREAD_MAX_KNOWN_PORTS_def entry_token_def)
qed

lemma full_cache_ok: "cache_ok full_cache"
proof -
  have "cache_slots full_cache = {..<16}"
    using full_cache_slot cache_slots_sub [of full_cache] by (auto simp: cache_slots_def THREAD_MAX_KNOWN_PORTS_def)
  then show ?thesis by (simp add: cache_ok_def full_cache_def THREAD_MAX_KNOWN_PORTS_def)
qed


end
