(* ===== verification/Sched.thy ===== *)
theory Sched
  imports Ipc Tagged_Ptr Link_List
begin

unbundle bit_operations_syntax

text \<open>
  The scheduler, \<^verbatim>\<open>kernel/task/task_manager.c\<close>, with the run queues of \<^verbatim>\<open>kernel/task/thread_boot.c\<close>.

  Every CPU has a task manager with a ring of threads, linked through the list nodes in the threads
  (theory \<open>Link_List\<close>), a current thread, and a current address space. The model has the fields of a
  thread that scheduling reads and writes: status, flags, address space and manager. An address space
  has its reference count and the bitmap of the CPUs that may have its translations cached.

  A call of \<^verbatim>\<open>schedule\<close> is one step: it runs under the lock of its manager. The result is the state at the
  context switch. \<open>None\<close> is the use of freed memory, or a walk of the ring that has not ended within the
  fuel. The work that \<^verbatim>\<open>schedule\<close> first does for other components (\<^verbatim>\<open>kalloc_process_cross_cpu_frees\<close>,
  \<^verbatim>\<open>ebr_try_reclaim\<close>), printing, and the hardware switch of page tables and registers do not touch this
  state.
\<close>

section \<open>State\<close>

datatype sched_node = TM_LIST nat | THREAD_LIST nat

record vspace =
  vs_refcount :: int
  tlb_cpu_mask :: bitmap_t

record sched_thread =
  th_status :: thread_status
  th_flags :: u64
  th_vs :: "nat option"
  th_tm :: "nat option"

record task_manager =
  current_thread :: "nat option"
  has_scheduler :: bool

record sched =
  sched_threads :: "nat \<rightharpoonup> sched_thread"
  managers :: "nat \<rightharpoonup> task_manager"
  links :: "sched_node list_heap"
  vspaces :: "nat \<rightharpoonup> vspace"
  current_vspace :: "nat \<Rightarrow> nat"

definition RENDEZVOS_MAX_CPU_NUMBER :: nat where "RENDEZVOS_MAX_CPU_NUMBER = 128"

definition THREAD_FLAG_USER :: u64 where "THREAD_FLAG_USER = 1"

definition THREAD_FLAG_EXIT_REQUESTED :: u64 where "THREAD_FLAG_EXIT_REQUESTED = 2"

text \<open>The address of \<^verbatim>\<open>root_vspace\<close>.\<close>

definition root_vspace :: nat where "root_vspace = 0"

section \<open>Status of a thread\<close>

definition change_thread :: "nat \<Rightarrow> (sched_thread \<Rightarrow> sched_thread) \<Rightarrow> sched \<Rightarrow> sched option" where
  "change_thread t f s = do { th \<leftarrow> sched_threads s t; Some (s\<lparr>sched_threads := (sched_threads s)(t \<mapsto> f th)\<rparr>) }"

definition sched_set_status :: "nat \<Rightarrow> thread_status \<Rightarrow> sched \<Rightarrow> sched option" where
  "sched_set_status t st = change_thread t (\<lambda>th. th\<lparr>th_status := st\<rparr>)"

definition sched_set_status_with_expect :: "nat \<Rightarrow> thread_status \<Rightarrow> thread_status \<Rightarrow> sched \<Rightarrow> sched option" where
  "sched_set_status_with_expect t expect_status target_status =
     change_thread t (\<lambda>th. if th_status th = expect_status then th\<lparr>th_status := target_status\<rparr> else th)"

definition thread_or_flags :: "nat \<Rightarrow> u64 \<Rightarrow> sched \<Rightarrow> sched option" where
  "thread_or_flags t bits = change_thread t (\<lambda>th. th\<lparr>th_flags := th_flags th OR bits\<rparr>)"

section \<open>Task managers\<close>

definition choose_schedule :: "task_manager \<Rightarrow> task_manager" where
  "choose_schedule tm = tm\<lparr>has_scheduler := True\<rparr>"

text \<open>
  \<^verbatim>\<open>new_task_manager\<close> on CPU \<open>m\<close>. \<open>mem\<close> is what \<^verbatim>\<open>m_alloc\<close> returns: the content of the new block, or nothing.
  A failed allocation is not tested: the list head is written through \<open>NULL\<close>.
\<close>

definition new_task_manager :: "task_manager option \<Rightarrow> nat \<Rightarrow> sched \<Rightarrow> sched option" where
  "new_task_manager mem m s =
     (case mem of
        None \<Rightarrow> None
      | Some tm \<Rightarrow> Some (s\<lparr>managers := (managers s)(m \<mapsto> choose_schedule tm), links := INIT_LIST_HEAD (TM_LIST m) (links s)\<rparr>))"

definition add_thread_to_manager :: "nat \<Rightarrow> nat \<Rightarrow> sched \<Rightarrow> (sched \<times> error_t) option" where
  "add_thread_to_manager m t s = do {
     th \<leftarrow> sched_threads s t;
     if th_tm th \<noteq> None then Some (s, E_RENDEZVOS)
     else do {
       h \<leftarrow> list_add_tail (THREAD_LIST t) (TM_LIST m) (links s);
       s \<leftarrow> change_thread t (\<lambda>th. th\<lparr>th_tm := Some m\<rparr>) (s\<lparr>links := h\<rparr>);
       s \<leftarrow> sched_set_status_with_expect t thread_status_init thread_status_ready s;
       Some (s, REND_SUCCESS)
     }
   }"

definition del_thread_from_manager :: "nat \<Rightarrow> sched \<Rightarrow> (sched \<times> error_t) option" where
  "del_thread_from_manager t s = do {
     th \<leftarrow> sched_threads s t;
     case th_tm th of
       Some m \<Rightarrow> do {
         tm \<leftarrow> managers s m;
         if current_thread tm = Some t then Some (s, E_REND_AGAIN)
         else do {
           h \<leftarrow> list_del_init (THREAD_LIST t) (links s);
           s \<leftarrow> change_thread t (\<lambda>th. th\<lparr>th_tm := None\<rparr>) (s\<lparr>links := h\<rparr>);
           Some (s, REND_SUCCESS)
         }
       }
     | None \<Rightarrow>
         if list_node_is_detached (Some (THREAD_LIST t)) (links s) then Some (s, REND_SUCCESS)
         else do { h \<leftarrow> list_del_init (THREAD_LIST t) (links s); Some (s\<lparr>links := h\<rparr>, REND_SUCCESS) }
   }"

text \<open>\<^verbatim>\<open>add_thread_to_cpu\<close> with \<^verbatim>\<open>cpu_id_is_online\<close> and \<^verbatim>\<open>task_manager_for_cpu\<close>; \<open>nr_cpu\<close> is \<^verbatim>\<open>NR_CPU\<close>.\<close>

definition cpu_id_is_online :: "nat \<Rightarrow> nat \<Rightarrow> sched \<Rightarrow> bool" where
  "cpu_id_is_online nr_cpu cpu s \<longleftrightarrow> cpu < RENDEZVOS_MAX_CPU_NUMBER \<and> cpu < nr_cpu \<and> managers s cpu \<noteq> None"

definition add_thread_to_cpu :: "nat \<Rightarrow> nat \<Rightarrow> nat \<Rightarrow> sched \<Rightarrow> (sched \<times> error_t) option" where
  "add_thread_to_cpu nr_cpu t cpu s = do {
     th \<leftarrow> sched_threads s t;
     if th_tm th \<noteq> None then Some (s, E_RENDEZVOS)
     else if th_status th \<noteq> thread_status_init then Some (s, E_RENDEZVOS)
     else if \<not> cpu_id_is_online nr_cpu cpu s then Some (s, E_IN_PARAM)
     else add_thread_to_manager cpu t s
   }"

section \<open>Address spaces\<close>

definition vs_tlb_cpu_mask_set :: "bitmap_t \<Rightarrow> nat \<Rightarrow> bitmap_t option" where
  "vs_tlb_cpu_mask_set b cpu = (if cpu \<ge> RENDEZVOS_MAX_CPU_NUMBER then Some b else bitmap_set b cpu)"

definition vs_tlb_cpu_mask_clear :: "bitmap_t \<Rightarrow> nat \<Rightarrow> bitmap_t option" where
  "vs_tlb_cpu_mask_clear b cpu = (if cpu \<ge> RENDEZVOS_MAX_CPU_NUMBER then Some b else bitmap_clear b cpu)"

text \<open>
  \<^verbatim>\<open>ref_put(&vs->refcount, free_vspace_ref)\<close>. The last put deletes the address space, unless it is the root or
  its CPU bitmap is not empty; then \<^verbatim>\<open>del_vspace\<close> gives up and the object stays behind with the count zero.
  Freeing the page tables is not part of this model.
\<close>

definition put_vspace :: "nat \<Rightarrow> sched \<Rightarrow> sched option" where
  "put_vspace v s = do {
     vs \<leftarrow> vspaces s v;
     let (r, free) = ref_put (vs_refcount vs) True;
     Some (s\<lparr>vspaces := (vspaces s)(v :=
       if free \<and> v \<noteq> root_vspace \<and> bitmap_is_zero (tlb_cpu_mask vs) then None else Some (vs\<lparr>vs_refcount := r\<rparr>))\<rparr>)
   }"

text \<open>
  \<^verbatim>\<open>del_thread_structure\<close>: off the ring, the address space is put, the thread is freed. What it does to the
  messages of the thread is in theory \<open>Ipc\<close>; the hook, the name and the kernel stack are left out.
\<close>

definition del_thread_structure :: "nat \<Rightarrow> sched \<Rightarrow> sched option" where
  "del_thread_structure t s = do {
     (s, _) \<leftarrow> del_thread_from_manager t s;
     th \<leftarrow> sched_threads s t;
     s \<leftarrow> (case th_vs th of None \<Rightarrow> Some s | Some v \<Rightarrow> put_vspace v s);
     Some (s\<lparr>sched_threads := (sched_threads s)(t := None)\<rparr>)
   }"

section \<open>Scheduling\<close>

text \<open>The walk of the ring; \<open>None\<close> when the fuel is used up.\<close>

fun rr_loop :: "nat \<Rightarrow> sched \<Rightarrow> nat \<Rightarrow> sched_node option \<Rightarrow> nat option" where
  "rr_loop 0 s m pos = None"
| "rr_loop (Suc fuel) s m pos =
     (case pos of
        None \<Rightarrow> None
      | Some (TM_LIST k) \<Rightarrow> if k = m then rr_loop fuel s m (l_next (links s) (TM_LIST k)) else None
      | Some (THREAD_LIST t) \<Rightarrow>
          (case sched_threads s t of
             None \<Rightarrow> None
           | Some th \<Rightarrow>
               if th_status th \<noteq> thread_status_ready then rr_loop fuel s m (l_next (links s) (THREAD_LIST t))
               else Some t))"

definition round_robin_schedule :: "nat \<Rightarrow> nat \<Rightarrow> sched \<Rightarrow> nat option option" where
  "round_robin_schedule fuel m s =
     (case managers s m of
        None \<Rightarrow> Some None
      | Some tm \<Rightarrow>
          (case current_thread tm of
             None \<Rightarrow> Some None
           | Some c \<Rightarrow> map_option Some (rr_loop fuel s m (l_next (links s) (THREAD_LIST c)))))"

definition set_current :: "nat \<Rightarrow> nat \<Rightarrow> sched \<Rightarrow> sched" where
  "set_current m t s = s\<lparr>managers := (managers s)(m := map_option (\<lambda>tm. tm\<lparr>current_thread := Some t\<rparr>) (managers s m))\<rparr>"

definition use_old_thread :: "nat \<Rightarrow> nat \<Rightarrow> sched \<Rightarrow> sched option" where
  "use_old_thread m cur s =
     sched_set_status_with_expect cur thread_status_ready thread_status_running (set_current m cur s)"

text \<open>The change of address space in \<^verbatim>\<open>schedule\<close>; \<open>False\<close> stands for the jump to \<^verbatim>\<open>use_old_thread\<close>.\<close>

definition switch_vspace :: "nat \<Rightarrow> nat \<Rightarrow> sched \<Rightarrow> (bool \<times> sched) option" where
  "switch_vspace m t s = do {
     th \<leftarrow> sched_threads s t;
     if th_flags th AND THREAD_FLAG_USER = 0 then Some (True, s)
     else (case th_vs th of
         None \<Rightarrow> Some (False, s)
       | Some new_vs \<Rightarrow>
           if new_vs = root_vspace then Some (False, s)
           else if current_vspace s m = new_vs then Some (True, s)
           else do {
             vs \<leftarrow> vspaces s new_vs;
             case ref_get_not_zero (vs_refcount vs) of
               None \<Rightarrow> Some (False, s)
             | Some r \<Rightarrow> do {
                 mask \<leftarrow> vs_tlb_cpu_mask_set (tlb_cpu_mask vs) m;
                 let old_vs = current_vspace s m;
                 let s = s\<lparr>vspaces := (vspaces s)(new_vs \<mapsto> \<lparr>vs_refcount = r, tlb_cpu_mask = mask\<rparr>),
                           current_vspace := (current_vspace s)(m := new_vs)\<rparr>;
                 if old_vs = root_vspace then Some (True, s)
                 else do {
                   old \<leftarrow> vspaces s old_vs;
                   mask \<leftarrow> vs_tlb_cpu_mask_clear (tlb_cpu_mask old) m;
                   s \<leftarrow> put_vspace old_vs (s\<lparr>vspaces := (vspaces s)(old_vs \<mapsto> old\<lparr>tlb_cpu_mask := mask\<rparr>)\<rparr>);
                   Some (True, s)
                 }
               }
           })
   }"

definition schedule :: "nat \<Rightarrow> nat \<Rightarrow> sched \<Rightarrow> sched option" where
  "schedule fuel m s =
     (case managers s m of
        None \<Rightarrow> Some s
      | Some tm \<Rightarrow>
          (case current_thread tm of
             None \<Rightarrow> Some s
           | Some cur \<Rightarrow> do {
               s \<leftarrow> sched_set_status_with_expect cur thread_status_running thread_status_ready s;
               pick \<leftarrow> (if has_scheduler tm then round_robin_schedule fuel m s else Some (Some cur));
               case pick of
                 None \<Rightarrow> use_old_thread m cur s
               | Some t \<Rightarrow>
                   if t = cur then use_old_thread m cur s
                   else do {
                     (ok, s) \<leftarrow> switch_vspace m t (set_current m t s);
                     if \<not> ok then use_old_thread m cur s
                     else do {
                       c \<leftarrow> sched_threads s cur;
                       s \<leftarrow> (if th_flags c AND THREAD_FLAG_EXIT_REQUESTED \<noteq> 0 \<and> th_status c = thread_status_ready
                              then sched_set_status_with_expect cur thread_status_ready thread_status_zombie s else Some s);
                       sched_set_status t thread_status_running s
                     }
                   }
             }))"

section \<open>The walk of the ring\<close>

text \<open>The threads after \<open>c\<close> in the ring, up to \<open>c\<close> itself, and the first one that is ready.\<close>

definition rot :: "'a \<Rightarrow> 'a list \<Rightarrow> 'a list" where
  "rot c ts = tl (dropWhile (\<lambda>x. x \<noteq> c) ts) @ takeWhile (\<lambda>x. x \<noteq> c) ts @ [c]"

definition is_ready :: "sched \<Rightarrow> nat \<Rightarrow> bool" where
  "is_ready s t \<longleftrightarrow> (\<exists>th. sched_threads s t = Some th \<and> th_status th = thread_status_ready)"

definition next_ready :: "sched \<Rightarrow> nat \<Rightarrow> nat list \<Rightarrow> nat option" where
  "next_ready s c ts = find (is_ready s) (rot c ts)"

lemma rot_split: "c \<notin> set xs \<Longrightarrow> rot c (xs @ c # ys) = ys @ xs @ [c]"
  by (simp add: rot_def dropWhile_append takeWhile_append)

lemma set_rot: "c \<in> set ts \<Longrightarrow> set (rot c ts) = set ts"
  by (drule split_list_first) (auto simp: rot_split)

fun path :: "'a list_heap \<Rightarrow> 'a \<Rightarrow> 'a list \<Rightarrow> bool" where
  "path h n [] \<longleftrightarrow> True"
| "path h n (x # xs) \<longleftrightarrow> l_next h n = Some x \<and> path h x xs"

lemma chain_path: "chain h (n # xs) \<Longrightarrow> path h n xs"
  by (induction xs arbitrary: n) auto

lemma path_append: "path h n (xs @ ys) \<longleftrightarrow> path h n xs \<and> path h (last (n # xs)) ys"
  by (induction xs arbitrary: n) auto

lemma ring_path:
  assumes "ring h hn (xs @ c # ys)"
  shows "path h c (ys @ hn # xs @ [c])"
proof -
  have "path h hn (xs @ c # ys @ [hn])" using chain_path assms by (fastforce simp: ring_def)
  then have "path h hn (xs @ [c])" "path h c (ys @ [hn])" using path_append [of h hn "xs @ [c]" "ys @ [hn]"] by auto
  then show ?thesis using path_append [of h c "ys @ [hn]" "xs @ [c]"] by simp
qed

fun thread_of :: "sched_node \<Rightarrow> nat list" where
  "thread_of (TM_LIST m) = []"
| "thread_of (THREAD_LIST t) = [t]"

lemma rr_loop_path:
  assumes "path (links s) n ns" and "set ns \<subseteq> insert (TM_LIST m) (THREAD_LIST ` dom (sched_threads s))"
    and "find (is_ready s) (concat (map thread_of ns)) = Some u" and "length ns \<le> fuel"
  shows "rr_loop fuel s m (l_next (links s) n) = Some u"
  using assms
proof (induction ns arbitrary: n fuel)
  case (Cons x ns)
  obtain f where f: "fuel = Suc f" "length ns \<le> f" using Cons.prems(4) by (cases fuel) auto
  note IH = Cons.IH [of x f]
  show ?case
  proof (cases x)
    case (TM_LIST k)
    with Cons.prems IH f show ?thesis by auto
  next
    case (THREAD_LIST t)
    then obtain th where "sched_threads s t = Some th" using Cons.prems(2) by auto
    with THREAD_LIST Cons.prems IH f show ?thesis by (auto simp: is_ready_def split: if_splits)
  qed
qed simp

lemma rr_loop_Suc: "rr_loop f s m p = Some u \<Longrightarrow> rr_loop (Suc f) s m p = Some u"
proof (induction f arbitrary: p)
  case (Suc f)
  note prem = Suc.prems [unfolded rr_loop.simps(2) [of f]]
  show ?case
  proof (cases p)
    case (Some n)
    with prem Suc.IH show ?thesis
      unfolding rr_loop.simps(2) [of "Suc f"]
      by (cases n) (auto simp del: rr_loop.simps split: option.splits if_splits)
  qed (use prem in simp)
qed simp

lemma rr_loop_mono: "rr_loop f s m p = Some u \<Longrightarrow> f \<le> g \<Longrightarrow> rr_loop g s m p = Some u"
  by (induction g) (auto simp: le_Suc_eq rr_loop_Suc simp del: rr_loop.simps)

lemma rr_loop_none:
  assumes r: "ring (links s) (TM_LIST m) (map THREAD_LIST ts)" and "\<forall>t\<in>set ts. \<not> is_ready s t"
    and "n \<in> insert (TM_LIST m) (THREAD_LIST ` set ts)"
  shows "rr_loop fuel s m (Some n) = None"
  using assms(3)
proof (induction fuel arbitrary: n)
  case (Suc fuel)
  have "\<exists>q. l_next (links s) n = Some q \<and> q \<in> insert (TM_LIST m) (THREAD_LIST ` set ts)"
  proof (cases "n = TM_LIST m")
    case True
    then show ?thesis using ring_next [OF r] by (cases ts) auto
  next
    case False
    then show ?thesis using ring_neighbours [OF r, of n] Suc.prems by auto
  qed
  then obtain q where "l_next (links s) n = Some q" "rr_loop fuel s m (Some q) = None" using Suc.IH by blast
  with Suc.prems assms(2) show ?case by (auto simp: is_ready_def split: option.splits)
qed simp

lemma rr_loop_exact:
  assumes r: "ring (links s) (TM_LIST m) (map THREAD_LIST ts)" and c: "c \<in> set ts" and d: "set ts \<subseteq> dom (sched_threads s)"
  shows "rr_loop fuel s m (l_next (links s) (THREAD_LIST c)) = Some u \<Longrightarrow> next_ready s c ts = Some u"
    and "next_ready s c ts = Some u \<Longrightarrow> length ts < fuel \<Longrightarrow> rr_loop fuel s m (l_next (links s) (THREAD_LIST c)) = Some u"
proof -
  obtain xs ys where ts: "ts = xs @ c # ys" "c \<notin> set xs" using c by (meson split_list_first)
  let ?p = "map THREAD_LIST ys @ TM_LIST m # map THREAD_LIST xs @ [THREAD_LIST c]"
  have p: "path (links s) (THREAD_LIST c) ?p" using ring_path [of "links s" "TM_LIST m"] r ts by simp
  have sub: "set ?p \<subseteq> insert (TM_LIST m) (THREAD_LIST ` dom (sched_threads s))" using d ts by auto
  have cat: "concat (map thread_of ?p) = rot c ts"
  proof -
    have "concat (map (thread_of \<circ> THREAD_LIST) zs) = zs" for zs by (induction zs) auto
    then show ?thesis using ts rot_split [of c xs ys] by simp
  qed
  show down: "rr_loop fuel s m (l_next (links s) (THREAD_LIST c)) = Some u" if "next_ready s c ts = Some u" "length ts < fuel" for fuel u
    using rr_loop_path [OF p sub] that cat ts by (simp add: next_ready_def)
  assume l: "rr_loop fuel s m (l_next (links s) (THREAD_LIST c)) = Some u"
  show "next_ready s c ts = Some u"
  proof (cases "next_ready s c ts")
    case None
    then have "\<forall>t\<in>set ts. \<not> is_ready s t" using set_rot [OF c] by (simp add: next_ready_def find_None_iff)
    moreover obtain q where "l_next (links s) (THREAD_LIST c) = Some q" "q \<in> insert (TM_LIST m) (THREAD_LIST ` set ts)"
      using ring_neighbours [OF r, of "THREAD_LIST c"] c by auto
    ultimately show ?thesis using rr_loop_none [OF r] l by simp
  next
    case (Some w)
    with down [of w "fuel + length ts + 1"] rr_loop_mono [OF l, of "fuel + length ts + 1"] show ?thesis by simp
  qed
qed

end
