(* ===== verification/Sched_Spec.thy ===== *)
theory Sched_Spec
  imports Sched
begin

text \<open>
  The invariant of the scheduler and its properties.

  The invariant has three parts: the rings link exactly the threads that name their manager; only the
  current thread of a CPU is running; and the reference count of an address space is the number of
  threads that own it plus the number of CPUs that run on it plus the references held elsewhere, with
  the CPU bitmap naming exactly those CPUs. Every step keeps it, under any interleaving of the CPUs.
\<close>

section \<open>Address spaces\<close>

definition owners :: "nat \<Rightarrow> sched \<Rightarrow> nat set" where
  "owners v s = {t. \<exists>th. sched_threads s t = Some th \<and> th_vs th = Some v}"

definition cpus_on :: "nat \<Rightarrow> sched \<Rightarrow> nat set" where
  "cpus_on v s = {m. m < RENDEZVOS_MAX_CPU_NUMBER \<and> current_vspace s m = v}"

definition vs_ok :: "(nat \<Rightarrow> nat) \<Rightarrow> sched \<Rightarrow> nat \<Rightarrow> vspace \<Rightarrow> bool" where
  "vs_ok ext s v x \<longleftrightarrow>
     vs_refcount x = int (card (owners v s)) + int (ext v) + (if v = root_vspace then 1 else int (card (cpus_on v s))) \<and>
     0 < vs_refcount x \<and> length (tlb_cpu_mask x) = 2 \<and>
     (v \<noteq> root_vspace \<longrightarrow> (\<forall>m<RENDEZVOS_MAX_CPU_NUMBER. bitmap_test (tlb_cpu_mask x) m = Some (current_vspace s m = v)))"

definition vs_inv :: "(nat \<Rightarrow> nat) \<Rightarrow> sched \<Rightarrow> bool" where
  "vs_inv ext s \<longleftrightarrow>
     finite (dom (sched_threads s)) \<and> vspaces s root_vspace \<noteq> None \<and>
     (\<forall>v. owners v s \<noteq> {} \<or> 0 < ext v \<longrightarrow> vspaces s v \<noteq> None) \<and>
     (\<forall>m<RENDEZVOS_MAX_CPU_NUMBER. vspaces s (current_vspace s m) \<noteq> None) \<and>
     (\<forall>v x. vspaces s v = Some x \<longrightarrow> vs_ok ext s v x)"

lemma vs_invD:
  assumes "vs_inv ext s"
  shows "finite (dom (sched_threads s))" "vspaces s root_vspace \<noteq> None" "t \<in> owners v s \<Longrightarrow> vspaces s v \<noteq> None"
    "m < RENDEZVOS_MAX_CPU_NUMBER \<Longrightarrow> vspaces s (current_vspace s m) \<noteq> None" "vspaces s v = Some x \<Longrightarrow> vs_ok ext s v x"
    "0 < ext v \<Longrightarrow> vspaces s v \<noteq> None"
  using assms by (auto simp: vs_inv_def)

lemma finite_owners: "finite (dom (sched_threads s)) \<Longrightarrow> finite (owners v s)"
  by (rule finite_subset [rotated]) (auto simp: owners_def)

lemma finite_cpus: "finite (cpus_on v s)"
  by (simp add: cpus_on_def)

text \<open>Changes of the state that leave owners, CPUs and address spaces alone.\<close>

lemma vs_inv_cong:
  assumes "vs_inv ext s" "vspaces s' = vspaces s" "current_vspace s' = current_vspace s" "\<And>v. owners v s' = owners v s"
    "finite (dom (sched_threads s'))"
  shows "vs_inv ext s'"
proof -
  have "cpus_on v s' = cpus_on v s" for v using assms(3) by (simp add: cpus_on_def)
  then have "vs_ok ext s' = vs_ok ext s" using assms(3,4) by (simp add: vs_ok_def fun_eq_iff)
  with assms show ?thesis by (simp add: vs_inv_def)
qed

lemma put_vspace_ok:
  assumes inv: "vs_inv ext s" and v: "0 < ext v" "vspaces s v \<noteq> None"
  shows "\<exists>vm. put_vspace v s = Some (s\<lparr>vspaces := vm\<rparr>) \<and> vs_inv (ext(v := ext v - 1)) (s\<lparr>vspaces := vm\<rparr>) \<and>
     (\<forall>w. w \<noteq> v \<longrightarrow> vm w = vspaces s w)"
proof -
  note i = vs_invD [OF inv]
  obtain x where x: "vspaces s v = Some x" using v(2) by auto
  have ok: "vs_ok ext s v x" using i(5) [OF x] .
  have fin: "finite (owners v s)" "finite (cpus_on v s)" using finite_owners i(1) finite_cpus by auto
  define gone where "gone \<longleftrightarrow> vs_refcount x = 1 \<and> v \<noteq> root_vspace"
  have last: "owners v s = {} \<and> cpus_on v s = {} \<and> ext v = 1 \<and> bitmap_is_zero (tlb_cpu_mask x)" if gone
  proof -
    have "card (owners v s) = 0 \<and> card (cpus_on v s) = 0 \<and> ext v = 1"
      using ok that v(1) unfolding vs_ok_def gone_def by (auto split: if_splits)
    then have empty: "owners v s = {}" "cpus_on v s = {}" "ext v = 1" using fin by auto
    then have "\<forall>m<64 * length (tlb_cpu_mask x). bitmap_test (tlb_cpu_mask x) m = Some False"
      using ok that by (auto simp: vs_ok_def gone_def cpus_on_def RENDEZVOS_MAX_CPU_NUMBER_def)
    with empty show ?thesis by (simp add: bitmap_is_zero_test)
  qed
  have root: "1 < vs_refcount x" if "v = root_vspace" using ok that v(1) by (simp add: vs_ok_def)
  define vm where "vm = (vspaces s)(v := if gone then None else Some (x\<lparr>vs_refcount := vs_refcount x - 1\<rparr>))"
  have put: "put_vspace v s = Some (s\<lparr>vspaces := vm\<rparr>)"
    using x last root by (auto simp: put_vspace_def ref_put_def vm_def gone_def)
  let ?s = "s\<lparr>vspaces := vm\<rparr>" and ?e = "ext(v := ext v - 1)"
  have same: "owners w ?s = owners w s" "cpus_on w ?s = cpus_on w s" for w by (simp_all add: owners_def cpus_on_def)
  have "vs_ok ?e ?s w y" if "vm w = Some y" for w y
  proof (cases "w = v")
    case True
    then have y: "y = x\<lparr>vs_refcount := vs_refcount x - 1\<rparr>" "\<not> gone" using that by (auto simp: vm_def split: if_splits)
    have "0 < vs_refcount x" using ok by (simp add: vs_ok_def)
    then have "1 < vs_refcount x" using y(2) root by (cases "v = root_vspace") (auto simp: gone_def)
    then show ?thesis using ok v(1) True y(1) by (simp add: vs_ok_def same)
  next
    case False
    then have "vspaces s w = Some y" using that by (simp add: vm_def)
    from i(5) [OF this] False show ?thesis by (simp add: vs_ok_def same)
  qed
  moreover have "vm w \<noteq> None" if "w \<noteq> v \<or> \<not> gone" "vspaces s w \<noteq> None" for w using that by (auto simp: vm_def)
  moreover have "current_vspace s m \<noteq> v \<or> \<not> gone" if "m < RENDEZVOS_MAX_CPU_NUMBER" for m
    using last that by (auto simp: cpus_on_def)
  moreover have "root_vspace \<noteq> v \<or> \<not> gone" by (auto simp: gone_def)
  moreover have "vspaces s w \<noteq> None \<and> (w \<noteq> v \<or> \<not> gone)" if "owners w s \<noteq> {} \<or> 0 < ?e w" for w
    using last that i(3) [of _ w] i(6) [of w] v by (cases "w = v") auto
  ultimately have "vs_inv ?e ?s" using i(1,2,4) unfolding vs_inv_def same by auto
  moreover have "vm w = vspaces s w" if "w \<noteq> v" for w using that by (simp add: vm_def)
  ultimately show ?thesis using put by blast
qed

lemma get_vspace_ok:
  assumes inv: "vs_inv ext s" and x: "vspaces s v = Some x"
  shows "vs_inv (ext(v := ext v + 1)) (s\<lparr>vspaces := (vspaces s)(v \<mapsto> x\<lparr>vs_refcount := vs_refcount x + 1\<rparr>)\<rparr>)"
proof -
  let ?s = "s\<lparr>vspaces := (vspaces s)(v \<mapsto> x\<lparr>vs_refcount := vs_refcount x + 1\<rparr>)\<rparr>"
  have same: "owners w ?s = owners w s" "cpus_on w ?s = cpus_on w s" for w by (simp_all add: owners_def cpus_on_def)
  have "vs_ok (ext(v := ext v + 1)) ?s w y" if "vspaces ?s w = Some y" for w y
    using that vs_invD(5) [OF inv, of w] x by (auto simp: vs_ok_def same split: if_splits)
  then show ?thesis using inv by (auto simp: vs_inv_def same)
qed

text \<open>A CPU moves to another address space: one reference of the new one becomes the CPU's, and the CPU's
  reference to the old one is free.\<close>

lemma vs_move:
  assumes inv: "vs_inv ext s" and m: "m < RENDEZVOS_MAX_CPU_NUMBER" and v: "v \<noteq> root_vspace" "v \<noteq> current_vspace s m" "0 < ext v"
    and thr: "sched_threads s' = sched_threads s" and cur: "current_vspace s' = (current_vspace s)(m := v)"
    and vs: "vspaces s v = Some x" "bitmap_set (tlb_cpu_mask x) m = Some b" "vspaces s' v = Some (x\<lparr>tlb_cpu_mask := b\<rparr>)"
    and old: "current_vspace s m = root_vspace \<longrightarrow> vspaces s' root_vspace = vspaces s root_vspace"
      "current_vspace s m \<noteq> root_vspace \<longrightarrow> vspaces s (current_vspace s m) = Some y \<and> bitmap_clear (tlb_cpu_mask y) m = Some d \<and>
         vspaces s' (current_vspace s m) = Some (y\<lparr>tlb_cpu_mask := d\<rparr>)"
    and other: "\<And>w. w \<noteq> v \<Longrightarrow> w \<noteq> current_vspace s m \<Longrightarrow> vspaces s' w = vspaces s w"
  shows "vs_inv (if current_vspace s m = root_vspace then ext(v := ext v - 1)
     else ext(v := ext v - 1, current_vspace s m := ext (current_vspace s m) + 1)) s'" (is "vs_inv ?e s'")
proof -
  note i = vs_invD [OF inv]
  let ?o = "current_vspace s m"
  have own: "owners w s' = owners w s" for w by (simp add: owners_def thr)
  have cpu: "cpus_on w s' = (if w = v then insert m (cpus_on v s) else if w = ?o then cpus_on w s - {m} else cpus_on w s)" for w
    using m v(2) by (auto simp: cpus_on_def cur)
  have mv: "m \<notin> cpus_on v s" "m \<in> cpus_on ?o s" using v(2) m by (auto simp: cpus_on_def)
  have len: "length b = 2" "?o \<noteq> root_vspace \<Longrightarrow> length d = 2"
    using vs(2) old(2) i(5) [OF vs(1)] i(5) [of ?o y] by (auto simp: bitmap_set_def bitmap_clear_def vs_ok_def split: if_splits)
  have "vs_ok ?e s' w z" if z: "vspaces s' w = Some z" for w z
  proof -
    consider "w = v" | "w = ?o" "w \<noteq> v" "w \<noteq> root_vspace" | "w \<noteq> v" "w \<noteq> ?o \<or> w = root_vspace" by blast
    then show ?thesis
    proof cases
      case 1
      have "z = x\<lparr>tlb_cpu_mask := b\<rparr>" using z 1 vs(3) by simp
      then show ?thesis using i(5) [OF vs(1)] 1 v mv finite_cpus [of v s] len(1)
        by (auto simp: vs_ok_def own cpu cur bitmap_test_set [OF vs(2)])
    next
      case 2
      then have o: "vspaces s ?o = Some y" "bitmap_clear (tlb_cpu_mask y) m = Some d" "z = y\<lparr>tlb_cpu_mask := d\<rparr>"
        using z old(2) by auto
      have "0 < card (cpus_on ?o s)" using mv(2) finite_cpus by (auto simp: card_gt_0_iff)
      then show ?thesis using i(5) [OF o(1)] 2 o(3) mv(2) finite_cpus [of ?o s] len(2) v(2)
        by (auto simp: vs_ok_def own cpu cur bitmap_test_clear [OF o(2)] of_nat_diff)
    next
      case 3
      then have "vspaces s w = Some z" using z other old(1) by (cases "w = ?o") auto
      from i(5) [OF this] 3 v show ?thesis by (auto simp: vs_ok_def own cpu cur)
    qed
  qed
  moreover have "vspaces s' w \<noteq> None" if "vspaces s w \<noteq> None" for w
    using that vs old other [of w] by (cases "w = v"; cases "w = ?o"; cases "?o = root_vspace") auto
  moreover have "vspaces s w \<noteq> None" if "owners w s \<noteq> {} \<or> 0 < ?e w" for w
    using that i(3) [of _ w] i(6) [of w] i(4) [OF m] vs(1) by (cases "w = v"; cases "w = ?o") (auto split: if_splits)
  ultimately show ?thesis using i(1,2,4) vs(3) unfolding vs_inv_def own thr by (simp add: cur)
qed


section \<open>Rings and current threads\<close>

definition links_inv :: "(nat \<Rightarrow> nat list) \<Rightarrow> sched \<Rightarrow> bool" where
  "links_inv rq s \<longleftrightarrow>
     (\<forall>m. managers s m \<noteq> None \<longrightarrow> ring (links s) (TM_LIST m) (map THREAD_LIST (rq m))) \<and>
     (\<forall>m. managers s m = None \<longrightarrow> rq m = []) \<and>
     (\<forall>m t. t \<in> set (rq m) \<longleftrightarrow> (\<exists>th. sched_threads s t = Some th \<and> th_tm th = Some m)) \<and>
     (\<forall>t. (\<exists>th. sched_threads s t = Some th \<and> th_tm th = None) \<longrightarrow> list_node_is_detached (Some (THREAD_LIST t)) (links s))"

definition run_inv :: "sched \<Rightarrow> bool" where
  "run_inv s \<longleftrightarrow>
     (\<forall>m tm. managers s m = Some tm \<longrightarrow> m < RENDEZVOS_MAX_CPU_NUMBER \<and> has_scheduler tm \<and>
        (\<forall>c. current_thread tm = Some c \<longrightarrow> (\<exists>th. sched_threads s c = Some th \<and> th_tm th = Some m))) \<and>
     (\<forall>t th. sched_threads s t = Some th \<longrightarrow>
        (th_status th = thread_status_running \<longrightarrow>
           (\<exists>m tm. th_tm th = Some m \<and> managers s m = Some tm \<and> current_thread tm = Some t)) \<and>
        (th_flags th AND THREAD_FLAG_USER \<noteq> 0 \<longrightarrow> (\<exists>v. th_vs th = Some v \<and> v \<noteq> root_vspace)))"

definition sched_inv :: "(nat \<Rightarrow> nat) \<Rightarrow> (nat \<Rightarrow> nat list) \<Rightarrow> sched \<Rightarrow> bool" where
  "sched_inv ext rq s \<longleftrightarrow> links_inv rq s \<and> run_inv s \<and> vs_inv ext s"

lemma links_invD:
  assumes "links_inv rq s"
  shows "managers s m \<noteq> None \<Longrightarrow> ring (links s) (TM_LIST m) (map THREAD_LIST (rq m))" "managers s m = None \<Longrightarrow> rq m = []"
    "t \<in> set (rq m) \<longleftrightarrow> (\<exists>th. sched_threads s t = Some th \<and> th_tm th = Some m)"
    "sched_threads s t = Some th \<Longrightarrow> th_tm th = None \<Longrightarrow> list_node_is_detached (Some (THREAD_LIST t)) (links s)"
  using assms by (auto simp: links_inv_def)

lemma run_invD:
  assumes "run_inv s"
  shows "managers s m = Some tm \<Longrightarrow> m < RENDEZVOS_MAX_CPU_NUMBER" "managers s m = Some tm \<Longrightarrow> has_scheduler tm"
    "managers s m = Some tm \<Longrightarrow> current_thread tm = Some c \<Longrightarrow> \<exists>th. sched_threads s c = Some th \<and> th_tm th = Some m"
    "sched_threads s t = Some th \<Longrightarrow> th_status th = thread_status_running \<Longrightarrow>
       \<exists>m tm. th_tm th = Some m \<and> managers s m = Some tm \<and> current_thread tm = Some t"
    "sched_threads s t = Some th \<Longrightarrow> th_flags th AND THREAD_FLAG_USER \<noteq> 0 \<Longrightarrow> \<exists>v. th_vs th = Some v \<and> v \<noteq> root_vspace"
  using assms unfolding run_inv_def by blast+

lemma change_thread_links:
  assumes "change_thread t f s = Some s'" and "\<And>th. th_tm (f th) = th_tm th"
  shows "links_inv rq s' = links_inv rq s"
proof -
  obtain th where th: "sched_threads s t = Some th" and s': "s' = s\<lparr>sched_threads := (sched_threads s)(t \<mapsto> f th)\<rparr>"
    using assms(1) by (auto simp: change_thread_def split: option.splits bind_splits)
  have "(\<exists>th. sched_threads s' u = Some th \<and> th_tm th = k) \<longleftrightarrow> (\<exists>th. sched_threads s u = Some th \<and> th_tm th = k)" for u k
    using th s' assms(2) by auto
  moreover have "links s' = links s" "managers s' = managers s" using s' by simp_all
  ultimately show ?thesis by (simp only: links_inv_def)
qed

lemma change_thread_vs:
  assumes "change_thread t f s = Some s'" and "\<And>th. th_vs (f th) = th_vs th" and "vs_inv ext s"
  shows "vs_inv ext s'"
proof -
  obtain th where th: "sched_threads s t = Some th" and s': "s' = s\<lparr>sched_threads := (sched_threads s)(t \<mapsto> f th)\<rparr>"
    using assms(1) by (auto simp: change_thread_def split: option.splits bind_splits)
  show ?thesis
  proof (rule vs_inv_cong [OF assms(3)])
    show "finite (dom (sched_threads s'))" using vs_invD(1) [OF assms(3)] s' by simp
    show "owners v s' = owners v s" for v using th s' assms(2) by (auto simp: owners_def)
  qed (simp_all add: s')
qed

section \<open>Switching the address space\<close>

lemma bitmap_set_some: "i div 64 < length b \<Longrightarrow> \<exists>b'. bitmap_set b i = Some b'"
  by (simp add: bitmap_set_def)

lemma bitmap_clear_some: "i div 64 < length b \<Longrightarrow> \<exists>b'. bitmap_clear b i = Some b'"
  by (simp add: bitmap_clear_def)

lemma switch_vspace_ok:
  assumes vi: "vs_inv ext s" and m: "m < RENDEZVOS_MAX_CPU_NUMBER" and th: "sched_threads s t = Some th"
    and user: "th_flags th AND THREAD_FLAG_USER \<noteq> 0 \<longrightarrow> (\<exists>v. th_vs th = Some v \<and> v \<noteq> root_vspace)"
  shows "\<exists>vm cv. switch_vspace m t s = Some (True, s\<lparr>vspaces := vm, current_vspace := cv\<rparr>) \<and>
     vs_inv ext (s\<lparr>vspaces := vm, current_vspace := cv\<rparr>) \<and>
     (th_flags th AND THREAD_FLAG_USER \<noteq> 0 \<longrightarrow> Some (cv m) = th_vs th)"
proof (cases "th_flags th AND THREAD_FLAG_USER = 0 \<or> th_vs th = Some (current_vspace s m)")
  case True
  have "s\<lparr>vspaces := vspaces s, current_vspace := current_vspace s\<rparr> = s" by simp
  moreover have "switch_vspace m t s = Some (True, s)" using True th user by (auto simp: switch_vspace_def)
  ultimately show ?thesis using vi True by (metis option.inject)
next
  case False
  then obtain v where v: "th_vs th = Some v" "v \<noteq> root_vspace" "v \<noteq> current_vspace s m" using user by auto
  let ?o = "current_vspace s m"
  have m2: "m div 64 < 2" using m by (simp add: RENDEZVOS_MAX_CPU_NUMBER_def)
  have "t \<in> owners v s" using th v(1) by (auto simp: owners_def)
  then obtain x where x: "vspaces s v = Some x" using vs_invD(3) [OF vi] by blast
  have xk: "0 < vs_refcount x" "length (tlb_cpu_mask x) = 2" using vs_invD(5) [OF vi x] by (auto simp: vs_ok_def)
  obtain b where b: "bitmap_set (tlb_cpu_mask x) m = Some b" using bitmap_set_some m2 xk(2) by metis
  let ?x = "\<lparr>vs_refcount = vs_refcount x + 1, tlb_cpu_mask = b\<rparr>"
  define cv where "cv = (current_vspace s)(m := v)"
  define e1 where "e1 = ext(v := ext v + 1)"
  define s1 where "s1 = s\<lparr>vspaces := (vspaces s)(v \<mapsto> x\<lparr>vs_refcount := vs_refcount x + 1\<rparr>)\<rparr>"
  have v1: "vs_inv e1 s1" unfolding s1_def e1_def by (rule get_vspace_ok [OF vi x])
  have s1: "sched_threads s1 = sched_threads s" "current_vspace s1 = current_vspace s"
    "vspaces s1 v = Some (x\<lparr>vs_refcount := vs_refcount x + 1\<rparr>)" "\<And>w. w \<noteq> v \<Longrightarrow> vspaces s1 w = vspaces s w"
    by (simp_all add: s1_def)
  have head: "switch_vspace m t s = (let s' = s\<lparr>vspaces := (vspaces s)(v \<mapsto> ?x), current_vspace := cv\<rparr> in
      if ?o = root_vspace then Some (True, s')
      else do {
        old \<leftarrow> vspaces s' ?o;
        mask \<leftarrow> vs_tlb_cpu_mask_clear (tlb_cpu_mask old) m;
        s \<leftarrow> put_vspace ?o (s'\<lparr>vspaces := (vspaces s')(?o \<mapsto> old\<lparr>tlb_cpu_mask := mask\<rparr>)\<rparr>);
        Some (True, s)
      })"
    using th False v x xk(1) b m by (simp add: switch_vspace_def vs_tlb_cpu_mask_set_def ref_get_not_zero_def cv_def Let_def)
  show ?thesis
  proof (cases "?o = root_vspace")
    case True
    let ?s = "s\<lparr>vspaces := (vspaces s)(v \<mapsto> ?x), current_vspace := cv\<rparr>"
    have "vs_inv (if current_vspace s1 m = root_vspace then e1(v := e1 v - 1)
        else e1(v := e1 v - 1, current_vspace s1 m := e1 (current_vspace s1 m) + 1)) ?s"
      by (rule vs_move [OF v1 m _ _ _ _ _ s1(3)]) (use v b s1 True x in \<open>auto simp: e1_def cv_def\<close>)
    moreover have "e1(v := e1 v - 1) = ext" by (simp add: e1_def)
    ultimately have "vs_inv ext ?s" using True s1(2) by simp
    moreover have "switch_vspace m t s = Some (True, ?s)" using head True by (simp add: Let_def)
    moreover have "Some (cv m) = th_vs th" using v(1) by (simp add: cv_def)
    ultimately show ?thesis by blast
  next
    case False
    obtain y where y: "vspaces s ?o = Some y" using vs_invD(4) [OF vi m] by auto
    have "length (tlb_cpu_mask y) = 2" using vs_invD(5) [OF vi y] by (simp add: vs_ok_def)
    then obtain d where d: "bitmap_clear (tlb_cpu_mask y) m = Some d" using bitmap_clear_some m2 by metis
    define vm where "vm = (vspaces s)(v \<mapsto> ?x, ?o \<mapsto> y\<lparr>tlb_cpu_mask := d\<rparr>)"
    let ?s = "s\<lparr>current_vspace := cv, vspaces := vm\<rparr>"
    let ?e = "ext(?o := ext ?o + 1)"
    have "vs_inv (if current_vspace s1 m = root_vspace then e1(v := e1 v - 1)
        else e1(v := e1 v - 1, current_vspace s1 m := e1 (current_vspace s1 m) + 1)) ?s"
      by (rule vs_move [OF v1 m _ _ _ _ _ s1(3)]) (use v b s1 False y d in \<open>auto simp: e1_def cv_def vm_def\<close>)
    moreover have "e1(v := e1 v - 1, ?o := e1 ?o + 1) = ?e" using v(3) by (auto simp: e1_def)
    ultimately have "vs_inv ?e ?s" using False s1(2) by simp
    moreover have "vspaces ?s ?o \<noteq> None" by (simp add: vm_def)
    ultimately obtain vm' where put: "put_vspace ?o ?s = Some (?s\<lparr>vspaces := vm'\<rparr>)"
        "vs_inv (?e(?o := ?e ?o - 1)) (?s\<lparr>vspaces := vm'\<rparr>)"
      using put_vspace_ok [of ?e ?s ?o] by auto
    moreover have "?e(?o := ?e ?o - 1) = ext" by simp
    moreover have "switch_vspace m t s = Some (True, ?s\<lparr>vspaces := vm'\<rparr>)"
      using head False v(3) y d m put(1) by (simp add: vs_tlb_cpu_mask_clear_def vm_def Let_def)
    moreover have "Some (cv m) = th_vs th" using v(1) by (simp add: cv_def)
    moreover have "?s\<lparr>vspaces := vm'\<rparr> = s\<lparr>vspaces := vm', current_vspace := cv\<rparr>" by simp
    ultimately show ?thesis by metis
  qed
qed


section \<open>One call of the scheduler\<close>

text \<open>The current thread of a CPU becomes \<open>u\<close>, in place of \<open>c\<close>.\<close>

lemma install_current:
  assumes inv: "links_inv rq s" "run_inv s" and tm: "managers s m = Some tm" and c: "current_thread tm = Some c"
    and thc: "sched_threads s c = Some thc" and u: "u \<in> set (rq m)" "sched_threads s u = Some thu"
    and thr: "sched_threads s' = (sched_threads s)(c \<mapsto> thc\<lparr>th_status := st\<rparr>, u \<mapsto> thu\<lparr>th_status := thread_status_running\<rparr>)"
    and st: "u \<noteq> c \<Longrightarrow> st \<noteq> thread_status_running"
    and mg: "managers s' = (managers s)(m \<mapsto> tm\<lparr>current_thread := Some u\<rparr>)" and ln: "links s' = links s"
  shows "links_inv rq s' \<and> run_inv s'"
proof
  have keep: "(\<exists>th. sched_threads s' t = Some th \<and> th_tm th = k) \<longleftrightarrow> (\<exists>th. sched_threads s t = Some th \<and> th_tm th = k)" for t k
    using thr thc u(2) by auto
  have "managers s' k = None \<longleftrightarrow> managers s k = None" for k using mg tm by simp
  then show "links_inv rq s'" using inv(1) unfolding links_inv_def keep ln by simp
  have utm: "th_tm thu = Some m" using u links_invD(3) [OF inv(1)] by auto
  show "run_inv s'"
    unfolding run_inv_def
  proof (intro conjI allI impI)
    fix k tk assume k: "managers s' k = Some tk"
    show "k < RENDEZVOS_MAX_CPU_NUMBER" "has_scheduler tk" using k mg tm run_invD(1,2) [OF inv(2)] by (auto split: if_splits)
    fix d assume d: "current_thread tk = Some d"
    show "\<exists>th. sched_threads s' d = Some th \<and> th_tm th = Some k"
      using k d mg utm u(2) run_invD(3) [OF inv(2), of k tk d] unfolding keep by (cases "k = m") auto
  next
    fix t th assume t: "sched_threads s' t = Some th" and r: "th_status th = thread_status_running"
    show "\<exists>k tk. th_tm th = Some k \<and> managers s' k = Some tk \<and> current_thread tk = Some t"
    proof (cases "t = u")
      case True
      then show ?thesis using t thr utm mg by auto
    next
      case False
      then have "t \<noteq> c" using t thr r st by (cases "u = c") auto
      then have "sched_threads s t = Some th" using t thr False by simp
      from run_invD(4) [OF inv(2) this r] tm c \<open>t \<noteq> c\<close> mg show ?thesis
        by (metis fun_upd_other option.inject)
    qed
  next
    fix t th assume t: "sched_threads s' t = Some th" and f: "th_flags th AND THREAD_FLAG_USER \<noteq> 0"
    show "\<exists>v. th_vs th = Some v \<and> v \<noteq> root_vspace"
      using t f thr thc u(2) run_invD(5) [OF inv(2)] by (auto split: if_splits)
  qed
qed

lemma next_ready_ring: "next_ready s c ts = Some u \<Longrightarrow> c \<in> set ts \<Longrightarrow> u \<in> set ts \<and> is_ready s u"
  unfolding next_ready_def using set_rot [of c ts] by (auto simp: find_Some_iff)

lemma schedule_spec:
  assumes inv: "sched_inv ext rq s" and tm: "managers s m = Some tm" and c: "current_thread tm = Some c"
    and s1: "sched_set_status_with_expect c thread_status_running thread_status_ready s = Some s1"
    and n: "next_ready s1 c (rq m) = Some u" and fuel: "length (rq m) < fuel"
  shows "\<exists>s' th. schedule fuel m s = Some s' \<and> sched_inv ext rq s' \<and> links s' = links s \<and>
     managers s' = (managers s)(m \<mapsto> tm\<lparr>current_thread := Some u\<rparr>) \<and>
     sched_threads s' u = Some th \<and> th_status th = thread_status_running \<and>
     (th_flags th AND THREAD_FLAG_USER \<noteq> 0 \<and> u \<noteq> c \<longrightarrow> th_vs th = Some (current_vspace s' m)) \<and>
     (\<forall>t. t \<noteq> c \<longrightarrow> t \<noteq> u \<longrightarrow> sched_threads s' t = sched_threads s t)"
proof -
  have li: "links_inv rq s" and ri: "run_inv s" and vi: "vs_inv ext s" using inv by (auto simp: sched_inv_def)
  obtain thc where thc: "sched_threads s c = Some thc" "th_tm thc = Some m" using run_invD(3) [OF ri tm c] by blast
  define st where "st = (if th_status thc = thread_status_running then thread_status_ready else th_status thc)"
  have st: "st \<noteq> thread_status_running" by (simp add: st_def)
  have s1_eq: "s1 = s\<lparr>sched_threads := (sched_threads s)(c \<mapsto> thc\<lparr>th_status := st\<rparr>)\<rparr>"
    using s1 thc(1) by (auto simp: sched_set_status_with_expect_def change_thread_def st_def)
  have cm: "c \<in> set (rq m)" using thc links_invD(3) [OF li] by blast
  have um: "u \<in> set (rq m)" "is_ready s1 u" using next_ready_ring [OF n cm] by auto
  have dom: "set (rq m) \<subseteq> dom (sched_threads s1)" using links_invD(3) [OF li] by (auto simp: s1_eq)
  have r1: "ring (links s1) (TM_LIST m) (map THREAD_LIST (rq m))" using links_invD(1) [OF li] tm by (simp add: s1_eq)
  have pick: "round_robin_schedule fuel m s1 = Some (Some u)"
    using rr_loop_exact(2) [OF r1 cm dom n fuel] tm c by (simp add: round_robin_schedule_def s1_eq)
  have v1: "vs_inv ext s1" using change_thread_vs [OF s1 [unfolded sched_set_status_with_expect_def] _ vi] by simp
  have hs: "has_scheduler tm" using run_invD(2) [OF ri tm] .
  obtain thu where thu: "sched_threads s u = Some thu" using um(1) links_invD(3) [OF li] by blast
  show ?thesis
  proof (cases "u = c")
    case True
    define s' where "s' = (set_current m c s1)\<lparr>sched_threads := (sched_threads s)(c \<mapsto> thc\<lparr>th_status := thread_status_running\<rparr>)\<rparr>"
    have "st = thread_status_ready" using um(2) True by (simp add: is_ready_def s1_eq)
    then have old: "use_old_thread m c s1 = Some s'"
      by (simp add: use_old_thread_def sched_set_status_with_expect_def change_thread_def set_current_def s'_def s1_eq)
    have res: "schedule fuel m s = Some s'" using tm c s1 pick hs True old by (simp add: schedule_def)
    have mg: "managers s' = (managers s)(m \<mapsto> tm\<lparr>current_thread := Some u\<rparr>)"
      using tm True by (simp add: s'_def set_current_def s1_eq)
    have "links_inv rq s' \<and> run_inv s'"
      by (rule install_current [OF li ri tm c thc(1) um(1) thu _ _ mg])
         (use True thc(1) thu in \<open>auto simp: s'_def set_current_def s1_eq\<close>)
    moreover have "vs_inv ext s'"
      by (rule vs_inv_cong [OF vi]) (use thc(1) vs_invD(1) [OF vi] in \<open>auto simp: s'_def set_current_def s1_eq owners_def\<close>)
    ultimately have "sched_inv ext rq s'" by (simp add: sched_inv_def)
    with res mg True show ?thesis by (auto simp: s'_def set_current_def s1_eq)
  next
    case False
    let ?s2 = "set_current m u s1"
    have thu2: "sched_threads ?s2 u = Some thu" using thu False by (simp add: set_current_def s1_eq)
    have v2: "vs_inv ext ?s2" by (rule vs_inv_cong [OF v1]) (use vs_invD(1) [OF v1] in \<open>auto simp: set_current_def owners_def\<close>)
    obtain vm cv where sw: "switch_vspace m u ?s2 = Some (True, ?s2\<lparr>vspaces := vm, current_vspace := cv\<rparr>)"
        "vs_inv ext (?s2\<lparr>vspaces := vm, current_vspace := cv\<rparr>)"
        "th_flags thu AND THREAD_FLAG_USER \<noteq> 0 \<longrightarrow> Some (cv m) = th_vs thu"
      using switch_vspace_ok [OF v2 run_invD(1) [OF ri tm] thu2] run_invD(5) [OF ri thu] by blast
    let ?s3 = "?s2\<lparr>vspaces := vm, current_vspace := cv\<rparr>"
    define st' where "st' = (if th_flags thc AND THREAD_FLAG_EXIT_REQUESTED \<noteq> 0 \<and> st = thread_status_ready then thread_status_zombie else st)"
    have st': "st' \<noteq> thread_status_running" using st by (simp add: st'_def)
    define s' where "s' = ?s3\<lparr>sched_threads := (sched_threads s)(c \<mapsto> thc\<lparr>th_status := st'\<rparr>, u \<mapsto> thu\<lparr>th_status := thread_status_running\<rparr>)\<rparr>"
    have res: "schedule fuel m s = Some s'"
      using tm c s1 pick hs False sw(1) thu
      by (simp add: schedule_def sched_set_status_with_expect_def sched_set_status_def change_thread_def set_current_def s1_eq s'_def st'_def
          fun_upd_twist [of u c])
    have mg: "managers s' = (managers s)(m \<mapsto> tm\<lparr>current_thread := Some u\<rparr>)"
      using tm by (simp add: s'_def set_current_def s1_eq)
    have "links_inv rq s' \<and> run_inv s'"
      by (rule install_current [OF li ri tm c thc(1) um(1) thu _ st' mg]) (simp_all add: s'_def set_current_def s1_eq)
    moreover have "vs_inv ext s'"
      by (rule vs_inv_cong [OF sw(2)])
         (use thc(1) thu False vs_invD(1) [OF vi] in \<open>auto simp: s'_def set_current_def s1_eq owners_def\<close>)
    ultimately have "sched_inv ext rq s'" by (simp add: sched_inv_def)
    with res mg sw(3) show ?thesis by (auto simp: s'_def set_current_def s1_eq)
  qed
qed


text \<open>More fuel gives the same result.\<close>

lemma schedule_fuel:
  assumes inv: "sched_inv ext rq s" and tm: "managers s m = Some tm" and c: "current_thread tm = Some c"
    and s': "schedule fuel m s = Some s'"
  shows "fuel \<le> fuel' \<Longrightarrow> schedule fuel' m s = Some s'"
proof -
  assume le: "fuel \<le> fuel'"
  obtain thc where thc: "sched_threads s c = Some thc" using run_invD(3) [OF _ tm c] inv by (auto simp: sched_inv_def)
  obtain s1 where s1: "sched_set_status_with_expect c thread_status_running thread_status_ready s = Some s1"
    "managers s1 = managers s"
    using thc by (simp add: sched_set_status_with_expect_def change_thread_def)
  have hs: "has_scheduler tm" using run_invD(2) [OF _ tm] inv by (auto simp: sched_inv_def)
  have pick: "round_robin_schedule f m s1 = map_option Some (rr_loop f s1 m (l_next (links s1) (THREAD_LIST c)))" for f
    using tm c s1(2) by (simp add: round_robin_schedule_def)
  obtain u where u: "rr_loop fuel s1 m (l_next (links s1) (THREAD_LIST c)) = Some u"
  proof (cases "rr_loop fuel s1 m (l_next (links s1) (THREAD_LIST c))")
    case None
    then show ?thesis using s' tm c s1 hs pick by (simp add: schedule_def)
  qed
  have "round_robin_schedule fuel' m s1 = round_robin_schedule fuel m s1"
    using u rr_loop_mono [OF u le] by (simp add: pick)
  then show ?thesis using s' tm c s1 hs by (simp add: schedule_def)
qed

text \<open>When a call returns, it had found a ready thread.\<close>

lemma schedule_someD:
  assumes inv: "sched_inv ext rq s" and tm: "managers s m = Some tm" and c: "current_thread tm = Some c"
    and s': "schedule fuel m s = Some s'"
  shows "\<exists>s1 u. sched_set_status_with_expect c thread_status_running thread_status_ready s = Some s1 \<and>
     next_ready s1 c (rq m) = Some u \<and> schedule (fuel + length (rq m) + 1) m s = Some s'"
proof -
  have li: "links_inv rq s" and ri: "run_inv s" using inv by (auto simp: sched_inv_def)
  obtain thc where thc: "sched_threads s c = Some thc" "th_tm thc = Some m" using run_invD(3) [OF ri tm c] by blast
  obtain s1 where s1: "sched_set_status_with_expect c thread_status_running thread_status_ready s = Some s1"
    using thc(1) by (simp add: sched_set_status_with_expect_def change_thread_def)
  then obtain th where s1_eq: "s1 = s\<lparr>sched_threads := (sched_threads s)(c \<mapsto> th)\<rparr>"
    using thc(1) by (auto simp: sched_set_status_with_expect_def change_thread_def)
  have hs: "has_scheduler tm" using run_invD(2) [OF ri tm] .
  obtain u where u: "rr_loop fuel s1 m (l_next (links s1) (THREAD_LIST c)) = Some u"
  proof (cases "rr_loop fuel s1 m (l_next (links s1) (THREAD_LIST c))")
    case None
    then show ?thesis using s' tm c s1 hs by (simp add: schedule_def round_robin_schedule_def s1_eq)
  qed
  have cm: "c \<in> set (rq m)" using thc links_invD(3) [OF li] by blast
  have dom: "set (rq m) \<subseteq> dom (sched_threads s1)" using links_invD(3) [OF li] by (auto simp: s1_eq)
  have r1: "ring (links s1) (TM_LIST m) (map THREAD_LIST (rq m))" using links_invD(1) [OF li] tm by (simp add: s1_eq)
  have "next_ready s1 c (rq m) = Some u" using rr_loop_exact(1) [OF r1 cm dom u] .
  moreover have "schedule (fuel + length (rq m) + 1) m s = Some s'" using schedule_fuel [OF inv tm c s'] by simp
  ultimately show ?thesis using s1 by blast
qed

lemma schedule_inv:
  assumes "sched_inv ext rq s" and "schedule fuel m s = Some s'"
  shows "sched_inv ext rq s'"
proof (cases "\<exists>tm c. managers s m = Some tm \<and> current_thread tm = Some c")
  case True
  then obtain tm c where tm: "managers s m = Some tm" "current_thread tm = Some c" by blast
  obtain s1 u where s1: "sched_set_status_with_expect c thread_status_running thread_status_ready s = Some s1"
      and u: "next_ready s1 c (rq m) = Some u" and s': "schedule (fuel + length (rq m) + 1) m s = Some s'"
    using schedule_someD [OF assms(1) tm assms(2)] by blast
  have "length (rq m) < fuel + length (rq m) + 1" by simp
  from schedule_spec [OF assms(1) tm s1 u this] s' show ?thesis by auto
next
  case False
  then show ?thesis using assms by (auto simp: schedule_def split: option.splits)
qed

text \<open>
  When the thread picked is a user thread without an address space of its own, \<^verbatim>\<open>schedule\<close> leaves the state as it
  was: the next call finds the same thread again, and the threads behind it in the ring get no turn.
\<close>

lemma schedule_refused_repeats:
  assumes tm: "managers s m = Some tm" "current_thread tm = Some c" "has_scheduler tm"
    and c: "sched_threads s c = Some thc" "th_status thc = thread_status_running"
    and s1: "sched_set_status_with_expect c thread_status_running thread_status_ready s = Some s1"
    and u: "round_robin_schedule fuel m s1 = Some (Some u)" "u \<noteq> c" "sched_threads s u = Some th"
      "th_flags th AND THREAD_FLAG_USER \<noteq> 0" "th_vs th = None \<or> th_vs th = Some root_vspace"
  shows "schedule fuel m s = Some s"
proof -
  have s1_eq: "s1 = s\<lparr>sched_threads := (sched_threads s)(c \<mapsto> thc\<lparr>th_status := thread_status_ready\<rparr>)\<rparr>"
    using s1 c by (simp add: sched_set_status_with_expect_def change_thread_def)
  have undo: "(managers s)(m \<mapsto> tm\<lparr>current_thread := Some c\<rparr>) = managers s" "thc\<lparr>th_status := thread_status_running\<rparr> = thc"
    "(sched_threads s)(c \<mapsto> thc) = sched_threads s"
    using tm(1,2) c by (auto simp: fun_eq_iff)
  have "switch_vspace m u (set_current m u s1) = Some (False, set_current m u s1)"
    using u(2-5) by (auto simp: switch_vspace_def set_current_def s1_eq)
  moreover have "use_old_thread m c (set_current m u s1) = Some s"
    using tm undo by (simp add: use_old_thread_def set_current_def sched_set_status_with_expect_def change_thread_def s1_eq)
  ultimately show ?thesis using tm s1 u(1,2) by (simp add: schedule_def)
qed

section \<open>Adding and removing threads\<close>

lemma other_ring_disjoint:
  assumes "links_inv rq s" "k \<noteq> m"
  shows "set (TM_LIST k # map THREAD_LIST (rq k)) \<inter> set (TM_LIST m # map THREAD_LIST (rq m)) = {}"
  using assms(2) links_invD(3) [OF assms(1)] by fastforce

lemma add_thread_links:
  assumes li: "links_inv rq s" and t: "sched_threads s t = Some th" "th_tm th = None" and m: "managers s m \<noteq> None"
  shows "\<exists>h. list_add_tail (THREAD_LIST t) (TM_LIST m) (links s) = Some h \<and>
     links_inv (rq(m := rq m @ [t])) (s\<lparr>links := h, sched_threads := (sched_threads s)(t \<mapsto> th\<lparr>th_tm := Some m\<rparr>)\<rparr>)"
proof -
  note l = links_invD [OF li]
  have new: "t \<notin> set (rq k)" for k using t l(3) [of t k] by auto
  then have fresh: "THREAD_LIST t \<notin> set (TM_LIST k # map THREAD_LIST (rq k))" for k by auto
  obtain h where h: "list_add_tail (THREAD_LIST t) (TM_LIST m) (links s) = Some h"
      "ring h (TM_LIST m) (map THREAD_LIST (rq m) @ [THREAD_LIST t])"
    using ring_add_tail [OF l(1) [OF m] fresh] by blast
  have frame: "l_next h x = l_next (links s) x \<and> l_prev h x = l_prev (links s) x"
    if "x \<notin> set (THREAD_LIST t # TM_LIST m # map THREAD_LIST (rq m))" for x
    using list_add_tail_frame [OF l(1) [OF m] h(1)] that by simp
  let ?s = "s\<lparr>links := h, sched_threads := (sched_threads s)(t \<mapsto> th\<lparr>th_tm := Some m\<rparr>)\<rparr>"
  have "ring h (TM_LIST k) (map THREAD_LIST ((rq(m := rq m @ [t])) k))" if "managers s k \<noteq> None" for k
  proof (cases "k = m")
    case False
    have "ring h (TM_LIST k) (map THREAD_LIST (rq k))"
    proof (rule ring_frame [OF l(1) [OF that]])
      fix x assume x: "x \<in> set (TM_LIST k # map THREAD_LIST (rq k))"
      then have "x \<notin> set (TM_LIST m # map THREAD_LIST (rq m))" using other_ring_disjoint [OF li False] by blast
      moreover have "x \<noteq> THREAD_LIST t" using x fresh [of k] by blast
      ultimately show "l_next h x = l_next (links s) x \<and> l_prev h x = l_prev (links s) x" by (intro frame) simp
    qed
    with False show ?thesis by simp
  qed (use h(2) in simp)
  moreover have "list_node_is_detached (Some (THREAD_LIST u)) h" if "\<exists>uh. sched_threads ?s u = Some uh \<and> th_tm uh = None" for u
  proof -
    obtain uh where u: "u \<noteq> t" "sched_threads s u = Some uh" "th_tm uh = None" using \<open>\<exists>uh. _\<close> by (auto split: if_splits)
    then have "THREAD_LIST u \<notin> set (THREAD_LIST t # TM_LIST m # map THREAD_LIST (rq m))" using l(3) [of u m] by auto
    with frame l(4) [OF u(2,3)] show ?thesis by (auto simp: list_node_is_detached_def)
  qed
  ultimately have "links_inv (rq(m := rq m @ [t])) ?s"
    using li m new t unfolding links_inv_def by (auto split: if_splits)
  with h(1) show ?thesis by blast
qed

lemma del_thread_links:
  assumes li: "links_inv rq s" and t: "sched_threads s t = Some th" "th_tm th = Some m" and m: "managers s m \<noteq> None"
  shows "\<exists>h. list_del_init (THREAD_LIST t) (links s) = Some h \<and>
     links_inv (rq(m := remove1 t (rq m))) (s\<lparr>links := h, sched_threads := (sched_threads s)(t \<mapsto> th\<lparr>th_tm := None\<rparr>)\<rparr>)"
proof -
  note l = links_invD [OF li]
  have tm: "t \<in> set (rq m)" using t l(3) by blast
  have inj: "remove1 (THREAD_LIST t) (map THREAD_LIST xs) = map THREAD_LIST (remove1 t xs)" for xs by (induction xs) auto
  obtain h where h: "list_del (THREAD_LIST t) (links s) = Some h"
      "ring h (TM_LIST m) (map THREAD_LIST (remove1 t (rq m)))" "list_node_is_detached (Some (THREAD_LIST t)) h"
    using ring_del [OF l(1) [OF m], of "THREAD_LIST t"] tm by (auto simp: inj)
  have frame: "l_next h x = l_next (links s) x \<and> l_prev h x = l_prev (links s) x"
    if "x \<notin> set (TM_LIST m # map THREAD_LIST (rq m))" for x
    using list_del_frame [OF l(1) [OF m] _ h(1)] tm that by simp
  have dist: "distinct (rq m)" using l(1) [OF m] by (auto simp: ring_def distinct_map)
  let ?s = "s\<lparr>links := h, sched_threads := (sched_threads s)(t \<mapsto> th\<lparr>th_tm := None\<rparr>)\<rparr>"
  have "ring h (TM_LIST k) (map THREAD_LIST ((rq(m := remove1 t (rq m))) k))" if "managers s k \<noteq> None" for k
  proof (cases "k = m")
    case False
    have "ring h (TM_LIST k) (map THREAD_LIST (rq k))"
      by (rule ring_frame [OF l(1) [OF that]], rule frame) (use other_ring_disjoint [OF li False] in blast)
    with False show ?thesis by simp
  qed (use h(2) in simp)
  moreover have "list_node_is_detached (Some (THREAD_LIST u)) h" if "\<exists>uh. sched_threads ?s u = Some uh \<and> th_tm uh = None" for u
  proof (cases "u = t")
    case False
    from that False obtain uh where u: "sched_threads s u = Some uh" "th_tm uh = None" by auto
    then have "THREAD_LIST u \<notin> set (TM_LIST m # map THREAD_LIST (rq m))" using l(3) [of u m] by auto
    with frame l(4) [OF u] show ?thesis by (auto simp: list_node_is_detached_def)
  qed (use h(3) in simp)
  moreover have "(u \<in> set ((rq(m := remove1 t (rq m))) k)) = (\<exists>uh. sched_threads ?s u = Some uh \<and> th_tm uh = Some k)" for u k
    using l(3) [of u k] t dist by auto
  ultimately have "links_inv (rq(m := remove1 t (rq m))) ?s"
    using l(2) m unfolding links_inv_def by simp
  with h(1) show ?thesis by (auto simp: list_del_def)
qed


lemma add_thread_ok:
  assumes inv: "sched_inv ext rq s" and t: "sched_threads s t = Some th" and m: "managers s m \<noteq> None"
  shows "\<exists>s' e rq'. add_thread_to_manager m t s = Some (s', e) \<and> sched_inv ext rq' s' \<and>
     (if th_tm th = None then e = REND_SUCCESS \<and> rq' = rq(m := rq m @ [t]) else e = E_RENDEZVOS \<and> s' = s \<and> rq' = rq)"
proof (cases "th_tm th")
  case (Some k)
  with t inv show ?thesis by (auto simp: add_thread_to_manager_def)
next
  case None
  have li: "links_inv rq s" and ri: "run_inv s" and vi: "vs_inv ext s" using inv by (auto simp: sched_inv_def)
  let ?th = "th\<lparr>th_tm := Some m\<rparr>"
  let ?th2 = "if th_status th = thread_status_init then ?th\<lparr>th_status := thread_status_ready\<rparr> else ?th"
  from add_thread_links [OF li t None m] obtain h where h: "list_add_tail (THREAD_LIST t) (TM_LIST m) (links s) = Some h"
      "links_inv (rq(m := rq m @ [t])) (s\<lparr>links := h, sched_threads := (sched_threads s)(t \<mapsto> ?th)\<rparr>)" by blast
  let ?s1 = "s\<lparr>links := h, sched_threads := (sched_threads s)(t \<mapsto> ?th)\<rparr>"
  let ?s2 = "s\<lparr>links := h, sched_threads := (sched_threads s)(t \<mapsto> ?th2)\<rparr>"
  have ch: "change_thread t (\<lambda>th. if th_status th = thread_status_init then th\<lparr>th_status := thread_status_ready\<rparr> else th) ?s1 = Some ?s2"
    by (simp add: change_thread_def)
  have res: "add_thread_to_manager m t s = Some (?s2, REND_SUCCESS)"
    using t None h(1) by (simp add: add_thread_to_manager_def sched_set_status_with_expect_def change_thread_def)
  have "links_inv (rq(m := rq m @ [t])) ?s2" using change_thread_links [OF ch] h(2) by simp
  moreover have "vs_inv ext ?s2"
    by (rule vs_inv_cong [OF vi]) (use t vs_invD(1) [OF vi] in \<open>auto simp: owners_def\<close>)
  moreover have "run_inv ?s2"
  proof -
    have nr: "th_status th \<noteq> thread_status_running" using run_invD(4) [OF ri t] None by auto
    have cur: "\<exists>ch. sched_threads ?s2 c = Some ch \<and> th_tm ch = Some k" if "managers s k = Some tm" "current_thread tm = Some c" for k tm c
      using run_invD(3) [OF ri that] t None by auto
    show ?thesis unfolding run_inv_def
      using nr cur run_invD(1,2) [OF ri] run_invD(4,5) [OF ri] t
      by (simp split: if_splits)
  qed
  ultimately show ?thesis using res None by (auto simp: sched_inv_def)
qed

lemma del_thread_ok:
  assumes inv: "sched_inv ext rq s" and t: "sched_threads s t = Some th"
  shows "\<exists>s' e rq'. del_thread_from_manager t s = Some (s', e) \<and> sched_inv ext rq' s' \<and>
     (case th_tm th of
        None \<Rightarrow> s' = s \<and> rq' = rq \<and> e = REND_SUCCESS
      | Some m \<Rightarrow> if map_option current_thread (managers s m) = Some (Some t) then s' = s \<and> rq' = rq \<and> e = E_REND_AGAIN
                 else rq' = rq(m := remove1 t (rq m)) \<and> e = REND_SUCCESS \<and> sched_threads s' t = Some (th\<lparr>th_tm := None\<rparr>))"
proof -
  have li: "links_inv rq s" and ri: "run_inv s" and vi: "vs_inv ext s" using inv by (auto simp: sched_inv_def)
  show ?thesis
  proof (cases "th_tm th")
    case None
    with t inv links_invD(4) [OF li t] show ?thesis by (auto simp: del_thread_from_manager_def)
  next
    case (Some m)
    have "t \<in> set (rq m)" using links_invD(3) [OF li] t Some by blast
    then obtain tm where tm: "managers s m = Some tm" using links_invD(2) [OF li, of m] by fastforce
    show ?thesis
    proof (cases "current_thread tm = Some t")
      case True
      with t tm Some inv show ?thesis by (auto simp: del_thread_from_manager_def)
    next
      case False
      let ?th = "th\<lparr>th_tm := None\<rparr>"
      from del_thread_links [OF li t Some] tm obtain h where h: "list_del_init (THREAD_LIST t) (links s) = Some h"
          "links_inv (rq(m := remove1 t (rq m))) (s\<lparr>links := h, sched_threads := (sched_threads s)(t \<mapsto> ?th)\<rparr>)" by auto
      let ?s = "s\<lparr>links := h, sched_threads := (sched_threads s)(t \<mapsto> ?th)\<rparr>"
      have res: "del_thread_from_manager t s = Some (?s, REND_SUCCESS)"
        using t Some tm False h(1) by (simp add: del_thread_from_manager_def change_thread_def)
      have "vs_inv ext ?s" by (rule vs_inv_cong [OF vi]) (use t vs_invD(1) [OF vi] in \<open>auto simp: owners_def\<close>)
      moreover have "run_inv ?s"
      proof -
        have nr: "th_status th \<noteq> thread_status_running" using run_invD(4) [OF ri t] Some tm False by auto
        have cur: "\<exists>ch. sched_threads ?s c = Some ch \<and> th_tm ch = Some k" if "managers s k = Some tk" "current_thread tk = Some c" for k tk c
        proof -
          have "c \<noteq> t" using run_invD(3) [OF ri that] that t Some tm False by auto
          then show ?thesis using run_invD(3) [OF ri that] by simp
        qed
        show ?thesis unfolding run_inv_def
          using nr cur run_invD(1,2) [OF ri] run_invD(4,5) [OF ri] t
          by (simp split: if_splits)
      qed
      ultimately have "sched_inv ext (rq(m := remove1 t (rq m))) ?s" using h(2) by (simp add: sched_inv_def)
      with res Some tm False show ?thesis by auto
    qed
  qed
qed


section \<open>Creating and freeing threads\<close>

lemma vs_drop_owner:
  assumes vi: "vs_inv ext s" and t: "sched_threads s t = Some th" and v: "th_vs th = Some v"
  shows "vs_inv (ext(v := ext v + 1)) (s\<lparr>sched_threads := (sched_threads s)(t := None)\<rparr>)"
proof -
  let ?s = "s\<lparr>sched_threads := (sched_threads s)(t := None)\<rparr>"
  have own: "owners w ?s = (if w = v then owners v s - {t} else owners w s)" for w using t v by (auto simp: owners_def)
  have cpu: "cpus_on w ?s = cpus_on w s" for w by (simp add: cpus_on_def)
  have "t \<in> owners v s" "finite (owners v s)" using t v finite_owners [OF vs_invD(1) [OF vi]] by (auto simp: owners_def)
  then have card: "card (owners v s) = card (owners v s - {t}) + 1" by (metis Suc_eq_plus1 card.remove)
  have "vs_ok (ext(v := ext v + 1)) ?s w x" if "vspaces s w = Some x" for w x
    using vs_invD(5) [OF vi that] card by (cases "w = v") (auto simp: vs_ok_def own cpu)
  moreover have "vspaces s w \<noteq> None" if "owners w ?s \<noteq> {} \<or> 0 < (ext(v := ext v + 1)) w" for w
    using that vs_invD(3) [OF vi, of _ w] vs_invD(6) [OF vi, of w] \<open>t \<in> owners v s\<close> by (cases "w = v") (auto simp: own)
  ultimately show ?thesis using vs_invD(1,2,4) [OF vi] unfolding vs_inv_def by simp
qed

lemma vs_new_owner:
  assumes vi: "vs_inv ext s" and t: "sched_threads s t = None" and v: "th_vs th = Some v" "0 < ext v" "vspaces s v \<noteq> None"
  shows "vs_inv (ext(v := ext v - 1)) (s\<lparr>sched_threads := (sched_threads s)(t \<mapsto> th)\<rparr>)"
proof -
  let ?s = "s\<lparr>sched_threads := (sched_threads s)(t \<mapsto> th)\<rparr>"
  have own: "owners w ?s = (if w = v then insert t (owners v s) else owners w s)" for w using t v by (auto simp: owners_def)
  have cpu: "cpus_on w ?s = cpus_on w s" for w by (simp add: cpus_on_def)
  have "t \<notin> owners v s" "finite (owners v s)" using t finite_owners [OF vs_invD(1) [OF vi]] by (auto simp: owners_def)
  then have "vs_ok (ext(v := ext v - 1)) ?s w x" if "vspaces s w = Some x" for w x
    using vs_invD(5) [OF vi that] v(2) by (cases "w = v") (auto simp: vs_ok_def own cpu of_nat_diff)
  then show ?thesis using vi v(3) unfolding vs_inv_def by (simp add: own)
qed

lemma put_vspace_threads:
  "put_vspace v (s\<lparr>sched_threads := X\<rparr>) = map_option (\<lambda>s'. s'\<lparr>sched_threads := X\<rparr>) (put_vspace v s)"
  by (cases "vspaces s v") (simp_all add: put_vspace_def Let_def split: prod.split)

lemma free_thread_ok:
  assumes inv: "sched_inv ext rq s" and t: "sched_threads s t = Some th" "th_tm th = None"
  shows "\<exists>s'. del_thread_structure t s = Some s' \<and> sched_inv ext rq s' \<and> sched_threads s' = (sched_threads s)(t := None)"
proof -
  have li: "links_inv rq s" and ri: "run_inv s" and vi: "vs_inv ext s" using inv by (auto simp: sched_inv_def)
  have del: "del_thread_from_manager t s = Some (s, REND_SUCCESS)" using del_thread_ok [OF inv t(1)] t(2) by auto
  have nr: "th_status th \<noteq> thread_status_running" using run_invD(4) [OF ri t(1)] t(2) by auto
  have lr: "links_inv rq s'" "run_inv s'"
    if s': "sched_threads s' = (sched_threads s)(t := None)" "links s' = links s" "managers s' = managers s" for s'
  proof -
    have keep: "(\<exists>uh. sched_threads s' u = Some uh \<and> th_tm uh = Some k) \<longleftrightarrow> (\<exists>uh. sched_threads s u = Some uh \<and> th_tm uh = Some k)" for u k
      using s'(1) t by auto
    show "links_inv rq s'" using li unfolding links_inv_def keep s'(2,3) by (auto simp: s'(1))
    show "run_inv s'" using ri unfolding run_inv_def keep s'(3) by (simp add: s'(1))
  qed
  let ?X = "(sched_threads s)(t := None)"
  show ?thesis
  proof (cases "th_vs th")
    case None
    have "vs_inv ext (s\<lparr>sched_threads := ?X\<rparr>)"
      by (rule vs_inv_cong [OF vi]) (use t None vs_invD(1) [OF vi] in \<open>auto simp: owners_def\<close>)
    moreover have "del_thread_structure t s = Some (s\<lparr>sched_threads := ?X\<rparr>)" using del t None by (simp add: del_thread_structure_def)
    ultimately show ?thesis using lr [of "s\<lparr>sched_threads := ?X\<rparr>"] by (auto simp: sched_inv_def)
  next
    case (Some v)
    let ?s = "s\<lparr>sched_threads := ?X\<rparr>" and ?e = "ext(v := ext v + 1)"
    have "t \<in> owners v s" using t Some by (auto simp: owners_def)
    then have "vspaces ?s v \<noteq> None" using vs_invD(3) [OF vi] by simp
    then obtain vm where vm: "put_vspace v ?s = Some (?s\<lparr>vspaces := vm\<rparr>)" "vs_inv (?e(v := ?e v - 1)) (?s\<lparr>vspaces := vm\<rparr>)"
      using put_vspace_ok [OF vs_drop_owner [OF vi t(1) Some], of v] by auto
    obtain s2 where s2: "put_vspace v s = Some s2" "s2\<lparr>sched_threads := ?X\<rparr> = ?s\<lparr>vspaces := vm\<rparr>"
      using vm(1) put_vspace_threads [of v ?X s] by (cases "put_vspace v s") auto
    have "sched_threads s2 = sched_threads s" using s2(1) by (auto simp: put_vspace_def ref_put_def split: bind_splits)
    then have "del_thread_structure t s = Some (?s\<lparr>vspaces := vm\<rparr>)"
      using del t Some s2 by (simp add: del_thread_structure_def)
    moreover have "?e(v := ?e v - 1) = ext" by simp
    ultimately show ?thesis using vm(2) lr [of "?s\<lparr>vspaces := vm\<rparr>"] by (auto simp: sched_inv_def)
  qed
qed

section \<open>Runs\<close>

text \<open>
  The steps of the system, with the references to address spaces that are held elsewhere: a CPU comes up
  and starts on a first thread; address spaces and threads are created; threads are put on a ring, taken
  off it and freed; a running thread blocks, a blocked one is woken, exit is requested, a thread is marked
  as deleted; and a CPU schedules. A thread comes with the reference to its address space that its
  creator had, and is a user thread only with an address space of its own.
\<close>

inductive sched_step :: "(nat \<Rightarrow> nat) \<times> sched \<Rightarrow> (nat \<Rightarrow> nat) \<times> sched \<Rightarrow> bool" where
  step_boot: "\<lbrakk>m < RENDEZVOS_MAX_CPU_NUMBER; managers s m = None; current_thread tm = None; new_task_manager (Some tm) m s = Some s'\<rbrakk> \<Longrightarrow>
     sched_step (ext, s) (ext, s')"
| step_start: "\<lbrakk>managers s m = Some tm; current_thread tm = None; sched_threads s t = Some th; th_tm th = Some m;
     sched_set_status t thread_status_running (set_current m t s) = Some s'\<rbrakk> \<Longrightarrow> sched_step (ext, s) (ext, s')"
| step_vspace: "\<lbrakk>vspaces s v = None; v \<noteq> root_vspace\<rbrakk> \<Longrightarrow>
     sched_step (ext, s) (ext(v := 1), s\<lparr>vspaces := (vspaces s)(v \<mapsto> \<lparr>vs_refcount = ref_init, tlb_cpu_mask = bitmap_zero RENDEZVOS_MAX_CPU_NUMBER\<rparr>)\<rparr>)"
| step_get: "\<lbrakk>0 < ext v \<or> v = root_vspace; vspaces s v = Some x; ref_get_not_zero (vs_refcount x) = Some r\<rbrakk> \<Longrightarrow>
     sched_step (ext, s) (ext(v := ext v + 1), s\<lparr>vspaces := (vspaces s)(v \<mapsto> x\<lparr>vs_refcount := r\<rparr>)\<rparr>)"
| step_put: "\<lbrakk>0 < ext v; put_vspace v s = Some s'\<rbrakk> \<Longrightarrow> sched_step (ext, s) (ext(v := ext v - 1), s')"
| step_create: "\<lbrakk>sched_threads s t = None; 0 < ext v; flags AND THREAD_FLAG_USER \<noteq> 0 \<longrightarrow> v \<noteq> root_vspace\<rbrakk> \<Longrightarrow>
     sched_step (ext, s) (ext(v := ext v - 1), s\<lparr>sched_threads := (sched_threads s)(t \<mapsto>
       \<lparr>th_status = thread_status_init, th_flags = flags, th_vs = Some v, th_tm = None\<rparr>), links := INIT_LIST_HEAD (THREAD_LIST t) (links s)\<rparr>)"
| step_add: "\<lbrakk>managers s m \<noteq> None; add_thread_to_manager m t s = Some (s', e)\<rbrakk> \<Longrightarrow> sched_step (ext, s) (ext, s')"
| step_del: "del_thread_from_manager t s = Some (s', e) \<Longrightarrow> sched_step (ext, s) (ext, s')"
| step_free: "\<lbrakk>sched_threads s t = Some th; th_tm th = None; del_thread_structure t s = Some s'\<rbrakk> \<Longrightarrow> sched_step (ext, s) (ext, s')"
| step_block: "\<lbrakk>sched_threads s t = Some th; th_status th = thread_status_running;
     b \<in> {thread_status_block_on_send, thread_status_block_on_receive}; sched_set_status t b s = Some s'\<rbrakk> \<Longrightarrow> sched_step (ext, s) (ext, s')"
| step_wake: "\<lbrakk>b \<in> {thread_status_block_on_send, thread_status_block_on_receive};
     sched_set_status_with_expect t b thread_status_ready s = Some s'\<rbrakk> \<Longrightarrow> sched_step (ext, s) (ext, s')"
| step_exit: "thread_or_flags t THREAD_FLAG_EXIT_REQUESTED s = Some s' \<Longrightarrow> sched_step (ext, s) (ext, s')"
| step_delete: "sched_set_status t thread_status_exit s = Some s' \<Longrightarrow> sched_step (ext, s) (ext, s')"
| step_schedule: "schedule fuel m s = Some s' \<Longrightarrow> sched_step (ext, s) (ext, s')"

definition sched_init :: sched where
  "sched_init = \<lparr>sched_threads = Map.empty, managers = Map.empty, links = \<lparr>l_prev = \<lambda>_. None, l_next = \<lambda>_. None\<rparr>,
     vspaces = [root_vspace \<mapsto> \<lparr>vs_refcount = ref_init, tlb_cpu_mask = bitmap_zero RENDEZVOS_MAX_CPU_NUMBER\<rparr>],
     current_vspace = \<lambda>_. root_vspace\<rparr>"

lemma zero_mask: "length (bitmap_zero RENDEZVOS_MAX_CPU_NUMBER) = 2"
  "m < RENDEZVOS_MAX_CPU_NUMBER \<Longrightarrow> bitmap_test (bitmap_zero RENDEZVOS_MAX_CPU_NUMBER) m = Some False"
proof -
  have "unat (ROUND_UP (of_nat 128) 64 :: u64) = 128" by (simp add: ROUND_UP_def ROUND_DOWN_def)
  then show l: "length (bitmap_zero RENDEZVOS_MAX_CPU_NUMBER) = 2"
    by (simp add: bitmap_zero_def BITMAP_NUM_CELLS_def RENDEZVOS_MAX_CPU_NUMBER_def)
  have "bitmap_is_zero (bitmap_zero RENDEZVOS_MAX_CPU_NUMBER)" by (simp add: bitmap_is_zero_def bitmap_zero_def list_all_iff)
  then show "m < RENDEZVOS_MAX_CPU_NUMBER \<Longrightarrow> bitmap_test (bitmap_zero RENDEZVOS_MAX_CPU_NUMBER) m = Some False"
    using l by (simp add: bitmap_is_zero_test RENDEZVOS_MAX_CPU_NUMBER_def)
qed

lemma sched_init_inv: "sched_inv (\<lambda>_. 0) (\<lambda>_. []) sched_init"
  by (auto simp: sched_inv_def sched_init_def links_inv_def run_inv_def vs_inv_def vs_ok_def owners_def zero_mask ref_init_def)


text \<open>A change of status or of a flag, with what the new status must not be.\<close>

lemma change_thread_inv:
  assumes inv: "sched_inv ext rq s" and ch: "change_thread t f s = Some s'"
    and f: "\<And>th. th_tm (f th) = th_tm th" "\<And>th. th_vs (f th) = th_vs th"
      "\<And>th. th_flags (f th) AND THREAD_FLAG_USER = th_flags th AND THREAD_FLAG_USER"
      "\<And>th. th_status (f th) = thread_status_running \<Longrightarrow> th_status th = thread_status_running"
  shows "sched_inv ext rq s'"
proof -
  have ri: "run_inv s" and rest: "links_inv rq s" "vs_inv ext s" using inv by (auto simp: sched_inv_def)
  obtain th where th: "sched_threads s t = Some th" and s': "s' = s\<lparr>sched_threads := (sched_threads s)(t \<mapsto> f th)\<rparr>"
    using ch by (auto simp: change_thread_def split: option.splits bind_splits)
  have keep: "(\<exists>uh. sched_threads s' u = Some uh \<and> th_tm uh = k) \<longleftrightarrow> (\<exists>uh. sched_threads s u = Some uh \<and> th_tm uh = k)" for u k
    using s' th f(1) by auto
  have "run_inv s'"
    unfolding run_inv_def keep
  proof (intro conjI allI impI)
    fix u uh assume u: "sched_threads s' u = Some uh"
    show "\<exists>m tm. th_tm uh = Some m \<and> managers s' m = Some tm \<and> current_thread tm = Some u"
      if "th_status uh = thread_status_running"
    proof (cases "u = t")
      case True
      then have "uh = f th" using u s' by simp
      with that run_invD(4) [OF ri th] f(1,4) s' True show ?thesis by simp
    next
      case False
      with that u s' run_invD(4) [OF ri, of u uh] show ?thesis by simp
    qed
    show "\<exists>v. th_vs uh = Some v \<and> v \<noteq> root_vspace" if "th_flags uh AND THREAD_FLAG_USER \<noteq> 0"
      using that u s' run_invD(5) [OF ri th] run_invD(5) [OF ri, of u uh] f(2,3) by (cases "u = t") auto
  qed (use run_invD(1-3) [OF ri] s' in auto)
  then show ?thesis using change_thread_links [OF ch f(1)] change_thread_vs [OF ch f(2)] rest by (simp add: sched_inv_def)
qed

lemma boot_inv:
  assumes inv: "sched_inv ext rq s" and m: "m < RENDEZVOS_MAX_CPU_NUMBER" "managers s m = None" "current_thread tm = None"
  shows "sched_inv ext rq (s\<lparr>managers := (managers s)(m \<mapsto> choose_schedule tm), links := INIT_LIST_HEAD (TM_LIST m) (links s)\<rparr>)"
    (is "sched_inv ext rq ?s")
proof -
  have li: "links_inv rq s" and ri: "run_inv s" and vi: "vs_inv ext s" using inv by (auto simp: sched_inv_def)
  let ?h = "INIT_LIST_HEAD (TM_LIST m) (links s)"
  have frame: "l_next ?h x = l_next (links s) x \<and> l_prev ?h x = l_prev (links s) x" if "x \<noteq> TM_LIST m" for x
    using that by (simp add: list_write_defs)
  have "ring ?h (TM_LIST k) (map THREAD_LIST (rq k))" if "managers ?s k \<noteq> None" for k
  proof (cases "k = m")
    case True
    then show ?thesis using links_invD(2) [OF li m(2)] ring_init by simp
  next
    case False
    then show ?thesis using that ring_frame [OF links_invD(1) [OF li, of k], of ?h] frame by auto
  qed
  moreover have "list_node_is_detached (Some (THREAD_LIST t)) ?h" if "\<exists>th. sched_threads s t = Some th \<and> th_tm th = None" for t
    using that links_invD(4) [OF li] frame [of "THREAD_LIST t"] by (auto simp: list_node_is_detached_def)
  ultimately have "links_inv rq ?s" using links_invD(2,3) [OF li] by (simp add: links_inv_def)
  moreover have "run_inv ?s"
    unfolding run_inv_def
  proof (intro conjI allI impI)
    fix t th assume t: "sched_threads ?s t = Some th" and r: "th_status th = thread_status_running"
    have "sched_threads s t = Some th" using t by simp
    then obtain k tk where k: "th_tm th = Some k" "managers s k = Some tk" "current_thread tk = Some t"
      using run_invD(4) [OF ri _ r] by blast
    then have "k \<noteq> m" using m(2) by auto
    with k show "\<exists>k tk. th_tm th = Some k \<and> managers ?s k = Some tk \<and> current_thread tk = Some t" by auto
  qed (use run_invD [OF ri] m in \<open>auto simp: choose_schedule_def split: if_splits\<close>)
  moreover have "vs_inv ext ?s" by (rule vs_inv_cong [OF vi]) (use vs_invD(1) [OF vi] in \<open>auto simp: owners_def\<close>)
  ultimately show ?thesis by (simp add: sched_inv_def)
qed

lemma start_thread_inv:
  assumes inv: "sched_inv ext rq s" and tm: "managers s m = Some tm" "current_thread tm = None"
    and t: "sched_threads s t = Some th" "th_tm th = Some m"
    and s': "sched_set_status t thread_status_running (set_current m t s) = Some s'"
  shows "sched_inv ext rq s'"
proof -
  have li: "links_inv rq s" and ri: "run_inv s" and vi: "vs_inv ext s" using inv by (auto simp: sched_inv_def)
  have e: "s' = s\<lparr>managers := (managers s)(m \<mapsto> tm\<lparr>current_thread := Some t\<rparr>),
      sched_threads := (sched_threads s)(t \<mapsto> th\<lparr>th_status := thread_status_running\<rparr>)\<rparr>"
    using s' t tm by (simp add: sched_set_status_def change_thread_def set_current_def)
  have keep: "(\<exists>uh. sched_threads s' u = Some uh \<and> th_tm uh = k) \<longleftrightarrow> (\<exists>uh. sched_threads s u = Some uh \<and> th_tm uh = k)" for u k
    using e t by auto
  have "managers s' k = None \<longleftrightarrow> managers s k = None" for k using e tm by simp
  then have "links_inv rq s'" using li unfolding links_inv_def keep by (simp add: e)
  moreover have "run_inv s'"
    unfolding run_inv_def keep
  proof (intro conjI allI impI)
    fix u uh assume u: "sched_threads s' u = Some uh" and r: "th_status uh = thread_status_running"
    show "\<exists>k tk. th_tm uh = Some k \<and> managers s' k = Some tk \<and> current_thread tk = Some u"
    proof (cases "u = t")
      case False
      then have "sched_threads s u = Some uh" using u e by simp
      then obtain k tk where k: "th_tm uh = Some k" "managers s k = Some tk" "current_thread tk = Some u"
        using run_invD(4) [OF ri _ r] by blast
      then have "k \<noteq> m" using tm by auto
      with k show ?thesis by (auto simp: e)
    qed (use u e t in auto)
  qed (use run_invD [OF ri] e t tm in \<open>auto split: if_splits\<close>)
  moreover have "vs_inv ext s'" by (rule vs_inv_cong [OF vi]) (use vs_invD(1) [OF vi] e t in \<open>auto simp: owners_def\<close>)
  ultimately show ?thesis by (simp add: sched_inv_def)
qed

lemma create_inv:
  assumes inv: "sched_inv ext rq s" and t: "sched_threads s t = None" and v: "0 < ext v" "vspaces s v \<noteq> None"
    and th: "th = \<lparr>th_status = thread_status_init, th_flags = flags, th_vs = Some v, th_tm = None\<rparr>"
    and user: "flags AND THREAD_FLAG_USER \<noteq> 0 \<longrightarrow> v \<noteq> root_vspace"
  shows "sched_inv (ext(v := ext v - 1)) rq (s\<lparr>sched_threads := (sched_threads s)(t \<mapsto> th), links := INIT_LIST_HEAD (THREAD_LIST t) (links s)\<rparr>)"
    (is "sched_inv _ rq ?s")
proof -
  have li: "links_inv rq s" and ri: "run_inv s" and vi: "vs_inv ext s" using inv by (auto simp: sched_inv_def)
  let ?h = "INIT_LIST_HEAD (THREAD_LIST t) (links s)"
  have frame: "l_next ?h x = l_next (links s) x \<and> l_prev ?h x = l_prev (links s) x" if "x \<noteq> THREAD_LIST t" for x
    using that by (simp add: list_write_defs)
  have new: "t \<notin> set (rq k)" for k using links_invD(3) [OF li] t by auto
  have "ring ?h (TM_LIST k) (map THREAD_LIST (rq k))" if "managers s k \<noteq> None" for k
    by (rule ring_frame [OF links_invD(1) [OF li that]], rule frame) (use new [of k] in auto)
  moreover have "list_node_is_detached (Some (THREAD_LIST u)) ?h" if "\<exists>uh. sched_threads ?s u = Some uh \<and> th_tm uh = None" for u
  proof (cases "u = t")
    case False
    then show ?thesis using that links_invD(4) [OF li, of u] frame [of "THREAD_LIST u"] by (auto simp: list_node_is_detached_def)
  qed (simp add: list_node_is_detached_def list_write_defs)
  moreover have "(u \<in> set (rq k)) = (\<exists>uh. sched_threads ?s u = Some uh \<and> th_tm uh = Some k)" for u k
    using links_invD(3) [OF li, of u k] new t th by auto
  ultimately have "links_inv rq ?s" using links_invD(2) [OF li] by (simp add: links_inv_def)
  moreover have "run_inv ?s"
  proof -
    have "c \<noteq> t" if "managers s k = Some tk" "current_thread tk = Some c" for k tk c
      using run_invD(3) [OF ri that] t by auto
    then show ?thesis using run_invD [OF ri] th user t unfolding run_inv_def by (auto split: if_splits)
  qed
  moreover have "vs_inv (ext(v := ext v - 1)) ?s"
  proof -
    let ?s0 = "s\<lparr>sched_threads := (sched_threads s)(t \<mapsto> th)\<rparr>"
    have "vs_inv (ext(v := ext v - 1)) ?s0" using vs_new_owner [OF vi t _ v, of th] th by simp
    then show ?thesis by (rule vs_inv_cong) (use vs_invD(1) [OF vi] in \<open>auto simp: owners_def\<close>)
  qed
  ultimately show ?thesis by (simp add: sched_inv_def)
qed


lemma vspaces_only:
  "links_inv rq s \<Longrightarrow> run_inv s \<Longrightarrow> links_inv rq (s\<lparr>vspaces := vm\<rparr>) \<and> run_inv (s\<lparr>vspaces := vm\<rparr>)"
  by (simp add: links_inv_def run_inv_def)

lemma new_vspace_inv:
  assumes vi: "vs_inv ext s" and v: "vspaces s v = None" "v \<noteq> root_vspace"
  shows "vs_inv (ext(v := 1)) (s\<lparr>vspaces := (vspaces s)(v \<mapsto> \<lparr>vs_refcount = ref_init, tlb_cpu_mask = bitmap_zero RENDEZVOS_MAX_CPU_NUMBER\<rparr>)\<rparr>)"
    (is "vs_inv ?e ?s")
proof -
  have own: "owners w ?s = owners w s" and cpu: "cpus_on w ?s = cpus_on w s" for w by (simp_all add: owners_def cpus_on_def)
  have "owners v s = {}" using vs_invD(3) [OF vi] v(1) by blast
  moreover have "m \<notin> cpus_on v s" for m using vs_invD(4) [OF vi, of m] v(1) by (auto simp: cpus_on_def)
  then have none: "cpus_on v s = {}" by blast
  ultimately have "vs_ok ?e ?s v \<lparr>vs_refcount = ref_init, tlb_cpu_mask = bitmap_zero RENDEZVOS_MAX_CPU_NUMBER\<rparr>"
    using v(2) zero_mask none unfolding vs_ok_def own cpu by (auto simp: ref_init_def cpus_on_def)
  moreover have "vs_ok ?e ?s w x" if "w \<noteq> v" "vspaces s w = Some x" for w x
    using that vs_invD(5) [OF vi that(2)] by (simp add: vs_ok_def own cpu)
  ultimately show ?thesis using vi unfolding vs_inv_def own by auto
qed

lemma sched_step_inv:
  "sched_step x y \<Longrightarrow> \<exists>rq. sched_inv (fst x) rq (snd x) \<Longrightarrow> \<exists>rq. sched_inv (fst y) rq (snd y)"
proof (induction rule: sched_step.induct)
  case (step_boot m s tm s' ext)
  then obtain rq where "sched_inv ext rq s" by auto
  from boot_inv [OF this step_boot(1-3)] step_boot(4) show ?case by (auto simp: new_task_manager_def)
next
  case (step_start s m tm t th s' ext)
  then obtain rq where "sched_inv ext rq s" by auto
  from start_thread_inv [OF this step_start(1-5)] show ?case by auto
next
  case (step_vspace s v ext)
  then obtain rq where inv: "links_inv rq s" "run_inv s" "vs_inv ext s" by (auto simp: sched_inv_def)
  from vspaces_only [OF inv(1,2)] new_vspace_inv [OF inv(3) step_vspace(1,2)] show ?case
    unfolding sched_inv_def fst_conv snd_conv by blast
next
  case (step_get ext v s x r)
  then obtain rq where inv: "links_inv rq s" "run_inv s" "vs_inv ext s" by (auto simp: sched_inv_def)
  have "r = vs_refcount x + 1" using step_get(3) by (simp add: ref_get_not_zero_def split: if_splits)
  with vspaces_only [OF inv(1,2)] get_vspace_ok [OF inv(3) step_get(2)] show ?case
    unfolding sched_inv_def fst_conv snd_conv by blast
next
  case (step_put ext v s s')
  then obtain rq where inv: "links_inv rq s" "run_inv s" "vs_inv ext s" by (auto simp: sched_inv_def)
  from put_vspace_ok [OF inv(3) step_put(1)] vs_invD(6) [OF inv(3) step_put(1)] step_put(2)
  obtain vm where "s' = s\<lparr>vspaces := vm\<rparr>" "vs_inv (ext(v := ext v - 1)) s'" by auto
  with vspaces_only [OF inv(1,2)] show ?case unfolding sched_inv_def fst_conv snd_conv by blast
next
  case (step_create s t ext v flags)
  then obtain rq where inv: "sched_inv ext rq s" by auto
  then have "vspaces s v \<noteq> None" using vs_invD(6) step_create(2) by (auto simp: sched_inv_def)
  from create_inv [OF inv step_create(1,2) this refl step_create(3)] show ?case unfolding fst_conv snd_conv by blast
next
  case (step_add s m t s' e ext)
  then obtain rq where inv: "sched_inv ext rq s" by auto
  obtain th where "sched_threads s t = Some th" using step_add(2) by (auto simp: add_thread_to_manager_def split: bind_splits)
  from add_thread_ok [OF inv this step_add(1)] step_add(2) show ?case by auto
next
  case (step_del t s s' e ext)
  then obtain rq where inv: "sched_inv ext rq s" by auto
  obtain th where "sched_threads s t = Some th" using step_del(1) by (auto simp: del_thread_from_manager_def split: bind_splits)
  from del_thread_ok [OF inv this] step_del(1) show ?case by auto
next
  case (step_free s t th s' ext)
  then obtain rq where inv: "sched_inv ext rq s" by auto
  from free_thread_ok [OF inv step_free(1,2)] step_free(3) show ?case by auto
next
  case (step_block s t th b s' ext)
  then obtain rq where inv: "sched_inv ext rq s" by auto
  from change_thread_inv [OF inv step_block(4) [unfolded sched_set_status_def]] step_block(3) show ?case by auto
next
  case (step_wake b t s s' ext)
  then obtain rq where inv: "sched_inv ext rq s" by auto
  have "sched_inv ext rq s'"
    by (rule change_thread_inv [OF inv step_wake(2) [unfolded sched_set_status_with_expect_def]]) (auto split: if_splits)
  then show ?case by auto
next
  case (step_exit t s s' ext)
  then obtain rq where inv: "sched_inv ext rq s" by auto
  have "(f OR THREAD_FLAG_EXIT_REQUESTED) AND THREAD_FLAG_USER = f AND THREAD_FLAG_USER" for f :: u64
    by (rule bit_word_eqI) (auto simp: THREAD_FLAG_EXIT_REQUESTED_def THREAD_FLAG_USER_def bit_simps)
  with change_thread_inv [OF inv step_exit(1) [unfolded thread_or_flags_def]] show ?case by auto
next
  case (step_delete t s s' ext)
  then obtain rq where inv: "sched_inv ext rq s" by auto
  from change_thread_inv [OF inv step_delete(1) [unfolded sched_set_status_def]] show ?case by auto
next
  case (step_schedule fuel m s s' ext)
  then obtain rq where inv: "sched_inv ext rq s" by auto
  from schedule_inv [OF inv step_schedule(1)] show ?case by auto
qed

lemma sched_run_inv:
  "sched_step\<^sup>*\<^sup>* (\<lambda>_. 0, sched_init) x \<Longrightarrow> \<exists>rq. sched_inv (fst x) rq (snd x)"
proof (induction rule: rtranclp_induct)
  case base
  then show ?case using sched_init_inv by auto
next
  case (step y z)
  then show ?case using sched_step_inv by blast
qed


section \<open>Turns of a waiting thread\<close>

lemma path_unique:
  "path h n (xs @ [a]) \<Longrightarrow> path h n (ys @ [a]) \<Longrightarrow> a \<notin> set xs \<Longrightarrow> a \<notin> set ys \<Longrightarrow> xs = ys"
proof (induction xs arbitrary: n ys)
  case Nil
  then show ?case by (cases ys) auto
next
  case (Cons x xs)
  then obtain y zs where "ys = y # zs" by (cases ys) auto
  with Cons show ?case by auto
qed

lemma ring_unique:
  assumes "ring h a xs" "ring h a ys"
  shows "xs = ys"
  using assms path_unique [of h a xs a ys] chain_path [of h a "xs @ [a]"] chain_path [of h a "ys @ [a]"] by (auto simp: ring_def)

lemma ring_rq:
  assumes "links_inv rq s" "managers s m \<noteq> None" "ring (links s) (TM_LIST m) (map THREAD_LIST ts)"
  shows "rq m = ts"
  using ring_unique [OF links_invD(1) [OF assms(1,2)] assms(3)] by (simp add: inj_map_eq_map inj_def)

lemma rot_turn:
  assumes "distinct ts" "c \<in> set ts" "rot c ts = as @ u # bs"
  shows "rot u ts = bs @ as @ [u]"
proof -
  obtain xs ys where ts: "ts = xs @ c # ys" "c \<notin> set xs" using assms(2) by (meson split_list_first)
  then have r: "ys @ xs @ [c] = as @ u # bs" using rot_split [of c xs ys] assms(3) by simp
  have d: "distinct (ys @ xs @ [c])" using assms(1) ts by auto
  obtain us where "ys = as @ us \<and> us @ xs @ [c] = u # bs \<or> as = ys @ us \<and> xs @ [c] = us @ u # bs"
    using r by (auto simp: append_eq_append_conv2)
  then consider ws where "ys = as @ u # ws" "bs = ws @ xs @ [c]" | ws where "as = ys @ ws" "xs @ [c] = ws @ u # bs"
    by (cases us) auto
  then show ?thesis
  proof cases
    case 1
    then have "ts = (xs @ c # as) @ u # ws" using ts by simp
    moreover have "u \<notin> set (xs @ c # as)" using d 1 by auto
    ultimately show ?thesis using rot_split [of u "xs @ c # as" ws] 1 by simp
  next
    case 2
    show ?thesis
    proof (cases bs rule: rev_cases)
      case Nil
      then have "xs = ws" "u = c" using 2(2) by auto
      then show ?thesis using Nil 2 ts rot_split [of c xs ys] by simp
    next
      case (snoc zs z)
      then have x: "xs = ws @ u # zs" "z = c" using 2(2) by (simp_all add: append_Cons [symmetric] del: append_Cons)
      then have "ts = ws @ u # (zs @ c # ys)" "u \<notin> set ws" using ts d by auto
      then show ?thesis using rot_split [of u ws "zs @ c # ys"] snoc x 2 by simp
    qed
  qed
qed

text \<open>How many turns away \<open>t\<close> is when \<open>c\<close> runs.\<close>

definition turns_to :: "nat \<Rightarrow> nat \<Rightarrow> nat list \<Rightarrow> nat" where
  "turns_to c t ts = length (takeWhile (\<lambda>x. x \<noteq> t) (rot c ts)) + 1"

lemma takeWhile_short: "t \<in> set zs \<Longrightarrow> length (takeWhile (\<lambda>x. x \<noteq> t) zs) < length zs"
  by (induction zs) auto

lemma turns_to_bound:
  assumes "c \<in> set ts" "t \<in> set ts" "c \<noteq> t"
  shows "turns_to c t ts < length ts"
proof -
  obtain xs ys where ts: "ts = xs @ c # ys" "c \<notin> set xs" using assms(1) by (meson split_list_first)
  then have "t \<in> set (ys @ xs)" using assms by auto
  then have "length (takeWhile (\<lambda>x. x \<noteq> t) (ys @ xs)) < length (ys @ xs)"
    by (rule takeWhile_short)
  moreover have "takeWhile (\<lambda>x. x \<noteq> t) (rot c ts) = takeWhile (\<lambda>x. x \<noteq> t) (ys @ xs)"
    using ts rot_split [of c xs ys] \<open>t \<in> set (ys @ xs)\<close> takeWhile_append1 [of t "ys @ xs" "\<lambda>x. x \<noteq> t" "[c]"] by simp
  ultimately show ?thesis using ts by (simp add: turns_to_def)
qed

lemma turns_to_decrease:
  assumes d: "distinct ts" and c: "c \<in> set ts" and t: "t \<in> set ts" "is_ready s t" and n: "next_ready s c ts = Some u" and ut: "u \<noteq> t"
  shows "turns_to u t ts < turns_to c t ts"
proof -
  obtain i where i: "i < length (rot c ts)" "u = rot c ts ! i" "\<forall>j<i. \<not> is_ready s (rot c ts ! j)"
    using n unfolding next_ready_def find_Some_iff by blast
  define as bs where "as = take i (rot c ts)" and "bs = drop (Suc i) (rot c ts)"
  have r: "rot c ts = as @ u # bs" "\<forall>x\<in>set as. \<not> is_ready s x"
    using id_take_nth_drop [OF i(1)] i by (auto simp: as_def bs_def in_set_conv_nth)
  have "t \<in> set bs" using t r ut set_rot [OF c] by auto
  then obtain b1 b2 where b: "bs = b1 @ t # b2" "t \<notin> set b1" by (meson split_list_first)
  have "t \<notin> set as" using r(2) t(2) by blast
  then have "takeWhile (\<lambda>x. x \<noteq> t) (rot c ts) = as @ u # b1" using r(1) b ut by (simp add: takeWhile_append)
  moreover have "takeWhile (\<lambda>x. x \<noteq> t) (rot u ts) = b1" using rot_turn [OF d c r(1)] b by (simp add: takeWhile_append)
  ultimately show ?thesis by (simp add: turns_to_def)
qed


text \<open>
  Thread \<open>t\<close> waits on CPU \<open>m\<close>: the ring of the CPU stays as it is and \<open>t\<close> stays ready, while all other steps are
  free. The number counts the calls of \<^verbatim>\<open>schedule\<close> on the CPU before \<open>t\<close> is its current thread.
\<close>

definition current_on :: "sched \<Rightarrow> nat \<Rightarrow> nat option" where
  "current_on s m = Option.bind (managers s m) current_thread"

inductive waits :: "nat \<Rightarrow> nat \<Rightarrow> nat list \<Rightarrow> (nat \<Rightarrow> nat) \<times> sched \<Rightarrow> nat \<Rightarrow> (nat \<Rightarrow> nat) \<times> sched \<Rightarrow> bool" for m t ts x where
  waits_start: "waits m t ts x 0 x"
| waits_other: "\<lbrakk>waits m t ts x k y; sched_step y z; managers (snd z) m = managers (snd y) m;
     ring (links (snd z)) (TM_LIST m) (map THREAD_LIST ts); is_ready (snd z) t\<rbrakk> \<Longrightarrow> waits m t ts x k z"
| waits_turn: "\<lbrakk>waits m t ts x k (ext, s); current_on s m \<noteq> Some t; schedule fuel m s = Some s'\<rbrakk> \<Longrightarrow>
     waits m t ts x (Suc k) (ext, s')"

lemma turn_step:
  assumes inv: "sched_inv ext rq s" and cur: "current_on s m = Some c" and r: "ring (links s) (TM_LIST m) (map THREAD_LIST ts)"
    and t: "t \<in> set ts" "is_ready s t" and ct: "c \<noteq> t"
  shows "\<exists>u s'. (\<forall>fuel. length ts < fuel \<longrightarrow> schedule fuel m s = Some s') \<and> sched_inv ext rq s' \<and> current_on s' m = Some u \<and>
     ring (links s') (TM_LIST m) (map THREAD_LIST ts) \<and> (u \<noteq> t \<longrightarrow> is_ready s' t \<and> turns_to u t ts < turns_to c t ts) \<and> u \<in> set ts"
proof -
  have li: "links_inv rq s" and ri: "run_inv s" using inv by (auto simp: sched_inv_def)
  obtain tm where tm: "managers s m = Some tm" "current_thread tm = Some c" using cur by (cases "managers s m") (auto simp: current_on_def)
  have rq: "rq m = ts" using ring_rq [OF li _ r] tm(1) by simp
  obtain thc where thc: "sched_threads s c = Some thc" "th_tm thc = Some m" using run_invD(3) [OF ri tm] by blast
  then have c: "c \<in> set ts" using links_invD(3) [OF li] rq by blast
  obtain s1 where s1: "sched_set_status_with_expect c thread_status_running thread_status_ready s = Some s1"
    using thc(1) by (simp add: sched_set_status_with_expect_def change_thread_def)
  then have t1: "is_ready s1 t" using t(2) ct thc(1) by (auto simp: sched_set_status_with_expect_def change_thread_def is_ready_def)
  obtain u where u: "next_ready s1 c ts = Some u"
    using t1 t(1) set_rot [OF c] by (cases "next_ready s1 c ts") (auto simp: next_ready_def find_None_iff)
  have d: "distinct ts" using r by (auto simp: ring_def distinct_map)
  obtain s' where s': "schedule (length ts + 1) m s = Some s'" "sched_inv ext rq s'" "links s' = links s"
      "managers s' = (managers s)(m \<mapsto> tm\<lparr>current_thread := Some u\<rparr>)"
      "\<forall>w. w \<noteq> c \<longrightarrow> w \<noteq> u \<longrightarrow> sched_threads s' w = sched_threads s w"
    using schedule_spec [OF inv tm s1 u [folded rq], of "length ts + 1"] rq by auto
  have "schedule fuel m s = Some s'" if "length ts < fuel" for fuel
    using schedule_fuel [OF inv tm s'(1), of fuel] that by simp
  moreover have "current_on s' m = Some u" using s'(4) by (simp add: current_on_def)
  moreover have "is_ready s' t \<and> turns_to u t ts < turns_to c t ts" if "u \<noteq> t"
    using turns_to_decrease [OF d c t(1) t1 u that] s'(5) that ct t(2) by (auto simp: is_ready_def)
  moreover have "u \<in> set ts" using next_ready_ring [OF u c] by simp
  ultimately show ?thesis using s'(2,3) r by metis
qed

lemma waits_bound:
  assumes inv: "\<exists>rq. sched_inv (fst x) rq (snd x)" and cur: "current_on (snd x) m = Some c"
    and r: "ring (links (snd x)) (TM_LIST m) (map THREAD_LIST ts)" and t: "t \<in> set ts" "is_ready (snd x) t" and ct: "c \<noteq> t" "c \<in> set ts"
  shows "waits m t ts x k y \<Longrightarrow> (\<exists>rq. sched_inv (fst y) rq (snd y)) \<and> ring (links (snd y)) (TM_LIST m) (map THREAD_LIST ts) \<and>
     (\<exists>d\<in>set ts. current_on (snd y) m = Some d \<and>
        (if d = t then k \<le> turns_to c t ts else is_ready (snd y) t \<and> k + turns_to d t ts \<le> turns_to c t ts))"
proof (induction rule: waits.induct)
  case waits_start
  then show ?case using assms by auto
next
  case (waits_other k y z)
  then obtain d where d: "d \<in> set ts" "current_on (snd y) m = Some d"
      "if d = t then k \<le> turns_to c t ts else is_ready (snd y) t \<and> k + turns_to d t ts \<le> turns_to c t ts" by blast
  have "current_on (snd z) m = Some d" using d(2) waits_other(3) by (simp add: current_on_def)
  with d waits_other sched_step_inv [OF waits_other(2)] show ?case by (auto split: if_splits)
next
  case (waits_turn k ext s fuel s')
  then obtain rq d where d: "sched_inv ext rq s" "ring (links s) (TM_LIST m) (map THREAD_LIST ts)" "d \<in> set ts" "current_on s m = Some d"
      "d \<noteq> t" "is_ready s t" "k + turns_to d t ts \<le> turns_to c t ts" by (auto split: if_splits)
  obtain u s2 where u: "\<forall>fuel. length ts < fuel \<longrightarrow> schedule fuel m s = Some s2" "sched_inv ext rq s2" "current_on s2 m = Some u"
      "ring (links s2) (TM_LIST m) (map THREAD_LIST ts)" "u \<noteq> t \<longrightarrow> is_ready s2 t \<and> turns_to u t ts < turns_to d t ts" "u \<in> set ts"
    using turn_step [OF d(1,4,2) t(1) d(6,5)] by blast
  have "s' = s2"
  proof -
    obtain tm where tm: "managers s m = Some tm" "current_thread tm = Some d"
      using d(4) by (cases "managers s m") (auto simp: current_on_def)
    from schedule_someD [OF d(1) tm waits_turn(3)] have "schedule (fuel + length (rq m) + 1) m s = Some s'" by blast
    moreover have "rq m = ts" using ring_rq [OF _ _ d(2)] d(1) tm(1) by (simp add: sched_inv_def)
    then have "schedule (fuel + length (rq m) + 1) m s = Some s2" using u(1) by simp
    ultimately show ?thesis by simp
  qed
  moreover have "1 \<le> turns_to d t ts" by (simp add: turns_to_def)
  ultimately show ?case using u d(7) by (auto intro!: bexI [of _ u])
qed


section \<open>A machine with two threads\<close>

text \<open>One CPU, on whose ring two kernel threads are ready to run; the first one is current.\<close>

definition duo_links :: "sched_node list_heap" where
  "duo_links = list_add_between (THREAD_LIST 2) (THREAD_LIST 1) (TM_LIST 0)
     (INIT_LIST_HEAD (THREAD_LIST 2) (list_add_between (THREAD_LIST 1) (TM_LIST 0) (TM_LIST 0)
       (INIT_LIST_HEAD (THREAD_LIST 1) (INIT_LIST_HEAD (TM_LIST 0) (links sched_init)))))"

definition kernel_thread :: "thread_status \<Rightarrow> nat option \<Rightarrow> sched_thread" where
  "kernel_thread st tm = \<lparr>th_status = st, th_flags = 0, th_vs = Some root_vspace, th_tm = tm\<rparr>"

definition duo :: sched where
  "duo = \<lparr>sched_threads = [1 \<mapsto> kernel_thread thread_status_running (Some 0), 2 \<mapsto> kernel_thread thread_status_ready (Some 0)],
     managers = [0 \<mapsto> \<lparr>current_thread = Some 1, has_scheduler = True\<rparr>], links = duo_links,
     vspaces = [root_vspace \<mapsto> \<lparr>vs_refcount = 3, tlb_cpu_mask = bitmap_zero RENDEZVOS_MAX_CPU_NUMBER\<rparr>],
     current_vspace = \<lambda>_. root_vspace\<rparr>"

lemma duo_ring: "ring (links duo) (TM_LIST 0) (map THREAD_LIST [1, 2])"
  by (simp add: duo_def duo_links_def ring_def list_write_defs sched_init_def)

lemma duo_fields:
  "managers duo 0 = Some \<lparr>current_thread = Some 1, has_scheduler = True\<rparr>" "current_on duo 0 = Some 1" "is_ready duo 2"
  by (simp_all add: duo_def current_on_def is_ready_def kernel_thread_def)

text \<open>A thread with the root address space is created and put on the ring of a CPU.\<close>

lemma join_steps:
  assumes s: "sched_step\<^sup>*\<^sup>* x (ext, s)" and m: "managers s m \<noteq> None" and t: "sched_threads s t = None"
    and v: "vspaces s root_vspace = Some y" "0 < vs_refcount y"
    and h: "list_add_tail (THREAD_LIST t) (TM_LIST m) (INIT_LIST_HEAD (THREAD_LIST t) (links s)) = Some h"
  shows "\<exists>ext'. sched_step\<^sup>*\<^sup>* x (ext', s\<lparr>sched_threads := (sched_threads s)(t \<mapsto> kernel_thread thread_status_ready (Some m)),
     links := h, vspaces := (vspaces s)(root_vspace \<mapsto> y\<lparr>vs_refcount := vs_refcount y + 1\<rparr>)\<rparr>)"
proof -
  let ?s1 = "s\<lparr>vspaces := (vspaces s)(root_vspace \<mapsto> y\<lparr>vs_refcount := vs_refcount y + 1\<rparr>)\<rparr>"
  let ?e1 = "ext(root_vspace := ext root_vspace + 1)" and ?e2 = "(ext(root_vspace := ext root_vspace + 1))(root_vspace := ext root_vspace)"
  let ?s2 = "?s1\<lparr>sched_threads := (sched_threads ?s1)(t \<mapsto> \<lparr>th_status = thread_status_init, th_flags = 0, th_vs = Some root_vspace, th_tm = None\<rparr>),
     links := INIT_LIST_HEAD (THREAD_LIST t) (links ?s1)\<rparr>"
  let ?s3 = "s\<lparr>sched_threads := (sched_threads s)(t \<mapsto> kernel_thread thread_status_ready (Some m)),
     links := h, vspaces := (vspaces s)(root_vspace \<mapsto> y\<lparr>vs_refcount := vs_refcount y + 1\<rparr>)\<rparr>"
  have "sched_step (ext, s) (?e1, ?s1)" by (rule step_get [OF _ v(1)]) (use v(2) in \<open>auto simp: ref_get_not_zero_def\<close>)
  moreover have "sched_step (?e1, ?s1) (?e1(root_vspace := ?e1 root_vspace - 1), ?s2)"
    by (rule step_create) (use t in auto)
  moreover have "sched_step (?e1(root_vspace := ?e1 root_vspace - 1), ?s2) (?e1(root_vspace := ?e1 root_vspace - 1), ?s3)"
    by (rule step_add [of _ m t _ REND_SUCCESS])
       (use m h in \<open>simp_all add: add_thread_to_manager_def change_thread_def sched_set_status_with_expect_def kernel_thread_def\<close>)
  ultimately show ?thesis using s by (meson rtranclp.rtrancl_into_rtrancl)
qed

lemma duo_reachable: "\<exists>ext. sched_step\<^sup>*\<^sup>* (\<lambda>_. 0, sched_init) (ext, duo)"
proof -
  let ?tm = "\<lparr>current_thread = None, has_scheduler = False\<rparr>"
  define s1 where "s1 = sched_init\<lparr>managers := [0 \<mapsto> choose_schedule ?tm], links := INIT_LIST_HEAD (TM_LIST 0) (links sched_init)\<rparr>"
  have "sched_step (\<lambda>_. 0, sched_init) (\<lambda>_. 0, s1)"
    by (rule step_boot [of 0 _ ?tm])
       (simp_all add: new_task_manager_def s1_def sched_init_def RENDEZVOS_MAX_CPU_NUMBER_def)
  then have r1: "sched_step\<^sup>*\<^sup>* (\<lambda>_. 0, sched_init) (\<lambda>_. 0, s1)" by blast
  have v1: "vspaces s1 root_vspace = Some \<lparr>vs_refcount = 1, tlb_cpu_mask = bitmap_zero RENDEZVOS_MAX_CPU_NUMBER\<rparr>"
    by (simp add: s1_def sched_init_def ref_init_def)
  define h1 where "h1 = list_add_between (THREAD_LIST 1) (TM_LIST 0) (TM_LIST 0) (INIT_LIST_HEAD (THREAD_LIST 1) (links s1))"
  have a1: "list_add_tail (THREAD_LIST 1) (TM_LIST 0) (INIT_LIST_HEAD (THREAD_LIST 1) (links s1)) = Some h1"
    by (simp add: list_add_tail_def h1_def s1_def list_write_defs)
  define s2 where "s2 = s1\<lparr>sched_threads := [1 \<mapsto> kernel_thread thread_status_ready (Some 0)], links := h1,
    vspaces := [root_vspace \<mapsto> \<lparr>vs_refcount = 2, tlb_cpu_mask = bitmap_zero RENDEZVOS_MAX_CPU_NUMBER\<rparr>]\<rparr>"
  obtain e2 where r2: "sched_step\<^sup>*\<^sup>* (\<lambda>_. 0, sched_init) (e2, s2)"
    using join_steps [OF r1 _ _ v1 _ a1] by (auto simp: s2_def s1_def sched_init_def)
  have v2: "vspaces s2 root_vspace = Some \<lparr>vs_refcount = 2, tlb_cpu_mask = bitmap_zero RENDEZVOS_MAX_CPU_NUMBER\<rparr>"
    by (simp add: s2_def)
  have a2: "list_add_tail (THREAD_LIST 2) (TM_LIST 0) (INIT_LIST_HEAD (THREAD_LIST 2) (links s2)) = Some duo_links"
    by (simp add: list_add_tail_def s2_def h1_def s1_def duo_links_def list_write_defs)
  define s3 where "s3 = s2\<lparr>sched_threads := (sched_threads s2)(2 \<mapsto> kernel_thread thread_status_ready (Some 0)), links := duo_links,
    vspaces := (vspaces s2)(root_vspace \<mapsto> \<lparr>vs_refcount = 3, tlb_cpu_mask = bitmap_zero RENDEZVOS_MAX_CPU_NUMBER\<rparr>)\<rparr>"
  obtain e3 where r3: "sched_step\<^sup>*\<^sup>* (\<lambda>_. 0, sched_init) (e3, s3)"
    using join_steps [OF r2 _ _ v2 _ a2] by (auto simp: s3_def s2_def s1_def)
  have "sched_step (e3, s3) (e3, duo)"
    by (rule step_start [of _ 0 "choose_schedule ?tm" 1 "kernel_thread thread_status_ready (Some 0)"])
       (simp_all add: s3_def s2_def s1_def sched_init_def kernel_thread_def choose_schedule_def sched_set_status_def change_thread_def set_current_def duo_def
         fun_upd_twist [of "Suc 0" 2])
  then show ?thesis using r3 by (meson rtranclp.rtrancl_into_rtrancl)
qed


section \<open>Properties\<close>



text \<open>C13. \<^verbatim>\<open>schedule\<close> makes exactly the right thread current: in every reachable state it picks the first thread after
  the current one in ring order that is ready, or stays with the current thread if that is still running
  and no other is ready. The thread it picks is then running, a user thread it switches to is on its own
  address space, and no third thread changes. When no thread of the ring can run, the walk never ends.\<close>

theorem schedule_exact:
  assumes reach: "sched_step\<^sup>*\<^sup>* (\<lambda>_. 0, sched_init) (ext, s)"
    and c: "current_on s m = Some c" and r: "ring (links s) (TM_LIST m) (map THREAD_LIST ts)"
  shows "case find (\<lambda>t. \<exists>th. sched_threads s t = Some th \<and>
             (th_status th = thread_status_ready \<or> t = c \<and> th_status th = thread_status_running)) (rot c ts) of
       Some u \<Rightarrow> \<exists>s' th. (\<forall>fuel. length ts < fuel \<longrightarrow> schedule fuel m s = Some s') \<and> current_on s' m = Some u \<and>
         sched_threads s' u = Some th \<and> th_status th = thread_status_running \<and>
         (th_flags th AND THREAD_FLAG_USER \<noteq> 0 \<and> u \<noteq> c \<longrightarrow> th_vs th = Some (current_vspace s' m)) \<and>
         (\<forall>t. t \<noteq> c \<longrightarrow> t \<noteq> u \<longrightarrow> sched_threads s' t = sched_threads s t)
     | None \<Rightarrow> \<forall>fuel. schedule fuel m s = None"
proof -
  obtain rq where inv: "sched_inv ext rq s" using sched_run_inv [OF reach] by auto
  then have li: "links_inv rq s" and ri: "run_inv s" by (auto simp: sched_inv_def)
  obtain tm where tm: "managers s m = Some tm" "current_thread tm = Some c" using c by (cases "managers s m") (auto simp: current_on_def)
  have rq: "rq m = ts" using ring_rq [OF li _ r] tm(1) by simp
  obtain thc where thc: "sched_threads s c = Some thc" "th_tm thc = Some m" using run_invD(3) [OF ri tm] by blast
  then have cm: "c \<in> set ts" using links_invD(3) [OF li] rq by blast
  obtain s1 where s1: "sched_set_status_with_expect c thread_status_running thread_status_ready s = Some s1"
    using thc(1) by (simp add: sched_set_status_with_expect_def change_thread_def)
  let ?P = "\<lambda>t. \<exists>th. sched_threads s t = Some th \<and> (th_status th = thread_status_ready \<or> t = c \<and> th_status th = thread_status_running)"
  have "is_ready s1 t \<longleftrightarrow> ?P t" for t
    using s1 thc(1) by (auto simp: sched_set_status_with_expect_def change_thread_def is_ready_def split: if_splits)
  then have P: "is_ready s1 = ?P" by (simp add: fun_eq_iff)
  have nr: "next_ready s1 c ts = find ?P (rot c ts)" unfolding next_ready_def P ..
  show ?thesis
  proof (cases "find ?P (rot c ts)")
    case None
    then have "schedule fuel m s = None" for fuel
      using schedule_someD [OF inv tm, of fuel] s1 nr rq by (cases "schedule fuel m s") auto
    with None show ?thesis by simp
  next
    case (Some u)
    have u: "next_ready s1 c (rq m) = Some u" using Some nr rq by simp
    note spec = schedule_spec [OF inv tm s1 u]
    obtain s' th where s': "schedule (length ts + 1) m s = Some s'" "managers s' = (managers s)(m \<mapsto> tm\<lparr>current_thread := Some u\<rparr>)"
        "sched_threads s' u = Some th" "th_status th = thread_status_running"
        "th_flags th AND THREAD_FLAG_USER \<noteq> 0 \<and> u \<noteq> c \<longrightarrow> th_vs th = Some (current_vspace s' m)"
        "\<forall>t. t \<noteq> c \<longrightarrow> t \<noteq> u \<longrightarrow> sched_threads s' t = sched_threads s t"
      using spec [of "length ts + 1"] rq by auto
    have all: "schedule fuel m s = Some s'" if "length ts < fuel" for fuel
      using schedule_fuel [OF inv tm s'(1), of fuel] that by simp
    have "current_on s' m = Some u" using s'(2) by (simp add: current_on_def)
    with all s' Some show ?thesis by auto
  qed
qed

theorem schedule_exact_witness:
  "\<exists>s' th. schedule 3 0 duo = Some s' \<and> current_on s' 0 = Some 2 \<and> sched_threads s' 2 = Some th \<and> th_status th = thread_status_running"
proof -
  obtain ext where r: "sched_step\<^sup>*\<^sup>* (\<lambda>_. 0, sched_init) (ext, duo)" using duo_reachable by blast
  have "rot 1 [1, 2 :: nat] = [2, 1]" by (simp add: rot_def)
  then have "find (\<lambda>t. \<exists>th. sched_threads duo t = Some th \<and>
      (th_status th = thread_status_ready \<or> t = 1 \<and> th_status th = thread_status_running)) (rot 1 [1, 2]) = Some 2"
    by (simp add: duo_def kernel_thread_def)
  with schedule_exact [OF r duo_fields(2) duo_ring] show ?thesis by fastforce
qed

text \<open>C12. Scheduling is fair: a ready thread on a ring of \<open>n\<close> threads is made current after at most \<open>n - 1\<close> calls of
  \<^verbatim>\<open>schedule\<close> on its CPU, whatever the other threads and CPUs do meanwhile, as long as the ring of the CPU
  stays as it is; and until then every call of \<^verbatim>\<open>schedule\<close> returns.\<close>

theorem sched_fair:
  assumes reach: "sched_step\<^sup>*\<^sup>* (\<lambda>_. 0, sched_init) (ext, s)"
    and c: "current_on s m = Some c" "c \<noteq> t" and r: "ring (links s) (TM_LIST m) (map THREAD_LIST ts)"
    and t: "t \<in> set ts" "is_ready s t" and w: "waits m t ts (ext, s) k (ext', s')"
  shows "k < length ts \<and> (k = length ts - 1 \<longrightarrow> current_on s' m = Some t) \<and>
     (current_on s' m = Some t \<or> (\<exists>s''. schedule (length ts + 1) m s' = Some s''))"
proof -
  have inv: "\<exists>rq. sched_inv (fst (ext, s)) rq (snd (ext, s))" using sched_run_inv [OF reach] .
  then obtain rq where rq: "sched_inv ext rq s" by auto
  then have li: "links_inv rq s" and ri: "run_inv s" by (auto simp: sched_inv_def)
  obtain tm where tm: "managers s m = Some tm" "current_thread tm = Some c" using c(1) by (cases "managers s m") (auto simp: current_on_def)
  have "rq m = ts" using ring_rq [OF li _ r] tm(1) by simp
  then have cts: "c \<in> set ts" using run_invD(3) [OF ri tm] links_invD(3) [OF li] by blast
  note bound = turns_to_bound [OF cts t(1) c(2)]
  obtain rq' d where d: "sched_inv ext' rq' s'" "ring (links s') (TM_LIST m) (map THREAD_LIST ts)" "d \<in> set ts" "current_on s' m = Some d"
      "if d = t then k \<le> turns_to c t ts else is_ready s' t \<and> k + turns_to d t ts \<le> turns_to c t ts"
    using waits_bound [of "(ext, s)" m c ts t k "(ext', s')", OF inv] c r t cts w unfolding fst_conv snd_conv by blast
  show ?thesis
  proof (cases "d = t")
    case True
    with d bound show ?thesis by auto
  next
    case False
    have "1 \<le> turns_to d t ts" by (simp add: turns_to_def)
    then have "k + 1 < length ts" using d(5) False bound by auto
    moreover obtain s'' where "schedule (length ts + 1) m s' = Some s''"
      using turn_step [OF d(1,4,2) t(1) _ False] d(5) False by auto
    ultimately show ?thesis by auto
  qed
qed

theorem sched_fair_witness:
  "\<exists>ext. sched_step\<^sup>*\<^sup>* (\<lambda>_. 0, sched_init) (ext, duo) \<and>
     (\<forall>k ext' s'. waits 0 2 [1, 2] (ext, duo) k (ext', s') \<longrightarrow> k < 2)"
proof -
  obtain ext where r: "sched_step\<^sup>*\<^sup>* (\<lambda>_. 0, sched_init) (ext, duo)" using duo_reachable by blast
  have "k < 2" if "waits 0 2 [1, 2] (ext, duo) k (ext', s')" for k ext' s'
    using sched_fair [OF r duo_fields(2) _ duo_ring _ duo_fields(3) that] by simp
  with r show ?thesis by blast
qed

end
