(* ===== verification/Spec2Isabelle.thy ===== *)
theory Spec2Isabelle
  imports Rendezvos_Prelude Tagged_Ptr Link_List Ipc_Serial Message Kmsg Name_Index Port Port_Drain
    Page_Slice_Spec String_Ops Page_Slice_Copy Ebr Buddy_Init Ms_Queue_Spec Ipc_Spec Port_Cache Sched_Spec
begin

text \<open>
  A verification library for the core of the RendezvOS kernel, a C microkernel whose threads communicate through
  ports. The theories model the C sources under \<^verbatim>\<open>src/\<close> function by function and prove what the components
  promise each other.

  \<^bold>\<open>The parts and their theories.\<close>

  \<^item> \<open>Rendezvos_Prelude\<close>: integer types, error codes (\<^verbatim>\<open>include/rendezvos/error.h\<close>), rounding, alignment and paging
    macros (\<^verbatim>\<open>include/common/align.h\<close>, \<^verbatim>\<open>include/common/mm.h\<close>), byte encodings, and lemmas on words.
  \<^item> \<open>Tagged_Ptr\<close>: pointers with a tag in their upper 16 bits and bitmaps (\<^verbatim>\<open>include/common/taggedptr.h\<close>,
    \<^verbatim>\<open>include/common/dsa/bitmap.h\<close>).
  \<^item> \<open>Link_List\<close>: intrusive doubly linked lists on an explicit heap (\<^verbatim>\<open>include/common/dsa/list.h\<close>), with the interface
    \<open>list_heads\<close> for clients that keep several lists.
  \<^item> \<open>String_Ops\<close>: \<^verbatim>\<open>memset\<close>, \<^verbatim>\<open>memcpy\<close>, \<^verbatim>\<open>strlen\<close>, \<^verbatim>\<open>strcmp\<close>, \<^verbatim>\<open>strncpy\<close> (\<^verbatim>\<open>kernel/mm/string.c\<close>) on byte memory.
  \<^item> \<open>Ipc_Serial\<close>: the typed payload serializer (\<^verbatim>\<open>kernel/ipc/ipc_serial.c\<close>).
  \<^item> \<open>Message\<close>: messages, payloads and their reference counts (\<^verbatim>\<open>kernel/ipc/message.c\<close>, \<^verbatim>\<open>include/common/refcount.h\<close>).
  \<^item> \<open>Kmsg\<close>: kernel messages on top of both (\<^verbatim>\<open>kernel/ipc/kmsg.c\<close>).
  \<^item> \<open>Name_Index\<close>: the name registry, an open-addressing hash table over a row array with a free list and generation
    tokens (\<^verbatim>\<open>kernel/registry/name_index.c\<close>).
  \<^item> \<open>Port\<close>, \<open>Port_Drain\<close>: ports, the port table over the registry, and the protocol by which a closing port waits
    for the threads inside it (\<^verbatim>\<open>kernel/ipc/port.c\<close>).
  \<^item> \<open>Ebr\<close>: epoch-based reclamation (\<^verbatim>\<open>kernel/task/ebr.c\<close>).
  \<^item> \<open>Page_Slice\<close>, \<open>Page_Slice_Spec\<close>, \<open>Page_Slice_Copy\<close>: page slices, radix trees of up to three index levels that
    bind page offsets to pages (\<^verbatim>\<open>kernel/mm/page_slice.c\<close>), the map they implement, and the copies and the clone
    over them (\<^verbatim>\<open>kernel/mm/page_slice_copy.c\<close>).
  \<^item> \<open>Buddy\<close>, \<open>Buddy_Lists\<close>, \<open>Buddy_Spec\<close>, \<open>Buddy_Init\<close>: the physical page allocator over the linked lists, with zones,
    sections, page cursors and reference counts (\<^verbatim>\<open>kernel/mm/buddy_pmm.c\<close>, \<^verbatim>\<open>include/rendezvos/mm/pmm.h\<close>): the model, its
    lists and blocks, the invariant with allocation and freeing, and initialisation with the properties.
  \<^item> \<open>Ms_Queue\<close>, \<open>Ms_Queue_Inv\<close>, \<open>Ms_Queue_Spec\<close>: the lock-free queue of reference-counted nodes whose tagged pointers
    carry a state (\<^verbatim>\<open>include/common/dsa/ms_queue.h\<close>): the operations one access at a time, the invariant kept by every
    step, and the list they implement.
  \<^item> \<open>Ipc\<close>, \<open>Ipc_Inv\<close>, \<open>Ipc_Safe\<close>, \<open>Ipc_Term\<close>, \<open>Ipc_Spec\<close>: the send and receive paths over ports, messages and queues
    (\<^verbatim>\<open>kernel/ipc/ipc.c\<close>), the release of a thread's messages (\<^verbatim>\<open>thread_release_owned_resources\<close> of
    \<^verbatim>\<open>kernel/task/thread.c\<close>) and the wake-up of the threads on a closing port (\<^verbatim>\<open>port_clean_thread_queue\<close>): the model, the
    invariant with a rule for every primitive operation, the rules of the calls, the end of the send loop, and the
    properties.
  \<^item> \<open>Port_Cache\<close>: the cache of port tokens in each thread and the lookup through it (\<^verbatim>\<open>thread_lookup_port\<close> and
    \<^verbatim>\<open>thread_port_cache_*\<close> of \<^verbatim>\<open>kernel/task/thread.c\<close>), over the interface \<open>token_table\<close> that the port table provides.
  \<^item> \<open>Sched\<close>, \<open>Sched_Spec\<close>: the scheduler (\<^verbatim>\<open>kernel/task/task_manager.c\<close>) with the rings of threads
    (\<^verbatim>\<open>kernel/task/thread_boot.c\<close>) and the references and CPU bitmaps of address spaces: the model with the walk of a
    ring, and the invariant over all CPUs with the properties.

  \<^bold>\<open>How state and operations correspond.\<close> A C structure is a record with the same fields, an enumeration a datatype,
  and each C function a definition of the same name that takes the state and returns it updated. Errors are values of
  \<open>error_t\<close>; undefined behaviour (an access outside a buffer, a dangling or null pointer) is a separate outcome, \<open>Undef\<close>
  or \<open>None\<close>, so that the theorems also say that it does not occur. Allocation is a parameter that says which requests
  succeed; theorems hold for every such parameter. Locked sections are single steps, since the lock makes them atomic;
  the lock-free protocols (\<open>Port_Drain\<close>, \<open>Ebr\<close>, \<open>Ms_Queue\<close>) are step relations with one step per shared access, in sequentially
  consistent memory. In \<open>Ipc\<close> a call runs without interruption, except that other threads may exit at the points where the
  code looks for it, and a queue is the list that \<open>Ms_Queue_Spec\<close> shows the lock-free queue to implement, with the
  reference each operation takes. Integers that can wrap are words or carry their \<open>mod\<close>.

  \<^bold>\<open>What is shown.\<close> For the registry and the port table, that lookups are exact in every reachable state, with failing
  allocations, growth and shrinking, and that updates change exactly one entry or nothing. For messages, that counts are
  exact and no freed memory is touched. For the serializer and kernel messages, round trips against a reference wire
  format and that decoding fixed-size fields stays inside the buffer. For page slices, that each operation changes
  exactly the lookups it should, that pages are freed exactly once, and that copies and clones move exactly the bytes
  asked for. For the string routines, that the word-at-a-time code equals byte loops. For the page allocator, that
  allocation and freeing refine the set of free pages and keep every reference count. For the lock-free queue, that it
  refines a first-in first-out list whose waiting nodes share one state. For the send and receive paths, that no sequence of
  calls uses a freed message, request or thread, that a send to a waiting receiver delivers exactly its first message and
  the receiver reads what was sent, and that a send ends. For the port cache, that it cannot be observed, that its count is exact and that it displaces the
  least recently used entry. For the scheduler, that it picks the next ready thread of the ring, that every ready thread
  has its turn, and that no CPU runs on a freed address space. For the protocols, exclusion and absence of use
  after free under every interleaving. Several theorems state defects that the model exposed: a
  wrapping bound check in the decoder, two leaks on failed allocations, a row placed twice in the hash table, a byte that
  \<^verbatim>\<open>strncpy\<close> skips, a truncated length in \<^verbatim>\<open>memcpy\<close>, a block built past the end of a short zone, a decrement of page
  references that is not undone, queue nodes that are never freed, a receive that never returns, a message that is put
  twice when a port closes, ages in the port cache that wrap, and a thread without an address space of its own that keeps
  the threads behind it from running.

  \<^bold>\<open>Loops and fuel.\<close> Loops are structural or have a termination proof; the scans of \<open>String_Ops\<close> and the walk of the clone
  are partial functions into \<open>option\<close>, with theorems that they return. \<^verbatim>\<open>list_for_each\<close> has fuel, for which the length
  of the list is enough. The runs of \<open>Ebr\<close> are shorter than \<open>2^64\<close> steps, which keeps its epoch counter from wrapping.
  The reclaim retries of the page allocator are bounded by the 64 attempts of the code. The walk that reads the lock-free
  queue as a list takes as many steps as nodes were ever linked. The loops of send and receive take the number of rounds as
  an argument and say when they used it up: for a send one more round than requests wait on the port is enough, for a
  receive no number is. The walk of the scheduler has fuel, for which one more than the threads on the ring is enough; when
  no thread can run, no fuel is.

  \<^bold>\<open>Not modelled.\<close> Boot, trap and context-switch code and page-table formats (architecture code, assembly), spin locks and
  per-CPU data, device and firmware parsers, drivers, tests. Of the kernel core: the memory regions from which zones are
  built (\<^verbatim>\<open>kernel/mm/pmm.c\<close>), the red-black tree and timers (\<^verbatim>\<open>include/common/dsa/rb_tree.h\<close>, \<^verbatim>\<open>kernel/time/time.c\<close>), the
  creation, copying and loading of threads (\<^verbatim>\<open>kernel/task/thread_loader.c\<close>, parts of \<^verbatim>\<open>kernel/task/thread.c\<close>), the kernel heap (\<^verbatim>\<open>kernel/mm/kmalloc.c\<close>) and virtual memory
  (\<^verbatim>\<open>kernel/mm/vmm_radix_tree.c\<close>, \<^verbatim>\<open>kernel/mm/map_handler.c\<close>, \<^verbatim>\<open>kernel/mm/vmm.c\<close>), which rest on page tables and locks
  outside this library. Interference between two calls of \<open>Ipc\<close> at other points than the exits is covered only by the
  step relations of the queue and of the port drain. In \<open>Sched\<close> a call of \<^verbatim>\<open>schedule\<close> is one step; a status that another CPU
  changes in the middle of its walk is not covered.
\<close>

end
